(* ===== verification/Prelude.thy ===== *)
theory Prelude
  imports Main "HOL-Library.Word"
begin

unbundle bit_operations_syntax

text \<open>
  Shared types, fact collections and generic lemmas of the development.

  A C byte (\<^verbatim>\<open>unsigned char\<close>, and \<^verbatim>\<open>char\<close> wherever the code only compares it with
  ASCII literals or tests membership in an ASCII range, which a sign extension does not
  change) is an \<open>8 word\<close>; \<^verbatim>\<open>uint16_t\<close>, \<^verbatim>\<open>uint32_t\<close>, \<^verbatim>\<open>uint64_t\<close>, \<^verbatim>\<open>size_t\<close> and
  \<^verbatim>\<open>uintptr_t\<close> are words of their width. A buffer \<open>(p, len)\<close> is a byte list; a cursor
  into it is a \<open>nat\<close> below its length, or the suffix that starts there.
\<close>

type_synonym byte = "8 word"
type_synonym u16 = "16 word"
type_synonym u32 = "32 word"
type_synonym u64 = "64 word"

text \<open>
  The collections that carry the component proofs: \<open>byte_simps\<close> moves comparisons of
  words to \<open>nat\<close>, \<open>bit_nat\<close> reads the bit operations of the source as arithmetic.
\<close>

named_theorems byte_simps \<open>comparisons on words read on nat\<close>
named_theorems bit_nat \<open>masks and shifts read as div and mod on nat\<close>

section \<open>Bytes of C string literals\<close>

definition bytes_of :: "string \<Rightarrow> byte list" where
  "bytes_of s = map of_char s"

lemma length_bytes_of [simp]: "length (bytes_of s) = length s"
  by (simp add: bytes_of_def)

lemma bytes_of_Nil [simp]: "bytes_of [] = []"
  by (simp add: bytes_of_def)

lemma bytes_of_Cons [simp]: "bytes_of (c # s) = of_char c # bytes_of s"
  by (simp add: bytes_of_def)

section \<open>Character ranges used throughout the scanners\<close>

definition is_digit :: "byte \<Rightarrow> bool" where
  "is_digit c \<longleftrightarrow> 0x30 \<le> c \<and> c \<le> 0x39"

definition digit_val :: "byte \<Rightarrow> nat" where
  "digit_val c = unat c - 0x30"

lemma digit_val_less: "is_digit c \<Longrightarrow> digit_val c < 10"
  by (auto simp: is_digit_def digit_val_def word_le_nat_alt)

section \<open>Words as natural numbers\<close>

declare word_less_nat_alt [byte_simps] word_le_nat_alt [byte_simps]

lemma unat_drop_bit [bit_nat]: "unat (drop_bit n x) = unat x div 2 ^ n" for x :: "'a::len word"
  by (rule trans [OF unat_drop_bit_eq drop_bit_eq_div])

lemma map_unat_inj: "map unat xs = map unat ys \<longleftrightarrow> xs = ys" for xs ys :: "'a::len word list"
  by (rule inj_map_eq_map) (simp add: inj_on_def word_unat_eq_iff)

lemma byte_bound: "unat (b :: byte) < 256"
  using unsigned_less [of b] by simp

lemma unat_take_bit: "unat (take_bit n x) = unat x mod 2 ^ n" for x :: "'a::len word"
proof -
  have "unat (take_bit n x) = take_bit n (unat x)"
    by transfer (simp add: take_bit_nat_eq min.commute take_bit_int_eq_self_iff)
  then show ?thesis
    by (simp only: take_bit_eq_mod)
qed

lemma unat_and_mask: "unat (x AND mask n) = unat x mod 2 ^ n" for x :: "'a::len word"
  using unat_take_bit [of n x] by (simp only: take_bit_eq_mask)

lemma unat_push_bit: "unat (push_bit n x) = (unat x * 2 ^ n) mod 2 ^ LENGTH('a)"
  for x :: "'a::len word"
proof -
  have "push_bit n x = of_nat (unat x * 2 ^ n)"
    by (simp add: push_bit_eq_mult)
  then show ?thesis
    by (simp only: unsigned_of_nat take_bit_eq_mod of_nat_id)
qed

lemma unat_ucast: "unat (ucast x :: 'b::len word) = unat x mod 2 ^ LENGTH('b)"
  for x :: "'a::len word"
  by (simp add: unsigned_ucast_eq take_bit_eq_mod)

lemma unat_of_nat_u64: "n < 2 ^ 64 \<Longrightarrow> unat (of_nat n :: u64) = n"
  by (simp only: unsigned_of_nat take_bit_eq_mod of_nat_id) simp

lemma unat_u64: "unat (x :: u64) < 2 ^ 64"
  using unsigned_less [of x] by simp

lemma unat_pow2_u64: "k < 64 \<Longrightarrow> unat (2 ^ k :: u64) = 2 ^ k"
  using unat_of_nat_u64 [of "2 ^ k"] power_strict_increasing [of k 64 "2 :: nat"] by simp

lemma nat_or_disjoint:
  fixes a b :: nat
  assumes "2 ^ k dvd a" and "b < 2 ^ k"
  shows "a OR b = a + b"
proof -
  have "a AND b = 0"
  proof (rule bit_eqI)
    fix n
    obtain q where q: "a = push_bit k q"
      using assms(1) by (auto simp: dvd_def push_bit_eq_mult mult.commute)
    have "\<not> bit a n" if "n < k"
      using that by (simp add: q bit_push_bit_iff_nat)
    moreover have "\<not> bit b n" if "k \<le> n"
    proof -
      have "b < 2 ^ n" using assms(2) that by (meson less_le_trans one_le_numeral power_increasing)
      then show ?thesis by (simp add: bit_iff_odd)
    qed
    ultimately show "bit (a AND b) n \<longleftrightarrow> bit (0::nat) n"
      by (cases "n < k") (simp_all add: bit_and_iff)
  qed
  then show ?thesis
    by (simp add: disjunctive_add_eq_or)
qed

lemma unat_or_disjoint:
  fixes a b :: "'a::len word"
  assumes "2 ^ k dvd unat a" and "unat b < 2 ^ k"
  shows "unat (a OR b) = unat a + unat b"
  using nat_or_disjoint [OF assms] by (simp add: unsigned_or_eq)

end
