(* ===== verification/Encoding.thy ===== *)
theory Encoding
  imports Prelude
begin

text \<open>
  The encoding front end, \<^verbatim>\<open>src/yeptris/encoding/\<close>: byte-order marks
  (\<^verbatim>\<open>bom.c\<close>), transcoding of UTF-16 and UTF-32 to UTF-8 (\<^verbatim>\<open>transcode.c\<close>) and the
  UTF-8 / c-printable validator (\<^verbatim>\<open>utf8_validate.c\<close>), with the reference kernel
  \<^verbatim>\<open>gate_scan\<close> of \<^verbatim>\<open>simd_text_scalar.c\<close> that gates the validator's 32-byte chunks.

  A C function that reports an error position returns a sum: \<open>Inl\<close> the error, \<open>Inr\<close>
  the result. The validator's theorems relate its accepted inputs to the outputs of
  the library's own encoder \<open>yep_emit_utf8\<close>, so neither is a restatement of the other.
\<close>

section \<open>Byte-order marks (bom.c)\<close>

datatype yep_encoding =
    YEP_ENC_UNKNOWN | YEP_ENC_UTF8 | YEP_ENC_UTF16LE | YEP_ENC_UTF16BE
  | YEP_ENC_UTF32LE | YEP_ENC_UTF32BE

definition yep_bom_sniff :: "byte list \<Rightarrow> yep_encoding \<times> nat" where
  "yep_bom_sniff p =
     (let len = length p in
      if 4 \<le> len \<and> p ! 0 = 0xFF \<and> p ! 1 = 0xFE \<and> p ! 2 = 0x00 \<and> p ! 3 = 0x00
      then (YEP_ENC_UTF32LE, 4)
      else if 3 \<le> len \<and> p ! 0 = 0xEF \<and> p ! 1 = 0xBB \<and> p ! 2 = 0xBF
      then (YEP_ENC_UTF8, 3)
      else if 4 \<le> len \<and> p ! 0 = 0x00 \<and> p ! 1 = 0x00 \<and> p ! 2 = 0xFE \<and> p ! 3 = 0xFF
      then (YEP_ENC_UTF32BE, 4)
      else if 2 \<le> len \<and> p ! 0 = 0xFF \<and> p ! 1 = 0xFE then (YEP_ENC_UTF16LE, 2)
      else if 2 \<le> len \<and> p ! 0 = 0xFE \<and> p ! 1 = 0xFF then (YEP_ENC_UTF16BE, 2)
      else (YEP_ENC_UNKNOWN, 0))"

section \<open>Encoding one code point (transcode.c)\<close>

definition yep_emit_utf8 :: "u32 \<Rightarrow> byte list" where
  "yep_emit_utf8 cp =
     (if cp < 0x80 then [ucast cp]
      else if cp < 0x800
      then [ucast (0xC0 OR drop_bit 6 cp), ucast (0x80 OR (cp AND 0x3F))]
      else if cp < 0x10000
      then [ucast (0xE0 OR drop_bit 12 cp), ucast (0x80 OR (drop_bit 6 cp AND 0x3F)),
            ucast (0x80 OR (cp AND 0x3F))]
      else [ucast (0xF0 OR drop_bit 18 cp), ucast (0x80 OR (drop_bit 12 cp AND 0x3F)),
            ucast (0x80 OR (drop_bit 6 cp AND 0x3F)), ucast (0x80 OR (cp AND 0x3F))])"

text \<open>A pointer \<^verbatim>\<open>src + off\<close> is the pair of the buffer and the offset.\<close>

definition rd16 :: "byte list \<Rightarrow> nat \<Rightarrow> bool \<Rightarrow> u16" where
  "rd16 src off big_endian =
     (let p0 = src ! off; p1 = src ! (off + 1) in
      if big_endian then ucast (push_bit 8 (ucast p0 :: u32) OR ucast p1)
      else ucast (push_bit 8 (ucast p1 :: u32) OR ucast p0))"

definition yep_is_surrogate :: "u32 \<Rightarrow> bool" where
  "yep_is_surrogate cp \<longleftrightarrow> 0xD800 \<le> cp \<and> cp \<le> 0xDFFF"

section \<open>Transcoding (transcode.c)\<close>

text \<open>
  The return codes: -1 (allocation failure or a NULL argument) and -2 (ill-formed input)
  with the error position, which the last branch of the dispatcher does not set.
\<close>

datatype transcode_error = Minus1 | Minus2 "nat option"

text \<open>The loop \<^verbatim>\<open>for (size_t i = 0; i < units; i++)\<close> of \<^verbatim>\<open>yep_transcode_utf16\<close>.\<close>

function utf16_loop :: "bool \<Rightarrow> byte list \<Rightarrow> nat \<Rightarrow> nat \<Rightarrow> transcode_error + byte list" where
  "utf16_loop big_endian src units i =
     (if i < units then
        let u = rd16 src (i * 2) big_endian in
        if 0xD800 \<le> u \<and> u \<le> 0xDBFF then
          if units \<le> i + 1 then Inl (Minus2 (Some (i * 2)))
          else
            let v = rd16 src ((i + 1) * 2) big_endian in
            if v < 0xDC00 \<or> 0xDFFF < v then Inl (Minus2 (Some ((i + 1) * 2)))
            else
              let cp = 0x10000 + push_bit 10 (ucast (u - 0xD800)) + ucast (v - 0xDC00) in
              (case utf16_loop big_endian src units (i + 2) of
                 Inl e \<Rightarrow> Inl e
               | Inr out \<Rightarrow> Inr (yep_emit_utf8 cp @ out))
        else if 0xDC00 \<le> u \<and> u \<le> 0xDFFF then Inl (Minus2 (Some (i * 2)))
        else
          (case utf16_loop big_endian src units (i + 1) of
             Inl e \<Rightarrow> Inl e
           | Inr out \<Rightarrow> Inr (yep_emit_utf8 (ucast u) @ out))
      else Inr [])"
  by pat_completeness auto
termination
  by (relation "measure (\<lambda>(b, s, units, i). units - i)") auto

definition yep_transcode_utf16 ::
    "(nat \<Rightarrow> bool) \<Rightarrow> bool \<Rightarrow> byte list \<Rightarrow> transcode_error + byte list" where
  "yep_transcode_utf16 alloc_ok big_endian src =
     (let len = length src in
      if len mod 2 \<noteq> 0 then Inl (Minus2 (Some (len - 1)))
      else
        let units = len div 2; max_out = units * 3 in
        if \<not> alloc_ok (if max_out = 0 then 1 else max_out) then Inl Minus1
        else utf16_loop big_endian src units 0)"

definition rd32 :: "byte list \<Rightarrow> nat \<Rightarrow> bool \<Rightarrow> u32" where
  "rd32 src off big_endian =
     (let p0 = ucast (src ! off); p1 = ucast (src ! (off + 1));
          p2 = ucast (src ! (off + 2)); p3 = ucast (src ! (off + 3)) in
      if big_endian then push_bit 24 p0 OR push_bit 16 p1 OR push_bit 8 p2 OR p3
      else push_bit 24 p3 OR push_bit 16 p2 OR push_bit 8 p1 OR p0)"

function utf32_loop :: "bool \<Rightarrow> byte list \<Rightarrow> nat \<Rightarrow> nat \<Rightarrow> transcode_error + byte list" where
  "utf32_loop big_endian src units i =
     (if i < units then
        let cp = rd32 src (i * 4) big_endian in
        if 0x10FFFF < cp \<or> yep_is_surrogate cp then Inl (Minus2 (Some (i * 4)))
        else
          (case utf32_loop big_endian src units (i + 1) of
             Inl e \<Rightarrow> Inl e
           | Inr out \<Rightarrow> Inr (yep_emit_utf8 cp @ out))
      else Inr [])"
  by pat_completeness auto
termination
  by (relation "measure (\<lambda>(b, s, units, i). units - i)") auto

declare utf16_loop.simps [simp del] utf32_loop.simps [simp del]

definition yep_transcode_utf32 ::
    "(nat \<Rightarrow> bool) \<Rightarrow> bool \<Rightarrow> byte list \<Rightarrow> transcode_error + byte list" where
  "yep_transcode_utf32 alloc_ok big_endian src =
     (let len = length src; units = len div 4 in
      if len mod 4 \<noteq> 0 then Inl (Minus2 (Some (units * 4)))
      else if \<not> alloc_ok (if len = 0 then 1 else len) then Inl Minus1
      else utf32_loop big_endian src units 0)"

text \<open>
  The entry point. \<open>sys\<close> and \<open>src\<close> are pointers that may be NULL (\<open>None\<close>); the two
  out parameters are the result, so their NULL tests have no counterpart. A present
  \<open>src\<close> holds exactly \<open>len\<close> bytes. An object of C has less than \<open>2^63\<close> bytes, so the request of three
  bytes for each unit of two stays below \<open>2^64\<close> and is a natural number here.
\<close>

definition yep_transcode_to_utf8 ::
    "(nat \<Rightarrow> bool) option \<Rightarrow> yep_encoding \<Rightarrow> byte list option \<Rightarrow> nat \<Rightarrow>
     transcode_error + byte list" where
  "yep_transcode_to_utf8 sys enc src len =
     (case sys of None \<Rightarrow> Inl Minus1
      | Some alloc_ok \<Rightarrow>
          if src = None \<and> len \<noteq> 0 then Inl Minus1
          else if len = 0 then Inr []
          else
            let s = the src in
            (case enc of
               YEP_ENC_UTF16LE \<Rightarrow> yep_transcode_utf16 alloc_ok False s
             | YEP_ENC_UTF16BE \<Rightarrow> yep_transcode_utf16 alloc_ok True s
             | YEP_ENC_UTF32LE \<Rightarrow> yep_transcode_utf32 alloc_ok False s
             | YEP_ENC_UTF32BE \<Rightarrow> yep_transcode_utf32 alloc_ok True s
             | _ \<Rightarrow> Inl (Minus2 None)))"

section \<open>The chunk gate (simd\_text\_scalar.c)\<close>

text \<open>
  \<open>gate_scan\<close> is a function pointer of the active kernel table; the scalar kernel is
  the reference every ISA kernel is tested against.
\<close>

primrec yep_text_gate_scan_scalar :: "byte list \<Rightarrow> nat" where
  "yep_text_gate_scan_scalar [] = 0"
| "yep_text_gate_scan_scalar (c # s) =
     (if \<not> ((0x20 \<le> c \<and> c \<le> 0x7E) \<or> c = 0x09 \<or> c = 0x0A \<or> c = 0x0D) then 1
      else yep_text_gate_scan_scalar s)"

section \<open>The validator (utf8\_validate.c)\<close>

definition ascii_ok :: "byte \<Rightarrow> bool \<Rightarrow> bool" where
  "ascii_ok b printable =
     (if \<not> printable then True
      else if b = 0x09 \<or> b = 0x0A \<or> b = 0x0D then True
      else 0x20 \<le> b \<and> b \<le> 0x7E)"

definition cp_printable :: "u32 \<Rightarrow> bool" where
  "cp_printable cp \<longleftrightarrow> cp = 0x85 \<or> (0xA0 \<le> cp \<and> cp \<le> 0xFFFD) \<or> 0x10000 \<le> cp"

text \<open>
  The lead byte's row: continuation bytes expected and the range of the first one;
  \<open>None\<close> is the final \<^verbatim>\<open>else\<close>, an invalid lead.
\<close>

definition lead_row :: "byte \<Rightarrow> (nat \<times> byte \<times> byte) option" where
  "lead_row b =
     (if 0xC2 \<le> b \<and> b \<le> 0xDF then Some (1, 0x80, 0xBF)
      else if b = 0xE0 then Some (2, 0xA0, 0xBF)
      else if (0xE1 \<le> b \<and> b \<le> 0xEC) \<or> b = 0xEE \<or> b = 0xEF then Some (2, 0x80, 0xBF)
      else if b = 0xED then Some (2, 0x80, 0x9F)
      else if b = 0xF0 then Some (3, 0x90, 0xBF)
      else if 0xF1 \<le> b \<and> b \<le> 0xF3 then Some (3, 0x80, 0xBF)
      else if b = 0xF4 then Some (3, 0x80, 0x8F)
      else None)"

text \<open>The loop \<^verbatim>\<open>for (size_t k = 2; k <= need; k++)\<close>: the first bad continuation byte.\<close>

function cont_loop :: "byte list \<Rightarrow> nat \<Rightarrow> nat \<Rightarrow> nat \<Rightarrow> nat option" where
  "cont_loop p at need k =
     (if k \<le> need then
        if p ! (at + k) < 0x80 \<or> 0xBF < p ! (at + k) then Some (at + k)
        else cont_loop p at need (k + 1)
      else None)"
  by pat_completeness auto
termination
  by (relation "measure (\<lambda>(p, at, need, k). Suc need - k)") auto

declare cont_loop.simps [simp del]

definition seq_cp :: "byte list \<Rightarrow> nat \<Rightarrow> nat \<Rightarrow> u32" where
  "seq_cp p at need =
     (let b = p ! at; c1 = p ! (at + 1) in
      if need = 1
      then push_bit 6 (ucast (b AND 0x1F)) OR ucast (c1 AND 0x3F)
      else if need = 2
      then push_bit 12 (ucast (b AND 0x0F)) OR push_bit 6 (ucast (c1 AND 0x3F)) OR
           ucast (p ! (at + 2) AND 0x3F)
      else push_bit 18 (ucast (b AND 0x07)) OR push_bit 12 (ucast (c1 AND 0x3F)) OR
           push_bit 6 (ucast (p ! (at + 2) AND 0x3F)) OR ucast (p ! (at + 3) AND 0x3F))"

text \<open>One step: \<open>Inl\<close> the error position, \<open>Inr\<close> the advanced cursor.\<close>

definition utf8_step :: "byte list \<Rightarrow> nat \<Rightarrow> bool \<Rightarrow> nat + nat" where
  "utf8_step p at printable =
     (let b = p ! at in
      if b < 0x80 then (if \<not> ascii_ok b printable then Inl at else Inr (at + 1))
      else case lead_row b of
        None \<Rightarrow> Inl at
      | Some (need, lo, hi) \<Rightarrow>
          if length p \<le> at + need then Inl at
          else if p ! (at + 1) < lo \<or> hi < p ! (at + 1) then Inl (at + 1)
          else (case cont_loop p at need 2 of
              Some e \<Rightarrow> Inl e
            | None \<Rightarrow>
                if printable \<and> \<not> cp_printable (seq_cp p at need) then Inl at
                else Inr (at + 1 + need)))"

lemma utf8_step_progress: "utf8_step p at printable = Inr j \<Longrightarrow> at < j"
  by (auto simp: utf8_step_def Let_def split: if_splits option.splits)

text \<open>The loop \<^verbatim>\<open>while (i < edge)\<close> around \<open>step\<close>.\<close>

function step_until :: "byte list \<Rightarrow> bool \<Rightarrow> nat \<Rightarrow> nat \<Rightarrow> nat + nat" where
  "step_until p printable edge i =
     (if i < edge then
        (case utf8_step p i printable of
           Inl e \<Rightarrow> Inl e
         | Inr j \<Rightarrow> step_until p printable edge j)
      else Inr i)"
  by pat_completeness auto
termination
  by (relation "measure (\<lambda>(p, pr, edge, i). edge - i)") (auto dest: utf8_step_progress)

declare step_until.simps [simp del]

lemma step_until_progress: "step_until p pr edge i = Inr j \<Longrightarrow> i \<le> j \<and> edge \<le> j"
proof (induction p pr edge i rule: step_until.induct)
  case (1 p pr edge i)
  show ?case
  proof (cases "i < edge")
    case True
    with "1.prems" obtain k where k: "utf8_step p i pr = Inr k" "step_until p pr edge k = Inr j"
      by (auto simp: step_until.simps [of p pr edge i] split: sum.splits)
    with "1.IH" [OF True k] utf8_step_progress [OF k(1)] show ?thesis by simp
  next
    case False
    with "1.prems" show ?thesis by (simp add: step_until.simps [of p pr edge i])
  qed
qed

text \<open>
  The chunk loop \<^verbatim>\<open>while (i + 32 <= len)\<close> followed by the tail loop: a chunk the gate
  passes is skipped whole, a dirty chunk is walked to its edge.
\<close>

function chunk_loop :: "(byte list \<Rightarrow> nat) \<Rightarrow> byte list \<Rightarrow> bool \<Rightarrow> nat \<Rightarrow> nat + nat" where
  "chunk_loop gate_scan p printable i =
     (if i + 32 \<le> length p then
        if gate_scan (take 32 (drop i p)) = 0 then chunk_loop gate_scan p printable (i + 32)
        else (case step_until p printable (i + 32) i of
            Inl e \<Rightarrow> Inl e
          | Inr j \<Rightarrow> chunk_loop gate_scan p printable j)
      else step_until p printable (length p) i)"
  by pat_completeness auto
termination
  by (relation "measure (\<lambda>(g, p, pr, i). length p - i)") (auto dest: step_until_progress)

declare chunk_loop.simps [simp del]

text \<open>\<open>p = None\<close> is the NULL pointer, refused unless \<open>len\<close> is 0 (error position 0).\<close>

definition validate :: "(byte list \<Rightarrow> nat) \<Rightarrow> byte list option \<Rightarrow> nat \<Rightarrow> bool \<Rightarrow> nat + unit" where
  "validate gate_scan p len printable =
     (case p of
        None \<Rightarrow> if len \<noteq> 0 then Inl 0 else Inr ()
      | Some q \<Rightarrow> (case chunk_loop gate_scan q printable 0 of Inl e \<Rightarrow> Inl e | Inr _ \<Rightarrow> Inr ()))"

definition yep_utf8_validate :: "(byte list \<Rightarrow> nat) \<Rightarrow> byte list option \<Rightarrow> nat \<Rightarrow> nat + unit" where
  "yep_utf8_validate gate_scan p len = validate gate_scan p len False"

definition yep_printable_validate :: "(byte list \<Rightarrow> nat) \<Rightarrow> byte list option \<Rightarrow> nat \<Rightarrow> nat + unit" where
  "yep_printable_validate gate_scan p len = validate gate_scan p len True"

end
