(* ===== verification/Utf8_Facts.thy ===== *)
theory Utf8_Facts
  imports Encoding
begin

text \<open>
  Correctness of the UTF-8 validator of \<^verbatim>\<open>utf8_validate.c\<close>. One step accepts exactly
  the encodings that \<open>yep_emit_utf8\<close> of \<^verbatim>\<open>transcode.c\<close> produces for a Unicode scalar
  value (\<open>utf8_step_sound\<close>, \<open>utf8_step_complete\<close>); the loops lift this to whole
  inputs; the locale \<open>gate_kernel\<close> states what the validator relies on in the
  \<^verbatim>\<open>gate_scan\<close> kernel and shows that skipping gated chunks changes neither the verdict
  nor the error position. Code points are handled on \<open>nat\<close> as lists of six-bit digits
  (\<open>emit_nat\<close>).
\<close>

section \<open>The encoder on natural numbers\<close>

definition emit_nat :: "nat \<Rightarrow> nat list" where
  "emit_nat n =
     (if n < 0x80 then [n]
      else if n < 0x800 then [0xC0 + n div 64, 0x80 + n mod 64]
      else if n < 0x10000 then [0xE0 + n div 64 div 64, 0x80 + n div 64 mod 64, 0x80 + n mod 64]
      else [0xF0 + n div 64 div 64 div 64, 0x80 + n div 64 div 64 mod 64, 0x80 + n div 64 mod 64,
            0x80 + n mod 64])"

lemma div_64_64: "n div 4096 = n div 64 div 64" "n div 262144 = n div 64 div 64 div 64" for n :: nat
  using div_mult2_eq [of n 64 64] div_mult2_eq [of n 4096 64] by simp_all

lemma unat_and_6: "unat (x AND 0x3F) = unat x mod 64" for x :: "'a::len word"
  using unat_and_mask [of x 6] by (simp add: mask_eq_exp_minus_1)

lemma unat_cont_byte: "unat (ucast (0x80 OR (x AND 0x3F)) :: byte) = 0x80 + unat x mod 64"
  for x :: u32
proof -
  have "unat (0x80 OR (x AND 0x3F)) = unat (0x80 :: u32) + unat (x AND 0x3F)"
    by (rule unat_or_disjoint [of 6]) (simp_all add: unat_and_6)
  then show ?thesis
    by (simp add: unat_ucast unat_and_6)
qed

lemma unat_lead_byte:
  fixes x :: u32
  assumes "2 ^ k dvd unat (t :: u32)" and "unat x < 2 ^ k" and "unat t + unat x < 256"
  shows "unat (ucast (t OR x) :: byte) = unat t + unat x"
  using unat_or_disjoint [OF assms(1,2)] assms(3) by (simp add: unat_ucast)

lemma unat_emit:
  assumes "unat cp < 0x110000"
  shows "map unat (yep_emit_utf8 cp) = emit_nat (unat cp)"
proof -
  have l1: "unat (ucast (0xC0 OR drop_bit 6 cp) :: byte) = 0xC0 + unat cp div 64" if "unat cp < 0x800"
    using that unat_lead_byte [of 5 "0xC0" "drop_bit 6 cp"] by (simp add: bit_nat less_mult_imp_div_less)
  have l2: "unat (ucast (0xE0 OR drop_bit 12 cp) :: byte) = 0xE0 + unat cp div 4096" if "unat cp < 0x10000"
    using that unat_lead_byte [of 4 "0xE0" "drop_bit 12 cp"] by (simp add: bit_nat less_mult_imp_div_less)
  have l3: "unat (ucast (0xF0 OR drop_bit 18 cp) :: byte) = 0xF0 + unat cp div 262144"
    using assms unat_lead_byte [of 3 "0xF0" "drop_bit 18 cp"] by (simp add: bit_nat less_mult_imp_div_less)
  have l0: "unat (ucast cp :: byte) = unat cp" if "unat cp < 0x80"
    using that by (simp add: unat_ucast)
  show ?thesis
    using assms l0 l1 l2 l3
    by (simp add: yep_emit_utf8_def emit_nat_def unat_cont_byte word_less_nat_alt bit_nat div_64_64
        del: unsigned_ucast_eq)
qed

lemma emit_eq_iff:
  assumes "n < 0x110000"
  shows "yep_emit_utf8 (of_nat n) = bs \<longleftrightarrow> map unat bs = emit_nat n"
proof -
  have "unat (of_nat n :: u32) = n" using assms by (simp add: unsigned_of_nat take_bit_nat_eq_self_iff)
  then show ?thesis using unat_emit [of "of_nat n"] assms by (metis map_unat_inj)
qed

text \<open>Unicode scalar values, and the YAML 1.2 production c-printable.\<close>

definition scalar_value :: "u32 \<Rightarrow> bool" where
  "scalar_value cp \<longleftrightarrow> cp \<le> 0x10FFFF \<and> \<not> yep_is_surrogate cp"

definition c_printable :: "u32 \<Rightarrow> bool" where
  "c_printable cp \<longleftrightarrow>
     cp = 0x09 \<or> cp = 0x0A \<or> cp = 0x0D \<or> (0x20 \<le> cp \<and> cp \<le> 0x7E) \<or> cp = 0x85 \<or>
     (0xA0 \<le> cp \<and> cp \<le> 0xD7FF) \<or> (0xE000 \<le> cp \<and> cp \<le> 0xFFFD) \<or>
     (0x10000 \<le> cp \<and> cp \<le> 0x10FFFF)"

definition unit_seq :: "bool \<Rightarrow> byte list \<Rightarrow> bool" where
  "unit_seq pr bs \<longleftrightarrow>
     (\<exists>cp. scalar_value cp \<and> (pr \<longrightarrow> c_printable cp) \<and> bs = yep_emit_utf8 cp)"

text \<open>The value of a sequence: its six-bit digits after the lead.\<close>

lemma emit_nat_2:
  assumes "2 \<le> x" "x < 32" "y < 64"
  shows "emit_nat (x * 64 + y) = [0xC0 + x, 0x80 + y]"
    "0x80 \<le> x * 64 + y" "x * 64 + y < 0x800"
  using assms by (simp_all add: emit_nat_def)

lemma six_bits: "r < 64 \<Longrightarrow> (q * 64 + r) div 64 = q \<and> (q * 64 + r) mod 64 = r" for q r :: nat
  by simp

lemma emit_nat_3:
  assumes "x < 16" "y < 64" "z < 64" "x = 0 \<Longrightarrow> 32 \<le> y"
  shows "emit_nat ((x * 64 + y) * 64 + z) = [0xE0 + x, 0x80 + y, 0x80 + z]"
    "0x800 \<le> (x * 64 + y) * 64 + z" "(x * 64 + y) * 64 + z < 0x10000"
proof -
  define q where "q = x * 64 + y"
  have "32 \<le> q" using assms(4) by (cases x) (auto simp: q_def)
  moreover have "q < 1024" "q div 64 = x" "q mod 64 = y" using assms(1,2) by (simp_all add: q_def)
  ultimately show "0x800 \<le> (x * 64 + y) * 64 + z" "(x * 64 + y) * 64 + z < 0x10000"
    "emit_nat ((x * 64 + y) * 64 + z) = [0xE0 + x, 0x80 + y, 0x80 + z]"
    using assms(3) six_bits [of z q] by (simp_all add: q_def [symmetric] emit_nat_def)
qed

lemma emit_nat_4:
  assumes "x < 5" "y < 64" "z < 64" "w < 64" "x = 0 \<Longrightarrow> 16 \<le> y" "x = 4 \<Longrightarrow> y < 16"
  shows "emit_nat (((x * 64 + y) * 64 + z) * 64 + w) = [0xF0 + x, 0x80 + y, 0x80 + z, 0x80 + w]"
    "0x10000 \<le> ((x * 64 + y) * 64 + z) * 64 + w" "((x * 64 + y) * 64 + z) * 64 + w < 0x110000"
proof -
  define q where "q = x * 64 + y"
  define r where "r = q * 64 + z"
  have q1: "16 \<le> q" using assms(5) by (cases x) (auto simp: q_def)
  have q2: "q < 272" using assms(1,2,6) by (cases "x = 4") (auto simp: q_def)
  have q3: "q div 64 = x" "q mod 64 = y" using assms(2) by (simp_all add: q_def)
  have r: "1024 \<le> r" "r < 17408" "r div 64 = q" "r mod 64 = z"
    using assms(3) q1 q2 by (simp_all add: r_def)
  with q3 show "0x10000 \<le> ((x * 64 + y) * 64 + z) * 64 + w"
    "((x * 64 + y) * 64 + z) * 64 + w < 0x110000"
    "emit_nat (((x * 64 + y) * 64 + z) * 64 + w) = [0xF0 + x, 0x80 + y, 0x80 + z, 0x80 + w]"
    using assms(4) six_bits [of w r] by (simp_all add: q_def [symmetric] r_def [symmetric] emit_nat_def)
qed

lemma unat_of_nat_u32: "n < 0x110000 \<Longrightarrow> unat (of_nat n :: u32) = n"
  by (simp add: unsigned_of_nat take_bit_nat_eq_self_iff)

lemma unat_ucast_up: "unat (ucast (b :: byte) :: u32) = unat b"
proof -
  have "unat b < 4294967296"
    by (rule less_trans [OF byte_bound]) simp
  then show ?thesis
    by (simp add: unat_ucast)
qed

lemma and_low_masks:
  "unat (b AND 0x1F) = unat b mod 32" "unat (b AND 0x0F) = unat b mod 16"
  "unat (b AND 0x07) = unat b mod 8" for b :: byte
  using unat_and_mask [of b 5] unat_and_mask [of b 4] unat_and_mask [of b 3]
  by (simp_all add: mask_eq_exp_minus_1)

lemma unat_shift_or:
  fixes a b :: u32
  assumes "unat a * 2 ^ k < 2 ^ 32" and "unat b < 2 ^ k"
  shows "unat (push_bit k a OR b) = unat a * 2 ^ k + unat b"
proof -
  have "unat (push_bit k a) = unat a * 2 ^ k"
    using assms(1) by (simp add: unat_push_bit)
  then show ?thesis
    using unat_or_disjoint [of k "push_bit k a" b] assms(2) by simp
qed

lemma seq_cp_1: "unat (seq_cp p at 1) = unat (p ! at) mod 32 * 64 + unat (p ! (at + 1)) mod 64"
  by (simp add: seq_cp_def Let_def unat_shift_or unat_ucast_up and_low_masks unat_and_6)

lemma seq_cp_2: "unat (seq_cp p at 2) =
   (unat (p ! at) mod 16 * 64 + unat (p ! (at + 1)) mod 64) * 64 + unat (p ! (at + 2)) mod 64"
proof -
  let ?b = "ucast (p ! at AND 0x0F) :: u32" and ?c = "ucast (p ! (at + 1) AND 0x3F) :: u32"
    and ?d = "ucast (p ! (at + 2) AND 0x3F) :: u32"
  have "unat ?b < 16" "unat ?c < 64" "unat ?d < 64"
    by (simp_all add: unat_ucast_up and_low_masks unat_and_6)
  then have "unat (push_bit 6 ?c OR ?d) = unat ?c * 64 + unat ?d"
    "unat ?c * 64 + unat ?d < 4096"
    by (simp_all add: unat_shift_or)
  with \<open>unat ?b < 16\<close> have "unat (push_bit 12 ?b OR (push_bit 6 ?c OR ?d)) = unat ?b * 4096 + (unat ?c * 64 + unat ?d)"
    by (simp add: unat_shift_or)
  then show ?thesis
    by (simp add: seq_cp_def Let_def unat_ucast_up and_low_masks unat_and_6 or.assoc)
qed

lemma seq_cp_3: "unat (seq_cp p at 3) =
   ((unat (p ! at) mod 8 * 64 + unat (p ! (at + 1)) mod 64) * 64 + unat (p ! (at + 2)) mod 64) * 64
     + unat (p ! (at + 3)) mod 64"
proof -
  let ?b = "ucast (p ! at AND 0x07) :: u32" and ?c = "ucast (p ! (at + 1) AND 0x3F) :: u32"
    and ?d = "ucast (p ! (at + 2) AND 0x3F) :: u32" and ?e = "ucast (p ! (at + 3) AND 0x3F) :: u32"
  have l: "unat ?b < 8" "unat ?c < 64" "unat ?d < 64" "unat ?e < 64"
    by (simp_all add: unat_ucast_up and_low_masks unat_and_6)
  then have 1: "unat (push_bit 6 ?d OR ?e) = unat ?d * 64 + unat ?e" "unat ?d * 64 + unat ?e < 4096"
    by (simp_all add: unat_shift_or)
  with l have 2: "unat (push_bit 12 ?c OR (push_bit 6 ?d OR ?e)) = unat ?c * 4096 + (unat ?d * 64 + unat ?e)"
    "unat ?c * 4096 + (unat ?d * 64 + unat ?e) < 262144"
    by (simp_all add: unat_shift_or)
  with l have "unat (push_bit 18 ?b OR (push_bit 12 ?c OR (push_bit 6 ?d OR ?e))) =
      unat ?b * 262144 + (unat ?c * 4096 + (unat ?d * 64 + unat ?e))"
    by (simp add: unat_shift_or)
  then show ?thesis
    by (simp add: seq_cp_def Let_def unat_ucast_up and_low_masks unat_and_6 or.assoc)
qed

lemma scalar_value_nat:
  "scalar_value cp \<longleftrightarrow> unat cp < 0x110000 \<and> \<not> (0xD800 \<le> unat cp \<and> unat cp \<le> 0xDFFF)"
  by (auto simp: scalar_value_def yep_is_surrogate_def word_le_nat_alt)

lemma c_printable_high:
  assumes "scalar_value cp" and "0x80 \<le> unat cp"
  shows "c_printable cp \<longleftrightarrow> cp_printable cp"
  using assms
  by (auto simp: scalar_value_nat c_printable_def cp_printable_def word_le_nat_alt word_unat_eq_iff)

lemma cont_loop_None:
  "cont_loop p at need 2 = None \<longleftrightarrow> (\<forall>k\<in>{2..need}. 0x80 \<le> p ! (at + k) \<and> p ! (at + k) \<le> 0xBF)"
proof -
  have "cont_loop p at need k0 = None \<longleftrightarrow> (\<forall>k\<in>{k0..need}. 0x80 \<le> p ! (at + k) \<and> p ! (at + k) \<le> 0xBF)" for k0
  proof (induction p at need k0 rule: cont_loop.induct)
    case (1 p at need k)
    have "{k..need} = (if k \<le> need then insert k {Suc k..need} else {})" by auto
    with 1 show ?case
      by (auto simp: cont_loop.simps [of p at need k] not_less)
  qed
  then show ?thesis .
qed

text \<open>
  The bytes of a sequence at \<open>at\<close>, as the lead row and the continuation checks of
  the step describe them, on \<open>nat\<close>.
\<close>

definition seq_ok :: "byte list \<Rightarrow> nat \<Rightarrow> nat \<Rightarrow> bool" where
  "seq_ok p at need \<longleftrightarrow> at + need < length p \<and>
     (\<exists>lo hi. lead_row (p ! at) = Some (need, lo, hi) \<and> lo \<le> p ! (at + 1) \<and> p ! (at + 1) \<le> hi) \<and>
     (\<forall>k\<in>{2..need}. 0x80 \<le> p ! (at + k) \<and> p ! (at + k) \<le> 0xBF)"

lemma utf8_step_Inr:
  "utf8_step p at pr = Inr j \<longleftrightarrow>
     (p ! at < 0x80 \<and> ascii_ok (p ! at) pr \<and> j = at + 1) \<or>
     (\<not> p ! at < 0x80 \<and> (\<exists>need. seq_ok p at need \<and> (pr \<longrightarrow> cp_printable (seq_cp p at need)) \<and>
        j = at + 1 + need))"
  by (auto simp: utf8_step_def seq_ok_def Let_def not_le not_less cont_loop_None [symmetric]
      split: if_splits option.splits)

lemma lead_rowD:
  assumes "lead_row b = Some (need, lo, hi)"
  shows "(need = 1 \<and> 194 \<le> unat b \<and> unat b \<le> 223 \<and> lo = 0x80 \<and> hi = 0xBF) \<or>
     (need = 2 \<and> 224 \<le> unat b \<and> unat b \<le> 239 \<and> lo = (if unat b = 224 then 0xA0 else 0x80) \<and>
        hi = (if unat b = 237 then 0x9F else 0xBF)) \<or>
     (need = 3 \<and> 240 \<le> unat b \<and> unat b \<le> 244 \<and> lo = (if unat b = 240 then 0x90 else 0x80) \<and>
        hi = (if unat b = 244 then 0x8F else 0xBF))"
  using assms unfolding lead_row_def by (simp add: word_le_nat_alt split: if_splits) (elim disjE; simp)+

lemma lead_row_1: "194 \<le> unat b \<Longrightarrow> unat b \<le> 223 \<Longrightarrow> lead_row b = Some (1, 0x80, 0xBF)"
  by (simp add: lead_row_def word_le_nat_alt)

lemma lead_row_2:
  "224 \<le> unat b \<Longrightarrow> unat b \<le> 239 \<Longrightarrow>
   lead_row b = Some (2, if unat b = 224 then 0xA0 else 0x80, if unat b = 237 then 0x9F else 0xBF)"
  unfolding lead_row_def by (simp add: word_le_nat_alt word_unat_eq_iff) 

lemma lead_row_3:
  "240 \<le> unat b \<Longrightarrow> unat b \<le> 244 \<Longrightarrow>
   lead_row b = Some (3, if unat b = 240 then 0x90 else 0x80, if unat b = 244 then 0x8F else 0xBF)"
  unfolding lead_row_def by (simp add: word_le_nat_alt word_unat_eq_iff) 

lemma take_drop_2: "at + 1 < length p \<Longrightarrow> take 2 (drop at p) = [p ! at, p ! (at + 1)]"
  by (simp add: numeral_2_eq_2 take_Suc_conv_app_nth)

lemma take_drop_3: "at + 2 < length p \<Longrightarrow> take 3 (drop at p) = [p ! at, p ! (at + 1), p ! (at + 2)]"
  by (simp add: numeral_3_eq_3 take_Suc_conv_app_nth)

lemma take_drop_4: "at + 3 < length p \<Longrightarrow>
    take 4 (drop at p) = [p ! at, p ! (at + 1), p ! (at + 2), p ! (at + 3)]"
  by (simp add: eval_nat_numeral take_Suc_conv_app_nth)

lemma emitI:
  assumes "unat cp < 0x110000" and "map unat bs = emit_nat (unat cp)"
  shows "yep_emit_utf8 cp = bs"
  using unat_emit [OF assms(1)] assms(2) by (metis map_unat_inj)

lemma digit_mods:
  "y < 64 \<Longrightarrow> (128 + y) mod 64 = y" "y < 32 \<Longrightarrow> (192 + y) mod 32 = y"
  "y < 16 \<Longrightarrow> (224 + y) mod 16 = y" "y < 5 \<Longrightarrow> (240 + y) mod 8 = y" for y :: nat
  by (simp_all add: mod_if)

lemma emit_bytes_2:
  fixes b c :: byte
  assumes "194 \<le> unat b" "unat b \<le> 223" "128 \<le> unat c" "unat c \<le> 191"
    and "unat cp = unat b mod 32 * 64 + unat c mod 64"
  shows "yep_emit_utf8 cp = [b, c]" "scalar_value cp" "0x80 \<le> unat cp"
proof -
  define x y where "x = unat b - 192" and "y = unat c - 128"
  have e: "unat b = 0xC0 + x" "unat c = 0x80 + y" "2 \<le> x" "x < 32" "y < 64"
    using assms(1-4) by (simp_all add: x_def y_def)
  then have v: "unat cp = x * 64 + y" using assms(5) by (simp add: digit_mods)
  from v e show "scalar_value cp" "0x80 \<le> unat cp"
    by (simp_all add: scalar_value_nat)
  from v e emit_nat_2 [OF e(3-5)] show "yep_emit_utf8 cp = [b, c]"
    by (intro emitI) simp_all
qed

lemma emit_bytes_3:
  fixes b c d :: byte
  assumes "224 \<le> unat b" "unat b \<le> 239" "128 \<le> unat c" "unat c \<le> 191" "128 \<le> unat d" "unat d \<le> 191"
    and "unat b = 224 \<Longrightarrow> 160 \<le> unat c" and "unat b = 237 \<Longrightarrow> unat c \<le> 159"
    and "unat cp = (unat b mod 16 * 64 + unat c mod 64) * 64 + unat d mod 64"
  shows "yep_emit_utf8 cp = [b, c, d]" "scalar_value cp" "0x80 \<le> unat cp"
proof -
  define x y z where "x = unat b - 224" and "y = unat c - 128" and "z = unat d - 128"
  have e: "unat b = 0xE0 + x" "unat c = 0x80 + y" "unat d = 0x80 + z" "x < 16" "y < 64" "z < 64"
    using assms(1-6) by (simp_all add: x_def y_def z_def)
  then have s: "x = 0 \<Longrightarrow> 32 \<le> y" "x = 13 \<Longrightarrow> y < 32" using assms(7,8) by simp_all
  have v: "unat cp = (x * 64 + y) * 64 + z" using assms(9) e by (simp add: digit_mods)
  have "\<not> (0xD800 \<le> (x * 64 + y) * 64 + z \<and> (x * 64 + y) * 64 + z \<le> 0xDFFF)"
    using s(2) e(4-6) by (cases "x = 13"; cases "x < 13") auto
  with v emit_nat_3 [OF e(4-6) s(1)] show "scalar_value cp" "0x80 \<le> unat cp"
    by (simp_all add: scalar_value_nat)
  from v e emit_nat_3 [OF e(4-6) s(1)] show "yep_emit_utf8 cp = [b, c, d]"
    by (intro emitI) simp_all
qed

lemma emit_bytes_4:
  fixes b c d f :: byte
  assumes "240 \<le> unat b" "unat b \<le> 244" "128 \<le> unat c" "unat c \<le> 191" "128 \<le> unat d" "unat d \<le> 191"
    "128 \<le> unat f" "unat f \<le> 191"
    and "unat b = 240 \<Longrightarrow> 144 \<le> unat c" and "unat b = 244 \<Longrightarrow> unat c \<le> 143"
    and "unat cp = ((unat b mod 8 * 64 + unat c mod 64) * 64 + unat d mod 64) * 64 + unat f mod 64"
  shows "yep_emit_utf8 cp = [b, c, d, f]" "scalar_value cp" "0x80 \<le> unat cp"
proof -
  define x y z w where "x = unat b - 240" and "y = unat c - 128" and "z = unat d - 128" and "w = unat f - 128"
  have e: "unat b = 0xF0 + x" "unat c = 0x80 + y" "unat d = 0x80 + z" "unat f = 0x80 + w"
      "x < 5" "y < 64" "z < 64" "w < 64"
    using assms(1-8) by (simp_all add: x_def y_def z_def w_def)
  then have s: "x = 0 \<Longrightarrow> 16 \<le> y" "x = 4 \<Longrightarrow> y < 16" using assms(9,10) by simp_all
  have v: "unat cp = ((x * 64 + y) * 64 + z) * 64 + w" using assms(11) e by (simp add: digit_mods)
  from v emit_nat_4 [OF e(5-8) s] show "scalar_value cp" "0x80 \<le> unat cp"
    by (simp_all add: scalar_value_nat)
  from v e emit_nat_4 [OF e(5-8) s] show "yep_emit_utf8 cp = [b, c, d, f]"
    by (intro emitI) simp_all
qed

lemma seq_okE:
  assumes "seq_ok p at need"
  obtains "need = 1" "at + 1 < length p" "194 \<le> unat (p ! at)" "unat (p ! at) \<le> 223"
      "128 \<le> unat (p ! (at + 1))" "unat (p ! (at + 1)) \<le> 191"
  | "need = 2" "at + 2 < length p" "224 \<le> unat (p ! at)" "unat (p ! at) \<le> 239"
      "128 \<le> unat (p ! (at + 1))" "unat (p ! (at + 1)) \<le> 191"
      "128 \<le> unat (p ! (at + 2))" "unat (p ! (at + 2)) \<le> 191"
      "unat (p ! at) = 224 \<Longrightarrow> 160 \<le> unat (p ! (at + 1))" "unat (p ! at) = 237 \<Longrightarrow> unat (p ! (at + 1)) \<le> 159"
  | "need = 3" "at + 3 < length p" "240 \<le> unat (p ! at)" "unat (p ! at) \<le> 244"
      "128 \<le> unat (p ! (at + 1))" "unat (p ! (at + 1)) \<le> 191"
      "128 \<le> unat (p ! (at + 2))" "unat (p ! (at + 2)) \<le> 191"
      "128 \<le> unat (p ! (at + 3))" "unat (p ! (at + 3)) \<le> 191"
      "unat (p ! at) = 240 \<Longrightarrow> 144 \<le> unat (p ! (at + 1))" "unat (p ! at) = 244 \<Longrightarrow> unat (p ! (at + 1)) \<le> 143"
proof -
  from assms obtain lo hi where h: "lead_row (p ! at) = Some (need, lo, hi)" "lo \<le> p ! (at + 1)"
      "p ! (at + 1) \<le> hi" "at + need < length p"
    by (auto simp: seq_ok_def)
  have k: "128 \<le> unat (p ! (at + k)) \<and> unat (p ! (at + k)) \<le> 191" if "2 \<le> k" "k \<le> need" for k
    using assms that by (simp add: seq_ok_def word_le_nat_alt)
  from lead_rowD [OF h(1)] show thesis
  proof (elim disjE conjE)
    assume "need = 1" "194 \<le> unat (p ! at)" "unat (p ! at) \<le> 223" "lo = 0x80" "hi = 0xBF"
    with h show thesis by (intro that(1)) (simp_all add: word_le_nat_alt)
  next
    assume a: "need = 2" "224 \<le> unat (p ! at)" "unat (p ! at) \<le> 239"
      "lo = (if unat (p ! at) = 224 then 0xA0 else 0x80)" "hi = (if unat (p ! at) = 237 then 0x9F else 0xBF)"
    with h k [of 2] show thesis
      by (intro that(2)) (simp_all add: word_le_nat_alt split: if_splits)
  next
    assume a: "need = 3" "240 \<le> unat (p ! at)" "unat (p ! at) \<le> 244"
      "lo = (if unat (p ! at) = 240 then 0x90 else 0x80)" "hi = (if unat (p ! at) = 244 then 0x8F else 0xBF)"
    with h k [of 2] k [of 3] show thesis
      by (intro that(3)) (simp_all add: word_le_nat_alt split: if_splits)
  qed
qed

lemma seq_ok_emit:
  assumes "seq_ok p at need"
  shows "yep_emit_utf8 (seq_cp p at need) = take (need + 1) (drop at p) \<and>
    scalar_value (seq_cp p at need) \<and> 0x80 \<le> unat (seq_cp p at need)"
  using assms
proof (cases rule: seq_okE)
  case 1
  show ?thesis
    using emit_bytes_2 [OF 1(3-6) seq_cp_1] take_drop_2 [OF 1(2)] by (simp only: 1(1)) (simp add: numeral_2_eq_2)
next
  case 2
  show ?thesis
    using emit_bytes_3 [OF 2(3-10) seq_cp_2] take_drop_3 [OF 2(2)] by (simp only: 2(1)) simp
next
  case 3
  show ?thesis
    using emit_bytes_4 [OF 3(3-12) seq_cp_3] take_drop_4 [OF 3(2)] by (simp only: 3(1)) simp
qed

lemma utf8_step_sound:
  assumes "utf8_step p at pr = Inr j" and "at < length p"
  shows "at < j \<and> j \<le> length p \<and> unit_seq pr (take (j - at) (drop at p))"
proof (cases "p ! at < 0x80")
  case True
  let ?cp = "ucast (p ! at) :: u32"
  from True have n: "unat ?cp < 0x80" by (simp add: unat_ucast_up word_less_nat_alt)
  then have "yep_emit_utf8 ?cp = [p ! at]"
    by (intro emitI) (simp_all add: emit_nat_def unat_ucast_up)
  moreover have "scalar_value ?cp" using n by (simp add: scalar_value_nat)
  moreover have "pr \<longrightarrow> c_printable ?cp"
    using assms(1) True
    by (auto simp: utf8_step_Inr ascii_ok_def c_printable_def word_le_nat_alt word_unat_eq_iff unat_ucast_up
        split: if_splits)
  moreover have "j = at + 1" using assms(1) True by (simp add: utf8_step_Inr)
  ultimately show ?thesis
    using assms(2) by (auto simp: unit_seq_def take_Suc_conv_app_nth intro!: exI [of _ ?cp])
next
  case False
  with assms(1) obtain need where s: "seq_ok p at need" "pr \<longrightarrow> cp_printable (seq_cp p at need)"
      "j = at + 1 + need"
    by (auto simp: utf8_step_Inr)
  have "pr \<longrightarrow> c_printable (seq_cp p at need)"
    using s(2) c_printable_high seq_ok_emit [OF s(1)] by blast
  then have "unit_seq pr (take (need + 1) (drop at p))"
    using seq_ok_emit [OF s(1)] by (auto simp: unit_seq_def intro!: exI [of _ "seq_cp p at need"])
  then show ?thesis using s by (simp add: seq_ok_def)
qed

lemma emit_nat_shape:
  assumes "n < 0x110000" and "\<not> (0xD800 \<le> n \<and> n \<le> 0xDFFF)"
  obtains "n < 0x80" "emit_nat n = [n]"
  | x y where "n = x * 64 + y" "2 \<le> x" "x < 32" "y < 64" "emit_nat n = [0xC0 + x, 0x80 + y]"
  | x y z where "n = (x * 64 + y) * 64 + z" "x < 16" "y < 64" "z < 64" "x = 0 \<Longrightarrow> 32 \<le> y" "x = 13 \<Longrightarrow> y < 32"
      "emit_nat n = [0xE0 + x, 0x80 + y, 0x80 + z]"
  | x y z w where "n = ((x * 64 + y) * 64 + z) * 64 + w" "x < 5" "y < 64" "z < 64" "w < 64"
      "x = 0 \<Longrightarrow> 16 \<le> y" "x = 4 \<Longrightarrow> y < 16" "emit_nat n = [0xF0 + x, 0x80 + y, 0x80 + z, 0x80 + w]"
proof -
  have d: "n = n div 64 * 64 + n mod 64" "n div 64 = n div 64 div 64 * 64 + n div 64 mod 64"
    "n div 64 div 64 = n div 64 div 64 div 64 * 64 + n div 64 div 64 mod 64" by simp_all
  consider "n < 0x80" | "0x80 \<le> n" "n < 0x800" | "0x800 \<le> n" "n < 0x10000" | "0x10000 \<le> n" by linarith
  then show thesis
  proof cases
    case 1 then show thesis by (intro that(1)) (simp_all add: emit_nat_def)
  next
    case 2 then show thesis by (intro that(2) [of "n div 64" "n mod 64"]) (simp_all add: emit_nat_def)
  next
    case 3
    define q where "q = n div 64"
    have q: "32 \<le> q" "q < 1024" "\<not> (864 \<le> q \<and> q \<le> 895)"
      using 3 assms(2) by (auto simp: q_def)
    show thesis
    proof (rule that(3) [of "q div 64" "q mod 64" "n mod 64"])
      show "n = (q div 64 * 64 + q mod 64) * 64 + n mod 64" by (simp add: q_def)
      show "emit_nat n = [0xE0 + q div 64, 0x80 + q mod 64, 0x80 + n mod 64]"
        using 3 by (simp add: emit_nat_def q_def)
      show "32 \<le> q mod 64" if "q div 64 = 0" using that q by simp
      show "q mod 64 < 32" if "q div 64 = 13" using that q(3) div_mult_mod_eq [of q 64] by auto
    qed (use q in auto)
  next
    case 4
    define q where "q = n div 64 div 64"
    have q: "16 \<le> q" "q < 272" using 4 assms(1) by (auto simp: q_def)
    show thesis
    proof (rule that(4) [of "q div 64" "q mod 64" "n div 64 mod 64" "n mod 64"])
      show "n = ((q div 64 * 64 + q mod 64) * 64 + n div 64 mod 64) * 64 + n mod 64" by (simp add: q_def)
      show "emit_nat n = [0xF0 + q div 64, 0x80 + q mod 64, 0x80 + n div 64 mod 64, 0x80 + n mod 64]"
        using 4 by (simp add: emit_nat_def q_def)
      show "16 \<le> q mod 64" if "q div 64 = 0" using that q by simp
      show "q mod 64 < 16" if "q div 64 = 4" using that q(2) div_mult_mod_eq [of q 64] by auto
    qed (use q in auto)
  qed
qed

lemma nth_of_drop: "drop at p = bs @ rest \<Longrightarrow> k < length bs \<Longrightarrow> p ! (at + k) = bs ! k"
proof -
  assume h: "drop at p = bs @ rest" "k < length bs"
  then have "at \<le> length p" by (metis append_is_Nil_conv drop_all length_0_conv nle_le not_less_zero)
  then have "p ! (at + k) = drop at p ! k" by simp
  with h show ?thesis by (simp add: nth_append)
qed

lemma length_of_drop: "drop at p = bs @ rest \<Longrightarrow> bs \<noteq> [] \<Longrightarrow> at + length bs \<le> length p"
  by (metis Nat.le_diff_conv2 add.commute append_is_Nil_conv drop_all le_add1 length_append length_drop nle_le)

lemma length_emit: "length (yep_emit_utf8 cp) \<in> {1, 2, 3, 4}"
  by (simp add: yep_emit_utf8_def)

lemma utf8_step_ascii:
  assumes "unat cp < 0x80" and "pr \<longrightarrow> c_printable cp" and "drop at p = yep_emit_utf8 cp @ rest"
  shows "utf8_step p at pr = Inr (at + length (yep_emit_utf8 cp))"
proof -
  have e: "yep_emit_utf8 cp = [ucast cp]" "unat (ucast cp :: byte) = unat cp"
    using assms(1) by (simp_all add: yep_emit_utf8_def word_less_nat_alt unat_ucast)
  then have "p ! at = ucast cp" using nth_of_drop [OF assms(3), of 0] by simp
  then show ?thesis
    using assms(1,2) e(2)
    by (auto simp: e(1) utf8_step_Inr ascii_ok_def c_printable_def word_le_nat_alt word_less_nat_alt word_unat_eq_iff)
qed

lemma utf8_step_seqI:
  assumes "seq_ok p at need" and "seq_cp p at need = cp" and "scalar_value cp" and "0x80 \<le> unat cp"
    and "pr \<longrightarrow> c_printable cp"
  shows "utf8_step p at pr = Inr (at + 1 + need)"
proof -
  have "\<not> p ! at < 0x80"
    using assms(1) by (cases rule: seq_okE) (auto simp: word_less_nat_alt)
  then show ?thesis
    using assms c_printable_high by (auto simp: utf8_step_Inr)
qed

lemma utf8_step_multi:
  assumes "scalar_value cp" and "0x80 \<le> unat cp" and "pr \<longrightarrow> c_printable cp"
    and d: "drop at p = yep_emit_utf8 cp @ rest"
  shows "utf8_step p at pr = Inr (at + length (yep_emit_utf8 cp))"
proof -
  have n: "unat cp < 0x110000" "\<not> (0xD800 \<le> unat cp \<and> unat cp \<le> 0xDFFF)"
    using assms(1) by (auto simp: scalar_value_nat)
  note m = unat_emit [OF n(1)]
  show ?thesis
  proof (rule emit_nat_shape [OF n])
    assume "unat cp < 0x80" with assms(2) show ?thesis by simp
  next
    fix x y assume s: "unat cp = x * 64 + y" "2 \<le> x" "x < 32" "y < 64" "emit_nat (unat cp) = [0xC0 + x, 0x80 + y]"
    with m obtain b c where e: "yep_emit_utf8 cp = [b, c]" "unat b = 0xC0 + x" "unat c = 0x80 + y"
      by auto
    with d have i: "p ! at = b" "p ! (at + 1) = c" "at + 1 < length p"
      using nth_of_drop [OF d, of 0] nth_of_drop [OF d, of 1] length_of_drop [OF d] by auto
    have "seq_ok p at 1"
      using i e s(2-4) by (simp add: seq_ok_def lead_row_1 word_le_nat_alt)
    moreover have "seq_cp p at 1 = cp"
      by (rule word_unat_eq_iff [THEN iffD2]) (use i e s seq_cp_1 [of p at] in \<open>simp add: digit_mods\<close>)
    ultimately show ?thesis
      using utf8_step_seqI [of p at 1 cp pr] assms(1-3) by (simp add: e(1))
  next
    fix x y z assume s: "unat cp = (x * 64 + y) * 64 + z" "x < 16" "y < 64" "z < 64"
      "x = 0 \<Longrightarrow> 32 \<le> y" "x = 13 \<Longrightarrow> y < 32" "emit_nat (unat cp) = [0xE0 + x, 0x80 + y, 0x80 + z]"
    with m obtain b c f where e: "yep_emit_utf8 cp = [b, c, f]" "unat b = 0xE0 + x" "unat c = 0x80 + y"
      "unat f = 0x80 + z"
      by auto
    with d have i: "p ! at = b" "p ! (at + 1) = c" "p ! (at + 2) = f" "at + 2 < length p"
      using nth_of_drop [OF d, of 0] nth_of_drop [OF d, of 1] nth_of_drop [OF d, of 2] length_of_drop [OF d]
      by auto
    have "seq_ok p at 2"
      using i e s(2-6) lead_row_2 [of b] by (auto simp: seq_ok_def word_le_nat_alt)
    moreover have "seq_cp p at 2 = cp"
      by (rule word_unat_eq_iff [THEN iffD2]) (use i e s(1-4) seq_cp_2 [of p at] in \<open>simp add: digit_mods\<close>)
    ultimately show ?thesis
      using utf8_step_seqI [of p at 2 cp pr] assms(1-3) by (simp add: e(1))
  next
    fix x y z w assume s: "unat cp = ((x * 64 + y) * 64 + z) * 64 + w" "x < 5" "y < 64" "z < 64" "w < 64"
      "x = 0 \<Longrightarrow> 16 \<le> y" "x = 4 \<Longrightarrow> y < 16" "emit_nat (unat cp) = [0xF0 + x, 0x80 + y, 0x80 + z, 0x80 + w]"
    with m obtain b c f g where e: "yep_emit_utf8 cp = [b, c, f, g]" "unat b = 0xF0 + x" "unat c = 0x80 + y"
      "unat f = 0x80 + z" "unat g = 0x80 + w"
      by auto
    with d have i: "p ! at = b" "p ! (at + 1) = c" "p ! (at + 2) = f" "p ! (at + 3) = g" "at + 3 < length p"
      using nth_of_drop [OF d, of 0] nth_of_drop [OF d, of 1] nth_of_drop [OF d, of 2] nth_of_drop [OF d, of 3]
        length_of_drop [OF d]
      by auto
    have two: "k = 2 \<or> k = 3" if "2 \<le> k" "k \<le> 3" for k :: nat using that by auto
    have "seq_ok p at 3"
      using i e s(2-7) lead_row_3 [of b] by (auto simp: seq_ok_def word_le_nat_alt dest!: two)
    moreover have "seq_cp p at 3 = cp"
      by (rule word_unat_eq_iff [THEN iffD2]) (use i e s(1-5) seq_cp_3 [of p at] in \<open>simp add: digit_mods\<close>)
    ultimately show ?thesis
      using utf8_step_seqI [of p at 3 cp pr] assms(1-3) by (simp add: e(1))
  qed
qed

lemma utf8_step_complete:
  assumes "unit_seq pr bs" and "drop at p = bs @ rest"
  shows "utf8_step p at pr = Inr (at + length bs)"
proof -
  from assms(1) obtain cp where "scalar_value cp" "pr \<longrightarrow> c_printable cp" "bs = yep_emit_utf8 cp"
    by (auto simp: unit_seq_def)
  with assms(2) utf8_step_ascii [of cp pr at p rest] utf8_step_multi [of cp pr at p rest]
  show ?thesis by (cases "unat cp < 0x80") auto
qed

section \<open>Whole inputs\<close>

definition utf8_text :: "bool \<Rightarrow> byte list \<Rightarrow> bool" where
  "utf8_text pr p \<longleftrightarrow>
     (\<exists>cps. (\<forall>cp\<in>set cps. scalar_value cp \<and> (pr \<longrightarrow> c_printable cp)) \<and>
        p = concat (map yep_emit_utf8 cps))"

lemma utf8_text_Nil [simp]: "utf8_text pr []"
  by (auto simp: utf8_text_def intro: exI [of _ "[]"])

lemma emit_nonempty [simp]: "yep_emit_utf8 cp \<noteq> []"
  by (simp add: yep_emit_utf8_def)

lemma utf8_text_Cons: "unit_seq pr bs \<Longrightarrow> utf8_text pr p \<Longrightarrow> utf8_text pr (bs @ p)"
  unfolding utf8_text_def unit_seq_def by (elim exE conjE) (rule exI [of _ "_ # _"], auto)

lemma utf8_text_split:
  assumes "utf8_text pr p" and "p \<noteq> []"
  obtains bs q where "unit_seq pr bs" "utf8_text pr q" "p = bs @ q"
proof -
  from assms obtain cps where c: "\<forall>cp\<in>set cps. scalar_value cp \<and> (pr \<longrightarrow> c_printable cp)"
    "p = concat (map yep_emit_utf8 cps)" by (auto simp: utf8_text_def)
  with assms(2) obtain cp cps' where "cps = cp # cps'" by (cases cps) auto
  with c that [of "yep_emit_utf8 cp" "concat (map yep_emit_utf8 cps')"] show thesis
    by (auto simp: utf8_text_def unit_seq_def)
qed

lemma utf8_text_append: "utf8_text pr p \<Longrightarrow> utf8_text pr q \<Longrightarrow> utf8_text pr (p @ q)"
proof -
  assume "utf8_text pr p" "utf8_text pr q"
  then obtain cs ds where "\<forall>cp\<in>set (cs @ ds). scalar_value cp \<and> (pr \<longrightarrow> c_printable cp)"
    "p @ q = concat (map yep_emit_utf8 (cs @ ds))"
    by (auto simp: utf8_text_def)
  then show ?thesis unfolding utf8_text_def by blast
qed

lemma utf8_text_step:
  assumes "i < length p" and "utf8_step p i pr = Inr j"
  shows "utf8_text pr (drop i p) \<longleftrightarrow> utf8_text pr (drop j p)"
proof
  note s = utf8_step_sound [OF assms(2,1)]
  have d: "drop i p = take (j - i) (drop i p) @ drop j p"
    using s by (metis append_take_drop_id drop_drop le_add_diff_inverse2 less_imp_le)
  show "utf8_text pr (drop j p) \<Longrightarrow> utf8_text pr (drop i p)"
    using s d utf8_text_Cons by metis
  assume "utf8_text pr (drop i p)"
  then obtain bs q where b: "unit_seq pr bs" "utf8_text pr q" "drop i p = bs @ q"
    using assms(1) by (auto elim: utf8_text_split)
  with utf8_step_complete [OF b(1,3)] assms(2) have "j = i + length bs" by simp
  with b show "utf8_text pr (drop j p)"
    by (metis add.commute append_eq_conv_conj drop_drop)
qed

lemma step_until_text:
  assumes "i \<le> length p"
  shows "(\<exists>j. step_until p pr (length p) i = Inr j) \<longleftrightarrow> utf8_text pr (drop i p)"
  using assms
proof (induction p pr "length p" i rule: step_until.induct)
  case (1 p pr i)
  show ?case
  proof (cases "i < length p")
    case True
    show ?thesis
    proof (cases "utf8_step p i pr")
      case (Inl e)
      then have "\<not> utf8_text pr (drop i p)"
        using True utf8_step_complete by (fastforce elim: utf8_text_split)
      with Inl True show ?thesis by (simp add: step_until.simps [of p pr _ i])
    next
      case (Inr j)
      with "1.hyps" [OF True Inr] utf8_step_sound [OF Inr True] utf8_text_step [OF True Inr] True
      show ?thesis by (simp add: step_until.simps [of p pr _ i])
    qed
  next
    case False
    then show ?thesis by (simp add: step_until.simps [of p pr _ i])
  qed
qed

lemma cont_loop_Some: "cont_loop p at need k = Some e \<Longrightarrow> at + k \<le> e \<and> e \<le> at + need"
proof (induction p at need k rule: cont_loop.induct)
  case (1 p at need k)
  then show ?case by (auto simp: cont_loop.simps [of p at need k] split: if_splits)
qed

lemma lead_row_need: "lead_row b = Some (need, lo, hi) \<Longrightarrow> 1 \<le> need \<and> need \<le> 3"
  by (auto dest!: lead_rowD)

lemma utf8_step_error_pos:
  assumes "utf8_step p i pr = Inl e" and "i < length p"
  shows "i \<le> e \<and> e < length p \<and> e \<le> i + 3"
proof (cases "lead_row (p ! i)")
  case None
  with assms show ?thesis by (auto simp: utf8_step_def Let_def split: if_splits)
next
  case (Some r)
  obtain need lo hi where r: "r = (need, lo, hi)" by (cases r)
  have n: "1 \<le> need \<and> need \<le> 3" using lead_row_need Some r by blast
  show ?thesis
    using assms Some r n cont_loop_Some [of p i need 2]
    by (auto simp: utf8_step_def Let_def not_le split: if_splits option.splits)
qed

text \<open>Where the walk stops: the sequence at a boundary of the accepted prefix is bad.\<close>

lemma step_until_error:
  assumes "step_until p pr (length p) i = Inl e" and "i \<le> length p" and "utf8_text pr (take i p)"
  shows "\<exists>k\<le>e. e < length p \<and> e \<le> k + 3 \<and> utf8_text pr (take k p) \<and>
    (\<forall>bs rest. unit_seq pr bs \<longrightarrow> drop k p \<noteq> bs @ rest)"
  using assms
proof (induction p pr "length p" i rule: step_until.induct)
  case (1 p pr i)
  have lt: "i < length p"
    using "1.prems"(1) by (auto simp: step_until.simps [of p pr _ i] split: if_splits)
  show ?case
  proof (cases "utf8_step p i pr")
    case (Inl e')
    with "1.prems"(1) lt have e: "e' = e" by (simp add: step_until.simps [of p pr _ i])
    have "i \<le> e \<and> e < length p \<and> e \<le> i + 3"
      using utf8_step_error_pos [OF Inl lt] e by simp
    then show ?thesis
      using Inl utf8_step_complete [of pr _ i p] "1.prems"(3) by (intro exI [of _ i]) fastforce
  next
    case (Inr j)
    note s = utf8_step_sound [OF Inr lt]
    have "take j p = take i p @ take (j - i) (drop i p)"
      using s by (metis add_diff_inverse_nat less_imp_le not_less take_add)
    then have "utf8_text pr (take j p)"
      using s "1.prems"(3) utf8_text_append utf8_text_Cons [of pr _ "[]"] by simp
    with "1.hyps" [OF lt Inr] "1.prems"(1) lt Inr s show ?thesis
      by (simp add: step_until.simps [of p pr _ i])
  qed
qed

section \<open>The gated chunks\<close>

lemma step_until_ascii:
  assumes "i + n \<le> length p" and "\<forall>c\<in>set (take n (drop i p)). ascii_ok c True"
  shows "step_until p pr (length p) i = step_until p pr (length p) (i + n)"
  using assms
proof (induction n arbitrary: i)
  case 0
  then show ?case by simp
next
  case (Suc n)
  then have lt: "i < length p" by simp
  then have d: "drop i p = p ! i # drop (Suc i) p" by (simp add: Cons_nth_drop_Suc)
  with Suc.prems have a: "ascii_ok (p ! i) True" "\<forall>c\<in>set (take n (drop (Suc i) p)). ascii_ok c True"
    by auto
  then have "p ! i < 0x80"
    by (auto simp: ascii_ok_def word_le_nat_alt word_less_nat_alt split: if_splits)
  with a(1) have "utf8_step p i pr = Inr (Suc i)"
    by (simp add: utf8_step_def Let_def ascii_ok_def split: if_splits)
  then have "step_until p pr (length p) i = step_until p pr (length p) (Suc i)"
    using lt by (simp add: step_until.simps [of p pr _ i])
  with Suc.IH [of "Suc i"] Suc.prems a(2) show ?case by simp
qed

lemma step_until_edge:
  assumes "e \<le> length p"
  shows "step_until p pr (length p) i =
    (case step_until p pr e i of Inl x \<Rightarrow> Inl x | Inr j \<Rightarrow> step_until p pr (length p) j)"
  using assms
proof (induction p pr e i rule: step_until.induct)
  case (1 p pr e i)
  show ?case
  proof (cases "i < e")
    case True
    with "1.prems" have "i < length p" by simp
    with True "1" show ?thesis
      by (simp add: step_until.simps [of p pr "length p" i] step_until.simps [of p pr e i] split: sum.split)
  next
    case False
    then show ?thesis by (simp add: step_until.simps [of p pr e i])
  qed
qed

locale gate_kernel =
  fixes gate_scan :: "byte list \<Rightarrow> nat"
  assumes gate_zero: "gate_scan s = 0 \<longleftrightarrow> (\<forall>c\<in>set s. ascii_ok c True)"
begin

lemma chunk_loop_eq: "chunk_loop gate_scan p pr i = step_until p pr (length p) i"
proof (induction "length p - i" arbitrary: i rule: less_induct)
  case less
  show ?case
  proof (cases "i + 32 \<le> length p")
    case True
    show ?thesis
    proof (cases "gate_scan (take 32 (drop i p)) = 0")
      case gate: True
      with True gate_zero step_until_ascii [of i 32 p pr] less [of "i + 32"] show ?thesis
        by (simp add: chunk_loop.simps [of gate_scan p pr i])
    next
      case gate: False
      have "chunk_loop gate_scan p pr j = step_until p pr (length p) j"
        if "step_until p pr (i + 32) i = Inr j" for j
        using less [of j] step_until_progress [OF that] True by (simp add: diff_less_mono2)
      with True gate step_until_edge [of "i + 32" p pr i] show ?thesis
        by (simp add: chunk_loop.simps [of gate_scan p pr i] split: sum.split)
    qed
  next
    case False
    then show ?thesis by (simp add: chunk_loop.simps [of gate_scan p pr i])
  qed
qed

lemma validate_walk:
  "validate gate_scan (Some p) len pr =
     (case step_until p pr (length p) 0 of Inl e \<Rightarrow> Inl e | Inr _ \<Rightarrow> Inr ())"
  by (simp add: validate_def chunk_loop_eq)

lemma validate_text: "validate gate_scan (Some p) len pr = Inr () \<longleftrightarrow> utf8_text pr p"
  using step_until_text [of 0 p pr] by (auto simp: validate_walk split: sum.splits)

lemma validate_error:
  "validate gate_scan (Some p) len pr = Inl e \<Longrightarrow>
   \<exists>k\<le>e. e < length p \<and> e \<le> k + 3 \<and> utf8_text pr (take k p) \<and>
     (\<forall>bs rest. unit_seq pr bs \<longrightarrow> drop k p \<noteq> bs @ rest)"
  using step_until_error [of p pr 0 e] by (auto simp: validate_walk split: sum.splits)

end

interpretation scalar_gate: gate_kernel yep_text_gate_scan_scalar
proof
  fix s show "yep_text_gate_scan_scalar s = 0 \<longleftrightarrow> (\<forall>c\<in>set s. ascii_ok c True)"
    by (induction s) (auto simp: ascii_ok_def)
qed

section \<open>Properties of the validator\<close>

lemma utf8_text_list_all:
  "utf8_text pr p \<longleftrightarrow> (\<exists>cps. list_all (\<lambda>cp. scalar_value cp \<and> (pr \<longrightarrow> c_printable cp)) cps \<and>
     p = concat (map yep_emit_utf8 cps))"
  by (simp add: utf8_text_def list_all_iff)

text \<open>
  C1. \<^verbatim>\<open>yep_utf8_validate\<close> accepts a buffer exactly when it is the UTF-8 encoding, by the
  library's own encoder, of a sequence of Unicode scalar values: no overlong forms, no
  surrogates, nothing above U+10FFFF, no truncation.
\<close>

theorem utf8_validate_exact:
  "yep_utf8_validate yep_text_gate_scan_scalar (Some p) (length p) = Inr () \<longleftrightarrow>
     (\<exists>cps. list_all scalar_value cps \<and> p = concat (map yep_emit_utf8 cps))"
  by (simp add: yep_utf8_validate_def scalar_gate.validate_text utf8_text_list_all)

text \<open>
  C2. \<^verbatim>\<open>yep_printable_validate\<close> accepts exactly the UTF-8 encodings of sequences of scalar
  values that are all in the YAML 1.2 production c-printable.
\<close>

theorem printable_validate_exact:
  "yep_printable_validate yep_text_gate_scan_scalar (Some p) (length p) = Inr () \<longleftrightarrow>
     (\<exists>cps. list_all (\<lambda>cp. scalar_value cp \<and> c_printable cp) cps \<and>
        p = concat (map yep_emit_utf8 cps))"
  by (simp add: yep_printable_validate_def scalar_gate.validate_text utf8_text_list_all)

text \<open>
  C3. Whatever kernel is active, as long as it passes the same chunks as the scalar
  reference, the chunked validator returns what the plain byte walk returns, the error
  position included.
\<close>

theorem validate_chunks_equiv:
  assumes "\<And>s. gate s = 0 \<longleftrightarrow> yep_text_gate_scan_scalar s = 0"
  shows "validate gate (Some p) (length p) pr =
    (case step_until p pr (length p) 0 of Inl e \<Rightarrow> Inl e | Inr _ \<Rightarrow> Inr ())"
proof -
  have "gate_kernel gate"
    using assms scalar_gate.gate_zero by unfold_locales simp
  then show ?thesis by (rule gate_kernel.validate_walk)
qed

theorem validate_chunks_equiv_witness:
  "validate (\<lambda>s. if yep_text_gate_scan_scalar s = 0 then 0 else 7)
      (Some (replicate 32 0x61 @ [0xC3, 0xA9])) (length (replicate 32 (0x61 :: byte) @ [0xC3, 0xA9])) True =
    (case step_until (replicate 32 0x61 @ [0xC3, 0xA9]) True
            (length (replicate 32 (0x61 :: byte) @ [0xC3, 0xA9])) 0 of
       Inl e \<Rightarrow> Inl e | Inr _ \<Rightarrow> Inr ())"
  by (rule validate_chunks_equiv) simp

text \<open>
  C4. On rejection the reported offset lies inside the buffer, at most three bytes past
  the start of a sequence, everything before that start is well formed, and no
  well-formed sequence starts there.
\<close>

theorem validate_error_position:
  assumes "validate yep_text_gate_scan_scalar (Some p) (length p) pr = Inl e"
  shows "\<exists>k\<le>e. e < length p \<and> e \<le> k + 3 \<and>
    validate yep_text_gate_scan_scalar (Some (take k p)) k pr = Inr () \<and>
    (\<forall>bs rest. unit_seq pr bs \<longrightarrow> drop k p \<noteq> bs @ rest)"
  using scalar_gate.validate_error [OF assms] by (simp add: scalar_gate.validate_text)

theorem validate_error_position_witness:
  "let p = [0x61, 0xE2, 0x28, 0xA1] in
   validate yep_text_gate_scan_scalar (Some p) (length p) False = Inl 2 \<and>
   (\<exists>k\<le>2. 2 < length p \<and> 2 \<le> k + 3 \<and>
      validate yep_text_gate_scan_scalar (Some (take k p)) k False = Inr () \<and>
      (\<forall>bs rest. unit_seq False bs \<longrightarrow> drop k p \<noteq> bs @ rest))"
proof -
  define p :: "byte list" where "p = [0x61, 0xE2, 0x28, 0xA1]"
  have h: "validate yep_text_gate_scan_scalar (Some p) (length p) False = Inl 2"
    by (simp add: p_def validate_def chunk_loop.simps step_until.simps utf8_step_def ascii_ok_def lead_row_def)
  from validate_error_position [OF h] h show ?thesis unfolding p_def [symmetric] Let_def by blast
qed

end
