(* ===== verification/Transcode_Facts.thy ===== *)
theory Transcode_Facts
  imports Utf8_Facts
begin

text \<open>
  Correctness of the transcoder of \<^verbatim>\<open>transcode.c\<close> and of \<^verbatim>\<open>yep_bom_sniff\<close>: the transcoder
  succeeds on exactly the encodings of scalar-value sequences in the given form and byte
  order, its output is the UTF-8 encoding of the same sequence (so the validator accepts
  it), and it fits the buffer the code allocates.
\<close>

section \<open>The loops\<close>

text \<open>The reference encoders: code units in the given byte order.\<close>

definition unit16 :: "bool \<Rightarrow> nat \<Rightarrow> byte list" where
  "unit16 big_endian n =
     (if big_endian then [of_nat (n div 256), of_nat (n mod 256)]
      else [of_nat (n mod 256), of_nat (n div 256)])"

definition utf16_enc :: "bool \<Rightarrow> u32 \<Rightarrow> byte list" where
  "utf16_enc big_endian cp =
     (let n = unat cp in
      if n < 0x10000 then unit16 big_endian n
      else unit16 big_endian (0xD800 + (n - 0x10000) div 1024) @
           unit16 big_endian (0xDC00 + (n - 0x10000) mod 1024))"

lemma length_unit16 [simp]: "length (unit16 be n) = 2"
  by (simp add: unit16_def)

lemma unat_of_nat_byte: "n < 256 \<Longrightarrow> unat (of_nat n :: byte) = n"
  by (simp add: unsigned_of_nat take_bit_nat_eq_self_iff)

lemma unat_rd16:
  "unat (rd16 src off be) =
     (if be then unat (src ! off) * 256 + unat (src ! (off + 1))
      else unat (src ! (off + 1)) * 256 + unat (src ! off))"
proof -
  have "unat (ucast (push_bit 8 (ucast x :: u32) OR ucast y) :: u16) = unat x * 256 + unat y" for x y :: byte
  proof -
    have b: "unat x < 256" "unat y < 256" by (rule byte_bound)+
    have "unat (push_bit 8 (ucast x :: u32) OR ucast y) = unat x * 256 + unat y"
      using unat_shift_or [of "ucast x" 8 "ucast y"] b by (simp add: unat_ucast_up)
    then show ?thesis using b by (simp only: unat_ucast) simp
  qed
  then show ?thesis by (simp add: rd16_def Let_def)
qed

lemma rd16_unit16: "unit16 be (unat (rd16 src off be)) = [src ! off, src ! (off + 1)]"
proof -
  have "unat (src ! off) < 256" "unat (src ! (off + 1)) < 256" by (rule byte_bound)+
  then show ?thesis by (simp add: unat_rd16 unit16_def)
qed

lemma unat_rd16_unit16:
  assumes "n < 0x10000" and "drop off src = unit16 be n @ rest"
  shows "unat (rd16 src off be) = n"
proof -
  have "n div 256 < 256" using assms(1) by simp
  then show ?thesis
    using nth_of_drop [OF assms(2), of 0] nth_of_drop [OF assms(2), of 1]
    by (simp add: unat_rd16 unit16_def unat_of_nat_byte)
qed

lemma u16_bound: "unat (u :: u16) < 0x10000"
  using unsigned_less [of u] by simp

lemma unat_ucast_16: "unat (ucast (u :: u16) :: u32) = unat u"
proof -
  have "unat u < 4294967296" by (rule less_trans [OF u16_bound]) simp
  then show ?thesis by (simp add: unat_ucast)
qed

lemma unat_surrogate_cp:
  fixes u v :: u16
  assumes "0xD800 \<le> u" "u \<le> 0xDBFF" "0xDC00 \<le> v" "v \<le> 0xDFFF"
  shows "unat (0x10000 + push_bit 10 (ucast (u - 0xD800)) + ucast (v - 0xDC00) :: u32) =
    0x10000 + (unat u - 0xD800) * 1024 + (unat v - 0xDC00)"
proof -
  have s: "unat (u - 0xD800) = unat u - 0xD800" "unat (v - 0xDC00) = unat v - 0xDC00"
    using assms by (simp_all add: unat_sub word_le_nat_alt)
  have b: "unat u - 0xD800 < 1024" "unat v - 0xDC00 < 1024"
    using assms by (simp_all add: word_le_nat_alt)
  have p: "unat (push_bit 10 (ucast (u - 0xD800) :: u32)) = (unat u - 0xD800) * 1024"
    using b by (simp add: unat_push_bit unat_ucast_16 s)
  show ?thesis
    using b by (simp add: unat_word_ariths p unat_ucast_16 s)
qed

lemma drop_2: "i + 1 < length s \<Longrightarrow> drop i s = s ! i # s ! (i + 1) # drop (i + 2) s"
  by (metis Cons_nth_drop_Suc Suc_eq_plus1 add_2_eq_Suc' add_lessD1)

lemma utf16_loop_sound:
  assumes "utf16_loop be src units i = Inr out" and "units * 2 = length src" and "i \<le> units"
  shows "\<exists>cps. (\<forall>cp\<in>set cps. scalar_value cp) \<and> drop (i * 2) src = concat (map (utf16_enc be) cps) \<and>
    out = concat (map yep_emit_utf8 cps)"
  using assms
proof (induction be src units i arbitrary: out rule: utf16_loop.induct)
  case (1 be src units i)
  show ?case
  proof (cases "i < units")
    case False
    with "1.prems" have "out = []" "drop (i * 2) src = []"
      by (simp_all add: utf16_loop.simps [of be src units i])
    then show ?thesis by (intro exI [of _ "[]"]) simp
  next
    case True
    define u where "u = rd16 src (i * 2) be"
    have d: "drop (i * 2) src = [src ! (i * 2), src ! (i * 2 + 1)] @ drop ((i + 1) * 2) src"
      using drop_2 [of "i * 2" src] True "1.prems"(2) by simp
    show ?thesis
    proof (cases "0xD800 \<le> u \<and> u \<le> 0xDBFF")
      case hi: True
      define v where "v = rd16 src ((i + 1) * 2) be"
      define cp :: u32 where "cp = 0x10000 + push_bit 10 (ucast (u - 0xD800)) + ucast (v - 0xDC00)"
      note eq = utf16_loop.simps [of be src units i, unfolded Let_def, folded u_def v_def, folded cp_def]
      from "1.prems"(1) True hi have lo: "\<not> units \<le> i + 1" "\<not> (v < 0xDC00 \<or> 0xDFFF < v)"
        by (auto simp: eq split: if_splits)
      with "1.prems"(1) True hi obtain out' where o: "utf16_loop be src units (i + 2) = Inr out'"
          "out = yep_emit_utf8 cp @ out'"
        by (auto simp: eq split: sum.splits)
      have "i + 2 \<le> units" using lo(1) by simp
      from "1.IH"(1) [OF True u_def hi lo(1) v_def lo(2) cp_def o(1) "1.prems"(2) this] obtain cps where
        c: "\<forall>cp\<in>set cps. scalar_value cp" "drop ((i + 2) * 2) src = concat (map (utf16_enc be) cps)"
          "out' = concat (map yep_emit_utf8 cps)" by auto
      have n: "unat cp = 0x10000 + (unat u - 0xD800) * 1024 + (unat v - 0xDC00)"
        using unat_surrogate_cp [of u v] hi lo(2) by (simp add: cp_def not_less)
      have uv: "0xD800 \<le> unat u" "unat u \<le> 0xDBFF" "0xDC00 \<le> unat v" "unat v \<le> 0xDFFF"
        using hi lo(2) by (simp_all add: word_le_nat_alt word_less_nat_alt)
      define x y where "x = unat u - 0xD800" and "y = unat v - 0xDC00"
      have xy: "unat u = 0xD800 + x" "unat v = 0xDC00 + y" "x < 1024" "y < 1024" "unat cp = 0x10000 + x * 1024 + y"
        using uv n by (simp_all add: x_def y_def)
      then have "unat cp - 0x10000 = x * 1024 + y" "\<not> unat cp < 0x10000" "scalar_value cp"
        by (simp_all add: scalar_value_nat)
      moreover have "(x * 1024 + y) div 1024 = x" "(x * 1024 + y) mod 1024 = y" using xy(4) by simp_all
      ultimately have "utf16_enc be cp = unit16 be (unat u) @ unit16 be (unat v)"
        using xy(1,2) by (simp add: utf16_enc_def)
      then have "utf16_enc be cp = [src ! (i * 2), src ! (i * 2 + 1)] @ [src ! ((i + 1) * 2), src ! ((i + 1) * 2 + 1)]"
        unfolding u_def v_def by (simp only: rd16_unit16)
      moreover have "drop ((i + 1) * 2) src = [src ! ((i + 1) * 2), src ! ((i + 1) * 2 + 1)] @ drop ((i + 2) * 2) src"
        using drop_2 [of "(i + 1) * 2" src] lo(1) "1.prems"(2) by simp
      ultimately have "drop (i * 2) src = utf16_enc be cp @ drop ((i + 2) * 2) src"
        using d by simp
      with c o(2) \<open>scalar_value cp\<close> show ?thesis by (intro exI [of _ "cp # cps"]) simp
    next
      case nhi: False
      note eq = utf16_loop.simps [of be src units i, unfolded Let_def, folded u_def]
      with "1.prems"(1) True nhi have nlo: "\<not> (0xDC00 \<le> u \<and> u \<le> 0xDFFF)"
        by (auto simp: eq split: if_splits)
      with "1.prems"(1) True nhi obtain out' where o: "utf16_loop be src units (i + 1) = Inr out'"
          "out = yep_emit_utf8 (ucast u) @ out'"
        by (auto simp: eq split: sum.splits if_splits)
      have "i + 1 \<le> units" using True by simp
      from "1.IH"(2) [OF True u_def nhi nlo o(1) "1.prems"(2) this] obtain cps where
        c: "\<forall>cp\<in>set cps. scalar_value cp" "drop ((i + 1) * 2) src = concat (map (utf16_enc be) cps)"
          "out' = concat (map yep_emit_utf8 cps)" by auto
      have "scalar_value (ucast u)"
        using nhi nlo u16_bound [of u] by (auto simp: scalar_value_nat unat_ucast_16 word_le_nat_alt)
      moreover have "utf16_enc be (ucast u) = [src ! (i * 2), src ! (i * 2 + 1)]"
        by (simp add: utf16_enc_def unat_ucast_16 rd16_unit16 u_def u16_bound)
      ultimately show ?thesis using c d o(2) by (intro exI [of _ "ucast u # cps"]) simp
    qed
  qed
qed

lemma utf16_loop_complete:
  assumes "\<forall>cp\<in>set cps. scalar_value cp" and "drop (i * 2) src = concat (map (utf16_enc be) cps)"
    and "units * 2 = length src" and "i \<le> units"
  shows "utf16_loop be src units i = Inr (concat (map yep_emit_utf8 cps))"
  using assms
proof (induction cps arbitrary: i)
  case Nil
  then show ?case by (simp add: utf16_loop.simps [of be src units i])
next
  case (Cons cp cps)
  define n where "n = unat cp"
  have sc: "n < 0x110000" "\<not> (0xD800 \<le> n \<and> n \<le> 0xDFFF)"
    using Cons.prems(1) by (auto simp: scalar_value_nat n_def)
  have i: "i < units"
  proof (rule ccontr)
    assume "\<not> i < units"
    with Cons.prems(2-4) have "utf16_enc be cp = []" by simp
    then show False by (auto simp: utf16_enc_def Let_def unit16_def split: if_splits)
  qed
  define u where "u = rd16 src (i * 2) be"
  show ?case
  proof (cases "n < 0x10000")
    case True
    then have d: "drop (i * 2) src = unit16 be n @ concat (map (utf16_enc be) cps)"
      using Cons.prems(2) by (simp add: utf16_enc_def [of be cp] n_def)
    have u: "unat u = n" using unat_rd16_unit16 [OF True d] by (simp add: u_def)
    have "drop ((i + 1) * 2) src = concat (map (utf16_enc be) cps)"
      using arg_cong [OF d, of "drop 2"] by (simp add: add.commute)
    with Cons i have "utf16_loop be src units (i + 1) = Inr (concat (map yep_emit_utf8 cps))" by simp
    moreover have "ucast u = cp"
      by (rule word_unat_eq_iff [THEN iffD2]) (simp add: unat_ucast_16 u n_def)
    moreover note utf16_loop.simps [of be src units i, unfolded Let_def, folded u_def]
    ultimately show ?thesis
      using i sc(2) u by (auto simp: word_le_nat_alt)
  next
    case False
    define x y where "x = (n - 0x10000) div 1024" and "y = (n - 0x10000) mod 1024"
    have xy: "x < 1024" "y < 1024" "n = 0x10000 + x * 1024 + y"
      using False sc(1) by (simp_all add: x_def y_def)
    have d: "drop (i * 2) src = unit16 be (0xD800 + x) @ (unit16 be (0xDC00 + y) @ concat (map (utf16_enc be) cps))"
      using Cons.prems(2) False by (simp add: utf16_enc_def [of be cp] n_def x_def y_def Let_def)
    have d2: "drop ((i + 1) * 2) src = unit16 be (0xDC00 + y) @ concat (map (utf16_enc be) cps)"
      using arg_cong [OF d, of "drop 2"] by (simp add: add.commute)
    have d3: "drop ((i + 2) * 2) src = concat (map (utf16_enc be) cps)"
      using arg_cong [OF d2, of "drop 2"] by (simp add: add.commute)
    define v where "v = rd16 src ((i + 1) * 2) be"
    define c :: u32 where "c = 0x10000 + push_bit 10 (ucast (u - 0xD800)) + ucast (v - 0xDC00)"
    have uv: "unat u = 0xD800 + x" "unat v = 0xDC00 + y"
      using unat_rd16_unit16 [OF _ d] unat_rd16_unit16 [OF _ d2] xy by (simp_all add: u_def v_def)
    then have r: "0xD800 \<le> u" "u \<le> 0xDBFF" "0xDC00 \<le> v" "v \<le> 0xDFFF"
      using xy by (simp_all add: word_le_nat_alt)
    have "c = cp"
      by (rule word_unat_eq_iff [THEN iffD2]) (use unat_surrogate_cp [OF r] uv xy(3) in \<open>simp add: c_def n_def\<close>)
    have le: "i + 2 \<le> units"
    proof (rule ccontr)
      assume "\<not> i + 2 \<le> units"
      with Cons.prems(3) have "drop ((i + 1) * 2) src = []" by simp
      with d2 show False by (simp add: unit16_def split: if_splits)
    qed
    with Cons.IH [OF _ d3] Cons.prems have "utf16_loop be src units (i + 2) = Inr (concat (map yep_emit_utf8 cps))"
      by simp
    moreover note utf16_loop.simps [of be src units i, unfolded Let_def, folded u_def v_def, folded c_def]
    ultimately show ?thesis
      using i le r \<open>c = cp\<close> by (simp add: not_less)
  qed
qed



definition utf32_enc :: "bool \<Rightarrow> u32 \<Rightarrow> byte list" where
  "utf32_enc big_endian cp =
     (let n = unat cp;
          bs = [of_nat (n div 0x1000000), of_nat (n div 0x10000 mod 256), of_nat (n div 256 mod 256),
                of_nat (n mod 256)]
      in if big_endian then bs else rev bs)"

lemma unat_rd32:
  "unat (rd32 src off be) =
     (let b = (\<lambda>k. unat (src ! (off + k))) in
      if be then ((b 0 * 256 + b 1) * 256 + b 2) * 256 + b 3
      else ((b 3 * 256 + b 2) * 256 + b 1) * 256 + b 0)"
proof -
  have "unat (push_bit 24 (ucast w) OR push_bit 16 (ucast x) OR push_bit 8 (ucast y) OR ucast z :: u32) =
      ((unat w * 256 + unat x) * 256 + unat y) * 256 + unat z" for w x y z :: byte
  proof -
    let ?w = "ucast w :: u32" and ?x = "ucast x :: u32" and ?y = "ucast y :: u32" and ?z = "ucast z :: u32"
    have l: "unat ?w < 256" "unat ?x < 256" "unat ?y < 256" "unat ?z < 256"
      by (simp_all add: unat_ucast_up byte_bound)
    then have 1: "unat (push_bit 8 ?y OR ?z) = unat ?y * 256 + unat ?z" "unat ?y * 256 + unat ?z < 65536"
      by (simp_all add: unat_shift_or)
    with l have 2: "unat (push_bit 16 ?x OR (push_bit 8 ?y OR ?z)) = unat ?x * 65536 + (unat ?y * 256 + unat ?z)"
      "unat ?x * 65536 + (unat ?y * 256 + unat ?z) < 16777216"
      by (simp_all add: unat_shift_or)
    with l have "unat (push_bit 24 ?w OR (push_bit 16 ?x OR (push_bit 8 ?y OR ?z))) =
        unat ?w * 16777216 + (unat ?x * 65536 + (unat ?y * 256 + unat ?z))"
      by (simp add: unat_shift_or)
    then show ?thesis by (simp add: unat_ucast_up or.assoc)
  qed
  then show ?thesis by (simp add: rd32_def Let_def)
qed

lemma four_bytes:
  fixes a b c d :: nat
  assumes "b < 256" "c < 256" "d < 256"
  shows "(((a * 256 + b) * 256 + c) * 256 + d) mod 256 = d"
    "(((a * 256 + b) * 256 + c) * 256 + d) div 256 mod 256 = c"
    "(((a * 256 + b) * 256 + c) * 256 + d) div 65536 mod 256 = b"
    "(((a * 256 + b) * 256 + c) * 256 + d) div 16777216 = a"
proof -
  define q where "q = a * 256 + b"
  define r where "r = q * 256 + c"
  have q: "q div 256 = a" "q mod 256 = b" using assms(1) by (simp_all add: q_def)
  have r: "r div 256 = q" "r mod 256 = c" using assms(2) by (simp_all add: r_def)
  have s: "(r * 256 + d) div 256 = r" "(r * 256 + d) mod 256 = d" using assms(3) by simp_all
  have e: "n div 65536 = n div 256 div 256" "n div 16777216 = n div 256 div 256 div 256" for n :: nat
    by (simp_all flip: div_mult2_eq)
  show "(((a * 256 + b) * 256 + c) * 256 + d) mod 256 = d"
    "(((a * 256 + b) * 256 + c) * 256 + d) div 256 mod 256 = c"
    "(((a * 256 + b) * 256 + c) * 256 + d) div 65536 mod 256 = b"
    "(((a * 256 + b) * 256 + c) * 256 + d) div 16777216 = a"
    unfolding q_def [symmetric] r_def [symmetric] e s r q by simp_all
qed

lemma rd32_enc: "utf32_enc be (rd32 src off be) = [src ! off, src ! (off + 1), src ! (off + 2), src ! (off + 3)]"
proof -
  have b: "unat (src ! (off + k)) < 256" for k by (rule byte_bound)
  show ?thesis
    using four_bytes [OF b [of 1] b [of 2] b [of 3]] four_bytes [OF b [of 2] b [of 1] b [of 0]]
    unfolding utf32_enc_def unat_rd32 Let_def by (cases be) simp_all
qed

lemma unat_rd32_enc:
  assumes "drop off src = utf32_enc be cp @ rest"
  shows "rd32 src off be = cp"
proof -
  define n where "n = unat cp"
  have n: "n < 4294967296" using unsigned_less [of cp] by (simp add: n_def)
  have l: "length (utf32_enc be cp) = 4" by (simp add: utf32_enc_def Let_def)
  have i: "src ! (off + k) = utf32_enc be cp ! k" if "k < 4" for k
    using nth_of_drop [OF assms, of k] that l by simp
  have e: "n div 16777216 = n div 256 div 256 div 256" "n div 65536 = n div 256 div 256"
    by (simp_all flip: div_mult2_eq)
  have d: "n div 256 div 256 div 256 < 256" using n by simp
  have "((n div 256 div 256 div 256 * 256 + n div 256 div 256 mod 256) * 256 + n div 256 mod 256) * 256 + n mod 256 = n"
    by (simp only: div_mult_mod_eq)
  then show ?thesis
    using i [of 0] i [of 1] i [of 2] i [of 3] d
    unfolding word_unat_eq_iff [where v = "rd32 src off be"] unat_rd32 Let_def
    by (simp add: utf32_enc_def Let_def n_def [symmetric] unat_of_nat_byte e)
qed

lemma drop_4: "i + 3 < length s \<Longrightarrow> drop i s = [s ! i, s ! (i + 1), s ! (i + 2), s ! (i + 3)] @ drop (i + 4) s"
  using take_drop_4 [of i s] append_take_drop_id [of 4 "drop i s"] by (simp add: add.commute)

lemma scalar_guard: "\<not> (0x10FFFF < cp \<or> yep_is_surrogate cp) \<longleftrightarrow> scalar_value cp"
  by (auto simp: scalar_value_def not_less)

lemma utf32_loop_iff:
  assumes "units * 4 = length src" and "i \<le> units"
  shows "utf32_loop be src units i = Inr out \<longleftrightarrow>
    (\<exists>cps. (\<forall>cp\<in>set cps. scalar_value cp) \<and> drop (i * 4) src = concat (map (utf32_enc be) cps) \<and>
      out = concat (map yep_emit_utf8 cps))"
  using assms
proof (induction be src units i arbitrary: out rule: utf32_loop.induct)
  case (1 be src units i)
  define cp where "cp = rd32 src (i * 4) be"
  note eq = utf32_loop.simps [of be src units i, unfolded Let_def, folded cp_def]
  have ne: "utf32_enc be c \<noteq> []" for c by (simp add: utf32_enc_def Let_def)
  show ?case
  proof (cases "i < units")
    case False
    with "1.prems" have "drop (i * 4) src = []" by simp
    then show ?thesis
      using False ne by (auto simp: eq intro: exI [of _ "[]"])
  next
    case True
    have d: "drop (i * 4) src = utf32_enc be cp @ drop ((i + 1) * 4) src"
      using drop_4 [of "i * 4" src] True "1.prems"(1) by (simp add: cp_def rd32_enc add.commute)
    have first: "c = cp" if "drop (i * 4) src = utf32_enc be c @ r" for c r
      using unat_rd32_enc [OF that] by (simp add: cp_def)
    show ?thesis (is "_ \<longleftrightarrow> (\<exists>cps. ?P cps)")
    proof
      assume l: "utf32_loop be src units i = Inr out"
      with True have g: "\<not> (0x10FFFF < cp \<or> yep_is_surrogate cp)" by (auto simp: eq split: if_splits)
      with l True obtain out' where o: "utf32_loop be src units (i + 1) = Inr out'" "out = yep_emit_utf8 cp @ out'"
        by (auto simp: eq split: sum.splits)
      with "1.IH" [OF True cp_def g "1.prems"(1)] True obtain cps where
        "\<forall>cp\<in>set cps. scalar_value cp" "drop ((i + 1) * 4) src = concat (map (utf32_enc be) cps)"
        "out' = concat (map yep_emit_utf8 cps)" by auto
      with d o g scalar_guard show "\<exists>cps. ?P cps" by (intro exI [of _ "cp # cps"]) auto
    next
      assume "\<exists>cps. ?P cps"
      then obtain cps where c: "?P cps" ..
      with d ne obtain c' cs where cs: "cps = c' # cs" by (cases cps) auto
      with c first have "c' = cp" by auto
      with c cs d have "drop ((i + 1) * 4) src = concat (map (utf32_enc be) cs)" by auto
      with "1.IH" [OF True cp_def _ "1.prems"(1)] c cs \<open>c' = cp\<close> True scalar_guard
      have "utf32_loop be src units (i + 1) = Inr (concat (map yep_emit_utf8 cs))" by auto
      with True c cs \<open>c' = cp\<close> scalar_guard show "utf32_loop be src units i = Inr out"
        by (auto simp: eq)
    qed
  qed
qed

lemma utf16_loop_iff:
  assumes "units * 2 = length src"
  shows "utf16_loop be src units 0 = Inr out \<longleftrightarrow>
    (\<exists>cps. (\<forall>cp\<in>set cps. scalar_value cp) \<and> src = concat (map (utf16_enc be) cps) \<and>
      out = concat (map yep_emit_utf8 cps))"
  using utf16_loop_sound [of be src units 0 out] utf16_loop_complete [of _ 0 src be units] assms by auto

lemma even_utf16: "length (concat (map (utf16_enc be) cps)) mod 2 = 0"
  by (induction cps) (auto simp: utf16_enc_def Let_def unit16_def)

lemma transcode_utf16_iff:
  "yep_transcode_utf16 (\<lambda>_. True) be src = Inr out \<longleftrightarrow>
    (\<exists>cps. (\<forall>cp\<in>set cps. scalar_value cp) \<and> src = concat (map (utf16_enc be) cps) \<and>
      out = concat (map yep_emit_utf8 cps))"
proof (cases "length src mod 2 = 0")
  case True
  then have "length src div 2 * 2 = length src" by presburger
  with True utf16_loop_iff [of "length src div 2" src be out] show ?thesis
    by (simp add: yep_transcode_utf16_def Let_def)
next
  case False
  then show ?thesis using even_utf16 by (auto simp: yep_transcode_utf16_def Let_def)
qed

lemma four_utf32: "length (concat (map (utf32_enc be) cps)) mod 4 = 0"
  by (induction cps) (auto simp: utf32_enc_def Let_def)

lemma transcode_utf32_iff:
  "yep_transcode_utf32 (\<lambda>_. True) be src = Inr out \<longleftrightarrow>
    (\<exists>cps. (\<forall>cp\<in>set cps. scalar_value cp) \<and> src = concat (map (utf32_enc be) cps) \<and>
      out = concat (map yep_emit_utf8 cps))"
proof (cases "length src mod 4 = 0")
  case True
  then have "length src div 4 * 4 = length src" by presburger
  with True utf32_loop_iff [of "length src div 4" src 0 be out] show ?thesis
    by (simp add: yep_transcode_utf32_def Let_def)
next
  case False
  then show ?thesis using four_utf32 by (auto simp: yep_transcode_utf32_def Let_def)
qed

text \<open>Allocation success is the only thing the output depends on besides the bytes.\<close>

lemma transcode_alloc:
  "yep_transcode_utf16 ok be src = Inr out \<Longrightarrow> yep_transcode_utf16 (\<lambda>_. True) be src = Inr out"
  "yep_transcode_utf32 ok be src = Inr out \<Longrightarrow> yep_transcode_utf32 (\<lambda>_. True) be src = Inr out"
  by (auto simp: yep_transcode_utf16_def yep_transcode_utf32_def Let_def split: if_splits)

section \<open>Properties of the transcoder\<close>

definition utf_enc :: "yep_encoding \<Rightarrow> u32 \<Rightarrow> byte list" where
  "utf_enc enc =
     (case enc of
        YEP_ENC_UTF16LE \<Rightarrow> utf16_enc False | YEP_ENC_UTF16BE \<Rightarrow> utf16_enc True
      | YEP_ENC_UTF32LE \<Rightarrow> utf32_enc False | YEP_ENC_UTF32BE \<Rightarrow> utf32_enc True
      | _ \<Rightarrow> yep_emit_utf8)"

lemma enc_nonempty: "utf16_enc be cp \<noteq> []" "utf32_enc be cp \<noteq> []"
  by (simp_all add: utf16_enc_def utf32_enc_def unit16_def Let_def)

lemma concat_enc_Nil: "(\<And>x. f x \<noteq> []) \<Longrightarrow> [] = concat (map f xs) \<longleftrightarrow> xs = []"
  by (cases xs) auto

text \<open>
  C5. For each of the four UTF-16/UTF-32 forms the transcoder succeeds exactly on the
  encodings of scalar-value sequences and returns the UTF-8 encoding of the same
  sequence.
\<close>

theorem transcode_exact:
  assumes "enc \<noteq> YEP_ENC_UNKNOWN" and "enc \<noteq> YEP_ENC_UTF8"
  shows "yep_transcode_to_utf8 (Some (\<lambda>_. True)) enc (Some src) (length src) = Inr out \<longleftrightarrow>
    (\<exists>cps. list_all scalar_value cps \<and> src = concat (map (utf_enc enc) cps) \<and>
      out = concat (map yep_emit_utf8 cps))"
proof (cases "src = []")
  case True
  have "utf_enc enc cp \<noteq> []" for cp
    using enc_nonempty by (simp add: utf_enc_def split: yep_encoding.split)
  with True show ?thesis by (auto simp: yep_transcode_to_utf8_def concat_enc_Nil)
next
  case False
  with assms transcode_utf16_iff [of _ src out] transcode_utf32_iff [of _ src out] show ?thesis
    by (cases enc) (auto simp: yep_transcode_to_utf8_def utf_enc_def list_all_iff)
qed

theorem transcode_exact_witness:
  "let src = [0x3D, 0xD8, 0x00, 0xDE]; out = [0xF0, 0x9F, 0x98, 0x80] in
   yep_transcode_to_utf8 (Some (\<lambda>_. True)) YEP_ENC_UTF16LE (Some src) (length src) = Inr out \<and>
   (\<exists>cps. list_all scalar_value cps \<and> src = concat (map (utf_enc YEP_ENC_UTF16LE) cps) \<and>
      out = concat (map yep_emit_utf8 cps))"
proof -
  define src out :: "byte list" where "src = [0x3D, 0xD8, 0x00, 0xDE]" and "out = [0xF0, 0x9F, 0x98, 0x80]"
  have h: "yep_transcode_to_utf8 (Some (\<lambda>_. True)) YEP_ENC_UTF16LE (Some src) (length src) = Inr out"
    by (simp add: src_def out_def yep_transcode_to_utf8_def yep_transcode_utf16_def utf16_loop.simps rd16_def
        yep_emit_utf8_def)
  then show ?thesis
    using transcode_exact [of YEP_ENC_UTF16LE src out] unfolding src_def [symmetric] out_def [symmetric] Let_def
    by simp
qed

text \<open>
  C6. Whatever the transcoder returns passes the library's own UTF-8 validator, so the
  scan layer's precondition holds for every input path.
\<close>

theorem transcode_output_valid:
  assumes "yep_transcode_to_utf8 sys enc (Some src) (length src) = Inr out"
  shows "yep_utf8_validate yep_text_gate_scan_scalar (Some out) (length out) = Inr ()"
proof -
  have "utf8_text False out"
  proof (cases "src = []")
    case True
    with assms show ?thesis by (auto simp: yep_transcode_to_utf8_def split: option.splits)
  next
    case False
    with assms have "\<exists>be. yep_transcode_utf16 (\<lambda>_. True) be src = Inr out \<or>
        yep_transcode_utf32 (\<lambda>_. True) be src = Inr out"
      by (auto simp: yep_transcode_to_utf8_def dest: transcode_alloc
          split: option.splits if_splits yep_encoding.splits)
    then show ?thesis by (auto simp: transcode_utf16_iff transcode_utf32_iff utf8_text_def)
  qed
  then show ?thesis by (simp add: yep_utf8_validate_def scalar_gate.validate_text)
qed

theorem transcode_output_valid_witness:
  "let src = [0, 0, 0x20, 0xAC]; out = [0xE2, 0x82, 0xAC] in
   yep_transcode_to_utf8 (Some (\<lambda>_. True)) YEP_ENC_UTF32BE (Some src) (length src) = Inr out \<and>
   yep_utf8_validate yep_text_gate_scan_scalar (Some out) (length out) = Inr ()"
proof -
  define src out :: "byte list" where "src = [0, 0, 0x20, 0xAC]" and "out = [0xE2, 0x82, 0xAC]"
  have h: "yep_transcode_to_utf8 (Some (\<lambda>_. True)) YEP_ENC_UTF32BE (Some src) (length src) = Inr out"
    by (simp add: src_def out_def yep_transcode_to_utf8_def yep_transcode_utf32_def utf32_loop.simps rd32_def
        yep_is_surrogate_def yep_emit_utf8_def)
  from h transcode_output_valid [OF h] show ?thesis unfolding src_def [symmetric] out_def [symmetric] Let_def by simp
qed




section \<open>Byte-order marks\<close>

definition bom_bytes :: "yep_encoding \<Rightarrow> byte list" where
  "bom_bytes enc =
     (case enc of
        YEP_ENC_UNKNOWN \<Rightarrow> [] | YEP_ENC_UTF8 \<Rightarrow> [0xEF, 0xBB, 0xBF]
      | YEP_ENC_UTF16LE \<Rightarrow> [0xFF, 0xFE] | YEP_ENC_UTF16BE \<Rightarrow> [0xFE, 0xFF]
      | YEP_ENC_UTF32LE \<Rightarrow> [0xFF, 0xFE, 0, 0] | YEP_ENC_UTF32BE \<Rightarrow> [0, 0, 0xFE, 0xFF])"

lemma take_lists:
  "take 2 p = [a, b] \<longleftrightarrow> 2 \<le> length p \<and> p ! 0 = a \<and> p ! 1 = b"
  "take 3 p = [a, b, c] \<longleftrightarrow> 3 \<le> length p \<and> p ! 0 = a \<and> p ! 1 = b \<and> p ! 2 = c"
  "take 4 p = [a, b, c, d] \<longleftrightarrow> 4 \<le> length p \<and> p ! 0 = a \<and> p ! 1 = b \<and> p ! 2 = c \<and> p ! 3 = d"
  by (cases p; cases "tl p"; cases "tl (tl p)"; cases "tl (tl (tl p))"; auto simp: eval_nat_numeral)+

lemma length_bom_bytes:
  "length (bom_bytes enc) =
     (case enc of YEP_ENC_UNKNOWN \<Rightarrow> 0 | YEP_ENC_UTF8 \<Rightarrow> 3 | YEP_ENC_UTF16LE \<Rightarrow> 2 | YEP_ENC_UTF16BE \<Rightarrow> 2
      | YEP_ENC_UTF32LE \<Rightarrow> 4 | YEP_ENC_UTF32BE \<Rightarrow> 4)"
  by (cases enc) (simp_all add: bom_bytes_def)

text \<open>
  \<^verbatim>\<open>yep_bom_sniff\<close> reports the longest byte-order mark the input starts with, and its
  length: UTF-32LE is not taken for UTF-16LE, and a partial mark matches nothing.
\<close>

theorem bom_sniff_longest:
  assumes "yep_bom_sniff p = (enc, n)"
  shows "n = length (bom_bytes enc) \<and> take n p = bom_bytes enc \<and>
    (take (length (bom_bytes enc')) p = bom_bytes enc' \<longrightarrow> length (bom_bytes enc') \<le> n)"
proof (intro conjI impI)
  show "n = length (bom_bytes enc)" "take n p = bom_bytes enc"
    using assms unfolding yep_bom_sniff_def length_bom_bytes
    by (auto simp: bom_bytes_def take_lists Let_def split: if_splits)
  assume "take (length (bom_bytes enc')) p = bom_bytes enc'"
  then have "enc' = YEP_ENC_UNKNOWN \<or>
      (enc' = YEP_ENC_UTF8 \<and> take 3 p = [0xEF, 0xBB, 0xBF]) \<or>
      (enc' = YEP_ENC_UTF16LE \<and> take 2 p = [0xFF, 0xFE]) \<or> (enc' = YEP_ENC_UTF16BE \<and> take 2 p = [0xFE, 0xFF]) \<or>
      (enc' = YEP_ENC_UTF32LE \<and> take 4 p = [0xFF, 0xFE, 0, 0]) \<or>
      (enc' = YEP_ENC_UTF32BE \<and> take 4 p = [0, 0, 0xFE, 0xFF])"
    unfolding length_bom_bytes by (cases enc') (simp_all add: bom_bytes_def)
  with assms show "length (bom_bytes enc') \<le> n"
    unfolding length_bom_bytes take_lists yep_bom_sniff_def Let_def
    by (elim disjE conjE) (simp_all split: if_splits)
qed

theorem bom_sniff_longest_witness:
  "yep_bom_sniff [0xFF, 0xFE, 0, 0, 0x41] = (YEP_ENC_UTF32LE, 4) \<and>
   4 = length (bom_bytes YEP_ENC_UTF32LE) \<and>
   take 4 [0xFF, 0xFE, 0, 0, 0x41] = bom_bytes YEP_ENC_UTF32LE \<and> length (bom_bytes YEP_ENC_UTF16LE) \<le> 4"
proof -
  have h: "yep_bom_sniff [0xFF, 0xFE, 0, 0, 0x41] = (YEP_ENC_UTF32LE, 4)"
    by (simp add: yep_bom_sniff_def)
  show ?thesis
    using h bom_sniff_longest [OF h, of YEP_ENC_UTF16LE]
    by (simp add: bom_bytes_def)
qed

end
