(* ===== verification/View.thy ===== *)
theory View
  imports Prelude
begin

text \<open>
  Borrowed string views, \<^verbatim>\<open>src/yeptris/common/string_view.[ch]\<close>. A \<^verbatim>\<open>yep_view\<close> is the
  byte list it denotes; its \<^verbatim>\<open>len\<close> field is a \<^verbatim>\<open>uint32_t\<close>, so the list is shorter than
  \<open>2^32\<close> bytes and \<^verbatim>\<open>yep_view_from_cstr\<close> truncates the length. \<open>None\<close> is a NULL
  C string; the terminating NUL is not part of a string's list.

  Fixed-size \<^verbatim>\<open>memcpy\<close> loads are little-endian reads (\<open>le_load\<close>), as on the hosts the
  library targets.
\<close>

type_synonym yep_view = "byte list"

section \<open>Little-endian loads\<close>

primrec le_load :: "byte list \<Rightarrow> 'a::len word" where
  "le_load [] = 0"
| "le_load (b # bs) = ucast b OR push_bit 8 (le_load bs)"

section \<open>The operations\<close>

definition yep_view_empty :: yep_view where
  "yep_view_empty = []"

definition yep_view_is_empty :: "yep_view \<Rightarrow> bool" where
  "yep_view_is_empty v \<longleftrightarrow> length v = 0"

definition yep_view_from_cstr :: "byte list option \<Rightarrow> yep_view" where
  "yep_view_from_cstr s = (case s of None \<Rightarrow> [] | Some c \<Rightarrow> take (length c mod 2 ^ 32) c)"

text \<open>
  \<^verbatim>\<open>yep_view_eq\<close>: an eight-byte loop, one four-byte step, then a byte loop. Each call sees
  the two cursors and the remaining count.
\<close>

fun view_eq_bytes :: "nat \<Rightarrow> byte list \<Rightarrow> byte list \<Rightarrow> bool" where
  "view_eq_bytes 0 p q = True"
| "view_eq_bytes (Suc n) p q = (if hd p \<noteq> hd q then False else view_eq_bytes n (tl p) (tl q))"

definition view_eq_4 :: "nat \<Rightarrow> byte list \<Rightarrow> byte list \<Rightarrow> bool" where
  "view_eq_4 n p q =
     (if 4 \<le> n then
        if (le_load (take 4 p) :: u32) \<noteq> le_load (take 4 q) then False
        else view_eq_bytes (n - 4) (drop 4 p) (drop 4 q)
      else view_eq_bytes n p q)"

fun view_eq_8 :: "nat \<Rightarrow> byte list \<Rightarrow> byte list \<Rightarrow> bool" where
  "view_eq_8 n p q =
     (if 8 \<le> n then
        if (le_load (take 8 p) :: u64) \<noteq> le_load (take 8 q) then False
        else view_eq_8 (n - 8) (drop 8 p) (drop 8 q)
      else view_eq_4 n p q)"

declare view_eq_8.simps [simp del]

definition yep_view_eq :: "yep_view \<Rightarrow> yep_view \<Rightarrow> bool" where
  "yep_view_eq a b = (if length a \<noteq> length b then False else view_eq_8 (length a) a b)"

definition yep_view_eq_cstr :: "yep_view \<Rightarrow> byte list option \<Rightarrow> bool" where
  "yep_view_eq_cstr a s =
     (case s of None \<Rightarrow> length a = 0 | Some c \<Rightarrow> length a = length c \<and> (length c = 0 \<or> a = c))"

definition yep_view_starts_with :: "yep_view \<Rightarrow> byte list option \<Rightarrow> bool" where
  "yep_view_starts_with v prefix =
     (case prefix of None \<Rightarrow> True
      | Some c \<Rightarrow> length c \<le> length v \<and> take (length c) v = c)"

definition yep_view_slice :: "yep_view \<Rightarrow> nat \<Rightarrow> nat \<Rightarrow> yep_view" where
  "yep_view_slice v off len =
     (if length v < off \<or> length v - off < len then yep_view_empty else take len (drop off v))"

section \<open>Loads are injective\<close>

lemma unat_le_load:
  assumes "8 * length bs \<le> LENGTH('a::len)"
  shows "unat (le_load bs :: 'a word) < 256 ^ length bs"
    and "bs = b # cs \<Longrightarrow> unat (le_load bs :: 'a word) = unat b + 256 * unat (le_load cs :: 'a word)"
proof -
  have pow: "(256::nat) ^ k = 2 ^ (8 * k)" for k by (simp add: power_mult)
  have step: "unat (le_load (b # cs) :: 'a word) = unat b + 256 * unat (le_load cs :: 'a word)"
    if len: "8 * length (b # cs) \<le> LENGTH('a)" and lt: "unat (le_load cs :: 'a word) < 256 ^ length cs" for b cs
  proof -
    have "8 \<le> LENGTH('a)" using len by simp
    then have "(2::nat) ^ 8 \<le> 2 ^ LENGTH('a)" by (rule power_increasing) simp
    then have ub: "unat (ucast b :: 'a word) = unat b"
      using byte_bound [of b] by (simp add: unat_ucast)
    have "unat (le_load cs :: 'a word) * 256 < 256 ^ length cs * 256" using lt by simp
    also have "\<dots> = 2 ^ (8 * length (b # cs))" by (simp add: pow power_add)
    also have "\<dots> \<le> 2 ^ LENGTH('a)" using len by (intro power_increasing) simp_all
    finally have "unat (push_bit 8 (le_load cs) :: 'a word) = unat (le_load cs :: 'a word) * 256"
      by (simp add: unat_push_bit)
    with unat_or_disjoint [of 8 "push_bit 8 (le_load cs) :: 'a word" "ucast b"] ub byte_bound [of b]
    show ?thesis by (simp add: or.commute)
  qed
  have bound: "unat (le_load bs :: 'a word) < 256 ^ length bs" if "8 * length bs \<le> LENGTH('a)" for bs
    using that
  proof (induction bs)
    case Nil
    then show ?case by simp
  next
    case (Cons b bs)
    then show ?case using step [of b bs] byte_bound [of b] by simp
  qed
  from bound [OF assms] show "unat (le_load bs :: 'a word) < 256 ^ length bs" .
  assume "bs = b # cs"
  with assms step [of b cs] bound [of cs] show "unat (le_load bs :: 'a word) = unat b + 256 * unat (le_load cs :: 'a word)"
    by simp
qed

lemma le_load_inj:
  assumes "length xs = length ys" and "8 * length xs \<le> LENGTH('a::len)"
    and "(le_load xs :: 'a word) = le_load ys"
  shows "xs = ys"
  using assms
proof (induction xs ys rule: list_induct2)
  case Nil
  then show ?case by simp
next
  case (Cons x xs y ys)
  have "unat x + 256 * unat (le_load xs :: 'a word) = unat y + 256 * unat (le_load ys :: 'a word)"
    using unat_le_load(2) [where 'a = 'a, OF _ refl, of x xs] unat_le_load(2) [where 'a = 'a, OF _ refl, of y ys]
      Cons.prems Cons.hyps by (simp del: le_load.simps)
  then have "(unat x + 256 * unat (le_load xs :: 'a word)) mod 256 = (unat y + 256 * unat (le_load ys :: 'a word)) mod 256"
    and "(unat x + 256 * unat (le_load xs :: 'a word)) div 256 = (unat y + 256 * unat (le_load ys :: 'a word)) div 256"
    by simp_all
  then have "unat x = unat y" "unat (le_load xs :: 'a word) = unat (le_load ys :: 'a word)"
    using byte_bound [of x] byte_bound [of y] by simp_all
  with Cons show ?case by (simp add: word_unat_eq_iff)
qed

section \<open>Properties\<close>

lemma view_eq_bytes_iff: "length p = n \<Longrightarrow> length q = n \<Longrightarrow> view_eq_bytes n p q \<longleftrightarrow> p = q"
proof (induction n arbitrary: p q)
  case 0
  then show ?case by simp
next
  case (Suc n)
  then show ?case by (cases p; cases q; simp)
qed

lemma split_at_eq: "take k p = take k q \<and> drop k p = drop k q \<longleftrightarrow> p = q"
  by (metis append_take_drop_id)

lemma view_eq_4_iff: "length p = n \<Longrightarrow> length q = n \<Longrightarrow> view_eq_4 n p q \<longleftrightarrow> p = q"
  using le_load_inj [where 'a = 32, of "take 4 p" "take 4 q"] split_at_eq [of 4 p q]
  by (auto simp: view_eq_4_def view_eq_bytes_iff)

lemma view_eq_8_iff: "length p = n \<Longrightarrow> length q = n \<Longrightarrow> view_eq_8 n p q \<longleftrightarrow> p = q"
proof (induction n p q rule: view_eq_8.induct)
  case (1 n p q)
  show ?case
  proof (cases "8 \<le> n")
    case True
    with 1 have "(le_load (take 8 p) :: u64) = le_load (take 8 q) \<longleftrightarrow> take 8 p = take 8 q"
      using le_load_inj [where 'a = 64, of "take 8 p" "take 8 q"] by auto
    with 1 True split_at_eq [of 8 p q] show ?thesis by (auto simp: view_eq_8.simps [of n p q])
  next
    case False
    with 1 show ?thesis by (simp add: view_eq_8.simps [of n p q] view_eq_4_iff)
  qed
qed

lemma view_eq_iff [simp]: "yep_view_eq a b \<longleftrightarrow> a = b"
  by (auto simp: yep_view_eq_def view_eq_8_iff)

text \<open>
  The word-at-a-time comparison decides equality of the viewed bytes, and the sub-view
  operation is consistent with it: a view equals a C string exactly when it starts with
  it and the remaining slice is empty.
\<close>

lemma view_operations_agree:
  "(yep_view_eq a b \<longleftrightarrow> a = b) \<and>
   (yep_view_eq_cstr a (Some c) \<longleftrightarrow>
      yep_view_starts_with a (Some c) \<and>
      yep_view_is_empty (yep_view_slice a (length c) (length a - length c)))"
  by (auto simp: yep_view_eq_cstr_def yep_view_starts_with_def yep_view_is_empty_def yep_view_slice_def
      yep_view_empty_def)

end
