(* ===== verification/Nametab.thy ===== *)
theory Nametab
  imports View
begin

text \<open>
  The open-addressing interner, \<^verbatim>\<open>src/yeptris/common/nametab.[ch]\<close>: anchor names,
  canonical anchor renaming and every other name-keyed registry go through it.

  A table is a record of its arrays and counters; \<open>nt_keys\<close> and \<open>nt_values\<close> hold the
  \<open>nt_ext_count\<close> live entries of their arrays of capacity \<open>nt_ext_cap\<close>. Memory is a
  predicate \<open>alloc_ok\<close> on the requested size in bytes. A probe loop \<^verbatim>\<open>for (;;)\<close> is a
  \<^theory_text>\<open>partial_function (option)\<close>: \<open>None\<close> means it never leaves the loop. The C types are
  32-bit; the only operations that can wrap, \<^verbatim>\<open>key.len + 1\<close> and the doublings, carry
  their \<open>mod 2 ^ 32\<close>.
\<close>

section \<open>The hash\<close>

definition hash_round :: "u64 \<Rightarrow> u64 \<Rightarrow> u64" where
  "hash_round h k =
     (let h = h XOR k; h = h * 0x9E3779B97F4A7C15 in h XOR drop_bit 29 h)"

definition load_small :: "byte list \<Rightarrow> nat \<Rightarrow> u64" where
  "load_small p n =
     (let (k, p) = (if bit n 2 then (ucast (le_load (take 4 p) :: u32), drop 4 p) else (0, p));
          (k, p) = (if bit n 1 then (push_bit 16 k OR ucast (le_load (take 2 p) :: u16), drop 2 p)
                    else (k, p))
      in if bit n 0 then push_bit 8 k OR ucast (hd p) else k)"

definition yep_view_hash :: "yep_view \<Rightarrow> u32" where
  "yep_view_hash s =
     (let len = length s;
          h = 0x9E3779B97F4A7C15 XOR of_nat len;
          h = (if len \<le> 8 then hash_round h (load_small s len)
               else if len \<le> 16
               then hash_round (hash_round h (le_load (take 8 s))) (load_small (drop 8 s) (len - 8))
               else hash_round
                      (hash_round (hash_round h (le_load (take 8 s))) (le_load (take 8 (drop (len - 8) s))))
                      (of_nat len * 0x85EBCA77));
          h = h XOR drop_bit 32 h;
          h = h * 0xBF58476D1CE4E5B9;
          h = h XOR drop_bit 29 h
      in ucast (h XOR drop_bit 32 h))"

definition key_prefix :: "yep_view \<Rightarrow> u64" where
  "key_prefix k = (if 8 \<le> length k then load_small k 8 else load_small k (length k))"

section \<open>The table\<close>

definition YEP_NAMETAB_NIL :: nat where
  "YEP_NAMETAB_NIL = 2 ^ 32 - 1"

definition NT_MIN_CAP :: nat where
  "NT_MIN_CAP = 64"

definition NT_LOAD_PCT :: nat where
  "NT_LOAD_PCT = 70"

record yep_nt_slot =
  sl_prefix :: u64
  sl_val :: nat
  sl_klen1 :: nat

record yep_nametab =
  nt_slots :: "yep_nt_slot list"
  nt_keys :: "yep_view list"
  nt_values :: "nat list"
  nt_ext_count :: nat
  nt_ext_cap :: nat
  nt_count :: nat
  nt_cap :: nat

text \<open>A zeroed slot (\<^verbatim>\<open>memset\<close>), \<^verbatim>\<open>sizeof(yep_nt_slot)\<close> and the sizes of the side arrays.\<close>

definition zero_slot :: yep_nt_slot where
  "zero_slot = \<lparr>sl_prefix = 0, sl_val = 0, sl_klen1 = 0\<rparr>"

definition yep_nametab_init :: "(nat \<Rightarrow> bool) \<Rightarrow> yep_nametab option" where
  "yep_nametab_init alloc_ok =
     (if \<not> alloc_ok (NT_MIN_CAP * 16) then None
      else Some \<lparr>nt_slots = replicate NT_MIN_CAP zero_slot, nt_keys = [], nt_values = [],
                 nt_ext_count = 0, nt_ext_cap = 0, nt_count = 0, nt_cap = NT_MIN_CAP\<rparr>)"

definition yep_nametab_free :: "yep_nametab \<Rightarrow> yep_nametab" where
  "yep_nametab_free t =
     \<lparr>nt_slots = [], nt_keys = [], nt_values = [], nt_ext_count = 0, nt_ext_cap = 0,
      nt_count = 0, nt_cap = 0\<rparr>"

text \<open>
  The linear probe shared by every loop of the file: from \<open>j\<close>, step by
  \<^verbatim>\<open>j = (j + 1) & mask\<close> until \<open>stop\<close> holds. \<open>msk\<close> is \<^verbatim>\<open>cap - 1\<close>.
\<close>

partial_function (option) probe :: "(nat \<Rightarrow> bool) \<Rightarrow> nat \<Rightarrow> nat \<Rightarrow> nat option" where
  "probe stop msk j = (if stop j then Some j else probe stop msk ((j + 1) AND msk))"

partial_function (option) double_until :: "nat \<Rightarrow> nat \<Rightarrow> nat option" where
  "double_until cap need = (if cap < need then double_until (cap * 2 mod 2 ^ 32) need else Some cap)"

text \<open>\<open>nt_ext_grow\<close>: \<open>None\<close> a loop that never ends, \<open>Some None\<close> allocation failure.\<close>

definition nt_ext_grow :: "(nat \<Rightarrow> bool) \<Rightarrow> yep_nametab \<Rightarrow> nat \<Rightarrow> yep_nametab option option" where
  "nt_ext_grow alloc_ok t need =
     (if need \<le> nt_ext_cap t then Some (Some t)
      else
        (case double_until (if nt_ext_cap t \<noteq> 0 then nt_ext_cap t * 2 mod 2 ^ 32 else 16) need of
           None \<Rightarrow> None
         | Some cap \<Rightarrow>
             if \<not> alloc_ok (cap * 16) \<or> \<not> alloc_ok (cap * 4) then Some None
             else Some (Some (t\<lparr>nt_keys := take (nt_ext_count t) (nt_keys t),
                                nt_values := take (nt_ext_count t) (nt_values t),
                                nt_ext_cap := cap\<rparr>))))"

text \<open>
  The hash of a stored entry as \<^verbatim>\<open>nt_rehash\<close> recomputes it: a long key from \<^verbatim>\<open>keys[]\<close>, a short
  one from the eight bytes of its prefix word in memory order.
\<close>

definition prefix_bytes :: "u64 \<Rightarrow> byte list" where
  "prefix_bytes p = map (\<lambda>i. ucast (drop_bit (8 * i) p)) [0..<8]"

definition rehash_of :: "yep_nametab \<Rightarrow> yep_nt_slot \<Rightarrow> u32" where
  "rehash_of t src =
     (if 9 < sl_klen1 src then yep_view_hash (nt_keys t ! (sl_val src - 1))
      else yep_view_hash (take (sl_klen1 src - 1) (prefix_bytes (sl_prefix src))))"

fun rehash_loop :: "yep_nametab \<Rightarrow> nat \<Rightarrow> yep_nt_slot list \<Rightarrow> yep_nt_slot list \<Rightarrow> yep_nt_slot list option" where
  "rehash_loop t newcap [] slots = Some slots"
| "rehash_loop t newcap (src # rest) slots =
     (if sl_klen1 src = 0 then rehash_loop t newcap rest slots
      else
        (case probe (\<lambda>j. sl_klen1 (slots ! j) = 0) (newcap - 1)
                (unat (rehash_of t src) AND (newcap - 1)) of
           None \<Rightarrow> None
         | Some j \<Rightarrow> rehash_loop t newcap rest (slots[j := src])))"

definition nt_rehash :: "(nat \<Rightarrow> bool) \<Rightarrow> yep_nametab \<Rightarrow> nat \<Rightarrow> yep_nametab option option" where
  "nt_rehash alloc_ok t newcap =
     (if \<not> alloc_ok (newcap * 16) then Some None
      else
        (case rehash_loop t newcap (take (nt_cap t) (nt_slots t)) (replicate newcap zero_slot) of
           None \<Rightarrow> None
         | Some slots \<Rightarrow> Some (Some (t\<lparr>nt_slots := slots, nt_cap := newcap\<rparr>))))"

text \<open>
  A slot holds the key when length and prefix agree and, for a long key, the full compare
  confirms it.
\<close>

definition slot_match :: "yep_nametab \<Rightarrow> yep_view \<Rightarrow> yep_nt_slot \<Rightarrow> bool" where
  "slot_match t key s \<longleftrightarrow>
     sl_klen1 s = (length key + 1) mod 2 ^ 32 \<and> sl_prefix s = key_prefix key \<and>
     ((length key + 1) mod 2 ^ 32 \<le> 9 \<or> yep_view_eq (nt_keys t ! (sl_val s - 1)) key)"

definition yep_nametab_get :: "yep_nametab \<Rightarrow> yep_view \<Rightarrow> nat option" where
  "yep_nametab_get t key =
     (if nt_cap t = 0 then Some YEP_NAMETAB_NIL
      else
        let klen1 = (length key + 1) mod 2 ^ 32; mask = nt_cap t - 1 in
        (case probe (\<lambda>j. sl_klen1 (nt_slots t ! j) = 0 \<or> slot_match t key (nt_slots t ! j)) mask
                (unat (yep_view_hash key) AND mask) of
           None \<Rightarrow> None
         | Some j \<Rightarrow>
             let s = nt_slots t ! j in
             Some (if sl_klen1 s = 0 then YEP_NAMETAB_NIL
                   else if klen1 \<le> 9 then sl_val s
                   else nt_values t ! (sl_val s - 1))))"

definition yep_nametab_clear :: "yep_nametab \<Rightarrow> yep_nametab" where
  "yep_nametab_clear t =
     (if nt_cap t = 0 then t
      else t\<lparr>nt_slots := replicate (nt_cap t) zero_slot, nt_count := 0, nt_ext_count := 0,
             nt_keys := [], nt_values := []\<rparr>)"

text \<open>
  The insertion half of \<^verbatim>\<open>yep_nametab_set\<close>, into the empty slot \<open>j\<close>. The allocator grants or refuses a
  request by its size.
\<close>

definition nt_insert_at ::
    "(nat \<Rightarrow> bool) \<Rightarrow> yep_nametab \<Rightarrow> yep_view \<Rightarrow> nat \<Rightarrow> nat \<Rightarrow> (bool \<times> yep_nametab) option" where
  "nt_insert_at alloc_ok t key v j =
     (let klen1 = (length key + 1) mod 2 ^ 32 in
      if 9 < klen1 then
        (case nt_ext_grow alloc_ok t (nt_ext_count t + 1) of
           None \<Rightarrow> None
         | Some None \<Rightarrow> Some (False, t)
         | Some (Some t) \<Rightarrow>
             Some (True,
               t\<lparr>nt_keys := take (nt_ext_count t) (nt_keys t) @ [key],
                 nt_values := take (nt_ext_count t) (nt_values t) @ [v],
                 nt_ext_count := nt_ext_count t + 1,
                 nt_slots := (nt_slots t)[j := \<lparr>sl_prefix = key_prefix key,
                                                sl_val = nt_ext_count t + 1, sl_klen1 = klen1\<rparr>],
                 nt_count := nt_count t + 1\<rparr>))
      else
        Some (True,
          t\<lparr>nt_slots := (nt_slots t)[j := \<lparr>sl_prefix = key_prefix key, sl_val = v, sl_klen1 = klen1\<rparr>],
            nt_count := nt_count t + 1\<rparr>))"

definition yep_nametab_set ::
    "(nat \<Rightarrow> bool) \<Rightarrow> yep_nametab \<Rightarrow> yep_view \<Rightarrow> nat \<Rightarrow> (bool \<times> yep_nametab) option" where
  "yep_nametab_set alloc_ok t key v =
     (if nt_cap t = 0 then Some (False, t)
      else
        let mask = nt_cap t - 1 in
        (case probe (\<lambda>j. sl_klen1 (nt_slots t ! j) = 0 \<or> slot_match t key (nt_slots t ! j)) mask
                (unat (yep_view_hash key) AND mask) of
           None \<Rightarrow> None
         | Some j \<Rightarrow>
             let s = nt_slots t ! j in
             if sl_klen1 s \<noteq> 0 then
               Some (True,
                 if (length key + 1) mod 2 ^ 32 \<le> 9
                 then t\<lparr>nt_slots := (nt_slots t)[j := s\<lparr>sl_val := v\<rparr>]\<rparr>
                 else t\<lparr>nt_values := (nt_values t)[sl_val s - 1 := v]\<rparr>)
             else if nt_cap t * NT_LOAD_PCT < (nt_count t + 1) * 100 then
               (case nt_rehash alloc_ok t (nt_cap t * 2 mod 2 ^ 32) of
                  None \<Rightarrow> None
                | Some None \<Rightarrow> Some (False, t)
                | Some (Some t) \<Rightarrow>
                    (case probe (\<lambda>j. sl_klen1 (nt_slots t ! j) = 0) (nt_cap t - 1)
                            (unat (yep_view_hash key) AND (nt_cap t - 1)) of
                       None \<Rightarrow> None
                     | Some j \<Rightarrow> nt_insert_at alloc_ok t key v j))
             else nt_insert_at alloc_ok t key v j))"

definition yep_nametab_reserve ::
    "(nat \<Rightarrow> bool) \<Rightarrow> yep_nametab \<Rightarrow> nat \<Rightarrow> (bool \<times> yep_nametab) option" where
  "yep_nametab_reserve alloc_ok t n =
     (if nt_cap t = 0 then Some (False, t)
      else if n * 100 \<le> nt_cap t * NT_LOAD_PCT then Some (True, t)
      else
        let need = (n * 100 + NT_LOAD_PCT - 1) div NT_LOAD_PCT in
        (case double_until NT_MIN_CAP need of
           None \<Rightarrow> None
         | Some newcap \<Rightarrow>
             (case nt_rehash alloc_ok t newcap of
                None \<Rightarrow> None
              | Some None \<Rightarrow> Some (False, t)
              | Some (Some t) \<Rightarrow> Some (True, t))))"

end
