(* ===== verification/Nametab_Table.thy ===== *)
theory Nametab_Table
  imports Nametab "HOL-Library.Multiset"
begin

text \<open>
  The table invariant of the interner and what each operation does to it. The first section is
  linear probing over an array of optional identities; the second reads slots and keys as
  identities (length and prefix for a key of at most eight bytes, the whole key beyond that);
  the rest shows that searching, overwriting, inserting and rehashing act on the relation
  \<open>nt_rel\<close> between identities and values as they should.
\<close>

section \<open>Linear probing\<close>

lemma and_pred_pow2: "n AND (2 ^ m - 1) = n mod 2 ^ m" for n :: nat
  by (simp only: mask_eq_exp_minus_1 [symmetric] take_bit_eq_mask [symmetric] take_bit_eq_mod)

lemma and_pred_pow2' [simp]: "n AND (2 ^ m - Suc 0) = n mod 2 ^ m" for n :: nat
  using and_pred_pow2 [of n m] by simp

lemma probe_at:
  assumes "\<And>e. e < d \<Longrightarrow> \<not> stop ((j + e) mod 2 ^ m)" and "stop ((j + d) mod 2 ^ m)" and "j < 2 ^ m"
  shows "probe stop (2 ^ m - 1) j = Some ((j + d) mod 2 ^ m)"
  using assms
proof (induction d arbitrary: j)
  case 0
  then show ?case by (simp add: probe.simps)
next
  case (Suc d)
  have "\<not> stop j" using Suc.prems(1) [of 0] Suc.prems(3) by simp
  moreover have "probe stop (2 ^ m - 1) ((j + 1) mod 2 ^ m) = Some (((j + 1) mod 2 ^ m + d) mod 2 ^ m)"
  proof (rule Suc.IH)
    show "\<not> stop (((j + 1) mod 2 ^ m + e) mod 2 ^ m)" if "e < d" for e
      using Suc.prems(1) [of "Suc e"] that by (simp add: mod_simps)
    show "stop (((j + 1) mod 2 ^ m + d) mod 2 ^ m)"
      using Suc.prems(2) by (simp add: mod_simps)
  qed simp
  moreover have "((j + 1) mod 2 ^ m + d) mod 2 ^ m = (j + Suc d) mod 2 ^ m"
    by (simp add: mod_simps)
  moreover have "probe stop (2 ^ m - 1) j =
      (if stop j then Some j else probe stop (2 ^ m - 1) ((j + 1) mod 2 ^ m))"
    by (subst probe.simps) (simp only: and_pred_pow2)
  ultimately show ?case by simp
qed

text \<open>
  \<open>placed\<close> is the invariant of a linear-probing array of optional identities: walking from
  its home slot, an identity is met before any empty slot and before any other copy of itself.
\<close>

definition path_to :: "'i option list \<Rightarrow> nat \<Rightarrow> 'i \<Rightarrow> nat \<Rightarrow> bool" where
  "path_to ids h i d \<longleftrightarrow> (\<forall>e<d. ids ! ((h + e) mod length ids) \<notin> {None, Some i})"

definition placed :: "('i \<Rightarrow> nat) \<Rightarrow> 'i option list \<Rightarrow> bool" where
  "placed hid ids \<longleftrightarrow>
     (\<forall>j<length ids. \<forall>i. ids ! j = Some i \<longrightarrow>
        (\<exists>d. j = (hid i + d) mod length ids \<and> path_to ids (hid i) i d))"

lemma placed_inj:
  assumes "placed hid ids" and "j < length ids" and "j' < length ids"
    and "ids ! j = Some i" and "ids ! j' = Some i"
  shows "j = j'"
proof -
  obtain d d' where d: "j = (hid i + d) mod length ids" "path_to ids (hid i) i d"
    and d': "j' = (hid i + d') mod length ids" "path_to ids (hid i) i d'"
    using assms unfolding placed_def by metis
  show ?thesis
    using assms(4,5) d d' by (cases d d' rule: linorder_cases) (auto simp: path_to_def)
qed

lemma placed_update:
  assumes "placed hid ids" and "ids ! j = None" and "j < length ids" and "j = (hid i + d) mod length ids"
    and "path_to ids (hid i) i d" and "Some i \<notin> set ids"
  shows "placed hid (ids[j := Some i])"
  unfolding placed_def
proof (intro allI impI)
  fix j' i' assume j': "j' < length (ids[j := Some i])" and i': "ids[j := Some i] ! j' = Some i'"
  have keep: "path_to (ids[j := Some i]) (hid i'') i'' d''"
    if "path_to ids (hid i'') i'' d''" for i'' d''
    using that assms(2,3) by (auto simp: path_to_def nth_list_update)
  show "\<exists>d. j' = (hid i' + d) mod length (ids[j := Some i]) \<and> path_to (ids[j := Some i]) (hid i') i' d"
  proof (cases "j' = j")
    case True
    with i' assms(3) have "i' = i" by simp
    with keep [OF assms(5)] True assms(4) show ?thesis by auto
  next
    case False
    with i' j' assms(1) obtain d where "j' = (hid i' + d) mod length ids" "path_to ids (hid i') i' d"
      unfolding placed_def by auto
    with keep show ?thesis by auto
  qed
qed

lemma ring_reaches:
  fixes n :: nat
  assumes "j < n"
  shows "\<exists>d<n. (h + d) mod n = j"
proof -
  have n: "0 < n" using assms by simp
  let ?d = "(j + (n - h mod n)) mod n"
  have "(h + ?d) mod n = (h mod n + (j + (n - h mod n))) mod n"
    by (simp add: mod_simps)
  also have "\<dots> = (j + n) mod n"
    using mod_less_divisor [OF n, of h] by (simp add: algebra_simps)
  also have "\<dots> = j" using assms by simp
  finally show ?thesis using mod_less_divisor [OF n] by blast
qed

text \<open>From any home, the probe for an identity stops: at its slot if it is present, else at an empty one.\<close>

lemma probe_stops:
  assumes len: "length ids = 2 ^ m" and e: "None \<in> set ids"
    and stop: "\<And>j. j < 2 ^ m \<Longrightarrow> stop j \<longleftrightarrow> ids ! j \<in> {None, Some i}"
  obtains d where "path_to ids h i d" "ids ! ((h + d) mod 2 ^ m) \<in> {None, Some i}"
    "probe stop (2 ^ m - 1) (h mod 2 ^ m) = Some ((h + d) mod 2 ^ m)"
proof -
  let ?S = "\<lambda>d. ids ! ((h + d) mod 2 ^ m) \<in> {None, Some i}"
  obtain d0 where "?S d0"
    using e ring_reaches [of _ "2 ^ m" h] len by (metis in_set_conv_nth insert_iff)
  then have least: "?S (Least ?S)" by (rule LeastI)
  have before: "\<not> ?S e" if "e < Least ?S" for e
    using that by (rule not_less_Least)
  have "path_to ids h i (Least ?S)"
    using before by (simp add: path_to_def len)
  moreover have "probe stop (2 ^ m - 1) (h mod 2 ^ m) = Some ((h mod 2 ^ m + Least ?S) mod 2 ^ m)"
    using before least by (intro probe_at) (auto simp: mod_simps stop)
  ultimately show thesis using that [of "Least ?S"] least by (simp add: mod_simps)
qed

section \<open>Identities of keys and slots\<close>

type_synonym nt_ident = "(nat \<times> u64) + yep_view"

definition ident :: "yep_view \<Rightarrow> nt_ident" where
  "ident k = (if length k \<le> 8 then Inl (length k + 1, key_prefix k) else Inr k)"

definition slot_ident :: "yep_view list \<Rightarrow> yep_nt_slot \<Rightarrow> nt_ident option" where
  "slot_ident keys s =
     (if sl_klen1 s = 0 then None
      else if sl_klen1 s \<le> 9 then Some (Inl (sl_klen1 s, sl_prefix s))
      else Some (Inr (keys ! (sl_val s - 1))))"

definition slot_value :: "nat list \<Rightarrow> yep_nt_slot \<Rightarrow> nat" where
  "slot_value vals s = (if sl_klen1 s \<le> 9 then sl_val s else vals ! (sl_val s - 1))"

text \<open>The hash of an identity: that of every key which has it.\<close>

definition ident_hash :: "nt_ident \<Rightarrow> nat" where
  "ident_hash i =
     unat (case i of Inr k \<Rightarrow> yep_view_hash k
           | Inl (l, p) \<Rightarrow>
               (let h = hash_round (0x9E3779B97F4A7C15 XOR of_nat (l - 1)) p;
                    h = h XOR drop_bit 32 h;
                    h = h * 0xBF58476D1CE4E5B9;
                    h = h XOR drop_bit 29 h
                in ucast (h XOR drop_bit 32 h)))"

lemma ident_hash_eq: "ident_hash (ident k) = unat (yep_view_hash k)"
proof (cases "length k \<le> 8")
  case True
  then have "key_prefix k = load_small k (length k)" by (cases "length k = 8") (simp_all add: key_prefix_def)
  with True show ?thesis by (simp only: ident_hash_def ident_def yep_view_hash_def Let_def) simp
next
  case False
  then show ?thesis by (simp add: ident_hash_def ident_def)
qed

lemma slot_match_iff:
  assumes "length key < 2 ^ 32 - 1"
    and "9 < sl_klen1 s \<longrightarrow> sl_klen1 s = length (nt_keys t ! (sl_val s - 1)) + 1 \<and>
           sl_prefix s = key_prefix (nt_keys t ! (sl_val s - 1))"
  shows "slot_match t key s \<longleftrightarrow> slot_ident (nt_keys t) s = Some (ident key)"
  using assms by (auto simp: slot_match_def slot_ident_def ident_def)

text \<open>Table invariant.\<close>

definition ids_of :: "yep_nametab \<Rightarrow> nt_ident option list" where
  "ids_of t = map (slot_ident (nt_keys t)) (nt_slots t)"

definition slot_ok :: "yep_nametab \<Rightarrow> yep_nt_slot \<Rightarrow> bool" where
  "slot_ok t s \<longleftrightarrow>
     (9 < sl_klen1 s \<longrightarrow>
        0 < sl_val s \<and> sl_val s \<le> nt_ext_count t \<and>
        sl_klen1 s = length (nt_keys t ! (sl_val s - 1)) + 1 \<and>
        sl_prefix s = key_prefix (nt_keys t ! (sl_val s - 1)))"

definition nt_ok :: "yep_nametab \<Rightarrow> bool" where
  "nt_ok t \<longleftrightarrow>
     (\<exists>m\<ge>6. m \<le> 30 \<and> nt_cap t = 2 ^ m) \<and> length (nt_slots t) = nt_cap t \<and>
     nt_count t = length (filter (\<lambda>s. sl_klen1 s \<noteq> 0) (nt_slots t)) \<and>
     nt_count t * 100 \<le> nt_cap t * NT_LOAD_PCT \<and>
     placed ident_hash (ids_of t) \<and> list_all (slot_ok t) (nt_slots t) \<and>
     length (nt_keys t) = nt_ext_count t \<and> length (nt_values t) = nt_ext_count t \<and>
     nt_ext_count t \<le> nt_count t \<and> nt_ext_count t \<le> nt_ext_cap t \<and> nt_ext_cap t \<le> 2 ^ 29"

definition nt_rel :: "yep_nametab \<Rightarrow> (nt_ident \<times> nat) set" where
  "nt_rel t = {(i, v). \<exists>s\<in>set (nt_slots t). slot_ident (nt_keys t) s = Some i \<and> slot_value (nt_values t) s = v}"

lemma slot_ident_None [simp]: "slot_ident ks s = None \<longleftrightarrow> sl_klen1 s = 0"
  by (simp add: slot_ident_def)

lemma None_slot_ident [simp]: "None = slot_ident ks s \<longleftrightarrow> sl_klen1 s = 0"
  by (auto simp: slot_ident_def)

lemma zero_slot_free [simp]: "sl_klen1 zero_slot = 0" "slot_ident ks zero_slot = None"
  by (simp_all add: zero_slot_def slot_ident_def)

lemma ids_has_empty:
  assumes "nt_ok t" shows "None \<in> set (ids_of t)"
proof (rule ccontr)
  assume "None \<notin> set (ids_of t)"
  then have "filter (\<lambda>s. sl_klen1 s \<noteq> 0) (nt_slots t) = nt_slots t"
    by (intro filter_True ballI) (metis ids_of_def image_eqI list.set_map slot_ident_None)
  with assms show False by (auto simp: nt_ok_def NT_LOAD_PCT_def)
qed

lemma ids_Domain: "Some i \<in> set (ids_of t) \<longleftrightarrow> i \<in> Domain (nt_rel t)"
proof -
  have "Some i \<in> set (ids_of t) \<longleftrightarrow> (\<exists>s\<in>set (nt_slots t). slot_ident (nt_keys t) s = Some i)"
    by (auto simp: ids_of_def image_iff) metis
  also have "\<dots> \<longleftrightarrow> i \<in> Domain (nt_rel t)" by (auto simp: nt_rel_def Domain_iff)
  finally show ?thesis .
qed

lemma nt_rel_single:
  assumes "nt_ok t" and "(i, v) \<in> nt_rel t" and "(i, w) \<in> nt_rel t"
  shows "v = w"
proof -
  obtain a b where a: "a < length (nt_slots t)" "slot_ident (nt_keys t) (nt_slots t ! a) = Some i"
      "slot_value (nt_values t) (nt_slots t ! a) = v"
    and b: "b < length (nt_slots t)" "slot_ident (nt_keys t) (nt_slots t ! b) = Some i"
      "slot_value (nt_values t) (nt_slots t ! b) = w"
    using assms(2,3) by (auto simp: nt_rel_def in_set_conv_nth)
  have "a = b"
    using assms(1) a b by (intro placed_inj [of ident_hash "ids_of t" a b i]) (simp_all add: nt_ok_def ids_of_def)
  with a b show ?thesis by simp
qed

text \<open>The search loop shared by \<open>yep_nametab_get\<close> and \<open>yep_nametab_set\<close>.\<close>

lemma search_spec:
  assumes ok: "nt_ok t" and len: "length key < 2 ^ 32 - 1"
  obtains d j where "j < nt_cap t" "j = (ident_hash (ident key) + d) mod nt_cap t"
    "path_to (ids_of t) (ident_hash (ident key)) (ident key) d"
    "probe (\<lambda>j. sl_klen1 (nt_slots t ! j) = 0 \<or> slot_match t key (nt_slots t ! j)) (nt_cap t - 1)
       (unat (yep_view_hash key) AND (nt_cap t - 1)) = Some j"
    "ids_of t ! j = Some (ident key) \<or> ids_of t ! j = None \<and> Some (ident key) \<notin> set (ids_of t)"
proof -
  obtain m where m: "nt_cap t = 2 ^ m" using ok by (auto simp: nt_ok_def)
  have L: "length (ids_of t) = 2 ^ m" using ok m by (simp add: nt_ok_def ids_of_def)
  have stop: "sl_klen1 (nt_slots t ! j) = 0 \<or> slot_match t key (nt_slots t ! j)
      \<longleftrightarrow> ids_of t ! j \<in> {None, Some (ident key)}" if "j < 2 ^ m" for j
  proof -
    have "slot_ok t (nt_slots t ! j)" using ok m that by (simp add: nt_ok_def list_all_length)
    then show ?thesis using that L slot_match_iff [OF len, of "nt_slots t ! j" t]
      by (simp add: ids_of_def slot_ok_def)
  qed
  obtain d where d: "path_to (ids_of t) (ident_hash (ident key)) (ident key) d"
    "ids_of t ! ((ident_hash (ident key) + d) mod 2 ^ m) \<in> {None, Some (ident key)}"
    "probe (\<lambda>j. sl_klen1 (nt_slots t ! j) = 0 \<or> slot_match t key (nt_slots t ! j)) (2 ^ m - 1)
       (ident_hash (ident key) mod 2 ^ m) = Some ((ident_hash (ident key) + d) mod 2 ^ m)"
    by (rule probe_stops [OF L ids_has_empty [OF ok] stop])
  let ?j = "(ident_hash (ident key) + d) mod 2 ^ m"
  have absent: "Some (ident key) \<notin> set (ids_of t)" if none: "ids_of t ! ?j = None"
  proof
    assume "Some (ident key) \<in> set (ids_of t)"
    then obtain d' where "ids_of t ! ((ident_hash (ident key) + d') mod 2 ^ m) = Some (ident key)"
      "path_to (ids_of t) (ident_hash (ident key)) (ident key) d'"
      using ok L by (fastforce simp: nt_ok_def placed_def in_set_conv_nth)
    with d(1) none L show False
      by (cases d d' rule: linorder_cases) (auto simp: path_to_def)
  qed
  show thesis
    by (rule that [of ?j d]) (use d m absent ident_hash_eq [of key] in \<open>auto simp: and_pred_pow2\<close>)
qed

lemma get_spec:
  assumes ok: "nt_ok t" and len: "length key < 2 ^ 32 - 1"
  shows "(\<exists>v. yep_nametab_get t key = Some v \<and> (ident key, v) \<in> nt_rel t) \<or>
         yep_nametab_get t key = Some YEP_NAMETAB_NIL \<and> ident key \<notin> Domain (nt_rel t)"
proof -
  obtain j d where j: "j < nt_cap t" and "j = (ident_hash (ident key) + d) mod nt_cap t"
    and "path_to (ids_of t) (ident_hash (ident key)) (ident key) d"
    and j': 
    "probe (\<lambda>j. sl_klen1 (nt_slots t ! j) = 0 \<or> slot_match t key (nt_slots t ! j)) (nt_cap t - 1)
       (unat (yep_view_hash key) AND (nt_cap t - 1)) = Some j"
    "ids_of t ! j = Some (ident key) \<or> ids_of t ! j = None \<and> Some (ident key) \<notin> set (ids_of t)"
    by (rule search_spec [OF ok len])
  have L: "j < length (nt_slots t)" and cap: "nt_cap t \<noteq> 0" using ok j by (auto simp: nt_ok_def)
  have get: "yep_nametab_get t key =
      Some (let s = nt_slots t ! j in if sl_klen1 s = 0 then YEP_NAMETAB_NIL
            else if length key + 1 \<le> 9 then sl_val s else nt_values t ! (sl_val s - 1))"
    using j'(1) cap len by (simp add: yep_nametab_get_def Let_def)
  show ?thesis
  proof (cases "ids_of t ! j = None")
    case True
    with j'(2) have "Some (ident key) \<notin> set (ids_of t)" by simp
    moreover have "sl_klen1 (nt_slots t ! j) = 0" using True L by (simp add: ids_of_def)
    ultimately show ?thesis using get by (fastforce simp: nt_rel_def ids_of_def image_iff)
  next
    case False
    with j'(2) have m: "slot_ident (nt_keys t) (nt_slots t ! j) = Some (ident key)"
      using L by (simp add: ids_of_def)
    then have "(length key + 1 \<le> 9) = (sl_klen1 (nt_slots t ! j) \<le> 9)" "sl_klen1 (nt_slots t ! j) \<noteq> 0"
      by (auto simp: slot_ident_def ident_def split: if_splits)
    then have "yep_nametab_get t key = Some (slot_value (nt_values t) (nt_slots t ! j))"
      using get by (simp add: slot_value_def Let_def)
    with m L show ?thesis by (auto simp: nt_rel_def)
  qed
qed

lemma get_eq:
  assumes "nt_ok t" and "length key < 2 ^ 32 - 1"
  shows "yep_nametab_get t key = Some v \<longleftrightarrow>
    (ident key, v) \<in> nt_rel t \<or> v = YEP_NAMETAB_NIL \<and> ident key \<notin> Domain (nt_rel t)"
  using get_spec [OF assms] nt_rel_single [OF assms(1)] by fastforce

text \<open>
  Filling an empty slot at the end of its probe path: the step shared by insertion and rehashing.
\<close>

lemma mset_filter_fill:
  assumes "j < length xs" and "\<not> P (xs ! j)" and "P x"
  shows "mset (filter P (xs[j := x])) = add_mset x (mset (filter P xs))"
  using assms by (simp add: mset_update)

lemma distinct_filter_nth:
  assumes "\<And>a b. a < length xs \<Longrightarrow> b < length xs \<Longrightarrow> xs ! a = xs ! b \<Longrightarrow> P (xs ! a) \<Longrightarrow> a = b"
  shows "distinct (filter P xs)"
  using assms
proof (induction xs)
  case Nil
  then show ?case by simp
next
  case (Cons x xs)
  have "distinct (filter P xs)"
  proof (rule Cons.IH)
    show "a = b" if "a < length xs" "b < length xs" "xs ! a = xs ! b" "P (xs ! a)" for a b
      using Cons.prems [of "Suc a" "Suc b"] that by simp
  qed
  moreover have "x \<notin> set xs" if "P x"
  proof
    assume "x \<in> set xs"
    then obtain a where "a < length xs" "xs ! a = x" by (auto simp: in_set_conv_nth)
    with Cons.prems [of 0 "Suc a"] that show False by simp
  qed
  ultimately show ?case by simp
qed

definition canon :: "yep_nametab \<Rightarrow> bool" where
  "canon t \<longleftrightarrow> list_all (\<lambda>s. sl_klen1 s \<noteq> 0 \<longrightarrow>
     map_option ident_hash (slot_ident (nt_keys t) s) = Some (unat (rehash_of t s))) (nt_slots t)"

lemma rehash_loop_spec:
  assumes "length slots = 2 ^ m" and "placed ident_hash (map (slot_ident ks) slots)"
    and "ks = nt_keys t"
    and "distinct (map (slot_ident ks) (filter (\<lambda>s. sl_klen1 s \<noteq> 0) src))"
    and "set (map (slot_ident ks) (filter (\<lambda>s. sl_klen1 s \<noteq> 0) src)) \<inter> set (map (slot_ident ks) slots) = {}"
    and "\<And>s. s \<in> set src \<Longrightarrow> sl_klen1 s \<noteq> 0 \<Longrightarrow>
           map_option ident_hash (slot_ident ks s) = Some (unat (rehash_of t s))"
    and "length (filter (\<lambda>s. sl_klen1 s \<noteq> 0) slots) + length (filter (\<lambda>s. sl_klen1 s \<noteq> 0) src) < 2 ^ m"
  shows "\<exists>slots'. rehash_loop t (2 ^ m) src slots = Some slots' \<and> length slots' = 2 ^ m \<and>
     placed ident_hash (map (slot_ident ks) slots') \<and>
     mset (filter (\<lambda>s. sl_klen1 s \<noteq> 0) slots') =
       mset (filter (\<lambda>s. sl_klen1 s \<noteq> 0) slots) + mset (filter (\<lambda>s. sl_klen1 s \<noteq> 0) src)"
  using assms
proof (induction src arbitrary: slots)
  case Nil
  then show ?case by simp
next
  case (Cons s src)
  show ?case
  proof (cases "sl_klen1 s = 0")
    case True
    then show ?thesis using Cons.IH [of slots] Cons.prems by simp
  next
    case False
    then obtain i where i: "slot_ident ks s = Some i" by (metis not_None_eq slot_ident_None)
    let ?ids = "map (slot_ident ks) slots"
    have fresh: "Some i \<notin> set ?ids" using Cons.prems(5) i False by auto
    have empty: "None \<in> set ?ids"
    proof (rule ccontr)
      assume "None \<notin> set ?ids"
      then have "filter (\<lambda>s. sl_klen1 s \<noteq> 0) slots = slots"
        by (intro filter_True ballI) (metis image_eqI list.set_map slot_ident_None)
      with Cons.prems(1,7) show False by simp
    qed
    have h: "unat (rehash_of t s) = ident_hash i" using Cons.prems(6) [of s] i False by simp
    have stop: "sl_klen1 (slots ! j) = 0 \<longleftrightarrow> ?ids ! j \<in> {None, Some i}" if "j < 2 ^ m" for j
    proof -
      have "?ids ! j \<noteq> Some i" using fresh nth_mem [of j ?ids] that Cons.prems(1) by (metis length_map)
      then show ?thesis using that Cons.prems(1) by simp
    qed
    have L: "length ?ids = 2 ^ m" using Cons.prems(1) by simp
    obtain d where d: "path_to ?ids (ident_hash i) i d" "?ids ! ((ident_hash i + d) mod 2 ^ m) \<in> {None, Some i}"
      "probe (\<lambda>j. sl_klen1 (slots ! j) = 0) (2 ^ m - 1) (ident_hash i mod 2 ^ m) = Some ((ident_hash i + d) mod 2 ^ m)"
      by (rule probe_stops [OF L empty stop])
    let ?j = "(ident_hash i + d) mod 2 ^ m"
    have jl: "?j < length slots" using Cons.prems(1) by simp
    have jn: "?ids ! ?j = None"
      using d(2) fresh nth_mem [of ?j ?ids] jl by (metis insertE length_map singletonD)
    have loop: "rehash_loop t (2 ^ m) (s # src) slots = rehash_loop t (2 ^ m) src (slots[?j := s])"
      using False d(3) h by (simp add: and_pred_pow2)
    have upd: "map (slot_ident ks) (slots[?j := s]) = ?ids[?j := Some i]"
      using i by (simp add: map_update)
    have cnt: "mset (filter (\<lambda>s. sl_klen1 s \<noteq> 0) (slots[?j := s]))
        = add_mset s (mset (filter (\<lambda>s. sl_klen1 s \<noteq> 0) slots))"
      using jl jn False by (intro mset_filter_fill) simp_all
    then have len: "length (filter (\<lambda>s. sl_klen1 s \<noteq> 0) (slots[?j := s]))
        = Suc (length (filter (\<lambda>s. sl_klen1 s \<noteq> 0) slots))"
      by (metis size_add_mset size_mset)
    have "\<exists>slots'. rehash_loop t (2 ^ m) src (slots[?j := s]) = Some slots' \<and> length slots' = 2 ^ m \<and>
       placed ident_hash (map (slot_ident ks) slots') \<and>
       mset (filter (\<lambda>s. sl_klen1 s \<noteq> 0) slots') =
         mset (filter (\<lambda>s. sl_klen1 s \<noteq> 0) (slots[?j := s])) + mset (filter (\<lambda>s. sl_klen1 s \<noteq> 0) src)"
    proof (rule Cons.IH)
      show "placed ident_hash (map (slot_ident ks) (slots[?j := s]))"
        unfolding upd using Cons.prems(1,2) jn d(1) fresh L by (intro placed_update) simp_all
      show "set (map (slot_ident ks) (filter (\<lambda>s. sl_klen1 s \<noteq> 0) src)) \<inter>
          set (map (slot_ident ks) (slots[?j := s])) = {}"
        (is "?A \<inter> _ = {}")
      proof -
        have "Some i \<notin> ?A" using Cons.prems(4) False i by simp
        moreover have "?A \<inter> set ?ids = {}" using Cons.prems(5) False by auto
        ultimately show ?thesis unfolding upd using set_update_subset_insert [of ?ids ?j "Some i"] by blast
      qed
    qed (use Cons.prems False len in auto)
    then show ?thesis unfolding loop cnt using False by simp
  qed
qed

lemma occupied_set: "set (filter (\<lambda>s. sl_klen1 s \<noteq> 0) xs) = set (filter (\<lambda>s. sl_klen1 s \<noteq> 0) ys) \<Longrightarrow>
   (\<exists>s\<in>set xs. sl_klen1 s \<noteq> 0 \<and> P s) \<longleftrightarrow> (\<exists>s\<in>set ys. sl_klen1 s \<noteq> 0 \<and> P s)"
  by auto

lemma placed_zero: "placed hid (map (slot_ident ks) (replicate n zero_slot))"
  by (simp add: placed_def slot_ident_def zero_slot_def)

lemma rehash_spec:
  assumes ok: "nt_ok t" and canon: "canon t" and m: "6 \<le> m" "m \<le> 30"
    and load: "nt_count t * 100 \<le> 2 ^ m * NT_LOAD_PCT"
  shows "nt_rehash alloc_ok t (2 ^ m) = Some None \<and> \<not> alloc_ok (2 ^ m * 16) \<or>
    (\<exists>slots'. nt_rehash alloc_ok t (2 ^ m) = Some (Some (t\<lparr>nt_slots := slots', nt_cap := 2 ^ m\<rparr>)) \<and>
       nt_ok (t\<lparr>nt_slots := slots', nt_cap := 2 ^ m\<rparr>) \<and> canon (t\<lparr>nt_slots := slots', nt_cap := 2 ^ m\<rparr>) \<and>
       nt_rel (t\<lparr>nt_slots := slots', nt_cap := 2 ^ m\<rparr>) = nt_rel t)"
proof (cases "alloc_ok (2 ^ m * 16)")
  case False
  then show ?thesis by (simp add: nt_rehash_def)
next
  case True
  let ?occ = "filter (\<lambda>s. sl_klen1 s \<noteq> 0)" and ?id = "slot_ident (nt_keys t)"
  have inj: "distinct (filter (\<lambda>i. i \<noteq> None) (ids_of t))"
    using ok placed_inj [of ident_hash "ids_of t"] by (intro distinct_filter_nth) (auto simp: nt_ok_def)
  have dist: "distinct (map ?id (?occ (nt_slots t)))"
    using inj by (simp only: ids_of_def filter_map o_def slot_ident_None)
  have cnt: "nt_count t < 2 ^ m"
    using load zero_less_power [of "2::nat" m] unfolding NT_LOAD_PCT_def by linarith
  have "\<exists>slots'. rehash_loop t (2 ^ m) (nt_slots t) (replicate (2 ^ m) zero_slot) = Some slots' \<and>
     length slots' = 2 ^ m \<and> placed ident_hash (map ?id slots') \<and>
     mset (?occ slots') = mset (?occ (replicate (2 ^ m) zero_slot)) + mset (?occ (nt_slots t))"
    by (rule rehash_loop_spec [OF _ placed_zero])
      (use ok canon dist cnt in \<open>auto simp: nt_ok_def canon_def list_all_iff\<close>)
  then obtain slots' where s: "rehash_loop t (2 ^ m) (nt_slots t) (replicate (2 ^ m) zero_slot) = Some slots'"
    "length slots' = 2 ^ m" "placed ident_hash (map ?id slots')" "mset (?occ slots') = mset (?occ (nt_slots t))"
    by auto
  have set: "set (?occ slots') = set (?occ (nt_slots t))" using s(4) by (metis set_mset_mset)
  have ex: "(\<exists>s\<in>set slots'. sl_klen1 s \<noteq> 0 \<and> P s) \<longleftrightarrow> (\<exists>s\<in>set (nt_slots t). sl_klen1 s \<noteq> 0 \<and> P s)" for P
    using set by (rule occupied_set)
  have all: "(\<forall>s\<in>set slots'. sl_klen1 s \<noteq> 0 \<longrightarrow> P s) \<longleftrightarrow> (\<forall>s\<in>set (nt_slots t). sl_klen1 s \<noteq> 0 \<longrightarrow> P s)" for P
    using ex [of "\<lambda>s. \<not> P s"] by blast
  let ?t = "t\<lparr>nt_slots := slots', nt_cap := 2 ^ m\<rparr>"
  have "nt_rehash alloc_ok t (2 ^ m) = Some (Some ?t)"
    using True s(1) ok by (simp add: nt_rehash_def nt_ok_def)
  moreover have "nt_ok ?t"
  proof -
    have "list_all (slot_ok ?t) slots'"
      using ok all [of "slot_ok t"] unfolding nt_ok_def list_all_iff by (auto simp: slot_ok_def)
    moreover have "length (?occ slots') = length (?occ (nt_slots t))" using s(4) by (metis size_mset)
    ultimately show ?thesis using ok m load s(2,3) by (auto simp: nt_ok_def ids_of_def)
  qed
  moreover have "canon ?t"
  proof -
    have "rehash_of ?t = rehash_of t" by (rule ext) (simp add: rehash_of_def)
    then show ?thesis using canon all unfolding canon_def list_all_iff by simp
  qed
  moreover have "nt_rel ?t = nt_rel t"
  proof -
    have "(\<exists>s\<in>set xs. ?id s = Some i \<and> Q s) \<longleftrightarrow> (\<exists>s\<in>set xs. sl_klen1 s \<noteq> 0 \<and> ?id s = Some i \<and> Q s)" for xs i Q
      by (metis option.distinct(1) slot_ident_None)
    then show ?thesis using ex by (simp add: nt_rel_def)
  qed
  ultimately show ?thesis by blast
qed

section \<open>Insertion and overwriting\<close>

definition vals_of :: "yep_nametab \<Rightarrow> nat list" where
  "vals_of t = map (slot_value (nt_values t)) (nt_slots t)"

lemma nt_rel_nth:
  "nt_rel t = {(i, v). \<exists>a<length (ids_of t). ids_of t ! a = Some i \<and> vals_of t ! a = v}"
proof -
  have "(\<exists>s\<in>set (nt_slots t). P s) \<longleftrightarrow> (\<exists>a<length (nt_slots t). P (nt_slots t ! a))" for P
    by (metis in_set_conv_nth)
  then show ?thesis by (auto simp: nt_rel_def ids_of_def vals_of_def)
qed

lemma store_at:
  assumes p: "placed ident_hash (ids_of t)" and j: "j < length (ids_of t)"
    and path: "j = (ident_hash i + d) mod length (ids_of t)" "path_to (ids_of t) (ident_hash i) i d"
    and at: "ids_of t ! j = Some i \<or> ids_of t ! j = None \<and> Some i \<notin> set (ids_of t)"
    and ids: "ids_of t' = (ids_of t)[j := Some i]" and vals: "vals_of t' = (vals_of t)[j := v]"
  shows "placed ident_hash (ids_of t') \<and> nt_rel t' = insert (i, v) {p \<in> nt_rel t. fst p \<noteq> i}"
proof
  show "placed ident_hash (ids_of t')"
  proof (cases "ids_of t ! j = None")
    case True
    with at have "Some i \<notin> set (ids_of t)" by simp
    with True show ?thesis unfolding ids using p j path by (intro placed_update)
  next
    case False
    with at have "ids_of t' = ids_of t" unfolding ids by (metis list_update_id)
    with p show ?thesis by simp
  qed
  have len: "length (vals_of t) = length (ids_of t)" by (simp add: vals_of_def ids_of_def)
  have only: "ids_of t ! a \<noteq> Some i" if "a < length (ids_of t)" "a \<noteq> j" for a
    using at that placed_inj [OF p that(1) j, of i] nth_mem [OF that(1)] by metis
  show "nt_rel t' = insert (i, v) {p \<in> nt_rel t. fst p \<noteq> i}"
  proof (intro set_eqI, clarify)
    fix i' v'
    have "(i', v') \<in> nt_rel t' \<longleftrightarrow>
        i' = i \<and> v' = v \<or> (\<exists>a<length (ids_of t). a \<noteq> j \<and> ids_of t ! a = Some i' \<and> vals_of t ! a = v')"
      unfolding nt_rel_nth ids vals using j len by (auto simp: nth_list_update)
    also have "\<dots> \<longleftrightarrow> i' = i \<and> v' = v \<or>
        i' \<noteq> i \<and> (\<exists>a<length (ids_of t). ids_of t ! a = Some i' \<and> vals_of t ! a = v')"
      using only at by (metis option.distinct(1) option.inject)
    finally show "(i', v') \<in> nt_rel t' \<longleftrightarrow> (i', v') \<in> insert (i, v) {p \<in> nt_rel t. fst p \<noteq> i}"
      unfolding nt_rel_nth [of t] by (simp add: conj_commute)
  qed
qed

text \<open>Keys whose stored prefix reproduces their hash: those \<open>nt_rehash\<close> can move.\<close>

definition key_ok :: "yep_view \<Rightarrow> bool" where
  "key_ok key \<longleftrightarrow> 9 \<le> length key \<or>
     yep_view_hash (take (length key) (prefix_bytes (key_prefix key))) = yep_view_hash key"

lemma ext_grow_spec:
  assumes "nt_ok t" and "nt_count t < 2 ^ 28"
  shows "nt_ext_grow alloc_ok t (nt_ext_count t + 1) = Some None \<and> \<not> (\<forall>n. alloc_ok n) \<or>
    (\<exists>c. nt_ext_grow alloc_ok t (nt_ext_count t + 1) = Some (Some (t\<lparr>nt_ext_cap := c\<rparr>)) \<and>
       nt_ext_count t + 1 \<le> c \<and> c \<le> 2 ^ 29)"
proof (cases "nt_ext_count t + 1 \<le> nt_ext_cap t")
  case True
  then show ?thesis
    using assms by (intro disjI2 exI [of _ "nt_ext_cap t"]) (simp add: nt_ext_grow_def nt_ok_def)
next
  case False
  define c where "c = (if nt_ext_cap t \<noteq> 0 then nt_ext_cap t * 2 mod 2 ^ 32 else 16)"
  have cap: "nt_ext_cap t = nt_ext_count t" "nt_ext_count t < 2 ^ 28"
    using False assms by (auto simp: nt_ok_def)
  then have c: "nt_ext_count t + 1 \<le> c" "c \<le> 2 ^ 29" by (auto simp: c_def)
  then have "double_until c (nt_ext_count t + 1) = Some c" by (simp add: double_until.simps)
  then have "nt_ext_grow alloc_ok t (nt_ext_count t + 1) =
      (if \<not> alloc_ok (c * 16) \<or> \<not> alloc_ok (c * 4) then Some None else Some (Some (t\<lparr>nt_ext_cap := c\<rparr>)))"
    using False assms unfolding nt_ext_grow_def c_def [symmetric] by (simp add: nt_ok_def)
  with c show ?thesis by auto
qed

lemma slot_ok_ext:
  assumes "slot_ok t s" and "length (nt_keys t) = nt_ext_count t" and "length (nt_values t) = nt_ext_count t"
  shows "slot_ident (nt_keys t @ xs) s = slot_ident (nt_keys t) s"
    and "slot_value (nt_values t @ ys) s = slot_value (nt_values t) s"
    and "nt_keys t' = nt_keys t @ xs \<Longrightarrow> nt_ext_count t \<le> nt_ext_count t' \<Longrightarrow> slot_ok t' s"
    and "nt_keys t' = nt_keys t @ xs \<Longrightarrow> rehash_of t' s = rehash_of t s"
  using assms
  by (auto simp: slot_ok_def slot_ident_def slot_value_def rehash_of_def nth_append)

lemma list_all_update: "list_all P xs \<Longrightarrow> P x \<Longrightarrow> list_all P (xs[j := x])"
  using set_update_subset_insert [of xs j x] by (auto simp: list_all_iff)

lemma fill_slot:
  assumes ok: "nt_ok t" and load: "(nt_count t + 1) * 100 \<le> nt_cap t * NT_LOAD_PCT"
    and j: "j < nt_cap t" "j = (ident_hash i + d) mod nt_cap t" "path_to (ids_of t) (ident_hash i) i d"
    and free: "ids_of t ! j = None" "Some i \<notin> set (ids_of t)"
    and t': "nt_cap t' = nt_cap t" "nt_slots t' = (nt_slots t)[j := s]" "nt_keys t' = nt_keys t @ xs"
      "nt_values t' = nt_values t @ ys" "nt_ext_count t' = nt_ext_count t + length xs" "nt_count t' = nt_count t + 1"
      "length ys = length xs" "length xs \<le> 1" "nt_ext_count t' \<le> nt_ext_cap t'" "nt_ext_cap t' \<le> 2 ^ 29"
    and s: "slot_ident (nt_keys t') s = Some i" "slot_value (nt_values t') s = v" "slot_ok t' s"
  shows "nt_ok t' \<and> nt_rel t' = insert (i, v) {p \<in> nt_rel t. fst p \<noteq> i} \<and>
    (canon t \<and> unat (rehash_of t' s) = ident_hash i \<longrightarrow> canon t')"
proof -
  note inv = ok [unfolded nt_ok_def]
  have old: "slot_ident (nt_keys t') r = slot_ident (nt_keys t) r"
    "slot_value (nt_values t') r = slot_value (nt_values t) r" "slot_ok t' r" "rehash_of t' r = rehash_of t r"
    if "r \<in> set (nt_slots t)" for r
  proof -
    have "slot_ok t r" "length (nt_keys t) = nt_ext_count t" "length (nt_values t) = nt_ext_count t"
      using inv that by (simp_all add: list_all_iff)
    note ext = slot_ok_ext [OF this]
    show "slot_ident (nt_keys t') r = slot_ident (nt_keys t) r"
      "slot_value (nt_values t') r = slot_value (nt_values t) r" "slot_ok t' r" "rehash_of t' r = rehash_of t r"
      using ext(1,2) ext(3,4) [OF t'(3)] t'(3,4,5) by simp_all
  qed
  have L: "length (ids_of t) = nt_cap t" using inv by (simp add: ids_of_def)
  have ids: "ids_of t' = (ids_of t)[j := Some i]"
    unfolding ids_of_def t'(2) map_update s(1) using old(1) by (simp cong: map_cong)
  have vals: "vals_of t' = (vals_of t)[j := v]"
    unfolding vals_of_def t'(2) map_update s(2) using old(2) by (simp cong: map_cong)
  have st: "placed ident_hash (ids_of t') \<and> nt_rel t' = insert (i, v) {p \<in> nt_rel t. fst p \<noteq> i}"
    using inv j free L by (intro store_at [OF _ _ _ _ _ ids vals]) auto
  have "sl_klen1 (nt_slots t ! j) = 0" using free(1) j(1) L by (simp add: ids_of_def)
  moreover have "sl_klen1 s \<noteq> 0" using s(1) by (metis option.distinct(1) slot_ident_None)
  ultimately have "length (filter (\<lambda>s. sl_klen1 s \<noteq> 0) (nt_slots t')) = nt_count t + 1"
    using mset_filter_fill [of j "nt_slots t" "\<lambda>s. sl_klen1 s \<noteq> 0" s] inv j(1)
    unfolding t'(2) by (metis Suc_eq_plus1 size_add_mset size_mset)
  moreover have "list_all (slot_ok t') (nt_slots t')"
    unfolding t'(2) using old(3) s(3) by (intro list_all_update) (simp_all add: list_all_iff)
  ultimately have "nt_ok t'"
    using inv st load t' unfolding nt_ok_def [of t'] by auto
  moreover have "canon t'" if "canon t" "unat (rehash_of t' s) = ident_hash i"
    unfolding canon_def t'(2)
    using that s(1) old by (intro list_all_update) (auto simp: canon_def list_all_iff)
  ultimately show ?thesis using st by blast
qed

lemma insert_at_spec:
  assumes ok: "nt_ok t" and load: "(nt_count t + 1) * 100 \<le> nt_cap t * NT_LOAD_PCT"
    and j: "j < nt_cap t" "j = (ident_hash (ident key) + d) mod nt_cap t"
      "path_to (ids_of t) (ident_hash (ident key)) (ident key) d"
    and free: "ids_of t ! j = None" "Some (ident key) \<notin> set (ids_of t)"
    and few: "nt_count t < 2 ^ 28" and len: "length key < 2 ^ 32 - 1"
  shows "\<exists>b t'. nt_insert_at alloc_ok t key v j = Some (b, t') \<and> nt_ok t' \<and>
     nt_rel t' = (if b then insert (ident key, v) {p \<in> nt_rel t. fst p \<noteq> ident key} else nt_rel t) \<and>
     (canon t \<and> key_ok key \<longrightarrow> canon t') \<and> nt_count t' \<le> nt_count t + 1 \<and> nt_cap t' = nt_cap t \<and>
     ((\<forall>n. alloc_ok n) \<longrightarrow> b)"
proof (cases "9 \<le> length key")
  case False
  let ?s = "\<lparr>sl_prefix = key_prefix key, sl_val = v, sl_klen1 = length key + 1\<rparr>"
  let ?t = "t\<lparr>nt_slots := (nt_slots t)[j := ?s], nt_count := nt_count t + 1\<rparr>"
  have "nt_insert_at alloc_ok t key v j = Some (True, ?t)"
    using False by (simp add: nt_insert_at_def)
  moreover have "nt_ok ?t \<and> nt_rel ?t = insert (ident key, v) {p \<in> nt_rel t. fst p \<noteq> ident key} \<and>
     (canon t \<and> unat (rehash_of ?t ?s) = ident_hash (ident key) \<longrightarrow> canon ?t)"
    by (rule fill_slot [OF ok load j free, where xs = "[]" and ys = "[]"])
      (use ok False in \<open>auto simp: nt_ok_def slot_ident_def ident_def slot_value_def slot_ok_def\<close>)
  moreover have "unat (rehash_of ?t ?s) = ident_hash (ident key)" if "key_ok key"
    using that False by (simp add: rehash_of_def key_ok_def ident_hash_eq)
  ultimately show ?thesis by auto
next
  case True
  from ext_grow_spec [OF ok few, of alloc_ok]
  show ?thesis
  proof (elim disjE exE conjE)
    assume "nt_ext_grow alloc_ok t (nt_ext_count t + 1) = Some None" "\<not> (\<forall>n. alloc_ok n)"
    then show ?thesis using True len ok
      by (intro exI [of _ False] exI [of _ t]) (simp add: nt_insert_at_def)
  next
    fix c assume c: "nt_ext_grow alloc_ok t (nt_ext_count t + 1) = Some (Some (t\<lparr>nt_ext_cap := c\<rparr>))"
      "nt_ext_count t + 1 \<le> c" "c \<le> 2 ^ 29"
    let ?s = "\<lparr>sl_prefix = key_prefix key, sl_val = nt_ext_count t + 1, sl_klen1 = length key + 1\<rparr>"
    let ?t = "t\<lparr>nt_slots := (nt_slots t)[j := ?s], nt_count := nt_count t + 1, nt_ext_cap := c,
      nt_keys := nt_keys t @ [key], nt_values := nt_values t @ [v], nt_ext_count := nt_ext_count t + 1\<rparr>"
    have K: "length (nt_keys t) = nt_ext_count t" "length (nt_values t) = nt_ext_count t"
      using ok by (simp_all add: nt_ok_def)
    have "nt_insert_at alloc_ok t key v j = Some (True, ?t)"
      using True len c(1) K by (simp add: nt_insert_at_def)
    moreover have "nt_ok ?t \<and> nt_rel ?t = insert (ident key, v) {p \<in> nt_rel t. fst p \<noteq> ident key} \<and>
       (canon t \<and> unat (rehash_of ?t ?s) = ident_hash (ident key) \<longrightarrow> canon ?t)"
      by (rule fill_slot [OF ok load j free, where xs = "[key]" and ys = "[v]"])
        (use True c(2,3) K in \<open>auto simp: slot_ident_def ident_def slot_value_def slot_ok_def nth_append\<close>)
    moreover have "unat (rehash_of ?t ?s) = ident_hash (ident key)"
      using True K by (simp add: rehash_of_def ident_hash_eq nth_append)
    ultimately show ?thesis by auto
  qed
qed

lemma restore_at:
  assumes ok: "nt_ok t" and j: "j < nt_cap t" "j = (ident_hash i + d) mod nt_cap t"
      "path_to (ids_of t) (ident_hash i) i d" "ids_of t ! j = Some i"
    and ids: "ids_of t' = ids_of t" and vals: "vals_of t' = (vals_of t)[j := v]"
    and kl: "map sl_klen1 (nt_slots t') = map sl_klen1 (nt_slots t)"
    and all: "list_all (slot_ok t') (nt_slots t')"
    and keep: "nt_cap t' = nt_cap t" "nt_count t' = nt_count t" "length (nt_keys t') = length (nt_keys t)"
      "length (nt_values t') = length (nt_values t)" "nt_ext_count t' = nt_ext_count t" "nt_ext_cap t' = nt_ext_cap t"
  shows "nt_ok t' \<and> nt_rel t' = insert (i, v) {p \<in> nt_rel t. fst p \<noteq> i}"
proof -
  note inv = ok [unfolded nt_ok_def]
  have L: "length (ids_of t) = nt_cap t" using inv by (simp add: ids_of_def)
  have ids': "ids_of t' = (ids_of t)[j := Some i]" using ids j(4) by (metis list_update_id)
  have "placed ident_hash (ids_of t') \<and> nt_rel t' = insert (i, v) {p \<in> nt_rel t. fst p \<noteq> i}"
    using inv j L by (intro store_at [OF _ _ _ _ _ ids' vals]) auto
  moreover have "length (nt_slots t') = length (nt_slots t)" using kl by (metis length_map)
  moreover have "length (filter (\<lambda>k. k \<noteq> 0) (map sl_klen1 (nt_slots t'))) =
      length (filter (\<lambda>k. k \<noteq> 0) (map sl_klen1 (nt_slots t)))"
    using kl by simp
  ultimately show ?thesis
    using inv all keep unfolding nt_ok_def [of t'] by (simp add: filter_map o_def)
qed

lemma overwrite_inline:
  assumes ok: "nt_ok t" and j: "j < nt_cap t" "j = (ident_hash (ident key) + d) mod nt_cap t"
      "path_to (ids_of t) (ident_hash (ident key)) (ident key) d" "ids_of t ! j = Some (ident key)"
    and len: "length key \<le> 8"
    and t': "t' = t\<lparr>nt_slots := (nt_slots t)[j := (nt_slots t ! j)\<lparr>sl_val := v\<rparr>]\<rparr>"
  shows "(nt_ok t' \<and> nt_rel t' = insert (ident key, v) {p \<in> nt_rel t. fst p \<noteq> ident key}) \<and>
    (canon t \<longrightarrow> canon t')"
proof
  note inv = ok [unfolded nt_ok_def]
  let ?s = "nt_slots t ! j"
  have L: "j < length (nt_slots t)" using inv j(1) by simp
  have id: "slot_ident (nt_keys t) ?s = Some (ident key)" using j(4) L by (simp add: ids_of_def)
  have k: "sl_klen1 ?s \<le> 9" using id len by (auto simp: slot_ident_def ident_def split: if_splits)
  have id': "slot_ident (nt_keys t) (?s\<lparr>sl_val := v\<rparr>) = slot_ident (nt_keys t) ?s"
    using k by (simp add: slot_ident_def)
  have so: "slot_ok (t\<lparr>nt_slots := xs\<rparr>) = slot_ok t" for xs by (rule ext) (simp add: slot_ok_def)
  have re: "rehash_of (t\<lparr>nt_slots := xs\<rparr>) = rehash_of t" for xs by (rule ext) (simp add: rehash_of_def)
  show "nt_ok t' \<and> nt_rel t' = insert (ident key, v) {p \<in> nt_rel t. fst p \<noteq> ident key}"
  proof (rule restore_at [OF ok j])
    show "ids_of t' = ids_of t"
      using L by (simp add: t' ids_of_def map_update id' list_update_same_conv)
    show "vals_of t' = (vals_of t)[j := v]"
      using k by (simp add: t' vals_of_def map_update slot_value_def)
    show "map sl_klen1 (nt_slots t') = map sl_klen1 (nt_slots t)"
      using L by (simp add: t' map_update list_update_same_conv)
    show "list_all (slot_ok t') (nt_slots t')"
      using inv k by (auto simp: t' so slot_ok_def intro!: list_all_update)
  qed (simp_all add: t')
  show "canon t \<longrightarrow> canon t'"
    using k L nth_mem [OF L] unfolding canon_def t' re
    by (auto simp: list_all_iff id' rehash_of_def dest!: set_update_subset_insert [THEN subsetD])
qed

lemma overwrite_ext:
  assumes ok: "nt_ok t" and j: "j < nt_cap t" "j = (ident_hash (ident key) + d) mod nt_cap t"
      "path_to (ids_of t) (ident_hash (ident key)) (ident key) d" "ids_of t ! j = Some (ident key)"
    and len: "8 < length key"
    and t': "t' = t\<lparr>nt_values := (nt_values t)[sl_val (nt_slots t ! j) - 1 := v]\<rparr>"
  shows "(nt_ok t' \<and> nt_rel t' = insert (ident key, v) {p \<in> nt_rel t. fst p \<noteq> ident key}) \<and>
    (canon t \<longrightarrow> canon t')"
proof
  note inv = ok [unfolded nt_ok_def]
  let ?s = "nt_slots t ! j"
  let ?v = "sl_val ?s - 1"
  have L: "j < length (nt_slots t)" using inv j(1) by simp
  have id: "slot_ident (nt_keys t) ?s = Some (ident key)" using j(4) L by (simp add: ids_of_def)
  have k: "9 < sl_klen1 ?s" using id len by (auto simp: slot_ident_def ident_def split: if_splits)
  have "slot_ok t ?s" using inv L by (simp add: list_all_length)
  then have b: "?v < length (nt_values t)" using k inv by (auto simp: slot_ok_def)
  have re: "rehash_of (t\<lparr>nt_values := xs\<rparr>) = rehash_of t" for xs by (rule ext) (simp add: rehash_of_def)
  have so: "slot_ok (t\<lparr>nt_values := xs\<rparr>) = slot_ok t" for xs by (rule ext) (simp add: slot_ok_def)
  show "nt_ok t' \<and> nt_rel t' = insert (ident key, v) {p \<in> nt_rel t. fst p \<noteq> ident key}"
  proof (rule restore_at [OF ok j])
    show "vals_of t' = (vals_of t)[j := v]"
    proof (rule nth_equalityI)
      fix a assume "a < length (vals_of t')"
      then have a: "a < length (nt_slots t)" by (simp add: vals_of_def t')
      let ?r = "nt_slots t ! a"
      have "slot_value ((nt_values t)[?v := v]) ?r = slot_value (nt_values t) ?r" if "a \<noteq> j"
      proof (cases "9 < sl_klen1 ?r \<and> sl_val ?r - 1 = ?v")
        case True
        then have "ids_of t ! a = Some (ident key)" using a id k by (simp add: ids_of_def slot_ident_def)
        then have "a = j" using placed_inj [of ident_hash "ids_of t" a j] inv a L j(4) by (simp add: ids_of_def)
        with that show ?thesis by simp
      qed (auto simp: slot_value_def)
      then show "vals_of t' ! a = (vals_of t)[j := v] ! a"
        using a L k b by (cases "a = j") (simp_all add: vals_of_def t' slot_value_def)
    qed (simp add: vals_of_def t')
    show "list_all (slot_ok t') (nt_slots t')" using inv by (simp add: t' so)
  qed (simp_all add: t' ids_of_def)
  show "canon t \<longrightarrow> canon t'" unfolding canon_def t' re by simp
qed

text \<open>A fresh table is well formed and empty, and so is a cleared one.\<close>

lemma fresh_ok:
  assumes "nt_slots t = replicate (2 ^ m) zero_slot" and "nt_cap t = 2 ^ m" and "6 \<le> m" and "m \<le> 30"
    and "nt_keys t = []" and "nt_values t = []" and "nt_ext_count t = 0" and "nt_count t = 0" and "nt_ext_cap t \<le> 2 ^ 29"
  shows "nt_ok t \<and> canon t \<and> nt_rel t = {}"
proof -
  have "filter (\<lambda>s. sl_klen1 s \<noteq> 0) (replicate n zero_slot) = []" for n by simp
  then show ?thesis
    using assms placed_zero [of ident_hash "[]" "2 ^ m"]
    by (auto simp: nt_ok_def canon_def nt_rel_def ids_of_def slot_ok_def list_all_iff)
qed

lemma init_ok:
  assumes "yep_nametab_init alloc_ok = Some t"
  shows "nt_ok t \<and> canon t \<and> nt_rel t = {} \<and> nt_count t = 0 \<and> nt_cap t = 64"
  using assms fresh_ok [of t 6] by (auto simp: yep_nametab_init_def NT_MIN_CAP_def split: if_splits)

lemma clear_ok:
  assumes "nt_ok t"
  shows "nt_ok (yep_nametab_clear t) \<and> canon (yep_nametab_clear t) \<and> nt_rel (yep_nametab_clear t) = {}"
proof -
  obtain m where m: "6 \<le> m" "m \<le> 30" "nt_cap t = 2 ^ m" using assms by (auto simp: nt_ok_def)
  then show ?thesis
    using assms by (intro fresh_ok [of _ m]) (simp_all add: yep_nametab_clear_def nt_ok_def)
qed

lemma grow_insert:
  assumes ok: "nt_ok t" and canon: "canon t" and absent: "Some (ident key) \<notin> set (ids_of t)"
    and few: "nt_count t < 2 ^ 28" and len: "length key < 2 ^ 32 - 1"
    and full: "\<not> (nt_count t + 1) * 100 \<le> nt_cap t * NT_LOAD_PCT"
  shows "\<exists>b t'. (case nt_rehash alloc_ok t (nt_cap t * 2 mod 2 ^ 32) of
             None \<Rightarrow> None
           | Some None \<Rightarrow> Some (False, t)
           | Some (Some t) \<Rightarrow>
               (case probe (\<lambda>j. sl_klen1 (nt_slots t ! j) = 0) (nt_cap t - 1)
                       (unat (yep_view_hash key) AND (nt_cap t - 1)) of
                  None \<Rightarrow> None
                | Some j \<Rightarrow> nt_insert_at alloc_ok t key v j)) = Some (b, t') \<and> nt_ok t' \<and>
     nt_rel t' = (if b then insert (ident key, v) {p \<in> nt_rel t. fst p \<noteq> ident key} else nt_rel t) \<and>
     (key_ok key \<longrightarrow> canon t') \<and> nt_count t' \<le> nt_count t + 1 \<and> ((\<forall>n. alloc_ok n) \<longrightarrow> b)"
    (is "\<exists>b t'. ?X = Some (b, t') \<and> _")
proof -
  obtain m where m: "6 \<le> m" "m \<le> 30" "nt_cap t = 2 ^ m" and load: "nt_count t * 100 \<le> 2 ^ m * 70"
    using ok by (auto simp: nt_ok_def NT_LOAD_PCT_def)
  have "(2::nat) ^ m < 2 ^ 29" using full few m(3) by (simp add: NT_LOAD_PCT_def)
  then have m29: "m < 29" by (rule power_less_imp_less_exp [rotated]) simp
  then have "(2::nat) ^ (m + 1) < 2 ^ 32" by (intro power_strict_increasing) simp_all
  then have cap2: "nt_cap t * 2 mod 2 ^ 32 = 2 ^ (m + 1)" using m(3) by simp
  have "(2::nat) ^ 6 \<le> 2 ^ m" using m(1) by (intro power_increasing) simp_all
  then have load2: "(nt_count t + 1) * 100 \<le> 2 ^ (m + 1) * NT_LOAD_PCT"
    using load by (simp add: NT_LOAD_PCT_def)
  have "nt_count t * 100 \<le> 2 ^ (m + 1) * NT_LOAD_PCT"
    by (rule order_trans [OF _ load2]) simp
  from rehash_spec [OF ok canon _ _ this, of alloc_ok] m(1) m29
  consider "nt_rehash alloc_ok t (2 ^ (m + 1)) = Some None" "\<not> (\<forall>n. alloc_ok n)"
    | t1 where "nt_rehash alloc_ok t (2 ^ (m + 1)) = Some (Some t1)" "nt_ok t1" "canon t1" "nt_rel t1 = nt_rel t"
        "nt_cap t1 = 2 ^ (m + 1)" "nt_count t1 = nt_count t"
    by fastforce
  then show ?thesis
  proof cases
    case 1
    then show ?thesis unfolding cap2 using ok canon by (intro exI [of _ False] exI [of _ t]) simp
  next
    case (2 t1)
    have absent1: "Some (ident key) \<notin> set (ids_of t1)"
      using absent 2(4) by (simp add: ids_Domain)
    have L: "length (ids_of t1) = 2 ^ (m + 1)" using 2 by (simp add: nt_ok_def ids_of_def)
    have stop: "sl_klen1 (nt_slots t1 ! j) = 0 \<longleftrightarrow> ids_of t1 ! j \<in> {None, Some (ident key)}"
      if "j < 2 ^ (m + 1)" for j
    proof -
      have "ids_of t1 ! j \<noteq> Some (ident key)" using absent1 nth_mem [of j "ids_of t1"] that L by metis
      then show ?thesis using that L by (simp add: ids_of_def)
    qed
    obtain d where d: "path_to (ids_of t1) (ident_hash (ident key)) (ident key) d"
      "ids_of t1 ! ((ident_hash (ident key) + d) mod 2 ^ (m + 1)) \<in> {None, Some (ident key)}"
      "probe (\<lambda>j. sl_klen1 (nt_slots t1 ! j) = 0) (2 ^ (m + 1) - 1) (ident_hash (ident key) mod 2 ^ (m + 1)) =
        Some ((ident_hash (ident key) + d) mod 2 ^ (m + 1))"
      by (rule probe_stops [OF L ids_has_empty [OF 2(2)] stop])
    let ?j = "(ident_hash (ident key) + d) mod 2 ^ (m + 1)"
    have jn: "ids_of t1 ! ?j = None"
      using d(2) absent1 nth_mem [of ?j "ids_of t1"] L by (metis insertE mod_less_divisor singletonD zero_less_numeral zero_less_power)
    have X: "?X = nt_insert_at alloc_ok t1 key v ?j"
      unfolding cap2 using 2(1,5) d(3) ident_hash_eq [of key] by (simp only: option.case and_pred_pow2)
    have load1: "(nt_count t1 + 1) * 100 \<le> nt_cap t1 * NT_LOAD_PCT"
      and few1: "nt_count t1 < 2 ^ 28" using load2 few by (simp_all only: 2(5,6))
    have j1: "?j < nt_cap t1" "?j = (ident_hash (ident key) + d) mod nt_cap t1" by (simp_all add: 2(5))
    from insert_at_spec [OF 2(2) load1 j1 d(1) jn absent1 few1 len, of alloc_ok v]
    show ?thesis unfolding X 2(4,6) using 2(3) by blast
  qed
qed

lemma set_spec:
  assumes ok: "nt_ok t" and len: "length key < 2 ^ 32 - 1" and few: "nt_count t < 2 ^ 28"
    and moves: "(nt_count t + 1) * 100 \<le> nt_cap t * NT_LOAD_PCT \<or> canon t"
  shows "\<exists>b t'. yep_nametab_set alloc_ok t key v = Some (b, t') \<and> nt_ok t' \<and>
     nt_rel t' = (if b then insert (ident key, v) {p \<in> nt_rel t. fst p \<noteq> ident key} else nt_rel t) \<and>
     (canon t \<and> key_ok key \<longrightarrow> canon t') \<and> nt_count t' \<le> nt_count t + 1 \<and>
     ((nt_count t + 1) * 100 \<le> nt_cap t * NT_LOAD_PCT \<longrightarrow> nt_cap t' = nt_cap t) \<and>
     ((\<forall>n. alloc_ok n) \<longrightarrow> b)" (is "\<exists>b t'. ?P b t'")
proof -
  obtain j d where j: "j < nt_cap t" "j = (ident_hash (ident key) + d) mod nt_cap t"
      "path_to (ids_of t) (ident_hash (ident key)) (ident key) d"
    and probe: "probe (\<lambda>j. sl_klen1 (nt_slots t ! j) = 0 \<or> slot_match t key (nt_slots t ! j)) (nt_cap t - 1)
       (unat (yep_view_hash key) AND (nt_cap t - 1)) = Some j"
    and at: "ids_of t ! j = Some (ident key) \<or> ids_of t ! j = None \<and> Some (ident key) \<notin> set (ids_of t)"
    by (rule search_spec [OF ok len])
  have cap: "nt_cap t \<noteq> 0" and L: "j < length (nt_slots t)" using ok j(1) by (auto simp: nt_ok_def)
  have at0: "sl_klen1 (nt_slots t ! j) = 0 \<longleftrightarrow> ids_of t ! j = None" using L by (simp add: ids_of_def)
  show ?thesis
  proof (cases "ids_of t ! j = None")
    case False
    with at have at': "ids_of t ! j = Some (ident key)" by simp
    define t' where "t' = (if length key \<le> 8 then t\<lparr>nt_slots := (nt_slots t)[j := (nt_slots t ! j)\<lparr>sl_val := v\<rparr>]\<rparr>
         else t\<lparr>nt_values := (nt_values t)[sl_val (nt_slots t ! j) - 1 := v]\<rparr>)"
    have "yep_nametab_set alloc_ok t key v = Some (True, t')"
      using probe cap at0 False len by (simp add: yep_nametab_set_def Let_def t'_def)
    moreover have "(nt_ok t' \<and> nt_rel t' = insert (ident key, v) {p \<in> nt_rel t. fst p \<noteq> ident key}) \<and>
        (canon t \<longrightarrow> canon t')"
      using overwrite_inline [OF ok j at' _ refl] overwrite_ext [OF ok j at' _ refl] by (simp add: t'_def)
    moreover have "nt_count t' = nt_count t" "nt_cap t' = nt_cap t" by (simp_all add: t'_def)
    ultimately show ?thesis by (intro exI [of _ True] exI [of _ t']) simp
  next
    case None: True
    then have absent: "Some (ident key) \<notin> set (ids_of t)" using at by simp
    show ?thesis
    proof (cases "(nt_count t + 1) * 100 \<le> nt_cap t * NT_LOAD_PCT")
      case True
      then have eq: "yep_nametab_set alloc_ok t key v = nt_insert_at alloc_ok t key v j"
        using probe cap at0 None by (simp add: yep_nametab_set_def Let_def)
      show ?thesis unfolding eq using insert_at_spec [OF ok True j None absent few len, of alloc_ok v] by blast
    next
      case False
      then have eq: "yep_nametab_set alloc_ok t key v =
          (case nt_rehash alloc_ok t (nt_cap t * 2 mod 2 ^ 32) of
             None \<Rightarrow> None
           | Some None \<Rightarrow> Some (False, t)
           | Some (Some t) \<Rightarrow>
               (case probe (\<lambda>j. sl_klen1 (nt_slots t ! j) = 0) (nt_cap t - 1)
                       (unat (yep_view_hash key) AND (nt_cap t - 1)) of
                  None \<Rightarrow> None
                | Some j \<Rightarrow> nt_insert_at alloc_ok t key v j))"
        using probe cap at0 None by (simp add: yep_nametab_set_def Let_def)
      have "canon t" using moves False by simp
      then show ?thesis
        unfolding eq using grow_insert [OF ok _ absent few len False, of alloc_ok v] False by blast
    qed
  qed
qed

end
