(* ===== verification/Nametab_Facts.thy ===== *)
theory Nametab_Facts
  imports Nametab_Table
begin

text \<open>
  What the clients of the interner may rely on. Identities are exact for every length but
  eight; \<open>nt_rehash\<close> can place again the keys of 0, 1, 2, 4 and from 8 bytes on. The locale
  \<open>name_map\<close> is the clients' contract, interpreted twice: for tables that grow, and for
  tables small enough not to.
\<close>

section \<open>Which keys an identity determines\<close>

lemma glue_inj:
  fixes k k' :: u64
  assumes "unat k * 2 ^ s < 2 ^ 64" "unat k' * 2 ^ s < 2 ^ 64" "unat v < 2 ^ s" "unat v' < 2 ^ s"
    and eq: "push_bit s k OR v = push_bit s k' OR v'"
  shows "k = k' \<and> v = v'"
proof -
  have glue: "unat (push_bit s a OR b) = unat a * 2 ^ s + unat b"
    if "unat a * 2 ^ s < 2 ^ 64" "unat b < 2 ^ s" for a b :: u64
  proof -
    have "unat (push_bit s a) = unat a * 2 ^ s" using that(1) by (simp add: unat_push_bit)
    then show ?thesis using unat_or_disjoint [of s "push_bit s a" b] that(2) by simp
  qed
  have e: "unat k * 2 ^ s + unat v = unat k' * 2 ^ s + unat v'"
    using eq glue [OF assms(1,3)] glue [OF assms(2,4)] by simp
  then have "(unat k * 2 ^ s + unat v) div 2 ^ s = (unat k' * 2 ^ s + unat v') div 2 ^ s"
    "(unat k * 2 ^ s + unat v) mod 2 ^ s = (unat k' * 2 ^ s + unat v') mod 2 ^ s" by simp_all
  with assms(3,4) show ?thesis by (simp add: word_unat_eq_iff)
qed

lemma load_small_cases:
  "load_small [] 0 = 0"
  "load_small [a] 1 = ucast a"
  "load_small [a, b] 2 = ucast (le_load [a, b] :: u16)"
  "load_small [a, b, c] 3 = push_bit 8 (ucast (le_load [a, b] :: u16)) OR ucast c"
  "load_small [a, b, c, d] 4 = ucast (le_load [a, b, c, d] :: u32)"
  "load_small [a, b, c, d, e] 5 = push_bit 8 (ucast (le_load [a, b, c, d] :: u32)) OR ucast e"
  "load_small [a, b, c, d, e, f] 6 =
     push_bit 16 (ucast (le_load [a, b, c, d] :: u32)) OR ucast (le_load [e, f] :: u16)"
  "load_small [a, b, c, d, e, f, g] 7 =
     push_bit 8 (push_bit 16 (ucast (le_load [a, b, c, d] :: u32)) OR ucast (le_load [e, f] :: u16)) OR ucast g"
  by (simp_all add: load_small_def bit_iff_odd)

lemma ucast_inj: "LENGTH('a::len) \<le> LENGTH('b::len) \<Longrightarrow>
   (ucast (x :: 'a word) :: 'b word) = ucast y \<longleftrightarrow> x = y"
proof -
  assume "LENGTH('a) \<le> LENGTH('b)"
  then have "(2::nat) ^ LENGTH('a) \<le> 2 ^ LENGTH('b)" by (intro power_increasing) simp_all
  then have "unat x < 2 ^ LENGTH('b)" "unat y < 2 ^ LENGTH('b)"
    using less_le_trans [OF unsigned_less [of x]] less_le_trans [OF unsigned_less [of y]] by blast+
  then show ?thesis by (simp add: word_unat_eq_iff unat_ucast)
qed

lemma unat_ucast_less: "unat (x :: 'a::len word) < n \<Longrightarrow> unat (ucast x :: 'b::len word) < n"
  by (rule le_less_trans [of _ "unat x"]) (simp_all add: unat_ucast)

lemma unat_half: "unat (x :: u16) < 65536" and unat_quad: "unat (x' :: u32) < 4294967296"
  using unsigned_less [of x] unsigned_less [of x'] by simp_all

lemma load_4_inj:
  "(ucast (le_load [a, b, c, d] :: u32) :: u64) = ucast (le_load [a', b', c', d'] :: u32) \<longleftrightarrow>
     [a, b, c, d] = [a', b', c', d']"
  using le_load_inj [where 'a = 32, of "[a, b, c, d]" "[a', b', c', d']"] by (auto simp: ucast_inj)

lemma load_2_inj:
  "(ucast (le_load [a, b] :: u16) :: u64) = ucast (le_load [a', b'] :: u16) \<longleftrightarrow> [a, b] = [a', b']"
  using le_load_inj [where 'a = 16, of "[a, b]" "[a', b']"] by (auto simp: ucast_inj)

lemma glue_bounds:
  "unat (ucast (x :: u16) :: u64) * 2 ^ 8 < 2 ^ 64" "unat (ucast (y :: u32) :: u64) * 2 ^ 8 < 2 ^ 64"
  "unat (ucast (y :: u32) :: u64) * 2 ^ 16 < 2 ^ 64" "unat (ucast (z :: byte) :: u64) < 2 ^ 8"
  "unat (ucast (x :: u16) :: u64) < 2 ^ 16"
  using unat_ucast_less [OF unat_half [of x], where 'b = 64] unat_ucast_less [OF unat_quad [of y], where 'b = 64]
    unat_ucast_less [OF byte_bound [of z], where 'b = 64] by simp_all

lemma glue_bound_6: "unat (push_bit 16 (ucast (y :: u32)) OR ucast (x :: u16) :: u64) * 2 ^ 8 < 2 ^ 64"
proof -
  have "unat (push_bit 16 (ucast y) OR ucast x :: u64) = unat (push_bit 16 (ucast y :: u64)) + unat (ucast x :: u64)"
    using glue_bounds(5) [of x] glue_bounds(3) [of y] by (intro unat_or_disjoint [of 16]) (simp_all add: unat_push_bit)
  also have "\<dots> < 2 ^ 32 * 2 ^ 16"
    using unat_ucast_less [OF unat_quad [of y], where 'b = 64] glue_bounds(5) [of x]
    by (simp add: unat_push_bit)
  finally show ?thesis by simp
qed

lemma load_small_inj:
  assumes "length k < 8" and "length k' = length k" and "load_small k (length k) = load_small k' (length k)"
  shows "k = k'"
proof -
  note inj = glue_inj [OF glue_bounds(1) glue_bounds(1) glue_bounds(4) glue_bounds(4)]
    glue_inj [OF glue_bounds(2) glue_bounds(2) glue_bounds(4) glue_bounds(4)]
    glue_inj [OF glue_bounds(3) glue_bounds(3) glue_bounds(5) glue_bounds(5)]
    glue_inj [OF glue_bound_6 glue_bound_6 glue_bounds(4) glue_bounds(4)]
  consider "length k = 0" | "length k = 1" | "length k = 2" | "length k = 3" | "length k = 4" | "length k = 5"
    | "length k = 6" | "length k = 7" using assms(1) by linarith
  then show ?thesis
  proof cases
    case 1
    then show ?thesis using assms(2) by simp
  next
    case 2
    then obtain a a' where k: "k = [a]" "k' = [a']"
      using assms(2) by (auto simp: length_Suc_conv numeral_eq_Suc)
    have "load_small [a] 1 = load_small [a'] 1"
      using assms(3) unfolding 2 unfolding k .
    then show ?thesis unfolding k load_small_cases by (simp del: le_load.simps add: ucast_inj)
  next
    case 3
    then obtain a b a' b' where k: "k = [a, b]" "k' = [a', b']"
      using assms(2) by (auto simp: length_Suc_conv numeral_eq_Suc)
    have "load_small [a, b] (2) = load_small [a', b'] (2)"
      using assms(3) unfolding 3 unfolding k .
    then show ?thesis unfolding k load_small_cases by (simp del: le_load.simps add: load_2_inj)
  next
    case 4
    then obtain a b c a' b' c' where k: "k = [a, b, c]" "k' = [a', b', c']"
      using assms(2) by (auto simp: length_Suc_conv numeral_eq_Suc)
    have "load_small [a, b, c] (3) = load_small [a', b', c'] (3)"
      using assms(3) unfolding 4 unfolding k .
    then show ?thesis unfolding k load_small_cases by (auto dest!: inj(1) simp del: le_load.simps simp: load_2_inj ucast_inj)
  next
    case 5
    then obtain a b c d a' b' c' d' where k: "k = [a, b, c, d]" "k' = [a', b', c', d']"
      using assms(2) by (auto simp: length_Suc_conv numeral_eq_Suc)
    have "load_small [a, b, c, d] (4) = load_small [a', b', c', d'] (4)"
      using assms(3) unfolding 5 unfolding k .
    then show ?thesis unfolding k load_small_cases by (simp del: le_load.simps add: load_4_inj)
  next
    case 6
    then obtain a b c d e a' b' c' d' e' where k: "k = [a, b, c, d, e]" "k' = [a', b', c', d', e']"
      using assms(2) by (auto simp: length_Suc_conv numeral_eq_Suc)
    have "load_small [a, b, c, d, e] (5) = load_small [a', b', c', d', e'] (5)"
      using assms(3) unfolding 6 unfolding k .
    then show ?thesis unfolding k load_small_cases by (auto dest!: inj(2) simp del: le_load.simps simp: load_4_inj ucast_inj)
  next
    case 7
    then obtain a b c d e f a' b' c' d' e' f' where k: "k = [a, b, c, d, e, f]" "k' = [a', b', c', d', e', f']"
      using assms(2) by (auto simp: length_Suc_conv numeral_eq_Suc)
    have "load_small [a, b, c, d, e, f] (6) = load_small [a', b', c', d', e', f'] (6)"
      using assms(3) unfolding 7 unfolding k .
    then show ?thesis unfolding k load_small_cases by (auto dest!: inj(3) simp del: le_load.simps simp: load_4_inj load_2_inj)
  next
    case 8
    then obtain a b c d e f g a' b' c' d' e' f' g' where k: "k = [a, b, c, d, e, f, g]" "k' = [a', b', c', d', e', f', g']"
      using assms(2) by (auto simp: length_Suc_conv numeral_eq_Suc)
    have "load_small [a, b, c, d, e, f, g] (7) = load_small [a', b', c', d', e', f', g'] (7)"
      using assms(3) unfolding 8 unfolding k .
    note e = inj(4) [OF this [unfolded load_small_cases]]
    from e [THEN conjunct1, THEN inj(3)] e show ?thesis
      unfolding k by (simp del: le_load.simps add: load_4_inj load_2_inj ucast_inj)
  qed
qed

lemma byte_bit_high: "\<not> bit (a :: byte) (8 + n)" "\<not> bit (a :: byte) (16 + n)" "\<not> bit (a :: byte) (24 + n)"
  using bit_imp_le_length [of a] by force+

lemma prefix_bytes_load:
  "take 4 (prefix_bytes (ucast (le_load [a, b, c, d] :: u32))) = [a, b, c, d]"
  "take 2 (prefix_bytes (ucast (le_load [a, b] :: u16))) = [a, b]"
  "take 1 (prefix_bytes (ucast a)) = [a]"
  by (simp_all add: prefix_bytes_def upt_rec) (auto intro!: bit_word_eqI simp: bit_simps byte_bit_high)

lemma key_ok_lengths:
  assumes "length k \<in> {0, 1, 2, 4, 8} \<or> 8 < length k"
  shows "key_ok k"
proof -
  consider "k = []" | a where "k = [a]" | a b where "k = [a, b]" | a b c d where "k = [a, b, c, d]"
    | "length k = 8" | "8 < length k"
    using assms by (auto simp: length_Suc_conv numeral_eq_Suc)
  moreover have short: "key_ok k" if "length k < 8" "take (length k) (prefix_bytes (load_small k (length k))) = k"
    using that by (simp add: key_ok_def key_prefix_def)
  ultimately show ?thesis
  proof cases
    case (2 a)
    then have n: "length k = 1" by simp
    show ?thesis by (rule short) (unfold n, unfold 2 load_small_cases prefix_bytes_load, simp_all)
  next
    case (3 a b)
    then have n: "length k = 2" by simp
    show ?thesis by (rule short) (unfold n, unfold 3 load_small_cases prefix_bytes_load, simp_all)
  next
    case (4 a b c d)
    then have n: "length k = 4" by simp
    show ?thesis by (rule short) (unfold n, unfold 4 load_small_cases prefix_bytes_load, simp_all)
  next
    case 5
    have "load_small p 8 = 0" for p by (simp add: load_small_def bit_iff_odd)
    with 5 show ?thesis by (simp add: key_ok_def key_prefix_def yep_view_hash_def prefix_bytes_def)
  qed (simp_all add: key_ok_def)
qed

lemma ident_inj:
  assumes "length k \<noteq> 8"
  shows "ident k = ident k' \<longleftrightarrow> k = k'"
proof
  assume eq: "ident k = ident k'"
  show "k = k'"
  proof (cases "length k \<le> 8")
    case True
    with assms have "length k < 8" by simp
    with eq load_small_inj [of k k'] show ?thesis
      by (auto simp: ident_def key_prefix_def split: if_splits)
  qed (use eq in \<open>auto simp: ident_def split: if_splits\<close>)
qed simp

section \<open>Reserving\<close>

lemma double_until_pow2:
  assumes "a \<le> 30" and "need \<le> 2 ^ 30"
  shows "\<exists>m. a \<le> m \<and> m \<le> 30 \<and> double_until (2 ^ a) need = Some (2 ^ m) \<and> need \<le> 2 ^ m"
  using assms
proof (induction "30 - a" arbitrary: a)
  case 0
  then have "a = 30" by simp
  with 0 show ?case by (intro exI [of _ 30]) (simp add: double_until.simps)
next
  case (Suc k)
  show ?case
  proof (cases "2 ^ a < need")
    case True
    have "(2::nat) ^ Suc a < 2 ^ 32" using Suc.hyps(2) by (intro power_strict_increasing) simp_all
    then have "double_until (2 ^ a) need = double_until (2 ^ Suc a) need"
      using True by (subst double_until.simps) (simp add: mult.commute)
    moreover have "k = 30 - Suc a" "Suc a \<le> 30" using Suc.hyps(2) by simp_all
    with Suc.hyps(1) [OF this(1)] Suc.prems(2)
    obtain m where "Suc a \<le> m" "m \<le> 30" "double_until (2 ^ Suc a) need = Some (2 ^ m)" "need \<le> 2 ^ m"
      by auto
    ultimately show ?thesis by (intro exI [of _ m]) simp
  next
    case False
    then show ?thesis using Suc.prems by (intro exI [of _ a]) (simp add: double_until.simps)
  qed
qed

lemma reserve_spec:
  assumes ok: "nt_ok t" and canon: "canon t" and n: "n \<le> 2 ^ 28"
  shows "\<exists>b t'. yep_nametab_reserve alloc_ok t n = Some (b, t') \<and> nt_ok t' \<and> canon t' \<and>
     nt_rel t' = nt_rel t \<and> nt_count t' = nt_count t \<and> ((\<forall>n. alloc_ok n) \<longrightarrow> b)"
proof (cases "n * 100 \<le> nt_cap t * NT_LOAD_PCT")
  case True
  have "nt_cap t \<noteq> 0" using ok by (auto simp: nt_ok_def)
  with True have "yep_nametab_reserve alloc_ok t n = Some (True, t)" by (simp add: yep_nametab_reserve_def)
  with ok canon show ?thesis by blast
next
  case False
  let ?need = "(n * 100 + NT_LOAD_PCT - 1) div NT_LOAD_PCT"
  have "?need \<le> 2 ^ 30" using n by (simp add: NT_LOAD_PCT_def)
  from double_until_pow2 [OF _ this, of 6] obtain m
    where m: "6 \<le> m" "m \<le> 30" "double_until 64 ?need = Some (2 ^ m)" "?need \<le> 2 ^ m" by auto
  have "n * 100 \<le> 2 ^ m * NT_LOAD_PCT" using m(4) by (simp add: NT_LOAD_PCT_def)
  then have load: "nt_count t * 100 \<le> 2 ^ m * NT_LOAD_PCT"
    using False ok by (simp add: nt_ok_def)
  have cap: "nt_cap t \<noteq> 0" using ok by (auto simp: nt_ok_def)
  have eq: "yep_nametab_reserve alloc_ok t n =
      (case nt_rehash alloc_ok t (2 ^ m) of
         None \<Rightarrow> None | Some None \<Rightarrow> Some (False, t) | Some (Some t) \<Rightarrow> Some (True, t))"
    using False cap m(3) by (simp add: yep_nametab_reserve_def NT_MIN_CAP_def Let_def)
  from rehash_spec [OF ok canon m(1,2) load, of alloc_ok] show ?thesis
    unfolding eq using ok canon by (elim disjE exE conjE) auto
qed

section \<open>The interface its clients rely on\<close>

datatype nt_op = NtSet yep_view nat | NtClear | NtReserve nat

definition nt_step :: "(nat \<Rightarrow> bool) \<Rightarrow> nt_op \<Rightarrow> yep_nametab \<Rightarrow> (bool \<times> yep_nametab) option" where
  "nt_step alloc_ok op t =
     (case op of NtSet k v \<Rightarrow> yep_nametab_set alloc_ok t k v
      | NtClear \<Rightarrow> Some (True, yep_nametab_clear t)
      | NtReserve n \<Rightarrow> yep_nametab_reserve alloc_ok t n)"

text \<open>The abstract name map: a total function, \<open>YEP_NAMETAB_NIL\<close> where nothing is bound.\<close>

definition nt_spec :: "nt_op \<times> bool \<Rightarrow> (yep_view \<Rightarrow> nat) \<Rightarrow> yep_view \<Rightarrow> nat" where
  "nt_spec = (\<lambda>(op, done_ok) g.
     (case op of NtSet k v \<Rightarrow> if done_ok then g(k := v) else g
      | NtClear \<Rightarrow> (\<lambda>_. YEP_NAMETAB_NIL)
      | NtReserve n \<Rightarrow> g))"

fun run_ops :: "('o \<Rightarrow> 't \<Rightarrow> (bool \<times> 't) option) \<Rightarrow> 'o list \<Rightarrow> 't \<Rightarrow> (bool list \<times> 't) option" where
  "run_ops step [] t = Some ([], t)"
| "run_ops step (x # xs) t =
     (case step x t of
        None \<Rightarrow> None
      | Some (b, t') \<Rightarrow>
          (case run_ops step xs t' of None \<Rightarrow> None | Some (bs, t'') \<Rightarrow> Some (b # bs, t'')))"

text \<open>
  An implementation whose every step answers, keeps its invariant and acts on the visible keys
  as the specification says. \<open>room\<close> bounds the number of steps, \<open>sure\<close> stands for an
  allocator that never fails.
\<close>

locale name_map =
  fixes step :: "'o \<Rightarrow> 't \<Rightarrow> (bool \<times> 't) option"
    and get :: "'t \<Rightarrow> 'k \<Rightarrow> 'v option"
    and spec :: "'o \<times> bool \<Rightarrow> ('k \<Rightarrow> 'v) \<Rightarrow> 'k \<Rightarrow> 'v"
    and inv :: "nat \<Rightarrow> 't \<Rightarrow> bool"
    and legal_op :: "'o \<Rightarrow> bool"
    and legal_key :: "'k \<Rightarrow> bool"
    and room :: nat
    and sure :: bool
  assumes step_law: "inv n t \<Longrightarrow> n < room \<Longrightarrow> legal_op x \<Longrightarrow>
      \<exists>b t'. step x t = Some (b, t') \<and> inv (Suc n) t' \<and> (sure \<longrightarrow> b) \<and>
        (\<forall>g. (\<forall>k. legal_key k \<longrightarrow> get t k = Some (g k)) \<longrightarrow>
             (\<forall>k. legal_key k \<longrightarrow> get t' k = Some (spec (x, b) g k)))"
begin

lemma run_law:
  assumes "inv n t" and "n + length xs \<le> room" and "list_all legal_op xs"
    and "\<forall>k. legal_key k \<longrightarrow> get t k = Some (g k)"
  shows "\<exists>bs t'. run_ops step xs t = Some (bs, t') \<and> length bs = length xs \<and> (sure \<longrightarrow> list_all (\<lambda>b. b) bs) \<and>
     (\<forall>k. legal_key k \<longrightarrow> get t' k = Some (fold spec (zip xs bs) g k))"
  using assms
proof (induction xs arbitrary: n t g)
  case Nil
  then show ?case by simp
next
  case (Cons x xs)
  obtain b t1 where s: "step x t = Some (b, t1)" "inv (Suc n) t1" "sure \<longrightarrow> b"
    "\<forall>k. legal_key k \<longrightarrow> get t1 k = Some (spec (x, b) g k)"
    using step_law [of n t x] Cons.prems by auto
  obtain bs t2 where "run_ops step xs t1 = Some (bs, t2)" "length bs = length xs" "sure \<longrightarrow> list_all (\<lambda>b. b) bs"
    "\<forall>k. legal_key k \<longrightarrow> get t2 k = Some (fold spec (zip xs bs) (spec (x, b) g) k)"
    using Cons.IH [OF s(2) _ _ s(4)] Cons.prems(2,3) by auto
  with s(1,3) show ?case by simp
qed

end

definition nt_len_ok :: "yep_view \<Rightarrow> bool" where
  "nt_len_ok k \<longleftrightarrow> (length k \<in> {0, 1, 2, 4} \<or> 8 < length k) \<and> length k < 2 ^ 32 - 1"

definition nt_legal :: "nt_op \<Rightarrow> bool" where
  "nt_legal op = (case op of NtSet k v \<Rightarrow> nt_len_ok k | NtClear \<Rightarrow> True | NtReserve n \<Rightarrow> n \<le> 2 ^ 28)"

lemma get_after:
  assumes ok: "nt_ok t" "nt_ok t'" and len: "length k < 2 ^ 32 - 1" and old: "yep_nametab_get t k = Some x"
    and rel: "nt_rel t' = (if b then insert (i, v) {p \<in> nt_rel t. fst p \<noteq> i} else nt_rel t)"
  shows "yep_nametab_get t' k = Some (if b \<and> ident k = i then v else x)"
  using old get_eq [OF ok(1) len] get_eq [OF ok(2) len] nt_rel_single [OF ok(1)] rel by (auto split: if_splits)

lemma get_cleared:
  "nt_ok t \<Longrightarrow> length k < 2 ^ 32 - 1 \<Longrightarrow> yep_nametab_get (yep_nametab_clear t) k = Some YEP_NAMETAB_NIL"
  using get_eq [of "yep_nametab_clear t" k YEP_NAMETAB_NIL] clear_ok [of t] by simp

lemma clear_count: "nt_ok t \<Longrightarrow> nt_count (yep_nametab_clear t) = 0 \<and> nt_cap (yep_nametab_clear t) = nt_cap t"
  by (auto simp: yep_nametab_clear_def nt_ok_def)

interpretation big: name_map "nt_step alloc_ok" yep_nametab_get nt_spec
  "\<lambda>n t. nt_ok t \<and> canon t \<and> nt_count t \<le> n" nt_legal nt_len_ok "2 ^ 28" "\<forall>n. alloc_ok n"
  for alloc_ok
proof (unfold_locales, goal_cases)
  case (1 n t x)
  show ?case
  proof (cases x)
    case (NtSet k v)
    with 1(3) have k: "nt_len_ok k" by (simp add: nt_legal_def)
    then have kk: "length k < 2 ^ 32 - 1" "key_ok k" "length k \<noteq> 8"
      using key_ok_lengths [of k] by (auto simp: nt_len_ok_def)
    from 1 set_spec [OF _ kk(1), of t alloc_ok v] obtain b t' where
      s: "yep_nametab_set alloc_ok t k v = Some (b, t')" "nt_ok t'" "canon t'" "nt_count t' \<le> Suc n"
        "nt_rel t' = (if b then insert (ident k, v) {p \<in> nt_rel t. fst p \<noteq> ident k} else nt_rel t)"
        "(\<forall>n. alloc_ok n) \<longrightarrow> b"
      using kk(2) by fastforce
    have "yep_nametab_get t' k' = Some (nt_spec (x, b) g k')"
      if "\<forall>k. nt_len_ok k \<longrightarrow> yep_nametab_get t k = Some (g k)" "nt_len_ok k'" for g k'
      using get_after [OF _ s(2) _ _ s(5), of k' "g k'"] 1(1) that ident_inj [OF kk(3), of k']
      by (auto simp: NtSet nt_spec_def nt_len_ok_def)
    with s show ?thesis by (simp add: NtSet nt_step_def)
  next
    case NtClear
    with 1 show ?thesis
      using clear_ok [of t] clear_count [of t]
      by (intro exI [of _ True] exI [of _ "yep_nametab_clear t"])
        (simp add: nt_step_def nt_spec_def get_cleared nt_len_ok_def)
  next
    case (NtReserve m)
    with 1 reserve_spec [of t m alloc_ok] obtain b t' where
      s: "yep_nametab_reserve alloc_ok t m = Some (b, t')" "nt_ok t'" "canon t'" "nt_count t' \<le> Suc n"
        "nt_rel t' = nt_rel t" "(\<forall>n. alloc_ok n) \<longrightarrow> b"
      by (fastforce simp: nt_legal_def)
    have "yep_nametab_get t' k = yep_nametab_get t k" if "nt_len_ok k" for k
    proof -
      have "length k < 2 ^ 32 - 1" using that by (simp add: nt_len_ok_def)
      from get_eq [OF _ this, of t] get_eq [OF s(2) this] get_spec [OF _ this, of t] 1(1) s(5)
      show ?thesis by (metis (no_types, lifting))
    qed
    with s show ?thesis by (simp add: NtReserve nt_step_def nt_spec_def)
  qed
qed

text \<open>
  A table that never grows (at most 44 entries) needs no rehashing, so every key length but
  eight is exact.
\<close>

definition nt_small_key :: "yep_view \<Rightarrow> bool" where
  "nt_small_key k \<longleftrightarrow> length k \<noteq> 8 \<and> length k < 2 ^ 32 - 1"

definition nt_small_legal :: "nt_op \<Rightarrow> bool" where
  "nt_small_legal op = (case op of NtSet k v \<Rightarrow> nt_small_key k | NtClear \<Rightarrow> True | NtReserve n \<Rightarrow> False)"

interpretation small: name_map "nt_step alloc_ok" yep_nametab_get nt_spec
  "\<lambda>n t. nt_ok t \<and> nt_cap t = 64 \<and> nt_count t \<le> n" nt_small_legal nt_small_key 44 "\<forall>n. alloc_ok n"
  for alloc_ok
proof (unfold_locales, goal_cases)
  case (1 n t x)
  then have load: "(nt_count t + 1) * 100 \<le> nt_cap t * NT_LOAD_PCT" by (simp add: NT_LOAD_PCT_def)
  show ?case
  proof (cases x)
    case (NtSet k v)
    with 1(3) have k: "length k < 2 ^ 32 - 1" "length k \<noteq> 8" by (simp_all add: nt_small_legal_def nt_small_key_def)
    from 1 load set_spec [OF _ k(1), of t alloc_ok v] obtain b t' where
      s: "yep_nametab_set alloc_ok t k v = Some (b, t')" "nt_ok t'" "nt_cap t' = 64" "nt_count t' \<le> Suc n"
        "nt_rel t' = (if b then insert (ident k, v) {p \<in> nt_rel t. fst p \<noteq> ident k} else nt_rel t)"
        "(\<forall>n. alloc_ok n) \<longrightarrow> b"
      by fastforce
    have "yep_nametab_get t' k' = Some (nt_spec (x, b) g k')"
      if "\<forall>k. nt_small_key k \<longrightarrow> yep_nametab_get t k = Some (g k)" "nt_small_key k'" for g k'
      using get_after [OF _ s(2) _ _ s(5), of k' "g k'"] 1(1) that ident_inj [OF k(2), of k']
      by (auto simp: NtSet nt_spec_def nt_small_key_def)
    with s show ?thesis by (simp add: NtSet nt_step_def)
  next
    case NtClear
    with 1 show ?thesis
      using clear_ok [of t] clear_count [of t]
      by (intro exI [of _ True] exI [of _ "yep_nametab_clear t"])
        (simp add: nt_step_def nt_spec_def get_cleared nt_small_key_def)
  next
    case (NtReserve m)
    with 1 show ?thesis by (simp add: nt_small_legal_def)
  qed
qed

lemma init_get:
  assumes "yep_nametab_init alloc_ok = Some t" and "length k < 2 ^ 32 - 1"
  shows "yep_nametab_get t k = Some YEP_NAMETAB_NIL"
  using init_ok [OF assms(1)] get_eq [OF _ assms(2), of t YEP_NAMETAB_NIL] by simp

section \<open>Properties\<close>

text \<open>
  C10. Any sequence of at most \<open>2 ^ 28\<close> set, clear and reserve calls on a fresh table, with
  keys of 0, 1, 2, 4 or more than 8 bytes, terminates, and afterwards every such key looks up
  what the abstract map holds: the value last set, \<open>YEP_NAMETAB_NIL\<close> otherwise. Growth and
  rehashing are invisible; a call fails only when an allocation does, and a failed set leaves
  every lookup as it was.
\<close>

theorem nametab_refines_map:
  assumes "yep_nametab_init alloc_ok = Some t" and "list_all nt_legal ops" and "length ops \<le> 2 ^ 28"
  shows "\<exists>bs t'. run_ops (nt_step alloc_ok) ops t = Some (bs, t') \<and> length bs = length ops \<and>
     ((\<forall>n. alloc_ok n) \<longrightarrow> list_all (\<lambda>b. b) bs) \<and>
     (\<forall>k. nt_len_ok k \<longrightarrow> yep_nametab_get t' k = Some (fold nt_spec (zip ops bs) (\<lambda>_. YEP_NAMETAB_NIL) k))"
  by (rule big.run_law [where n = 0]) (use assms init_ok init_get in \<open>auto simp: nt_len_ok_def\<close>)

theorem nametab_refines_map_witness:
  "\<exists>t bs t'. yep_nametab_init (\<lambda>_. True) = Some t \<and>
     run_ops (nt_step (\<lambda>_. True))
       [NtSet (bytes_of ''base'') 1, NtReserve 60, NtSet (bytes_of ''a-long-anchor'') 2] t = Some (bs, t') \<and>
     yep_nametab_get t' (bytes_of ''base'') = Some 1"
proof -
  let ?ops = "[NtSet (bytes_of ''base'') 1, NtReserve 60, NtSet (bytes_of ''a-long-anchor'') 2]"
  obtain t where t: "yep_nametab_init (\<lambda>_. True) = Some t" by (simp add: yep_nametab_init_def)
  have "list_all nt_legal ?ops" "length ?ops \<le> 2 ^ 28" by (simp_all add: nt_legal_def nt_len_ok_def)
  from nametab_refines_map [OF t this]
  obtain bs t' where r: "run_ops (nt_step (\<lambda>_. True)) ?ops t = Some (bs, t')" "length bs = length ?ops"
    "list_all (\<lambda>b. b) bs"
    "nt_len_ok (bytes_of ''base'') \<longrightarrow> yep_nametab_get t' (bytes_of ''base'') =
       Some (fold nt_spec (zip ?ops bs) (\<lambda>_. YEP_NAMETAB_NIL) (bytes_of ''base''))"
    by blast
  have "bs = [True, True, True]" using r(2,3) by (auto simp: length_Suc_conv)
  with r(4) have "yep_nametab_get t' (bytes_of ''base'') = Some 1"
    by (simp add: nt_len_ok_def nt_spec_def bytes_of_def)
  with t r(1) show ?thesis by blast
qed

text \<open>
  While a table holds at most 44 names it never grows, and then every key of a length
  other than eight is exact, the lengths that rehashing would lose included.
\<close>

theorem nametab_small_exact:
  assumes "yep_nametab_init alloc_ok = Some t" and "list_all nt_small_legal ops" and "length ops \<le> 44"
  shows "\<exists>bs t'. run_ops (nt_step alloc_ok) ops t = Some (bs, t') \<and> length bs = length ops \<and>
     ((\<forall>n. alloc_ok n) \<longrightarrow> list_all (\<lambda>b. b) bs) \<and>
     (\<forall>k. nt_small_key k \<longrightarrow> yep_nametab_get t' k = Some (fold nt_spec (zip ops bs) (\<lambda>_. YEP_NAMETAB_NIL) k))"
  by (rule small.run_law [where n = 0]) (use assms init_ok init_get in \<open>auto simp: nt_small_key_def\<close>)

theorem nametab_small_exact_witness:
  "\<exists>t bs t'. yep_nametab_init (\<lambda>_. True) = Some t \<and>
     run_ops (nt_step (\<lambda>_. True)) [NtSet (bytes_of ''key'') 1, NtSet (bytes_of ''key'') 5] t = Some (bs, t') \<and>
     yep_nametab_get t' (bytes_of ''key'') = Some 5"
proof -
  let ?ops = "[NtSet (bytes_of ''key'') 1, NtSet (bytes_of ''key'') 5]"
  obtain t where t: "yep_nametab_init (\<lambda>_. True) = Some t" by (simp add: yep_nametab_init_def)
  have "list_all nt_small_legal ?ops" "length ?ops \<le> 44" by (simp_all add: nt_small_legal_def nt_small_key_def)
  from nametab_small_exact [OF t this]
  obtain bs t' where r: "run_ops (nt_step (\<lambda>_. True)) ?ops t = Some (bs, t')" "length bs = length ?ops"
    "list_all (\<lambda>b. b) bs"
    "nt_small_key (bytes_of ''key'') \<longrightarrow> yep_nametab_get t' (bytes_of ''key'') =
       Some (fold nt_spec (zip ?ops bs) (\<lambda>_. YEP_NAMETAB_NIL) (bytes_of ''key''))"
    by blast
  have "bs = [True, True]" using r(2,3) by (auto simp: length_Suc_conv)
  with r(4) have "yep_nametab_get t' (bytes_of ''key'') = Some 5"
    by (simp add: nt_small_key_def nt_spec_def)
  with t r(1) show ?thesis by blast
qed

text \<open>
  Two different names of eight bytes are one name to the table: \<open>load_small\<close> reads no byte
  of an eight-byte word, so the second definition overwrites the first.
\<close>

lemma nametab_eight_bytes_alias:
  assumes "yep_nametab_init (\<lambda>_. True) = Some t" and "length a = 8" and "length b = 8"
  shows "\<exists>t' t''. yep_nametab_set (\<lambda>_. True) t a v = Some (True, t') \<and>
     yep_nametab_set (\<lambda>_. True) t' b w = Some (True, t'') \<and> yep_nametab_get t'' a = Some w"
proof -
  have z: "load_small p 8 = 0" for p by (simp add: load_small_def bit_iff_odd)
  have id: "ident a = ident b" using assms z by (simp add: ident_def key_prefix_def)
  have i: "nt_ok t" "canon t" "nt_count t = 0" using init_ok [OF assms(1)] by auto
  have len: "length a < 2 ^ 32 - 1" "length b < 2 ^ 32 - 1" using assms by simp_all
  have ok: "key_ok a" using assms by (intro key_ok_lengths) simp
  from set_spec [OF i(1) len(1), of "\<lambda>_. True" v] i ok obtain t' where
    t': "yep_nametab_set (\<lambda>_. True) t a v = Some (True, t')" "nt_ok t'" "canon t'" "nt_count t' \<le> 1" by auto
  then have "nt_count t' < 2 ^ 28" by simp
  from set_spec [OF t'(2) len(2) this, of "\<lambda>_. True" w] t'(3) obtain t'' where
    t'': "yep_nametab_set (\<lambda>_. True) t' b w = Some (True, t'')" "nt_ok t''"
      "nt_rel t'' = insert (ident b, w) {p \<in> nt_rel t'. fst p \<noteq> ident b}" by auto
  have "yep_nametab_get t'' a = Some w" using get_eq [OF t''(2) len(1)] t''(3) id by simp
  with t'(1) t''(1) show ?thesis by blast
qed

lemma probe_here: "stop j \<Longrightarrow> probe stop msk j = Some j"
  by (simp add: probe.simps)

lemma rehash_loop_skip:
  "rehash_loop t c (replicate n zero_slot @ rest) slots = rehash_loop t c rest slots"
  by (induction n) simp_all

lemma hash_key:
  "unat (yep_view_hash (bytes_of ''key'')) = 1326284046"
  "unat (yep_view_hash (take 3 (prefix_bytes (key_prefix (bytes_of ''key''))))) = 3383009459"
  by (simp_all add: yep_view_hash_def hash_round_def load_small_def key_prefix_def prefix_bytes_def upt_rec Let_def
      bit_iff_odd)

text \<open>
  Growing a table loses names: after \<^verbatim>\<open>set "key"\<close> the name is found, after a reserve
  that only enlarges the table it is not. \<^verbatim>\<open>nt_rehash\<close> reads the stored prefix word as if it
  were the key's bytes, which it is not for lengths 3, 5, 6 and 7.
\<close>

theorem nametab_growth_loses_key:
  "\<exists>t t' t''. yep_nametab_init (\<lambda>_. True) = Some t \<and>
     yep_nametab_set (\<lambda>_. True) t (bytes_of ''key'') 7 = Some (True, t') \<and>
     yep_nametab_get t' (bytes_of ''key'') = Some 7 \<and>
     yep_nametab_reserve (\<lambda>_. True) t' 60 = Some (True, t'') \<and>
     yep_nametab_get t'' (bytes_of ''key'') = Some YEP_NAMETAB_NIL"
proof -
  let ?k = "bytes_of ''key''"
  have l: "length ?k = 3" by simp
  define s where "s = \<lparr>sl_prefix = key_prefix ?k, sl_val = 7, sl_klen1 = 4\<rparr>"
  define t where "t = \<lparr>nt_slots = replicate 64 zero_slot, nt_keys = [], nt_values = [],
      nt_ext_count = 0, nt_ext_cap = 0, nt_count = 0, nt_cap = 64\<rparr>"
  define t' where "t' = t\<lparr>nt_slots := (replicate 64 zero_slot)[14 := s], nt_count := 1\<rparr>"
  define t'' where "t'' = t'\<lparr>nt_slots := (replicate 128 zero_slot)[51 := s], nt_cap := 128\<rparr>"
  have h: "unat (yep_view_hash ?k) AND 63 = 14" "unat (yep_view_hash ?k) AND 127 = 14"
    using and_pred_pow2 [of _ 6] and_pred_pow2 [of _ 7] by (simp_all add: hash_key del: bytes_of_Cons)
  have init: "yep_nametab_init (\<lambda>_. True) = Some t"
    by (simp add: yep_nametab_init_def NT_MIN_CAP_def t_def)
  have set: "yep_nametab_set (\<lambda>_. True) t ?k 7 = Some (True, t')"
    by (simp add: yep_nametab_set_def nt_insert_at_def t_def t'_def s_def h l probe_here NT_LOAD_PCT_def del: bytes_of_Cons)
  have get: "yep_nametab_get t' ?k = Some 7"
    by (simp add: yep_nametab_get_def t_def t'_def s_def h l probe_here slot_match_def del: bytes_of_Cons)
  have "(replicate 64 zero_slot)[14 := s] = replicate 14 zero_slot @ s # replicate 49 zero_slot @ []"
    by (simp add: list_eq_iff_nth_eq nth_append nth_Cons' nth_list_update)
  moreover have "unat (rehash_of t' s) AND 127 = 51"
    using and_pred_pow2 [of _ 7] by (simp add: rehash_of_def s_def hash_key del: bytes_of_Cons)
  ultimately have "rehash_loop t' 128 ((replicate 64 zero_slot)[14 := s]) (replicate 128 zero_slot) =
      Some ((replicate 128 zero_slot)[51 := s])"
    by (simp add: rehash_loop_skip probe_here s_def del: append_Nil2)
  then have res: "yep_nametab_reserve (\<lambda>_. True) t' 60 = Some (True, t'')"
    by (simp add: yep_nametab_reserve_def nt_rehash_def t'_def t_def t''_def NT_LOAD_PCT_def NT_MIN_CAP_def
        double_until.simps)
  have "yep_nametab_get t'' ?k = Some YEP_NAMETAB_NIL"
    by (simp add: yep_nametab_get_def t''_def t_def t'_def s_def h l probe_here slot_match_def del: bytes_of_Cons)
  with init set get res show ?thesis by blast
qed

end
