(* ===== verification/Resolve.thy ===== *)
theory Resolve
  imports View
begin

text \<open>
  Implicit typing of plain scalars, \<^verbatim>\<open>src/yeptris/resolve/\<close>: the core, JSON, full and
  1.1-compatible classifiers and the tag table. A scalar is its byte list; where the C code
  advances an index, the model recurses on the suffix that starts there. A tag id is the small
  integer the code returns (0 str, 1 int, 2 float, 3 bool, 4 null, 5 timestamp, 9 merge,
  10 value, 11 custom).
\<close>

type_synonym yep_tag_id = nat

section \<open>Character tests written inline in the source\<close>

definition is_hex :: "byte \<Rightarrow> bool" where
  "is_hex c \<longleftrightarrow> is_digit c \<or> 0x61 \<le> c \<and> c \<le> 0x66 \<or> 0x41 \<le> c \<and> c \<le> 0x46"

definition is_octal :: "byte \<Rightarrow> bool" where
  "is_octal c \<longleftrightarrow> 0x30 \<le> c \<and> c \<le> 0x37"

definition is_sign :: "byte \<Rightarrow> bool" where
  "is_sign c \<longleftrightarrow> c = 0x2D \<or> c = 0x2B"

definition is_exp :: "byte \<Rightarrow> bool" where
  "is_exp c \<longleftrightarrow> c = 0x65 \<or> c = 0x45"

definition is_blank :: "byte \<Rightarrow> bool" where
  "is_blank c \<longleftrightarrow> c = 0x20 \<or> c = 0x09"

text \<open>An optional sign byte skipped, as after an exponent letter.\<close>

definition skip_sign :: "byte list \<Rightarrow> byte list" where
  "skip_sign p = (case p of [] \<Rightarrow> [] | c # cs \<Rightarrow> if is_sign c then cs else p)"

lemma length_skip_sign: "length (skip_sign p) \<le> length p"
  by (auto simp: skip_sign_def split: list.split)

text \<open>The bounded digit loop \<^verbatim>\<open>while (k < n && k - start < m && digit)\<close>: count and rest.\<close>

fun digits_upto :: "nat \<Rightarrow> byte list \<Rightarrow> nat \<times> byte list" where
  "digits_upto (Suc m) (c # cs) =
     (if is_digit c then (let (k, r) = digits_upto m cs in (Suc k, r)) else (0, c # cs))"
| "digits_upto m p = (0, p)"

section \<open>The core schema, core12.c\<close>

function core_num_loop :: "byte list \<Rightarrow> bool \<Rightarrow> bool \<Rightarrow> bool \<Rightarrow> bool \<Rightarrow> yep_tag_id" where
  "core_num_loop [] digits dot e edigits =
     (if digits \<and> (dot \<or> e) \<and> (\<not> e \<or> edigits) then 2
      else if digits \<and> \<not> dot \<and> \<not> e then 1 else 0)"
| "core_num_loop (c # cs) digits dot e edigits =
     (if is_digit c then
        (if e then core_num_loop cs digits dot e True else core_num_loop cs True dot e edigits)
      else if c = 0x2E \<and> \<not> e then (if dot then 0 else core_num_loop cs digits True e edigits)
      else if is_exp c \<and> digits \<and> \<not> e then core_num_loop (skip_sign cs) digits dot True edigits
      else 0)"
  by pat_completeness auto
termination
  by (relation "measure (\<lambda>(p, _). length p)") (auto simp: le_imp_less_Suc length_skip_sign)

definition core_number :: "byte list \<Rightarrow> bool \<Rightarrow> yep_tag_id" where
  "core_number r has_sign =
     (if r = [] then 0
      else if length r = 4 \<and> hd r = 0x2E \<and>
          (r = bytes_of ''.inf'' \<or> r = bytes_of ''.Inf'' \<or> r = bytes_of ''.INF'' \<or>
           \<not> has_sign \<and> (r = bytes_of ''.nan'' \<or> r = bytes_of ''.NaN'' \<or> r = bytes_of ''.NAN''))
      then 2
      else if 2 < length r \<and> r ! 0 = 0x30 \<and> r ! 1 = 0x78
      then (if list_all is_hex (drop 2 r) then 1 else 0)
      else if 2 < length r \<and> r ! 0 = 0x30 \<and> r ! 1 = 0x6F
      then (if list_all is_octal (drop 2 r) then 1 else 0)
      else core_num_loop r False False False False)"

definition yep_core12_plain :: "byte list \<Rightarrow> yep_tag_id" where
  "yep_core12_plain p =
     (if p = [] then 4
      else
        let n = length p; c0 = hd p; l0 = c0 OR 0x20 in
        if \<not> (is_digit c0 \<or> is_sign c0 \<or> c0 = 0x2E \<or> l0 = 0x6E \<or> l0 = 0x74 \<or> l0 = 0x66 \<or>
              l0 = 0x79 \<or> c0 = 0x7E) then 0
        else if l0 = 0x6E \<or> l0 = 0x74 \<or> l0 = 0x66 \<or> l0 = 0x79 then
          (if n = 4 \<and> l0 = 0x6E then
             (if p = bytes_of ''null'' \<or> p = bytes_of ''Null'' \<or> p = bytes_of ''NULL'' then 4 else 0)
           else if n = 4 \<and> l0 = 0x74 then
             (if p = bytes_of ''true'' \<or> p = bytes_of ''True'' \<or> p = bytes_of ''TRUE'' then 3 else 0)
           else if n = 5 \<and> l0 = 0x66 then
             (if p = bytes_of ''false'' \<or> p = bytes_of ''False'' \<or> p = bytes_of ''FALSE'' then 3 else 0)
           else 0)
        else if c0 = 0x7E then (if n = 1 then 4 else 0)
        else core_number (skip_sign p) (is_sign c0))"

section \<open>The JSON schema, json12.c\<close>

definition json_exponent :: "byte list \<Rightarrow> bool \<Rightarrow> yep_tag_id" where
  "json_exponent p floaty =
     (case p of
        c # cs \<Rightarrow>
          if is_exp c then
            let q = skip_sign cs; r = dropWhile is_digit q in
            if length r = length q then 0 else if r = [] then 2 else 0
          else 0
      | [] \<Rightarrow> if floaty then 2 else 0)"

definition json_number :: "byte list \<Rightarrow> yep_tag_id" where
  "json_number p =
     (case p of
        [] \<Rightarrow> 0
      | c # cs \<Rightarrow>
          if c = 0x30 \<or> 0x31 \<le> c \<and> c \<le> 0x39 then
            let r = (if c = 0x30 then cs else dropWhile is_digit cs) in
            (case r of
               [] \<Rightarrow> 1
             | d # ds \<Rightarrow>
                 if d = 0x2E then json_exponent (dropWhile is_digit ds) True else json_exponent r False)
          else 0)"

definition yep_json12_plain :: "byte list \<Rightarrow> yep_tag_id" where
  "yep_json12_plain p =
     (if p = [] then 0
      else if p = bytes_of ''null'' then 4
      else if p = bytes_of ''true'' then 3
      else if p = bytes_of ''false'' then 3
      else json_number (if hd p = 0x2D then tl p else p))"

section \<open>The full 1.2 schema, full12.c\<close>

definition pyyaml_zone :: "byte list \<Rightarrow> bool" where
  "pyyaml_zone p =
     (case dropWhile is_blank p of
        [] \<Rightarrow> p = []
      | c # cs \<Rightarrow>
          if c = 0x5A then cs = []
          else if is_sign c then
            (case digits_upto 2 cs of
               (k, r) \<Rightarrow>
                 if k = 0 then p = []
                 else
                   (case r of
                      [] \<Rightarrow> True
                    | d # ds \<Rightarrow>
                        if d = 0x3A then
                          (case ds of m1 # m2 # rest \<Rightarrow> if is_digit m1 \<and> is_digit m2 then rest = [] else p = []
                           | _ \<Rightarrow> p = [])
                        else False))
          else p = [])"

text \<open>Hours, minutes, seconds and fraction, then the zone.\<close>

definition pyyaml_clock :: "byte list \<Rightarrow> bool" where
  "pyyaml_clock p =
     (case digits_upto 2 p of (h, p) \<Rightarrow>
      if h = 0 then False
      else
        (case p of [] \<Rightarrow> False | c # p \<Rightarrow> if c \<noteq> 0x3A then False else
         (case digits_upto 2 p of (m, p) \<Rightarrow> if m \<noteq> 2 then False else
          (case p of [] \<Rightarrow> False | c # p \<Rightarrow> if c \<noteq> 0x3A then False else
           (case digits_upto 2 p of (s, p) \<Rightarrow> if s \<noteq> 2 then False else
            pyyaml_zone
              (case p of [] \<Rightarrow> [] | c # cs \<Rightarrow> if c = 0x2E then dropWhile is_digit cs else p))))))"

definition pyyaml_time :: "byte list \<Rightarrow> bool" where
  "pyyaml_time p =
     (case p of
        [] \<Rightarrow> False
      | s # p' \<Rightarrow>
          if s = 0x54 \<or> s = 0x74 then pyyaml_clock p'
          else if is_blank s then pyyaml_clock (dropWhile is_blank p)
          else False)"

definition pyyaml_timestamp :: "byte list \<Rightarrow> bool" where
  "pyyaml_timestamp p =
     (case digits_upto 4 p of (y, p) \<Rightarrow>
      if y \<noteq> 4 then False
      else
        (case p of [] \<Rightarrow> False | c # p \<Rightarrow> if c \<noteq> 0x2D then False else
         (case digits_upto 2 p of (mdig, p) \<Rightarrow>
          if mdig = 0 then False
          else
            (case p of [] \<Rightarrow> False | c # p \<Rightarrow> if c \<noteq> 0x2D then False else
             (case digits_upto 2 p of (ddig, p) \<Rightarrow>
              if ddig = 0 then False
              else if p = [] then mdig = 2 \<and> ddig = 2 else pyyaml_time p)))))"

definition full12 :: "byte list \<Rightarrow> yep_tag_id" where
  "full12 p =
     (if p = [0x3D] then 10
      else if p = [0x3C, 0x3C] then 9
      else
        let core = yep_core12_plain p in
        if core \<noteq> 0 then core
        else if 10 \<le> length p \<and> is_digit (hd p) \<and> pyyaml_timestamp p then 5 else 0)"

end
