(* ===== verification/Tags.thy ===== *)
theory Tags
  imports Resolve
begin

text \<open>
  The tag table and the value decoders of \<^verbatim>\<open>src/yeptris/resolve/tags.c\<close>. An \<^verbatim>\<open>int64_t\<close> is a
  \<open>64 word\<close> read with \<open>sint\<close>; \<^verbatim>\<open>yep_tag_int64\<close> returns \<open>None\<close> where the code returns
  nonzero. The conversions \<^verbatim>\<open>(int64_t)acc\<close> and the negation wrap.
\<close>

section \<open>Identity\<close>

definition k_core :: "(yep_tag_id \<times> byte list) list" where
  "k_core = map (\<lambda>(tid, uri). (tid, bytes_of uri))
     [(0, ''tag:yaml.org,2002:str''), (1, ''tag:yaml.org,2002:int''), (2, ''tag:yaml.org,2002:float''),
      (3, ''tag:yaml.org,2002:bool''), (4, ''tag:yaml.org,2002:null''), (5, ''tag:yaml.org,2002:timestamp''),
      (6, ''tag:yaml.org,2002:seq''), (7, ''tag:yaml.org,2002:map''), (8, ''tag:yaml.org,2002:binary''),
      (9, ''tag:yaml.org,2002:merge''), (10, ''tag:yaml.org,2002:value'')]"

definition yep_tag_uri :: "yep_tag_id \<Rightarrow> byte list option" where
  "yep_tag_uri tid = (if tid < length k_core then Some (snd (k_core ! tid)) else None)"

fun tag_scan :: "(yep_tag_id \<times> byte list) list \<Rightarrow> byte list \<Rightarrow> yep_tag_id" where
  "tag_scan [] p = 11"
| "tag_scan ((tid, uri) # entries) p = (if length uri = length p \<and> uri = p then tid else tag_scan entries p)"

definition yep_tag_from_uri :: "byte list \<Rightarrow> yep_tag_id" where
  "yep_tag_from_uri p = tag_scan k_core p"

definition float_words :: "(string \<times> string) list" where
  "float_words =
     [(''.inf'', ''.inf''), (''.Inf'', ''.inf''), (''.INF'', ''.inf''), (''-.inf'', ''-.inf''),
      (''-.Inf'', ''-.inf''), (''-.INF'', ''-.inf''), (''+.inf'', ''.inf''), (''+.Inf'', ''.inf''),
      (''+.INF'', ''.inf''), (''.nan'', ''.nan''), (''.NaN'', ''.nan''), (''.NAN'', ''.nan'')]"

definition yep_tag_float_word :: "byte list \<Rightarrow> byte list option" where
  "yep_tag_float_word p =
     map_option (\<lambda>e. bytes_of (snd e)) (find (\<lambda>e. p = bytes_of (fst e)) float_words)"

section \<open>Booleans\<close>

definition ascii_lower :: "byte \<Rightarrow> byte" where
  "ascii_lower c = (if 0x41 \<le> c \<and> c \<le> 0x5A then c - 0x41 + 0x61 else c)"

definition ci_eq :: "byte list \<Rightarrow> byte list \<Rightarrow> bool" where
  "ci_eq p s \<longleftrightarrow> length p = length s \<and> list_all2 (\<lambda>a b. ascii_lower a = ascii_lower b) p s"

fun bool_scan :: "string list \<Rightarrow> nat \<Rightarrow> byte list \<Rightarrow> int" where
  "bool_scan [] i p = -1"
| "bool_scan (w # ws) i p =
     (if ci_eq p (bytes_of w) then (if i < 4 then 1 else 0) else bool_scan ws (i + 1) p)"

definition yep_tag_bool_value :: "byte list \<Rightarrow> int" where
  "yep_tag_bool_value p =
     bool_scan [''y'', ''yes'', ''true'', ''on'', ''n'', ''no'', ''false'', ''off''] 0 p"

section \<open>Integers\<close>

definition acc_digit :: "u64 \<Rightarrow> nat \<Rightarrow> nat \<Rightarrow> u64 option" where
  "acc_digit acc base dv =
     (let na = acc * of_nat base in
      if na div of_nat base \<noteq> acc then None
      else
        let na = na + of_nat dv in
        if na < acc then None else Some na)"

definition digit_in_base :: "nat \<Rightarrow> byte \<Rightarrow> nat option" where
  "digit_in_base base c =
     (if is_digit c then Some (unat c - 0x30)
      else if base = 16 \<and> 0x61 \<le> c \<and> c \<le> 0x66 then Some (unat c - 0x61 + 10)
      else if base = 16 \<and> 0x41 \<le> c \<and> c \<le> 0x46 then Some (unat c - 0x41 + 10)
      else None)"

definition is_separator :: "byte \<Rightarrow> bool" where
  "is_separator c \<longleftrightarrow> c = 0x5F \<or> c = 0x2C"

fun int64_loop :: "nat \<Rightarrow> bool \<Rightarrow> byte list \<Rightarrow> u64 \<Rightarrow> bool \<Rightarrow> (u64 \<times> bool) option" where
  "int64_loop base v11 [] acc digits = Some (acc, digits)"
| "int64_loop base v11 (c # cs) acc digits =
     (case digit_in_base base c of
        None \<Rightarrow> if v11 \<and> is_separator c then int64_loop base v11 cs acc digits else None
      | Some dv \<Rightarrow>
          if base \<noteq> 16 \<and> base \<le> dv then None
          else (case acc_digit acc base dv of None \<Rightarrow> None | Some acc \<Rightarrow> int64_loop base v11 cs acc True))"

definition int64_radix :: "bool \<Rightarrow> nat \<Rightarrow> bool \<Rightarrow> byte list \<Rightarrow> u64 option" where
  "int64_radix neg base v11 d =
     (case int64_loop base v11 d 0 False of
        None \<Rightarrow> None
      | Some (acc, digits) \<Rightarrow>
          if \<not> digits then None
          else if neg \<and> acc = 2 ^ 63 then Some (2 ^ 63)
          else if 2 ^ 63 - 1 < acc then None
          else Some (if neg then - acc else acc))"

text \<open>The 1.1-compatible decimal walk with its separators, then the sexagesimal groups.\<close>

fun decimal_us :: "byte list \<Rightarrow> u64 \<Rightarrow> bool \<Rightarrow> (byte list \<times> u64 \<times> bool) option" where
  "decimal_us (c # cs) acc digits =
     (if is_digit c then
        (case acc_digit acc 10 (digit_val c) of None \<Rightarrow> None | Some acc \<Rightarrow> decimal_us cs acc True)
      else if is_separator c then decimal_us cs acc digits
      else Some (c # cs, acc, digits))"
| "decimal_us [] acc digits = Some ([], acc, digits)"

lemma digits_upto_length: "length (snd (digits_upto m p)) \<le> length p"
  by (induction m p rule: digits_upto.induct) (auto split: prod.splits)

lemma digits_upto_rest: "(k, r) = digits_upto m p \<Longrightarrow> length r \<le> length p"
  using digits_upto_length [of m p] by (metis snd_conv)

function sexa_groups :: "byte list \<Rightarrow> u64 \<Rightarrow> (byte list \<times> u64) option" where
  "sexa_groups p acc =
     (case p of
        c # cs \<Rightarrow>
          if c = 0x3A then
            (case digits_upto 2 cs of (gd, r) \<Rightarrow>
             let g = foldl (\<lambda>g c. g * 10 + digit_val c) 0 (take gd cs) in
             if gd < 1 \<or> 59 < g then None
             else (case acc_digit acc 60 g of None \<Rightarrow> None | Some acc \<Rightarrow> sexa_groups r acc))
          else Some (p, acc)
      | [] \<Rightarrow> Some (p, acc))"
  by pat_completeness auto

termination
  by (relation "measure (\<lambda>(p, _). length p)") (auto dest: digits_upto_rest simp: less_Suc_eq_le)

declare sexa_groups.simps [simp del]

definition int64_compat_decimal :: "bool \<Rightarrow> byte list \<Rightarrow> u64 option" where
  "int64_compat_decimal neg q =
     (case decimal_us q 0 False of
        None \<Rightarrow> None
      | Some (r, acc, digits) \<Rightarrow>
          if r \<noteq> [] \<and> hd r = 0x3A then
            (case sexa_groups r acc of
               None \<Rightarrow> None
             | Some (r, acc) \<Rightarrow> if r = [] then Some (if neg then - acc else acc) else None)
          else if r = [] \<and> digits then Some (if neg then - acc else acc)
          else None)"

text \<open>
  After a \<^verbatim>\<open>0x_\<close> or \<^verbatim>\<open>0b_\<close> prefix that ends the scalar the code reads the byte after the view
  before it fails; the model takes that byte as absent, and the answer is the same either way.
\<close>

definition int64_underscore :: "bool \<Rightarrow> nat \<Rightarrow> byte list \<Rightarrow> u64 option" where
  "int64_underscore neg base d =
     (if hd d = 0x5F then
        (if tl d \<noteq> [] \<and> hd (tl d) = 0x5F then None else int64_radix neg base True (tl d))
      else int64_radix neg base True d)"

definition yep_tag_int64 :: "byte list \<Rightarrow> bool \<Rightarrow> u64 option" where
  "yep_tag_int64 p v11 =
     (if p = [] then None
      else
        let neg = (hd p = 0x2D); q = skip_sign p in
        if q = [] then None
        else if 2 < length q \<and> q ! 0 = 0x30 \<and> q ! 1 = 0x78 then
          (if v11 then int64_underscore neg 16 (drop 2 q) else int64_radix neg 16 v11 (drop 2 q))
        else if 2 < length q \<and> q ! 0 = 0x30 \<and> q ! 1 = 0x6F then
          (if v11 then None else int64_radix neg 8 v11 (drop 2 q))
        else if v11 \<and> 2 < length q \<and> q ! 0 = 0x30 \<and> q ! 1 = 0x62 then int64_underscore neg 2 (drop 2 q)
        else if v11 \<and> q ! 0 = 0x30 \<and> 2 \<le> length q then
          (let d = dropWhile (\<lambda>c. c = 0x5F) (drop 1 q) in
           if d = [] then Some 0 else int64_radix neg 8 v11 d)
        else if v11 \<and> q ! 0 = 0x30 \<and> length q = 1 then Some 0
        else if v11 \<and> is_digit (q ! 0) then int64_compat_decimal neg q
        else int64_radix neg 10 v11 q)"

end
