(* ===== verification/Compat11.thy ===== *)
theory Compat11
  imports Tags
begin

text \<open>
  The 1.1-compatible classifier, \<^verbatim>\<open>src/yeptris/resolve/compat11.c\<close>. Its body is a sequence of
  attempts; an attempt that does not decide falls through to the next, so each one is a
  definition that returns \<open>None\<close> to fall through and \<open>Some\<close> the returned tag otherwise.
\<close>

definition is_digits_us :: "byte list \<Rightarrow> bool" where
  "is_digits_us p \<longleftrightarrow>
     (if p = [] then False
      else if \<not> list_all (\<lambda>c. is_digit c \<or> c = 0x5F) p then False else hd p \<noteq> 0x5F)"

section \<open>Timestamps\<close>

text \<open>
  The clock loop over \<^verbatim>\<open>f[fi]\<close>: it stops at the first byte that is neither a colon nor a
  digit, or with \<open>ok\<close> false. State: the fields read so far (\<open>fi\<close> is the index of the current
  one), whether a colon was seen; result: \<open>ok\<close>, the fields, \<open>fi\<close>, \<open>seen\<close> and the rest.
\<close>

fun clock_loop ::
    "byte list \<Rightarrow> nat list \<Rightarrow> nat \<Rightarrow> bool \<Rightarrow> bool \<times> nat list \<times> nat \<times> bool \<times> byte list" where
  "clock_loop [] f fi seen = (True, f, fi, seen, [])"
| "clock_loop (c # cs) f fi seen =
     (if c = 0x3A then
        (if f ! fi < 1 \<or> 2 < f ! fi \<or> 2 \<le> fi then (False, f, fi, seen, c # cs)
         else clock_loop cs f (fi + 1) True)
      else if is_digit c \<and> fi \<le> 2 then
        (let f' = f[fi := f ! fi + 1] in
         if 2 < f' ! fi then (False, f', fi, seen, c # cs) else clock_loop cs f' fi seen)
      else (True, f, fi, seen, c # cs))"

text \<open>
  The zone-offset loop: digits, and a colon only after exactly two of them (the inner test
  \<^verbatim>\<open>od != 2\<close> cannot fire, the loop condition already asks for it). Result: digit count and rest.
\<close>

fun offset_loop :: "byte list \<Rightarrow> nat \<Rightarrow> nat \<times> byte list" where
  "offset_loop [] od = (od, [])"
| "offset_loop (c # cs) od =
     (if is_digit c then offset_loop cs (od + 1)
      else if od = 2 \<and> c = 0x3A then offset_loop cs od
      else (od, c # cs))"

definition compat_fraction :: "byte list \<Rightarrow> bool \<times> byte list" where
  "compat_fraction p =
     (if p \<noteq> [] \<and> hd p = 0x2E then
        let r = dropWhile is_digit (tl p) in (length r \<noteq> length (tl p), r)
      else (True, p))"

definition compat_zone :: "byte list \<Rightarrow> bool" where
  "compat_zone p =
     (case dropWhile (\<lambda>c. c = 0x20) p of
        [] \<Rightarrow> True
      | c # cs \<Rightarrow>
          if c = 0x5A then cs = []
          else if is_sign c then
            (case offset_loop cs 0 of (od, r) \<Rightarrow> \<not> (od < 1 \<or> 4 < od) \<and> r = [])
          else False)"

definition compat_time :: "byte list \<Rightarrow> bool" where
  "compat_time p =
     (case clock_loop p [0, 0, 0] 0 False of
        (ok, f, fi, seen, r) \<Rightarrow>
          if ok \<and> seen \<and> fi = 2 \<and> f ! 2 = 2 then
            (case compat_fraction r of (ok, r) \<Rightarrow> ok \<and> compat_zone r)
          else False)"

definition compat_timestamp :: "byte list \<Rightarrow> yep_tag_id option" where
  "compat_timestamp q =
     (case digits_upto 4 q of (digs, p) \<Rightarrow>
      if digs = 4 \<and> 1 < length p \<and> hd p = 0x2D then
        (case digits_upto 2 (tl p) of (m1, p) \<Rightarrow>
         if 1 \<le> m1 \<and> 1 < length p \<and> hd p = 0x2D then
           (case digits_upto 2 (tl p) of (m2, p) \<Rightarrow>
            if 1 \<le> m2 then
              (if p = [] then Some 5
               else if hd p = 0x54 \<or> hd p = 0x74 \<or> hd p = 0x20 then
                 (if compat_time (tl p) then Some 5 else None)
               else None)
            else None)
         else None)
      else None)"

section \<open>Sexagesimal numbers\<close>

text \<open>The group loop: \<open>None\<close> when a group is bad, else the number of groups and the rest.\<close>

function compat_groups :: "byte list \<Rightarrow> nat \<Rightarrow> (nat \<times> byte list) option" where
  "compat_groups p groups =
     (case p of
        c # cs \<Rightarrow>
          if c = 0x3A then
            let r = dropWhile is_digit cs; d = length cs - length r in
            if d < 1 \<or> 2 < d \<or> 2 < groups + 1 then None
            else if d = 2 \<and> 0x35 < cs ! 0 then None
            else compat_groups r (groups + 1)
          else Some (groups, p)
      | [] \<Rightarrow> Some (groups, p))"
  by pat_completeness auto
termination
  by (relation "measure (\<lambda>(p, _). length p)") (auto simp: less_Suc_eq_le length_dropWhile_le)

declare compat_groups.simps [simp del]

definition compat_sexagesimal :: "byte list \<Rightarrow> yep_tag_id option" where
  "compat_sexagesimal q =
     (if q \<noteq> [] \<and> is_digit (hd q) then
        let r = dropWhile (\<lambda>c. is_digit c \<or> c = 0x5F) (tl q) in
        if r \<noteq> [] \<and> hd r = 0x3A then
          (case compat_groups r 0 of
             None \<Rightarrow> None
           | Some (groups, r) \<Rightarrow>
               let is_float = (r \<noteq> [] \<and> hd r = 0x2E);
                   r = (if is_float then dropWhile (\<lambda>c. is_digit c \<or> c = 0x5F) (tl r) else r)
               in if r = [] \<and> 1 \<le> groups then Some (if is_float then 2 else 1) else None)
        else None
      else None)"

section \<open>Radix and decimal forms\<close>

definition compat_hex :: "byte list \<Rightarrow> yep_tag_id" where
  "compat_hex d =
     (let d = (if hd d = 0x5F then tl d else d) in
      if \<not> list_all (\<lambda>c. is_hex c \<or> c = 0x5F) d then 0
      else if \<not> list_all (\<lambda>c. c = 0x5F) d then 1 else 0)"

definition compat_octal :: "byte list \<Rightarrow> yep_tag_id option" where
  "compat_octal q =
     (let k = dropWhile (\<lambda>c. c = 0x5F) (tl q);
          r = dropWhile (\<lambda>c. is_octal c \<or> c = 0x5F) k;
          d = (\<not> list_all (\<lambda>c. c = 0x5F) (takeWhile (\<lambda>c. is_octal c \<or> c = 0x5F) k))
      in if d \<and> r = [] then Some 1
         else if \<not> d \<and> r = [] \<and> last q = 0x30 then Some 1
         else None)"

function compat_decimal :: "byte list \<Rightarrow> bool \<Rightarrow> bool \<Rightarrow> bool \<Rightarrow> bool \<Rightarrow> bool \<Rightarrow> yep_tag_id" where
  "compat_decimal [] digits dot e ed esigned =
     (if digits \<and> dot \<and> (\<not> e \<or> ed \<and> esigned) then 2 else if digits \<and> \<not> dot \<and> \<not> e then 1 else 0)"
| "compat_decimal (c # cs) digits dot e ed esigned =
     (if is_digit c then
        (if e then compat_decimal cs digits dot e True esigned else compat_decimal cs True dot e ed esigned)
      else if is_separator c \<and> \<not> e then compat_decimal cs digits dot e ed esigned
      else if c = 0x2E \<and> \<not> e then (if dot then 0 else compat_decimal cs digits True e ed esigned)
      else if is_exp c \<and> digits \<and> \<not> e then
        (if cs \<noteq> [] \<and> is_sign (hd cs) then compat_decimal (tl cs) digits dot True ed True
         else compat_decimal cs digits dot True ed esigned)
      else 0)"
  by pat_completeness auto
termination
  by (relation "measure (\<lambda>(p, _). length p)") (auto simp: less_Suc_eq_le)

section \<open>The classifier\<close>

definition compat11 :: "byte list \<Rightarrow> yep_tag_id" where
  "compat11 p =
     (if p = [] \<or> p = bytes_of ''~'' \<or> ci_eq p (bytes_of ''null'') then 4
      else if 0 \<le> yep_tag_bool_value p then 3
      else if p = bytes_of ''='' then 10
      else if p = bytes_of ''<<'' then 9
      else
        let q = skip_sign p in
        if q = [] then 0
        else
          (case compat_timestamp q of
             Some tag \<Rightarrow> tag
           | None \<Rightarrow>
               if 1 < length q \<and> hd q = 0x2E \<and> (ci_eq q (bytes_of ''.inf'') \<or> ci_eq q (bytes_of ''.nan''))
               then 2
               else
                 (case compat_sexagesimal q of
                    Some tag \<Rightarrow> tag
                  | None \<Rightarrow>
                      if 2 < length q \<and> q ! 0 = 0x30 \<and> (q ! 1 = 0x62 \<or> q ! 1 = 0x42) then
                        (if is_digits_us (drop 2 q) then 1 else 0)
                      else if 2 < length q \<and> q ! 0 = 0x30 \<and> q ! 1 = 0x78 then compat_hex (drop 2 q)
                      else
                        (case (if 2 \<le> length q \<and> q ! 0 = 0x30 then compat_octal q else None) of
                           Some tag \<Rightarrow> tag
                         | None \<Rightarrow> compat_decimal q False False False False False))))"

end
