(* ===== verification/Lang.thy ===== *)
theory Lang
  imports Resolve
begin

text \<open>
  Regular languages of byte strings, the form in which the schema documents state their
  productions, and how the deterministic loops of the classifiers decide them: a loop that
  consumes a run of bytes decides a concatenation when what follows cannot start with such a
  byte (\<open>avoids\<close>).
\<close>

section \<open>Languages of byte strings\<close>

type_synonym blang = "byte list set"

definition conc :: "blang \<Rightarrow> blang \<Rightarrow> blang" where
  "conc A B = {x @ y | x y. x \<in> A \<and> y \<in> B}"

definition opt :: "blang \<Rightarrow> blang" where
  "opt A = insert [] A"

definition chr1 :: "(byte \<Rightarrow> bool) \<Rightarrow> blang" where
  "chr1 P = {[c] | c. P c}"

definition many :: "(byte \<Rightarrow> bool) \<Rightarrow> blang" where
  "many P = {xs. list_all P xs}"

definition some1 :: "(byte \<Rightarrow> bool) \<Rightarrow> blang" where
  "some1 P = {xs. xs \<noteq> [] \<and> list_all P xs}"

definition between :: "nat \<Rightarrow> nat \<Rightarrow> (byte \<Rightarrow> bool) \<Rightarrow> blang" where
  "between a b P = {xs. a \<le> length xs \<and> length xs \<le> b \<and> list_all P xs}"

definition words :: "string list \<Rightarrow> blang" where
  "words ws = bytes_of ` set ws"

definition lit :: "string \<Rightarrow> blang" where
  "lit w = {bytes_of w}"

text \<open>No word of a language begins with a byte in \<open>P\<close>.\<close>

definition avoids :: "(byte \<Rightarrow> bool) \<Rightarrow> blang \<Rightarrow> bool" where
  "avoids P A \<longleftrightarrow> (\<forall>x. x \<in> A \<longrightarrow> x \<noteq> [] \<longrightarrow> \<not> P (hd x))"

lemma concI: "x \<in> A \<Longrightarrow> y \<in> B \<Longrightarrow> x @ y \<in> conc A B"
  by (auto simp: conc_def)

lemma concE:
  assumes "p \<in> conc A B"
  obtains x y where "p = x @ y" "x \<in> A" "y \<in> B"
  using assms by (auto simp: conc_def)

lemma conc_chr1: "p \<in> conc (chr1 P) B \<longleftrightarrow> p \<noteq> [] \<and> P (hd p) \<and> tl p \<in> B"
proof
  assume "p \<in> conc (chr1 P) B"
  then show "p \<noteq> [] \<and> P (hd p) \<and> tl p \<in> B" by (auto simp: conc_def chr1_def)
next
  assume *: "p \<noteq> [] \<and> P (hd p) \<and> tl p \<in> B"
  then have "[hd p] @ tl p \<in> conc (chr1 P) B" by (intro concI) (simp_all add: chr1_def)
  with * show "p \<in> conc (chr1 P) B" by simp
qed

lemma conc_opt: "p \<in> conc (opt A) B \<longleftrightarrow> p \<in> B \<or> p \<in> conc A B"
  by (auto simp: conc_def opt_def)

lemma conc_assoc: "conc (conc A B) C = conc A (conc B C)"
  by (auto simp: conc_def) (metis append.assoc)+

lemma conc_lit2: "p \<in> conc (lit [a, b]) B \<longleftrightarrow>
    2 \<le> length p \<and> p ! 0 = of_char a \<and> p ! 1 = of_char b \<and> drop 2 p \<in> B"
  by (cases p; cases "tl p") (auto simp: conc_def lit_def)

lemma many_split:
  assumes "avoids P B"
  shows "p \<in> conc (many P) B \<longleftrightarrow> dropWhile P p \<in> B"
proof
  assume "p \<in> conc (many P) B"
  then obtain x y where p: "p = x @ y" "list_all P x" "y \<in> B" by (auto simp: conc_def many_def)
  moreover have "dropWhile P y = y" using assms p(3) by (cases y) (auto simp: avoids_def)
  ultimately show "dropWhile P p \<in> B" by (simp add: list_all_iff dropWhile_append)
next
  assume "dropWhile P p \<in> B"
  moreover have "list_all P (takeWhile P p)" by (auto simp: list_all_iff dest: set_takeWhileD)
  ultimately have "takeWhile P p @ dropWhile P p \<in> conc (many P) B" by (intro concI) (simp_all add: many_def)
  then show "p \<in> conc (many P) B" by simp
qed

lemma some1_eq: "some1 P = conc (chr1 P) (many P)"
proof (rule set_eqI)
  show "p \<in> some1 P \<longleftrightarrow> p \<in> conc (chr1 P) (many P)" for p
    unfolding conc_chr1 by (cases p) (simp_all add: some1_def many_def)
qed

lemma some1_split:
  assumes "avoids P B"
  shows "p \<in> conc (some1 P) B \<longleftrightarrow> p \<noteq> [] \<and> P (hd p) \<and> dropWhile P p \<in> B"
  unfolding some1_eq conc_assoc conc_chr1 using many_split [OF assms] by (cases p) auto

lemma digits_upto_split:
  assumes "digits_upto m p = (k, r)"
  shows "\<exists>x. p = x @ r \<and> length x = k \<and> list_all is_digit x \<and> k \<le> m"
  using assms
proof (induction m p arbitrary: k r rule: digits_upto.induct)
  case (1 m c cs)
  show ?case
  proof (cases "is_digit c")
    case True
    then obtain k' where k': "digits_upto m cs = (k', r)" "k = Suc k'"
      using 1(2) by (auto split: prod.splits)
    from 1(1) [OF True k'(1)] obtain x where "cs = x @ r" "length x = k'" "list_all is_digit x" "k' \<le> m" by auto
    with True k'(2) show ?thesis by (intro exI [of _ "c # x"]) simp
  next
    case False
    with 1(2) show ?thesis by simp
  qed
qed auto

lemma digits_upto_append:
  assumes "list_all is_digit x" and "length x \<le> m" and "length x = m \<or> r = [] \<or> \<not> is_digit (hd r)"
  shows "digits_upto m (x @ r) = (length x, r)"
  using assms
proof (induction x arbitrary: m)
  case Nil
  then show ?case by (cases r; cases m) auto
next
  case (Cons c x)
  then show ?case by (cases m) auto
qed

lemma between_split:
  assumes "avoids is_digit B"
  shows "p \<in> conc (between a b is_digit) B \<longleftrightarrow> a \<le> fst (digits_upto b p) \<and> snd (digits_upto b p) \<in> B"
proof -
  obtain k r where kr: "digits_upto b p = (k, r)" by (cases "digits_upto b p")
  then obtain x where x: "p = x @ r" "length x = k" "list_all is_digit x" "k \<le> b"
    by (auto dest: digits_upto_split)
  have "a \<le> k \<and> r \<in> B" if "p = u @ v" "a \<le> length u" "length u \<le> b" "list_all is_digit u" "v \<in> B" for u v
  proof -
    have "digits_upto b p = (length u, v)"
      using that assms digits_upto_append [of u b v] by (auto simp: avoids_def)
    with kr that show ?thesis by simp
  qed
  moreover have "p \<in> conc (between a b is_digit) B" if "a \<le> k" "r \<in> B"
    unfolding x(1) using x that by (intro concI) (simp_all add: between_def)
  ultimately show ?thesis using kr by (auto simp: between_def elim!: concE)
qed

end
