(* ===== verification/Resolve_Facts.thy ===== *)
theory Resolve_Facts
  imports Lang
begin

text \<open>
  The core, JSON and full classifiers decide the productions of their schemas.
\<close>

section \<open>The productions\<close>

abbreviation ch :: "byte \<Rightarrow> blang" where
  "ch b \<equiv> chr1 (\<lambda>c. c = b)"

text \<open>
  The table of YAML 1.2.2, section 10.3.2: null, bool, float, and the integers \<open>yaml_int\<close>, in which only a decimal integer may
  carry a sign. The expressions at the head of core12.c also allow a sign in front of an octal or a hexadecimal integer; \<open>core_int\<close>
  is that language and \<open>signed_radix\<close> the difference.
\<close>

definition sign_opt :: blang where
  "sign_opt = opt (chr1 is_sign)"

definition core_null :: blang where
  "core_null = words [[], ''~'', ''null'', ''Null'', ''NULL'']"

definition core_bool :: blang where
  "core_bool = words [''true'', ''True'', ''TRUE'', ''false'', ''False'', ''FALSE'']"

definition radix_int :: blang where
  "radix_int = conc (lit ''0o'') (some1 is_octal) \<union> conc (lit ''0x'') (some1 is_hex)"

definition yaml_int :: blang where
  "yaml_int = conc sign_opt (some1 is_digit) \<union> radix_int"

definition signed_radix :: blang where
  "signed_radix = conc (chr1 is_sign) radix_int"

definition core_int :: blang where
  "core_int = conc sign_opt (some1 is_digit \<union> conc (lit ''0o'') (some1 is_octal) \<union>
     conc (lit ''0x'') (some1 is_hex))"

definition exponent :: blang where
  "exponent = conc (chr1 is_exp) (conc sign_opt (some1 is_digit))"

definition mantissa :: blang where
  "mantissa = conc (ch 0x2E) (some1 is_digit) \<union>
     conc (some1 is_digit) (opt (conc (ch 0x2E) (many is_digit)))"

definition core_float :: blang where
  "core_float = conc sign_opt (conc mantissa (opt exponent)) \<union>
     conc sign_opt (words [''.inf'', ''.Inf'', ''.INF'']) \<union> words [''.nan'', ''.NaN'', ''.NAN'']"

definition yaml_core12 :: "byte list \<Rightarrow> yep_tag_id" where
  "yaml_core12 p =
     (if p \<in> core_null then 4 else if p \<in> core_bool then 3 else if p \<in> yaml_int then 1
      else if p \<in> core_float then 2 else 0)"

text \<open>What the classifier computes, with its own integers.\<close>

definition core12_spec :: "byte list \<Rightarrow> yep_tag_id" where
  "core12_spec p =
     (if p \<in> core_null then 4 else if p \<in> core_bool then 3 else if p \<in> core_int then 1
      else if p \<in> core_float then 2 else 0)"

section \<open>Scanning the productions\<close>

lemma bit_20: "bit (0x20 :: byte) n \<longleftrightarrow> n = 5"
proof -
  have "(0x20 :: byte) = 2 ^ 5" by simp
  then show ?thesis by (simp only: bit_exp_iff possible_bit_word) auto
qed
lemma or_20_eq:
  fixes c v :: byte
  assumes "c OR 0x20 = v"
  shows "c = v \<or> c = v AND NOT 0x20"
proof (cases "bit c 5")
  case True
  have "c OR 0x20 = c"
  proof (rule bit_word_eqI)
    fix n
    show "bit (c OR 0x20) n \<longleftrightarrow> bit c n"
      using True by (auto simp only: bit_or_iff bit_20)
  qed
  with assms show ?thesis by simp
next
  case False
  have "(c OR 0x20) AND NOT 0x20 = c"
  proof (rule bit_word_eqI)
    fix n assume "n < LENGTH(8)"
    then show "bit ((c OR 0x20) AND NOT 0x20) n \<longleftrightarrow> bit c n"
      using False by (auto simp only: bit_and_iff bit_or_iff bit_not_iff bit_20 possible_bit_word)
  qed
  with assms show ?thesis by auto
qed

lemma lower_case_eq:
  fixes c :: byte
  shows "c OR 0x20 = 0x6E \<longleftrightarrow> c = 0x6E \<or> c = 0x4E" "c OR 0x20 = 0x74 \<longleftrightarrow> c = 0x74 \<or> c = 0x54"
  "c OR 0x20 = 0x66 \<longleftrightarrow> c = 0x66 \<or> c = 0x46" "c OR 0x20 = 0x79 \<longleftrightarrow> c = 0x79 \<or> c = 0x59"
  using or_20_eq [of c "0x6E"] or_20_eq [of c "0x74"] or_20_eq [of c "0x66"] or_20_eq [of c "0x79"] by auto

lemma digit_consts [simp]:
  "\<not> is_digit 0x2D" "\<not> is_digit 0x2B" "\<not> is_digit 0x2E" "\<not> is_digit 0x65" "\<not> is_digit 0x45"
  "\<not> is_digit 0x20" "\<not> is_digit 0x09" "\<not> is_digit 0x3A" "\<not> is_digit 0x5A" "\<not> is_digit 0x54"
  "\<not> is_digit 0x74" "\<not> is_digit 0x78" "\<not> is_digit 0x6F" "\<not> is_digit 0x7E"
  by (simp_all add: is_digit_def)

lemmas char_defs = is_sign_def is_exp_def is_blank_def

lemma sign_split:
  assumes "avoids is_sign B"
  shows "p \<in> conc sign_opt B \<longleftrightarrow> skip_sign p \<in> B"
  using assms unfolding sign_opt_def conc_opt conc_chr1
  by (cases p) (auto simp: skip_sign_def avoids_def)

lemma avoids_some1: "(\<And>c. Q c \<Longrightarrow> \<not> P c) \<Longrightarrow> avoids P (some1 Q)"
  by (auto simp: avoids_def some1_def neq_Nil_conv)

lemma avoids_digits: "avoids is_sign (some1 is_digit)"
  by (rule avoids_some1) (auto simp: is_sign_def)

lemma exponent_iff:
  "r \<in> exponent \<longleftrightarrow> r \<noteq> [] \<and> is_exp (hd r) \<and> skip_sign (tl r) \<in> some1 is_digit"
  unfolding exponent_def conc_chr1 sign_split [OF avoids_digits] ..

lemma avoids_exponent: "avoids is_digit (opt exponent)"
  by (auto simp: avoids_def opt_def exponent_iff char_defs)

definition frac_exp :: "byte list \<Rightarrow> bool" where
  "frac_exp r \<longleftrightarrow> r \<in> opt exponent \<or> r \<noteq> [] \<and> hd r = 0x2E \<and> dropWhile is_digit (tl r) \<in> opt exponent"

lemma mantissa_iff:
  "q \<in> conc mantissa (opt exponent) \<longleftrightarrow>
     q \<noteq> [] \<and> (hd q = 0x2E \<and> tl q \<noteq> [] \<and> is_digit (hd (tl q)) \<and> dropWhile is_digit (tl q) \<in> opt exponent \<or>
                is_digit (hd q) \<and> frac_exp (dropWhile is_digit q))"
proof -
  have un: "conc (A \<union> B) C = conc A C \<union> conc B C" for A B C by (auto simp: conc_def)
  have av: "avoids is_digit (conc (opt (conc (ch 0x2E) (many is_digit))) (opt exponent))"
    using avoids_exponent by (auto simp: avoids_def conc_opt conc_assoc conc_chr1)
  have "r \<in> conc (opt (conc (ch 0x2E) (many is_digit))) (opt exponent) \<longleftrightarrow> frac_exp r" for r
    unfolding conc_opt conc_assoc conc_chr1 many_split [OF avoids_exponent] frac_exp_def by auto
  then show ?thesis
    unfolding mantissa_def un conc_assoc Un_iff some1_split [OF av] conc_chr1 some1_split [OF avoids_exponent] by auto
qed

lemma loop_exp:
  "core_num_loop p True dot True ed = (if list_all is_digit p \<and> (ed \<or> p \<noteq> []) then 2 else 0)"
  by (induction p arbitrary: ed) simp_all

lemma loop_dot:
  "core_num_loop p digits True False False =
     (if (digits \<or> p \<noteq> [] \<and> is_digit (hd p)) \<and> dropWhile is_digit p \<in> opt exponent then 2 else 0)"
proof (induction p arbitrary: digits)
  case Nil
  then show ?case by (simp add: opt_def)
next
  case (Cons c p)
  then show ?case
    by (auto simp: opt_def exponent_iff loop_exp some1_def char_defs)
qed

lemma loop_int:
  "core_num_loop p digits False False False =
     (let r = dropWhile is_digit p; d = digits \<or> p \<noteq> [] \<and> is_digit (hd p) in
      if r = [] then if d then 1 else 0
      else if hd r = 0x2E then core_num_loop (tl r) d True False False
      else if d \<and> r \<in> exponent then 2 else 0)"
proof (induction p arbitrary: digits)
  case Nil
  then show ?case by simp
next
  case (Cons c p)
  then show ?case
    by (auto simp: exponent_iff loop_exp some1_def char_defs Let_def)
qed

lemma core_num_loop_iff:
  "core_num_loop q False False False False =
     (if q \<in> some1 is_digit then 1 else if q \<in> conc mantissa (opt exponent) then 2 else 0)"
proof (cases q)
  case Nil
  then show ?thesis by (simp add: some1_def mantissa_iff)
next
  case (Cons c cs)
  have "q \<in> some1 is_digit \<longleftrightarrow> is_digit c \<and> dropWhile is_digit q = []"
    by (auto simp: some1_def Cons list_all_iff)
  moreover have "frac_exp r \<longleftrightarrow> r = [] \<or> r \<in> exponent \<or>
      r \<noteq> [] \<and> hd r = 0x2E \<and> dropWhile is_digit (tl r) \<in> opt exponent" for r
    by (auto simp: frac_exp_def opt_def)
  moreover have "r \<in> exponent \<Longrightarrow> hd r \<noteq> 0x2E" for r by (auto simp: exponent_iff char_defs)
  moreover consider "is_digit c" | "c = 0x2E" | "\<not> is_digit c" "c \<noteq> 0x2E" by blast
  ultimately show ?thesis
    by cases (simp_all add: loop_int loop_dot Let_def mantissa_iff Cons)
qed

lemma core_number_iff:
  "core_number r has_sign =
    (if r \<in> some1 is_digit \<union> conc (lit ''0o'') (some1 is_octal) \<union> conc (lit ''0x'') (some1 is_hex) then 1
     else if r \<in> conc mantissa (opt exponent) \<union> words [''.inf'', ''.Inf'', ''.INF''] \<or>
       \<not> has_sign \<and> r \<in> words [''.nan'', ''.NaN'', ''.NAN''] then 2 else 0)"
proof -
  let ?w = "r \<in> words [''.inf'', ''.Inf'', ''.INF''] \<or> \<not> has_sign \<and> r \<in> words [''.nan'', ''.NaN'', ''.NAN'']"
  have w: "length r = 4 \<and> hd r = 0x2E \<and>
      (r = bytes_of ''.inf'' \<or> r = bytes_of ''.Inf'' \<or> r = bytes_of ''.INF'' \<or>
       \<not> has_sign \<and> (r = bytes_of ''.nan'' \<or> r = bytes_of ''.NaN'' \<or> r = bytes_of ''.NAN'')) \<longleftrightarrow> ?w"
    by (auto simp: words_def)
  have lits: "r \<in> conc (lit ''0o'') (some1 is_octal) \<longleftrightarrow>
        2 < length r \<and> r ! 0 = 0x30 \<and> r ! 1 = 0x6F \<and> list_all is_octal (drop 2 r)"
      "r \<in> conc (lit ''0x'') (some1 is_hex) \<longleftrightarrow>
        2 < length r \<and> r ! 0 = 0x30 \<and> r ! 1 = 0x78 \<and> list_all is_hex (drop 2 r)"
    by (auto simp: conc_lit2 some1_def)
  have prefix: "r \<notin> some1 is_digit" "r \<notin> conc mantissa (opt exponent)"
    if "2 < length r" "r ! 0 = 0x30" "r ! 1 = 0x78 \<or> r ! 1 = 0x6F"
  proof -
    note pre = that
    obtain c rest where r: "r = 0x30 # c # rest" "c = 0x78 \<or> c = 0x6F"
      using pre by (cases r; cases "tl r") auto
    then have d: "\<not> is_digit c" "is_digit 0x30" by (auto simp: is_digit_def)
    then show "r \<notin> some1 is_digit" by (simp add: r some1_def)
    show "r \<notin> conc mantissa (opt exponent)"
      unfolding mantissa_iff frac_exp_def using r d by (auto simp: opt_def exponent_iff is_exp_def)
  qed
  have rhs: "r \<in> A \<union> B \<or> \<not> has_sign \<and> r \<in> C \<longleftrightarrow> r \<in> A \<or> r \<in> B \<or> \<not> has_sign \<and> r \<in> C" for A B C by blast
  have start: "r \<noteq> [] \<and> r \<notin> some1 is_digit \<and> r ! 0 \<noteq> 0x30" if ?w
    using that by (auto simp: words_def some1_def)
  consider "r = []" | "2 < length r" "r ! 0 = 0x30" "r ! 1 = 0x78" | "2 < length r" "r ! 0 = 0x30" "r ! 1 = 0x6F"
    | "r \<noteq> []" "\<not> (2 < length r \<and> r ! 0 = 0x30 \<and> r ! 1 = 0x78)" "\<not> (2 < length r \<and> r ! 0 = 0x30 \<and> r ! 1 = 0x6F)"
    by blast
  then show ?thesis
  proof cases
    case 1
    then show ?thesis using start unfolding core_number_def Un_iff lits rhs by (auto simp: some1_def mantissa_iff)
  next
    case 2
    then have "\<not> ?w" using start by blast
    with 2 prefix show ?thesis unfolding core_number_def w Un_iff lits rhs by auto
  next
    case 3
    then have "\<not> ?w" using start by blast
    with 3 prefix show ?thesis unfolding core_number_def w Un_iff lits rhs by auto
  next
    case 4
    then show ?thesis using start unfolding core_number_def w Un_iff lits rhs core_num_loop_iff by auto
  qed
qed

lemma avoids_words: "list_all (\<lambda>w. w = [] \<or> \<not> P (of_char (hd w))) ws \<Longrightarrow> avoids P (words ws)"
  by (auto simp: avoids_def words_def list_all_iff bytes_of_def hd_map)

lemma avoids_Un: "avoids P (A \<union> B) \<longleftrightarrow> avoids P A \<and> avoids P B"
  by (auto simp: avoids_def)

lemma avoids_lit2: "avoids P (conc (lit [a, b]) B) \<longleftrightarrow> \<not> P (of_char a) \<or> B = {}"
  by (auto simp: avoids_def conc_def lit_def)

lemma core_int_iff:
  "p \<in> core_int \<longleftrightarrow>
     skip_sign p \<in> some1 is_digit \<union> conc (lit ''0o'') (some1 is_octal) \<union> conc (lit ''0x'') (some1 is_hex)"
  unfolding core_int_def
  by (rule sign_split) (simp add: avoids_Un avoids_digits avoids_lit2, simp add: is_sign_def)

lemma core_float_iff:
  "p \<in> core_float \<longleftrightarrow>
     skip_sign p \<in> conc mantissa (opt exponent) \<union> words [''.inf'', ''.Inf'', ''.INF''] \<or>
     p \<in> words [''.nan'', ''.NaN'', ''.NAN'']"
proof -
  have 1: "avoids is_sign (conc mantissa (opt exponent))"
    unfolding avoids_def mantissa_iff by (auto simp: is_sign_def)
  have 2: "avoids is_sign (words [''.inf'', ''.Inf'', ''.INF''])"
    by (rule avoids_words) (simp add: is_sign_def)
  show ?thesis unfolding core_float_def Un_iff sign_split [OF 1] sign_split [OF 2] by blast
qed

lemma lit_start: "p \<in> conc (lit (a # w)) B \<Longrightarrow> p \<noteq> [] \<and> hd p = of_char a"
  by (auto simp: conc_def lit_def)

lemma core_number_start:
  assumes "p \<in> core_int \<or> p \<in> core_float"
  shows "p \<noteq> [] \<and> (is_digit (hd p) \<or> is_sign (hd p) \<or> hd p = 0x2E)"
proof -
  have d: "is_digit 0x30" by (simp add: is_digit_def)
  have "skip_sign p \<noteq> [] \<and> (is_digit (hd (skip_sign p)) \<or> hd (skip_sign p) = 0x2E) \<or> p \<noteq> [] \<and> hd p = 0x2E"
    using assms unfolding core_int_iff core_float_iff Un_iff mantissa_iff
    by (auto dest!: lit_start simp: words_def some1_def neq_Nil_conv d)
  then show ?thesis by (cases p) (auto simp: skip_sign_def split: if_splits)
qed

lemma core12_is_spec: "yep_core12_plain p = core12_spec p"
proof (cases p)
  case Nil
  then show ?thesis by (simp add: yep_core12_plain_def core12_spec_def core_null_def words_def)
next
  case (Cons c cs)
  have null: "p \<in> core_null \<longleftrightarrow> p = [0x7E] \<or> p = bytes_of ''null'' \<or> p = bytes_of ''Null'' \<or> p = bytes_of ''NULL''"
    and bool: "p \<in> core_bool \<longleftrightarrow> p = bytes_of ''true'' \<or> p = bytes_of ''True'' \<or> p = bytes_of ''TRUE'' \<or>
      p = bytes_of ''false'' \<or> p = bytes_of ''False'' \<or> p = bytes_of ''FALSE''"
    by (auto simp: core_null_def core_bool_def words_def Cons)
  show ?thesis
  proof (cases "is_digit c \<or> is_sign c \<or> c = 0x2E")
    case True
    have nan: "p \<in> words [''.nan'', ''.NaN'', ''.NAN''] \<longleftrightarrow>
        \<not> is_sign c \<and> skip_sign p \<in> words [''.nan'', ''.NaN'', ''.NAN'']"
      using Cons by (auto simp: words_def skip_sign_def is_sign_def)
    have lead: "c OR 0x20 \<noteq> 0x6E" "c OR 0x20 \<noteq> 0x74" "c OR 0x20 \<noteq> 0x66" "c OR 0x20 \<noteq> 0x79" "c \<noteq> 0x7E"
      using True by (auto simp: lower_case_eq is_sign_def is_digit_def)
    have "p \<notin> core_null" "p \<notin> core_bool"
      using lead unfolding null bool lower_case_eq by (auto simp: Cons)
    moreover have "yep_core12_plain p = core_number (skip_sign p) (is_sign c)"
      using lead True by (auto simp: yep_core12_plain_def Let_def Cons)
    ultimately show ?thesis
      unfolding core12_spec_def core_int_iff core_float_iff nan core_number_iff by simp
  next
    case False
    then have "p \<notin> core_int" "p \<notin> core_float" using core_number_start [of p] Cons by auto
    then show ?thesis
      unfolding core12_spec_def null bool yep_core12_plain_def lower_case_eq Let_def
      using False by (auto simp: Cons)
  qed
qed

lemma conc_Un_right: "conc A (B \<union> C) = conc A B \<union> conc A C"
  by (auto simp: conc_def)

lemma core_int_yaml: "p \<in> core_int \<longleftrightarrow> p \<in> yaml_int \<or> p \<in> signed_radix"
  unfolding core_int_def yaml_int_def signed_radix_def radix_int_def sign_opt_def Un_assoc conc_Un_right Un_iff conc_opt by blast

lemma radix_not_decimal:
  assumes "r \<in> radix_int"
  shows "r \<notin> some1 is_digit" "r \<notin> conc mantissa (opt exponent)" "hd r = 0x30"
proof -
  obtain c t where r: "r = 0x30 # c # t" "c = 0x78 \<or> c = 0x6F"
    using assms by (auto simp: radix_int_def conc_def lit_def)
  then have d: "\<not> is_digit c" "is_digit 0x30" by (auto simp: is_digit_def)
  then show "r \<notin> some1 is_digit" "hd r = 0x30" by (simp_all add: r some1_def)
  show "r \<notin> conc mantissa (opt exponent)"
    unfolding mantissa_iff frac_exp_def using r d by (auto simp: opt_def exponent_iff is_exp_def)
qed

text \<open>The schema types none of the words in the difference: each is a string to it.\<close>

lemma signed_radix_string:
  assumes "p \<in> signed_radix"
  shows "yaml_core12 p = 0"
proof -
  obtain c r where p: "p = c # r" "is_sign c" "r \<in> radix_int" using assms by (auto simp: signed_radix_def conc_def chr1_def)
  note r = radix_not_decimal [OF p(3)]
  have sk: "skip_sign p = r" using p by (simp add: skip_sign_def)
  have "p \<notin> radix_int" using radix_not_decimal(3) [of p] p by (auto simp: is_sign_def)
  moreover have "avoids is_sign (some1 is_digit)" by (simp add: avoids_digits)
  then have "p \<notin> conc sign_opt (some1 is_digit)" using sign_split r(1) sk by simp
  ultimately have "p \<notin> yaml_int" by (simp add: yaml_int_def)
  moreover have "p \<notin> core_null" "p \<notin> core_bool" using p by (auto simp: core_null_def core_bool_def words_def is_sign_def)
  moreover have "p \<notin> core_float" unfolding core_float_iff sk using r(2,3) p by (auto simp: words_def is_sign_def)
  ultimately show ?thesis by (simp add: yaml_core12_def)
qed

text \<open>
  C14. The core classifier assigns a plain scalar the tag of the YAML 1.2.2 core schema: null and
  bool words in their exact casings, the integer and floating-point productions, and a string
  otherwise. The only exceptions are octal and hexadecimal integers behind a sign, which it calls
  integers and the schema strings.
\<close>

theorem core12_exact:
  "yep_core12_plain p = (if p \<in> signed_radix then 1 else yaml_core12 p) \<and>
   (yep_core12_plain p = yaml_core12 p \<longleftrightarrow> p \<notin> signed_radix)"
proof -
  have "yep_core12_plain p = 1" if "p \<in> signed_radix"
  proof -
    have "p \<noteq> [] \<and> (is_digit (hd p) \<or> is_sign (hd p) \<or> hd p = 0x2E)" using that core_int_yaml core_number_start by blast
    then have "p \<notin> core_null" "p \<notin> core_bool" by (auto simp: core_null_def core_bool_def words_def is_digit_def is_sign_def)
    then show ?thesis using that by (simp add: core12_is_spec core12_spec_def core_int_yaml)
  qed
  moreover have "yep_core12_plain p = yaml_core12 p" if "p \<notin> signed_radix"
    using that by (simp add: core12_is_spec core12_spec_def yaml_core12_def core_int_yaml)
  ultimately show ?thesis using signed_radix_string by auto
qed

section \<open>The JSON schema\<close>

definition nonzero :: "byte \<Rightarrow> bool" where
  "nonzero c \<longleftrightarrow> 0x31 \<le> c \<and> c \<le> 0x39"

definition json_intpart :: blang where
  "json_intpart = ch 0x30 \<union> conc (chr1 nonzero) (many is_digit)"

definition json_int :: blang where
  "json_int = conc (opt (ch 0x2D)) json_intpart"

definition json_float :: blang where
  "json_float = conc (opt (ch 0x2D))
     (conc json_intpart (conc (opt (conc (ch 0x2E) (many is_digit))) (opt exponent)))"

definition json12_spec :: "byte list \<Rightarrow> yep_tag_id" where
  "json12_spec p =
     (if p \<in> words [''null''] then 4 else if p \<in> words [''true'', ''false''] then 3
      else if p \<in> json_int then 1 else if p \<in> json_float then 2 else 0)"

lemma frac_exp_lang: "r \<in> conc (opt (conc (ch 0x2E) (many is_digit))) (opt exponent) \<longleftrightarrow> frac_exp r"
  unfolding conc_opt conc_assoc conc_chr1 many_split [OF avoids_exponent] frac_exp_def by auto

lemma avoids_frac: "avoids is_digit (conc (opt (conc (ch 0x2E) (many is_digit))) (opt exponent))"
  using avoids_exponent by (auto simp: avoids_def conc_opt conc_assoc conc_chr1)

lemma conc_Nil: "conc A {[]} = A"
  by (auto simp: conc_def)

lemma conc_Un: "conc (A \<union> B) C = conc A C \<union> conc B C"
  by (auto simp: conc_def)

definition after_int :: "byte list \<Rightarrow> byte list" where
  "after_int q = (if hd q = 0x30 then tl q else dropWhile is_digit (tl q))"

lemma intpart_split:
  assumes "avoids is_digit B"
  shows "q \<in> conc json_intpart B \<longleftrightarrow> q \<noteq> [] \<and> (hd q = 0x30 \<or> nonzero (hd q)) \<and> after_int q \<in> B"
  unfolding json_intpart_def conc_Un Un_iff conc_assoc conc_chr1 many_split [OF assms]
  by (auto simp: after_int_def nonzero_def)

lemma json_exponent_iff:
  "json_exponent p floaty = (if p = [] then if floaty then 2 else 0 else if p \<in> exponent then 2 else 0)"
proof -
  have "length (dropWhile is_digit q) = length q \<longleftrightarrow> q = [] \<or> \<not> is_digit (hd q)" for q
    using length_dropWhile_le [of is_digit "tl q"] by (cases q) auto
  then show ?thesis
    by (auto simp: json_exponent_def exponent_iff some1_def Let_def list_all_iff split: list.splits)
qed

lemma json_number_iff:
  "json_number q =
     (if q \<noteq> [] \<and> (hd q = 0x30 \<or> nonzero (hd q))
      then if after_int q = [] then 1 else if frac_exp (after_int q) then 2 else 0 else 0)"
proof (cases q)
  case Nil
  then show ?thesis by (simp add: json_number_def)
next
  case (Cons c cs)
  have tail: "(case r of [] \<Rightarrow> 1 | d # ds \<Rightarrow>
      if d = 0x2E then json_exponent (dropWhile is_digit ds) True else json_exponent r False) =
    (if r = [] then 1 else if frac_exp r then 2 else 0)" for r
  proof (cases r)
    case (Cons d ds)
    have "r \<in> exponent \<Longrightarrow> hd r \<noteq> 0x2E" by (auto simp: exponent_iff is_exp_def)
    then show ?thesis by (auto simp: Cons json_exponent_iff frac_exp_def opt_def)
  qed simp
  show ?thesis
    unfolding json_number_def Cons list.case Let_def tail by (simp add: after_int_def nonzero_def)
qed

lemma minus_split:
  assumes "avoids (\<lambda>c. c = 0x2D) B"
  shows "p \<in> conc (opt (ch 0x2D)) B \<longleftrightarrow> (if p \<noteq> [] \<and> hd p = 0x2D then tl p else p) \<in> B"
  using assms unfolding conc_opt conc_chr1 by (cases p) (auto simp: avoids_def)

lemma json_lang:
  fixes p
  defines "q \<equiv> if p \<noteq> [] \<and> hd p = 0x2D then tl p else p"
  shows "p \<in> json_int \<longleftrightarrow> q \<noteq> [] \<and> (hd q = 0x30 \<or> nonzero (hd q)) \<and> after_int q = []"
    and "p \<in> json_float \<longleftrightarrow> q \<noteq> [] \<and> (hd q = 0x30 \<or> nonzero (hd q)) \<and> frac_exp (after_int q)"
proof -
  have av: "avoids (\<lambda>c. c = 0x2D) (conc json_intpart B)" if "avoids is_digit B" for B
    by (auto simp: avoids_def intpart_split [OF that] nonzero_def)
  have e: "avoids is_digit {[]}" by (simp add: avoids_def)
  have "p \<in> json_int \<longleftrightarrow> q \<in> conc json_intpart {[]}"
    using minus_split [OF av [OF e]] unfolding json_int_def q_def by (simp add: conc_Nil)
  then show "p \<in> json_int \<longleftrightarrow> q \<noteq> [] \<and> (hd q = 0x30 \<or> nonzero (hd q)) \<and> after_int q = []"
    unfolding intpart_split [OF e] by simp
  show "p \<in> json_float \<longleftrightarrow> q \<noteq> [] \<and> (hd q = 0x30 \<or> nonzero (hd q)) \<and> frac_exp (after_int q)"
    unfolding json_float_def minus_split [OF av [OF avoids_frac]] q_def [symmetric] intpart_split [OF avoids_frac]
      frac_exp_lang ..
qed

lemma frac_exp_start: "frac_exp r \<Longrightarrow> r \<noteq> [] \<Longrightarrow> hd r = 0x2E \<or> is_exp (hd r)"
  by (auto simp: frac_exp_def opt_def exponent_iff)

lemma after_int_dropWhile:
  assumes "q \<noteq> []" and "hd q = 0x30 \<or> nonzero (hd q)" and "frac_exp (after_int q)"
  shows "dropWhile is_digit q = after_int q" and "is_digit (hd q)"
proof -
  obtain c cs where q: "q = c # cs" using assms(1) by (cases q) auto
  show d: "is_digit (hd q)" using assms(2) by (auto simp: nonzero_def is_digit_def byte_simps)
  have "cs = [] \<or> \<not> is_digit (hd cs)" if "c = 0x30"
    using frac_exp_start [OF assms(3)] that by (auto simp: q after_int_def is_exp_def)
  with d show "dropWhile is_digit q = after_int q" by (cases cs) (auto simp: q after_int_def)
qed

lemma json_in_core: "json12_spec p = 0 \<or> core12_spec p = json12_spec p"
proof -
  define q where "q = (if p \<noteq> [] \<and> hd p = 0x2D then tl p else p)"
  note lang = json_lang [of p, folded q_def]
  have nil: "frac_exp []" by (simp add: frac_exp_def opt_def)
  have w: "p \<in> words [''null'', ''true'', ''false''] \<longleftrightarrow> p \<in> words [''null''] \<or> p \<in> words [''true'', ''false'']"
    by (auto simp: words_def)
  let ?num = "q \<noteq> [] \<and> (hd q = 0x30 \<or> nonzero (hd q))"
  have zero: "json12_spec p = 0" if "p \<notin> words [''null'', ''true'', ''false'']" "\<not> (?num \<and> frac_exp (after_int q))"
  proof -
    have "\<not> (?num \<and> after_int q = [])" using that(2) nil by auto
    then show ?thesis using that unfolding json12_spec_def lang w by auto
  qed
  have words: ?thesis if "p \<in> words [''null'', ''true'', ''false'']"
  proof -
    have "p = bytes_of ''null'' \<or> p = bytes_of ''true'' \<or> p = bytes_of ''false''"
      using that by (simp add: words_def)
    then show ?thesis
      by (elim disjE) (simp_all add: words_def core12_spec_def json12_spec_def core_null_def core_bool_def)
  qed
  have number: ?thesis if 2: "p \<notin> words [''null'', ''true'', ''false'']" "q \<noteq> []"
    "hd q = 0x30 \<or> nonzero (hd q)" "frac_exp (after_int q)"
  proof -
    note dw = after_int_dropWhile [OF 2(2-4)]
    have nosign: "\<not> is_sign (hd q)" using 2(3) by (auto simp: nonzero_def is_sign_def)
    then have sk: "skip_sign p = q" by (cases p) (auto simp: q_def skip_sign_def is_sign_def)
    have "is_digit (hd p) \<or> hd p = 0x2D" using dw(2) by (auto simp: q_def split: if_splits)
    then have "p \<notin> core_null" "p \<notin> core_bool"
      using 2(2) by (auto simp: core_null_def core_bool_def words_def is_digit_def q_def)
    moreover have "q \<in> some1 is_digit \<longleftrightarrow> after_int q = []"
      using dw 2(2) by (auto simp: some1_def list_all_iff simp flip: dw(1))
    moreover have "q \<notin> conc (lit ''0o'') (some1 is_octal)" "q \<notin> conc (lit ''0x'') (some1 is_hex)"
      using frac_exp_start [OF 2(4)] by (cases q; cases "tl q"; auto simp: conc_lit2 after_int_def is_exp_def)+
    moreover have "q \<in> conc mantissa (opt exponent)" using dw 2 by (simp add: mantissa_iff)
    moreover have "json12_spec p = (if after_int q = [] then 1 else 2)"
      using 2 unfolding json12_spec_def lang w by simp
    ultimately show ?thesis by (simp add: core12_spec_def core_int_iff core_float_iff sk)
  qed
  show ?thesis using words number zero by argo
qed

lemma json12_is_spec: "yep_json12_plain p = json12_spec p"
  by (auto simp: yep_json12_plain_def json12_spec_def json_lang json_number_iff words_def)

lemma json12_in_core: "yep_json12_plain p = 0 \<or> yep_core12_plain p = yep_json12_plain p"
  using json_in_core [of p] unfolding json12_is_spec core12_is_spec .

text \<open>
  C15. The JSON classifier accepts exactly the productions of the YAML 1.2 JSON schema (a float
  needs no digits after its dot), and every scalar it types the core schema types the same way.
\<close>

theorem json12_exact:
  "yep_json12_plain p = json12_spec p \<and> (yep_json12_plain p = 0 \<or> yep_core12_plain p = yep_json12_plain p)"
  using json12_in_core json12_is_spec by blast

section \<open>Timestamps of the full schema\<close>

abbreviation dig :: "nat \<Rightarrow> nat \<Rightarrow> blang" where
  "dig a b \<equiv> between a b is_digit"

definition ts_zone :: blang where
  "ts_zone = conc (many is_blank)
     (ch 0x5A \<union> conc (chr1 is_sign) (conc (dig 1 2) (opt (conc (ch 0x3A) (dig 2 2)))))"

definition ts_time :: blang where
  "ts_time = conc (chr1 (\<lambda>c. c = 0x54 \<or> c = 0x74) \<union> some1 is_blank)
     (conc (dig 1 2) (conc (ch 0x3A) (conc (dig 2 2) (conc (ch 0x3A) (conc (dig 2 2)
       (conc (opt (conc (ch 0x2E) (many is_digit))) (opt ts_zone)))))))"

definition timestamp :: blang where
  "timestamp = conc (dig 4 4) (conc (ch 0x2D) (conc (dig 2 2) (conc (ch 0x2D) (dig 2 2)))) \<union>
     conc (dig 4 4) (conc (ch 0x2D) (conc (dig 1 2) (conc (ch 0x2D) (conc (dig 1 2) ts_time))))"

lemma digits_upto_le: "fst (digits_upto m p) \<le> m"
  using digits_upto_split [of m p "fst (digits_upto m p)" "snd (digits_upto m p)"] by auto

lemma dig_end: "p \<in> dig a b \<longleftrightarrow> a \<le> fst (digits_upto b p) \<and> snd (digits_upto b p) = []"
  using between_split [of "{[]}" p a b] by (simp add: conc_Nil avoids_def)

lemma avoids_ch: "\<not> P b \<Longrightarrow> avoids P (conc (ch b) B)"
  by (simp add: avoids_def conc_chr1)

lemma avoids_opt: "avoids P (opt A) = avoids P A"
  by (auto simp: avoids_def opt_def)

lemma dig22: "ds \<in> dig 2 2 \<longleftrightarrow> (case ds of [a, b] \<Rightarrow> is_digit a \<and> is_digit b | _ \<Rightarrow> False)"
proof -
  have "ds \<in> dig 2 2 \<longleftrightarrow> length ds = 2 \<and> list_all is_digit ds" by (auto simp: between_def)
  then show ?thesis by (auto simp: length_Suc_conv numeral_2_eq_2 split: list.splits)
qed

lemma ch_iff: "q \<in> ch b \<longleftrightarrow> q = [b]"
  by (auto simp: chr1_def)

lemma opt_iff: "q \<in> opt A \<longleftrightarrow> q = [] \<or> q \<in> A"
  by (simp add: opt_def)

lemma zone_iff: "pyyaml_zone p \<longleftrightarrow> p \<in> opt ts_zone"
proof -
  let ?Y = "ch 0x5A \<union> conc (chr1 is_sign) (conc (dig 1 2) (opt (conc (ch 0x3A) (dig 2 2))))"
  have av: "avoids is_digit (opt (conc (ch 0x3A) (dig 2 2)))" by (simp add: avoids_opt avoids_ch)
  have Y: "q \<in> ?Y \<longleftrightarrow> q = [0x5A] \<or> q \<noteq> [] \<and> is_sign (hd q) \<and> fst (digits_upto 2 (tl q)) \<noteq> 0 \<and>
      (let r = snd (digits_upto 2 (tl q)) in r = [] \<or> hd r = 0x3A \<and> tl r \<in> dig 2 2)" for q
    unfolding Un_iff conc_chr1 between_split [OF av] opt_iff ch_iff Let_def by auto
  have "avoids is_blank ?Y"
    unfolding avoids_def Un_iff ch_iff conc_chr1 by (auto simp: char_defs)
  then have zone: "p \<in> ts_zone \<longleftrightarrow> dropWhile is_blank p \<in> ?Y"
    unfolding ts_zone_def by (rule many_split)
  show ?thesis
  proof (cases "dropWhile is_blank p")
    case Nil
    then show ?thesis unfolding opt_iff zone Y pyyaml_zone_def Nil by simp
  next
    case (Cons c cs)
    then have "p \<noteq> []" by auto
    obtain k r where kr: "digits_upto 2 cs = (k, r)" by fastforce
    show ?thesis unfolding opt_iff zone Y
      using \<open>p \<noteq> []\<close> by (auto simp: pyyaml_zone_def Cons kr dig22 Let_def is_sign_def split: list.splits)
  qed
qed

lemma avoids_zone: "avoids is_digit (opt ts_zone)" "avoids (\<lambda>c. c = 0x2E) (opt ts_zone)"
proof -
  have "x \<in> ts_zone \<Longrightarrow> x \<noteq> [] \<Longrightarrow> is_blank (hd x) \<or> hd x = 0x5A \<or> is_sign (hd x)" for x
    by (cases x) (auto simp: ts_zone_def many_def conc_def chr1_def Cons_eq_append_conv)
  then have "\<not> is_digit (hd x) \<and> hd x \<noteq> 0x2E" if "x \<in> ts_zone" "x \<noteq> []" for x
    using that by (fastforce simp: char_defs)
  then show "avoids is_digit (opt ts_zone)" "avoids (\<lambda>c. c = 0x2E) (opt ts_zone)"
    unfolding avoids_opt by (simp_all add: avoids_def)
qed

lemma frac_split:
  assumes "avoids is_digit B" and "avoids (\<lambda>c. c = 0x2E) B"
  shows "p \<in> conc (opt (conc (ch 0x2E) (many is_digit))) B \<longleftrightarrow>
    (case p of [] \<Rightarrow> [] | c # cs \<Rightarrow> if c = 0x2E then dropWhile is_digit cs else p) \<in> B"
  unfolding conc_opt conc_assoc conc_chr1 many_split [OF assms(1)]
  using assms(2) by (cases p) (auto simp: avoids_def)

lemma avoids_frac_zone: "avoids is_digit (conc (opt (conc (ch 0x2E) (many is_digit))) (opt ts_zone))"
  unfolding avoids_def conc_opt conc_assoc conc_chr1 using avoids_zone(1) by (auto simp: avoids_def)

lemma digits_upto_2: "2 \<le> fst (digits_upto 2 q) \<longleftrightarrow> fst (digits_upto 2 q) = 2"
  using digits_upto_le [of 2 q] by auto

lemma case_conc:
  "(case p of [] \<Rightarrow> False | c # p \<Rightarrow> if c \<noteq> b then False else P p) \<longleftrightarrow> p \<noteq> [] \<and> hd p = b \<and> P (tl p)"
  by (cases p) auto

lemma time_iff: "pyyaml_time p \<longleftrightarrow> p \<in> ts_time"
proof -
  let ?R = "conc (dig 1 2) (conc (ch 0x3A) (conc (dig 2 2) (conc (ch 0x3A) (conc (dig 2 2)
       (conc (opt (conc (ch 0x2E) (many is_digit))) (opt ts_zone))))))"
  have av: "avoids is_digit (conc (ch 0x3A) B)" for B by (simp add: avoids_ch)
  have R: "q \<in> ?R \<longleftrightarrow> pyyaml_clock q" for q
    unfolding between_split [OF av] between_split [OF avoids_frac_zone] conc_chr1 frac_split [OF avoids_zone] digits_upto_2
      pyyaml_clock_def case_conc case_prod_beta zone_iff by auto
  have avb: "avoids is_blank ?R"
  proof (unfold avoids_def, intro allI impI)
    fix x assume "x \<in> ?R" "x \<noteq> []"
    then have "is_digit (hd x)"
      by (auto simp: conc_def between_def neq_Nil_conv Suc_le_length_iff)
    then show "\<not> is_blank (hd x)" by (auto simp: is_blank_def)
  qed
  show ?thesis
    unfolding ts_time_def conc_Un Un_iff conc_chr1 some1_split [OF avb] R
    by (cases p) (auto simp: pyyaml_time_def is_blank_def)
qed

lemma time_start: "x \<in> ts_time \<Longrightarrow> x \<noteq> [] \<and> \<not> is_digit (hd x)"
  unfolding time_iff [symmetric] by (cases x) (auto simp: pyyaml_time_def is_blank_def split: if_splits)

lemma timestamp_iff: "pyyaml_timestamp p \<longleftrightarrow> p \<in> timestamp"
proof -
  have av: "avoids is_digit (conc (ch 0x2D) B)" for B by (simp add: avoids_ch)
  have avt: "avoids is_digit ts_time" using time_start by (auto simp: avoids_def)
  have fst4: "4 \<le> fst (digits_upto 4 p) \<longleftrightarrow> fst (digits_upto 4 p) = 4"
    using digits_upto_le [of 4 p] by auto
  have "[] \<notin> ts_time" using time_start by blast
  then show ?thesis
    unfolding timestamp_def Un_iff between_split [OF av] between_split [OF avt] conc_chr1 dig_end fst4 digits_upto_2
      pyyaml_timestamp_def case_conc case_prod_beta time_iff by auto
qed

definition minlen :: "nat \<Rightarrow> blang \<Rightarrow> bool" where
  "minlen n A \<longleftrightarrow> (\<forall>x. x \<in> A \<longrightarrow> n \<le> length x)"

lemma minlen_rules:
  "minlen 0 A" "minlen a (dig a b)" "minlen 1 (chr1 P)" "minlen 1 (some1 P)"
  "minlen a A \<Longrightarrow> minlen b B \<Longrightarrow> minlen (a + b) (conc A B)"
  "minlen a A \<Longrightarrow> minlen a B \<Longrightarrow> minlen a (A \<union> B)"
  by (auto simp: minlen_def between_def chr1_def some1_def Suc_le_eq conc_def intro!: add_mono)

lemma timestamp_length:
  assumes "p \<in> timestamp"
  shows "10 \<le> length p \<and> is_digit (hd p)"
proof -
  have time: "minlen (1 + (1 + (1 + (2 + (1 + (2 + 0)))))) ts_time"
    unfolding ts_time_def by (intro minlen_rules)
  have date: "minlen (4 + (1 + (2 + (1 + 2)))) (conc (dig 4 4) (conc (ch 0x2D) (conc (dig 2 2) (conc (ch 0x2D) (dig 2 2)))))"
    by (intro minlen_rules)
  have full: "minlen (4 + (1 + (1 + (1 + (1 + (1 + (1 + (1 + (2 + (1 + (2 + 0)))))))))))
      (conc (dig 4 4) (conc (ch 0x2D) (conc (dig 1 2) (conc (ch 0x2D) (conc (dig 1 2) ts_time)))))"
    by (intro minlen_rules time)
  have "10 \<le> length p" using assms date full by (auto simp: timestamp_def minlen_def)
  moreover have "p \<in> conc (dig 4 4) B \<Longrightarrow> is_digit (hd p)" for B
    by (auto simp: conc_def between_def hd_append neq_Nil_conv numeral_eq_Suc Suc_le_length_iff)
  ultimately show ?thesis using assms by (auto simp: timestamp_def)
qed

text \<open>
  C16. The full schema types a scalar as the core schema does, adds the merge and value words,
  and otherwise recognises exactly the timestamp grammar (four-digit year; two-digit month and
  day when no time follows; clock, fraction and zone as in the regular expression the source
  quotes): its length and first-byte gate loses nothing.
\<close>

theorem full12_exact:
  "full12 p =
     (if p = bytes_of ''='' then 10 else if p = bytes_of ''<<'' then 9
      else if core12_spec p \<noteq> 0 then core12_spec p else if p \<in> timestamp then 5 else 0)"
  using timestamp_length [of p] by (auto simp: full12_def core12_is_spec timestamp_iff Let_def)

end
