(* ===== verification/Tags_Facts.thy ===== *)
theory Tags_Facts
  imports Compat11 Resolve_Facts
begin

text \<open>
  The tag table and the value decoders against the classifiers: which scalars decode, to which
  value, and which types survive a change of schema family.
\<close>

section \<open>Accumulating digits without overflow\<close>

lemma wrap_small:
  fixes n :: nat
  assumes "n < 60 * 2 ^ 64" and "2 ^ 64 \<le> n" and "b \<le> 60" and "0 < b"
  shows "(n mod 2 ^ 64) div b < n div b"
proof -
  have "n mod 2 ^ 64 \<le> n - 2 ^ 64"
    using assms(2) by (metis le_mod_geq mod_less_eq_dividend)
  then have "n mod 2 ^ 64 + b \<le> n - 2 ^ 64 + 2 ^ 64" using assms(3) by (intro add_mono) simp_all
  then have "n mod 2 ^ 64 + b \<le> n" using assms(2) by simp
  then have "(n mod 2 ^ 64 + b) div b \<le> n div b" by (rule div_le_mono)
  then show ?thesis using assms(4) div_add_self2 [of b "n mod 2 ^ 64"] by simp
qed

lemma acc_digit_spec:
  assumes "2 \<le> base" and "base \<le> 60" and "dv < base"
  shows "acc_digit acc base dv =
    (if unat acc * base + dv < 2 ^ 64 then Some (of_nat (unat acc * base + dv)) else None)"
proof -
  let ?N = "unat acc * base"
  have acc: "unat acc < 2 ^ 64" using unsigned_less [of acc] by simp
  have b: "unat (of_nat base :: u64) = base" "unat (of_nat dv :: u64) = dv"
    using assms by (simp_all add: unsigned_of_nat take_bit_eq_mod)
  have un: "unat (acc * of_nat base) = ?N mod 2 ^ 64" by (simp add: unat_word_ariths b)
  have na: "acc * of_nat base = of_nat ?N" by simp
  have d: "(acc * of_nat base) div of_nat base = acc \<longleftrightarrow> (?N mod 2 ^ 64) div base = unat acc"
    by (simp add: word_unat_eq_iff unat_div_distrib un b)
  show ?thesis
  proof (cases "?N < 2 ^ 64")
    case True
    then have ok: "(acc * of_nat base) div of_nat base = acc" using assms by (simp add: d)
    have un2: "unat (acc * of_nat base + of_nat dv) = (?N + dv) mod 2 ^ 64"
      using True by (simp add: unat_word_ariths b un)
    have lt: "acc * of_nat base + of_nat dv < acc \<longleftrightarrow> \<not> ?N + dv < 2 ^ 64"
    proof (cases "?N + dv < 2 ^ 64")
      case True
      have "unat acc \<le> ?N + dv" using assms by (intro trans_le_add1) simp
      then show ?thesis using True unfolding word_less_nat_alt un2 by simp
    next
      case False
      then have "(?N + dv) mod 2 ^ 64 = ?N + dv - 2 ^ 64" using True assms by (simp add: mod_if)
      then have "(?N + dv) mod 2 ^ 64 < 60" using True assms by simp
      moreover have "60 < unat acc"
      proof (rule ccontr)
        assume "\<not> 60 < unat acc"
        then have "?N \<le> 60 * 60" using assms by (intro mult_le_mono) simp_all
        with False assms show False by simp
      qed
      ultimately show ?thesis using False by (simp add: word_less_nat_alt un2)
    qed
    show ?thesis unfolding acc_digit_def Let_def using ok lt by simp
  next
    case False
    have "?N < 60 * 2 ^ 64"
    proof -
      have "?N \<le> unat acc * 60" using assms by simp
      with acc show ?thesis by linarith
    qed
    then have "(?N mod 2 ^ 64) div base < ?N div base" using False assms by (intro wrap_small) simp_all
    then have "(acc * of_nat base) div of_nat base \<noteq> acc" using assms by (simp add: d)
    then show ?thesis unfolding acc_digit_def Let_def using False by simp
  qed
qed

definition digits_value :: "nat \<Rightarrow> nat \<Rightarrow> byte list \<Rightarrow> nat" where
  "digits_value base = foldl (\<lambda>a c. a * base + the (digit_in_base 16 c))"

definition valid_digit :: "nat \<Rightarrow> byte \<Rightarrow> bool" where
  "valid_digit base c \<longleftrightarrow> (if base = 16 then is_hex c else if base = 8 then is_octal c else is_digit c)"

lemma digits_value_ge: "1 \<le> base \<Longrightarrow> a \<le> digits_value base a ds"
proof (induction ds arbitrary: a)
  case (Cons c ds)
  let ?a = "a * base + the (digit_in_base 16 c)"
  have "a \<le> ?a" using Cons.prems by (intro trans_le_add1) simp
  also have "\<dots> \<le> digits_value base ?a ds" using Cons by blast
  finally show ?case by (simp add: digits_value_def)
qed (simp add: digits_value_def)

lemma digit_dv:
  assumes "base \<in> {8, 10, 16}"
  shows "valid_digit base c \<longleftrightarrow> (\<exists>dv. digit_in_base base c = Some dv \<and> dv < base)"
    and "digit_in_base base c = Some dv \<Longrightarrow> dv < base \<Longrightarrow> digit_in_base 16 c = Some dv"
    and "base = 16 \<Longrightarrow> digit_in_base base c = Some dv \<Longrightarrow> dv < 16"
  using assms by (auto simp: valid_digit_def digit_in_base_def is_hex_def is_octal_def is_digit_def byte_simps split: if_splits)

lemma int64_loop_spec:
  assumes "base \<in> {8, 10, 16}"
  shows "int64_loop base False ds acc digits =
    (if list_all (valid_digit base) ds \<and> digits_value base (unat acc) ds < 2 ^ 64
     then Some (of_nat (digits_value base (unat acc) ds), digits \<or> ds \<noteq> []) else None)"
proof (induction ds arbitrary: acc digits)
  case Nil
  then show ?case using unsigned_less [of acc] by (simp add: digits_value_def)
next
  case (Cons c ds)
  show ?case
  proof (cases "valid_digit base c")
    case False
    then have "int64_loop base False (c # ds) acc digits = None"
      using digit_dv(1,3) [OF assms, of c] by (auto split: option.splits) 
    with False show ?thesis by simp
  next
    case True
    then obtain dv where dv: "digit_in_base base c = Some dv" "dv < base" using digit_dv(1) [OF assms] by blast
    have b: "2 \<le> base" "base \<le> 60" "1 \<le> base" using assms by auto
    let ?a = "unat acc * base + dv"
    have val: "digits_value base (unat acc) (c # ds) = digits_value base ?a ds"
      using digit_dv(2) [OF assms dv] by (simp add: digits_value_def)
    show ?thesis
    proof (cases "?a < 2 ^ 64")
      case True
      then have "unat (of_nat ?a :: u64) = ?a" by (rule unat_of_nat_u64)
      with True dv \<open>valid_digit base c\<close> show ?thesis
        unfolding val by (simp add: acc_digit_spec [OF b(1,2) dv(2)] Cons.IH del: of_nat_add of_nat_mult)
    next
      case False
      then have "\<not> digits_value base ?a ds < 2 ^ 64" using digits_value_ge [OF b(3), of ?a ds] by simp
      with False dv show ?thesis unfolding val by (simp add: acc_digit_spec [OF b(1,2) dv(2)])
    qed
  qed
qed

lemma int64_radix_spec:
  assumes "base \<in> {8, 10, 16}"
  defines "m d \<equiv> digits_value base 0 d"
  shows "int64_radix neg base False d =
    (if d \<noteq> [] \<and> list_all (valid_digit base) d \<and> (m d < 2 ^ 63 \<or> neg \<and> m d = 2 ^ 63)
     then Some (word_of_int (if neg then - int (m d) else int (m d))) else None)"
proof -
  have eq: "(of_nat n :: u64) = 2 ^ 63 \<longleftrightarrow> n = 2 ^ 63" "(2 ^ 63 - 1 :: u64) < of_nat n \<longleftrightarrow> 2 ^ 63 \<le> n"
    if "n < 2 ^ 64" for n
    using unat_of_nat_u64 [OF that] by (auto simp: word_unat_eq_iff word_less_nat_alt)
  have neg: "- (of_nat n :: u64) = word_of_int (- int n)" for n
    by simp
  show ?thesis
  proof (cases "list_all (valid_digit base) d \<and> m d < 2 ^ 64")
    case True
    then have loop: "int64_loop base False d 0 False = Some (of_nat (m d), d \<noteq> [])"
      using int64_loop_spec [OF assms(1), of d 0 False] by (simp add: m_def)
    show ?thesis
    proof (cases "neg \<and> m d = 2 ^ 63")
      case True
      then show ?thesis using \<open>list_all (valid_digit base) d \<and> m d < 2 ^ 64\<close>
        unfolding int64_radix_def loop by simp
    next
      case notmin: False
      then show ?thesis using True
        unfolding int64_radix_def loop option.case prod.case eq [OF conjunct2 [OF True]] by auto
    qed
  next
    case False
    then have "int64_loop base False d 0 False = None"
      using int64_loop_spec [OF assms(1), of d 0 False] by (auto simp: m_def)
    with False show ?thesis by (auto simp: int64_radix_def)
  qed
qed

definition core_magnitude :: "byte list \<Rightarrow> nat" where
  "core_magnitude q =
     (if 2 < length q \<and> q ! 0 = 0x30 \<and> q ! 1 = 0x78 then digits_value 16 0 (drop 2 q)
      else if 2 < length q \<and> q ! 0 = 0x30 \<and> q ! 1 = 0x6F then digits_value 8 0 (drop 2 q)
      else digits_value 10 0 q)"

definition core_value :: "byte list \<Rightarrow> int" where
  "core_value p = (if p \<noteq> [] \<and> hd p = 0x2D then - 1 else 1) * int (core_magnitude (skip_sign p))"

lemma valid_digit_fun:
  "valid_digit 16 = is_hex" "valid_digit 8 = is_octal" "valid_digit 10 = is_digit"
  by (simp_all add: valid_digit_def fun_eq_iff)

lemma core_int_tag: "yep_core12_plain p = 1 \<longleftrightarrow> p \<in> core_int"
proof -
  have "p \<notin> core_null \<and> p \<notin> core_bool" if "p \<in> core_int"
  proof -
    have "p \<noteq> [] \<and> (is_digit (hd p) \<or> is_sign (hd p) \<or> hd p = 0x2E)" using that core_number_start by blast
    then show ?thesis by (auto simp: core_null_def core_bool_def words_def is_digit_def is_sign_def)
  qed
  then show ?thesis by (auto simp: core12_is_spec core12_spec_def)
qed

section \<open>Properties\<close>

text \<open>
  C17. In the core family the integer decoder succeeds exactly on the scalars the core
  classifier types as integers whose value fits in 64 signed bits, and returns that value: no
  wrap-around, and \<open>INT64_MIN\<close> is reachable.
\<close>

theorem tag_int64_core_exact:
  "yep_tag_int64 p False =
     (if yep_core12_plain p = 1 \<and> - (2 ^ 63) \<le> core_value p \<and> core_value p < 2 ^ 63
      then Some (word_of_int (core_value p)) else None)"
proof (cases "skip_sign p = []")
  case True
  then have "yep_tag_int64 p False = None" by (simp add: yep_tag_int64_def Let_def)
  moreover have "p \<notin> core_int"
    unfolding core_int_iff True by (auto simp: some1_def dest: lit_start)
  ultimately show ?thesis unfolding core_int_tag by simp
next
  case False
  then have p: "p \<noteq> []" by (auto simp: skip_sign_def)
  define q where "q = skip_sign p"
  define neg where "neg \<longleftrightarrow> hd p = 0x2D"
  have val: "core_value p = (if neg then - int (core_magnitude q) else int (core_magnitude q))"
    using p by (simp add: core_value_def neg_def q_def)
  have range: "- (2 ^ 63) \<le> core_value p \<and> core_value p < 2 ^ 63 \<longleftrightarrow>
      core_magnitude q < 2 ^ 63 \<or> neg \<and> core_magnitude q = 2 ^ 63"
    unfolding val by auto
  define base where "base = (if 2 < length q \<and> q ! 0 = 0x30 \<and> q ! 1 = 0x78 then 16::nat
      else if 2 < length q \<and> q ! 0 = 0x30 \<and> q ! 1 = 0x6F then 8 else 10)"
  define d where "d = (if base = 10 then q else drop 2 q)"
  have mag: "core_magnitude q = digits_value base 0 d"
    by (simp add: core_magnitude_def base_def d_def)
  have code: "yep_tag_int64 p False = int64_radix neg base False d"
    using p False by (simp add: yep_tag_int64_def Let_def base_def d_def neg_def flip: q_def)
  have acc: "p \<in> core_int \<longleftrightarrow> d \<noteq> [] \<and> list_all (valid_digit base) d"
  proof -
    have lits: "q \<in> conc (lit ''0o'') (some1 is_octal) \<longleftrightarrow>
        2 < length q \<and> q ! 0 = 0x30 \<and> q ! 1 = 0x6F \<and> drop 2 q \<in> some1 is_octal"
      "q \<in> conc (lit ''0x'') (some1 is_hex) \<longleftrightarrow>
        2 < length q \<and> q ! 0 = 0x30 \<and> q ! 1 = 0x78 \<and> drop 2 q \<in> some1 is_hex"
      by (auto simp: conc_lit2 some1_def)
    have nd: "q \<notin> some1 is_digit" if "2 < length q" "\<not> is_digit (q ! 1)"
    proof -
      have "q ! 1 \<in> set q" using that(1) by simp
      then show ?thesis using that(2) by (auto simp: some1_def list_all_iff)
    qed
    consider "2 < length q" "q ! 0 = 0x30" "q ! 1 = 0x78" | "2 < length q" "q ! 0 = 0x30" "q ! 1 = 0x6F"
      | "\<not> (2 < length q \<and> q ! 0 = 0x30 \<and> q ! 1 = 0x78)" "\<not> (2 < length q \<and> q ! 0 = 0x30 \<and> q ! 1 = 0x6F)"
      by blast
    then show ?thesis
    proof cases
      case 1
      then have "base = 16" "d = drop 2 q" "q \<notin> some1 is_digit" using nd by (simp_all add: base_def d_def)
      with 1 show ?thesis
        unfolding core_int_iff q_def [symmetric] Un_iff lits by (auto simp: valid_digit_fun some1_def)
    next
      case 2
      then have "base = 8" "d = drop 2 q" "q \<notin> some1 is_digit" using nd by (simp_all add: base_def d_def)
      with 2 show ?thesis
        unfolding core_int_iff q_def [symmetric] Un_iff lits by (auto simp: valid_digit_fun some1_def)
    next
      case 3
      then have b10: "base = 10" unfolding base_def by auto
      then have "d = q" by (simp add: d_def)
      with 3 b10 show ?thesis
        unfolding core_int_iff q_def [symmetric] Un_iff lits by (auto simp: valid_digit_fun some1_def)
    qed
  qed
  have b: "base \<in> {8, 10, 16}" by (simp add: base_def)
  show ?thesis
    unfolding code int64_radix_spec [OF b] core_int_tag acc range val mag by simp
qed

text \<open>
  In the 1.1-compatible family the decimal path has no range check: it accepts
  9223372036854775808 and returns the wrapped value \<open>- 2 ^ 63\<close>.
\<close>

lemma tag_int64_compat_wraps:
  "\<exists>w. yep_tag_int64 (bytes_of ''9223372036854775808'') True = Some w \<and> sint w = - (2 ^ 63) \<and>
     yep_tag_int64 (bytes_of ''9223372036854775808'') False = None"
  by (simp add: yep_tag_int64_def int64_compat_decimal_def acc_digit_def is_digit_def digit_val_def skip_sign_def
      is_sign_def int64_radix_def digit_in_base_def Let_def)

text \<open>A table whose strings are all different is searched by its pairs.\<close>

lemma tag_scan_pair:
  "distinct (map snd entries) \<Longrightarrow> 11 \<notin> fst ` set entries \<Longrightarrow> (tag_scan entries u = t \<and> t \<noteq> 11) = ((t, u) \<in> set entries)"
proof (induction entries)
  case (Cons e entries)
  obtain tid uri where e: "e = (tid, uri)" by fastforce
  show ?case
  proof (cases "uri = u")
    case True
    then have "(t, u) \<notin> set entries" using Cons.prems(1) e by (auto simp: rev_image_eqI)
    then show ?thesis using True Cons.prems(2) e by auto
  next
    case False
    then show ?thesis using Cons e by auto
  qed
qed simp

lemma k_core_ids: "map fst k_core = [0..<11]" "distinct (map snd k_core)"
  by (simp_all add: k_core_def upt_rec)

text \<open>
  C19. The tag table is a bijection between the eleven core ids and their URIs: the id column of
  every row is the row's position, so each id is found again from its URI, and any other string maps
  to the custom tag 11.
\<close>

theorem tag_uri_roundtrip:
  "(yep_tag_from_uri u = t \<and> t \<noteq> 11) = (yep_tag_uri t = Some u)"
proof -
  have len: "length k_core = 11" using k_core_ids(1) by (metis diff_zero length_map length_upt)
  have at: "fst (k_core ! k) = k" if "k < 11" for k using that len k_core_ids(1) by (metis add_0 nth_map nth_upt)
  have "fst ` set k_core = {0..<11}" using k_core_ids(1) by (metis list.set_map set_upt)
  then have "(yep_tag_from_uri u = t \<and> t \<noteq> 11) = ((t, u) \<in> set k_core)"
    unfolding yep_tag_from_uri_def using k_core_ids(2) by (intro tag_scan_pair) auto
  also have "\<dots> \<longleftrightarrow> t < 11 \<and> snd (k_core ! t) = u"
    using at len by (force simp: in_set_conv_nth prod_eq_iff)
  finally show ?thesis by (auto simp: yep_tag_uri_def len)
qed

text \<open>
  The canonical float words are the floats of the core schema that contain no digit:
  the emitter's table and the classifier agree.
\<close>

theorem tag_float_word_exact:
  "(yep_tag_float_word p \<noteq> None) = (yep_core12_plain p = 2 \<and> \<not> list_ex is_digit p)"
proof
  assume "yep_tag_float_word p \<noteq> None"
  then have "list_ex (\<lambda>e. p = bytes_of (fst e)) float_words"
    unfolding yep_tag_float_word_def list_ex_iff option.map_disc_iff find_None_iff by blast
  then have "p = bytes_of ''.inf'' \<or> p = bytes_of ''.Inf'' \<or> p = bytes_of ''.INF'' \<or> p = bytes_of ''-.inf'' \<or>
      p = bytes_of ''-.Inf'' \<or> p = bytes_of ''-.INF'' \<or> p = bytes_of ''+.inf'' \<or> p = bytes_of ''+.Inf'' \<or>
      p = bytes_of ''+.INF'' \<or> p = bytes_of ''.nan'' \<or> p = bytes_of ''.NaN'' \<or> p = bytes_of ''.NAN''"
    by (simp add: float_words_def)
  then show "yep_core12_plain p = 2 \<and> \<not> list_ex is_digit p"
    by (elim disjE)
      (simp_all add: yep_core12_plain_def core_number_def skip_sign_def is_sign_def is_digit_def)
next
  assume a: "yep_core12_plain p = 2 \<and> \<not> list_ex is_digit p"
  then have "p \<in> core_float" by (auto simp: core12_is_spec core12_spec_def split: if_splits)
  moreover have "\<not> list_ex is_digit (skip_sign p)"
    using a by (cases p) (auto simp: skip_sign_def)
  then have "skip_sign p \<notin> conc mantissa (opt exponent)"
    unfolding mantissa_iff by (cases "skip_sign p"; cases "tl (skip_sign p)") auto
  ultimately have "skip_sign p \<in> words [''.inf'', ''.Inf'', ''.INF''] \<or> p \<in> words [''.nan'', ''.NaN'', ''.NAN'']"
    unfolding core_float_iff by blast
  then show "yep_tag_float_word p \<noteq> None"
    by (cases p) (auto simp: yep_tag_float_word_def float_words_def words_def skip_sign_def is_sign_def split: if_splits)
qed

lemma digits_upto_digits:
  "list_all is_digit q \<Longrightarrow> list_all is_digit (snd (digits_upto m q))"
  using digits_upto_split [of m q "fst (digits_upto m q)" "snd (digits_upto m q)"] by (metis list_all_append prod.collapse)

lemma compat_decimal_digits:
  "list_all is_digit q \<Longrightarrow> compat_decimal q digits False False False False = (if digits \<or> q \<noteq> [] then 1 else 0)"
  by (induction q arbitrary: digits) auto

lemma json_int_compat:
  assumes "list_all is_digit q"
  shows "compat_timestamp q = None" and "compat_sexagesimal q = None"
proof -
  have "hd (snd (digits_upto 4 q)) \<noteq> 0x2D \<or> snd (digits_upto 4 q) = []"
    using digits_upto_digits [OF assms, of 4] by (cases "snd (digits_upto 4 q)") auto
  then show "compat_timestamp q = None" by (auto simp: compat_timestamp_def split: prod.splits)
  have "dropWhile (\<lambda>c. is_digit c \<or> c = 0x5F) (tl q) = []"
    using assms by (cases q) (auto simp: list_all_iff)
  then show "compat_sexagesimal q = None" by (simp add: compat_sexagesimal_def Let_def)
qed

lemma ci_eq_hd: "ci_eq p (w # ws) \<Longrightarrow> p \<noteq> [] \<and> ascii_lower (hd p) = ascii_lower w"
  by (cases p) (auto simp: ci_eq_def)

lemma no_word_start:
  assumes "is_digit (hd p) \<or> hd p = 0x2D" and "p \<noteq> []"
  shows "\<not> ci_eq p (bytes_of ''null'')" and "yep_tag_bool_value p = -1"
proof -
  have "ascii_lower (hd p) = hd p" using assms(1) by (auto simp: ascii_lower_def is_digit_def byte_simps)
  then have no: "\<not> ci_eq p (w # ws)" if "ascii_lower w = w" "\<not> is_digit w" "w \<noteq> 0x2D" for w ws
    using ci_eq_hd [of p w ws] assms(1) that by auto
  show "\<not> ci_eq p (bytes_of ''null'')" "yep_tag_bool_value p = -1"
    unfolding yep_tag_bool_value_def by (simp_all add: no ascii_lower_def is_digit_def)
qed

lemma json_int_everywhere:
  assumes "p \<in> json_int" shows "compat11 p = 1"
proof -
  define q where "q = (if p \<noteq> [] \<and> hd p = 0x2D then tl p else p)"
  have q: "q \<noteq> []" "hd q = 0x30 \<or> nonzero (hd q)" "after_int q = []"
    using assms unfolding json_lang [of p, folded q_def] by simp_all
  have d: "is_digit (hd q)" using q(2) by (auto simp: nonzero_def is_digit_def byte_simps)
  have digs: "list_all is_digit q" and zero: "hd q = 0x30 \<Longrightarrow> q = [0x30]"
    using q d by (cases q; auto simp: after_int_def list_all_iff split: if_splits)+
  have "\<not> is_sign (hd q)" using d by (auto simp: is_sign_def)
  then have sk: "skip_sign p = q" by (cases p) (auto simp: q_def skip_sign_def is_sign_def)
  have p: "p \<noteq> []" "is_digit (hd p) \<or> hd p = 0x2D" using q(1) d by (auto simp: q_def split: if_splits)
  have "p \<noteq> bytes_of ''~''" "p \<noteq> bytes_of ''=''" "p \<noteq> bytes_of ''<<''" "hd q \<noteq> 0x2E"
    using p d by (auto simp: is_digit_def)
  then have "compat11 p =
      (if 2 \<le> length q \<and> q ! 0 = 0x30 then compat11 p else compat_decimal q False False False False False)"
    using p no_word_start [OF p(2,1)] q(1)
    by (simp add: compat11_def sk json_int_compat [OF digs] Let_def)
  moreover have "\<not> (2 \<le> length q \<and> q ! 0 = 0x30)" using zero q(1) by (auto simp: hd_conv_nth)
  ultimately show ?thesis using q(1) by (simp add: compat_decimal_digits [OF digs])
qed

text \<open>
  C21. A scalar the JSON schema types as null, boolean or integer has that type in every
  schema family: core, full and 1.1-compatible.
\<close>

theorem json_scalars_portable:
  assumes "yep_json12_plain p = t" and "t = 1 \<or> t = 3 \<or> t = 4"
  shows "yep_core12_plain p = t \<and> full12 p = t \<and> compat11 p = t"
proof -
  have core: "yep_core12_plain p = t" using json12_in_core [of p] assms by auto
  have "p \<noteq> bytes_of ''=''" "p \<noteq> bytes_of ''<<''"
    using core assms(2) by (auto simp: yep_core12_plain_def Let_def is_digit_def is_sign_def)
  then have full: "full12 p = t" using core assms(2) by (auto simp: full12_def Let_def)
  have spec: "json12_spec p = t" using json12_is_spec assms(1) by simp
  have "compat11 p = t"
  proof (cases "p \<in> words [''null''] \<or> p \<in> words [''true'', ''false'']")
    case True
    then have "p = bytes_of ''null'' \<and> t = 4 \<or> p = bytes_of ''true'' \<and> t = 3 \<or> p = bytes_of ''false'' \<and> t = 3"
      using spec by (auto simp: json12_spec_def words_def)
    then show ?thesis
      by (elim disjE) (simp_all add: compat11_def ci_eq_def yep_tag_bool_value_def ascii_lower_def)
  next
    case False
    then have "p \<in> json_int" "t = 1" using spec assms(2) by (auto simp: json12_spec_def split: if_splits)
    then show ?thesis using json_int_everywhere by simp
  qed
  with core full show ?thesis by simp
qed

theorem json_scalars_portable_witness:
  "yep_core12_plain (bytes_of ''-120'') = 1 \<and> full12 (bytes_of ''-120'') = 1 \<and> compat11 (bytes_of ''-120'') = 1"
proof -
  have "yep_json12_plain (bytes_of ''-120'') = 1"
    by (simp add: yep_json12_plain_def json_number_def is_digit_def)
  from json_scalars_portable [OF this] show ?thesis by simp
qed

end
