(* ===== verification/Memory.thy ===== *)
theory Memory
  imports Prelude
begin

text \<open>
  The bump allocators: \<^verbatim>\<open>src/yeptris/memory/pool.c\<close>, \<^verbatim>\<open>src/yeptris/memory/arena.c\<close> and the handle
  arena \<^verbatim>\<open>src/yeptris/dom/hpool.c\<close>.

  A \<^verbatim>\<open>size_t\<close> or an address is a \<open>64 word\<close>, so every sum wraps as in C. A block is a record of
  its address, payload size and fill; a chain of blocks is a list, newest first. The system
  allocator is a parameter: \<open>sys bs n\<close> is what it answers to a request of \<open>n\<close> bytes while
  the blocks \<open>bs\<close> are live, \<open>None\<close> for NULL. The mutex of the handle arena brackets the whole
  operation, so its model is the sequential one. The structs themselves are allocated first;
  only whether that succeeds matters.
\<close>

type_synonym size_t = u64

record yep_block =
  bk_addr :: u64
  bk_size :: size_t
  bk_used :: size_t

type_synonym yep_allocator = "yep_block list \<Rightarrow> size_t \<Rightarrow> u64 option"

text \<open>\<^verbatim>\<open>sizeof(yep_block)\<close>: a pointer and two \<^verbatim>\<open>size_t\<close>; the three block types have the same layout.\<close>

definition BLOCK_HEADER :: size_t where
  "BLOCK_HEADER = 24"

definition SIZE_MAX :: size_t where
  "SIZE_MAX = - 1"

definition yep_round_up :: "size_t \<Rightarrow> size_t \<Rightarrow> size_t" where
  "yep_round_up n align = (n + align - 1) AND NOT (align - 1)"

definition yep_align_ok :: "size_t \<Rightarrow> bool" where
  "yep_align_ok align \<longleftrightarrow> align \<noteq> 0 \<and> align AND (align - 1) = 0"

definition yep_block_new :: "yep_allocator \<Rightarrow> yep_block list \<Rightarrow> size_t \<Rightarrow> yep_block option" where
  "yep_block_new sys bs payload =
     (case sys bs (BLOCK_HEADER + payload) of
        None \<Rightarrow> None
      | Some a \<Rightarrow> Some \<lparr>bk_addr = a, bk_size = payload, bk_used = 0\<rparr>)"

text \<open>
  The bump step the three share: in block \<open>b\<close>, with the request already judged to fit at
  \<open>start\<close>.
\<close>

definition bump :: "yep_block \<Rightarrow> u64 \<Rightarrow> size_t \<Rightarrow> yep_block" where
  "bump b start sz = b\<lparr>bk_used := start + sz - (bk_addr b + BLOCK_HEADER)\<rparr>"

definition new_payload :: "size_t \<Rightarrow> size_t \<Rightarrow> size_t \<Rightarrow> size_t" where
  "new_payload payload sz align =
     (if payload < sz + align + BLOCK_HEADER then sz + align + BLOCK_HEADER else payload)"

section \<open>The pool\<close>

record yep_pool =
  pl_chain :: "yep_block list"
  pl_block_size :: size_t
  pl_blocks :: size_t

definition YEP_POOL_DEFAULT_BLOCK :: size_t where
  "YEP_POOL_DEFAULT_BLOCK = 4 * 1024"

definition YEP_POOL_MIN_BLOCK :: size_t where
  "YEP_POOL_MIN_BLOCK = 256"

definition yep_pool_create :: "yep_allocator \<Rightarrow> size_t \<Rightarrow> yep_pool option" where
  "yep_pool_create sys block_size =
     (let block_size = (if block_size = 0 then YEP_POOL_DEFAULT_BLOCK else block_size);
          block_size = (if block_size < YEP_POOL_MIN_BLOCK then YEP_POOL_MIN_BLOCK else block_size)
      in case sys [] 32 of
           None \<Rightarrow> None
         | Some a \<Rightarrow> Some \<lparr>pl_chain = [], pl_block_size = block_size, pl_blocks = 0\<rparr>)"

text \<open>The part of \<^verbatim>\<open>yep_pool_alloc\<close> after the lazy first block; the chain is not empty.\<close>

definition pool_alloc_in ::
    "yep_allocator \<Rightarrow> yep_pool \<Rightarrow> size_t \<Rightarrow> size_t \<Rightarrow> u64 option \<times> yep_pool" where
  "pool_alloc_in sys pool sz align =
     (let b = hd (pl_chain pool);
          base = bk_addr b + BLOCK_HEADER;
          start = yep_round_up (base + bk_used b) align;
          limit = base + bk_size b
      in
        if limit \<le> start \<or> limit - start < sz then
          (case yep_block_new sys (pl_chain pool) (new_payload (pl_block_size pool) sz align) of
             None \<Rightarrow> (None, pool)
           | Some b \<Rightarrow>
               let start = yep_round_up (bk_addr b + BLOCK_HEADER) align in
               (Some start, pool\<lparr>pl_chain := bump b start sz # pl_chain pool, pl_blocks := pl_blocks pool + 1\<rparr>))
        else (Some start, pool\<lparr>pl_chain := bump b start sz # tl (pl_chain pool)\<rparr>))"

definition yep_pool_alloc ::
    "yep_allocator \<Rightarrow> yep_pool \<Rightarrow> size_t \<Rightarrow> size_t \<Rightarrow> u64 option \<times> yep_pool" where
  "yep_pool_alloc sys pool sz align =
     (if sz = 0 \<or> \<not> yep_align_ok align then (None, pool)
      else if (SIZE_MAX - align) div 2 < sz then (None, pool)
      else if pl_chain pool = [] then
        (case yep_block_new sys [] (pl_block_size pool) of
           None \<Rightarrow> (None, pool)
         | Some b \<Rightarrow> pool_alloc_in sys (pool\<lparr>pl_chain := [b], pl_blocks := 1\<rparr>) sz align)
      else pool_alloc_in sys pool sz align)"

text \<open>\<^verbatim>\<open>yep_pool_destroy\<close> frees every block, newest first: the addresses it passes to \<^verbatim>\<open>yep_free\<close>. It
  then frees the pool structure, whose own address the model does not hold.\<close>

definition yep_pool_destroy :: "yep_pool \<Rightarrow> u64 list" where
  "yep_pool_destroy pool = map bk_addr (pl_chain pool)"

section \<open>The arena\<close>

record yep_arena_stats =
  st_blocks :: size_t
  st_capacity :: size_t
  st_used :: size_t
  st_sys_allocs :: size_t

record yep_arena =
  ar_chain :: "yep_block list"
  ar_last_block_size :: size_t
  ar_stats :: yep_arena_stats

record yep_sizing_hints =
  hi_min_capacity :: size_t
  hi_newline_count :: size_t
  hi_colon_count :: size_t
  hi_quote_count :: size_t

definition YEP_ARENA_DEFAULT_BLOCK :: size_t where
  "YEP_ARENA_DEFAULT_BLOCK = 16 * 1024"

definition yep_initial_capacity :: "yep_sizing_hints option \<Rightarrow> size_t" where
  "yep_initial_capacity hints =
     (let cap = YEP_ARENA_DEFAULT_BLOCK in
      case hints of
        None \<Rightarrow> cap
      | Some h \<Rightarrow>
          let derived = hi_min_capacity h + hi_newline_count h * 48 + (hi_colon_count h + hi_quote_count h) * 8
          in if cap < derived then derived else cap)"

definition yep_arena_create :: "yep_allocator \<Rightarrow> yep_sizing_hints option \<Rightarrow> yep_arena option" where
  "yep_arena_create sys hints =
     (case sys [] 56 of
        None \<Rightarrow> None
      | Some a \<Rightarrow>
          let cap = yep_initial_capacity hints in
          (case yep_block_new sys [] cap of
             None \<Rightarrow> None
           | Some b \<Rightarrow>
               Some \<lparr>ar_chain = [b], ar_last_block_size = cap,
                     ar_stats = \<lparr>st_blocks = 1, st_capacity = cap, st_used = 0, st_sys_allocs = 2\<rparr>\<rparr>))"

definition yep_arena_alloc ::
    "yep_allocator \<Rightarrow> yep_arena \<Rightarrow> size_t \<Rightarrow> size_t \<Rightarrow> u64 option \<times> yep_arena" where
  "yep_arena_alloc sys arena sz align =
     (if sz = 0 \<or> \<not> yep_align_ok align then (None, arena)
      else if (SIZE_MAX - align) div 2 < sz then (None, arena)
      else
        let b = hd (ar_chain arena);
            base = bk_addr b + BLOCK_HEADER;
            start = yep_round_up (base + bk_used b) align;
            limit = base + bk_size b;
            st = ar_stats arena
        in
          if limit \<le> start \<or> limit - start < sz then
            let payload = new_payload (ar_last_block_size arena * 2) sz align in
            (case yep_block_new sys (ar_chain arena) payload of
               None \<Rightarrow> (None, arena)
             | Some b \<Rightarrow>
                 let start = yep_round_up (bk_addr b + BLOCK_HEADER) align in
                 (Some start,
                  arena\<lparr>ar_chain := bump b start sz # ar_chain arena, ar_last_block_size := payload,
                        ar_stats := st\<lparr>st_blocks := st_blocks st + 1, st_capacity := st_capacity st + payload,
                                       st_used := st_used st + sz, st_sys_allocs := st_sys_allocs st + 1\<rparr>\<rparr>))
          else
            (Some start,
             arena\<lparr>ar_chain := bump b start sz # tl (ar_chain arena), ar_stats := st\<lparr>st_used := st_used st + sz\<rparr>\<rparr>))"

definition yep_arena_destroy :: "yep_arena \<Rightarrow> u64 list" where
  "yep_arena_destroy arena = map bk_addr (ar_chain arena)"

section \<open>The handle arena\<close>

record yep_hpool =
  hp_chain :: "yep_block list"

definition HPOOL_BLOCK :: size_t where
  "HPOOL_BLOCK = 16 * 1024"

text \<open>\<open>mutex_ok\<close> is the answer of \<^verbatim>\<open>yep_mutex_init\<close>.\<close>

definition yep_hpool_create :: "yep_allocator \<Rightarrow> bool \<Rightarrow> yep_hpool option" where
  "yep_hpool_create sys mutex_ok =
     (case sys [] 56 of
        None \<Rightarrow> None
      | Some a \<Rightarrow>
          if \<not> mutex_ok then None
          else (case yep_block_new sys [] HPOOL_BLOCK of None \<Rightarrow> None | Some b \<Rightarrow> Some \<lparr>hp_chain = [b]\<rparr>))"

definition yep_hpool_alloc ::
    "yep_allocator \<Rightarrow> yep_hpool \<Rightarrow> size_t \<Rightarrow> size_t \<Rightarrow> u64 option \<times> yep_hpool" where
  "yep_hpool_alloc sys p sz align =
     (if sz = 0 \<or> \<not> yep_align_ok align then (None, p)
      else
        let b = hd (hp_chain p);
            base = bk_addr b + BLOCK_HEADER;
            start = yep_round_up (base + bk_used b) align
        in
          if base + bk_size b < start + sz then
            (case yep_block_new sys (hp_chain p) (new_payload HPOOL_BLOCK sz align) of
               None \<Rightarrow> (None, p)
             | Some nb \<Rightarrow>
                 let start = yep_round_up (bk_addr nb + BLOCK_HEADER) align in
                 (Some start, p\<lparr>hp_chain := bump nb start sz # hp_chain p\<rparr>))
          else (Some start, p\<lparr>hp_chain := bump b start sz # tl (hp_chain p)\<rparr>))"

definition yep_hpool_destroy :: "yep_hpool \<Rightarrow> u64 list" where
  "yep_hpool_destroy p = map bk_addr (hp_chain p)"

end
