(* ===== verification/Memory_Facts.thy ===== *)
theory Memory_Facts
  imports Memory
begin

text \<open>
  The three bump allocators of \<open>Memory\<close> meet one contract, the locale \<open>bump_allocator\<close>: an
  allocation keeps the chain of blocks well formed and hands out an aligned region that no
  earlier one overlaps. The pool and the arena meet it for every request, the handle arena
  for requests below a quarter of the address space; past that its fit test wraps.
\<close>

section \<open>Alignment arithmetic\<close>

lemma pow2_test_nat: "n \<noteq> 0 \<Longrightarrow> n AND (n - 1) = 0 \<Longrightarrow> \<exists>k. n = 2 ^ k" for n :: nat
proof (induction n rule: less_induct)
  case (less n)
  have rec: "n AND (n - 1) = of_bool (odd n \<and> odd (n - 1)) + 2 * ((n div 2) AND ((n - 1) div 2))"
    by (rule and_rec)
  show ?case
  proof (cases "even n")
    case True
    then obtain j where j: "n = 2 * j" by (elim evenE)
    then have "(n - 1) div 2 = j - 1" "j \<noteq> 0" using less.prems by auto
    then have "j AND (j - 1) = 0" using rec less.prems j by simp
    with less.IH [of j] j \<open>j \<noteq> 0\<close> obtain k where "j = 2 ^ k" by auto
    with j have "n = 2 ^ Suc k" by simp
    then show ?thesis by blast
  next
    case False
    then obtain j where j: "n = 2 * j + 1" by (elim oddE)
    then have "n div 2 AND ((n - 1) div 2) = j" by simp
    then have "j = 0" using rec less.prems by simp
    with j show ?thesis by (intro exI [of _ 0]) simp
  qed
qed

lemma align_pow2:
  assumes "yep_align_ok a"
  obtains k where "k < 64" "unat a = 2 ^ k" "a = 2 ^ k"
proof -
  have "unat a \<noteq> 0" "unat a AND (unat a - 1) = 0"
    using assms unat_minus_one [of a] unsigned_and_eq [of a "a - 1", where 'a = nat]
    by (auto simp: yep_align_ok_def unsigned_eq_0_iff)
  then obtain k where k: "unat a = 2 ^ k" using pow2_test_nat by blast
  have "unat a < 2 ^ 64" by (rule unat_u64)
  with k have k64: "k < 64" by (metis one_less_numeral_iff power_less_imp_less_exp semiring_norm(76))
  then have "a = 2 ^ k" using k by (simp add: word_unat_eq_iff unat_pow2_u64)
  then show thesis by (rule that [OF k64 k])
qed

lemma and_not_mask_unat:
  fixes x :: u64
  assumes "k < 64"
  shows "unat (x AND NOT (2 ^ k - 1)) = unat x div 2 ^ k * 2 ^ k"
proof -
  have m: "(2 ^ k - 1 :: u64) = mask k" by (simp add: mask_eq_exp_minus_1)
  have "x AND NOT (2 ^ k - 1) = push_bit k (drop_bit k x)"
    unfolding m by (rule bit_word_eqI) (auto simp: bit_simps)
  then have "unat (x AND NOT (2 ^ k - 1)) = (unat x div 2 ^ k * 2 ^ k) mod 2 ^ 64"
    by (simp add: unat_push_bit unat_drop_bit)
  also have "\<dots> = unat x div 2 ^ k * 2 ^ k"
    using le_less_trans [OF div_times_less_eq_dividend unat_u64, of x "2 ^ k"] by (rule mod_less)
  finally show ?thesis .
qed

lemma round_up_spec:
  assumes "k < 64" and "unat n + 2 ^ k \<le> 2 ^ 64"
  shows "unat n \<le> unat (yep_round_up n (2 ^ k))" and "unat (yep_round_up n (2 ^ k)) < unat n + 2 ^ k"
    and "2 ^ k dvd unat (yep_round_up n (2 ^ k))"
proof -
  have uk: "unat (2 ^ k :: u64) = 2 ^ k"
    using assms(1) by (rule unat_pow2_u64)
  have pos: "(2::nat) ^ k \<ge> 1" by simp
  have "unat (n + 2 ^ k - 1) = unat n + 2 ^ k - 1"
  proof -
    obtain m where m: "unat n + 2 ^ k = Suc m" using pos by (cases "unat n + 2 ^ k") auto
    have "n + 2 ^ k = of_nat (unat n + 2 ^ k)" by simp
    also have "\<dots> = of_nat m + 1" unfolding m by simp
    finally have "n + 2 ^ k - 1 = of_nat m" by simp
    then show ?thesis using m assms(2) by (simp add: unat_of_nat_u64)
  qed
  then have r: "unat (yep_round_up n (2 ^ k)) = (unat n + 2 ^ k - 1) div 2 ^ k * 2 ^ k"
    unfolding yep_round_up_def and_not_mask_unat [OF assms(1)] by simp
  have d: "(unat n + 2 ^ k - 1) = (unat n + 2 ^ k - 1) div 2 ^ k * 2 ^ k + (unat n + 2 ^ k - 1) mod 2 ^ k"
    by (rule div_mult_mod_eq [symmetric])
  have "(unat n + 2 ^ k - 1) mod 2 ^ k < 2 ^ k" by simp
  with d pos show "unat n \<le> unat (yep_round_up n (2 ^ k))" "unat (yep_round_up n (2 ^ k)) < unat n + 2 ^ k"
    unfolding r by linarith+
  show "2 ^ k dvd unat (yep_round_up n (2 ^ k))" unfolding r by simp
qed

section \<open>Blocks and what they have handed out\<close>

text \<open>
  What the code relies on of the system allocator: a granted request is a fresh, non-null piece
  of the lower half of the address space, disjoint from the live blocks.
\<close>

definition extent :: "yep_block \<Rightarrow> nat set" where
  "extent b = {unat (bk_addr b) ..< unat (bk_addr b) + 24 + unat (bk_size b)}"

definition sys_ok :: "yep_allocator \<Rightarrow> bool" where
  "sys_ok sys \<longleftrightarrow>
     (\<forall>bs n a. sys bs n = Some a \<longrightarrow> a \<noteq> 0 \<and> unat a + unat n \<le> 2 ^ 63 \<and>
        list_all (\<lambda>b. {unat a ..< unat a + unat n} \<inter> extent b = {}) bs)"

definition base_of :: "yep_block \<Rightarrow> nat" where
  "base_of b = unat (bk_addr b) + 24"

definition block_ok :: "yep_block \<Rightarrow> bool" where
  "block_ok b \<longleftrightarrow> base_of b + unat (bk_size b) \<le> 2 ^ 63 \<and> unat (bk_used b) \<le> unat (bk_size b)"

definition filled :: "yep_block \<Rightarrow> nat set" where
  "filled b = {base_of b ..< base_of b + unat (bk_used b)}"

definition chain_ok :: "yep_block list \<Rightarrow> bool" where
  "chain_ok bs \<longleftrightarrow> list_all block_ok bs \<and> sorted_wrt (\<lambda>a b. extent a \<inter> extent b = {}) bs"

definition owned :: "yep_block list \<Rightarrow> nat set" where
  "owned bs = \<Union> (filled ` set bs)"

lemma filled_extent: "block_ok b \<Longrightarrow> filled b \<subseteq> extent b"
  by (auto simp: filled_def extent_def block_ok_def base_of_def)

text \<open>A request that fits: it is served past everything the block has handed out.\<close>

lemma unat_base: "block_ok b \<Longrightarrow> unat (bk_addr b + BLOCK_HEADER) = base_of b"
  by (simp add: BLOCK_HEADER_def base_of_def block_ok_def unat_word_ariths)

lemma bump_ok:
  assumes ok: "block_ok b" and s: "base_of b + unat (bk_used b) \<le> unat start"
    and fit: "unat start + unat sz \<le> base_of b + unat (bk_size b)" and pos: "sz \<noteq> 0"
  shows "block_ok (bump b start sz)" and "filled b \<subseteq> filled (bump b start sz)"
    and "extent (bump b start sz) = extent b"
    and "{unat start ..< unat start + unat sz} \<subseteq> filled (bump b start sz) - filled b"
    and "unat start + unat sz \<le> 2 ^ 63" and "start \<noteq> 0"
proof -
  have top: "base_of b + unat (bk_size b) \<le> 2 ^ 63" using ok by (simp add: block_ok_def)
  have "unat (start + sz) = unat start + unat sz" using fit top by (simp add: unat_word_ariths)
  moreover have "unat (start + sz - (bk_addr b + BLOCK_HEADER)) = unat (start + sz) - base_of b"
    using s unat_base [OF ok] \<open>unat (start + sz) = _\<close> by (simp add: unat_sub word_le_nat_alt)
  ultimately have used: "unat (bk_used (bump b start sz)) = unat start + unat sz - base_of b"
    by (simp add: bump_def)
  have same: "base_of (bump b start sz) = base_of b" "bk_size (bump b start sz) = bk_size b"
    "bk_addr (bump b start sz) = bk_addr b" by (simp_all add: bump_def base_of_def)
  show "block_ok (bump b start sz)" using ok fit used same by (simp add: block_ok_def)
  show "filled b \<subseteq> filled (bump b start sz)" using s used same by (auto simp: filled_def)
  show "extent (bump b start sz) = extent b" by (simp add: extent_def same)
  show "{unat start ..< unat start + unat sz} \<subseteq> filled (bump b start sz) - filled b"
    using s used same by (auto simp: filled_def)
  show "unat start + unat sz \<le> 2 ^ 63" using fit top by simp
  show "start \<noteq> 0" using s by (auto simp: base_of_def)
qed

lemma fits_here:
  assumes ok: "block_ok b" and k: "k < 64"
    and fit: "\<not> (bk_addr b + BLOCK_HEADER + bk_size b \<le> start \<or> bk_addr b + BLOCK_HEADER + bk_size b - start < sz)"
    and start: "start = yep_round_up (bk_addr b + BLOCK_HEADER + bk_used b) (2 ^ k)"
  shows "base_of b + unat (bk_used b) \<le> unat start" and "unat start + unat sz \<le> base_of b + unat (bk_size b)"
    and "2 ^ k dvd unat start"
proof -
  have top: "base_of b + unat (bk_size b) \<le> 2 ^ 63" "unat (bk_used b) \<le> unat (bk_size b)"
    using ok by (simp_all add: block_ok_def)
  have u: "unat (bk_addr b + BLOCK_HEADER + bk_used b) = base_of b + unat (bk_used b)"
    and l: "unat (bk_addr b + BLOCK_HEADER + bk_size b) = base_of b + unat (bk_size b)"
    using top unat_base [OF ok] by (simp_all add: unat_word_ariths)
  have "(2::nat) ^ k \<le> 2 ^ 63" using k by (intro power_increasing) simp_all
  then have "unat (bk_addr b + BLOCK_HEADER + bk_used b) + 2 ^ k \<le> 2 ^ 64" using u top by simp
  note r = round_up_spec [OF k this, folded start]
  show "base_of b + unat (bk_used b) \<le> unat start" "2 ^ k dvd unat start" using r u by simp_all
  have "unat start < base_of b + unat (bk_size b)" using fit l by (simp add: word_le_nat_alt)
  moreover have "unat sz \<le> base_of b + unat (bk_size b) - unat start"
    using fit l calculation by (simp add: word_less_nat_alt word_le_nat_alt unat_sub)
  ultimately show "unat start + unat sz \<le> base_of b + unat (bk_size b)" by simp
qed

section \<open>The effect of one allocation on a chain\<close>

definition alloc_effect :: "size_t \<Rightarrow> size_t \<Rightarrow> yep_block list \<Rightarrow> u64 option \<Rightarrow> yep_block list \<Rightarrow> bool" where
  "alloc_effect sz align bs r bs' \<longleftrightarrow>
     chain_ok bs' \<and> owned bs \<subseteq> owned bs' \<and>
     (case r of None \<Rightarrow> True
      | Some s \<Rightarrow> s \<noteq> 0 \<and> unat align dvd unat s \<and> unat s + unat sz \<le> 2 ^ 63 \<and>
          {unat s ..< unat s + unat sz} \<subseteq> owned bs' - owned bs)"

lemma chain_region_fresh:
  assumes "chain_ok (b # bs)" and "X \<subseteq> extent b"
  shows "X \<inter> owned bs = {}"
proof -
  have "filled c \<inter> extent b = {}" if "c \<in> set bs" for c
    using assms(1) filled_extent [of c] that by (fastforce simp: chain_ok_def list_all_iff)
  with assms(2) show ?thesis by (auto simp: owned_def)
qed

lemma bump_effect:
  assumes ch: "chain_ok (b # bs)" and s: "base_of b + unat (bk_used b) \<le> unat start"
    and fit: "unat start + unat sz \<le> base_of b + unat (bk_size b)" and pos: "sz \<noteq> 0" and al: "unat align dvd unat start"
  shows "alloc_effect sz align (b # bs) (Some start) (bump b start sz # bs)"
proof -
  have ok: "block_ok b" using ch by (simp add: chain_ok_def)
  note bp = bump_ok [OF ok s fit pos]
  have ch': "chain_ok (bump b start sz # bs)" using ch bp(1,3) by (simp add: chain_ok_def)
  let ?X = "{unat start ..< unat start + unat sz}"
  have "?X \<subseteq> extent (bump b start sz)" using bp(4) filled_extent [OF bp(1)] by blast
  then have "?X \<inter> owned bs = {}" by (rule chain_region_fresh [OF ch'])
  with bp ch' al show ?thesis by (auto simp: alloc_effect_def owned_def)
qed

lemma alloc_effect_mono:
  assumes "alloc_effect sz align bs' r bs''" and "owned bs \<subseteq> owned bs'"
  shows "alloc_effect sz align bs r bs''"
  using assms by (auto simp: alloc_effect_def split: option.splits)

lemma alloc_effect_none: "chain_ok bs \<Longrightarrow> alloc_effect sz align bs None bs"
  by (simp add: alloc_effect_def)

lemma block_new_ok:
  assumes sys: "sys_ok sys" and ch: "chain_ok bs" and new: "yep_block_new sys bs payload = Some b"
    and room: "unat payload + 24 < 2 ^ 64"
  shows "chain_ok (b # bs) \<and> owned (b # bs) = owned bs \<and> bk_size b = payload \<and> bk_used b = 0"
proof -
  obtain a where a: "sys bs (BLOCK_HEADER + payload) = Some a" "b = \<lparr>bk_addr = a, bk_size = payload, bk_used = 0\<rparr>"
    using new by (auto simp: yep_block_new_def split: option.splits)
  have n: "unat (BLOCK_HEADER + payload) = 24 + unat payload"
    using room by (simp add: BLOCK_HEADER_def unat_word_ariths)
  have "a \<noteq> 0 \<and> unat a + (24 + unat payload) \<le> 2 ^ 63 \<and>
      list_all (\<lambda>c. {unat a ..< unat a + (24 + unat payload)} \<inter> extent c = {}) bs"
    using sys a(1) unfolding sys_ok_def n [symmetric] by blast
  then have "block_ok b" "list_all (\<lambda>c. extent b \<inter> extent c = {}) bs"
    by (simp_all add: a(2) block_ok_def base_of_def extent_def add.assoc)
  with ch show ?thesis by (auto simp: chain_ok_def a(2) owned_def filled_def list_all_iff)
qed

lemma new_block_effect:
  assumes sys: "sys_ok sys" and ch: "chain_ok bs" and new: "yep_block_new sys bs payload = Some b"
    and room: "unat sz + 2 ^ k + 24 \<le> unat payload" "unat payload + 24 < 2 ^ 64" and k: "k < 64" "unat align = 2 ^ k" "align = 2 ^ k"
    and pos: "sz \<noteq> 0" and start: "start = yep_round_up (bk_addr b + BLOCK_HEADER) align"
  shows "alloc_effect sz align bs (Some start) (bump b start sz # bs)"
proof -
  have nb: "chain_ok (b # bs)" "owned (b # bs) = owned bs" "bk_size b = payload" "bk_used b = 0"
    using block_new_ok [OF sys ch new room(2)] by auto
  have ok: "block_ok b" using nb(1) by (simp add: chain_ok_def)
  have base: "unat (bk_addr b + BLOCK_HEADER) = base_of b" by (rule unat_base [OF ok])
  have top: "base_of b + unat payload \<le> 2 ^ 63" using ok nb(3) by (simp add: block_ok_def)
  then have "unat (bk_addr b + BLOCK_HEADER) + 2 ^ k \<le> 2 ^ 64" using base room(1) by simp
  note r = round_up_spec [OF k(1) this, folded k(3), folded start]
  have "alloc_effect sz align (b # bs) (Some start) (bump b start sz # bs)"
    using r base nb room(1) top k(2) pos by (intro bump_effect) simp_all
  then show ?thesis using nb(2) by (simp add: alloc_effect_def)
qed

lemma guard_spec:
  assumes "\<not> (SIZE_MAX - align) div 2 < sz" and k: "k < 64" "unat align = 2 ^ k"
    and pl: "unat pl + 24 < 2 ^ 64"
  shows "unat sz + 2 ^ k + 24 \<le> unat (new_payload pl sz align)" and "unat (new_payload pl sz align) + 24 < 2 ^ 64"
proof -
  have "unat (SIZE_MAX - align) = 2 ^ 64 - 1 - 2 ^ k"
    using unat_sub [of align "- 1"] k(2)
    by (simp add: SIZE_MAX_def unsigned_minus_1_eq_mask mask_eq_exp_minus_1)
  then have "unat ((SIZE_MAX - align) div 2) = (2 ^ 64 - 1 - 2 ^ k) div 2"
    by (simp add: unat_div_distrib)
  then have "unat sz \<le> (2 ^ 64 - 1 - 2 ^ k) div 2" using assms(1) by (simp add: word_less_nat_alt)
  moreover have "(2::nat) ^ k \<le> 2 ^ 63" using k(1) by (intro power_increasing) simp_all
  ultimately have sum: "unat sz + 2 ^ k + 48 < 2 ^ 64" by simp
  then have "unat (sz + align + BLOCK_HEADER) = unat sz + 2 ^ k + 24"
    using k(2) by (simp add: unat_word_ariths BLOCK_HEADER_def)
  with sum pl show "unat sz + 2 ^ k + 24 \<le> unat (new_payload pl sz align)"
    "unat (new_payload pl sz align) + 24 < 2 ^ 64"
    by (auto simp: new_payload_def word_less_nat_alt)
qed

section \<open>The allocator contract\<close>

text \<open>
  A client issues requests in sequence. \<open>granted\<close> are the address and size of the successful
  ones.
\<close>

fun run_allocs ::
    "('p \<Rightarrow> size_t \<Rightarrow> size_t \<Rightarrow> u64 option \<times> 'p) \<Rightarrow> (size_t \<times> size_t) list \<Rightarrow> 'p \<Rightarrow>
     (u64 option \<times> size_t \<times> size_t) list \<times> 'p" where
  "run_allocs alloc [] p = ([], p)"
| "run_allocs alloc ((sz, al) # reqs) p =
     (let (r, p') = alloc p sz al; (outs, p'') = run_allocs alloc reqs p' in ((r, sz, al) # outs, p''))"

definition region :: "u64 option \<times> size_t \<times> size_t \<Rightarrow> nat set" where
  "region = (\<lambda>(r, sz, al). case r of None \<Rightarrow> {} | Some s \<Rightarrow> {unat s ..< unat s + unat sz})"

definition well_placed :: "u64 option \<times> size_t \<times> size_t \<Rightarrow> bool" where
  "well_placed = (\<lambda>(r, sz, al). case r of None \<Rightarrow> True
     | Some s \<Rightarrow> s \<noteq> 0 \<and> unat al dvd unat s \<and> unat s + unat sz \<le> 2 ^ 63)"

locale bump_allocator =
  fixes alloc :: "'p \<Rightarrow> size_t \<Rightarrow> size_t \<Rightarrow> u64 option \<times> 'p"
    and chain :: "'p \<Rightarrow> yep_block list"
    and inv :: "'p \<Rightarrow> bool"
    and legal :: "size_t \<times> size_t \<Rightarrow> bool"
  assumes step: "inv p \<Longrightarrow> legal (sz, al) \<Longrightarrow> alloc p sz al = (r, p') \<Longrightarrow>
      inv p' \<and> alloc_effect sz al (chain p) r (chain p')"
begin

lemma run_disjoint:
  assumes "inv p" and "list_all legal reqs" and "run_allocs alloc reqs p = (outs, p')"
  shows "inv p' \<and> owned (chain p) \<subseteq> owned (chain p') \<and> list_all well_placed outs \<and>
    sorted_wrt (\<lambda>a b. region a \<inter> region b = {}) outs \<and>
    list_all (\<lambda>a. region a \<subseteq> owned (chain p') - owned (chain p)) outs"
  using assms
proof (induction reqs arbitrary: p outs)
  case Nil
  then show ?case by simp
next
  case (Cons q reqs)
  obtain sz al where q: "q = (sz, al)" by fastforce
  obtain r p1 where r: "alloc p sz al = (r, p1)" by fastforce
  obtain outs1 where o: "run_allocs alloc reqs p1 = (outs1, p')" "outs = (r, sz, al) # outs1"
    using Cons.prems(3) by (auto simp: q r split: prod.splits)
  have st: "inv p1" "alloc_effect sz al (chain p) r (chain p1)"
    using step [OF Cons.prems(1) _ r] Cons.prems(2) by (simp_all add: q)
  have eff: "owned (chain p) \<subseteq> owned (chain p1)" "well_placed (r, sz, al)"
      "region (r, sz, al) \<subseteq> owned (chain p1) - owned (chain p)"
    using st(2) by (auto simp: alloc_effect_def well_placed_def region_def split: option.splits)
  have ih: "inv p'" "owned (chain p1) \<subseteq> owned (chain p')" "list_all well_placed outs1"
      "sorted_wrt (\<lambda>a b. region a \<inter> region b = {}) outs1"
      "list_all (\<lambda>a. region a \<subseteq> owned (chain p') - owned (chain p1)) outs1"
    using Cons.IH [OF st(1) _ o(1)] Cons.prems(2) by simp_all
  with eff show ?case unfolding o(2) by (simp add: list_all_iff) blast
qed

end

section \<open>The three allocators meet it\<close>

lemma serve:
  assumes sys: "sys_ok sys" and ch: "chain_ok bs" and b: "bs = b # bs0" and guard: "\<not> (SIZE_MAX - align) div 2 < sz"
    and al: "yep_align_ok align" and pos: "sz \<noteq> 0" and pl: "unat pl + 24 < 2 ^ 64"
  shows "\<not> (bk_addr b + BLOCK_HEADER + bk_size b \<le> yep_round_up (bk_addr b + BLOCK_HEADER + bk_used b) align \<or>
       bk_addr b + BLOCK_HEADER + bk_size b - yep_round_up (bk_addr b + BLOCK_HEADER + bk_used b) align < sz) \<Longrightarrow>
     alloc_effect sz align bs (Some (yep_round_up (bk_addr b + BLOCK_HEADER + bk_used b) align))
       (bump b (yep_round_up (bk_addr b + BLOCK_HEADER + bk_used b) align) sz # bs0)"
    and "yep_block_new sys bs (new_payload pl sz align) = Some nb \<Longrightarrow>
     alloc_effect sz align bs (Some (yep_round_up (bk_addr nb + BLOCK_HEADER) align))
       (bump nb (yep_round_up (bk_addr nb + BLOCK_HEADER) align) sz # bs)"
proof -
  obtain k where k: "k < 64" "unat align = 2 ^ k" "align = 2 ^ k" by (rule align_pow2 [OF al])
  have ok: "block_ok b" using ch b by (simp add: chain_ok_def)
  let ?start = "yep_round_up (bk_addr b + BLOCK_HEADER + bk_used b) align"
  assume fit: "\<not> (bk_addr b + BLOCK_HEADER + bk_size b \<le> ?start \<or> bk_addr b + BLOCK_HEADER + bk_size b - ?start < sz)"
  have "?start = yep_round_up (bk_addr b + BLOCK_HEADER + bk_used b) (2 ^ k)" by (simp add: k(3))
  from fits_here [OF ok k(1) fit this] show "alloc_effect sz align bs (Some ?start) (bump b ?start sz # bs0)"
    using ch pos k(2) unfolding b by (intro bump_effect) simp_all
next
  obtain k where k: "k < 64" "unat align = 2 ^ k" "align = 2 ^ k" by (rule align_pow2 [OF al])
  note g = guard_spec [OF guard k(1,2) pl]
  assume new: "yep_block_new sys bs (new_payload pl sz align) = Some nb"
  show "alloc_effect sz align bs (Some (yep_round_up (bk_addr nb + BLOCK_HEADER) align))
       (bump nb (yep_round_up (bk_addr nb + BLOCK_HEADER) align) sz # bs)"
    by (rule new_block_effect [OF sys ch new g k pos refl])
qed

definition pool_ok :: "yep_allocator \<Rightarrow> yep_pool \<Rightarrow> bool" where
  "pool_ok sys p \<longleftrightarrow> sys_ok sys \<and> chain_ok (pl_chain p) \<and> unat (pl_block_size p) + 24 < 2 ^ 64"

definition any_request :: "size_t \<times> size_t \<Rightarrow> bool" where
  "any_request req = True"

interpretation pool: bump_allocator "yep_pool_alloc sys" pl_chain "pool_ok sys" any_request for sys
proof (unfold_locales, goal_cases)
  case (1 p sz al r p')
  have inner: "pool_ok sys q' \<and> alloc_effect sz al (pl_chain q) r (pl_chain q')"
    if "pool_ok sys q" "pl_chain q = b # bs" "sz \<noteq> 0" "yep_align_ok al" "\<not> (SIZE_MAX - al) div 2 < sz"
      "pool_alloc_in sys q sz al = (r, q')" for q b bs q'
  proof -
    have q: "sys_ok sys" "chain_ok (pl_chain q)" "unat (pl_block_size q) + 24 < 2 ^ 64"
      using that(1) by (simp_all add: pool_ok_def)
    note sv = serve [OF q(1,2) that(2,5,4,3) q(3)]
    let ?start = "yep_round_up (bk_addr b + BLOCK_HEADER + bk_used b) al"
    let ?limit = "bk_addr b + BLOCK_HEADER + bk_size b"
    consider (fits) "\<not> (?limit \<le> ?start \<or> ?limit - ?start < sz)"
      | (refused) "?limit \<le> ?start \<or> ?limit - ?start < sz"
          "yep_block_new sys (pl_chain q) (new_payload (pl_block_size q) sz al) = None"
      | (grown) nb where "?limit \<le> ?start \<or> ?limit - ?start < sz"
          "yep_block_new sys (pl_chain q) (new_payload (pl_block_size q) sz al) = Some nb"
      by fastforce
    then show ?thesis
    proof cases
      case fits
      then have "r = Some ?start" "q' = q\<lparr>pl_chain := bump b ?start sz # bs\<rparr>"
        using that(6) by (simp_all add: pool_alloc_in_def Let_def that(2))
      with sv(1) [OF fits] q show ?thesis by (simp add: pool_ok_def alloc_effect_def)
    next
      case refused
      then have "r = None" "q' = q"
        using that(6) by (auto simp: pool_alloc_in_def Let_def that(2))
      with alloc_effect_none [OF q(2)] that(1) show ?thesis by simp
    next
      case (grown nb)
      then have "r = Some (yep_round_up (bk_addr nb + BLOCK_HEADER) al)"
          "pl_chain q' = bump nb (yep_round_up (bk_addr nb + BLOCK_HEADER) al) sz # pl_chain q"
          "pl_block_size q' = pl_block_size q"
        using that(6) by (auto simp: pool_alloc_in_def Let_def that(2))
      with sv(2) [OF grown(2)] q show ?thesis by (simp add: pool_ok_def alloc_effect_def)
    qed
  qed
  have p: "sys_ok sys" "chain_ok (pl_chain p)" "unat (pl_block_size p) + 24 < 2 ^ 64"
    using 1(1) by (simp_all add: pool_ok_def)
  consider "r = None" "p' = p" | "sz \<noteq> 0" "yep_align_ok al" "\<not> (SIZE_MAX - al) div 2 < sz"
    using 1(3) by (auto simp: yep_pool_alloc_def split: if_splits)
  then show ?case
  proof cases
    case 1
    then show ?thesis using p alloc_effect_none [OF p(2)] by (simp add: pool_ok_def)
  next
    case guards: 2
    show ?thesis
    proof (cases "pl_chain p")
      case (Cons b bs)
      then show ?thesis
        using inner [OF 1(1) Cons guards] 1(3) guards by (simp add: yep_pool_alloc_def)
    next
      case Nil
      show ?thesis
      proof (cases "yep_block_new sys [] (pl_block_size p)")
        case None
        then show ?thesis
          using 1(1,3) guards Nil p(2) by (simp add: yep_pool_alloc_def alloc_effect_def)
      next
        case (Some b)
        let ?q = "p\<lparr>pl_chain := [b], pl_blocks := 1\<rparr>"
        have nb: "chain_ok [b]" "owned [b] = owned []"
          using block_new_ok [OF p(1) _ Some p(3)] by (simp_all add: chain_ok_def)
        have "pool_alloc_in sys ?q sz al = (r, p')"
          using 1(3) guards Nil Some by (simp add: yep_pool_alloc_def)
        from inner [OF _ _ guards this] p nb show ?thesis
          by (auto simp: pool_ok_def Nil intro: alloc_effect_mono)
      qed
    qed
  qed
qed

definition arena_ok :: "yep_allocator \<Rightarrow> yep_arena \<Rightarrow> bool" where
  "arena_ok sys a \<longleftrightarrow> sys_ok sys \<and> chain_ok (ar_chain a) \<and> ar_chain a \<noteq> [] \<and>
     ar_last_block_size a = bk_size (hd (ar_chain a))"

interpretation arena: bump_allocator "yep_arena_alloc sys" ar_chain "arena_ok sys" any_request for sys
proof (unfold_locales, goal_cases)
  case (1 p sz al r p')
  obtain b bs where c: "ar_chain p = b # bs" using 1(1) by (auto simp: arena_ok_def neq_Nil_conv)
  have p: "sys_ok sys" "chain_ok (ar_chain p)" and last: "ar_last_block_size p = bk_size b"
    using 1(1) c by (simp_all add: arena_ok_def)
  have "base_of b + unat (bk_size b) \<le> 2 ^ 63" using p(2) c by (simp add: chain_ok_def block_ok_def)
  then have dbl: "unat (ar_last_block_size p * 2) + 24 < 2 ^ 64"
    by (simp add: last base_of_def unat_word_ariths)
  show ?case
  proof (cases "sz = 0 \<or> \<not> yep_align_ok al \<or> (SIZE_MAX - al) div 2 < sz")
    case True
    then have "yep_arena_alloc sys p sz al = (None, p)" by (auto simp: yep_arena_alloc_def)
    then show ?thesis using 1(1,3) alloc_effect_none [OF p(2)] by simp
  next
    case False
    then have g: "\<not> (SIZE_MAX - al) div 2 < sz" "yep_align_ok al" "sz \<noteq> 0" by auto
    note sv = serve [OF p c g dbl]
    show ?thesis
      using 1(1,3) sv c g alloc_effect_none [OF p(2), of sz al]
      by (auto simp: yep_arena_alloc_def Let_def arena_ok_def alloc_effect_def bump_def yep_block_new_def
          split: if_splits option.splits)
  qed
qed

text \<open>
  The handle arena has no guard of its own and tests \<^verbatim>\<open>start + size\<close>; it meets the contract for
  requests well below half the address space.
\<close>

definition hpool_ok :: "yep_allocator \<Rightarrow> yep_hpool \<Rightarrow> bool" where
  "hpool_ok sys p \<longleftrightarrow> sys_ok sys \<and> chain_ok (hp_chain p) \<and> hp_chain p \<noteq> []"

definition sane_request :: "size_t \<times> size_t \<Rightarrow> bool" where
  "sane_request = (\<lambda>(sz, al). unat sz + unat al \<le> 2 ^ 62)"

lemma sane_guard:
  assumes "sane_request (sz, al)"
  shows "\<not> (SIZE_MAX - al) div 2 < sz"
proof -
  have "unat (SIZE_MAX - al) = 2 ^ 64 - 1 - unat al"
    using unat_sub [of al "- 1"] by (simp add: SIZE_MAX_def unsigned_minus_1_eq_mask mask_eq_exp_minus_1)
  then have "unat ((SIZE_MAX - al) div 2) = (2 ^ 64 - 1 - unat al) div 2" by (simp add: unat_div_distrib)
  with assms show ?thesis by (simp add: word_less_nat_alt sane_request_def)
qed

lemma hpool_fit:
  assumes ok: "block_ok b" and al: "yep_align_ok al" and sane: "sane_request (sz, al)" and pos: "sz \<noteq> 0"
    and start: "start = yep_round_up (bk_addr b + BLOCK_HEADER + bk_used b) al"
    and fit: "\<not> bk_addr b + BLOCK_HEADER + bk_size b < start + sz"
  shows "\<not> (bk_addr b + BLOCK_HEADER + bk_size b \<le> start \<or> bk_addr b + BLOCK_HEADER + bk_size b - start < sz)"
proof -
  obtain k where k: "k < 64" "unat al = 2 ^ k" "al = 2 ^ k" by (rule align_pow2 [OF al])
  have top: "base_of b + unat (bk_size b) \<le> 2 ^ 63" "unat (bk_used b) \<le> unat (bk_size b)"
    using ok by (simp_all add: block_ok_def)
  have u: "unat (bk_addr b + BLOCK_HEADER + bk_used b) = base_of b + unat (bk_used b)"
    and l: "unat (bk_addr b + BLOCK_HEADER + bk_size b) = base_of b + unat (bk_size b)"
    using top unat_base [OF ok] by (simp_all add: unat_word_ariths)
  have s62: "unat sz + 2 ^ k \<le> 2 ^ 62" using sane k(2) by (simp add: sane_request_def)
  then have "unat (bk_addr b + BLOCK_HEADER + bk_used b) + 2 ^ k \<le> 2 ^ 64" using u top by simp
  from round_up_spec(2) [OF k(1) this, folded k(3), folded start] s62 top u
  have "unat start + unat sz < 2 ^ 64" by simp
  then have "unat (start + sz) = unat start + unat sz" by (simp add: unat_word_ariths)
  then have le: "unat start + unat sz \<le> base_of b + unat (bk_size b)" using fit l by (simp add: word_less_nat_alt)
  have "unat sz \<noteq> 0" using pos by (simp add: unsigned_eq_0_iff)
  with le l show ?thesis by (simp add: word_le_nat_alt word_less_nat_alt unat_sub)
qed

interpretation hpool: bump_allocator "yep_hpool_alloc sys" hp_chain "hpool_ok sys" sane_request for sys
proof (unfold_locales, goal_cases)
  case (1 p sz al r p')
  obtain b bs where c: "hp_chain p = b # bs" using 1(1) by (auto simp: hpool_ok_def neq_Nil_conv)
  have p: "sys_ok sys" "chain_ok (hp_chain p)" using 1(1) by (simp_all add: hpool_ok_def)
  have ok: "block_ok b" using p(2) c by (simp add: chain_ok_def)
  show ?case
  proof (cases "sz = 0 \<or> \<not> yep_align_ok al")
    case True
    then have "yep_hpool_alloc sys p sz al = (None, p)" by (auto simp: yep_hpool_alloc_def)
    then show ?thesis using 1(1,3) alloc_effect_none [OF p(2)] by simp
  next
    case False
    then have g: "yep_align_ok al" "sz \<noteq> 0" by auto
    have "unat HPOOL_BLOCK + 24 < 2 ^ 64" by (simp add: HPOOL_BLOCK_def)
    note sv = serve [OF p c sane_guard [OF 1(2)] g this]
    note fit = hpool_fit [OF ok g(1) 1(2) g(2) refl]
    show ?thesis
      using 1(1,3) sv(1) [OF fit] sv(2) c g alloc_effect_none [OF p(2), of sz al]
      by (auto simp: yep_hpool_alloc_def Let_def hpool_ok_def alloc_effect_def split: if_splits option.splits)
  qed
qed

section \<open>A concrete system allocator\<close>

text \<open>Grants every request directly above the highest live block, as long as it stays in the lower half.\<close>

definition ladder_top :: "yep_block list \<Rightarrow> nat" where
  "ladder_top bs = foldr (\<lambda>b m. max m (unat (bk_addr b) + 24 + unat (bk_size b))) bs 4096"

definition ladder_sys :: yep_allocator where
  "ladder_sys bs n = (if ladder_top bs + unat n \<le> 2 ^ 63 then Some (of_nat (ladder_top bs)) else None)"

lemma ladder_top_ge: "4096 \<le> ladder_top bs"
  and ladder_top_above: "b \<in> set bs \<Longrightarrow> unat (bk_addr b) + 24 + unat (bk_size b) \<le> ladder_top bs"
  by (induction bs) (auto simp: ladder_top_def)

lemma ladder_sys_ok: "sys_ok ladder_sys"
proof (unfold sys_ok_def, intro allI impI)
  fix bs n a
  assume "ladder_sys bs n = Some a"
  then have a: "ladder_top bs + unat n \<le> 2 ^ 63" "a = of_nat (ladder_top bs)"
    by (auto simp: ladder_sys_def split: if_splits)
  then have u: "unat a = ladder_top bs" by (simp add: unat_of_nat_u64)
  with ladder_top_ge [of bs] have "a \<noteq> 0" by (metis not_numeral_le_zero unsigned_0)
  with a(1) u ladder_top_above [of _ bs]
  show "a \<noteq> 0 \<and> unat a + unat n \<le> 2 ^ 63 \<and>
      list_all (\<lambda>b. {unat a ..< unat a + unat n} \<inter> extent b = {}) bs"
    by (fastforce simp: list_all_iff extent_def)
qed

lemmas run_simps = ladder_sys_def ladder_top_def yep_block_new_def BLOCK_HEADER_def SIZE_MAX_def
  yep_round_up_def yep_align_ok_def bump_def new_payload_def Let_def
  yep_pool_create_def YEP_POOL_DEFAULT_BLOCK_def YEP_POOL_MIN_BLOCK_def yep_pool_alloc_def pool_alloc_in_def
  yep_arena_create_def yep_initial_capacity_def YEP_ARENA_DEFAULT_BLOCK_def yep_arena_alloc_def
  yep_hpool_create_def HPOOL_BLOCK_def yep_hpool_alloc_def

section \<open>Allocation from a fresh allocator\<close>

lemma chain_distinct: "chain_ok bs \<Longrightarrow> distinct (map bk_addr bs)"
proof (induction bs)
  case (Cons b bs)
  have "bk_addr b \<noteq> bk_addr c" if "c \<in> set bs" for c
  proof
    assume "bk_addr b = bk_addr c"
    then have "unat (bk_addr b) \<in> extent b \<inter> extent c" by (simp add: extent_def)
    then show False using Cons.prems that by (auto simp: chain_ok_def)
  qed
  then show ?case using Cons by (auto simp: chain_ok_def)
qed simp

text \<open>
  What the three properties below say of a run: every granted region is non-null, aligned and
  in the address space, no two overlap, all lie in blocks the allocator owns, and those blocks
  are pairwise distinct, so that destroying the allocator frees each of them once.
\<close>

definition served_apart :: "(u64 option \<times> size_t \<times> size_t) list \<Rightarrow> yep_block list \<Rightarrow> u64 list \<Rightarrow> bool" where
  "served_apart outs bs freed \<longleftrightarrow>
     list_all well_placed outs \<and> sorted_wrt (\<lambda>a b. region a \<inter> region b = {}) outs \<and>
     list_all (\<lambda>a. region a \<subseteq> owned bs) outs \<and> list_all block_ok bs \<and>
     freed = map bk_addr bs \<and> distinct freed"

lemma served_apartI:
  assumes "chain_ok bs" and "list_all well_placed outs \<and> sorted_wrt (\<lambda>a b. region a \<inter> region b = {}) outs \<and>
      list_all (\<lambda>a. region a \<subseteq> owned bs - X) outs" and "freed = map bk_addr bs"
  shows "served_apart outs bs freed"
  using assms chain_distinct [OF assms(1)] by (auto simp: served_apart_def chain_ok_def list_all_iff)

lemma pool_create_ok:
  assumes "sys_ok sys" "yep_pool_create sys bsz = Some p" "unat bsz + 24 < 2 ^ 64"
  shows "pool_ok sys p"
  using assms
  by (auto simp: yep_pool_create_def pool_ok_def chain_ok_def YEP_POOL_DEFAULT_BLOCK_def YEP_POOL_MIN_BLOCK_def
      Let_def split: if_splits option.splits)

lemma arena_create_ok:
  assumes "sys_ok sys" "yep_arena_create sys hints = Some a" "unat (yep_initial_capacity hints) + 24 < 2 ^ 64"
  shows "arena_ok sys a"
proof -
  obtain b where b: "yep_block_new sys [] (yep_initial_capacity hints) = Some b"
      "ar_chain a = [b]" "ar_last_block_size a = yep_initial_capacity hints"
    using assms(2) by (auto simp: yep_arena_create_def Let_def split: option.splits)
  with block_new_ok [OF assms(1) _ b(1) assms(3)] assms(1) show ?thesis by (auto simp: arena_ok_def chain_ok_def)
qed

lemma hpool_create_ok:
  assumes "sys_ok sys" "yep_hpool_create sys ok = Some h"
  shows "hpool_ok sys h"
proof -
  obtain b where b: "yep_block_new sys [] HPOOL_BLOCK = Some b" "hp_chain h = [b]"
    using assms(2) by (auto simp: yep_hpool_create_def Let_def split: option.splits if_splits)
  have "unat HPOOL_BLOCK + 24 < 2 ^ 64" by (simp add: HPOOL_BLOCK_def)
  with block_new_ok [OF assms(1) _ b(1)] b assms(1) show ?thesis by (auto simp: hpool_ok_def chain_ok_def)
qed

text \<open>
  C22. The pool: on a system allocator that hands out fresh memory, whatever sequence of sizes
  and alignments is requested (hostile ones included), every region granted is aligned and
  inside a block of the pool, no two regions overlap, and destruction frees each block once.
\<close>

theorem pool_serves_apart:
  assumes "sys_ok sys" and "yep_pool_create sys block_size = Some p" and "unat block_size + 24 < 2 ^ 64"
    and "run_allocs (yep_pool_alloc sys) reqs p = (outs, p')"
  shows "served_apart outs (pl_chain p') (yep_pool_destroy p')"
proof -
  have "list_all any_request reqs" by (simp add: list_all_iff any_request_def)
  with pool.run_disjoint [OF pool_create_ok [OF assms(1-3)] _ assms(4)]
  have run: "pool_ok sys p' \<and> list_all well_placed outs \<and> sorted_wrt (\<lambda>a b. region a \<inter> region b = {}) outs \<and>
      list_all (\<lambda>a. region a \<subseteq> owned (pl_chain p') - owned (pl_chain p)) outs" by blast
  then show ?thesis
    by (intro served_apartI) (auto simp: pool_ok_def yep_pool_destroy_def)
qed

theorem pool_serves_apart_witness:
  "served_apart [(Some 4120, 100, 8), (Some 4224, 200, 16), (None, - 1, 1)]
     [\<lparr>bk_addr = 4096, bk_size = 4096, bk_used = 304\<rparr>] [4096]"
proof -
  have c: "yep_pool_create ladder_sys 0 = Some \<lparr>pl_chain = [], pl_block_size = 4096, pl_blocks = 0\<rparr>"
    by (simp add: run_simps)
  have r: "run_allocs (yep_pool_alloc ladder_sys) [(100, 8), (200, 16), (- 1, 1)] \<lparr>pl_chain = [], pl_block_size = 4096, pl_blocks = 0\<rparr>
     = ([(Some 4120, 100, 8), (Some 4224, 200, 16), (None, - 1, 1)],
        \<lparr>pl_chain = [\<lparr>bk_addr = 4096, bk_size = 4096, bk_used = 304\<rparr>], pl_block_size = 4096, pl_blocks = 1\<rparr>)"
    by (simp add: run_simps)
  show ?thesis
    using pool_serves_apart [OF ladder_sys_ok c _ r] by (simp add: yep_pool_destroy_def)
qed

text \<open>
  C23. The arena: the same for any sequence of requests, when the capacity derived from the
  sizing hints leaves room for a block header.
\<close>

theorem arena_serves_apart:
  assumes "sys_ok sys" and "yep_arena_create sys hints = Some a" and "unat (yep_initial_capacity hints) + 24 < 2 ^ 64"
    and "run_allocs (yep_arena_alloc sys) reqs a = (outs, a')"
  shows "served_apart outs (ar_chain a') (yep_arena_destroy a')"
proof -
  have "list_all any_request reqs" by (simp add: list_all_iff any_request_def)
  with arena.run_disjoint [OF arena_create_ok [OF assms(1-3)] _ assms(4)]
  have run: "arena_ok sys a' \<and> list_all well_placed outs \<and> sorted_wrt (\<lambda>a b. region a \<inter> region b = {}) outs \<and>
      list_all (\<lambda>r. region r \<subseteq> owned (ar_chain a') - owned (ar_chain a)) outs" by blast
  then show ?thesis
    by (intro served_apartI) (auto simp: arena_ok_def yep_arena_destroy_def)
qed

theorem arena_serves_apart_witness:
  "served_apart [(Some 4120, 16384, 8), (Some 20528, 200, 16)]
     [\<lparr>bk_addr = 20504, bk_size = 32768, bk_used = 200\<rparr>, \<lparr>bk_addr = 4096, bk_size = 16384, bk_used = 16384\<rparr>]
     [20504, 4096]"
proof -
  have c: "yep_arena_create ladder_sys None = Some \<lparr>ar_chain = [\<lparr>bk_addr = 4096, bk_size = 16384, bk_used = 0\<rparr>],
      ar_last_block_size = 16384, ar_stats = \<lparr>st_blocks = 1, st_capacity = 16384, st_used = 0, st_sys_allocs = 2\<rparr>\<rparr>"
    by (simp add: run_simps)
  have r: "run_allocs (yep_arena_alloc ladder_sys) [(16384, 8), (200, 16)] \<lparr>ar_chain = [\<lparr>bk_addr = 4096, bk_size = 16384, bk_used = 0\<rparr>],
      ar_last_block_size = 16384, ar_stats = \<lparr>st_blocks = 1, st_capacity = 16384, st_used = 0, st_sys_allocs = 2\<rparr>\<rparr>
     = ([(Some 4120, 16384, 8), (Some 20528, 200, 16)],
        \<lparr>ar_chain = [\<lparr>bk_addr = 20504, bk_size = 32768, bk_used = 200\<rparr>, \<lparr>bk_addr = 4096, bk_size = 16384, bk_used = 16384\<rparr>],
         ar_last_block_size = 32768, ar_stats = \<lparr>st_blocks = 2, st_capacity = 49152, st_used = 16584, st_sys_allocs = 3\<rparr>\<rparr>)"
    by (simp add: run_simps)
  have "unat (yep_initial_capacity None) + 24 < 2 ^ 64" by (simp add: yep_initial_capacity_def YEP_ARENA_DEFAULT_BLOCK_def)
  from arena_serves_apart [OF ladder_sys_ok c this r] show ?thesis by (simp add: yep_arena_destroy_def)
qed

text \<open>
  C24. The handle arena, which has no guard against hostile sizes, keeps the same contract as
  long as size and alignment together stay below a quarter of the address space.
\<close>

theorem hpool_serves_apart:
  assumes "sys_ok sys" and "yep_hpool_create sys mutex_ok = Some h" and "list_all sane_request reqs"
    and "run_allocs (yep_hpool_alloc sys) reqs h = (outs, h')"
  shows "served_apart outs (hp_chain h') (yep_hpool_destroy h')"
proof -
  from hpool.run_disjoint [OF hpool_create_ok [OF assms(1,2)] assms(3,4)]
  have run: "hpool_ok sys h' \<and> list_all well_placed outs \<and> sorted_wrt (\<lambda>a b. region a \<inter> region b = {}) outs \<and>
      list_all (\<lambda>r. region r \<subseteq> owned (hp_chain h') - owned (hp_chain h)) outs" by blast
  then show ?thesis
    by (intro served_apartI) (auto simp: hpool_ok_def yep_hpool_destroy_def)
qed

theorem hpool_serves_apart_witness:
  "served_apart [(Some 4120, 40, 8), (Some 4160, 8, 1)] [\<lparr>bk_addr = 4096, bk_size = 16384, bk_used = 48\<rparr>] [4096]"
proof -
  have c: "yep_hpool_create ladder_sys True = Some \<lparr>hp_chain = [\<lparr>bk_addr = 4096, bk_size = 16384, bk_used = 0\<rparr>]\<rparr>"
    by (simp add: run_simps)
  have r: "run_allocs (yep_hpool_alloc ladder_sys) [(40, 8), (8, 1)] \<lparr>hp_chain = [\<lparr>bk_addr = 4096, bk_size = 16384, bk_used = 0\<rparr>]\<rparr>
     = ([(Some 4120, 40, 8), (Some 4160, 8, 1)], \<lparr>hp_chain = [\<lparr>bk_addr = 4096, bk_size = 16384, bk_used = 48\<rparr>]\<rparr>)"
    by (simp add: run_simps)
  from hpool_serves_apart [OF ladder_sys_ok c _ r] show ?thesis
    by (simp add: yep_hpool_destroy_def sane_request_def)
qed

text \<open>
  The handle arena grants a hostile size: for a request of \<open>2 ^ 64 - 64\<close> bytes the sum
  \<^verbatim>\<open>start + size\<close> wraps, the request counts as fitting, the fill of the block moves backwards
  and the next request is given the region that was handed out first. The pool and the arena
  refuse the same size.
\<close>

theorem hpool_hostile_size:
  "\<exists>h outs h'. yep_hpool_create ladder_sys True = Some h \<and>
     run_allocs (yep_hpool_alloc ladder_sys) [(64, 8), (- 64, 8), (64, 8)] h = (outs, h') \<and>
     \<not> served_apart outs (hp_chain h') (yep_hpool_destroy h') \<and>
     fst (outs ! 0) = fst (outs ! 2) \<and> fst (outs ! 1) \<noteq> None \<and>
     (\<forall>p. yep_pool_alloc ladder_sys p (- 64) 8 = (None, p)) \<and>
     (\<forall>a. yep_arena_alloc ladder_sys a (- 64) 8 = (None, a))"
proof -
  let ?h = "\<lparr>hp_chain = [\<lparr>bk_addr = 4096, bk_size = 16384, bk_used = 0\<rparr>]\<rparr>"
  let ?h' = "\<lparr>hp_chain = [\<lparr>bk_addr = 4096, bk_size = 16384, bk_used = 64\<rparr>]\<rparr>"
  let ?outs = "[(Some 4120, 64, 8), (Some 4184, - 64, 8), (Some 4120, 64, 8)] :: (u64 option \<times> size_t \<times> size_t) list"
  have c: "yep_hpool_create ladder_sys True = Some ?h" by (simp add: run_simps)
  have r: "run_allocs (yep_hpool_alloc ladder_sys) [(64, 8), (- 64, 8), (64, 8)] ?h = (?outs, ?h')" by (simp add: run_simps)
  have overlap: "\<not> served_apart ?outs (hp_chain ?h') (yep_hpool_destroy ?h')"
    by (simp add: served_apart_def region_def)
  have guard: "(SIZE_MAX - 8) div 2 < (- 64 :: size_t)" by (simp add: SIZE_MAX_def)
  have "yep_pool_alloc ladder_sys p (- 64) 8 = (None, p)" "yep_arena_alloc ladder_sys a (- 64) 8 = (None, a)" for p a
    using guard by (simp_all add: yep_pool_alloc_def yep_arena_alloc_def)
  with c r overlap show ?thesis by auto
qed

section \<open>The statistics of the arena\<close>

definition stats_exact :: "yep_arena \<Rightarrow> (u64 option \<times> size_t \<times> size_t) list \<Rightarrow> bool" where
  "stats_exact a outs \<longleftrightarrow>
     st_blocks (ar_stats a) = of_nat (length (ar_chain a)) \<and>
     st_capacity (ar_stats a) = sum_list (map bk_size (ar_chain a)) \<and>
     st_used (ar_stats a) = sum_list (map (\<lambda>(r, sz, al). if r = None then 0 else sz) outs) \<and>
     st_sys_allocs (ar_stats a) = of_nat (length (ar_chain a)) + 1 \<and> ar_chain a \<noteq> []"

lemma stats_step:
  assumes "stats_exact a outs" and "yep_arena_alloc sys a sz al = (r, a')"
  shows "stats_exact a' (outs @ [(r, sz, al)])"
proof -
  obtain b bs where "ar_chain a = b # bs" using assms(1) by (auto simp: stats_exact_def neq_Nil_conv)
  then show ?thesis
    using assms
    by (auto simp: stats_exact_def yep_arena_alloc_def yep_block_new_def bump_def Let_def algebra_simps
        split: if_splits option.splits)
qed

lemma stats_run:
  "stats_exact a done \<Longrightarrow> run_allocs (yep_arena_alloc sys) reqs a = (outs, a') \<Longrightarrow> stats_exact a' (done @ outs)"
proof (induction reqs arbitrary: a outs "done")
  case (Cons q reqs)
  then show ?case
    using stats_step [of a "done" sys "fst q" "snd q"]
    by (cases q) (fastforce split: prod.splits)
qed simp

text \<open>
  C26. The statistics the arena reports are exact after any run: blocks, capacity, bytes
  served and system allocations (one per block and one for the arena itself), modulo the
  width of \<^verbatim>\<open>size_t\<close>.
\<close>

theorem arena_stats_exact:
  assumes "yep_arena_create sys hints = Some a" and "run_allocs (yep_arena_alloc sys) reqs a = (outs, a')"
  shows "stats_exact a' outs"
proof -
  have "stats_exact a []"
    using assms(1)
    by (auto simp: stats_exact_def yep_arena_create_def yep_block_new_def Let_def split: option.splits)
  from stats_run [OF this assms(2)] show ?thesis by simp
qed

theorem arena_stats_exact_witness:
  "stats_exact \<lparr>ar_chain = [\<lparr>bk_addr = 4096, bk_size = 16384, bk_used = 40\<rparr>], ar_last_block_size = 16384,
      ar_stats = \<lparr>st_blocks = 1, st_capacity = 16384, st_used = 40, st_sys_allocs = 2\<rparr>\<rparr> [(Some 4120, 40, 8), (None, 0, 8)]"
proof -
  have c: "yep_arena_create ladder_sys None = Some \<lparr>ar_chain = [\<lparr>bk_addr = 4096, bk_size = 16384, bk_used = 0\<rparr>],
      ar_last_block_size = 16384, ar_stats = \<lparr>st_blocks = 1, st_capacity = 16384, st_used = 0, st_sys_allocs = 2\<rparr>\<rparr>"
    by (simp add: run_simps)
  have "run_allocs (yep_arena_alloc ladder_sys) [(40, 8), (0, 8)] \<lparr>ar_chain = [\<lparr>bk_addr = 4096, bk_size = 16384, bk_used = 0\<rparr>],
      ar_last_block_size = 16384, ar_stats = \<lparr>st_blocks = 1, st_capacity = 16384, st_used = 0, st_sys_allocs = 2\<rparr>\<rparr>
     = ([(Some 4120, 40, 8), (None, 0, 8)],
        \<lparr>ar_chain = [\<lparr>bk_addr = 4096, bk_size = 16384, bk_used = 40\<rparr>], ar_last_block_size = 16384,
         ar_stats = \<lparr>st_blocks = 1, st_capacity = 16384, st_used = 40, st_sys_allocs = 2\<rparr>\<rparr>)"
    by (simp add: run_simps)
  from arena_stats_exact [OF c this] show ?thesis .
qed

end
