(* ===== verification/Word_Lanes.thy ===== *)
theory Word_Lanes
  imports View
begin

text \<open>
  Bit-parallel arithmetic shared by the kernels: subtraction read bit by bit, the lowest set
  bit, and eight-byte words as lists of lanes.
\<close>

section \<open>Subtraction bit by bit\<close>

text \<open>\<open>borrow a b n\<close>: the borrow into bit \<open>n\<close> of \<open>a - b\<close>.\<close>

primrec borrow :: "(nat \<Rightarrow> bool) \<Rightarrow> (nat \<Rightarrow> bool) \<Rightarrow> nat \<Rightarrow> bool" where
  "borrow a b 0 \<longleftrightarrow> False"
| "borrow a b (Suc n) \<longleftrightarrow> (\<not> a n \<and> (b n \<or> borrow a b n)) \<or> (b n \<and> borrow a b n)"

lemma half_diff:
  fixes a b :: int
  shows "(a - b - of_bool c) div 2 =
    a div 2 - b div 2 - of_bool ((even a \<and> (odd b \<or> c)) \<or> (odd b \<and> c))"
    and "odd (a - b - of_bool c) \<longleftrightarrow> (odd a \<noteq> odd b) \<noteq> c"
  by (cases "even a"; cases "even b"; cases c; auto elim!: evenE oddE; presburger)+

lemma bit_diff_int:
  fixes a b :: int
  shows "bit (a - b - of_bool c) n \<longleftrightarrow>
    ((bit a n \<noteq> bit b n) \<noteq> rec_nat c (\<lambda>i r. (\<not> bit a i \<and> (bit b i \<or> r)) \<or> (bit b i \<and> r)) n)"
proof (induction n arbitrary: a b c)
  case 0
  show ?case using half_diff(2) [of a b c] by (simp add: bit_0)
next
  case (Suc n)
  let ?f = "\<lambda>(a::int) b i r. (\<not> bit a i \<and> (bit b i \<or> r)) \<or> (bit b i \<and> r)"
  have shift: "rec_nat c (?f a b) (Suc n) =
      rec_nat (?f a b 0 c) (?f (a div 2) (b div 2)) n" for n
    by (induction n) (simp_all add: bit_Suc)
  have "bit (a - b - of_bool c) (Suc n) \<longleftrightarrow> bit ((a - b - of_bool c) div 2) n" by (simp add: bit_Suc)
  also have "\<dots> \<longleftrightarrow> bit (a div 2 - b div 2 - of_bool (?f a b 0 c)) n"
    by (simp only: half_diff(1) bit_0 not_not)
  finally show ?case unfolding Suc.IH shift by (simp add: bit_Suc)
qed

lemma borrow_rec: "borrow a b n = rec_nat False (\<lambda>i r. (\<not> a i \<and> (b i \<or> r)) \<or> (b i \<and> r)) n"
  by (induction n) simp_all

lemma bit_diff_word:
  fixes a b :: "'a::len word"
  assumes "n < LENGTH('a)"
  shows "bit (a - b) n \<longleftrightarrow> ((bit a n \<noteq> bit b n) \<noteq> borrow (bit a) (bit b) n)"
proof -
  have eq: "rec_nat False (\<lambda>i r. (\<not> bit (uint a) i \<and> (bit (uint b) i \<or> r)) \<or> (bit (uint b) i \<and> r)) n
      = borrow (bit a) (bit b) n"
    unfolding borrow_rec using assms
  proof (induction n)
    case (Suc n)
    then show ?case by (simp add: bit_uint_iff)
  qed simp
  have "bit (a - b) n \<longleftrightarrow> bit (uint a - uint b - of_bool False) n"
    using assms by transfer (simp add: bit_take_bit_iff, metis bit_take_bit_iff take_bit_diff)
  also have "\<dots> \<longleftrightarrow> ((bit a n \<noteq> bit b n) \<noteq> borrow (bit a) (bit b) n)"
    unfolding bit_diff_int eq using assms by (simp add: bit_uint_iff)
  finally show ?thesis .
qed

section \<open>The lowest set bit\<close>

lemma bit_minus_1:
  fixes x :: "'a::len word"
  assumes "n < LENGTH('a)"
  shows "bit (x - 1) n \<longleftrightarrow> (bit x n \<noteq> (\<forall>m<n. \<not> bit x m))"
proof -
  have "borrow (bit x) (bit (1 :: 'a word)) n \<longleftrightarrow> n \<noteq> 0 \<and> (\<forall>m<n. \<not> bit x m)" if "n < LENGTH('a)" for n
    using that
  proof (induction n)
    case (Suc n)
    then show ?case by (cases n) (auto simp: bit_1_iff less_Suc_eq)
  qed simp
  with assms show ?thesis by (auto simp: bit_diff_word bit_1_iff)
qed

definition yep_ctz64 :: "u64 \<Rightarrow> nat" where
  "yep_ctz64 v = length (takeWhile (\<lambda>i. \<not> bit v i) [0..<64])"

lemma takeWhile_upt_first:
  assumes "k < n" and "P k" and "\<And>m. m < k \<Longrightarrow> \<not> P m"
  shows "length (takeWhile (\<lambda>i. \<not> P i) [0..<n]) = k"
proof -
  have "[0..<n] = [0..<k] @ k # [Suc k..<n]"
    using assms(1) by (metis le0 less_imp_le upt_add_eq_append add_0 le_add_diff_inverse upt_conv_Cons)
  then show ?thesis using assms(2,3) by (simp add: takeWhile_append)
qed

lemma ctz_eqI: "k < 64 \<Longrightarrow> bit v k \<Longrightarrow> (\<And>m. m < k \<Longrightarrow> \<not> bit v m) \<Longrightarrow> yep_ctz64 v = k"
  unfolding yep_ctz64_def by (rule takeWhile_upt_first)

lemma ctz_spec:
  assumes "v \<noteq> 0"
  shows "yep_ctz64 v < 64" and "bit v (yep_ctz64 v)" and "\<And>m. m < yep_ctz64 v \<Longrightarrow> \<not> bit v m"
proof -
  obtain n where n: "bit v n" using assms by (auto simp: bit_eq_iff)
  define k where "k = (LEAST n. bit v n)"
  have "bit v k" unfolding k_def using n by (rule LeastI)
  moreover have "\<not> bit v m" if "m < k" for m
    using that unfolding k_def by (rule not_less_Least)
  ultimately have k: "bit v k" "\<And>m. m < k \<Longrightarrow> \<not> bit v m" by blast+
  have "k < 64" using bit_imp_le_length [OF k(1)] by simp
  from ctz_eqI [OF this k] have "yep_ctz64 v = k" .
  with k \<open>k < 64\<close> show "yep_ctz64 v < 64" "bit v (yep_ctz64 v)" "\<And>m. m < yep_ctz64 v \<Longrightarrow> \<not> bit v m" by simp_all
qed

lemma bit_clear_lowest:
  fixes x :: u64
  shows "bit (x AND (x - 1)) n \<longleftrightarrow> bit x n \<and> n \<noteq> yep_ctz64 x"
proof (cases "n < 64 \<and> bit x n")
  case True
  then have "x \<noteq> 0" by auto
  note c = ctz_spec [OF this]
  have "(\<forall>m<n. \<not> bit x m) \<longleftrightarrow> n = yep_ctz64 x"
    using True c(2,3) by (metis linorder_neqE_nat)
  with True show ?thesis by (simp add: bit_and_iff bit_minus_1)
next
  case False
  then show ?thesis using bit_imp_le_length [of x n] by (auto simp: bit_and_iff)
qed

lemma lowest_bit_mask:
  fixes x :: u64
  assumes "x \<noteq> 0"
  shows "(x AND (NOT x + 1)) - 1 = mask (yep_ctz64 x)"
proof -
  note c = ctz_spec [OF assms]
  have "x AND (NOT x + 1) = 2 ^ yep_ctz64 x"
  proof (rule bit_word_eqI)
    fix n assume n: "n < LENGTH(64)"
    have "NOT x + 1 = NOT (x - 1)" by (simp add: not_diff_distrib)
    then have "bit (x AND (NOT x + 1)) n \<longleftrightarrow> bit x n \<and> (\<forall>m<n. \<not> bit x m)"
      using n by (auto simp: bit_and_iff bit_not_iff bit_minus_1)
    also have "\<dots> \<longleftrightarrow> n = yep_ctz64 x" using c by (metis linorder_neqE_nat)
    finally show "bit (x AND (NOT x + 1)) n \<longleftrightarrow> bit (2 ^ yep_ctz64 x :: u64) n"
      using n by (auto simp: bit_exp_iff)
  qed
  then show ?thesis by (simp add: mask_eq_exp_minus_1)
qed

section \<open>Words as lanes\<close>

lemma le_load_add: "le_load (b # bs) = (ucast b + 256 * le_load bs :: u64)"
proof -
  have "ucast b OR push_bit 8 (le_load bs) = (ucast b + push_bit 8 (le_load bs) :: u64)"
  proof (rule disjunctive_add_eq_or [symmetric])
    show "ucast b AND push_bit 8 (le_load bs) = (0 :: u64)"
      by (rule bit_word_eqI) (auto simp: bit_simps dest: bit_imp_le_length)
  qed
  then show ?thesis by (simp add: push_bit_eq_mult mult.commute)
qed

lemma bit_le_load:
  "bit (le_load bs :: u64) n \<longleftrightarrow> n < 64 \<and> n div 8 < length bs \<and> bit (bs ! (n div 8)) (n mod 8)"
proof (induction bs arbitrary: n)
  case (Cons b bs)
  show ?case
  proof (cases "n < 8")
    case True
    then show ?thesis by (simp add: bit_simps)
  next
    case False
    then have d: "n div 8 = Suc ((n - 8) div 8)" "n mod 8 = (n - 8) mod 8"
      using div_add1_eq [of "n - 8" 8 8] mod_add_self2 [of "n - 8" 8] by (simp_all add: le_div_geq le_mod_geq)
    have "\<not> bit b n" using False bit_imp_le_length [of b n] by auto
    then show ?thesis using False Cons.IH [of "n - 8"] d by (auto simp: bit_simps)
  qed
qed simp

lemma le_load_map_bitwise:
  "le_load (map f bs) AND le_load (map g bs) = (le_load (map (\<lambda>b. f b AND g b) bs) :: u64)"
  "le_load (map f bs) OR le_load (map g bs) = (le_load (map (\<lambda>b. f b OR g b) bs) :: u64)"
  "le_load (map f bs) XOR le_load (map g bs) = (le_load (map (\<lambda>b. f b XOR g b) bs) :: u64)"
  by (auto intro!: bit_word_eqI simp: bit_le_load bit_simps)

lemma le_load_map_not:
  "length bs = 8 \<Longrightarrow> NOT (le_load (map f bs)) = (le_load (map (\<lambda>b. NOT (f b)) bs) :: u64)"
  by (auto intro!: bit_word_eqI simp: bit_le_load bit_simps)

lemma le_load_map_plus:
  "(\<And>b. b \<in> set bs \<Longrightarrow> unat (f b) + unat (g b) < 256) \<Longrightarrow>
   le_load (map f bs) + le_load (map g bs) = (le_load (map (\<lambda>b. f b + g b) bs) :: u64)"
proof (induction bs)
  case (Cons b bs)
  have head: "ucast (f b) + ucast (g b) = (ucast (f b + g b) :: u64)"
    using Cons.prems [of b] by (simp add: word_unat_eq_iff unat_word_ariths unat_ucast)
  have "le_load (map f (b # bs)) + le_load (map g (b # bs)) =
      (ucast (f b) + ucast (g b)) + 256 * (le_load (map f bs) + le_load (map g bs) :: u64)"
    by (simp add: le_load_add algebra_simps del: le_load.simps(2))
  also have "\<dots> = le_load (map (\<lambda>b. f b + g b) (b # bs))"
    using Cons by (simp add: head le_load_add del: le_load.simps(2))
  finally show ?case .
qed simp

definition flag_word :: "(byte \<Rightarrow> bool) \<Rightarrow> byte list \<Rightarrow> u64" where
  "flag_word f bs = le_load (map (\<lambda>b. if f b then 0x80 else 0) bs)"

lemma bit_0x80: "bit (0x80 :: byte) n \<longleftrightarrow> n = 7"
proof -
  have "(0x80 :: byte) = 2 ^ 7" by simp
  then show ?thesis unfolding bit_exp_iff by (auto simp only: bit_exp_iff) simp_all
qed

lemma bit_flag_word:
  "bit (flag_word f bs) n \<longleftrightarrow> n < 64 \<and> n mod 8 = 7 \<and> n div 8 < length bs \<and> f (bs ! (n div 8))"
  by (auto simp: flag_word_def bit_le_load bit_0x80 simp del: bit_numeral_word_iff split: if_splits)

definition YEP_SWAR_FLAGS :: u64 where
  "YEP_SWAR_FLAGS = 0x8080808080808080"

definition yep_swar_eq8 :: "u64 \<Rightarrow> u64 \<Rightarrow> u64" where
  "yep_swar_eq8 x k =
     (let v = x XOR k;
          low = (v AND 0x7F7F7F7F7F7F7F7F) + 0x7F7F7F7F7F7F7F7F;
          nz = (low OR v) AND YEP_SWAR_FLAGS
      in NOT nz AND YEP_SWAR_FLAGS)"

definition splat :: "byte \<Rightarrow> u64" where
  "splat b = le_load (replicate 8 b)"

lemma splat_eight: "splat b = le_load [b, b, b, b, b, b, b, b]"
  by (simp add: splat_def numeral_eq_Suc)

lemma splat_consts:
  "YEP_SWAR_FLAGS = splat 0x80" "0x7F7F7F7F7F7F7F7F = splat 0x7F" "0x0A0A0A0A0A0A0A0A = splat 0x0A"
  "0x0D0D0D0D0D0D0D0D = splat 0x0D" "0x2020202020202020 = splat 0x20" "0x3A3A3A3A3A3A3A3A = splat 0x3A"
  "0x2323232323232323 = splat 0x23"
  by (simp_all add: splat_eight YEP_SWAR_FLAGS_def le_load_add del: le_load.simps(2))

lemma splat_lanes: "length bs = 8 \<Longrightarrow> splat c = le_load (map (\<lambda>_. c) bs)"
  by (simp add: splat_def map_replicate_const)

lemma swar_byte: "NOT (((v AND 0x7F) + 0x7F OR v) AND 0x80) AND 0x80 = (if v = 0 then 0x80 else 0)" for v :: byte
proof -
  have m: "unat (v AND 0x7F) = unat v mod 128"
    using unat_and_mask [of v 7] by (simp add: mask_eq_exp_minus_1)
  have "unat (v AND 0x7F) + 127 < 256" unfolding m by simp
  then have s: "unat ((v AND 0x7F) + 0x7F) = unat v mod 128 + 127" by (simp add: unat_word_ariths m)
  have b7: "bit w 7 \<longleftrightarrow> 128 \<le> unat w" for w :: byte
  proof -
    have "bit w 7 \<longleftrightarrow> bit (unat w) 7" by (simp add: bit_unsigned_iff)
    also have "\<dots> \<longleftrightarrow> odd (unat w div 128)" by (simp add: bit_iff_odd)
    also have "\<dots> \<longleftrightarrow> 128 \<le> unat w"
    proof -
      have "unat w div 128 < 2" using byte_bound [of w] by simp
      then have "unat w div 128 = 0 \<or> unat w div 128 = 1" by linarith
      then show ?thesis using div_greater_zero_iff [of "unat w" 128] by auto
    qed
    finally show ?thesis .
  qed
  have "bit ((v AND 0x7F) + 0x7F OR v) 7 \<longleftrightarrow> v \<noteq> 0"
  proof -
    have "128 \<le> unat v mod 128 + 127 \<or> 128 \<le> unat v \<longleftrightarrow> unat v \<noteq> 0"
      using mod_less [of "unat v" 128] by (cases "unat v < 128") auto
    then have "(bit ((v AND 0x7F) + 0x7F) 7 \<or> bit v 7) \<longleftrightarrow> v \<noteq> 0"
      unfolding b7 s by (simp add: unsigned_eq_0_iff)
    then show ?thesis by (simp only: bit_or_iff)
  qed
  then show ?thesis by (auto intro!: bit_word_eqI simp: bit_simps bit_0x80 simp del: bit_numeral_word_iff)
qed

lemma xor_zero_iff: "x XOR y = 0 \<longleftrightarrow> x = y" for x y :: "'a::len word"
  by (metis xor.assoc xor.right_neutral xor_self_eq xor.left_neutral)

lemma swar_eq8_lanes:
  assumes len: "length bs = 8"
  shows "yep_swar_eq8 (le_load bs) (splat c) = flag_word (\<lambda>b. b = c) bs"
proof -
  have v: "le_load bs XOR splat c = (le_load (map (\<lambda>b. b XOR c) bs) :: u64)"
    using le_load_map_bitwise(3) [of "\<lambda>b. b" bs "\<lambda>_. c"] by (simp add: splat_lanes [OF len])
  have small: "unat (w AND 0x7F) + unat (0x7F :: byte) < 256" for w :: byte
    using unat_and_mask [of w 7] mod_less_divisor [of 128 "unat w"] by (simp add: mask_eq_exp_minus_1)
  have l: "le_load (map (\<lambda>b. (b XOR c) AND 0x7F) bs) + le_load (map (\<lambda>_. 0x7F) bs) =
      (le_load (map (\<lambda>b. ((b XOR c) AND 0x7F) + 0x7F) bs) :: u64)"
    by (intro le_load_map_plus) (rule small)
  have "yep_swar_eq8 (le_load bs) (splat c) =
      le_load (map (\<lambda>b. NOT ((((b XOR c) AND 0x7F) + 0x7F OR (b XOR c)) AND 0x80) AND 0x80) bs)"
    unfolding yep_swar_eq8_def Let_def v splat_consts
    unfolding splat_lanes [OF len] le_load_map_bitwise l le_load_map_not [OF len] ..
  then show ?thesis unfolding swar_byte flag_word_def by (simp add: xor_zero_iff)
qed

end
