(* ===== verification/Kernels.thy ===== *)
theory Kernels
  imports Word_Lanes Encoding
begin

text \<open>
  The reference text kernels, \<^verbatim>\<open>src/yeptris/common/simd_text_scalar.c\<close> with the inline helpers of
  \<^verbatim>\<open>simd_text.h\<close>, and the byte classification table of \<^verbatim>\<open>common/chartype.[ch]\<close>.

  A buffer is a byte list of the length the C code is given; a \<^verbatim>\<open>ptrdiff_t\<close> that is \<open>-1\<close> when
  nothing is found is a \<open>nat option\<close>. Counters are bounded by the buffer length and cannot
  wrap, so they are natural numbers.
\<close>

section \<open>Finding and counting\<close>

fun find_loop :: "(byte \<Rightarrow> bool) \<Rightarrow> byte list \<Rightarrow> nat \<Rightarrow> nat option" where
  "find_loop hit [] i = None"
| "find_loop hit (c # s) i = (if hit c then Some i else find_loop hit s (i + 1))"

definition yep_text_find_scalar :: "byte list \<Rightarrow> byte \<Rightarrow> nat option" where
  "yep_text_find_scalar s c = find_loop (\<lambda>b. b = c) s 0"

definition yep_text_contains_scalar :: "byte list \<Rightarrow> byte \<Rightarrow> bool" where
  "yep_text_contains_scalar s c \<longleftrightarrow> yep_text_find_scalar s c \<noteq> None"

fun find3_loop :: "byte \<Rightarrow> byte \<Rightarrow> byte \<Rightarrow> byte list \<Rightarrow> nat \<Rightarrow> nat option" where
  "find3_loop c0 c1 c2 (x # y # z # s) i =
     (if x = c0 \<and> y = c1 \<and> z = c2 then Some i else find3_loop c0 c1 c2 (y # z # s) (i + 1))"
| "find3_loop c0 c1 c2 s i = None"

definition yep_text_find3_scalar :: "byte list \<Rightarrow> byte \<Rightarrow> byte \<Rightarrow> byte \<Rightarrow> nat option" where
  "yep_text_find3_scalar s c0 c1 c2 = (if length s < 3 then None else find3_loop c0 c1 c2 s 0)"

definition yep_text_count_char_scalar :: "byte list \<Rightarrow> byte \<Rightarrow> nat" where
  "yep_text_count_char_scalar s c = foldl (\<lambda>n b. n + of_bool (b = c)) 0 s"

definition yep_text_count3_scalar :: "byte list \<Rightarrow> byte \<Rightarrow> byte \<Rightarrow> byte \<Rightarrow> nat \<times> nat \<times> nat" where
  "yep_text_count3_scalar s c0 c1 c2 =
     foldl (\<lambda>(a, b, d) x. (a + of_bool (x = c0), b + of_bool (x = c1), d + of_bool (x = c2))) (0, 0, 0) s"

text \<open>The destination buffer after the copy, with the counts.\<close>

definition yep_text_copy_count3_scalar ::
    "byte list \<Rightarrow> byte list \<Rightarrow> byte \<Rightarrow> byte \<Rightarrow> byte \<Rightarrow> byte list \<times> nat \<times> nat \<times> nat" where
  "yep_text_copy_count3_scalar dst src c0 c1 c2 =
     (if length src = 0 then (dst, 0, 0, 0)
      else let dst = src @ drop (length src) dst in
        (dst, yep_text_count3_scalar (take (length src) dst) c0 c1 c2))"

definition yep_text_find_not_scalar :: "byte list \<Rightarrow> byte \<Rightarrow> nat option" where
  "yep_text_find_not_scalar s c = find_loop (\<lambda>b. b \<noteq> c) s 0"

definition yep_text_qbc_find_scalar :: "byte list \<Rightarrow> nat option" where
  "yep_text_qbc_find_scalar s = find_loop (\<lambda>c. c = 0x22 \<or> c = 0x5C \<or> c < 0x20) s 0"

section \<open>Stop sets\<close>

text \<open>A stop set: the 256-bit bitmap and the derived nibble-class tables of the vector kernels.\<close>

record yep_stopset =
  ss_bitmap :: "byte list"
  ss_groups :: nat
  ss_lo :: "byte list list"
  ss_hi :: "byte list list"

definition YEP_STOPSET_GROUPS :: nat where
  "YEP_STOPSET_GROUPS = 4"

definition yep_stopset_clear :: "byte list" where
  "yep_stopset_clear = replicate 32 0"

definition yep_stopset_add :: "byte list \<Rightarrow> byte \<Rightarrow> byte list" where
  "yep_stopset_add tab c = tab[unat c div 8 := tab ! (unat c div 8) OR push_bit (unat c mod 8) 1]"

definition yep_stopset_test :: "byte list \<Rightarrow> byte \<Rightarrow> bool" where
  "yep_stopset_test tab c \<longleftrightarrow> drop_bit (unat c mod 8) (tab ! (unat c div 8)) AND 1 \<noteq> 0"

definition yep_text_stopset_find_scalar :: "yep_stopset \<Rightarrow> byte list \<Rightarrow> nat option" where
  "yep_text_stopset_find_scalar ss s = find_loop (yep_stopset_test (ss_bitmap ss)) s 0"

definition or_at :: "byte list list \<Rightarrow> nat \<Rightarrow> nat \<Rightarrow> byte \<Rightarrow> byte list list" where
  "or_at t g k m = t[g := (t ! g)[k := t ! g ! k OR m]]"

definition stopset_init_step :: "byte list \<Rightarrow> yep_stopset \<times> nat \<Rightarrow> nat \<Rightarrow> yep_stopset \<times> nat" where
  "stopset_init_step bitmap = (\<lambda>(ss, n) b.
     if drop_bit (b mod 8) (bitmap ! (b div 8)) AND 1 \<noteq> 0 then
       let ss = ss\<lparr>ss_bitmap := (ss_bitmap ss)[b div 8 := ss_bitmap ss ! (b div 8) OR push_bit (b mod 8) 1]\<rparr>;
           ss = (if n < YEP_STOPSET_GROUPS * 8
                 then ss\<lparr>ss_lo := or_at (ss_lo ss) (n div 8) (b mod 16) (push_bit (n mod 8) 1),
                         ss_hi := or_at (ss_hi ss) (n div 8) (b div 16) (push_bit (n mod 8) 1)\<rparr>
                 else ss)
       in (ss, n + 1)
     else (ss, n))"

definition yep_stopset_init :: "byte list \<Rightarrow> yep_stopset" where
  "yep_stopset_init bitmap =
     (let zero = replicate YEP_STOPSET_GROUPS (replicate 16 0);
          ss = \<lparr>ss_bitmap = replicate 32 0, ss_groups = 0, ss_lo = zero, ss_hi = zero\<rparr>;
          (ss, n) = foldl (stopset_init_step bitmap) (ss, 0) [0..<256]
      in ss\<lparr>ss_groups := (n + 7) div 8 mod 256\<rparr>)"

section \<open>Quoted scalars\<close>

fun quote_scan_loop :: "byte \<Rightarrow> byte list \<Rightarrow> nat \<Rightarrow> bool \<Rightarrow> nat option \<times> bool" where
  "quote_scan_loop q [] i esc = (None, esc)"
| "quote_scan_loop q (c # s) i esc =
     (if q = 0x22 \<and> c = 0x5C then quote_scan_loop q (drop 1 s) (i + 2) True
      else if c = q then
        if q = 0x27 \<and> s \<noteq> [] \<and> hd s = 0x27 then quote_scan_loop q (drop 1 s) (i + 2) True
        else (Some i, esc)
      else quote_scan_loop q s (i + 1) esc)"

definition yep_text_quote_scan_scalar :: "byte list \<Rightarrow> byte \<Rightarrow> nat option \<times> bool" where
  "yep_text_quote_scan_scalar s q = quote_scan_loop q s 0 False"

section \<open>Pre-scan statistics\<close>

record yep_text_stats =
  ts_nl :: nat
  ts_comma :: nat
  ts_dash :: nat
  ts_colon :: nat
  ts_bracket :: nat
  ts_brace :: nat
  ts_dq :: nat
  ts_sq :: nat
  ts_pipe :: nat
  ts_amp :: nat
  ts_nonascii :: bool
  ts_bad_printable :: bool

definition zero_stats :: yep_text_stats where
  "zero_stats = \<lparr>ts_nl = 0, ts_comma = 0, ts_dash = 0, ts_colon = 0, ts_bracket = 0, ts_brace = 0, ts_dq = 0,
     ts_sq = 0, ts_pipe = 0, ts_amp = 0, ts_nonascii = False, ts_bad_printable = False\<rparr>"

definition stats_switch :: "yep_text_stats \<Rightarrow> byte \<Rightarrow> yep_text_stats" where
  "stats_switch st c =
     (if c = 0x0A then st\<lparr>ts_nl := ts_nl st + 1\<rparr>
      else if c = 0x2C then st\<lparr>ts_comma := ts_comma st + 1\<rparr>
      else if c = 0x2D then st\<lparr>ts_dash := ts_dash st + 1\<rparr>
      else if c = 0x3A then st\<lparr>ts_colon := ts_colon st + 1\<rparr>
      else if c = 0x5B then st\<lparr>ts_bracket := ts_bracket st + 1\<rparr>
      else if c = 0x7B then st\<lparr>ts_brace := ts_brace st + 1\<rparr>
      else if c = 0x22 then st\<lparr>ts_dq := ts_dq st + 1\<rparr>
      else if c = 0x27 then st\<lparr>ts_sq := ts_sq st + 1\<rparr>
      else if c = 0x7C then st\<lparr>ts_pipe := ts_pipe st + 1\<rparr>
      else if c = 0x26 then st\<lparr>ts_amp := ts_amp st + 1\<rparr>
      else st)"

definition stats_step :: "yep_text_stats \<Rightarrow> byte \<Rightarrow> yep_text_stats" where
  "stats_step st c =
     (if 0x80 \<le> c then st\<lparr>ts_nonascii := True\<rparr>
      else let st = stats_switch st c in
        if (c < 0x20 \<and> c \<noteq> 9 \<and> c \<noteq> 10 \<and> c \<noteq> 13) \<or> c = 0x7F then st\<lparr>ts_bad_printable := True\<rparr> else st)"

definition yep_text_scan_stats_scalar :: "byte list option \<Rightarrow> yep_text_stats" where
  "yep_text_scan_stats_scalar s =
     (case s of None \<Rightarrow> zero_stats
      | Some s \<Rightarrow> if length s = 0 then zero_stats else foldl stats_step zero_stats s)"

section \<open>Line facts\<close>

record yep_line_facts =
  lf_end :: u32
  lf_indent :: u32
  lf_stop :: u32
  lf_stop_set :: bool

text \<open>
  The eight-byte load of the walk, NUL-padded at the tail: \<open>n\<close> bytes of the line remain from
  offset \<open>i\<close>.
\<close>

definition load_chunk :: "byte list \<Rightarrow> nat \<Rightarrow> nat \<Rightarrow> u64" where
  "load_chunk s at avail =
     (if avail = 8 then le_load (take 8 (drop at s))
      else le_load (take avail (drop at s) @ replicate (8 - avail) 0))"

record walk =
  wk_indent :: nat
  wk_stop :: nat
  wk_have_indent :: bool
  wk_stop_set :: bool

text \<open>One iteration: the break flags of the chunk and the updated walk.\<close>

definition facts_chunk :: "byte list \<Rightarrow> nat \<Rightarrow> nat \<Rightarrow> nat \<Rightarrow> walk \<Rightarrow> u64 \<times> walk" where
  "facts_chunk s pos n i w =
     (let avail = (if n - i < 8 then n - i else 8);
          x = load_chunk s (pos + i) avail;
          valid = (if avail = 8 then NOT 0 else push_bit (avail * 8) 1 - 1);
          br = (yep_swar_eq8 x 0x0A0A0A0A0A0A0A0A OR yep_swar_eq8 x 0x0D0D0D0D0D0D0D0D) AND valid;
          room = (if br \<noteq> 0 then (br AND (NOT br + 1)) - 1 else valid) AND YEP_SWAR_FLAGS AND valid;
          w = (if \<not> wk_have_indent w then
                 let nons = NOT (yep_swar_eq8 x 0x2020202020202020) AND room in
                 if nons \<noteq> 0 then w\<lparr>wk_indent := i + yep_ctz64 nons div 8, wk_have_indent := True\<rparr> else w
               else w);
          w = (if wk_have_indent w \<and> \<not> wk_stop_set w then
                 let stm = (yep_swar_eq8 x 0x3A3A3A3A3A3A3A3A OR yep_swar_eq8 x 0x2323232323232323) AND room in
                 if stm \<noteq> 0 then
                   let cand = i + yep_ctz64 stm div 8 in
                   if wk_indent w \<le> cand then w\<lparr>wk_stop := cand, wk_stop_set := True\<rparr> else w
                 else w
               else w)
      in (br, w))"

function facts_loop :: "byte list \<Rightarrow> nat \<Rightarrow> nat \<Rightarrow> nat \<Rightarrow> walk \<Rightarrow> nat option \<times> walk" where
  "facts_loop s pos n i w =
     (if i < n then
        let (br, w') = facts_chunk s pos n i w in
        if br \<noteq> 0 then (Some (i + yep_ctz64 br div 8), w') else facts_loop s pos n (i + 8) w'
      else (None, w))"
  by pat_completeness auto
termination by (relation "measure (\<lambda>(s, pos, n, i, w). n - i)") auto

declare facts_loop.simps [simp del]

text \<open>\<open>None\<close> is the return value 0: the line runs past the cap.\<close>

definition yep_text_line_facts_capped :: "byte list \<Rightarrow> nat \<Rightarrow> nat \<Rightarrow> yep_line_facts option" where
  "yep_text_line_facts_capped s pos cap =
     (let whole = length s - pos;
          n = (if whole < cap then whole else cap);
          (e, w) = facts_loop s pos n 0
             \<lparr>wk_indent = n, wk_stop = n, wk_have_indent = False, wk_stop_set = False\<rparr>
      in if e = None \<and> cap < whole then None
         else
           let en = (case e of None \<Rightarrow> n | Some k \<Rightarrow> k);
               indent = (if wk_have_indent w then wk_indent w else en);
               stop = (if wk_stop_set w then wk_stop w else en)
           in Some \<lparr>lf_end = of_nat (pos + en), lf_indent = of_nat (pos + indent),
                    lf_stop = of_nat (pos + stop), lf_stop_set = wk_stop_set w\<rparr>)"

definition yep_text_line_facts_scalar :: "byte list \<Rightarrow> nat \<Rightarrow> yep_line_facts option" where
  "yep_text_line_facts_scalar s pos = yep_text_line_facts_capped s pos (2 ^ 64 - 1)"

section \<open>The flow-kernel chunk classifier\<close>

record yep_chunk_masks =
  cm_quote :: u32
  cm_bs :: u32
  cm_structurals :: u32
  cm_valstart :: u32
  cm_c0 :: u32
  cm_valid :: u32

definition chunk_step :: "yep_chunk_masks \<Rightarrow> nat \<times> byte \<Rightarrow> yep_chunk_masks" where
  "chunk_step m = (\<lambda>(i, c).
     let bit = push_bit i 1; m = m\<lparr>cm_valid := cm_valid m OR bit\<rparr> in
     if c = 0x22 then m\<lparr>cm_quote := cm_quote m OR bit\<rparr>
     else if c = 0x5C then m\<lparr>cm_bs := cm_bs m OR bit\<rparr>
     else if c = 0x7B \<or> c = 0x7D \<or> c = 0x5B \<or> c = 0x5D \<or> c = 0x2C \<or> c = 0x3A
       then m\<lparr>cm_structurals := cm_structurals m OR bit\<rparr>
     else if c = 0x2D \<or> (0x30 \<le> c \<and> c \<le> 0x39) \<or> c = 0x74 \<or> c = 0x66 \<or> c = 0x6E
       then m\<lparr>cm_valstart := cm_valstart m OR bit\<rparr>
     else if c < 0x20 then m\<lparr>cm_c0 := cm_c0 m OR bit\<rparr>
     else m)"

definition yep_text_json_chunk_scalar :: "byte list \<Rightarrow> yep_chunk_masks" where
  "yep_text_json_chunk_scalar p =
     foldl chunk_step \<lparr>cm_quote = 0, cm_bs = 0, cm_structurals = 0, cm_valstart = 0, cm_c0 = 0, cm_valid = 0\<rparr>
       (zip [0..<length p] p)"

section \<open>The byte classification table (chartype.c)\<close>

definition YEP_CT_SPACE :: u16 where "YEP_CT_SPACE = push_bit 0 1"
definition YEP_CT_TAB :: u16 where "YEP_CT_TAB = push_bit 1 1"
definition YEP_CT_LF :: u16 where "YEP_CT_LF = push_bit 2 1"
definition YEP_CT_CR :: u16 where "YEP_CT_CR = push_bit 3 1"
definition YEP_CT_DIGIT :: u16 where "YEP_CT_DIGIT = push_bit 4 1"
definition YEP_CT_ALPHA :: u16 where "YEP_CT_ALPHA = push_bit 5 1"
definition YEP_CT_HEXDIGIT :: u16 where "YEP_CT_HEXDIGIT = push_bit 6 1"
definition YEP_CT_INDICATOR :: u16 where "YEP_CT_INDICATOR = push_bit 7 1"
definition YEP_CT_FLOW_IND :: u16 where "YEP_CT_FLOW_IND = push_bit 8 1"
definition YEP_CT_HIGH :: u16 where "YEP_CT_HIGH = push_bit 9 1"
definition YEP_CT_PRINTABLE :: u16 where "YEP_CT_PRINTABLE = push_bit 10 1"
definition YEP_CT_BLANK :: u16 where "YEP_CT_BLANK = YEP_CT_SPACE OR YEP_CT_TAB"
definition YEP_CT_LBREAK :: u16 where "YEP_CT_LBREAK = YEP_CT_LF OR YEP_CT_CR"

text \<open>The row macros of the table.\<close>

definition ct_rows :: "u16 list list" where
  "ct_rows =
    (let Z = 0;
         BT = YEP_CT_TAB OR YEP_CT_BLANK OR YEP_CT_PRINTABLE;
         BL = YEP_CT_LF OR YEP_CT_LBREAK OR YEP_CT_PRINTABLE;
         BC = YEP_CT_CR OR YEP_CT_LBREAK OR YEP_CT_PRINTABLE;
         BS = YEP_CT_SPACE OR YEP_CT_BLANK OR YEP_CT_PRINTABLE;
         BI = YEP_CT_INDICATOR OR YEP_CT_PRINTABLE;
         BF = YEP_CT_FLOW_IND OR YEP_CT_INDICATOR OR YEP_CT_PRINTABLE;
         BP = YEP_CT_PRINTABLE;
         BD = YEP_CT_DIGIT OR YEP_CT_HEXDIGIT OR YEP_CT_PRINTABLE;
         BA = YEP_CT_ALPHA OR YEP_CT_PRINTABLE;
         BX = YEP_CT_ALPHA OR YEP_CT_HEXDIGIT OR YEP_CT_PRINTABLE;
         BH = YEP_CT_HIGH
     in
      [[Z, Z, Z, Z, Z, Z, Z, Z, Z, BT, BL, Z, Z, BC, Z, Z],
       [Z, Z, Z, Z, Z, Z, Z, Z, Z, Z, Z, Z, Z, Z, Z, Z],
       [BS, BI, BI, BI, BP, BI, BI, BI, BP, BP, BI, BP, BF, BI, BP, BP],
       [BD, BD, BD, BD, BD, BD, BD, BD, BD, BD, BI, BP, BP, BP, BI, BI],
       [BI, BX, BX, BX, BX, BX, BX, BA, BA, BA, BA, BA, BA, BA, BA, BA],
       [BA, BA, BA, BA, BA, BA, BA, BA, BA, BA, BA, BF, BP, BF, BP, BP],
       [BI, BX, BX, BX, BX, BX, BX, BA, BA, BA, BA, BA, BA, BA, BA, BA],
       [BA, BA, BA, BA, BA, BA, BA, BA, BA, BA, BA, BF, BI, BF, BP, Z],
       replicate 16 BH, replicate 16 BH, replicate 16 BH, replicate 16 BH,
       replicate 16 BH, replicate 16 BH, replicate 16 BH, replicate 16 BH])"

definition yep_chartype_table :: "u16 list" where
  "yep_chartype_table = concat ct_rows"

definition yep_ct :: "byte \<Rightarrow> u16" where
  "yep_ct c = yep_chartype_table ! unat c"

definition yep_ct_is :: "byte \<Rightarrow> u16 \<Rightarrow> bool" where
  "yep_ct_is c flags \<longleftrightarrow> yep_chartype_table ! unat c AND flags = flags"

definition yep_ct_any :: "byte \<Rightarrow> u16 \<Rightarrow> bool" where
  "yep_ct_any c flags \<longleftrightarrow> yep_chartype_table ! unat c AND flags \<noteq> 0"

definition yep_ct_is_ns :: "byte \<Rightarrow> bool" where
  "yep_ct_is_ns c =
     (let t = yep_chartype_table ! unat c in
      if t AND YEP_CT_HIGH \<noteq> 0 then True
      else t AND YEP_CT_PRINTABLE \<noteq> 0 \<and> t AND (YEP_CT_BLANK OR YEP_CT_LBREAK) = 0)"

end
