(* ===== verification/Line_Facts.thy ===== *)
theory Line_Facts
  imports Kernels
begin

text \<open>
  The line-facts walk of \<open>Kernels\<close>: one chunk of eight bytes is read lane by lane as flag words,
  the walk over chunks keeps an invariant on what it has found so far, and the result is the
  byte-by-byte reading of the line.
\<close>

section \<open>Flag words of a chunk\<close>

lemma flag_word_eq_0:
  assumes "length c \<le> 8"
  shows "flag_word f c = 0 \<longleftrightarrow> \<not> (\<exists>b\<in>set c. f b)"
proof
  assume z: "flag_word f c = 0"
  show "\<not> (\<exists>b\<in>set c. f b)"
  proof
    assume "\<exists>b\<in>set c. f b"
    then obtain j where j: "j < length c" "f (c ! j)" by (auto simp: in_set_conv_nth)
    then have "bit (flag_word f c) (8 * j + 7)" using assms by (auto simp: bit_flag_word)
    with z show False by simp
  qed
next
  assume "\<not> (\<exists>b\<in>set c. f b)"
  then show "flag_word f c = 0" by (auto intro!: bit_word_eqI simp: bit_flag_word)
qed

lemma takeWhile_first:
  assumes "\<exists>b\<in>set c. f b"
  shows "length (takeWhile (\<lambda>b. \<not> f b) c) < length c" and "f (c ! length (takeWhile (\<lambda>b. \<not> f b) c))"
    and "\<And>j. j < length (takeWhile (\<lambda>b. \<not> f b) c) \<Longrightarrow> \<not> f (c ! j)"
proof -
  show lt: "length (takeWhile (\<lambda>b. \<not> f b) c) < length c"
    using assms by (metis length_takeWhile_le nat_less_le takeWhile_eq_all_conv takeWhile_eq_take take_all_iff)
  show "f (c ! length (takeWhile (\<lambda>b. \<not> f b) c))"
    using nth_length_takeWhile [OF lt] by simp
  show "\<not> f (c ! j)" if "j < length (takeWhile (\<lambda>b. \<not> f b) c)" for j
    using that nth_mem [OF that] set_takeWhileD takeWhile_nth by metis
qed

lemma ctz_flag_word:
  assumes "length c \<le> 8" and "\<exists>b\<in>set c. f b"
  shows "yep_ctz64 (flag_word f c) div 8 = length (takeWhile (\<lambda>b. \<not> f b) c)"
proof -
  let ?j = "length (takeWhile (\<lambda>b. \<not> f b) c)"
  note tw = takeWhile_first [OF assms(2)]
  have "yep_ctz64 (flag_word f c) = 8 * ?j + 7"
  proof (rule ctz_eqI)
    show "8 * ?j + 7 < 64" using tw(1) assms(1) by simp
    show "bit (flag_word f c) (8 * ?j + 7)" using tw(1,2) assms(1) by (auto simp: bit_flag_word)
    fix m assume "m < 8 * ?j + 7"
    moreover have "m = 8 * (m div 8) + m mod 8" by simp
    ultimately have "m div 8 < ?j \<or> m mod 8 \<noteq> 7" by linarith
    then show "\<not> bit (flag_word f c) m" using tw(3) by (auto simp: bit_flag_word)
  qed
  then show ?thesis by simp
qed

lemma flag_word_or: "flag_word f c OR flag_word g c = flag_word (\<lambda>b. f b \<or> g b) c"
  by (auto intro!: bit_word_eqI simp: bit_flag_word bit_or_iff)

text \<open>The mask of the bytes that exist cuts the padding lanes off.\<close>

lemma flag_word_pad:
  assumes "length c \<le> 8"
  shows "flag_word f (c @ replicate (8 - length c) 0) AND mask (8 * length c) = flag_word f c"
proof (rule bit_word_eqI)
  fix n assume "n < LENGTH(64)"
  have "n < 8 * length c \<longleftrightarrow> n div 8 < length c" by (simp add: div_less_iff_less_mult mult.commute)
  then show "bit (flag_word f (c @ replicate (8 - length c) 0) AND mask (8 * length c)) n \<longleftrightarrow> bit (flag_word f c) n"
    by (auto simp: bit_flag_word bit_and_iff bit_mask_iff nth_append)
qed

lemma valid_mask:
  assumes "length c \<le> 8"
  shows "(if length c = 8 then NOT 0 else push_bit (length c * 8) 1 - 1) = (mask (8 * length c) :: u64)"
proof (cases "length c = 8")
  case True
  show ?thesis unfolding True by (simp add: mask_eq_exp_minus_1)
next
  case False
  then show ?thesis by (simp add: mask_eq_exp_minus_1 push_bit_eq_mult mult.commute)
qed

text \<open>The lanes strictly below the first break.\<close>

lemma room_lanes:
  assumes len: "length c \<le> 8" and br: "br = flag_word f c"
  shows "(if br \<noteq> 0 then (br AND (NOT br + 1)) - 1 else mask (8 * length c)) AND YEP_SWAR_FLAGS AND mask (8 * length c) =
    flag_word (\<lambda>_. True) (takeWhile (\<lambda>b. \<not> f b) c)"
proof -
  let ?m = "length (takeWhile (\<lambda>b. \<not> f b) c)"
  have "splat 0x80 = flag_word (\<lambda>_. True) (replicate 8 0)"
    by (simp add: splat_def flag_word_def map_replicate_const)
  then have fl: "bit YEP_SWAR_FLAGS n \<longleftrightarrow> n < 64 \<and> n mod 8 = 7" for n
    unfolding splat_consts by (auto simp: bit_flag_word)
  have lt: "n < 8 * length c \<longleftrightarrow> n div 8 < length c" for n
    by (simp add: div_less_iff_less_mult mult.commute)
  show ?thesis
  proof (cases "\<exists>b\<in>set c. f b")
    case True
    then have nz: "br \<noteq> 0" using flag_word_eq_0 [OF len] br by simp
    let ?k = "yep_ctz64 br"
    have k: "?k div 8 = ?m" "?k mod 8 = 7" "?m < length c"
      using ctz_flag_word [OF len True] ctz_spec(2) [OF nz] takeWhile_first(1) [OF True] by (auto simp: br bit_flag_word)
    have "n < ?k \<longleftrightarrow> n div 8 < ?m" if "n mod 8 = 7" for n
    proof -
      have "n = 8 * (n div 8) + 7" "?k = 8 * ?m + 7"
        using that k by (metis mult_div_mod_eq)+
      then show ?thesis by linarith
    qed
    with nz k(3) show ?thesis
      by (auto intro!: bit_word_eqI simp: lowest_bit_mask bit_and_iff bit_mask_iff fl bit_flag_word lt)
  next
    case False
    then have z: "br = 0" and tw: "takeWhile (\<lambda>b. \<not> f b) c = c" using flag_word_eq_0 [OF len] br by auto
    show ?thesis
      unfolding tw using z by (auto intro!: bit_word_eqI simp: bit_and_iff bit_mask_iff fl bit_flag_word lt)
  qed
qed

lemma flag_word_room:
  assumes "length c \<le> 8"
  shows "flag_word f (c @ pad) AND flag_word (\<lambda>_. True) (takeWhile p c) = flag_word f (takeWhile p c)"
    and "NOT (flag_word f (c @ pad)) AND flag_word (\<lambda>_. True) (takeWhile p c) = flag_word (\<lambda>b. \<not> f b) (takeWhile p c)"
proof -
  have nth: "(c @ pad) ! j = takeWhile p c ! j" "j < length c + length pad" if "j < length (takeWhile p c)" for j
    using that length_takeWhile_le [of p c] by (simp_all add: nth_append takeWhile_nth)
  show "flag_word f (c @ pad) AND flag_word (\<lambda>_. True) (takeWhile p c) = flag_word f (takeWhile p c)"
    "NOT (flag_word f (c @ pad)) AND flag_word (\<lambda>_. True) (takeWhile p c) = flag_word (\<lambda>b. \<not> f b) (takeWhile p c)"
    by (auto intro!: bit_word_eqI simp: bit_flag_word bit_and_iff bit_not_iff nth)
qed

section \<open>The line-facts walk\<close>

definition is_brk :: "byte \<Rightarrow> bool" where
  "is_brk b \<longleftrightarrow> b = 0x0A \<or> b = 0x0D"

definition is_stop :: "byte \<Rightarrow> bool" where
  "is_stop b \<longleftrightarrow> b = 0x3A \<or> b = 0x23"

text \<open>What one iteration does, over the bytes \<open>c\<close> of its chunk.\<close>

lemma facts_chunk_lanes:
  assumes i: "i < n" and n: "n \<le> length (drop pos s)" and c: "c = take 8 (drop i (take n (drop pos s)))"
    and t: "t = takeWhile (\<lambda>b. \<not> is_brk b) c"
  shows "facts_chunk s pos n i w =
    (flag_word is_brk c,
     let w = (if \<not> wk_have_indent w \<and> (\<exists>b\<in>set t. b \<noteq> 0x20)
              then w\<lparr>wk_indent := i + length (takeWhile (\<lambda>b. b = 0x20) t), wk_have_indent := True\<rparr> else w)
     in if wk_have_indent w \<and> \<not> wk_stop_set w \<and> (\<exists>b\<in>set t. is_stop b)
           \<and> wk_indent w \<le> i + length (takeWhile (\<lambda>b. \<not> is_stop b) t)
        then w\<lparr>wk_stop := i + length (takeWhile (\<lambda>b. \<not> is_stop b) t), wk_stop_set := True\<rparr> else w)"
proof -
  have lc: "length c = (if n - i < 8 then n - i else 8)" using i n by (auto simp: c min_def)
  then have len: "length c \<le> 8" by simp
  let ?pad = "replicate (8 - length c) (0 :: byte)"
  have cc: "take (length c) (drop (pos + i) s) = c"
    using i n by (auto simp: c take_drop min_def add.commute)
  have x: "load_chunk s (pos + i) (length c) = le_load (c @ ?pad)"
    using cc by (auto simp: load_chunk_def)
  have l8: "length (c @ ?pad) = 8" using len by simp
  let ?br = "(yep_swar_eq8 (le_load (c @ ?pad)) 0x0A0A0A0A0A0A0A0A OR yep_swar_eq8 (le_load (c @ ?pad)) 0x0D0D0D0D0D0D0D0D)
      AND mask (8 * length c)"
  have br: "?br = flag_word is_brk c"
    unfolding splat_consts swar_eq8_lanes [OF l8] flag_word_or is_brk_def [symmetric, abs_def]
    by (rule flag_word_pad [OF len])
  note room = room_lanes [OF len refl, of is_brk, folded t]
  have lt: "length t \<le> 8" unfolding t by (rule le_trans [OF length_takeWhile_le len])
  have nons: "NOT (yep_swar_eq8 (le_load (c @ ?pad)) 0x2020202020202020) AND flag_word (\<lambda>_. True) t =
      flag_word (\<lambda>b. b \<noteq> 0x20) t"
    unfolding splat_consts swar_eq8_lanes [OF l8] t by (rule flag_word_room(2) [OF len])
  have stm: "(yep_swar_eq8 (le_load (c @ ?pad)) 0x3A3A3A3A3A3A3A3A OR yep_swar_eq8 (le_load (c @ ?pad)) 0x2323232323232323)
      AND flag_word (\<lambda>_. True) t = flag_word is_stop t"
    unfolding splat_consts swar_eq8_lanes [OF l8] flag_word_or t is_stop_def [symmetric, abs_def]
    by (rule flag_word_room(1) [OF len])
  have z1: "flag_word (\<lambda>b. b \<noteq> 0x20) t \<noteq> 0 \<longleftrightarrow> (\<exists>b\<in>set t. b \<noteq> 0x20)"
    and z2: "flag_word is_stop t \<noteq> 0 \<longleftrightarrow> (\<exists>b\<in>set t. is_stop b)" using flag_word_eq_0 [OF lt] by auto
  have k1: "yep_ctz64 (flag_word (\<lambda>b. b \<noteq> 0x20) t) div 8 = length (takeWhile (\<lambda>b. b = 0x20) t)" if "\<exists>b\<in>set t. b \<noteq> 0x20"
    using ctz_flag_word [OF lt that] by simp
  note k2 = ctz_flag_word [OF lt, of is_stop]
  show ?thesis
    unfolding facts_chunk_def lc [symmetric] Let_def x valid_mask [OF len] br room nons stm z1 z2
    using k1 k2 by (auto split: if_splits)
qed

text \<open>What the walk knows after \<open>i\<close> bytes of the window \<open>t\<close>.\<close>

definition walked :: "byte list \<Rightarrow> nat \<Rightarrow> walk \<Rightarrow> bool" where
  "walked t i w \<longleftrightarrow>
     (\<forall>b\<in>set (take i t). \<not> is_brk b) \<and>
     wk_have_indent w = (\<exists>b\<in>set (take i t). b \<noteq> 0x20) \<and>
     (wk_have_indent w \<longrightarrow> wk_indent w = length (takeWhile (\<lambda>b. b = 0x20) t)) \<and>
     wk_stop_set w = (\<exists>b\<in>set (take i t). is_stop b) \<and>
     (wk_stop_set w \<longrightarrow> wk_stop w = length (takeWhile (\<lambda>b. \<not> is_stop b) t))"

lemma takeWhile_mono_len:
  "(\<And>b. P b \<Longrightarrow> Q b) \<Longrightarrow> length (takeWhile P xs) \<le> length (takeWhile Q xs)"
  by (induction xs) auto

lemma takeWhile_take: "takeWhile P (take n xs) = take n (takeWhile P xs)"
proof (induction xs arbitrary: n)
  case (Cons x xs)
  then show ?case by (cases n) auto
qed simp

lemma takeWhile_split:
  assumes "\<not> (\<exists>b\<in>set xs. \<not> P b)"
  shows "takeWhile P (xs @ ys) = xs @ takeWhile P ys"
  using assms by (auto simp: takeWhile_append2)

text \<open>
  The walk over any list \<open>d @ u\<close> with the first \<open>d\<close> already walked and \<open>u\<close> free of breaks: the
  two updates extend it to \<open>d @ u\<close>, whatever follows.
\<close>

lemma walk_extend:
  assumes w: "walked (d @ u @ r) (length d) w" and u: "\<forall>b\<in>set u. \<not> is_brk b"
    and w1: "w1 = (if \<not> wk_have_indent w \<and> (\<exists>b\<in>set u. b \<noteq> 0x20)
              then w\<lparr>wk_indent := length d + length (takeWhile (\<lambda>b. b = 0x20) u), wk_have_indent := True\<rparr> else w)"
    and w2: "w2 = (if wk_have_indent w1 \<and> \<not> wk_stop_set w1 \<and> (\<exists>b\<in>set u. is_stop b)
           \<and> wk_indent w1 \<le> length d + length (takeWhile (\<lambda>b. \<not> is_stop b) u)
        then w1\<lparr>wk_stop := length d + length (takeWhile (\<lambda>b. \<not> is_stop b) u), wk_stop_set := True\<rparr> else w1)"
  shows "walked (d @ u @ r) (length d + length u) w2"
proof -
  have sp: "takeWhile P (d @ u @ r) = d @ takeWhile P u" if "\<not> (\<exists>b\<in>set d. \<not> P b)" "\<exists>b\<in>set u. \<not> P b" for P
    using that by (auto simp: takeWhile_split takeWhile_append1)
  have in1: "wk_have_indent w1 = (\<exists>b\<in>set (d @ u). b \<noteq> 0x20)"
      "wk_have_indent w1 \<longrightarrow> wk_indent w1 = length (takeWhile (\<lambda>b. b = 0x20) (d @ u @ r))"
      "wk_stop_set w1 = wk_stop_set w" "wk_stop w1 = wk_stop w"
    using w sp [of "\<lambda>b. b = 0x20"] by (auto simp: w1 walked_def)
  have le: "wk_indent w1 \<le> length d + length (takeWhile (\<lambda>b. \<not> is_stop b) u)" and hi: "wk_have_indent w1"
    if nd: "\<not> wk_stop_set w1" and ex: "\<exists>b\<in>set u. is_stop b"
  proof -
    have "is_stop b \<Longrightarrow> b \<noteq> 0x20" for b by (auto simp: is_stop_def)
    then show hi: "wk_have_indent w1" using ex in1(1) by auto
    have nd': "\<not> (\<exists>b\<in>set d. is_stop b)" using nd in1(3) w by (simp add: walked_def)
    have "length (takeWhile (\<lambda>b. b = 0x20) (d @ u @ r)) \<le> length (takeWhile (\<lambda>b. \<not> is_stop b) (d @ u @ r))"
      by (rule takeWhile_mono_len) (auto simp: is_stop_def)
    with sp [of "\<lambda>b. \<not> is_stop b"] nd' ex in1(2) hi
    show "wk_indent w1 \<le> length d + length (takeWhile (\<lambda>b. \<not> is_stop b) u)" by simp
  qed
  have "wk_have_indent w2 = wk_have_indent w1" "wk_indent w2 = wk_indent w1" by (simp_all add: w2)
  moreover have "wk_stop_set w2 = (\<exists>b\<in>set (d @ u). is_stop b)"
      "wk_stop_set w2 \<longrightarrow> wk_stop w2 = length (takeWhile (\<lambda>b. \<not> is_stop b) (d @ u @ r))"
    using w in1(3,4) le hi sp [of "\<lambda>b. \<not> is_stop b"] by (auto simp: w2 walked_def)
  moreover have "\<forall>b\<in>set (d @ u). \<not> is_brk b" using w u by (auto simp: walked_def)
  moreover have "take (length d + length u) (d @ u @ r) = d @ u" by simp
  ultimately show ?thesis using in1(1,2) unfolding walked_def by simp
qed

lemma facts_loop_spec:
  assumes "n \<le> length (drop pos s)" and "t = take n (drop pos s)" and "walked t i w"
    and "l = length (takeWhile (\<lambda>b. \<not> is_brk b) t)" and "facts_loop s pos n i w = (e, w')"
  shows "e = (if l < n then Some l else None) \<and> walked t l w'"
  using assms(3,5)
proof (induction "n - i" arbitrary: i w rule: less_induct)
  case less
  have lt: "length t = n" using assms(1,2) by simp
  show ?case
  proof (cases "i < n")
    case False
    then have "take i t = t" "\<forall>b\<in>set t. \<not> is_brk b" using less.prems(1) lt by (auto simp: walked_def)
    then have "takeWhile (\<lambda>b. \<not> is_brk b) t = t" "take i t = t" by (simp_all add: takeWhile_eq_all_conv)
    then have "l = n" "take i t = take l t" unfolding assms(4) by (simp_all only: lt take_all order_refl)
    with less.prems False show ?thesis by (simp add: facts_loop.simps walked_def)
  next
    case True
    define c where "c = take 8 (drop i t)"
    define u where "u = takeWhile (\<lambda>b. \<not> is_brk b) c"
    define r where "r = drop (length u) (drop i t)"
    have cl: "length c \<le> 8" by (simp add: c_def)
    have uc: "u = take (length u) c" unfolding u_def by (metis takeWhile_eq_take)
    have ul: "length u \<le> length c" unfolding u_def by (rule length_takeWhile_le)
    have ut: "u = take (length u) (drop i t)"
      using uc ul cl by (metis c_def min.absorb1 order_trans take_take)
    have t: "t = take i t @ u @ r" unfolding r_def using ut by (metis append_take_drop_id)
    have di: "length (take i t) = i" using True lt by simp
    obtain w1 where ch: "facts_chunk s pos n i w = (flag_word is_brk c, w1)" and w1: "walked t (i + length u) w1"
    proof -
      note fc = facts_chunk_lanes [OF True assms(1) c_def [unfolded assms(2)] u_def, of w, unfolded Let_def]
      have "walked (take i t @ u @ r) (length (take i t)) w" using less.prems(1) by (simp only: t [symmetric] di)
      moreover have "\<forall>b\<in>set u. \<not> is_brk b" unfolding u_def by (auto dest: set_takeWhileD)
      ultimately have "walked (take i t @ u @ r) (length (take i t) + length u)
          (snd (facts_chunk s pos n i w))"
        unfolding fc snd_conv by (rule walk_extend) (simp_all only: di)
      then have "walked t (i + length u) (snd (facts_chunk s pos n i w))" by (simp only: t [symmetric] di)
      then show thesis by (rule that [rotated]) (simp add: fc)
    qed
    show ?thesis
    proof (cases "\<exists>b\<in>set c. is_brk b")
      case found: True
      have k: "length u < length c" "is_brk (c ! length u)"
        using takeWhile_first(1,2) [OF found] by (simp_all add: u_def)
      have "takeWhile (\<lambda>b. \<not> is_brk b) t = take i t @ u"
      proof -
        have "takeWhile (\<lambda>b. \<not> is_brk b) (drop i t) = u"
          unfolding u_def c_def using found
          by (metis append_take_drop_id c_def takeWhile_append1)
        moreover have "\<not> (\<exists>b\<in>set (take i t). \<not> \<not> is_brk b)" using less.prems(1) by (simp add: walked_def)
        ultimately show ?thesis using takeWhile_split [of "take i t" "\<lambda>b. \<not> is_brk b" "drop i t"] by simp
      qed
      then have l: "l = i + length u" using assms(4) di by simp
      have "length c \<le> n - i" unfolding c_def using lt by simp
      then have "l < n" using l k(1) True by simp
      moreover have "facts_loop s pos n i w = (Some (i + length u), w1)"
        using True ch found flag_word_eq_0 [OF cl] ctz_flag_word [OF cl found]
        by (simp add: facts_loop.simps [of s pos n i] u_def)
      ultimately show ?thesis using less.prems(2) w1 l by simp
    next
      case none: False
      then have "u = c" unfolding u_def by simp
      then have "take (i + length u) t = take (i + 8) t"
        unfolding c_def using lt by (simp add: min_def)
      then have w8: "walked t (i + 8) w1" using w1 by (simp add: walked_def)
      have "facts_loop s pos n i w = facts_loop s pos n (i + 8) w1"
        using True ch none flag_word_eq_0 [OF cl] by (simp add: facts_loop.simps [of s pos n i])
      with less.hyps [OF _ w8] less.prems(2) True show ?thesis by simp
    qed
  qed
qed

section \<open>The exact line facts\<close>

text \<open>The facts read off the line byte by byte.\<close>

definition plain_line_facts :: "byte list \<Rightarrow> nat \<Rightarrow> yep_line_facts" where
  "plain_line_facts s pos =
     (let line = takeWhile (\<lambda>b. \<not> is_brk b) (drop pos s) in
      \<lparr>lf_end = of_nat (pos + length line),
       lf_indent = of_nat (pos + length (takeWhile (\<lambda>b. b = 0x20) line)),
       lf_stop = of_nat (pos + length (takeWhile (\<lambda>b. \<not> is_stop b) line)),
       lf_stop_set = (\<exists>b\<in>set line. is_stop b)\<rparr>)"

lemma takeWhile_prefix_len:
  assumes "\<exists>b\<in>set (takeWhile Q t). \<not> P b"
  shows "takeWhile P (takeWhile Q t) = takeWhile P t"
  using assms by (induction t) (auto split: if_splits)

lemma capped_facts:
  assumes "pos \<le> length s"
  shows "yep_text_line_facts_capped s pos cap =
    (if cap < length s - pos \<and> cap \<le> length (takeWhile (\<lambda>b. \<not> is_brk b) (drop pos s)) then None
     else Some (plain_line_facts s pos))"
proof -
  define n where "n = (if length s - pos < cap then length s - pos else cap)"
  define t where "t = take n (drop pos s)"
  define line where "line = takeWhile (\<lambda>b. \<not> is_brk b) (drop pos s)"
  define l where "l = length (takeWhile (\<lambda>b. \<not> is_brk b) t)"
  let ?w0 = "\<lparr>wk_indent = n, wk_stop = n, wk_have_indent = False, wk_stop_set = False\<rparr>"
  obtain e w where run: "facts_loop s pos n 0 ?w0 = (e, w)" by fastforce
  have nl: "n \<le> length (drop pos s)" by (simp add: n_def)
  have "walked t 0 ?w0" by (simp add: walked_def)
  from facts_loop_spec [OF nl t_def this l_def run]
  have e: "e = (if l < n then Some l else None)" and w: "walked t l w" by auto
  have tw: "takeWhile (\<lambda>b. \<not> is_brk b) t = take n line"
    unfolding t_def line_def by (rule takeWhile_take)
  have capped: "yep_text_line_facts_capped s pos cap =
      (if e = None \<and> cap < length s - pos then None
       else let en = (case e of None \<Rightarrow> n | Some k \<Rightarrow> k) in
         Some \<lparr>lf_end = of_nat (pos + en), lf_indent = of_nat (pos + (if wk_have_indent w then wk_indent w else en)),
               lf_stop = of_nat (pos + (if wk_stop_set w then wk_stop w else en)), lf_stop_set = wk_stop_set w\<rparr>)"
    unfolding yep_text_line_facts_capped_def n_def [symmetric] Let_def run by simp
  have ll: "length line \<le> length s - pos"
    unfolding line_def using length_takeWhile_le [of _ "drop pos s"] by simp
  show ?thesis
  proof (cases "cap < length s - pos \<and> cap \<le> length line")
    case True
    then have "e = None" unfolding e l_def tw by (simp add: n_def)
    with True show ?thesis unfolding capped by (simp add: line_def)
  next
    case False
    then have n: "length line \<le> n" using ll by (auto simp: n_def)
    then have tl: "takeWhile (\<lambda>b. \<not> is_brk b) t = line" "l = length line" using tw by (simp_all add: l_def)
    have lt: "take l t = line" unfolding tl(2) tl(1) [symmetric] by (metis takeWhile_eq_take)
    have en: "(case e of None \<Rightarrow> n | Some k \<Rightarrow> k) = length line" using n tl(2) by (simp add: e)
    have some: "\<not> (e = None \<and> cap < length s - pos)" using False tl(2) by (auto simp: e n_def split: if_splits)
    have sub: "takeWhile P line = (if \<exists>b\<in>set line. \<not> P b then takeWhile P t else line)" for P
      unfolding tl(1) [symmetric] by (auto simp: takeWhile_prefix_len takeWhile_eq_all_conv)
    have "plain_line_facts s pos = \<lparr>lf_end = of_nat (pos + length line),
        lf_indent = of_nat (pos + (if wk_have_indent w then wk_indent w else length line)),
        lf_stop = of_nat (pos + (if wk_stop_set w then wk_stop w else length line)), lf_stop_set = wk_stop_set w\<rparr>"
      using w unfolding plain_line_facts_def Let_def line_def [symmetric] walked_def lt
      using sub [of "\<lambda>b. b = 0x20"] sub [of "\<lambda>b. \<not> is_stop b"] by simp
    with False some show ?thesis unfolding capped en Let_def line_def [symmetric] by simp
  qed
qed

text \<open>
  C27. The eight-bytes-at-a-time walk reports, for a line that ends within the cap (or with
  the buffer), exactly the byte-by-byte facts: the first break, the first non-space and the
  first \<^verbatim>\<open>:\<close> or \<^verbatim>\<open>#\<close> before the break; it declines exactly the lines that run past the cap.
\<close>

theorem line_facts_exact:
  assumes "pos \<le> length s"
  shows "yep_text_line_facts_capped s pos cap =
    (if cap < length s - pos \<and> cap \<le> length (takeWhile (\<lambda>b. \<not> is_brk b) (drop pos s)) then None
     else Some (plain_line_facts s pos))"
  by (rule capped_facts [OF assms])

theorem line_facts_exact_witness:
  "yep_text_line_facts_capped (bytes_of ''  key: value # x'' @ [0x0A]) 0 32 =
     Some \<lparr>lf_end = 16, lf_indent = 2, lf_stop = 5, lf_stop_set = True\<rparr>"
proof -
  have "plain_line_facts (bytes_of ''  key: value # x'' @ [0x0A]) 0 =
      \<lparr>lf_end = 16, lf_indent = 2, lf_stop = 5, lf_stop_set = True\<rparr>"
    by (simp add: plain_line_facts_def is_brk_def is_stop_def)
  then show ?thesis
    using line_facts_exact [of 0 "bytes_of ''  key: value # x'' @ [0x0A]" 32] by simp
qed

end
