(* ===== verification/Byte_Classes.thy ===== *)
theory Byte_Classes
  imports Line_Facts Utf8_Facts
begin

text \<open>
  The byte classification table against the classes its header documents, and the pre-scan
  statistics with the gate kernel and the printable validator.
\<close>

section \<open>The byte classes\<close>

text \<open>
  The content of the table: the classes \<^verbatim>\<open>chartype.h\<close> lists, with the composite masks BLANK and LBREAK where the rows have them.
\<close>

definition flag :: "bool \<Rightarrow> u16 \<Rightarrow> u16" where
  "flag b m = (if b then m else 0)"

definition is_hex :: "byte \<Rightarrow> bool" where
  "is_hex c \<longleftrightarrow> is_digit c \<or> (0x41 \<le> c \<and> c \<le> 0x46) \<or> (0x61 \<le> c \<and> c \<le> 0x66)"

definition is_alpha :: "byte \<Rightarrow> bool" where
  "is_alpha c \<longleftrightarrow> (0x41 \<le> c \<and> c \<le> 0x5A) \<or> (0x61 \<le> c \<and> c \<le> 0x7A)"

definition is_flow_ind :: "byte \<Rightarrow> bool" where
  "is_flow_ind c \<longleftrightarrow> c \<in> set (bytes_of '',[]{}'')"

definition is_indicator :: "byte \<Rightarrow> bool" where
  "is_indicator c \<longleftrightarrow> c \<in> set ([0x27, 0x22] @ bytes_of ''-?:,[]{}#&*!|>%@`'')"

definition ct_spec :: "byte \<Rightarrow> u16" where
  "ct_spec c =
     flag (c = 0x20 \<or> c = 0x09) YEP_CT_BLANK OR flag (is_brk c) YEP_CT_LBREAK OR
     flag (is_digit c) YEP_CT_DIGIT OR flag (is_alpha c) YEP_CT_ALPHA OR flag (is_hex c) YEP_CT_HEXDIGIT OR
     flag (is_flow_ind c) YEP_CT_FLOW_IND OR flag (is_indicator c) YEP_CT_INDICATOR OR
     flag (0x80 \<le> c) YEP_CT_HIGH OR flag (ascii_ok c True) YEP_CT_PRINTABLE"

lemma is_flow_ind_iff: "is_flow_ind c \<longleftrightarrow> c = 0x2C \<or> c = 0x5B \<or> c = 0x5D \<or> c = 0x7B \<or> c = 0x7D"
  by (auto simp: is_flow_ind_def)

lemma is_indicator_iff:
  "is_indicator c \<longleftrightarrow> c = 0x21 \<or> c = 0x22 \<or> c = 0x23 \<or> c = 0x25 \<or> c = 0x26 \<or> c = 0x27 \<or> c = 0x2A \<or> c = 0x2C \<or>
     c = 0x2D \<or> c = 0x3A \<or> c = 0x3E \<or> c = 0x3F \<or> c = 0x40 \<or> c = 0x5B \<or> c = 0x5D \<or> c = 0x60 \<or> c = 0x7B \<or> c = 0x7C \<or> c = 0x7D"
  by (auto simp: is_indicator_def)

lemma flag_simps: "flag True m = m" "flag False m = 0" "0 OR m = m" "m OR 0 = m"
  by (simp_all add: flag_def)

lemma blank_absorb: "YEP_CT_TAB OR YEP_CT_BLANK OR m = YEP_CT_BLANK OR m" "YEP_CT_SPACE OR YEP_CT_BLANK OR m = YEP_CT_BLANK OR m"
  "YEP_CT_LF OR YEP_CT_LBREAK OR m = YEP_CT_LBREAK OR m" "YEP_CT_CR OR YEP_CT_LBREAK OR m = YEP_CT_LBREAK OR m"
  by (simp_all add: YEP_CT_BLANK_def YEP_CT_LBREAK_def or.assoc or.left_commute)

lemmas class_defs = is_brk_def is_digit_def is_alpha_def is_hex_def is_flow_ind_iff is_indicator_iff ascii_ok_def

lemma high_bytes: "0x80 \<le> c \<Longrightarrow> ct_spec c = YEP_CT_HIGH"
proof -
  assume "0x80 \<le> c"
  then have n: "\<not> c \<le> k" "c \<noteq> k" if "k < 0x80" for k using that by auto
  show ?thesis
    using \<open>0x80 \<le> c\<close> by (simp add: ct_spec_def class_defs n flag_simps)
qed

lemma low_rows:
  "map ct_spec [0x00, 0x01, 0x02, 0x03, 0x04, 0x05, 0x06, 0x07, 0x08, 0x09, 0x0A, 0x0B, 0x0C, 0x0D, 0x0E, 0x0F] = ct_rows ! 0"
  "map ct_spec [0x10, 0x11, 0x12, 0x13, 0x14, 0x15, 0x16, 0x17, 0x18, 0x19, 0x1A, 0x1B, 0x1C, 0x1D, 0x1E, 0x1F] = ct_rows ! 1"
  "map ct_spec [0x20, 0x21, 0x22, 0x23, 0x24, 0x25, 0x26, 0x27, 0x28, 0x29, 0x2A, 0x2B, 0x2C, 0x2D, 0x2E, 0x2F] = ct_rows ! 2"
  "map ct_spec [0x30, 0x31, 0x32, 0x33, 0x34, 0x35, 0x36, 0x37, 0x38, 0x39, 0x3A, 0x3B, 0x3C, 0x3D, 0x3E, 0x3F] = ct_rows ! 3"
  "map ct_spec [0x40, 0x41, 0x42, 0x43, 0x44, 0x45, 0x46, 0x47, 0x48, 0x49, 0x4A, 0x4B, 0x4C, 0x4D, 0x4E, 0x4F] = ct_rows ! 4"
  "map ct_spec [0x50, 0x51, 0x52, 0x53, 0x54, 0x55, 0x56, 0x57, 0x58, 0x59, 0x5A, 0x5B, 0x5C, 0x5D, 0x5E, 0x5F] = ct_rows ! 5"
  "map ct_spec [0x60, 0x61, 0x62, 0x63, 0x64, 0x65, 0x66, 0x67, 0x68, 0x69, 0x6A, 0x6B, 0x6C, 0x6D, 0x6E, 0x6F] = ct_rows ! 6"
  "map ct_spec [0x70, 0x71, 0x72, 0x73, 0x74, 0x75, 0x76, 0x77, 0x78, 0x79, 0x7A, 0x7B, 0x7C, 0x7D, 0x7E, 0x7F] = ct_rows ! 7"
  by (simp_all add: ct_rows_def ct_spec_def class_defs flag_simps blank_absorb or.assoc Let_def word_le_nat_alt)

definition low_bytes :: "byte list list" where
  "low_bytes = [
     [0x00, 0x01, 0x02, 0x03, 0x04, 0x05, 0x06, 0x07, 0x08, 0x09, 0x0A, 0x0B, 0x0C, 0x0D, 0x0E, 0x0F],
     [0x10, 0x11, 0x12, 0x13, 0x14, 0x15, 0x16, 0x17, 0x18, 0x19, 0x1A, 0x1B, 0x1C, 0x1D, 0x1E, 0x1F],
     [0x20, 0x21, 0x22, 0x23, 0x24, 0x25, 0x26, 0x27, 0x28, 0x29, 0x2A, 0x2B, 0x2C, 0x2D, 0x2E, 0x2F],
     [0x30, 0x31, 0x32, 0x33, 0x34, 0x35, 0x36, 0x37, 0x38, 0x39, 0x3A, 0x3B, 0x3C, 0x3D, 0x3E, 0x3F],
     [0x40, 0x41, 0x42, 0x43, 0x44, 0x45, 0x46, 0x47, 0x48, 0x49, 0x4A, 0x4B, 0x4C, 0x4D, 0x4E, 0x4F],
     [0x50, 0x51, 0x52, 0x53, 0x54, 0x55, 0x56, 0x57, 0x58, 0x59, 0x5A, 0x5B, 0x5C, 0x5D, 0x5E, 0x5F],
     [0x60, 0x61, 0x62, 0x63, 0x64, 0x65, 0x66, 0x67, 0x68, 0x69, 0x6A, 0x6B, 0x6C, 0x6D, 0x6E, 0x6F],
     [0x70, 0x71, 0x72, 0x73, 0x74, 0x75, 0x76, 0x77, 0x78, 0x79, 0x7A, 0x7B, 0x7C, 0x7D, 0x7E, 0x7F]]"

lemma low_bytes_upt: "concat low_bytes = map of_nat [0..<128]"
  by (simp add: low_bytes_def upt_conv_Cons)

lemma table_split: "yep_chartype_table = map ct_spec (concat low_bytes) @ replicate 128 YEP_CT_HIGH"
proof -
  have "ct_rows = [ct_rows ! 0, ct_rows ! 1, ct_rows ! 2, ct_rows ! 3, ct_rows ! 4, ct_rows ! 5, ct_rows ! 6, ct_rows ! 7] @ replicate 8 (replicate 16 YEP_CT_HIGH)"
    by (simp add: ct_rows_def Let_def numeral_eq_Suc)
  moreover have "[ct_rows ! 0, ct_rows ! 1, ct_rows ! 2, ct_rows ! 3, ct_rows ! 4, ct_rows ! 5, ct_rows ! 6, ct_rows ! 7] = map (map ct_spec) low_bytes"
    by (simp only: low_bytes_def low_rows [symmetric] list.map)
  moreover have "concat (replicate 8 (replicate 16 YEP_CT_HIGH)) = replicate 128 YEP_CT_HIGH"
    by (simp add: numeral_eq_Suc)
  ultimately show ?thesis
    unfolding yep_chartype_table_def by (metis concat_append map_concat)
qed

lemma yep_ct_spec: "yep_ct c = ct_spec c"
proof (cases "c < 0x80")
  case True
  then have n: "unat c < 128" by (simp add: word_less_nat_alt)
  then have "yep_chartype_table ! unat c = ct_spec (of_nat (unat c))"
    unfolding table_split low_bytes_upt by (simp add: nth_append)
  then show ?thesis by (simp add: yep_ct_def)
next
  case False
  then have n: "128 \<le> unat c" "unat c < 256" using byte_bound by (simp_all add: word_less_nat_alt)
  then have "yep_chartype_table ! unat c = YEP_CT_HIGH"
    unfolding table_split low_bytes_upt by (simp add: nth_append)
  with False show ?thesis by (simp add: yep_ct_def high_bytes)
qed

definition ct_bit :: "nat \<Rightarrow> u16" where
  "ct_bit k = push_bit k 1"

lemma ct_masks:
  "YEP_CT_SPACE = ct_bit 0"
  "YEP_CT_TAB = ct_bit 1"
  "YEP_CT_LF = ct_bit 2"
  "YEP_CT_CR = ct_bit 3"
  "YEP_CT_DIGIT = ct_bit 4"
  "YEP_CT_ALPHA = ct_bit 5"
  "YEP_CT_HEXDIGIT = ct_bit 6"
  "YEP_CT_INDICATOR = ct_bit 7"
  "YEP_CT_FLOW_IND = ct_bit 8"
  "YEP_CT_HIGH = ct_bit 9"
  "YEP_CT_PRINTABLE = ct_bit 10"
  "YEP_CT_BLANK = ct_bit 0 OR ct_bit 1" "YEP_CT_LBREAK = ct_bit 2 OR ct_bit 3"
  unfolding YEP_CT_SPACE_def YEP_CT_TAB_def YEP_CT_LF_def YEP_CT_CR_def YEP_CT_DIGIT_def YEP_CT_ALPHA_def YEP_CT_HEXDIGIT_def YEP_CT_INDICATOR_def YEP_CT_FLOW_IND_def YEP_CT_HIGH_def YEP_CT_PRINTABLE_def YEP_CT_BLANK_def YEP_CT_LBREAK_def ct_bit_def
  by (rule refl)+

lemma bit_flag: "bit (flag b m) n \<longleftrightarrow> b \<and> bit m n"
  by (simp add: flag_def)

lemma bit_ct_bit: "bit (ct_bit k) n \<longleftrightarrow> n = k \<and> k < 16"
  unfolding ct_bit_def by (auto simp: push_bit_eq_mult bit_exp_iff)

lemma bit_ct_spec:
  "bit (ct_spec c) n \<longleftrightarrow>
     (n = 0 \<or> n = 1) \<and> (c = 0x20 \<or> c = 0x09) \<or> (n = 2 \<or> n = 3) \<and> is_brk c \<or> n = 4 \<and> is_digit c \<or> n = 5 \<and> is_alpha c \<or>
     n = 6 \<and> is_hex c \<or> n = 7 \<and> is_indicator c \<or> n = 8 \<and> is_flow_ind c \<or> n = 9 \<and> 0x80 \<le> c \<or> n = 10 \<and> ascii_ok c True"
  unfolding ct_spec_def bit_or_iff bit_flag ct_masks bit_ct_bit by auto

lemma and_ct_bit:
  assumes "k < 16"
  shows "x AND ct_bit k = ct_bit k \<longleftrightarrow> bit x k" and "x AND ct_bit k \<noteq> 0 \<longleftrightarrow> bit x k"
    and "x AND ct_bit k = 0 \<longleftrightarrow> \<not> bit x k"
proof -
  have "x AND ct_bit k = (if bit x k then ct_bit k else 0)"
    by (rule bit_word_eqI) (auto simp: bit_and_iff bit_ct_bit)
  moreover have "ct_bit k \<noteq> 0" using assms bit_ct_bit [of k k] by auto
  ultimately show "x AND ct_bit k = ct_bit k \<longleftrightarrow> bit x k" "x AND ct_bit k \<noteq> 0 \<longleftrightarrow> bit x k"
    "x AND ct_bit k = 0 \<longleftrightarrow> \<not> bit x k" by auto
qed

lemma ct_is_class:
  "yep_ct_is c YEP_CT_DIGIT \<longleftrightarrow> is_digit c" "yep_ct_is c YEP_CT_ALPHA \<longleftrightarrow> is_alpha c"
  "yep_ct_is c YEP_CT_HEXDIGIT \<longleftrightarrow> is_hex c" "yep_ct_is c YEP_CT_INDICATOR \<longleftrightarrow> is_indicator c"
  "yep_ct_is c YEP_CT_FLOW_IND \<longleftrightarrow> is_flow_ind c" "yep_ct_is c YEP_CT_HIGH \<longleftrightarrow> 0x80 \<le> c"
  "yep_ct_is c YEP_CT_PRINTABLE \<longleftrightarrow> ascii_ok c True"
  unfolding yep_ct_is_def yep_ct_def [symmetric] yep_ct_spec ct_masks
  by (simp_all add: and_ct_bit bit_ct_spec)

lemma and_or_zero: "x AND (a OR b) = 0 \<longleftrightarrow> x AND a = 0 \<and> x AND b = 0" for x a b :: u16
  by (auto simp: bit_eq_iff bit_and_iff bit_or_iff)

lemma ct_any_class:
  "yep_ct_any c YEP_CT_BLANK \<longleftrightarrow> c = 0x20 \<or> c = 0x09"
  "yep_ct_any c YEP_CT_LBREAK \<longleftrightarrow> is_brk c"
  "yep_ct_any c (YEP_CT_BLANK OR YEP_CT_LBREAK OR YEP_CT_FLOW_IND) \<longleftrightarrow> c = 0x20 \<or> c = 0x09 \<or> is_brk c \<or> is_flow_ind c"
  unfolding yep_ct_any_def yep_ct_def [symmetric] yep_ct_spec ct_masks and_or_zero
  by (auto simp: and_ct_bit(3) bit_ct_spec)

lemma ct_is_ns_class: "yep_ct_is_ns c \<longleftrightarrow> 0x80 \<le> c \<or> (0x21 \<le> c \<and> c \<le> 0x7E)"
proof -
  have "yep_ct_is_ns c \<longleftrightarrow> 0x80 \<le> c \<or> ascii_ok c True \<and> \<not> (c = 0x20 \<or> c = 0x09 \<or> is_brk c)"
    unfolding yep_ct_is_ns_def Let_def yep_ct_def [symmetric] yep_ct_spec ct_masks and_or_zero
    by (auto simp: and_ct_bit(3) bit_ct_spec)
  also have "\<dots> \<longleftrightarrow> 0x80 \<le> c \<or> (0x21 \<le> c \<and> c \<le> 0x7E)"
    by (auto simp: ascii_ok_def is_brk_def word_le_nat_alt word_unat_eq_iff)
  finally show ?thesis .
qed

text \<open>
  The classes one by one, as \<^verbatim>\<open>chartype.h\<close> documents them: SPACE, TAB, LF and CR are one byte each.
\<close>

definition ct_doc :: "byte \<Rightarrow> u16" where
  "ct_doc c =
     flag (c = 0x20) YEP_CT_SPACE OR flag (c = 0x09) YEP_CT_TAB OR flag (c = 0x0A) YEP_CT_LF OR flag (c = 0x0D) YEP_CT_CR OR
     flag (is_digit c) YEP_CT_DIGIT OR flag (is_alpha c) YEP_CT_ALPHA OR flag (is_hex c) YEP_CT_HEXDIGIT OR
     flag (is_flow_ind c) YEP_CT_FLOW_IND OR flag (is_indicator c) YEP_CT_INDICATOR OR
     flag (0x80 \<le> c) YEP_CT_HIGH OR flag (ascii_ok c True) YEP_CT_PRINTABLE"

lemma bit_ct_doc:
  "bit (ct_doc c) n \<longleftrightarrow>
     n = 0 \<and> c = 0x20 \<or> n = 1 \<and> c = 0x09 \<or> n = 2 \<and> c = 0x0A \<or> n = 3 \<and> c = 0x0D \<or> n = 4 \<and> is_digit c \<or> n = 5 \<and> is_alpha c \<or>
     n = 6 \<and> is_hex c \<or> n = 7 \<and> is_indicator c \<or> n = 8 \<and> is_flow_ind c \<or> n = 9 \<and> 0x80 \<le> c \<or> n = 10 \<and> ascii_ok c True"
  unfolding ct_doc_def bit_or_iff bit_flag ct_masks bit_ct_bit by auto

lemma table_doc: "yep_ct c = ct_doc c OR flag (c = 0x20 \<or> c = 0x09) YEP_CT_BLANK OR flag (is_brk c) YEP_CT_LBREAK"
  unfolding yep_ct_spec
  by (rule bit_word_eqI) (auto simp: bit_or_iff bit_flag bit_ct_spec bit_ct_doc ct_masks bit_ct_bit is_brk_def)

text \<open>
  C28. The entry of a byte holds its documented classes, and on the two blanks and the two line
  breaks the composite mask BLANK or LBREAK on top of them. So outside these four bytes the entry is
  the documented one, while a tab also carries the SPACE bit and a space the TAB bit, likewise LF and
  CR. The tests for blanks, line breaks and non-space characters accept exactly their bytes.
\<close>

theorem chartype_exact:
  "yep_ct c = ct_doc c OR flag (c = 0x20 \<or> c = 0x09) YEP_CT_BLANK OR flag (is_brk c) YEP_CT_LBREAK \<and>
   (yep_ct c = ct_doc c \<longleftrightarrow> c \<notin> {0x09, 0x0A, 0x0D, 0x20}) \<and>
   (yep_ct_any c YEP_CT_BLANK \<longleftrightarrow> c = 0x20 \<or> c = 0x09) \<and> (yep_ct_any c YEP_CT_LBREAK \<longleftrightarrow> c = 0x0A \<or> c = 0x0D) \<and>
   (yep_ct_is_ns c \<longleftrightarrow> 0x80 \<le> c \<or> (0x21 \<le> c \<and> c \<le> 0x7E))"
proof -
  have "yep_ct c \<noteq> ct_doc c" if "c \<in> {0x09, 0x0A, 0x0D, 0x20}"
  proof -
    have "\<exists>n. bit (yep_ct c) n \<noteq> bit (ct_doc c) n"
    proof (cases "c = 0x20 \<or> c = 0x09")
      case True
      then show ?thesis unfolding yep_ct_spec by (intro exI [of _ "if c = 0x20 then 1 else 0"]) (auto simp: bit_ct_spec bit_ct_doc)
    next
      case False
      then show ?thesis using that unfolding yep_ct_spec
        by (intro exI [of _ "if c = 0x0A then 3 else 2"]) (auto simp: bit_ct_spec bit_ct_doc is_brk_def)
    qed
    then show ?thesis by metis
  qed
  moreover have "yep_ct c = ct_doc c" if "c \<notin> {0x09, 0x0A, 0x0D, 0x20}"
    using that unfolding table_doc by (simp add: flag_simps is_brk_def)
  moreover have "yep_ct_any c YEP_CT_LBREAK \<longleftrightarrow> c = 0x0A \<or> c = 0x0D" unfolding ct_any_class by (auto simp: is_brk_def)
  ultimately show ?thesis using table_doc ct_any_class(1) ct_is_ns_class by blast
qed

section \<open>The pre-scan statistics\<close>

lemma stats_fields:
  "ts_nl (foldl stats_step st s) = ts_nl st + count_list s 0x0A"
  "ts_comma (foldl stats_step st s) = ts_comma st + count_list s 0x2C"
  "ts_dash (foldl stats_step st s) = ts_dash st + count_list s 0x2D"
  "ts_colon (foldl stats_step st s) = ts_colon st + count_list s 0x3A"
  "ts_bracket (foldl stats_step st s) = ts_bracket st + count_list s 0x5B"
  "ts_brace (foldl stats_step st s) = ts_brace st + count_list s 0x7B"
  "ts_dq (foldl stats_step st s) = ts_dq st + count_list s 0x22"
  "ts_sq (foldl stats_step st s) = ts_sq st + count_list s 0x27"
  "ts_pipe (foldl stats_step st s) = ts_pipe st + count_list s 0x7C"
  "ts_amp (foldl stats_step st s) = ts_amp st + count_list s 0x26"
  by (induction s arbitrary: st) (simp_all add: stats_step_def stats_switch_def Let_def)

lemma switch_flags: "ts_nonascii (stats_switch st c) = ts_nonascii st" "ts_bad_printable (stats_switch st c) = ts_bad_printable st"
  by (simp_all add: stats_switch_def)

lemma bad_ascii_iff:
  "c < 0x80 \<Longrightarrow> ((c < 0x20 \<and> c \<noteq> 9 \<and> c \<noteq> 10 \<and> c \<noteq> 13) \<or> c = 0x7F) \<longleftrightarrow> \<not> ascii_ok c True"
  by (auto simp: ascii_ok_def word_le_nat_alt word_less_nat_alt word_unat_eq_iff)

lemma stats_nonascii: "ts_nonascii (foldl stats_step st s) \<longleftrightarrow> ts_nonascii st \<or> (\<exists>b\<in>set s. 0x80 \<le> b)"
  by (induction s arbitrary: st) (auto simp: stats_step_def Let_def switch_flags)

lemma stats_bad:
  "ts_bad_printable (foldl stats_step st s) \<longleftrightarrow> ts_bad_printable st \<or> (\<exists>b\<in>set s. b < 0x80 \<and> \<not> ascii_ok b True)"
proof (induction s arbitrary: st)
  case (Cons c s)
  show ?case
    unfolding foldl_Cons Cons.IH using bad_ascii_iff [of c]
    by (cases "c < 0x80") (auto simp: stats_step_def Let_def switch_flags not_less)
qed simp

lemma gate_scan_iff: "yep_text_gate_scan_scalar s = 0 \<longleftrightarrow> list_all (\<lambda>b. ascii_ok b True) s"
  by (induction s) (auto simp: ascii_ok_def)

lemma ascii_ok_low: "ascii_ok b True \<Longrightarrow> b < 0x80"
  by (auto simp: ascii_ok_def word_le_nat_alt word_less_nat_alt split: if_splits)

lemma gate_text: "list_all (\<lambda>b. ascii_ok b True) s \<Longrightarrow> utf8_text True s"
proof (induction s)
  case (Cons b s)
  then have b: "b < 0x80" "ascii_ok b True" by (auto dest: ascii_ok_low)
  have u: "unat (ucast b :: u32) = unat b" by (rule unat_ucast_up)
  have "yep_emit_utf8 (ucast b) = [b]"
    using b(1) u by (simp add: yep_emit_utf8_def word_less_nat_alt word_unat_eq_iff unat_ucast)
  moreover have "scalar_value (ucast b)" "c_printable (ucast b)"
    using b u by (auto simp: scalar_value_nat c_printable_def ascii_ok_def word_le_nat_alt word_less_nat_alt word_unat_eq_iff
        split: if_splits)
  ultimately have "unit_seq True [b]" by (auto simp: unit_seq_def intro!: exI [of _ "ucast b"])
  from utf8_text_Cons [OF this] Cons show ?case by simp
qed simp

text \<open>
  C29. The fused pre-scan counts every class exactly, and its two flags are clear precisely
  when the gate kernel passes the buffer; a buffer it passes is accepted by the printable
  validator.
\<close>

theorem prescan_exact:
  "\<exists>st. yep_text_scan_stats_scalar (Some s) = st \<and>
     ts_nl st = count_list s 0x0A \<and> ts_comma st = count_list s 0x2C \<and> ts_dash st = count_list s 0x2D \<and>
     ts_colon st = count_list s 0x3A \<and> ts_bracket st = count_list s 0x5B \<and> ts_brace st = count_list s 0x7B \<and>
     ts_dq st = count_list s 0x22 \<and> ts_sq st = count_list s 0x27 \<and> ts_pipe st = count_list s 0x7C \<and>
     ts_amp st = count_list s 0x26 \<and>
     (\<not> ts_nonascii st \<and> \<not> ts_bad_printable st) =
       (yep_text_gate_scan_scalar s = 0 \<and> yep_printable_validate yep_text_gate_scan_scalar (Some s) (length s) = Inr ())"
proof -
  let ?st = "foldl stats_step zero_stats s"
  have st: "yep_text_scan_stats_scalar (Some s) = ?st" by (auto simp: yep_text_scan_stats_scalar_def)
  have flags: "(\<not> ts_nonascii ?st \<and> \<not> ts_bad_printable ?st) = list_all (\<lambda>b. ascii_ok b True) s"
    unfolding stats_nonascii stats_bad by (auto simp: zero_stats_def list_all_iff not_le dest: ascii_ok_low)
  have "yep_printable_validate yep_text_gate_scan_scalar (Some s) (length s) = Inr ()"
    if "list_all (\<lambda>b. ascii_ok b True) s"
    using gate_text [OF that] by (simp add: yep_printable_validate_def scalar_gate.validate_text)
  with flags show ?thesis
    unfolding st by (intro exI [of _ ?st]) (auto simp: stats_fields zero_stats_def gate_scan_iff)
qed

end
