(* ===== verification/Stage1.thy ===== *)
theory Stage1
  imports Word_Lanes
begin

text \<open>
  The structural indexer of the JSON tape: \<^verbatim>\<open>yep_json_stage1_tokens\<close> and
  \<^verbatim>\<open>yep_json_stage1_resolve\<close> of \<^verbatim>\<open>src/yeptris/common/simd_text.h\<close> and the scalar drivers of
  \<^verbatim>\<open>src/yeptris/scan/json.c\<close>. A block is at most 64 bytes; bit \<open>k\<close> of a mask is byte \<open>k\<close>. The
  block algebra (the borrow trick for escapes, the prefix-xor for string parity) is proved
  equal to a byte-at-a-time scan with two booleans of state.
\<close>

section \<open>The block resolver\<close>

definition YEP_S1_C0_IN_STRING :: u32 where
  "YEP_S1_C0_IN_STRING = 1"

definition YEP_S1_HAS_ESCAPE :: u32 where
  "YEP_S1_HAS_ESCAPE = 2"

text \<open>The carried words of the C code and the flag accumulator.\<close>

record s1_state =
  s1_prev_in_string :: u64
  s1_esc_carry :: u64
  s1_flags :: u32

definition prefix_xor :: "u64 \<Rightarrow> u64" where
  "prefix_xor q =
     (let ps = q;
          ps = ps XOR push_bit 1 ps;
          ps = ps XOR push_bit 2 ps;
          ps = ps XOR push_bit 4 ps;
          ps = ps XOR push_bit 8 ps;
          ps = ps XOR push_bit 16 ps;
          ps = ps XOR push_bit 32 ps
      in ps)"

definition yep_json_stage1_tokens ::
    "u64 \<Rightarrow> u64 \<Rightarrow> u64 \<Rightarrow> u64 \<Rightarrow> u64 \<Rightarrow> s1_state \<Rightarrow> u64 \<times> s1_state" where
  "yep_json_stage1_tokens q bs op c0 valid st =
     (let potential = bs AND NOT (s1_esc_carry st);
          s = ((push_bit 1 potential OR 0xAAAAAAAAAAAAAAAA) - potential) XOR 0xAAAAAAAAAAAAAAAA;
          escaped = s XOR (bs OR s1_esc_carry st);
          esc_carry = drop_bit 63 (s AND bs);
          quote_live = q AND NOT escaped;
          ps = prefix_xor quote_live;
          in_string = ps XOR s1_prev_in_string st;
          prev_in_string = signed_drop_bit 63 in_string;
          string_tail = (in_string XOR quote_live) AND valid;
          flags = s1_flags st;
          flags = (if bs \<noteq> 0 then flags OR YEP_S1_HAS_ESCAPE else flags);
          flags = (if c0 AND in_string AND valid \<noteq> 0 then flags OR YEP_S1_C0_IN_STRING else flags)
      in ((op OR (quote_live AND NOT string_tail)) AND NOT string_tail AND valid,
          \<lparr>s1_prev_in_string = prev_in_string, s1_esc_carry = esc_carry, s1_flags = flags\<rparr>))"

text \<open>The emission loop: the offsets it appends to \<^verbatim>\<open>idx\<close>.\<close>

lemma clear_lowest_less: "t \<noteq> 0 \<Longrightarrow> unat (t AND (t - 1)) < unat (t :: u64)"
proof -
  assume "t \<noteq> 0"
  have "t AND (t - 1) \<le> t - 1" by (rule word_and_le1)
  then have "unat (t AND (t - 1)) \<le> unat (t - 1)" by (simp add: word_le_nat_alt)
  also have "\<dots> < unat t"
    using \<open>t \<noteq> 0\<close> unsigned_eq_0_iff [of t, where ?'a = nat] by (simp add: unat_minus_one)
  finally show ?thesis .
qed

function emit_tokens :: "nat \<Rightarrow> u64 \<Rightarrow> u32 list" where
  "emit_tokens off tokens =
     (if tokens \<noteq> 0 then of_nat (off + yep_ctz64 tokens) # emit_tokens off (tokens AND (tokens - 1)) else [])"
  by pat_completeness auto
termination by (relation "measure (\<lambda>(off, t). unat t)") (auto simp: clear_lowest_less)

declare emit_tokens.simps [simp del]

definition yep_json_stage1_resolve ::
    "u64 \<Rightarrow> u64 \<Rightarrow> u64 \<Rightarrow> u64 \<Rightarrow> u64 \<Rightarrow> u64 \<Rightarrow> s1_state \<Rightarrow> nat \<Rightarrow> u32 list \<Rightarrow> u32 list \<times> s1_state" where
  "yep_json_stage1_resolve q bs op ws c0 valid st off idx =
     (let (tokens, st) = yep_json_stage1_tokens q bs op c0 valid st in (idx @ emit_tokens off tokens, st))"

section \<open>The scalar drivers\<close>

record s1_masks =
  mk_q :: u64
  mk_bs :: u64
  mk_op :: u64
  mk_ws :: u64
  mk_c0 :: u64

definition is_op :: "byte \<Rightarrow> bool" where
  "is_op c \<longleftrightarrow> c = 0x7B \<or> c = 0x7D \<or> c = 0x5B \<or> c = 0x5D \<or> c = 0x2C \<or> c = 0x3A"

definition is_ws :: "byte \<Rightarrow> bool" where
  "is_ws c \<longleftrightarrow> c = 0x20 \<or> c = 0x09 \<or> c = 0x0A \<or> c = 0x0D"

definition classify_step :: "s1_masks \<Rightarrow> nat \<times> byte \<Rightarrow> s1_masks" where
  "classify_step m = (\<lambda>(k, c).
     let bit = push_bit k 1;
         m = (if c = 0x22 then m\<lparr>mk_q := mk_q m OR bit\<rparr>
              else if c = 0x5C then m\<lparr>mk_bs := mk_bs m OR bit\<rparr>
              else if is_op c then m\<lparr>mk_op := mk_op m OR bit\<rparr>
              else if is_ws c then m\<lparr>mk_ws := mk_ws m OR bit\<rparr>
              else m)
     in if c < 0x20 then m\<lparr>mk_c0 := mk_c0 m OR bit\<rparr> else m)"

definition classify_block :: "byte list \<Rightarrow> s1_masks" where
  "classify_block blk =
     foldl classify_step \<lparr>mk_q = 0, mk_bs = 0, mk_op = 0, mk_ws = 0, mk_c0 = 0\<rparr> (zip [0..<length blk] blk)"

definition valid_lanes :: "nat \<Rightarrow> u64" where
  "valid_lanes cn = (if cn = 64 then NOT 0 else push_bit cn 1 - 1)"

text \<open>The loop over 64-byte blocks; \<open>p\<close> is the input from offset \<open>off\<close> on.\<close>

function stage1_loop :: "byte list \<Rightarrow> nat \<Rightarrow> s1_state \<Rightarrow> u32 list \<Rightarrow> u32 list \<times> s1_state" where
  "stage1_loop p off st idx =
     (if p = [] then (idx, st)
      else
        let cn = (if length p < 64 then length p else 64);
            m = classify_block (take cn p);
            (idx, st) = yep_json_stage1_resolve (mk_q m) (mk_bs m) (mk_op m) (mk_ws m) (mk_c0 m) (valid_lanes cn) st off idx
        in stage1_loop (drop 64 p) (off + 64) st idx)"
  by pat_completeness auto
termination by (relation "measure (\<lambda>(p, off, st, idx). length p)") auto

declare stage1_loop.simps [simp del]

text \<open>
  The return value (\<open>False\<close> is 0), the token offsets and the accumulated flags.
\<close>

definition yep_json_stage1_scalar :: "byte list \<Rightarrow> u32 \<Rightarrow> bool \<times> u32 list \<times> u32" where
  "yep_json_stage1_scalar p flags =
     (let (idx, st) = stage1_loop p 0 \<lparr>s1_prev_in_string = 0, s1_esc_carry = 0, s1_flags = flags\<rparr> []
      in (s1_prev_in_string st = 0, idx, s1_flags st))"

record yep_s1_block =
  sb_q :: u64
  sb_bs :: u64
  sb_op :: u64
  sb_c0 :: u64
  sb_tokens :: u64

function masks_loop :: "byte list \<Rightarrow> s1_state \<Rightarrow> yep_s1_block list \<Rightarrow> yep_s1_block list \<times> s1_state" where
  "masks_loop p st blocks =
     (if p = [] then (blocks, st)
      else
        let cn = (if length p < 64 then length p else 64);
            m = classify_block (take cn p);
            (tokens, st) = yep_json_stage1_tokens (mk_q m) (mk_bs m) (mk_op m) (mk_c0 m) (valid_lanes cn) st
        in masks_loop (drop 64 p) st
             (blocks @ [\<lparr>sb_q = mk_q m, sb_bs = mk_bs m, sb_op = mk_op m, sb_c0 = mk_c0 m, sb_tokens = tokens\<rparr>]))"
  by pat_completeness auto
termination by (relation "measure (\<lambda>(p, st, blocks). length p)") auto

declare masks_loop.simps [simp del]

definition yep_json_stage1_masks_scalar :: "byte list \<Rightarrow> u32 \<Rightarrow> bool \<times> yep_s1_block list \<times> u32" where
  "yep_json_stage1_masks_scalar p flags =
     (let (blocks, st) = masks_loop p \<lparr>s1_prev_in_string = 0, s1_esc_carry = 0, s1_flags = flags\<rparr> []
      in (s1_prev_in_string st = 0, blocks, s1_flags st))"

end
