(* ===== verification/Stage1_Facts.thy ===== *)
theory Stage1_Facts
  imports Stage1
begin

text \<open>
  The structural indexer of \<open>Stage1\<close> is exact: the escape scanner by subtraction equals the
  run-length rule for backslashes, the prefix-xor is string parity, and the blocks compose.
\<close>

section \<open>Prefix parity\<close>

text \<open>\<open>win f i w\<close>: the parity of \<open>f\<close> over the \<open>w\<close> positions ending at \<open>i\<close>.\<close>

primrec win :: "(nat \<Rightarrow> bool) \<Rightarrow> nat \<Rightarrow> nat \<Rightarrow> bool" where
  "win f i 0 \<longleftrightarrow> False"
| "win f i (Suc w) \<longleftrightarrow> win f i w \<noteq> (w \<le> i \<and> f (i - w))"

lemma win_add: "win f i (a + b) \<longleftrightarrow> win f i a \<noteq> (a \<le> i \<and> win f (i - a) b)"
proof (induction b)
  case (Suc b)
  have "a + b \<le> i \<longleftrightarrow> a \<le> i \<and> b \<le> i - a" by auto
  with Suc show ?case by (auto simp: diff_diff_left)
qed simp

lemma win_Suc: "win f (Suc i) (Suc (Suc i)) \<longleftrightarrow> f (Suc i) \<noteq> win f i (Suc i)"
  using win_add [of f "Suc i" 1 "Suc i"] by simp

lemma win_full: "i < w \<Longrightarrow> win f i w = win f i (Suc i)"
proof (induction w)
  case (Suc w)
  then show ?case by (cases "i < w") (auto simp: less_Suc_eq)
qed simp

lemma xor_step:
  fixes x ps :: u64
  assumes "\<And>i. i < 64 \<Longrightarrow> bit ps i = win (bit x) i w" and "i < 64"
  shows "bit (ps XOR push_bit w ps) i = win (bit x) i (w + w)"
  unfolding win_add bit_xor_iff using assms by (auto simp: bit_push_bit_iff)

lemma bit_prefix_xor:
  assumes "i < 64"
  shows "bit (prefix_xor x) i = win (bit x) i (Suc i)"
proof -
  have 0: "bit x i = win (bit x) i 1" if "i < 64" for i by simp
  let ?p1 = "x XOR push_bit 1 x"
  let ?p2 = "?p1 XOR push_bit 2 ?p1"
  let ?p3 = "?p2 XOR push_bit 4 ?p2"
  let ?p4 = "?p3 XOR push_bit 8 ?p3"
  let ?p5 = "?p4 XOR push_bit 16 ?p4"
  let ?p6 = "?p5 XOR push_bit 32 ?p5"
  have 1: "bit ?p1 i = win (bit x) i 2" if "i < 64" for i
    using xor_step [OF 0 that] by (simp only: one_add_one numeral_plus_numeral add_num_simps)
  have 2: "bit ?p2 i = win (bit x) i 4" if "i < 64" for i
    using xor_step [OF 1 that] by (simp only: one_add_one numeral_plus_numeral add_num_simps)
  have 3: "bit ?p3 i = win (bit x) i 8" if "i < 64" for i
    using xor_step [OF 2 that] by (simp only: one_add_one numeral_plus_numeral add_num_simps)
  have 4: "bit ?p4 i = win (bit x) i 16" if "i < 64" for i
    using xor_step [OF 3 that] by (simp only: one_add_one numeral_plus_numeral add_num_simps)
  have 5: "bit ?p5 i = win (bit x) i 32" if "i < 64" for i
    using xor_step [OF 4 that] by (simp only: one_add_one numeral_plus_numeral add_num_simps)
  have 6: "bit ?p6 i = win (bit x) i 64" if "i < 64" for i
    using xor_step [OF 5 that] by (simp only: one_add_one numeral_plus_numeral add_num_simps)
  have "bit (prefix_xor x) i = win (bit x) i 64"
    unfolding prefix_xor_def Let_def by (rule 6 [OF assms])
  then show ?thesis using win_full [of i 64] assms by simp
qed

section \<open>Escapes\<close>

text \<open>Whether byte \<open>i\<close> is escaped: a backslash escapes the next byte unless it is escaped itself.\<close>

primrec esc_at :: "(nat \<Rightarrow> bool) \<Rightarrow> bool \<Rightarrow> nat \<Rightarrow> bool" where
  "esc_at bs e 0 = e"
| "esc_at bs e (Suc i) \<longleftrightarrow> bs i \<and> \<not> esc_at bs e i"

lemma odd_bits: "bit (0xAAAAAAAAAAAAAAAA :: u64) n \<longleftrightarrow> n < 64 \<and> odd n"
proof -
  have w: "(0xAAAAAAAAAAAAAAAA :: u64) = splat 0xAA"
    by (simp add: splat_eight le_load_add del: le_load.simps(2))
  have b: "bit (0xAA :: byte) k \<longleftrightarrow> odd k" if "k < 8" for k
  proof -
    have "k \<in> {0, 1, 2, 3, 4, 5, 6, 7}" using that by auto
    then show ?thesis by auto
  qed
  have nd: "n div 8 < 8 \<longleftrightarrow> n < 64" by (simp add: div_less_iff_less_mult)
  have "bit (splat 0xAA) n \<longleftrightarrow> n < 64 \<and> bit (0xAA :: byte) (n mod 8)"
    unfolding splat_def bit_le_load length_replicate nd by (metis nd nth_replicate)
  also have "\<dots> \<longleftrightarrow> n < 64 \<and> odd (n mod 8)" by (simp only: b [of "n mod 8"] mod_less_divisor zero_less_numeral)
  also have "odd (n mod 8) \<longleftrightarrow> odd n" by presburger
  finally show ?thesis unfolding w .
qed

lemma esc_borrow:
  fixes bs :: u64
  assumes c: "carry = of_bool e"
  defines "pot \<equiv> bs AND NOT carry"
  defines "m \<equiv> push_bit 1 pot OR 0xAAAAAAAAAAAAAAAA"
  assumes "0 < i" and "i < 64"
  shows "borrow (bit m) (bit pot) i \<longleftrightarrow>
    (if odd i then esc_at (bit bs) e i else bit pot (i - 1) \<noteq> esc_at (bit bs) e i)"
proof -
  have pot: "bit pot n \<longleftrightarrow> bit bs n \<and> \<not> (n = 0 \<and> e)" if "n < 64" for n
    using that by (auto simp: pot_def c bit_and_iff bit_not_iff bit_of_bool_iff)
  have m: "bit m n \<longleftrightarrow> odd n \<or> (0 < n \<and> bit pot (n - 1))" if "n < 64" for n
    unfolding m_def bit_or_iff bit_push_bit_iff odd_bits using that by auto
  show ?thesis using assms(4,5)
  proof (induction i)
    case (Suc i)
    show ?case
    proof (cases "i = 0")
      case True
      then show ?thesis using pot [of 0] m [of 0] by simp
    next
      case False
      then obtain k where k: "i = Suc k" by (cases i) auto
      have "bit pot i = bit bs i" "bit m i \<longleftrightarrow> odd i \<or> bit pot k" using pot [of i] m [of i] Suc.prems k by auto
      moreover have "esc_at (bit bs) e i \<longrightarrow> bit pot k" using pot [of k] Suc.prems k by (auto split: nat.splits) 
      ultimately show ?thesis using Suc k by (cases "odd i") auto
    qed
  qed simp
qed

lemma drop_top: "drop_bit 63 w = of_bool (bit w 63)" for w :: u64
proof (rule bit_word_eqI)
  fix n
  show "bit (drop_bit 63 w) n \<longleftrightarrow> bit (of_bool (bit w 63) :: u64) n"
    using bit_imp_le_length [of w "63 + n"] by (cases "n = 0") (auto simp: bit_drop_bit_eq bit_of_bool_iff)
qed

lemma escapes_exact:
  fixes bs :: u64
  assumes c: "carry = of_bool e"
  defines "pot \<equiv> bs AND NOT carry"
  defines "s \<equiv> ((push_bit 1 pot OR 0xAAAAAAAAAAAAAAAA) - pot) XOR 0xAAAAAAAAAAAAAAAA"
  shows "i < 64 \<Longrightarrow> bit (s XOR (bs OR carry)) i \<longleftrightarrow> esc_at (bit bs) e i"
    and "drop_bit 63 (s AND bs) = of_bool (esc_at (bit bs) e 64)"
proof -
  have pot: "bit pot n \<longleftrightarrow> bit bs n \<and> \<not> (n = 0 \<and> e)" if "n < 64" for n
    using that by (auto simp: pot_def c bit_and_iff bit_not_iff bit_of_bool_iff)
  let ?m = "push_bit 1 pot OR 0xAAAAAAAAAAAAAAAA"
  have m: "bit ?m n \<longleftrightarrow> odd n \<or> (0 < n \<and> bit pot (n - 1))" if "n < 64" for n
    unfolding bit_or_iff bit_push_bit_iff odd_bits using that by auto
  have s: "bit s n \<longleftrightarrow> (if n = 0 then bit pot 0 else bit bs n \<noteq> esc_at (bit bs) e n)" if n: "n < 64" for n
  proof -
    have "bit s n \<longleftrightarrow> ((bit ?m n \<noteq> bit pot n) \<noteq> borrow (bit ?m) (bit pot) n) \<noteq> odd n"
      unfolding s_def bit_xor_iff odd_bits using n bit_diff_word [of n ?m pot] by simp
    with esc_borrow [OF c, of n bs, folded pot_def] m [OF n] pot [OF n] n show ?thesis
      by (cases "n = 0"; cases "odd n") auto
  qed
  show "bit (s XOR (bs OR carry)) i \<longleftrightarrow> esc_at (bit bs) e i" if "i < 64" for i
    using s [OF that] pot [of 0] that by (auto simp: bit_xor_iff bit_or_iff c bit_of_bool_iff)
  have "drop_bit 63 (s AND bs) = of_bool (bit (s AND bs) 63)" by (rule drop_top)
  also have "bit (s AND bs) 63 \<longleftrightarrow> esc_at (bit bs) e 64"
    using s [of 63] esc_at.simps(2) [of "bit bs" e 63] by (auto simp: bit_and_iff simp del: esc_at.simps)
  finally show "drop_bit 63 (s AND bs) = of_bool (esc_at (bit bs) e 64)" .
qed

section \<open>Emission\<close>

lemma emit_tokens_bits: "emit_tokens off t = map (\<lambda>k. of_nat (off + k)) (filter (bit t) [0..<64])"
proof (induction off t rule: emit_tokens.induct)
  case (1 off t)
  show ?case
  proof (cases "t = 0")
    case False
    note c = ctz_spec [OF False]
    let ?c = "yep_ctz64 t"
    have split: "[0..<64] = [0..<?c] @ ?c # [Suc ?c..<64]"
      using c(1) by (metis add_0 le0 less_imp_le upt_add_eq_append le_add_diff_inverse upt_conv_Cons)
    have "filter (bit t) [0..<64] = ?c # filter (bit t) [Suc ?c..<64]"
      unfolding split using c(2,3) by simp
    moreover have "filter (bit (t AND (t - 1))) [0..<64] = filter (bit t) [Suc ?c..<64]"
      unfolding split bit_clear_lowest using c(3) by (auto intro: filter_cong)
    ultimately show ?thesis using 1 False by (simp add: emit_tokens.simps [of off t])
  qed (simp add: emit_tokens.simps)
qed

section \<open>The byte-at-a-time reference\<close>

primrec escaped :: "byte list \<Rightarrow> nat \<Rightarrow> bool" where
  "escaped p 0 = False"
| "escaped p (Suc k) \<longleftrightarrow> p ! k = 0x5C \<and> \<not> escaped p k"

primrec inside :: "byte list \<Rightarrow> nat \<Rightarrow> bool" where
  "inside p 0 = False"
| "inside p (Suc k) \<longleftrightarrow> inside p k \<noteq> (p ! k = 0x22 \<and> \<not> escaped p k)"

definition is_token :: "byte list \<Rightarrow> nat \<Rightarrow> bool" where
  "is_token p k \<longleftrightarrow> \<not> inside p k \<and> (is_op (p ! k) \<or> p ! k = 0x22 \<and> \<not> escaped p k)"

section \<open>One block\<close>

lemma bit_shift_one: "bit (push_bit k 1 :: u64) n \<longleftrightarrow> n = k \<and> k < 64"
  by (auto simp: push_bit_eq_mult bit_exp_iff)

lemma classify_masks:
  assumes "length blk \<le> 64"
  defines "m \<equiv> classify_block blk"
  shows "bit (mk_q m) k \<longleftrightarrow> k < length blk \<and> blk ! k = 0x22"
    and "bit (mk_bs m) k \<longleftrightarrow> k < length blk \<and> blk ! k = 0x5C"
    and "bit (mk_op m) k \<longleftrightarrow> k < length blk \<and> is_op (blk ! k)"
    and "bit (mk_c0 m) k \<longleftrightarrow> k < length blk \<and> blk ! k < 0x20"
proof -
  let ?P = "\<lambda>m b. \<forall>k. bit (mk_q m) k = (k < length b \<and> b ! k = 0x22) \<and>
     bit (mk_bs m) k = (k < length b \<and> b ! k = 0x5C) \<and>
     bit (mk_op m) k = (k < length b \<and> is_op (b ! k)) \<and> bit (mk_c0 m) k = (k < length b \<and> b ! k < 0x20)"
  have "?P (classify_block b) b" if "length b \<le> 64" for b
    using that
  proof (induction b rule: rev_induct)
    case Nil
    then show ?case by (simp add: classify_block_def)
  next
    case (snoc c b)
    have step: "classify_block (b @ [c]) = classify_step (classify_block b) (length b, c)"
      by (simp add: classify_block_def)
    have ex: "\<not> (c = 0x22 \<and> c = 0x5C)" "is_op c \<Longrightarrow> c \<noteq> 0x22 \<and> c \<noteq> 0x5C" by (auto simp: is_op_def)
    have IH: "?P (classify_block b) b" using snoc by simp
    show ?case
    proof
      fix k
      show "bit (mk_q (classify_block (b @ [c]))) k = (k < length (b @ [c]) \<and> (b @ [c]) ! k = 0x22) \<and>
       bit (mk_bs (classify_block (b @ [c]))) k = (k < length (b @ [c]) \<and> (b @ [c]) ! k = 0x5C) \<and>
       bit (mk_op (classify_block (b @ [c]))) k = (k < length (b @ [c]) \<and> is_op ((b @ [c]) ! k)) \<and>
       bit (mk_c0 (classify_block (b @ [c]))) k = (k < length (b @ [c]) \<and> (b @ [c]) ! k < 0x20)"
        unfolding step using spec [OF IH, of k] snoc.prems ex
        by (cases "k = length b") (auto simp: classify_step_def Let_def bit_or_iff bit_shift_one nth_append less_Suc_eq
              simp del: push_bit_of_1)
    qed
  qed
  then show "bit (mk_q m) k \<longleftrightarrow> k < length blk \<and> blk ! k = 0x22"
    "bit (mk_bs m) k \<longleftrightarrow> k < length blk \<and> blk ! k = 0x5C"
    "bit (mk_op m) k \<longleftrightarrow> k < length blk \<and> is_op (blk ! k)"
    "bit (mk_c0 m) k \<longleftrightarrow> k < length blk \<and> blk ! k < 0x20"
    using assms(1) by (auto simp: m_def)
qed

lemma bit_valid_lanes: "cn \<le> 64 \<Longrightarrow> bit (valid_lanes cn) k \<longleftrightarrow> k < cn"
proof (cases "cn = 64")
  case False
  assume "cn \<le> 64"
  with False have "valid_lanes cn = mask cn" by (simp add: valid_lanes_def mask_eq_exp_minus_1 push_bit_eq_mult)
  then show ?thesis using \<open>cn \<le> 64\<close> by (auto simp: bit_mask_iff)
qed (auto simp: valid_lanes_def bit_not_iff dest: bit_imp_le_length)

text \<open>What the carried words say before offset \<open>off\<close> of \<open>p\<close>.\<close>

definition carries :: "byte list \<Rightarrow> nat \<Rightarrow> s1_state \<Rightarrow> bool" where
  "carries p off st \<longleftrightarrow>
     s1_prev_in_string st = (if inside p off then - 1 else 0) \<and> s1_esc_carry st = of_bool (escaped p off)"

lemma nonzero_bits: "w \<noteq> 0 \<longleftrightarrow> (\<exists>n. bit w n)" for w :: u64
  using bit_eq_iff [of w 0] bit_imp_le_length [of w] by auto

lemma sar_63: "signed_drop_bit 63 w = (if bit w 63 then - 1 else 0)" for w :: u64
  by (rule bit_word_eqI) (auto simp: bit_signed_drop_bit_iff bit_minus_1_iff Suc_le_eq)

lemma bit_all_ones: "bit (if b then - 1 else 0 :: u64) n \<longleftrightarrow> b \<and> n < 64"
  by (auto simp: bit_minus_1_iff)

definition block_at :: "byte list \<Rightarrow> nat \<Rightarrow> nat \<Rightarrow> s1_masks \<Rightarrow> s1_state \<Rightarrow> bool" where
  "block_at p off cn m st \<longleftrightarrow>
     cn \<le> 64 \<and> off + cn \<le> length p \<and> (cn < 64 \<longrightarrow> off + cn = length p) \<and>
     m = classify_block (take cn (drop off p)) \<and> carries p off st"

lemma block_bits:
  assumes "block_at p off cn m st"
  shows "bit (mk_q m) k \<longleftrightarrow> k < cn \<and> p ! (off + k) = 0x22"
    and "bit (mk_bs m) k \<longleftrightarrow> k < cn \<and> p ! (off + k) = 0x5C"
    and "bit (mk_op m) k \<longleftrightarrow> k < cn \<and> is_op (p ! (off + k))"
    and "bit (mk_c0 m) k \<longleftrightarrow> k < cn \<and> p ! (off + k) < 0x20"
  using assms classify_masks [of "take cn (drop off p)" k] by (auto simp: block_at_def min_def)

lemma block_escaped:
  assumes "block_at p off cn m st"
  shows "k \<le> cn \<Longrightarrow> esc_at (bit (mk_bs m)) (escaped p off) k = escaped p (off + k)"
  by (induction k) (simp_all add: block_bits [OF assms])

lemma block_inside:
  assumes blk: "block_at p off cn m st" and live: "\<And>k. k < 64 \<Longrightarrow> bit live k \<longleftrightarrow> k < cn \<and> p ! (off + k) = 0x22 \<and> \<not> escaped p (off + k)"
  shows "k < cn \<Longrightarrow> (win (bit live) k (Suc k) \<noteq> inside p off) = inside p (off + Suc k)"
proof (induction k)
  case 0
  then show ?case using live [of 0] blk by (auto simp: block_at_def)
next
  case (Suc k)
  with live [of "Suc k"] blk show ?case by (auto simp: block_at_def win_Suc simp del: win.simps)
qed

lemma block_tokens:
  assumes blk: "block_at p off cn m st" and pos: "0 < cn"
    and run: "yep_json_stage1_tokens (mk_q m) (mk_bs m) (mk_op m) (mk_c0 m) (valid_lanes cn) st = (t, st')"
  shows "bit t k \<longleftrightarrow> k < cn \<and> is_token p (off + k)"
    and "s1_prev_in_string st' = (if inside p (off + cn) then - 1 else 0)"
    and "cn = 64 \<Longrightarrow> carries p (off + cn) st'"
    and "s1_flags st' = s1_flags st OR (if \<exists>k<cn. p ! (off + k) = 0x5C then YEP_S1_HAS_ESCAPE else 0)
       OR (if \<exists>k<cn. p ! (off + k) < 0x20 \<and> inside p (off + k) then YEP_S1_C0_IN_STRING else 0)"
proof -
  have cn: "cn \<le> 64" and car: "s1_prev_in_string st = (if inside p off then - 1 else 0)" "s1_esc_carry st = of_bool (escaped p off)"
    using blk by (simp_all add: block_at_def carries_def)
  let ?bs = "mk_bs m" and ?e = "escaped p off" and ?valid = "valid_lanes cn"
  define pot where "pot = ?bs AND NOT (s1_esc_carry st)"
  define s where "s = ((push_bit 1 pot OR 0xAAAAAAAAAAAAAAAA) - pot) XOR 0xAAAAAAAAAAAAAAAA"
  define live where "live = mk_q m AND NOT (s XOR (?bs OR s1_esc_carry st))"
  define ins where "ins = prefix_xor live XOR s1_prev_in_string st"
  define tail where "tail = (ins XOR live) AND ?valid"
  note esc = escapes_exact [OF car(2), where bs = "mk_bs m", folded pot_def, folded s_def]
  note bb = block_bits [OF blk]
  have live: "bit live k \<longleftrightarrow> k < cn \<and> p ! (off + k) = 0x22 \<and> \<not> escaped p (off + k)" if "k < 64" for k
    using esc(1) [OF that] block_escaped [OF blk, of k] that
    by (auto simp: live_def bit_and_iff bit_not_iff bb simp del: bit_xor_iff)
  have ins: "bit ins k = inside p (off + Suc k)" if "k < cn" for k
    using bit_prefix_xor [of k live] block_inside [OF blk live that] that cn
    unfolding ins_def bit_xor_iff car(1) bit_all_ones by auto
  have tail: "bit tail k = inside p (off + k)" if "k < cn" for k
    using ins [OF that] live [of k] that cn by (auto simp: tail_def bit_and_iff bit_xor_iff bit_valid_lanes)
  have t: "t = (mk_op m OR (live AND NOT tail)) AND NOT tail AND ?valid"
    and st': "st' = \<lparr>s1_prev_in_string = signed_drop_bit 63 ins, s1_esc_carry = drop_bit 63 (s AND ?bs),
      s1_flags = (let f = (if ?bs \<noteq> 0 then s1_flags st OR YEP_S1_HAS_ESCAPE else s1_flags st) in
        if mk_c0 m AND ins AND ?valid \<noteq> 0 then f OR YEP_S1_C0_IN_STRING else f)\<rparr>"
    using run unfolding yep_json_stage1_tokens_def Let_def
    by (auto simp: tail_def ins_def live_def s_def pot_def)
  show "bit t k \<longleftrightarrow> k < cn \<and> is_token p (off + k)"
  proof (cases "k < cn")
    case True
    then show ?thesis using live [of k] tail [OF True] cn
      by (auto simp: t bit_and_iff bit_or_iff bit_not_iff bb bit_valid_lanes is_token_def)
  next
    case False
    then show ?thesis using cn by (auto simp: t bit_and_iff bit_valid_lanes)
  qed
  have top: "bit ins 63 = inside p (off + cn)"
  proof -
    have "win (bit live) 63 64 = win (bit live) (cn - 1) cn"
    proof -
      have "win (bit live) i (Suc i) = win (bit live) (cn - 1) cn" if "cn - 1 \<le> i" "i < 64" for i
        using that
      proof (induction i rule: dec_induct)
        case base
        then show ?case using pos by simp
      next
        case (step i)
        then have "\<not> bit live (Suc i)" using live [of "Suc i"] by auto
        with step show ?case by (simp add: win_Suc del: win.simps)
      qed
      from this [of 63] cn show ?thesis by simp
    qed
    moreover have "(win (bit live) (cn - 1) cn \<noteq> inside p off) = inside p (off + cn)"
      using block_inside [OF blk live, of "cn - 1"] pos by simp
    ultimately show ?thesis
      using bit_prefix_xor [of 63 live] unfolding ins_def bit_xor_iff car(1) bit_all_ones by auto
  qed
  then show prev: "s1_prev_in_string st' = (if inside p (off + cn) then - 1 else 0)"
    by (simp add: st' sar_63)
  show "carries p (off + cn) st'" if "cn = 64"
    using prev esc(2) block_escaped [OF blk, of 64] that by (simp add: carries_def st')
  have f1: "?bs \<noteq> 0 \<longleftrightarrow> (\<exists>k<cn. p ! (off + k) = 0x5C)"
    unfolding nonzero_bits bb(2) by blast
  have f2: "mk_c0 m AND ins AND ?valid \<noteq> 0 \<longleftrightarrow> (\<exists>k<cn. p ! (off + k) < 0x20 \<and> inside p (off + k))"
  proof -
    have "inside p (off + Suc k) = inside p (off + k)" if "p ! (off + k) < 0x20" for k using that by auto
    then show ?thesis
      unfolding nonzero_bits bit_and_iff bb bit_valid_lanes [OF cn] using ins by blast
  qed
  show "s1_flags st' = s1_flags st OR (if \<exists>k<cn. p ! (off + k) = 0x5C then YEP_S1_HAS_ESCAPE else 0)
       OR (if \<exists>k<cn. p ! (off + k) < 0x20 \<and> inside p (off + k) then YEP_S1_C0_IN_STRING else 0)"
    unfolding st' s1_state.simps Let_def f1 f2
    by (cases "\<exists>k<cn. p ! (off + k) = 0x5C"; cases "\<exists>k<cn. p ! (off + k) < 0x20 \<and> inside p (off + k)")
      (simp_all only: if_True if_False or.assoc or.right_neutral or.left_neutral simp_thms not_True_eq_False)
qed

section \<open>The whole input\<close>

definition s1_flag_word :: "byte list \<Rightarrow> nat \<Rightarrow> u32" where
  "s1_flag_word p n =
     (if \<exists>k<n. p ! k = 0x5C then YEP_S1_HAS_ESCAPE else 0)
     OR (if \<exists>k<n. p ! k < 0x20 \<and> inside p k then YEP_S1_C0_IN_STRING else 0)"

lemma ex_less_add: "(\<exists>k<a + b. P k) \<longleftrightarrow> (\<exists>k<a. P k) \<or> (\<exists>k<b. P (a + k))" for a b :: nat
proof
  assume "\<exists>k<a + b. P k"
  then obtain k where "k < a + b" "P k" by blast
  then show "(\<exists>k<a. P k) \<or> (\<exists>k<b. P (a + k))"
    by (cases "k < a") (auto intro: exI [of _ "k - a"])
next
  assume "(\<exists>k<a. P k) \<or> (\<exists>k<b. P (a + k))"
  then show "\<exists>k<a + b. P k" by (metis add_strict_left_mono trans_less_add1)
qed

lemma flag_word_add:
  "s1_flag_word p (off + cn) = s1_flag_word p off OR
     (if \<exists>k<cn. p ! (off + k) = 0x5C then YEP_S1_HAS_ESCAPE else 0)
     OR (if \<exists>k<cn. p ! (off + k) < 0x20 \<and> inside p (off + k) then YEP_S1_C0_IN_STRING else 0)"
proof -
  have "(if a \<or> b then m else 0) = (if a then m else 0) OR (if b then m else 0)" for a b and m :: u32 by simp
  then show ?thesis unfolding s1_flag_word_def ex_less_add by (simp only: or.assoc or.left_commute)
qed

lemma stage1_loop_exact:
  assumes "carries p off st" and "off \<le> length p" and "stage1_loop (drop off p) off st idx = (idx', st')"
    and "s1_flags st = f OR s1_flag_word p off"
  shows "idx' = idx @ map of_nat (filter (is_token p) [off..<length p]) \<and>
    (s1_prev_in_string st' = 0 \<longleftrightarrow> \<not> inside p (length p)) \<and>
    s1_flags st' = f OR s1_flag_word p (length p)"
  using assms
proof (induction "length p - off" arbitrary: off st idx rule: less_induct)
  case less
  show ?case
  proof (cases "off = length p")
    case True
    then show ?thesis using less.prems(1,3,4) by (simp add: stage1_loop.simps carries_def)
  next
    case False
    define q where "q = drop off p"
    define cn where "cn = (if length q < 64 then length q else 64)"
    define m where "m = classify_block (take cn q)"
    have ne: "q \<noteq> []" using False less.prems(2) by (simp add: q_def)
    have cn: "0 < cn" "cn \<le> 64" "off + cn \<le> length p" "cn < 64 \<longrightarrow> off + cn = length p"
      using False less.prems(2) ne by (auto simp: cn_def q_def)
    have blk: "block_at p off cn m st" using cn less.prems(1) by (simp add: block_at_def m_def q_def)
    obtain t st1 where run: "yep_json_stage1_tokens (mk_q m) (mk_bs m) (mk_op m) (mk_c0 m) (valid_lanes cn) st = (t, st1)"
      by fastforce
    note bt = block_tokens [OF blk cn(1) run]
    have em: "emit_tokens off t = map of_nat (filter (is_token p) [off..<off + cn])"
    proof -
      have "filter (bit t) [0..<64] = filter (\<lambda>k. is_token p (off + k)) [0..<cn]"
      proof -
        have "[0..<64] = [0..<cn] @ [cn..<64]" using cn(2) by (metis le0 le_Suc_ex upt_add_eq_append)
        moreover have "filter (bit t) [cn..<64] = []" using bt(1) by (simp add: filter_empty_conv)
        moreover have "filter (bit t) [0..<cn] = filter (\<lambda>k. is_token p (off + k)) [0..<cn]"
          using bt(1) by (intro filter_cong) auto
        ultimately show ?thesis by simp
      qed
      moreover have "[off..<off + cn] = map (\<lambda>k. off + k) [0..<cn]" by (simp add: map_add_upt add.commute)
      ultimately show ?thesis by (simp add: emit_tokens_bits filter_map o_def)
    qed
    have loop: "stage1_loop q off st idx = stage1_loop (drop 64 q) (off + 64) st1 (idx @ emit_tokens off t)"
      using ne run by (subst stage1_loop.simps) (simp add: cn_def [symmetric] m_def [symmetric] yep_json_stage1_resolve_def Let_def)
    have fl: "s1_flags st1 = f OR s1_flag_word p (off + cn)"
      unfolding bt(4) flag_word_add less.prems(4) by (simp only: or.assoc)
    show ?thesis
    proof (cases "cn = 64")
      case True
      have d: "stage1_loop (drop (off + 64) p) (off + 64) st1 (idx @ emit_tokens off t) = (idx', st')"
        using loop less.prems(3) by (simp add: q_def add.commute)
      have IH: "idx' = (idx @ emit_tokens off t) @ map of_nat (filter (is_token p) [off + 64..<length p]) \<and>
          (s1_prev_in_string st' = 0 \<longleftrightarrow> \<not> inside p (length p)) \<and>
          s1_flags st' = f OR s1_flag_word p (length p)"
        using less.hyps [OF _ bt(3) [OF True, unfolded True] _ d fl [unfolded True]] cn(3) True by simp
      have up: "[off..<length p] = [off..<off + 64] @ [off + 64..<length p]"
        using cn(3) True by (metis le_Suc_ex le_add1 upt_add_eq_append add.assoc)
      with IH em up show ?thesis by (simp add: True)
    next
      case part: False
      then have len: "off + cn = length p" using cn by simp
      have "drop 64 q = []" using len part cn by (simp add: q_def)
      then have r: "idx' = idx @ emit_tokens off t" "st' = st1"
        using loop less.prems(3) by (simp_all add: q_def [symmetric] stage1_loop.simps)
      with em fl bt(2) len show ?thesis by simp
    qed
  qed
qed

text \<open>The offsets a client of the block form emits from the recorded token masks.\<close>

fun emit_blocks :: "nat \<Rightarrow> yep_s1_block list \<Rightarrow> u32 list" where
  "emit_blocks off [] = []"
| "emit_blocks off (b # bs) = emit_tokens off (sb_tokens b) @ emit_blocks (off + 64) bs"

lemma masks_loop_stage1:
  "\<exists>bl st'. masks_loop p st blocks = (blocks @ bl, st') \<and> stage1_loop p off st idx = (idx @ emit_blocks off bl, st')"
proof (induction p st blocks arbitrary: off idx rule: masks_loop.induct)
  case (1 p st blocks)
  show ?case
  proof (cases "p = []")
    case True
    then show ?thesis by (simp add: masks_loop.simps stage1_loop.simps)
  next
    case False
    define cn where "cn = (if length p < 64 then length p else 64)"
    define m where "m = classify_block (take cn p)"
    obtain t st1 where run: "yep_json_stage1_tokens (mk_q m) (mk_bs m) (mk_op m) (mk_c0 m) (valid_lanes cn) st = (t, st1)"
      by fastforce
    let ?b = "\<lparr>sb_q = mk_q m, sb_bs = mk_bs m, sb_op = mk_op m, sb_c0 = mk_c0 m, sb_tokens = t\<rparr>"
    have l: "masks_loop p st blocks = masks_loop (drop 64 p) st1 (blocks @ [?b])"
      "stage1_loop p off st idx = stage1_loop (drop 64 p) (off + 64) st1 (idx @ emit_tokens off t)"
      using False run
      by (subst masks_loop.simps stage1_loop.simps; simp add: cn_def [symmetric] m_def [symmetric] yep_json_stage1_resolve_def Let_def)+
    obtain bl st' where IH: "masks_loop (drop 64 p) st1 (blocks @ [?b]) = ((blocks @ [?b]) @ bl, st')"
        "stage1_loop (drop 64 p) (off + 64) st1 (idx @ emit_tokens off t) = ((idx @ emit_tokens off t) @ emit_blocks (off + 64) bl, st')"
      using 1 [OF False cn_def m_def run [symmetric] refl, of "off + 64" "idx @ emit_tokens off t"] by blast
    show ?thesis unfolding l IH by (intro exI [of _ "?b # bl"] exI [of _ st']) simp
  qed
qed

text \<open>
  C30. The structural indexer emits, in order, exactly the operators outside strings and the
  opening quotes, where a byte is inside a string and a quote escaped as a byte-at-a-time
  scan says; it succeeds exactly when every string is closed, and its flags report a
  backslash anywhere and a raw control byte inside a string. The form that records block
  masks gives the same verdict, flags and offsets. Blocks of 64 bytes, the borrow trick and
  the prefix-xor do not show.
\<close>

theorem stage1_exact:
  "yep_json_stage1_scalar p flags =
     (\<not> inside p (length p), map of_nat (filter (is_token p) [0..<length p]),
      flags OR s1_flag_word p (length p)) \<and>
   (\<exists>blocks. yep_json_stage1_masks_scalar p flags =
       (\<not> inside p (length p), blocks, flags OR s1_flag_word p (length p)) \<and>
     emit_blocks 0 blocks = map of_nat (filter (is_token p) [0..<length p]))"
proof -
  let ?st = "\<lparr>s1_prev_in_string = 0, s1_esc_carry = 0, s1_flags = flags\<rparr>"
  obtain bl st where masks: "masks_loop p ?st [] = (bl, st)" and run: "stage1_loop p 0 ?st [] = (emit_blocks 0 bl, st)"
    using masks_loop_stage1 [of p ?st "[]" 0 "[]"] by auto
  have "carries p 0 ?st" "s1_flags ?st = flags OR s1_flag_word p 0"
    by (simp_all add: carries_def s1_flag_word_def)
  from stage1_loop_exact [OF this(1) _ _ this(2), of "[]" "emit_blocks 0 bl" st] run masks show ?thesis
    by (simp add: yep_json_stage1_scalar_def yep_json_stage1_masks_scalar_def)
qed

end
