(* ===== verification/Json_Number.thy ===== *)
theory Json_Number
  imports View
begin

text \<open>
  Strict JSON numbers: \<^verbatim>\<open>yep_json_number_scan\<close>, \<^verbatim>\<open>yep_json_number\<close> and \<^verbatim>\<open>yep_json_number_shape\<close> of
  \<^verbatim>\<open>src/yeptris/scan/json.c\<close>.

  A cursor is the suffix of the buffer that starts at it; an advanced index is the remaining
  suffix. Signed \<^verbatim>\<open>char\<close> comparisons with digits are range tests, so a byte above 127 is no
  digit either way. The number of a float or of an integer beyond 64 bits is converted from
  its text by \<^verbatim>\<open>yep_num_f64\<close>; the model returns the text it is given.
\<close>

datatype json_num =
    JInt "64 word"         \<comment> \<open>shape 0: \<^verbatim>\<open>*iv\<close>, two's complement\<close>
  | JFloat "byte list"     \<comment> \<open>shape 1: the span handed to \<^verbatim>\<open>yep_num_f64\<close>\<close>
  | JBig "byte list"       \<comment> \<open>shape 2: likewise\<close>

definition json_delim :: "byte \<Rightarrow> bool" where
  "json_delim c \<longleftrightarrow> c = 0x20 \<or> c = 0x09 \<or> c = 0x0A \<or> c = 0x0D \<or> c = 0x2C \<or> c = 0x5D \<or> c = 0x7D \<or> c = 0x3A"

text \<open>The trailing-delimiter rule: the text ends or a delimiter follows.\<close>

definition delim_next :: "byte list \<Rightarrow> bool" where
  "delim_next s \<longleftrightarrow> s = [] \<or> json_delim (hd s)"

definition digit_next :: "byte list \<Rightarrow> bool" where
  "digit_next s \<longleftrightarrow> s \<noteq> [] \<and> is_digit (hd s)"

section \<open>The short-integer path\<close>

fun short_digits :: "nat \<Rightarrow> u32 \<Rightarrow> byte list \<Rightarrow> u32 \<times> byte list" where
  "short_digits (Suc n) mag (c # s) =
     (if is_digit c then short_digits n (mag * 10 + (ucast c - 0x30)) s else (mag, c # s))"
| "short_digits n mag s = (mag, s)"

text \<open>
  \<open>None\<close>: fall through to the full walk. \<open>Some r\<close>: the path settles with result \<open>r\<close>.
\<close>

definition short_int :: "bool \<Rightarrow> byte list \<Rightarrow> (json_num \<times> byte list) option option" where
  "short_int neg k =
     (if hd k \<noteq> 0x30 then
        let (mag32, e) = short_digits 2 (ucast (hd k) - 0x30) (tl k) in
        if e = [] \<or> (hd e \<noteq> 0x2E \<and> hd e \<noteq> 0x65 \<and> hd e \<noteq> 0x45 \<and> hd e \<noteq> 0x30 \<and> (hd e < 0x31 \<or> 0x39 < hd e)) then
          if \<not> delim_next e then Some None
          else Some (Some (JInt (if neg then - ucast mag32 else ucast mag32), e))
        else None
      else
        let e = tl k in
        if e = [] \<or> (hd e \<noteq> 0x2E \<and> hd e \<noteq> 0x65 \<and> hd e \<noteq> 0x45 \<and> (hd e < 0x30 \<or> 0x39 < hd e)) then
          if \<not> delim_next e then Some None else Some (Some (JInt 0, e))
        else None)"

section \<open>The full walk\<close>

definition all_digits8 :: "u64 \<Rightarrow> bool" where
  "all_digits8 w =
     (let t = w XOR 0x3030303030303030;
          hi = t AND 0xF0F0F0F0F0F0F0F0;
          lo = ((t AND 0x0F0F0F0F0F0F0F0F) + 0x0606060606060606) AND 0x1010101010101010
      in \<not> (hi \<noteq> 0 \<or> lo \<noteq> 0))"

definition parse_eight :: "u64 \<Rightarrow> u64" where
  "parse_eight w =
     (let v = w - 0x3030303030303030;
          v = (v * 10) + drop_bit 8 v;
          mask = 0x000000FF000000FF;
          mul1 = 0x000F424000000064;
          mul2 = 0x0000271000000001
      in drop_bit 32 (((v AND mask) * mul1) + ((drop_bit 16 v AND mask) * mul2)))"

function swar_digits :: "u64 \<Rightarrow> byte list \<Rightarrow> u64 \<times> byte list" where
  "swar_digits mag k =
     (if 8 \<le> length k then
        let w = le_load (take 8 k) in
        if \<not> all_digits8 w then (mag, k)
        else if (- 1 - 99999999) div 100000000 < mag then (mag, k)
        else swar_digits (mag * 100000000 + parse_eight w) (drop 8 k)
      else (mag, k))"
  by pat_completeness auto
termination by (relation "measure (\<lambda>(mag, k). length k)") auto

declare swar_digits.simps [simp del]

fun tail_digits :: "u64 \<Rightarrow> bool \<Rightarrow> byte list \<Rightarrow> u64 \<times> bool \<times> byte list" where
  "tail_digits mag overflow [] = (mag, overflow, [])"
| "tail_digits mag overflow (c # k) =
     (if is_digit c then
        let d = ucast c - 0x30 in
        if (- 1 - d) div 10 < mag then tail_digits mag True k else tail_digits (mag * 10 + d) overflow k
      else (mag, overflow, c # k))"

text \<open>The optional fraction and exponent: whether one was seen, and the rest.\<close>

definition frac_part :: "byte list \<Rightarrow> (bool \<times> byte list) option" where
  "frac_part k =
     (if k \<noteq> [] \<and> hd k = 0x2E then
        if \<not> digit_next (tl k) then None else Some (True, dropWhile is_digit (tl k))
      else Some (False, k))"

definition exp_part :: "byte list \<Rightarrow> (bool \<times> byte list) option" where
  "exp_part k =
     (if k \<noteq> [] \<and> (hd k = 0x65 \<or> hd k = 0x45) then
        let k = tl k; k = (if k \<noteq> [] \<and> (hd k = 0x2D \<or> hd k = 0x2B) then tl k else k) in
        if \<not> digit_next k then None else Some (True, dropWhile is_digit k)
      else Some (False, k))"

text \<open>
  The value of the number that spans from \<open>s\<close> to \<open>k\<close>. The code hands the float parser the length of the
  span as \<^verbatim>\<open>uint32_t\<close>; the model hands it the span, which is the same below \<open>2^32\<close> bytes.
\<close>

definition number_value :: "byte list \<Rightarrow> bool \<Rightarrow> u64 \<Rightarrow> bool \<Rightarrow> bool \<Rightarrow> byte list \<Rightarrow> json_num" where
  "number_value s neg mag overflow flt k =
     (let limit = (if neg then 0x7FFFFFFFFFFFFFFF + 1 else 0x7FFFFFFFFFFFFFFF);
          text = take (length s - length k) s
      in if flt then JFloat text
         else if overflow \<or> limit < mag then JBig text
         else JInt (if neg \<and> mag = 0x7FFFFFFFFFFFFFFF + 1 then 0x8000000000000000
                    else if neg then - mag else mag))"

definition full_number :: "byte list \<Rightarrow> bool \<Rightarrow> byte list \<Rightarrow> (json_num \<times> byte list) option" where
  "full_number s neg k =
     (let (mag, overflow, k) =
            (if hd k = 0x30 then (0, False, tl k)
             else let (mag, k) = swar_digits 0 k in tail_digits mag False k)
      in case frac_part k of
           None \<Rightarrow> None
         | Some (f1, k) \<Rightarrow>
             (case exp_part k of
                None \<Rightarrow> None
              | Some (f2, k) \<Rightarrow>
                  if \<not> delim_next k then None
                  else Some (number_value s neg mag overflow (f1 \<or> f2) k, k)))"

definition yep_json_number_scan :: "byte list \<Rightarrow> (json_num \<times> byte list) option" where
  "yep_json_number_scan s =
     (if s = [] then None
      else
        let neg = (hd s = 0x2D); k = (if neg then tl s else s) in
        if \<not> digit_next k then None
        else (case short_int neg k of Some r \<Rightarrow> r | None \<Rightarrow> full_number s neg k))"

definition yep_json_number :: "byte list \<Rightarrow> byte list option" where
  "yep_json_number s = map_option snd (yep_json_number_scan s)"

text \<open>The lazy variant: the text shape (float or not) and the rest.\<close>

definition yep_json_number_shape :: "byte list \<Rightarrow> (bool \<times> byte list) option" where
  "yep_json_number_shape s =
     (if s = [] then None
      else
        let k = (if hd s = 0x2D then tl s else s) in
        if \<not> digit_next k then None
        else
          let k = (if hd k = 0x30 then tl k else dropWhile is_digit k) in
          (case frac_part k of
             None \<Rightarrow> None
           | Some (f1, k) \<Rightarrow>
               (case exp_part k of
                  None \<Rightarrow> None
                | Some (f2, k) \<Rightarrow> if \<not> delim_next k then None else Some (f1 \<or> f2, k))))"

end
