(* ===== verification/Json_Number_Facts.thy ===== *)
theory Json_Number_Facts
  imports Json_Number Word_Lanes
begin

text \<open>
  The JSON number scanner accepts exactly the RFC 8259 numbers and computes their value: the
  eight-digit window test and the multiply-add conversion per lane, the digit run with its
  overflow promotion, the grammar, and the agreement of the short path with the full walk.
\<close>

section \<open>Eight digits at once\<close>

definition dec :: "byte list \<Rightarrow> nat" where
  "dec ds = foldl (\<lambda>a d. 10 * a + digit_val d) 0 ds"

lemma dec_foldl: "foldl (\<lambda>a d. 10 * a + digit_val d) a ds = a * 10 ^ length ds + dec ds"
proof (induction ds arbitrary: a)
  case (Cons d ds)
  have "dec (d # ds) = digit_val d * 10 ^ length ds + dec ds"
    using Cons [of "digit_val d"] by (simp add: dec_def)
  then show ?case using Cons [of "10 * a + digit_val d"] by (simp add: algebra_simps)
qed (simp add: dec_def)

lemma dec_append: "dec (xs @ ys) = dec xs * 10 ^ length ys + dec ys"
  using dec_foldl [of "dec xs" ys] by (simp add: dec_def)

lemma dec_Cons: "dec (d # ds) = digit_val d * 10 ^ length ds + dec ds"
  using dec_append [of "[d]" ds] by (simp add: dec_def)

lemma dec_bound: "list_all is_digit ds \<Longrightarrow> dec ds < 10 ^ length ds"
proof (induction ds)
  case (Cons d ds)
  then have "dec ds + 1 \<le> 10 ^ length ds" "digit_val d \<le> 9" using digit_val_less [of d] by auto
  then have "digit_val d * 10 ^ length ds + dec ds + 1 \<le> 9 * 10 ^ length ds + 10 ^ length ds"
    by (metis add.assoc add_mono mult_le_mono1)
  then show ?case by (simp add: dec_Cons)
qed (simp add: dec_def)

lemma digit_byte:
  "(b XOR 0x30) AND 0xF0 = 0 \<and> (((b XOR 0x30) AND 0x0F) + 0x06) AND 0x10 = 0 \<longleftrightarrow> is_digit b" for b :: byte
proof -
  have f0: "0xF0 = NOT (mask 4 :: byte)" and m4: "0x0F = (mask 4 :: byte)" by (simp_all add: mask_eq_exp_minus_1)
  have "b AND NOT (mask 4) = push_bit 4 (drop_bit 4 b)" by (rule bit_word_eqI) (auto simp: bit_simps)
  then have hi: "unat (b AND 0xF0) = unat b div 16 * 16"
    using byte_bound [of b] unfolding f0 by (simp add: unat_push_bit unat_drop_bit)
  have lo: "unat (b AND 0x0F) = unat b mod 16" unfolding m4 unat_and_mask by simp
  have "(b XOR 0x30) AND 0xF0 = (b AND 0xF0) XOR 0x30" unfolding bit.conj_xor_distrib2 by simp
  then have "(b XOR 0x30) AND 0xF0 = 0 \<longleftrightarrow> b AND 0xF0 = 0x30" by (simp only: xor_zero_iff)
  also have "\<dots> \<longleftrightarrow> unat (b AND 0xF0) = 48" by (simp add: word_unat_eq_iff)
  finally have 1: "(b XOR 0x30) AND 0xF0 = 0 \<longleftrightarrow> unat b div 16 * 16 = 48" unfolding hi .
  have "(b XOR 0x30) AND 0x0F = b AND 0x0F" unfolding bit.conj_xor_distrib2 by simp
  moreover have "unat ((b AND 0x0F) + 0x06) = unat b mod 16 + 6"
    unfolding unat_word_ariths lo by simp
  moreover have "x AND 0x10 = 0 \<longleftrightarrow> even (unat x div 16)" for x :: byte
  proof -
    have "bit x 4 \<longleftrightarrow> bit (unat x) 4" by (simp add: bit_unsigned_iff)
    then have "bit x 4 \<longleftrightarrow> odd (unat x div 16)" by (simp add: bit_iff_odd)
    then show ?thesis using and_exp_eq_0_iff_not_bit [of x 4] by simp
  qed
  ultimately have 2: "(((b XOR 0x30) AND 0x0F) + 0x06) AND 0x10 = 0 \<longleftrightarrow> even ((unat b mod 16 + 6) div 16)" by simp
  have "even ((m + 6) div 16) \<longleftrightarrow> m < 10" if "m < 16" for m :: nat
    using that by presburger
  moreover have "x div 16 * 16 = 48 \<and> x mod 16 < 10 \<longleftrightarrow> 48 \<le> x \<and> x \<le> 57" for x :: nat
  proof
    assume "48 \<le> x \<and> x \<le> 57"
    moreover from this have "x div 16 = 3" by (intro div_nat_eqI) simp_all
    ultimately show "x div 16 * 16 = 48 \<and> x mod 16 < 10" using div_mult_mod_eq [of x 16] by linarith
  qed (use div_mult_mod_eq [of x 16] in linarith)
  ultimately show ?thesis unfolding 1 2 by (simp add: is_digit_def word_le_nat_alt)
qed

lemma le_load_eq_0: "length bs \<le> 8 \<Longrightarrow> (le_load bs :: u64) = 0 \<longleftrightarrow> list_all (\<lambda>b. b = 0) bs"
proof (induction bs)
  case (Cons b bs)
  have "(le_load (b # bs) :: u64) = 0 \<longleftrightarrow> unat (le_load (b # bs) :: u64) = 0" by (simp only: unsigned_eq_0_iff)
  also have "\<dots> \<longleftrightarrow> b = 0 \<and> (le_load bs :: u64) = 0"
    using unat_le_load(2) [of "b # bs" b bs, where 'a = 64] Cons.prems
    by (simp add: unsigned_eq_0_iff del: le_load.simps)
  finally show ?case using Cons by simp
qed simp

lemma lane_consts:
  "0x3030303030303030 = splat 0x30" "0xF0F0F0F0F0F0F0F0 = splat 0xF0" "0x0F0F0F0F0F0F0F0F = splat 0x0F"
  "0x0606060606060606 = splat 0x06" "0x1010101010101010 = splat 0x10"
  by (simp_all add: splat_eight le_load_add del: le_load.simps(2))

lemma all_digits8_lanes:
  assumes len: "length bs = 8"
  shows "all_digits8 (le_load bs) \<longleftrightarrow> list_all is_digit bs"
proof -
  have t: "le_load bs XOR splat 0x30 = (le_load (map (\<lambda>b. b XOR 0x30) bs) :: u64)"
    using le_load_map_bitwise(3) [of "\<lambda>b. b" bs "\<lambda>_. 0x30"] by (simp add: splat_lanes [OF len])
  have small: "unat (w AND 0x0F) + unat (0x06 :: byte) < 256" for w :: byte
    using unat_and_mask [of w 4] mod_less_divisor [of 16 "unat w"] by (simp add: mask_eq_exp_minus_1)
  have l: "le_load (map (\<lambda>b. (b XOR 0x30) AND 0x0F) bs) + le_load (map (\<lambda>_. 0x06) bs) =
      (le_load (map (\<lambda>b. ((b XOR 0x30) AND 0x0F) + 0x06) bs) :: u64)"
    by (intro le_load_map_plus) (rule small)
  have z: "(le_load (map f bs) :: u64) = 0 \<longleftrightarrow> list_all (\<lambda>b. f b = 0) bs" for f
    using le_load_eq_0 [of "map f bs"] len by (simp add: list_all_length)
  show ?thesis
    unfolding all_digits8_def Let_def lane_consts t
    unfolding splat_lanes [OF len] le_load_map_bitwise l z
    using digit_byte by (auto simp: list_all_iff)
qed

lemma le_load_and_Cons:
  "(le_load (a # as) :: u64) AND le_load (b # bs) = ucast (a AND b) OR push_bit 8 (le_load as AND le_load bs)"
proof (rule bit_word_eqI)
  fix n
  show "bit ((le_load (a # as) :: u64) AND le_load (b # bs)) n \<longleftrightarrow>
      bit (ucast (a AND b) OR push_bit 8 (le_load as AND le_load bs) :: u64) n"
    using bit_imp_le_length [of a n] bit_imp_le_length [of b n] by (auto simp: bit_simps)
qed

lemma drop_lane: "length as \<le> 7 \<Longrightarrow> drop_bit 8 (le_load (a # as)) = (le_load as :: u64)"
proof (rule bit_word_eqI)
  fix n assume "length as \<le> 7"
  have "(8 + n) div 8 = Suc (n div 8)" "(8 + n) mod 8 = n mod 8" by simp_all
  moreover have "n div 8 < length as \<Longrightarrow> 8 + n < 64" using \<open>length as \<le> 7\<close> by linarith
  ultimately show "bit (drop_bit 8 (le_load (a # as)) :: u64) n \<longleftrightarrow> bit (le_load as :: u64) n"
    unfolding bit_drop_bit_eq o_def bit_le_load by auto
qed

text \<open>Eight lanes \<open>p0\<close> to \<open>p7\<close>: every other one is weighed and summed by the two products.\<close>

lemma weigh_lanes:
  fixes p0 p1 p2 p3 p4 p5 p6 p7 :: byte
  assumes "unat p0 < 100" "unat p2 < 100" "unat p4 < 100" "unat p6 < 100"
  defines "v \<equiv> le_load [p0, p1, p2, p3, p4, p5, p6, p7] :: u64"
  shows "drop_bit 32 (((v AND 0x000000FF000000FF) * 0x000F424000000064)
      + ((drop_bit 16 v AND 0x000000FF000000FF) * 0x0000271000000001)) =
    of_nat (unat p0 * 1000000 + unat p2 * 10000 + unat p4 * 100 + unat p6)"
proof -
  have mask: "(0x000000FF000000FF :: u64) = le_load [0xFF, 0, 0, 0, 0xFF]"
    by (simp add: le_load_add del: le_load.simps(2))
  have "(0xFF :: byte) = - 1" by simp
  then have ff: "b AND 0xFF = b" for b :: byte by (simp only: and.right_neutral)
  have lanes: "le_load [a, b, c, d, e, f, g, h] AND 0x000000FF000000FF = (le_load [a, 0, 0, 0, e] :: u64)"
    for a b c d e f g h
    unfolding mask le_load_and_Cons ff by simp
  have two: "(le_load [a, 0, 0, 0, e] :: u64) = of_nat (unat a) + 4294967296 * of_nat (unat e)" for a e
    by (simp add: le_load_add del: le_load.simps(2))
  have shift: "drop_bit 16 v = (le_load [p2, p3, p4, p5, p6, p7, 0, 0] :: u64)"
  proof -
    have "drop_bit 16 v = drop_bit 8 (drop_bit 8 v)" by simp
    also have "\<dots> = le_load [p2, p3, p4, p5, p6, p7]" unfolding v_def by (simp add: drop_lane del: le_load.simps)
    finally show ?thesis by simp
  qed
  have wrap: "(184467440737095516160000 :: u64) = 0" "(18446744073709551616000000 :: u64) = 0" by simp_all
  let ?x = "unat p0 * 100 + unat p2"
  let ?y = "unat p0 * 1000000 + unat p2 * 10000 + unat p4 * 100 + unat p6"
  have "((v AND 0x000000FF000000FF) * 0x000F424000000064) + ((drop_bit 16 v AND 0x000000FF000000FF) * 0x0000271000000001)
      = (of_nat (?x + 4294967296 * ?y) :: u64)"
    unfolding shift unfolding v_def lanes two by (simp add: algebra_simps wrap)
  moreover have "unat (of_nat (?x + 4294967296 * ?y) :: u64) = ?x + 4294967296 * ?y"
    using assms(1-4) by (intro unat_of_nat_u64) simp
  moreover have "(?x + 4294967296 * ?y) div 4294967296 = ?y" using assms(1,2) by simp
  ultimately have "unat (drop_bit 32 (((v AND 0x000000FF000000FF) * 0x000F424000000064)
      + ((drop_bit 16 v AND 0x000000FF000000FF) * 0x0000271000000001))) = ?y"
    unfolding unat_drop_bit by simp
  moreover have "unat (of_nat ?y :: u64) = ?y" using assms(1-4) by (intro unat_of_nat_u64) simp
  ultimately show ?thesis by (simp only: word_unat_eq_iff)
qed

lemma lane_sum:
  "length as = length bs \<Longrightarrow> (\<And>i. i < length bs \<Longrightarrow> unat (cs ! i) = 10 * unat (as ! i) + unat (bs ! i)) \<Longrightarrow> length cs = length bs \<Longrightarrow>
   le_load as * 10 + le_load bs = (le_load cs :: u64)"
proof (induction as bs arbitrary: cs rule: list_induct2)
  case (Cons a as b bs)
  then obtain c cs' where cs: "cs = c # cs'" by (cases cs) auto
  have "unat c = 10 * unat a + unat b" using Cons.prems(1) [of 0] cs by simp
  then have "(of_nat (unat c) :: u64) = 10 * of_nat (unat a) + of_nat (unat b)" by simp
  then have c: "(ucast c :: u64) = 10 * ucast a + ucast b" by simp
  have IH: "le_load as * 10 + le_load bs = (le_load cs' :: u64)"
  proof (rule Cons.IH)
    fix i assume "i < length bs"
    then show "unat (cs' ! i) = 10 * unat (as ! i) + unat (bs ! i)" using Cons.prems(1) [of "Suc i"] cs by simp
  qed (use Cons.prems(2) cs in simp)
  have "le_load (a # as) * 10 + le_load (b # bs) = 10 * ucast a + ucast b + 256 * (le_load as * 10 + le_load bs :: u64)"
    by (simp add: le_load_add algebra_simps del: le_load.simps)
  then show ?case unfolding cs le_load_add c IH by simp
qed simp

lemma parse_eight_digits:
  assumes len: "length bs = 8" and dg: "list_all is_digit bs"
  shows "parse_eight (le_load bs) = of_nat (dec bs)"
proof -
  define ds where "ds = map (\<lambda>b. b - 0x30) bs"
  have dv: "unat (b - 0x30) = digit_val b" "unat (b - 0x30) + unat (0x30 :: byte) < 256" "b - 0x30 + 0x30 = b" if "is_digit b" for b
    using that byte_bound [of b] by (simp_all add: is_digit_def digit_val_def unat_sub word_le_nat_alt)
  have "le_load (map (\<lambda>b. b - 0x30) bs) + le_load (map (\<lambda>_. 0x30) bs) = (le_load (map (\<lambda>b. b - 0x30 + 0x30) bs) :: u64)"
    using dg dv(2) by (intro le_load_map_plus) (simp add: list_all_iff)
  then have w: "le_load bs - 0x3030303030303030 = (le_load ds :: u64)"
    unfolding lane_consts splat_lanes [OF len] ds_def by (simp add: diff_eq_eq)
  obtain b0 b1 b2 b3 b4 b5 b6 b7 where bs: "bs = [b0, b1, b2, b3, b4, b5, b6, b7]"
    using len by (auto simp: length_Suc_conv numeral_eq_Suc)
  define q where "q = (\<lambda>a b :: byte. of_nat (10 * digit_val a + digit_val b) :: byte)"
  have q: "unat (q a b) = 10 * digit_val a + digit_val b" if "is_digit a" "is_digit b" for a b
    using digit_val_less [OF that(1)] digit_val_less [OF that(2)] unfolding q_def
    by (simp only: unsigned_of_nat take_bit_eq_mod of_nat_id) simp
  let ?cs = "[q b0 b1, q b1 b2, q b2 b3, q b3 b4, q b4 b5, q b5 b6, q b6 b7, q b7 0x30]"
  have sum: "le_load ds * 10 + drop_bit 8 (le_load ds) = (le_load ?cs :: u64)"
  proof -
    have "drop_bit 8 (le_load ds) = (le_load (tl ds @ [0]) :: u64)"
      unfolding ds_def bs by (simp add: drop_lane del: le_load.simps) simp
    moreover have "le_load ds * 10 + le_load (tl ds @ [0]) = (le_load ?cs :: u64)"
    proof (rule lane_sum)
      fix i assume "i < length (tl ds @ [0])"
      then have "i \<in> {0, 1, 2, 3, 4, 5, 6, 7}" unfolding ds_def bs by auto
      moreover have "is_digit 0x30" "digit_val 0x30 = 0" by (simp_all add: is_digit_def digit_val_def)
      ultimately show "unat (?cs ! i) = 10 * unat (ds ! i) + unat ((tl ds @ [0]) ! i)"
        using dg unfolding ds_def bs by (auto simp: q dv(1))
    qed (simp_all add: ds_def bs)
    ultimately show ?thesis by simp
  qed
  have small: "unat (q a b) < 100" if "is_digit a" "is_digit b" for a b
    using q [OF that] digit_val_less [OF that(1)] digit_val_less [OF that(2)] by simp
  have "parse_eight (le_load bs) =
      of_nat (unat (q b0 b1) * 1000000 + unat (q b2 b3) * 10000 + unat (q b4 b5) * 100 + unat (q b6 b7))"
    unfolding parse_eight_def Let_def w sum using dg by (intro weigh_lanes) (simp_all add: bs small)
  also have "\<dots> = of_nat (dec bs)"
    using dg by (simp add: bs q dec_def)
  finally show ?thesis .
qed

section \<open>The digit run\<close>

lemma tail_digits_exact:
  assumes "list_all is_digit ds" and "\<not> digit_next r" and "tail_digits mag ov (ds @ r) = (mag', ov', k)"
  defines "sumv \<equiv> unat mag * 10 ^ length ds + dec ds"
  shows "k = r \<and> ov' = (ov \<or> 2 ^ 64 \<le> sumv) \<and> (sumv < 2 ^ 64 \<longrightarrow> unat mag' = sumv)"
  using assms(1,3) unfolding sumv_def
proof (induction ds arbitrary: mag ov)
  case Nil
  have "tail_digits mag ov r = (mag, ov, r)" using assms(2) by (cases r) (auto simp: digit_next_def)
  with Nil show ?case using unat_u64 [of mag] by (simp add: dec_def not_le)
next
  case (Cons d ds)
  define dw where "dw = (ucast d - 0x30 :: u64)"
  have d: "is_digit d" using Cons.prems by simp
  have dv: "unat dw = digit_val d" and d10: "digit_val d < 10"
    using d digit_val_less [OF d] by (simp_all add: dw_def is_digit_def digit_val_def unat_sub word_le_nat_alt unat_ucast)
  have test: "(- 1 - dw) div 10 < mag \<longleftrightarrow> 2 ^ 64 \<le> unat mag * 10 + digit_val d"
  proof -
    have "unat (- 1 - dw) = 2 ^ 64 - 1 - digit_val d"
      using unat_sub [of dw "- 1"] dv by (simp add: unsigned_minus_1_eq_mask mask_eq_exp_minus_1)
    then have "(- 1 - dw) div 10 < mag \<longleftrightarrow> (2 ^ 64 - 1 - digit_val d) div 10 < unat mag"
      by (simp add: word_less_nat_alt unat_div_distrib)
    also have "\<dots> \<longleftrightarrow> 2 ^ 64 - 1 - digit_val d < unat mag * 10" by (simp add: div_less_iff_less_mult)
    finally show ?thesis using d10 by auto
  qed
  have big: "unat mag * 10 ^ length (d # ds) + dec (d # ds) =
      (unat mag * 10 + digit_val d) * 10 ^ length ds + dec ds" by (simp add: dec_Cons algebra_simps)
  show ?case
  proof (cases "2 ^ 64 \<le> unat mag * 10 + digit_val d")
    case True
    then have "tail_digits mag True (ds @ r) = (mag', ov', k)"
      using Cons.prems(2) d test by (simp add: dw_def Let_def)
    from Cons.IH [OF _ this] Cons.prems(1) have "k = r" "ov'" by auto
    moreover have "2 ^ 64 \<le> (unat mag * 10 + digit_val d) * 10 ^ length ds + dec ds"
    proof -
      have "(unat mag * 10 + digit_val d) * 1 \<le> (unat mag * 10 + digit_val d) * 10 ^ length ds"
        by (rule mult_le_mono2) simp
      from order_trans [OF True this [unfolded mult_1_right]] show ?thesis by (rule trans_le_add1)
    qed
    ultimately show ?thesis unfolding big by simp
  next
    case False
    then have "tail_digits (mag * 10 + dw) ov (ds @ r) = (mag', ov', k)"
      using Cons.prems(2) d test by (simp add: dw_def Let_def)
    moreover have "unat (mag * 10 + dw) = unat mag * 10 + digit_val d"
      using False dv by (simp add: unat_word_ariths)
    ultimately show ?thesis using Cons.IH [of "mag * 10 + dw" ov] Cons.prems(1) unfolding big by simp
  qed
qed

lemma swar_digits_exact:
  assumes "list_all is_digit ds" and "\<not> digit_next r" and "swar_digits mag (ds @ r) = (mag', k)"
  shows "\<exists>ds1 ds2. ds = ds1 @ ds2 \<and> k = ds2 @ r \<and> unat mag' = unat mag * 10 ^ length ds1 + dec ds1"
  using assms(1,3)
proof (induction "length ds" arbitrary: mag ds rule: less_induct)
  case less
  have stop: ?case if "mag' = mag" "k = ds @ r"
    using that by (intro exI [of _ "[]"] exI [of _ ds]) (simp add: dec_def)
  show ?case
  proof (cases "8 \<le> length (ds @ r) \<and> all_digits8 (le_load (take 8 (ds @ r))) \<and> \<not> (- 1 - 99999999) div 100000000 < mag")
    case False
    then show ?thesis using less.prems(2) stop by (auto simp: swar_digits.simps [of mag "ds @ r"] Let_def split: if_splits)
  next
    case True
    have len8: "length (take 8 (ds @ r)) = 8" using True by (simp only: length_take min.absorb2)
    then have all: "list_all is_digit (take 8 (ds @ r))" using True all_digits8_lanes by blast
    have l8: "8 \<le> length ds"
    proof (rule ccontr)
      assume less8: "\<not> 8 \<le> length ds"
      then have r: "r \<noteq> []" using True by auto
      then have "take 8 (ds @ r) ! length ds = hd r" using less8 by (simp add: nth_append hd_conv_nth)
      then have "is_digit (hd r)" using all less8 len8 by (metis list_all_length not_le)
      then show False using assms(2) r by (simp add: digit_next_def)
    qed
    let ?a = "take 8 ds" and ?b = "drop 8 ds"
    have a: "length ?a = 8" "list_all is_digit ?a" "list_all is_digit ?b"
      using l8 less.prems(1) by (auto simp: list_all_iff dest: in_set_takeD in_set_dropD)
    have ta: "take 8 (ds @ r) = ?a" "drop 8 (ds @ r) = ?b @ r" using l8 by simp_all
    let ?m = "mag * 100000000 + of_nat (dec ?a)"
    have "dec ?a < 100000000" using dec_bound [OF a(2)] a(1) by simp
    moreover have "unat mag \<le> (2 ^ 64 - 1 - 99999999) div 100000000"
      using True by (simp add: word_less_nat_alt unat_div_distrib)
    ultimately have m: "unat ?m = unat mag * 10 ^ 8 + dec ?a"
      by (simp add: unat_word_ariths unat_of_nat_u64)
    have "swar_digits ?m (?b @ r) = (mag', k)"
      using less.prems(2) True parse_eight_digits [OF a(1,2)] l8
      by (simp add: swar_digits.simps [of mag "ds @ r"] Let_def ta)
    moreover have "length ?b < length ds" using l8 by (simp add: less_le_trans [of 0 8])
    ultimately obtain d1 d2 where
      d: "?b = d1 @ d2" "k = d2 @ r" "unat mag' = unat ?m * 10 ^ length d1 + dec d1"
      using less.hyps [OF _ a(3)] by blast
    have "ds = (?a @ d1) @ d2" using d(1) by (metis append.assoc append_take_drop_id)
    moreover have "unat mag' = unat mag * 10 ^ length (?a @ d1) + dec (?a @ d1)"
      using d(3) a(1) unfolding m by (simp add: dec_append power_add algebra_simps)
    ultimately show ?thesis using d(2) by blast
  qed
qed

section \<open>The number grammar\<close>

text \<open>
  RFC 8259: an optional minus, an integer part without leading zeros, an optional fraction,
  an optional exponent.
\<close>

definition digits1 :: "byte list \<Rightarrow> bool" where
  "digits1 ds \<longleftrightarrow> ds \<noteq> [] \<and> list_all is_digit ds"

definition int_text :: "byte list \<Rightarrow> bool" where
  "int_text ds \<longleftrightarrow> digits1 ds \<and> (hd ds = 0x30 \<longrightarrow> ds = [0x30])"

definition frac_text :: "byte list \<Rightarrow> bool" where
  "frac_text f \<longleftrightarrow> f = [] \<or> (\<exists>ds. f = 0x2E # ds \<and> digits1 ds)"

definition exp_text :: "byte list \<Rightarrow> bool" where
  "exp_text e \<longleftrightarrow> e = [] \<or>
     (\<exists>c sg ds. e = c # sg @ ds \<and> (c = 0x65 \<or> c = 0x45) \<and> (sg = [] \<or> sg = [0x2D] \<or> sg = [0x2B]) \<and> digits1 ds)"

definition number_text :: "byte list \<Rightarrow> byte list \<Rightarrow> byte list \<Rightarrow> byte list \<Rightarrow> bool" where
  "number_text sg ds f e \<longleftrightarrow> (sg = [] \<or> sg = [0x2D]) \<and> int_text ds \<and> frac_text f \<and> exp_text e"

definition number_of :: "byte list \<Rightarrow> byte list \<Rightarrow> byte list \<Rightarrow> byte list \<Rightarrow> json_num" where
  "number_of sg ds f e =
     (let v = (if sg = [] then int (dec ds) else - int (dec ds)) in
      if f \<noteq> [] \<or> e \<noteq> [] then JFloat (sg @ ds @ f @ e)
      else if - (2 ^ 63) \<le> v \<and> v < 2 ^ 63 then JInt (of_int v)
      else JBig (sg @ ds @ f @ e))"

lemma delim_no_digit: "delim_next r \<Longrightarrow> \<not> digit_next r"
  by (auto simp: delim_next_def digit_next_def json_delim_def is_digit_def)

lemma digits1_run: "digits1 ds \<Longrightarrow> \<not> digit_next r \<Longrightarrow> digit_next (ds @ r) \<and> dropWhile is_digit (ds @ r) = r"
proof -
  assume "digits1 ds" "\<not> digit_next r"
  then have "dropWhile is_digit (ds @ r) = dropWhile is_digit r" by (simp add: digits1_def list_all_iff)
  also have "\<dots> = r" using \<open>\<not> digit_next r\<close> by (cases r) (auto simp: digit_next_def)
  finally show ?thesis using \<open>digits1 ds\<close> by (auto simp: digits1_def digit_next_def list_all_iff)
qed

lemma digit_runE:
  assumes "digit_next k"
  obtains ds r where "k = ds @ r" "digits1 ds" "\<not> digit_next r" "dropWhile is_digit k = r"
proof (rule that)
  show "k = takeWhile is_digit k @ dropWhile is_digit k" by simp
  show "digits1 (takeWhile is_digit k)"
    using assms by (cases k) (auto simp: digits1_def digit_next_def list_all_iff dest: set_takeWhileD)
  show "\<not> digit_next (dropWhile is_digit k)" using hd_dropWhile [of is_digit k] by (auto simp: digit_next_def)
qed simp

lemma frac_part_exact:
  "frac_part k = Some (b, r) \<longleftrightarrow>
     (\<exists>f. k = f @ r \<and> frac_text f \<and> b = (f \<noteq> []) \<and> (f = [] \<longrightarrow> \<not> (r \<noteq> [] \<and> hd r = 0x2E)) \<and> (f \<noteq> [] \<longrightarrow> \<not> digit_next r))"
proof (cases "k \<noteq> [] \<and> hd k = 0x2E")
  case True
  then obtain k' where k: "k = 0x2E # k'" by (cases k) auto
  show ?thesis
  proof (cases "digit_next k'")
    case dg: True
    obtain ds q where q: "k' = ds @ q" "digits1 ds" "\<not> digit_next q" "dropWhile is_digit k' = q" by (rule digit_runE [OF dg])
    have "frac_part k = Some (True, q)" using dg q by (simp add: frac_part_def k)
    moreover have "(\<exists>f. k = f @ r \<and> frac_text f \<and> b = (f \<noteq> []) \<and> (f = [] \<longrightarrow> \<not> (r \<noteq> [] \<and> hd r = 0x2E)) \<and> (f \<noteq> [] \<longrightarrow> \<not> digit_next r))
        \<longleftrightarrow> b \<and> r = q" (is "?L \<longleftrightarrow> _")
    proof
      assume ?L
      then obtain f where f: "k = f @ r" "frac_text f" "b = (f \<noteq> [])" "f = [] \<longrightarrow> \<not> (r \<noteq> [] \<and> hd r = 0x2E)" "f \<noteq> [] \<longrightarrow> \<not> digit_next r" by blast
      then have "f \<noteq> []" using k by auto
      then obtain ds' where "f = 0x2E # ds'" "digits1 ds'" using f(2) by (auto simp: frac_text_def)
      then show "b \<and> r = q" using f k q digits1_run [of ds' r] \<open>f \<noteq> []\<close> by auto
    next
      assume "b \<and> r = q"
      then show ?L using k q by (intro exI [of _ "0x2E # ds"]) (auto simp: frac_text_def)
    qed
    ultimately show ?thesis by auto
  next
    case nd: False
    have "frac_part k = None" using nd by (simp add: frac_part_def k)
    moreover have "\<not> (k = f @ r \<and> frac_text f \<and> (f = [] \<longrightarrow> \<not> (r \<noteq> [] \<and> hd r = 0x2E)))" for f
      using nd k by (auto simp: frac_text_def digits1_def digit_next_def list_all_iff)
    ultimately show ?thesis by auto
  qed
next
  case False
  then have "frac_part k = Some (False, k)" by (auto simp: frac_part_def)
  then show ?thesis using False by (auto simp: frac_text_def)
qed

lemma exp_part_exact:
  "exp_part k = Some (b, r) \<and> delim_next r \<longleftrightarrow> (\<exists>e. k = e @ r \<and> exp_text e \<and> b = (e \<noteq> []) \<and> delim_next r)"
proof (cases "k \<noteq> [] \<and> (hd k = 0x65 \<or> hd k = 0x45)")
  case True
  then obtain c k' where k: "k = c # k'" and c: "c = 0x65 \<or> c = 0x45" by (cases k) auto
  define sg where "sg = (if k' \<noteq> [] \<and> (hd k' = 0x2D \<or> hd k' = 0x2B) then [hd k'] else [])"
  define q where "q = (if k' \<noteq> [] \<and> (hd k' = 0x2D \<or> hd k' = 0x2B) then tl k' else k')"
  have k': "k' = sg @ q" and sg: "sg = [] \<or> sg = [0x2D] \<or> sg = [0x2B]" by (auto simp: sg_def q_def)
  have run: "exp_part k = (if \<not> digit_next q then None else Some (True, dropWhile is_digit q))"
    using c by (simp add: exp_part_def k q_def Let_def)
  have same: "sg' = sg \<and> q = ds @ r" if "k' = sg' @ ds @ r" "sg' = [] \<or> sg' = [0x2D] \<or> sg' = [0x2B]" "digits1 ds" for sg' ds r
    using that by (cases ds) (auto simp: sg_def q_def digits1_def is_digit_def)
  show ?thesis
  proof
    assume A: "exp_part k = Some (b, r) \<and> delim_next r"
    then have "digit_next q" using run by (auto split: if_splits)
    then obtain ds r' where r': "q = ds @ r'" "digits1 ds" "dropWhile is_digit q = r'" by (rule digit_runE)
    then have "r = r'" "b" using A run by (auto split: if_splits)
    then show "\<exists>e. k = e @ r \<and> exp_text e \<and> b = (e \<noteq> []) \<and> delim_next r"
      using A r' sg c unfolding k k' by (intro exI [of _ "c # sg @ ds"]) (auto simp: exp_text_def)
  next
    assume "\<exists>e. k = e @ r \<and> exp_text e \<and> b = (e \<noteq> []) \<and> delim_next r"
    then obtain e where e: "k = e @ r" "exp_text e" "b = (e \<noteq> [])" "delim_next r" by blast
    have "e \<noteq> []" using e k c by (auto simp: delim_next_def json_delim_def)
    then obtain c' sg' ds where d': "e = c' # sg' @ ds" "sg' = [] \<or> sg' = [0x2D] \<or> sg' = [0x2B]" "digits1 ds"
      using e(2) unfolding exp_text_def by blast
    moreover from this have "c' = c" using e(1) k by simp
    ultimately have d: "e = c # sg' @ ds" "sg' = [] \<or> sg' = [0x2D] \<or> sg' = [0x2B]" "digits1 ds" by simp_all
    then have "q = ds @ r" using same [of sg' ds r] e(1) k by simp
    then show "exp_part k = Some (b, r) \<and> delim_next r"
      using digits1_run [OF d(3) delim_no_digit [OF e(4)]] run e \<open>e \<noteq> []\<close> by simp
  qed
next
  case False
  then have "exp_part k = Some (False, k)" by (auto simp: exp_part_def)
  then show ?thesis using False by (auto simp: exp_text_def)
qed

text \<open>What follows the integer part.\<close>

definition number_tail :: "byte list \<Rightarrow> (bool \<times> byte list) option" where
  "number_tail k =
     (case frac_part k of
        None \<Rightarrow> None
      | Some (f1, k) \<Rightarrow>
          (case exp_part k of
             None \<Rightarrow> None
           | Some (f2, k) \<Rightarrow> if \<not> delim_next k then None else Some (f1 \<or> f2, k)))"

lemma exp_delim_next:
  "exp_text e \<Longrightarrow> delim_next r \<Longrightarrow> \<not> digit_next (e @ r) \<and> \<not> (e @ r \<noteq> [] \<and> hd (e @ r) = 0x2E)"
  by (cases e) (auto simp: exp_text_def delim_next_def digit_next_def json_delim_def is_digit_def)

lemma number_tail_exact:
  "number_tail k = Some (b, r) \<longleftrightarrow>
     (\<exists>f e. k = f @ e @ r \<and> frac_text f \<and> exp_text e \<and> delim_next r \<and> b = (f \<noteq> [] \<or> e \<noteq> []))" (is "_ \<longleftrightarrow> ?R")
proof
  assume "number_tail k = Some (b, r)"
  then obtain b1 q b2 where q: "frac_part k = Some (b1, q)" "exp_part q = Some (b2, r) \<and> delim_next r" "b = (b1 \<or> b2)"
    by (auto simp: number_tail_def split: option.splits prod.splits if_splits)
  from q(1) obtain f where f: "k = f @ q" "frac_text f" "b1 = (f \<noteq> [])" unfolding frac_part_exact by blast
  from q(2) obtain e where "q = e @ r" "exp_text e" "b2 = (e \<noteq> [])" "delim_next r" unfolding exp_part_exact by blast
  with f q(3) show ?R by blast
next
  assume ?R
  then obtain f e where fe: "k = f @ e @ r" "frac_text f" "exp_text e" "delim_next r" "b = (f \<noteq> [] \<or> e \<noteq> [])" by blast
  have "frac_part k = Some (f \<noteq> [], e @ r)"
    unfolding frac_part_exact using fe exp_delim_next [OF fe(3,4)] by blast
  moreover have "exp_part (e @ r) = Some (e \<noteq> [], r)" using exp_part_exact [of "e @ r" "e \<noteq> []" r] fe by blast
  ultimately show "number_tail k = Some (b, r)" using fe by (simp add: number_tail_def)
qed

definition int_part :: "byte list \<Rightarrow> u64 \<times> bool \<times> byte list" where
  "int_part k = (if hd k = 0x30 then (0, False, tl k)
     else let (mag, k) = swar_digits 0 k in tail_digits mag False k)"

lemma int_part_exact:
  assumes "digit_next k"
  obtains ds q mag ov where "k = ds @ q" "int_text ds" "int_part k = (mag, ov, q)"
    "ov \<longleftrightarrow> 2 ^ 64 \<le> dec ds" "\<not> ov \<longrightarrow> unat mag = dec ds" "hd ds \<noteq> 0x30 \<longrightarrow> \<not> digit_next q"
proof (cases "hd k = 0x30")
  case True
  then have "k = [0x30] @ tl k" using assms by (cases k) (auto simp: digit_next_def)
  moreover have "int_text [0x30]" "dec [0x30] = 0" by (simp_all add: int_text_def digits1_def is_digit_def dec_def digit_val_def)
  ultimately show ?thesis using True by (intro that [of "[0x30]" "tl k" 0 False]) (auto simp: int_part_def)
next
  case False
  obtain ds q where q: "k = ds @ q" "digits1 ds" "\<not> digit_next q" by (rule digit_runE [OF assms])
  have dg: "list_all is_digit ds" and hd: "hd ds = hd k" using q by (auto simp: digits1_def)
  obtain mag1 k1 where sw: "swar_digits 0 k = (mag1, k1)" by (cases "swar_digits 0 k")
  obtain mag ov k2 where tl: "tail_digits mag1 False k1 = (mag, ov, k2)" by (metis prod_cases3)
  obtain ds1 ds2 where d: "ds = ds1 @ ds2" "k1 = ds2 @ q" "unat mag1 = dec ds1"
    using swar_digits_exact [OF dg q(3), of 0 mag1 k1] sw q(1) by auto
  have "list_all is_digit ds2" using dg d(1) by simp
  from tail_digits_exact [OF this q(3) tl [unfolded d(2)], unfolded d(3)]
  have "k2 = q \<and> ov = (2 ^ 64 \<le> dec ds) \<and> (dec ds < 2 ^ 64 \<longrightarrow> unat mag = dec ds)"
    unfolding d(1) dec_append by blast
  moreover have "int_part k = (mag, ov, k2)" using False sw tl by (simp add: int_part_def)
  ultimately show ?thesis
    using q False hd by (intro that [of ds q mag ov]) (auto simp: int_text_def)
qed

lemma full_number_parts:
  "full_number s neg k =
     (case int_part k of (mag, overflow, q) \<Rightarrow>
        map_option (\<lambda>(flt, r). (number_value s neg mag overflow flt r, r)) (number_tail q))"
  by (auto simp: full_number_def number_tail_def int_part_def split: prod.splits option.splits)

text \<open>The integer part of a number text is the one the walk takes.\<close>

lemma int_text_unique:
  assumes "ds @ q = ds' @ q'" "int_text ds" "int_text ds'" "hd ds \<noteq> 0x30 \<longrightarrow> \<not> digit_next q" "\<not> digit_next q'"
  shows "ds = ds' \<and> q = q'"
proof (cases "hd ds = 0x30")
  case True
  then have "hd ds' = 0x30" using assms(1-3) by (metis digits1_def hd_append2 int_text_def)
  then show ?thesis using True assms by (auto simp: int_text_def)
next
  case False
  then have "dropWhile is_digit (ds @ q) = q" "dropWhile is_digit (ds' @ q') = q'"
    using digits1_run [of ds q] digits1_run [of ds' q'] assms by (simp_all add: int_text_def)
  then have "q = q'" using assms(1) by simp
  then show ?thesis using assms(1) by simp
qed

lemma number_tail_no_digit:
  "frac_text f \<Longrightarrow> exp_text e \<Longrightarrow> delim_next r \<Longrightarrow> \<not> digit_next (f @ e @ r)"
  using exp_delim_next [of e r] by (cases f) (auto simp: frac_text_def digit_next_def is_digit_def)

lemma number_value_exact:
  assumes s: "s = sg @ ds @ f @ e @ r" and "ov \<longleftrightarrow> 2 ^ 64 \<le> dec ds" "\<not> ov \<longrightarrow> unat mag = dec ds" "sg = [] \<or> sg = [0x2D]"
  shows "number_value s (sg = [0x2D]) mag ov (f \<noteq> [] \<or> e \<noteq> []) r = number_of sg ds f e"
proof -
  have tx: "take (length s - length r) s = sg @ ds @ f @ e" unfolding s by simp
  have lim: "(if sg = [0x2D] then 0x7FFFFFFFFFFFFFFF + 1 else 0x7FFFFFFFFFFFFFFF) < mag \<longleftrightarrow>
      (if sg = [0x2D] then 2 ^ 63 < unat mag else 2 ^ 63 \<le> unat mag)"
    by (auto simp: word_less_nat_alt)
  have big: "ov \<or> (if sg = [0x2D] then 0x7FFFFFFFFFFFFFFF + 1 else 0x7FFFFFFFFFFFFFFF) < mag \<longleftrightarrow>
      \<not> (- (2 ^ 63) \<le> (if sg = [] then int (dec ds) else - int (dec ds)) \<and> (if sg = [] then int (dec ds) else - int (dec ds)) < 2 ^ 63)"
    unfolding lim using assms(2-4) by auto
  have val: "(if sg = [0x2D] \<and> mag = 0x7FFFFFFFFFFFFFFF + 1 then 0x8000000000000000 else if sg = [0x2D] then - mag else mag) =
      of_int (if sg = [] then int (dec ds) else - int (dec ds))" if "\<not> ov"
  proof -
    have "mag = of_nat (unat mag)" by simp
    then have "mag = of_nat (dec ds)" using that assms(3) by simp
    then show ?thesis using assms(4) by auto
  qed
  show ?thesis
    unfolding number_value_def number_of_def Let_def tx
    using big val by auto
qed

lemma full_number_exact:
  assumes "digit_next k" and sg: "sg = [] \<or> sg = [0x2D]"
  shows "full_number (sg @ k) (sg = [0x2D]) k = Some (n, r) \<longleftrightarrow>
    (\<exists>ds f e. k = ds @ f @ e @ r \<and> int_text ds \<and> frac_text f \<and> exp_text e \<and> delim_next r \<and> n = number_of sg ds f e)"
    (is "_ \<longleftrightarrow> ?R")
proof -
  obtain ds q mag ov where d: "k = ds @ q" "int_text ds" "int_part k = (mag, ov, q)"
    "ov \<longleftrightarrow> 2 ^ 64 \<le> dec ds" "\<not> ov \<longrightarrow> unat mag = dec ds" "hd ds \<noteq> 0x30 \<longrightarrow> \<not> digit_next q"
    by (rule int_part_exact [OF assms(1)])
  have nv: "number_value (sg @ k) (sg = [0x2D]) mag ov (f \<noteq> [] \<or> e \<noteq> []) r = number_of sg ds f e"
    if "q = f @ e @ r" for f e
    using number_value_exact [OF _ d(4,5) sg, of "sg @ k" f e r] that d(1) by simp
  have "full_number (sg @ k) (sg = [0x2D]) k = Some (n, r) \<longleftrightarrow>
      (\<exists>b. number_tail q = Some (b, r) \<and> n = number_value (sg @ k) (sg = [0x2D]) mag ov b r)"
    unfolding full_number_parts d(3) by auto
  also have "\<dots> \<longleftrightarrow> (\<exists>f e. q = f @ e @ r \<and> frac_text f \<and> exp_text e \<and> delim_next r \<and> n = number_of sg ds f e)"
    (is "?A \<longleftrightarrow> ?B")
  proof
    assume ?A
    then obtain b f e where "n = number_value (sg @ k) (sg = [0x2D]) mag ov b r" "q = f @ e @ r" "frac_text f" "exp_text e"
      "delim_next r" "b = (f \<noteq> [] \<or> e \<noteq> [])" unfolding number_tail_exact by blast
    then show ?B using nv [of f e] by blast
  next
    assume ?B
    then obtain f e where "q = f @ e @ r" "frac_text f" "exp_text e" "delim_next r" "n = number_of sg ds f e" by blast
    then show ?A unfolding number_tail_exact using nv [of f e]
      by (intro exI [of _ "f \<noteq> [] \<or> e \<noteq> []"]) auto
  qed
  also have "\<dots> \<longleftrightarrow> ?R"
  proof
    assume ?R
    then obtain ds' f e where e: "k = ds' @ f @ e @ r" "int_text ds'" "frac_text f" "exp_text e" "delim_next r" "n = number_of sg ds' f e"
      by blast
    then have "ds = ds' \<and> q = f @ e @ r"
      using int_text_unique [of ds q ds' "f @ e @ r"] d(1,2,6) number_tail_no_digit [OF e(3-5)] by simp
    then show "\<exists>f e. q = f @ e @ r \<and> frac_text f \<and> exp_text e \<and> delim_next r \<and> n = number_of sg ds f e" using e by blast
  qed (use d in blast)
  finally show ?thesis .
qed

section \<open>The short path changes nothing\<close>

lemma unat_u32: "unat (m :: u32) < 4294967296"
  using unsigned_less [of m] by simp

lemma short_digits_run:
  "\<exists>ds. k = ds @ e \<and> list_all is_digit ds \<and> length ds \<le> n \<and> (length ds < n \<longrightarrow> \<not> digit_next e) \<and>
     unat mag' = (unat mag * 10 ^ length ds + dec ds) mod 2 ^ 32"
  if "short_digits n mag k = (mag', e)"
  using that
proof (induction n mag k rule: short_digits.induct)
  case (1 n mag c s)
  show ?case
  proof (cases "is_digit c")
    case True
    let ?m = "mag * 10 + (ucast c - 0x30)"
    have "unat (ucast c - 0x30 :: u32) = digit_val c"
      using True by (simp add: is_digit_def digit_val_def unat_sub word_le_nat_alt unat_ucast)
    then have m: "unat ?m = (unat mag * 10 + digit_val c) mod 2 ^ 32" by (simp add: unat_word_ariths mod_simps)
    obtain ds where ds: "s = ds @ e" "list_all is_digit ds" "length ds \<le> n" "length ds < n \<longrightarrow> \<not> digit_next e"
      "unat mag' = (unat ?m * 10 ^ length ds + dec ds) mod 2 ^ 32" using 1 True by auto
    have "unat mag' = ((unat mag * 10 + digit_val c) * 10 ^ length ds + dec ds) mod 2 ^ 32"
      unfolding ds(5) m by (metis mod_add_left_eq mod_mult_left_eq)
    then have "unat mag' = (unat mag * 10 ^ length (c # ds) + dec (c # ds)) mod 2 ^ 32"
      by (simp add: dec_Cons algebra_simps)
    then show ?thesis using ds True by (intro exI [of _ "c # ds"]) auto
  qed (use 1 unat_u32 [of mag'] in \<open>auto simp: dec_def digit_next_def\<close>)
qed (use unat_u32 [of mag'] in \<open>auto simp: dec_def digit_next_def\<close>)

lemma full_number_plain:
  assumes "int_text ds" "\<not> digit_next e" "e = [] \<or> hd e \<noteq> 0x2E \<and> hd e \<noteq> 0x65 \<and> hd e \<noteq> 0x45" "sg = [] \<or> sg = [0x2D]"
  shows "full_number (sg @ ds @ e) (sg = [0x2D]) (ds @ e) = (if delim_next e then Some (number_of sg ds [] [], e) else None)"
proof -
  have dn: "digit_next (ds @ e)" using assms(1) by (auto simp: int_text_def digits1_def digit_next_def list_all_iff)
  have tail: "number_tail e = (if delim_next e then Some (False, e) else None)"
    using assms(3) by (auto simp: number_tail_def frac_part_def exp_part_def)
  obtain ds' q mag ov where d: "ds @ e = ds' @ q" "int_text ds'" "int_part (ds @ e) = (mag, ov, q)"
    "hd ds' \<noteq> 0x30 \<longrightarrow> \<not> digit_next q" by (rule int_part_exact [OF dn])
  have "ds' = ds \<and> q = e" using int_text_unique [of ds' q ds e] d assms by metis
  then have none: "full_number (sg @ ds @ e) (sg = [0x2D]) (ds @ e) = None" if "\<not> delim_next e"
    unfolding full_number_parts d(3) using that tail by simp
  have some: "full_number (sg @ ds @ e) (sg = [0x2D]) (ds @ e) = Some (number_of sg ds [] [], e)" if "delim_next e"
  proof -
    have "\<exists>ds' f e'. ds @ e = ds' @ f @ e' @ e \<and> int_text ds' \<and> frac_text f \<and> exp_text e' \<and> delim_next e \<and>
        number_of sg ds [] [] = number_of sg ds' f e'"
      using assms(1) that by (intro exI [of _ ds] exI [of _ "[]"]) (simp add: frac_text_def exp_text_def)
    then show ?thesis by (simp only: full_number_exact [OF dn assms(4)])
  qed
  from none some show ?thesis by simp
qed

lemma number_of_short:
  fixes m :: u32
  assumes "unat m = dec ds" "dec ds < 1000" "sg = [] \<or> sg = [0x2D]"
  shows "JInt (if sg = [0x2D] then - ucast m else ucast m) = number_of sg ds [] []"
proof -
  have "(ucast m :: u64) = of_nat (unat m)" by simp
  then show ?thesis using assms by (auto simp: number_of_def Let_def)
qed

lemma short_int_settles:
  assumes "digit_next k" and sg: "sg = [] \<or> sg = [0x2D]" and "short_int (sg = [0x2D]) k = Some res"
  shows "full_number (sg @ k) (sg = [0x2D]) k = res"
proof -
  obtain c k' where k: "k = c # k'" and c: "is_digit c" using assms(1) by (cases k) (auto simp: digit_next_def)
  have dg: "\<not> digit_next e" if "e = [] \<or> (hd e < 0x30 \<or> 0x39 < hd e)" for e
    using that by (auto simp: digit_next_def is_digit_def)
  show ?thesis
  proof (cases "c = 0x30")
    case True
    from assms(3) have e: "k' = [] \<or> hd k' \<noteq> 0x2E \<and> hd k' \<noteq> 0x65 \<and> hd k' \<noteq> 0x45 \<and> (hd k' < 0x30 \<or> 0x39 < hd k')"
      and res: "res = (if delim_next k' then Some (JInt 0, k') else None)"
      by (auto simp: short_int_def k True Let_def split: if_splits)
    have "int_text [0x30]" by (simp add: int_text_def digits1_def is_digit_def)
    moreover have "number_of sg [0x30] [] [] = JInt 0"
      using number_of_short [of 0 "[0x30]" sg] sg by (simp add: dec_def digit_val_def split: if_splits)
    ultimately show ?thesis using full_number_plain [of "[0x30]" k' sg] e res dg sg by (auto simp: k True)
  next
    case False
    obtain m e where m: "short_digits 2 (ucast c - 0x30) k' = (m, e)" by fastforce
    from assms(3) have e: "e = [] \<or> hd e \<noteq> 0x2E \<and> hd e \<noteq> 0x65 \<and> hd e \<noteq> 0x45 \<and> hd e \<noteq> 0x30 \<and> (hd e < 0x31 \<or> 0x39 < hd e)"
      and res: "res = (if delim_next e then Some (JInt (if sg = [0x2D] then - ucast m else ucast m), e) else None)"
      by (auto simp: short_int_def k False m Let_def split: if_splits)
    obtain ds where ds: "k' = ds @ e" "list_all is_digit ds" "length ds \<le> 2"
      "unat m = (unat (ucast c - 0x30 :: u32) * 10 ^ length ds + dec ds) mod 2 ^ 32"
      using short_digits_run [OF m] by blast
    have cv: "unat (ucast c - 0x30 :: u32) = digit_val c"
      using c by (simp add: is_digit_def digit_val_def unat_sub word_le_nat_alt unat_ucast)
    have int: "int_text (c # ds)" using c ds False by (simp add: int_text_def digits1_def)
    have "dec (c # ds) < 10 ^ length (c # ds)" using c ds by (intro dec_bound) simp
    also have "\<dots> \<le> 10 ^ 3" using ds(3) by (intro power_increasing) simp_all
    finally have small: "dec (c # ds) < 1000" by simp
    then have "unat m = dec (c # ds)" unfolding ds(4) cv by (simp add: dec_Cons)
    from number_of_short [OF this small sg] have "res = (if delim_next e then Some (number_of sg (c # ds) [] [], e) else None)"
      unfolding res by simp
    moreover have "hd e < 0x30 \<or> 0x39 < hd e" if "e \<noteq> []"
    proof -
      have "hd e < 0x31 \<longleftrightarrow> hd e < 0x30 \<or> hd e = 0x30" by (auto simp: word_less_nat_alt word_unat_eq_iff)
      then show ?thesis using e that by blast
    qed
    then have nd: "\<not> digit_next e" using dg [of e] by blast
    moreover have "e = [] \<or> hd e \<noteq> 0x2E \<and> hd e \<noteq> 0x65 \<and> hd e \<noteq> 0x45" using e by blast
    ultimately show ?thesis using full_number_plain [OF int nd _ sg] unfolding k ds(1) by simp
  qed
qed

lemma number_shape_tail:
  assumes "digit_next k"
  shows "(if hd k = 0x30 then tl k else dropWhile is_digit k) = snd (snd (int_part k))"
proof (cases "hd k = 0x30")
  case False
  obtain ds q mag ov where d: "k = ds @ q" "int_text ds" "int_part k = (mag, ov, q)" "hd ds \<noteq> 0x30 \<longrightarrow> \<not> digit_next q"
    by (rule int_part_exact [OF assms])
  then have "dropWhile is_digit k = q" using False digits1_run [of ds q] by (auto simp: int_text_def digits1_def)
  then show ?thesis using d False by simp
qed (simp add: int_part_def)

lemma number_scan_full:
  "yep_json_number_scan s =
     (let sg = (if s \<noteq> [] \<and> hd s = 0x2D then [0x2D] else []); k = drop (length sg) s in
      if digit_next k then full_number (sg @ k) (sg = [0x2D]) k else None)"
proof (cases "s = []")
  case False
  define sg where "sg = (if hd s = 0x2D then [0x2D] else [] :: byte list)"
  define k where "k = drop (length sg) s"
  have s: "s = sg @ k" "(if sg = [0x2D] then tl s else s) = k" "(hd s = 0x2D) = (sg = [0x2D])"
    using False by (cases s; auto simp: sg_def k_def)+
  have "short_int (sg = [0x2D]) k = Some r \<Longrightarrow> digit_next k \<Longrightarrow> full_number (sg @ k) (sg = [0x2D]) k = r" for r
    using short_int_settles [of k sg r] by (auto simp: sg_def)
  then have "yep_json_number_scan s = (if digit_next k then full_number s (sg = [0x2D]) k else None)"
    using False unfolding yep_json_number_scan_def Let_def s(3) s(2) s(1) [symmetric] by (simp split: option.split)
  moreover have "(if s \<noteq> [] \<and> hd s = 0x2D then [0x2D] else []) = sg" using False by (simp add: sg_def)
  ultimately show ?thesis unfolding Let_def by (simp only: k_def [symmetric] s(1) [symmetric])
qed (simp add: yep_json_number_scan_def digit_next_def)

lemma number_scan_grammar:
  "yep_json_number_scan s = Some (n, r) \<longleftrightarrow>
     (\<exists>sg ds f e. s = sg @ ds @ f @ e @ r \<and> number_text sg ds f e \<and> delim_next r \<and> n = number_of sg ds f e)" (is "_ \<longleftrightarrow> ?R")
proof -
  define sg where "sg = (if s \<noteq> [] \<and> hd s = 0x2D then [0x2D] else [] :: byte list)"
  define k where "k = drop (length sg) s"
  have s: "s = sg @ k" and sg: "sg = [] \<or> sg = [0x2D]" by (cases s; auto simp: sg_def k_def)+
  have uniq: "sg' = sg \<and> digit_next k \<and> k = ds @ q" if "s = sg' @ ds @ q" "sg' = [] \<or> sg' = [0x2D]" "int_text ds" for sg' ds q
    using that by (cases ds) (auto simp: sg_def k_def int_text_def digits1_def digit_next_def is_digit_def)
  have "yep_json_number_scan s = Some (n, r) \<longleftrightarrow> digit_next k \<and> full_number (sg @ k) (sg = [0x2D]) k = Some (n, r)"
    unfolding number_scan_full Let_def by (simp flip: sg_def k_def)
  also have "\<dots> \<longleftrightarrow> digit_next k \<and>
      (\<exists>ds f e. k = ds @ f @ e @ r \<and> int_text ds \<and> frac_text f \<and> exp_text e \<and> delim_next r \<and> n = number_of sg ds f e)"
    using full_number_exact [OF _ sg] by blast
  also have "\<dots> \<longleftrightarrow> ?R"
    unfolding number_text_def using uniq s sg by blast
  finally show ?thesis .
qed

lemma number_shape_scan:
  "yep_json_number_shape s = map_option (\<lambda>(n, r). ((\<exists>t. n = JFloat t), r)) (yep_json_number_scan s)"
proof (cases "s = []")
  case False
  define sg where "sg = (if s \<noteq> [] \<and> hd s = 0x2D then [0x2D] else [] :: byte list)"
  define k where "k = drop (length sg) s"
  have k: "(if hd s = 0x2D then tl s else s) = k" using False by (cases s) (auto simp: sg_def k_def)
  have "yep_json_number_shape s = (if digit_next k then number_tail (snd (snd (int_part k))) else None)"
    using False unfolding yep_json_number_shape_def Let_def k number_tail_def by (simp add: number_shape_tail cong: if_cong)
  moreover have "map_option (\<lambda>(n, r). ((\<exists>t. n = JFloat t), r)) (full_number (sg @ k) (sg = [0x2D]) k) = number_tail (snd (snd (int_part k)))"
    unfolding full_number_parts
    by (cases "int_part k"; cases "number_tail (snd (snd (int_part k)))") (simp_all add: number_value_def Let_def split: prod.split)
  ultimately show ?thesis unfolding number_scan_full Let_def by (simp flip: sg_def k_def)
qed (simp add: yep_json_number_shape_def yep_json_number_scan_def)

text \<open>
  C31. The number scanner accepts exactly the RFC 8259 numbers that a delimiter or the end of
  the text follows, consumes exactly the number, and yields its value: the integer when it
  fits 64 signed bits (the most negative one included), otherwise the whole text for the
  float converter, classed as a float or as a big integer. The validating and the lazy
  variant accept the same texts, consume the same bytes and agree on the shape. So the
  three-digit path and the eight-digits-at-once multiplications change nothing.
\<close>

theorem number_scan_exact:
  "(yep_json_number_scan s = Some (n, r) \<longleftrightarrow>
      (\<exists>sg ds f e. s = sg @ ds @ f @ e @ r \<and> number_text sg ds f e \<and> delim_next r \<and> n = number_of sg ds f e)) \<and>
   yep_json_number s = map_option snd (yep_json_number_scan s) \<and>
   yep_json_number_shape s = map_option (\<lambda>(n, r). ((\<exists>t. n = JFloat t), r)) (yep_json_number_scan s)"
  using number_scan_grammar number_shape_scan by (simp add: yep_json_number_def)

end
