(* ===== verification/Json.thy ===== *)
theory Json
  imports Json_Number_Facts Kernels
begin

text \<open>
  The strict-JSON grammar of \<^verbatim>\<open>src/yeptris/scan/json.c\<close>: literals, strings, the document
  validator and the span walker. A cursor is the suffix of the buffer that starts at it; an
  offset is recovered from the lengths. The active text kernels are the scalar reference ones.
\<close>

section \<open>White space and literals\<close>

definition jv_blank :: "byte \<Rightarrow> bool" where
  "jv_blank c \<longleftrightarrow> c = 0x20 \<or> c = 0x09 \<or> c = 0x0A \<or> c = 0x0D"

text \<open>\<^verbatim>\<open>jv_ws\<close> reports the end of the input: here the empty suffix.\<close>

fun jv_ws :: "byte list \<Rightarrow> byte list" where
  "jv_ws [] = []"
| "jv_ws (c # s) = (if jv_blank c then jv_ws s else c # s)"

text \<open>\<^verbatim>\<open>yep_json_ws\<close>: 1 at a token byte, -1 at the end, 0 at a tab (then \<^verbatim>\<open>saw_tab\<close> is set).\<close>

fun yep_json_ws :: "byte list \<Rightarrow> bool \<Rightarrow> int \<times> byte list \<times> bool" where
  "yep_json_ws [] saw_tab = (- 1, [], saw_tab)"
| "yep_json_ws (c # s) saw_tab =
     (if c = 0x20 \<or> c = 0x0A \<or> c = 0x0D then yep_json_ws s saw_tab
      else if c = 0x09 then (0, c # s, True)
      else (1, c # s, saw_tab))"

text \<open>The verdict and where the cursor is left: a failed delimiter test leaves it past the word.\<close>

fun literal_match :: "byte list \<Rightarrow> byte list \<Rightarrow> byte list option" where
  "literal_match s [] = Some s"
| "literal_match [] (w # ws) = None"
| "literal_match (c # s) (w # ws) = (if c \<noteq> w then None else literal_match s ws)"

definition yep_json_literal :: "byte list \<Rightarrow> byte list \<Rightarrow> bool \<times> byte list" where
  "yep_json_literal s word =
     (case literal_match s word of
        None \<Rightarrow> (False, s)
      | Some r \<Rightarrow> (delim_next r, r))"

section \<open>Strings\<close>

definition hexval :: "byte \<Rightarrow> int" where
  "hexval c =
     (if 0x30 \<le> c \<and> c \<le> 0x39 then uint c - 0x30
      else if 0x61 \<le> c \<and> c \<le> 0x66 then uint c - 0x61 + 10
      else if 0x41 \<le> c \<and> c \<le> 0x46 then uint c - 0x41 + 10
      else - 1)"

text \<open>Four hex digits folded into a code, \<^verbatim>\<open>cp = (cp << 4) | hexval(...)\<close>.\<close>

definition hex_fold :: "byte list \<Rightarrow> u32" where
  "hex_fold ds = foldl (\<lambda>cp d. push_bit 4 cp OR of_int (hexval d)) 0 ds"

text \<open>The suffix starts at the backslash; the result is the suffix after the escape.\<close>

definition yep_json_escape :: "byte list \<Rightarrow> byte list option" where
  "yep_json_escape s =
     (if length s \<le> 1 then None
      else
        let e2 = s ! 1 in
        if e2 = 0x75 then
          if length s \<le> 5 \<or> \<not> list_all (\<lambda>c. yep_ct_is c YEP_CT_HEXDIGIT) (take 4 (drop 2 s)) then None
          else
            let cp = hex_fold (take 4 (drop 2 s)) in
            if 0xD800 \<le> cp \<and> cp \<le> 0xDBFF then
              if length s \<le> 12 \<or> s ! 6 \<noteq> 0x5C \<or> s ! 7 \<noteq> 0x75 then None
              else if \<not> list_all (\<lambda>c. yep_ct_is c YEP_CT_HEXDIGIT) (take 4 (drop 8 s)) then None
              else
                let lo = hex_fold (take 4 (drop 8 s)) in
                if lo < 0xDC00 \<or> 0xDFFF < lo then None else Some (drop 12 s)
            else if 0xDC00 \<le> cp \<and> cp \<le> 0xDFFF then None
            else Some (drop 6 s)
        else if e2 \<noteq> 0x22 \<and> e2 \<noteq> 0x5C \<and> e2 \<noteq> 0x2F \<and> e2 \<noteq> 0x62 \<and> e2 \<noteq> 0x66 \<and> e2 \<noteq> 0x6E \<and> e2 \<noteq> 0x72 \<and> e2 \<noteq> 0x74
        then None
        else Some (drop 2 s))"

text \<open>The short path: at most eight bytes, settled only by a closing quote.\<close>

fun short_string :: "nat \<Rightarrow> byte list \<Rightarrow> byte list option" where
  "short_string (Suc n) (c # s) =
     (if c = 0x22 then Some s
      else if c = 0x5C \<or> c < 0x20 then None
      else short_string n s)"
| "short_string n s = None"

lemma yep_json_escape_shrinks: "yep_json_escape s = Some r \<Longrightarrow> length r < length s"
  by (auto simp: yep_json_escape_def Let_def split: if_splits)

lemma find_loop_bound: "find_loop hit s i = Some n \<Longrightarrow> i \<le> n \<and> n < i + length s"
  by (induction s arbitrary: i) (fastforce split: if_splits)+

function string_loop :: "byte list \<Rightarrow> bool \<Rightarrow> (bool \<times> byte list) option" where
  "string_loop j esc =
     (case yep_text_qbc_find_scalar j of
        None \<Rightarrow> None
      | Some r \<Rightarrow>
          let at = drop r j in
          if hd at = 0x22 then Some (esc, tl at)
          else if hd at \<noteq> 0x5C then None
          else (case yep_json_escape at of None \<Rightarrow> None | Some j' \<Rightarrow> string_loop j' True))"
  by pat_completeness auto
termination
proof (relation "measure (\<lambda>(j, esc). length j)", goal_cases)
  case (2 j esc r at j')
  then have "length j' < length at" using yep_json_escape_shrinks by blast
  then show ?case using 2(2) by simp
qed simp

declare string_loop.simps [simp del]

text \<open>
  The suffix starts at the opening quote. The result: whether an escape is present and the
  suffix after the closing quote.
\<close>

definition yep_json_string :: "byte list \<Rightarrow> (bool \<times> byte list) option" where
  "yep_json_string s =
     (case short_string 8 (tl s) of
        Some r \<Rightarrow> Some (False, r)
      | None \<Rightarrow> string_loop (tl s) False)"

lemma string_loop_shrinks: "string_loop j esc = Some (b, r) \<Longrightarrow> length r < length j"
proof (induction j esc rule: string_loop.induct)
  case (1 j esc)
  from 1(2) obtain n where n: "yep_text_qbc_find_scalar j = Some n"
    by (subst (asm) string_loop.simps) (auto split: option.splits)
  define at where "at = drop n j"
  have ne: "at \<noteq> []"
    using n by (auto simp: at_def yep_text_qbc_find_scalar_def dest: find_loop_bound)
  show ?case
  proof (cases "hd at = 0x22")
    case True
    then have "r = tl at" using 1(2) n by (subst (asm) string_loop.simps) (simp add: at_def)
    then have "length r < length at" using ne by (cases at) auto
    then show ?thesis by (simp add: at_def)
  next
    case False
    then obtain j' where j': "hd at = 0x5C" "yep_json_escape at = Some j'" "string_loop j' True = Some (b, r)"
      using 1(2) n by (subst (asm) string_loop.simps) (auto simp: at_def Let_def split: if_splits option.splits)
    have "length r < length j'" using 1(1) [OF n at_def] False j' by simp
    also have "\<dots> < length at" using yep_json_escape_shrinks [OF j'(2)] .
    finally show ?thesis by (simp add: at_def)
  qed
qed

lemma short_string_shrinks: "short_string n s = Some r \<Longrightarrow> length r < length s"
  by (induction n s rule: short_string.induct) (auto split: if_splits)

lemma yep_json_string_shrinks: "s \<noteq> [] \<Longrightarrow> yep_json_string s = Some (b, r) \<Longrightarrow> length r < length s"
  using short_string_shrinks [of 8 "tl s" r] string_loop_shrinks [of "tl s" False b r]
  by (cases s) (auto simp: yep_json_string_def split: option.splits)

lemma yep_json_number_shrinks: "yep_json_number_scan s = Some (n, r) \<Longrightarrow> length r < length s"
  by (auto simp: number_scan_grammar number_text_def int_text_def digits1_def)

lemma literal_match_iff: "literal_match s w = Some r \<longleftrightarrow> s = w @ r"
  by (induction s w rule: literal_match.induct) auto

section \<open>The document validator\<close>

datatype json_expect =
  JV_VALUE_OR_CLOSE | JV_VALUE | JV_KEY_OR_CLOSE | JV_KEY | JV_COLON | JV_COMMA_OR_CLOSE

text \<open>
  A frame is the pair of \<^verbatim>\<open>kind\<close> (is it a map) and \<^verbatim>\<open>expect\<close>; the two arrays up to \<^verbatim>\<open>depth\<close> are
  the list of frames, innermost first.
\<close>

type_synonym json_frame = "bool \<times> json_expect"

definition JX_MAX_DEPTH :: nat where
  "JX_MAX_DEPTH = 256"

text \<open>
  One scalar at the token byte: \<open>Inl\<close> where the cursor is left by a failure, \<open>Inr\<close> the suffix
  after the scalar.
\<close>

definition doc_scalar :: "byte list \<Rightarrow> byte list + byte list" where
  "doc_scalar s =
     (let c = hd s in
      if c = 0x22 then (case yep_json_string s of None \<Rightarrow> Inl s | Some (he, r) \<Rightarrow> Inr r)
      else if c = 0x2D \<or> is_digit c then (case yep_json_number s of None \<Rightarrow> Inl s | Some r \<Rightarrow> Inr r)
      else if c = 0x74 then (case yep_json_literal s (bytes_of ''true'') of (ok, r) \<Rightarrow> if ok then Inr r else Inl r)
      else if c = 0x66 then (case yep_json_literal s (bytes_of ''false'') of (ok, r) \<Rightarrow> if ok then Inr r else Inl r)
      else if c = 0x6E then (case yep_json_literal s (bytes_of ''null'') of (ok, r) \<Rightarrow> if ok then Inr r else Inl r)
      else Inl s)"

definition closable :: "json_expect \<Rightarrow> bool" where
  "closable e \<longleftrightarrow> \<not> (e \<noteq> JV_VALUE_OR_CLOSE \<and> e \<noteq> JV_KEY_OR_CLOSE \<and> e \<noteq> JV_COMMA_OR_CLOSE)"

text \<open>
  One turn of the loop at a token byte \<open>c\<close>, the suffix \<open>s\<close> starting with it: the error offset
  (as a suffix), the end of the root value, or the next frames and cursor.
  \<^verbatim>\<open>root_done\<close> is set right before the loop is left and so never seen inside it.
\<close>

datatype doc_turn = Doc_Error "byte list" | Doc_Root "byte list" | Doc_Next "json_frame list" "byte list"

definition doc_close :: "json_frame list \<Rightarrow> byte list \<Rightarrow> doc_turn" where
  "doc_close frames s =
     (let want = (hd s \<noteq> 0x5D) in
      if length frames = 1 \<or> fst (hd frames) \<noteq> want \<or> \<not> closable (snd (hd frames)) then Doc_Error s
      else
        let frames = tl frames in
        if length frames = 1 then Doc_Root (tl s)
        else Doc_Next ((fst (hd frames), JV_COMMA_OR_CLOSE) # tl frames) (tl s))"

definition doc_open :: "json_frame list \<Rightarrow> byte list \<Rightarrow> doc_turn" where
  "doc_open frames s =
     (if JX_MAX_DEPTH \<le> length frames then Doc_Error s
      else if fst (hd frames) \<and> (snd (hd frames) = JV_KEY_OR_CLOSE \<or> snd (hd frames) = JV_KEY) then Doc_Error s
      else
        let kind = (hd s \<noteq> 0x5B) in
        Doc_Next ((kind, if kind then JV_KEY_OR_CLOSE else JV_VALUE_OR_CLOSE) # frames) (tl s))"

definition doc_value :: "json_frame list \<Rightarrow> byte list \<Rightarrow> doc_turn" where
  "doc_value frames s =
     (case doc_scalar s of
        Inl e \<Rightarrow> Doc_Error e
      | Inr r \<Rightarrow>
          if length frames = 1 then Doc_Root r
          else if fst (hd frames) \<and> snd (hd frames) = JV_KEY_OR_CLOSE then
            if hd s \<noteq> 0x22 then Doc_Error r else Doc_Next ((True, JV_COLON) # tl frames) r
          else if fst (hd frames) \<and> snd (hd frames) = JV_KEY then
            if hd s \<noteq> 0x22 then Doc_Error r else Doc_Next ((True, JV_COLON) # tl frames) r
          else Doc_Next ((fst (hd frames), JV_COMMA_OR_CLOSE) # tl frames) r)"

definition doc_turn :: "json_frame list \<Rightarrow> byte list \<Rightarrow> doc_turn" where
  "doc_turn frames s =
     (let c = hd s; (kind, expect) = hd frames in
      if c = 0x5D \<or> c = 0x7D then doc_close frames s
      else if expect = JV_COLON then
        if c \<noteq> 0x3A then Doc_Error s else Doc_Next ((kind, JV_VALUE) # tl frames) (tl s)
      else if expect = JV_COMMA_OR_CLOSE then
        if c \<noteq> 0x2C then Doc_Error s else Doc_Next ((kind, if kind then JV_KEY else JV_VALUE) # tl frames) (tl s)
      else if c = 0x7B \<or> c = 0x5B then doc_open frames s
      else doc_value frames s)"

lemma jv_ws_drop: "jv_ws s = dropWhile jv_blank s"
  by (induction s) auto

lemma doc_scalar_shrinks: "s \<noteq> [] \<Longrightarrow> doc_scalar s = Inr r \<Longrightarrow> length r < length s"
  using yep_json_string_shrinks [of s _ r] yep_json_number_shrinks [of s _ r]
  by (auto simp: doc_scalar_def Let_def yep_json_number_def yep_json_literal_def literal_match_iff
      split: if_splits option.splits prod.splits)

lemma doc_turn_shrinks: "s \<noteq> [] \<Longrightarrow> doc_turn fs s = Doc_Next fs' s' \<Longrightarrow> length s' < length s"
  using doc_scalar_shrinks [of s s']
  by (auto simp: doc_turn_def doc_close_def doc_open_def doc_value_def Let_def split: if_splits prod.splits sum.splits)

function doc_loop :: "json_frame list \<Rightarrow> byte list \<Rightarrow> byte list + byte list" where
  "doc_loop frames s =
     (let s = jv_ws s in
      if s = [] then Inl s
      else (case doc_turn frames s of
              Doc_Error e \<Rightarrow> Inl e
            | Doc_Root r \<Rightarrow> Inr r
            | Doc_Next frames s \<Rightarrow> doc_loop frames s))"
  by pat_completeness auto
termination
proof (relation "measure (\<lambda>(fs, s). length s)", goal_cases)
  case (2 frames s s1 frames' s')
  then have "length s' < length (jv_ws s)" using doc_turn_shrinks by blast
  also have "\<dots> \<le> length s" by (simp add: jv_ws_drop length_dropWhile_le)
  finally show ?case by simp
qed simp

declare doc_loop.simps [simp del]

text \<open>\<open>None\<close>: the document is valid; \<open>Some e\<close>: it is not, and \<open>e\<close> is the offset stored in \<^verbatim>\<open>*err\<close>.\<close>

definition yep_json_document :: "byte list \<Rightarrow> nat option" where
  "yep_json_document p =
     (let s = jv_ws p in
      if s = [] then Some (length p - length s)
      else (case doc_loop [(False, JV_VALUE)] s of
              Inl e \<Rightarrow> Some (length p - length e)
            | Inr r \<Rightarrow> (let r = jv_ws r in if r = [] then None else Some (length p - length r))))"

section \<open>The span walker\<close>

text \<open>
  The states of the walker are those of the validator. The pointer and length are the buffer
  \<open>jw_p\<close>, the cursor is the suffix \<open>jw_i\<close>, the arrays up to \<^verbatim>\<open>depth\<close> the frames, innermost first.
  The number fields of a token (\<^verbatim>\<open>nshape\<close>, \<^verbatim>\<open>ival\<close>, \<^verbatim>\<open>dval\<close>, \<^verbatim>\<open>is_float\<close>) are those of the last
  number delivered.
\<close>

record yep_json_walk =
  jw_p :: "byte list"
  jw_max_depth :: int
  jw_i :: "byte list"
  jw_close :: nat
  jw_long_key :: bool
  jw_saw_tab :: bool
  jw_strict :: bool
  jw_frames :: "json_frame list"

record yep_json_tok =
  tok_at :: nat
  tok_end :: nat
  tok_cls :: byte
  tok_has_escape :: bool
  tok_num :: "json_num option"

datatype yep_jw_status = YEP_JW_OK | YEP_JW_DONE | YEP_JW_REJECT

definition YEP_JSON_WALK_DEPTH :: nat where
  "YEP_JSON_WALK_DEPTH = 256"

definition JW_SIMPLE_KEY_MAX :: nat where
  "JW_SIMPLE_KEY_MAX = 1024"

definition yep_json_walk_init :: "byte list \<Rightarrow> nat \<Rightarrow> int \<Rightarrow> yep_json_walk" where
  "yep_json_walk_init p open max_depth =
     (let kind = (p ! open \<noteq> 0x5B) in
      \<lparr>jw_p = p, jw_max_depth = max_depth, jw_i = drop (open + 1) p, jw_close = 0, jw_long_key = False,
       jw_saw_tab = False, jw_strict = False,
       jw_frames = [(kind, if kind then JV_KEY_OR_CLOSE else JV_VALUE_OR_CLOSE)]\<rparr>)"

definition walk_pos :: "yep_json_walk \<Rightarrow> byte list \<Rightarrow> nat" where
  "walk_pos w s = length (jw_p w) - length s"

definition walk_expect :: "yep_json_walk \<Rightarrow> json_expect \<Rightarrow> byte list \<Rightarrow> yep_json_walk" where
  "walk_expect w e s = w\<lparr>jw_frames := (fst (hd (jw_frames w)), e) # tl (jw_frames w), jw_i := s\<rparr>"

definition key_expected :: "yep_json_walk \<Rightarrow> bool" where
  "key_expected w \<longleftrightarrow> fst (hd (jw_frames w)) \<and>
     (snd (hd (jw_frames w)) = JV_KEY_OR_CLOSE \<or> snd (hd (jw_frames w)) = JV_KEY)"

definition walk_close :: "yep_json_walk \<Rightarrow> yep_json_tok \<Rightarrow> yep_jw_status \<times> yep_json_walk \<times> yep_json_tok" where
  "walk_close w t =
     (let s = jw_i w; c = hd s; i = walk_pos w s; want = (c \<noteq> 0x5D); (kind, expect) = hd (jw_frames w) in
      if kind \<noteq> want \<or> \<not> closable expect then (YEP_JW_REJECT, w, t)
      else
        let t = t\<lparr>tok_at := i, tok_end := i + 1, tok_cls := c, tok_has_escape := False\<rparr>;
            w = w\<lparr>jw_frames := tl (jw_frames w), jw_i := tl s\<rparr>
        in if length (jw_frames w) = 0 then (YEP_JW_DONE, w\<lparr>jw_close := i\<rparr>, t)
           else (YEP_JW_OK, walk_expect w JV_COMMA_OR_CLOSE (tl s), t))"

definition walk_open :: "yep_json_walk \<Rightarrow> yep_json_tok \<Rightarrow> yep_jw_status \<times> yep_json_walk \<times> yep_json_tok" where
  "walk_open w t =
     (let s = jw_i w; c = hd s; i = walk_pos w s; depth = length (jw_frames w) in
      if YEP_JSON_WALK_DEPTH \<le> depth \<or> jw_max_depth w \<le> int depth then (YEP_JW_REJECT, w, t)
      else if key_expected w \<and> jw_strict w then (YEP_JW_REJECT, w, t)
      else
        let t = t\<lparr>tok_at := i, tok_end := i + 1, tok_cls := c, tok_has_escape := False\<rparr>;
            kind = (c \<noteq> 0x5B)
        in (YEP_JW_OK,
            w\<lparr>jw_frames := (kind, if kind then JV_KEY_OR_CLOSE else JV_VALUE_OR_CLOSE) # jw_frames w, jw_i := tl s\<rparr>, t))"

text \<open>A scalar token; the flag tells whether the text was accepted.\<close>

definition walk_scalar :: "yep_json_walk \<Rightarrow> yep_json_tok \<Rightarrow> bool \<times> yep_json_walk \<times> yep_json_tok" where
  "walk_scalar w t =
     (let s = jw_i w; c = hd s; i = walk_pos w s; t = t\<lparr>tok_at := i, tok_has_escape := False\<rparr> in
      if c = 0x22 then
        (case yep_json_string s of
           None \<Rightarrow> (False, w, t)
         | Some (he, r) \<Rightarrow>
             let e = walk_pos w r in
             (True,
              w\<lparr>jw_i := r, jw_long_key := jw_long_key w \<or> (key_expected w \<and> JW_SIMPLE_KEY_MAX < e - i)\<rparr>,
              t\<lparr>tok_cls := 0x22, tok_end := e, tok_has_escape := he\<rparr>))
      else if c = 0x2D \<or> is_digit c then
        (case yep_json_number_scan s of
           None \<Rightarrow> (False, w, t)
         | Some (n, r) \<Rightarrow>
             (True, w\<lparr>jw_i := r\<rparr>, t\<lparr>tok_num := Some n, tok_cls := 0x23, tok_end := walk_pos w r\<rparr>))
      else if c = 0x74 \<or> c = 0x66 \<or> c = 0x6E then
        let word = (if c = 0x74 then bytes_of ''true'' else if c = 0x66 then bytes_of ''false'' else bytes_of ''null'') in
        (case yep_json_literal s word of
           (ok, r) \<Rightarrow>
             if \<not> ok then (False, w\<lparr>jw_i := r\<rparr>, t)
             else (True, w\<lparr>jw_i := r\<rparr>, t\<lparr>tok_cls := 0x61, tok_end := walk_pos w r\<rparr>))
      else (False, w, t))"

definition walk_value :: "yep_json_walk \<Rightarrow> yep_json_tok \<Rightarrow> yep_jw_status \<times> yep_json_walk \<times> yep_json_tok" where
  "walk_value w t =
     (case walk_scalar w t of
        (ok, w, t) \<Rightarrow>
          if \<not> ok then (YEP_JW_REJECT, w, t)
          else
            let (kind, expect) = hd (jw_frames w) in
            if kind \<and> expect = JV_KEY_OR_CLOSE then
              if jw_strict w \<and> tok_cls t \<noteq> 0x22 then (YEP_JW_REJECT, w, t)
              else (YEP_JW_OK, walk_expect w JV_COLON (jw_i w), t)
            else if kind \<and> expect = JV_KEY then
              if tok_cls t \<noteq> 0x22 then (YEP_JW_REJECT, w, t)
              else (YEP_JW_OK, walk_expect w JV_COLON (jw_i w), t)
            else (YEP_JW_OK, walk_expect w JV_COMMA_OR_CLOSE (jw_i w), t))"

text \<open>One turn of the loop at a token byte; \<open>None\<close> is \<^verbatim>\<open>continue\<close> (a colon or a comma was taken).\<close>

definition walk_turn ::
    "yep_json_walk \<Rightarrow> yep_json_tok \<Rightarrow> yep_jw_status option \<times> yep_json_walk \<times> yep_json_tok" where
  "walk_turn w t =
     (let s = jw_i w; c = hd s; (kind, expect) = hd (jw_frames w) in
      if c = 0x5D \<or> c = 0x7D then map_prod Some id (walk_close w t)
      else if expect = JV_COLON then
        if c \<noteq> 0x3A then (Some YEP_JW_REJECT, w, t) else (None, walk_expect w JV_VALUE (tl s), t)
      else if expect = JV_COMMA_OR_CLOSE then
        if c \<noteq> 0x2C then (Some YEP_JW_REJECT, w, t)
        else (None, walk_expect w (if kind then JV_KEY else JV_VALUE) (tl s), t)
      else if c = 0x7B \<or> c = 0x5B then map_prod Some id (walk_open w t)
      else map_prod Some id (walk_value w t))"

lemma json_ws_token: "yep_json_ws s tab = (1, s', tab') \<Longrightarrow> s' \<noteq> [] \<and> length s' \<le> length s"
  by (induction s) (auto split: if_splits)

lemma walk_turn_continue:
  "walk_turn w t = (None, w', t') \<Longrightarrow> jw_i w' = tl (jw_i w) \<and> t' = t"
  by (auto simp: walk_turn_def walk_expect_def Let_def map_prod_def split: if_splits prod.splits)

lemma walk_next_shrinks:
  assumes "yep_json_ws (jw_i w) tab = (1, s, tab')" "walk_turn (w\<lparr>jw_i := s, jw_saw_tab := tab'\<rparr>) t = (None, w', t')"
  shows "length (jw_i w') < length (jw_i w)"
proof -
  have "jw_i w' = tl s" using walk_turn_continue [OF assms(2)] by simp
  then show ?thesis using json_ws_token [OF assms(1)] by (cases s) auto
qed

function yep_json_walk_next ::
    "yep_json_walk \<Rightarrow> yep_json_tok \<Rightarrow> yep_jw_status \<times> yep_json_walk \<times> yep_json_tok" where
  "yep_json_walk_next w t =
     (case yep_json_ws (jw_i w) (jw_saw_tab w) of
        (k, s, tab) \<Rightarrow>
          if k \<noteq> 1 then (YEP_JW_REJECT, w\<lparr>jw_i := s, jw_saw_tab := tab\<rparr>, t)
          else
            (case walk_turn (w\<lparr>jw_i := s, jw_saw_tab := tab\<rparr>) t of
               (None, w', t') \<Rightarrow> yep_json_walk_next w' t'
             | (Some st, w', t') \<Rightarrow> (st, w', t')))"
  by pat_completeness auto
termination by (relation "measure (\<lambda>(w, t). length (jw_i w))") (auto intro!: walk_next_shrinks [OF sym sym])

declare yep_json_walk_next.simps [simp del]

end
