(* ===== verification/Json_Machine.thy ===== *)
theory Json_Machine
  imports Json Byte_Classes
begin

text \<open>
  The JSON grammar and the pushdown machine that decides it: the escapes and strings (with
  those of RFC 8259 beside the strict ones, which pair their surrogates), the grammar of values as an
  inductive predicate, the rest of a container as the machine sees it, and
  the locale \<open>json_machine\<close>, the interface that the validator and the walker share, in which
  the machine is proved to accept exactly the grammar.
\<close>

section \<open>Escapes\<close>

definition hex_nat :: "byte list \<Rightarrow> nat" where
  "hex_nat ds = foldl (\<lambda>a d. 16 * a + nat (hexval d)) 0 ds"

definition hex4 :: "byte list \<Rightarrow> bool" where
  "hex4 h \<longleftrightarrow> length h = 4 \<and> list_all is_hex h"

text \<open>The escape sequences of a JSON string; a surrogate escape comes as a high-low pair.\<close>

definition escape_text :: "byte list \<Rightarrow> bool" where
  "escape_text x \<longleftrightarrow>
     (\<exists>c \<in> set ([0x22, 0x5C] @ bytes_of ''/bfnrt''). x = [0x5C, c]) \<or>
     (\<exists>h. x = [0x5C, 0x75] @ h \<and> hex4 h \<and> \<not> (0xD800 \<le> hex_nat h \<and> hex_nat h \<le> 0xDFFF)) \<or>
     (\<exists>h l. x = [0x5C, 0x75] @ h @ [0x5C, 0x75] @ l \<and> hex4 h \<and> hex4 l \<and>
        0xD800 \<le> hex_nat h \<and> hex_nat h \<le> 0xDBFF \<and> 0xDC00 \<le> hex_nat l \<and> hex_nat l \<le> 0xDFFF)"

lemma hexval_range: "is_hex c \<Longrightarrow> 0 \<le> hexval c \<and> hexval c < 16"
  by (auto simp: is_hex_def is_digit_def hexval_def word_le_def)

lemma hex_fold_nat:
  assumes "list_all is_hex ds"
  shows "foldl (\<lambda>cp d. push_bit 4 cp OR of_int (hexval d)) (of_nat a :: u32) ds =
    of_nat (foldl (\<lambda>a d. 16 * a + nat (hexval d)) a ds)"
  using assms
proof (induction ds arbitrary: a)
  case (Cons d ds)
  have d: "0 \<le> hexval d" "hexval d < 16" using hexval_range Cons.prems by simp_all
  have "unat (of_int (hexval d) :: u32) = nat (hexval d)"
    using d by (simp add: unsigned_of_int take_bit_eq_mod)
  moreover have "2 ^ 4 dvd unat (push_bit 4 (of_nat a :: u32))"
    by (simp add: unat_push_bit dvd_mod)
  ultimately have u: "unat (push_bit 4 (of_nat a :: u32) OR of_int (hexval d)) = unat (push_bit 4 (of_nat a :: u32)) + nat (hexval d)"
    using d by (subst unat_or_disjoint [of 4]) simp_all
  have "push_bit 4 (of_nat a :: u32) OR of_int (hexval d) = of_nat (unat (push_bit 4 (of_nat a :: u32) OR of_int (hexval d)))"
    by simp
  also have "\<dots> = push_bit 4 (of_nat a) + of_nat (nat (hexval d))" unfolding u by simp
  also have "\<dots> = of_nat (16 * a + nat (hexval d))" by (simp add: push_bit_eq_mult)
  finally show ?case using Cons.IH [of "16 * a + nat (hexval d)"] Cons.prems by (simp del: of_nat_add of_nat_mult)
qed simp

lemma hex_fold_cmp:
  assumes "hex4 h"
  shows "hex_nat h < 65536" and "unat (hex_fold h) = hex_nat h"
proof -
  obtain a b c d where h: "h = [a, b, c, d]" using assms by (auto simp: hex4_def length_Suc_conv numeral_eq_Suc)
  have "hexval x < 16" if "x \<in> set h" for x using that assms hexval_range by (auto simp: hex4_def list_all_iff)
  then have "nat (hexval a) \<le> 15" "nat (hexval b) \<le> 15" "nat (hexval c) \<le> 15" "nat (hexval d) \<le> 15"
    by (force simp: h)+
  then show l: "hex_nat h < 65536" unfolding h hex_nat_def by simp
  have "hex_fold h = of_nat (hex_nat h)"
    using hex_fold_nat [of h 0] assms by (simp add: hex_fold_def hex_nat_def hex4_def)
  then show "unat (hex_fold h) = hex_nat h"
    using l by (simp add: unsigned_of_nat take_bit_eq_mod)
qed

lemma take4_hex: "4 \<le> length s \<Longrightarrow> list_all is_hex (take 4 s) \<longleftrightarrow> hex4 (take 4 s)"
  by (simp add: hex4_def)

lemma json_escape_sound:
  assumes "yep_json_escape s = Some r" "hd s = 0x5C"
  shows "\<exists>x. s = x @ r \<and> escape_text x"
proof -
  obtain c s2 where s: "s = 0x5C # c # s2" using assms by (cases s; cases "tl s") (auto simp: yep_json_escape_def)
  show ?thesis
  proof (cases "c = 0x75")
    case False
    then have "r = s2" "c \<in> set ([0x22, 0x5C] @ bytes_of ''/bfnrt'')"
      using assms(1) by (auto simp: s yep_json_escape_def split: if_splits)
    then show ?thesis using s by (intro exI [of _ "[0x5C, c]"]) (auto simp: escape_text_def)
  next
    case True
    define h where "h = take 4 s2"
    have len: "4 \<le> length s2" and h: "hex4 h"
      using assms(1) by (auto simp: s True yep_json_escape_def Let_def ct_is_class h_def hex4_def split: if_splits)
    have s2: "s2 = h @ drop 4 s2" by (simp add: h_def)
    have cmp: "0xD800 \<le> hex_fold h \<longleftrightarrow> 0xD800 \<le> hex_nat h" "hex_fold h \<le> 0xDBFF \<longleftrightarrow> hex_nat h \<le> 0xDBFF"
      "0xDC00 \<le> hex_fold h \<longleftrightarrow> 0xDC00 \<le> hex_nat h" "hex_fold h \<le> 0xDFFF \<longleftrightarrow> hex_nat h \<le> 0xDFFF"
      using hex_fold_cmp [OF h] by (simp_all add: word_le_nat_alt)
    show ?thesis
    proof (cases "0xD800 \<le> hex_nat h \<and> hex_nat h \<le> 0xDBFF")
      case hi: True
      define s3 where "s3 = drop 4 s2"
      define l where "l = take 4 (drop 2 s3)"
      have A: "12 < length s" "s3 ! 0 = 0x5C" "s3 ! 1 = 0x75" "list_all is_hex l" "\<not> (hex_fold l < 0xDC00 \<or> 0xDFFF < hex_fold l)" "r = drop 6 s3"
        using assms(1) hi len by (auto simp: s True yep_json_escape_def Let_def ct_is_class s3_def l_def cmp h_def [symmetric] split: if_splits)
      have l: "hex4 l" using A(1,4) s by (simp add: l_def hex4_def s3_def)
      have "0xDC00 \<le> hex_nat l \<and> hex_nat l \<le> 0xDFFF"
        using A(5) hex_fold_cmp [OF l] by (simp add: word_less_nat_alt)
      moreover have "6 < length s3" using A(1) s by (simp add: s3_def)
      then obtain t where "s3 = 0x5C # 0x75 # t" using A(2,3) by (cases s3; cases "tl s3") auto
      then have "s3 = [0x5C, 0x75] @ l @ r" using A(6) by (simp add: l_def)
      ultimately show ?thesis using s True s2 h l hi unfolding s3_def [symmetric]
        by (intro exI [of _ "[0x5C, 0x75] @ h @ [0x5C, 0x75] @ l"]) (auto simp: escape_text_def)
    next
      case False
      then have "\<not> (0xDC00 \<le> hex_nat h \<and> hex_nat h \<le> 0xDFFF)" "r = drop 4 s2"
        using assms(1) len by (auto simp: s True yep_json_escape_def Let_def ct_is_class cmp h_def [symmetric] split: if_splits)
      then show ?thesis using s True s2 h False
        by (intro exI [of _ "[0x5C, 0x75] @ h"]) (auto simp: escape_text_def)
    qed
  qed
qed

lemma json_escape_complete:
  assumes "escape_text x" "r \<noteq> []"
  shows "yep_json_escape (x @ r) = Some r"
proof -
  have four: "\<exists>a b c d. h = [a, b, c, d] \<and> is_hex a \<and> is_hex b \<and> is_hex c \<and> is_hex d" if "hex4 h" for h
    using that by (auto simp: hex4_def length_Suc_conv numeral_eq_Suc)
  from assms(1) consider
      c where "c \<in> set ([0x22, 0x5C] @ bytes_of ''/bfnrt'')" "x = [0x5C, c]"
    | h where "x = [0x5C, 0x75] @ h" "hex4 h" "\<not> (0xD800 \<le> hex_nat h \<and> hex_nat h \<le> 0xDFFF)"
    | h l where "x = [0x5C, 0x75] @ h @ [0x5C, 0x75] @ l" "hex4 h" "hex4 l"
        "0xD800 \<le> hex_nat h" "hex_nat h \<le> 0xDBFF" "0xDC00 \<le> hex_nat l" "hex_nat l \<le> 0xDFFF"
    unfolding escape_text_def by blast
  then show ?thesis
  proof cases
    case 1
    then show ?thesis by (auto simp: yep_json_escape_def)
  next
    case 2
    have "\<not> (0xD800 \<le> hex_fold h \<and> hex_fold h \<le> 0xDBFF)" "\<not> (0xDC00 \<le> hex_fold h \<and> hex_fold h \<le> 0xDFFF)"
      using 2(3) hex_fold_cmp [OF 2(2)] by (auto simp: word_le_nat_alt)
    moreover obtain a b c d where "h = [a, b, c, d]" "is_hex a" "is_hex b" "is_hex c" "is_hex d" using four [OF 2(2)] by blast
    ultimately show ?thesis by (simp add: 2(1) yep_json_escape_def Let_def ct_is_class) blast
  next
    case 3
    have "0xD800 \<le> hex_fold h \<and> hex_fold h \<le> 0xDBFF" "\<not> (hex_fold l < 0xDC00 \<or> 0xDFFF < hex_fold l)"
      using 3(4-) hex_fold_cmp [OF 3(2)] hex_fold_cmp [OF 3(3)] by (simp_all add: word_le_nat_alt word_less_nat_alt)
    moreover obtain a b c d where "h = [a, b, c, d]" "is_hex a" "is_hex b" "is_hex c" "is_hex d" using four [OF 3(2)] by blast
    moreover obtain a' b' c' d' where "l = [a', b', c', d']" "is_hex a'" "is_hex b'" "is_hex c'" "is_hex d'" using four [OF 3(3)] by blast
    ultimately show ?thesis using assms(2) by (simp add: 3(1) yep_json_escape_def Let_def ct_is_class not_less)
  qed
qed

section \<open>Strings\<close>

text \<open>The characters between the quotes, and whether an escape is among them.\<close>

inductive json_chars :: "bool \<Rightarrow> byte list \<Rightarrow> bool" where
  chars_nil: "json_chars False []"
| chars_raw: "json_chars e (c # s)" if "0x20 \<le> c" "c \<noteq> 0x22" "c \<noteq> 0x5C" "json_chars e s"
| chars_escape: "json_chars True (x @ s)" if "escape_text x" "json_chars e s"

text \<open>
  The strings of RFC 8259, section 7: any four hexadecimal digits may follow \<open>u\<close>. The first argument
  lists the characters, an escaped code unit by its value. The strict grammar above is this one with
  the surrogates in pairs. In both a byte from 0x80 on stands for itself; the encoding is the front end's matter.
\<close>

inductive rfc_chars :: "nat option list \<Rightarrow> byte list \<Rightarrow> bool" where
  rfc_nil: "rfc_chars [] []"
| rfc_raw: "rfc_chars (None # us) (c # s)" if "0x20 \<le> c" "c \<noteq> 0x22" "c \<noteq> 0x5C" "rfc_chars us s"
| rfc_short: "rfc_chars (None # us) ([0x5C, c] @ s)" if "c \<in> set ([0x22, 0x5C] @ bytes_of ''/bfnrt'')" "rfc_chars us s"
| rfc_unit: "rfc_chars (Some (hex_nat h) # us) ([0x5C, 0x75] @ h @ s)" if "hex4 h" "rfc_chars us s"

definition high_unit :: "nat \<Rightarrow> bool" where
  "high_unit v \<longleftrightarrow> 0xD800 \<le> v \<and> v \<le> 0xDBFF"

definition low_unit :: "nat \<Rightarrow> bool" where
  "low_unit v \<longleftrightarrow> 0xDC00 \<le> v \<and> v \<le> 0xDFFF"

fun paired :: "nat option list \<Rightarrow> bool" where
  "paired [] \<longleftrightarrow> True"
| "paired (None # us) \<longleftrightarrow> paired us"
| "paired (Some v # us) \<longleftrightarrow>
     (if high_unit v then (case us of Some l # us' \<Rightarrow> low_unit l \<and> paired us' | _ \<Rightarrow> False)
      else \<not> low_unit v \<and> paired us)"

lemma escape_cases:
  assumes "escape_text x"
  obtains c where "x = [0x5C, c]" "c \<in> set ([0x22, 0x5C] @ bytes_of ''/bfnrt'')"
  | h where "x = [0x5C, 0x75] @ h" "hex4 h" "\<not> high_unit (hex_nat h)" "\<not> low_unit (hex_nat h)"
  | h l where "x = [0x5C, 0x75] @ h @ [0x5C, 0x75] @ l" "hex4 h" "hex4 l" "high_unit (hex_nat h)" "low_unit (hex_nat l)"
  using assms unfolding escape_text_def high_unit_def low_unit_def by (fastforce simp: not_le)

lemma strict_rfc: "json_chars e x \<Longrightarrow> \<exists>us. rfc_chars us x \<and> paired us"
proof (induction rule: json_chars.induct)
  case chars_nil
  then show ?case by (intro exI [of _ "[]"]) (simp add: rfc_nil)
next
  case (chars_raw c e s)
  then obtain us where "rfc_chars us s" "paired us" by blast
  then show ?case using rfc_raw [OF chars_raw(1-3)] by (intro exI [of _ "None # us"]) simp
next
  case (chars_escape x e s)
  then obtain us where us: "rfc_chars us s" "paired us" by blast
  from chars_escape(1) show ?case
  proof (cases rule: escape_cases)
    case (1 c)
    then show ?thesis using rfc_short [OF 1(2) us(1)] us(2) by (intro exI [of _ "None # us"]) simp
  next
    case (2 h)
    then show ?thesis using rfc_unit [OF 2(2) us(1)] us(2) by (intro exI [of _ "Some (hex_nat h) # us"]) simp
  next
    case (3 h l)
    then show ?thesis using rfc_unit [OF 3(2) rfc_unit [OF 3(3) us(1)]] us(2)
      by (intro exI [of _ "Some (hex_nat h) # Some (hex_nat l) # us"]) simp
  qed
qed

inductive_simps rfc_nil_simp: "rfc_chars [] x"

lemma rfc_otherD:
  "rfc_chars (None # us) x \<Longrightarrow>
     (\<exists>c s. x = c # s \<and> 0x20 \<le> c \<and> c \<noteq> 0x22 \<and> c \<noteq> 0x5C \<and> rfc_chars us s) \<or>
     (\<exists>c s. x = [0x5C, c] @ s \<and> c \<in> set ([0x22, 0x5C] @ bytes_of ''/bfnrt'') \<and> rfc_chars us s)"
  by (cases rule: rfc_chars.cases, assumption) (simp_all only: list.inject list.distinct option.distinct simp_thms, metis+)

lemma rfc_unitD: "rfc_chars (Some v # us) x \<Longrightarrow> \<exists>h s. x = [0x5C, 0x75] @ h @ s \<and> hex4 h \<and> v = hex_nat h \<and> rfc_chars us s"
  by (cases rule: rfc_chars.cases, assumption) (simp_all only: list.inject list.distinct option.distinct option.inject simp_thms, metis)

lemma escape_short: "c \<in> set ([0x22, 0x5C] @ bytes_of ''/bfnrt'') \<Longrightarrow> escape_text [0x5C, c]"
  unfolding escape_text_def by blast

lemma escape_unit: "hex4 h \<Longrightarrow> \<not> high_unit (hex_nat h) \<Longrightarrow> \<not> low_unit (hex_nat h) \<Longrightarrow> escape_text ([0x5C, 0x75] @ h)"
  unfolding escape_text_def high_unit_def low_unit_def by (intro disjI2 disjI1) (auto simp: not_le)

lemma escape_pair:
  "hex4 h \<Longrightarrow> hex4 l \<Longrightarrow> high_unit (hex_nat h) \<Longrightarrow> low_unit (hex_nat l) \<Longrightarrow> escape_text ([0x5C, 0x75] @ h @ [0x5C, 0x75] @ l)"
  unfolding escape_text_def high_unit_def low_unit_def by (intro disjI2) blast

lemma rfc_strict: "paired us \<Longrightarrow> rfc_chars us x \<Longrightarrow> \<exists>e. json_chars e x"
proof (induction us arbitrary: x rule: paired.induct)
  case 1
  then show ?case by (auto simp: rfc_nil_simp intro: chars_nil)
next
  case (2 us)
  have us: "paired us" using "2.prems"(1) by simp
  from rfc_otherD [OF "2.prems"(2)] show ?case
  proof (elim disjE exE conjE)
    fix c s assume c: "x = c # s" "0x20 \<le> c" "c \<noteq> 0x22" "c \<noteq> 0x5C" "rfc_chars us s"
    obtain e where "json_chars e s" using "2.IH" [OF us c(5)] ..
    then show ?case unfolding c(1) using chars_raw [OF c(2-4)] by (intro exI)
  next
    fix c s assume c: "x = [0x5C, c] @ s" "c \<in> set ([0x22, 0x5C] @ bytes_of ''/bfnrt'')" "rfc_chars us s"
    obtain e where "json_chars e s" using "2.IH" [OF us c(3)] ..
    then show ?case unfolding c(1) using chars_escape [OF escape_short [OF c(2)]] by (intro exI)
  qed
next
  case (3 v us)
  obtain h s where x: "x = [0x5C, 0x75] @ h @ s" "hex4 h" "v = hex_nat h" "rfc_chars us s"
    using rfc_unitD [OF "3.prems"(2)] by (elim exE conjE)
  show ?case
  proof (cases "high_unit v")
    case True
    then obtain l us' where us: "us = Some l # us'" "low_unit l" "paired us'"
      using "3.prems"(1) by (auto split: list.splits option.splits)
    obtain h' s' where s: "s = [0x5C, 0x75] @ h' @ s'" "hex4 h'" "l = hex_nat h'" "rfc_chars us' s'"
      using rfc_unitD [OF x(4) [unfolded us(1)]] by (elim exE conjE)
    obtain e where e: "json_chars e s'" using "3.IH"(1) [OF True us(1) refl us(3) s(4)] ..
    have "escape_text ([0x5C, 0x75] @ h @ [0x5C, 0x75] @ h')"
      using True us(2) by (intro escape_pair x(2) s(2)) (simp_all add: x(3) s(3))
    from chars_escape [OF this e] show ?thesis by (intro exI [of _ True]) (simp add: x(1) s(1))
  next
    case False
    have p: "\<not> low_unit v" "paired us" using "3.prems"(1) False by simp_all
    obtain e where e: "json_chars e s" using "3.IH"(2) [OF False p(2) x(4)] ..
    have "escape_text ([0x5C, 0x75] @ h)" using False p(1) by (intro escape_unit x(2)) (simp_all add: x(3))
    from chars_escape [OF this e] show ?thesis by (intro exI [of _ True]) (simp add: x(1))
  qed
qed

lemma string_loop_quote: "string_loop (0x22 # r) esc = Some (esc, r)"
  by (subst string_loop.simps) (simp add: yep_text_qbc_find_scalar_def)

lemma find_loop_shift: "find_loop hit s (Suc i) = map_option Suc (find_loop hit s i)"
  by (induction s arbitrary: i) auto

lemma string_loop_raw: "0x20 \<le> c \<Longrightarrow> c \<noteq> 0x22 \<Longrightarrow> c \<noteq> 0x5C \<Longrightarrow> string_loop (c # s) esc = string_loop s esc"
  by (subst (1 2) string_loop.simps)
    (auto simp: yep_text_qbc_find_scalar_def find_loop_shift Let_def split: option.splits)

lemma string_loop_control: "c < 0x20 \<Longrightarrow> string_loop (c # s) esc = None"
  by (subst string_loop.simps) (auto simp: yep_text_qbc_find_scalar_def Let_def)

lemma string_loop_escape:
  "string_loop (0x5C # s) esc = (case yep_json_escape (0x5C # s) of None \<Rightarrow> None | Some j \<Rightarrow> string_loop j True)"
  by (subst string_loop.simps) (simp add: yep_text_qbc_find_scalar_def)

lemma string_loop_nil: "string_loop [] esc = None"
  by (subst string_loop.simps) (simp add: yep_text_qbc_find_scalar_def)

lemma string_loop_sound:
  "string_loop j esc = Some (b, r) \<Longrightarrow> \<exists>x e. j = x @ 0x22 # r \<and> json_chars e x \<and> b = (esc \<or> e)"
proof (induction "length j" arbitrary: j esc rule: less_induct)
  case less
  then obtain c s where j: "j = c # s" by (cases j) (auto simp: string_loop_nil)
  consider "c = 0x22" | "c = 0x5C" | "c < 0x20" | "0x20 \<le> c" "c \<noteq> 0x22" "c \<noteq> 0x5C" by force
  then show ?case
  proof cases
    case 1
    then show ?thesis using less(2) j chars_nil by (force simp: string_loop_quote)
  next
    case 2
    then obtain j' where j': "yep_json_escape j = Some j'" "string_loop j' True = Some (b, r)"
      using less(2) by (auto simp: j string_loop_escape split: option.splits)
    obtain x e where x: "j' = x @ 0x22 # r" "json_chars e x" "b"
      using less(1) [OF yep_json_escape_shrinks [OF j'(1)] j'(2)] by auto
    obtain y where y: "j = y @ j'" "escape_text y" using json_escape_sound [OF j'(1)] 2 j by auto
    then show ?thesis using x chars_escape [OF y(2) x(2)] by (intro exI [of _ "y @ x"] exI [of _ True]) auto
  next
    case 3
    then show ?thesis using less(2) by (simp add: j string_loop_control)
  next
    case 4
    then have "string_loop s esc = Some (b, r)" using less(2) by (simp add: j string_loop_raw)
    then obtain x e where "s = x @ 0x22 # r" "json_chars e x" "b = (esc \<or> e)" using less(1) [of s esc] j by auto
    then show ?thesis using chars_raw [OF 4] j by (intro exI [of _ "c # x"] exI [of _ e]) auto
  qed
qed

lemma string_loop_complete: "json_chars e x \<Longrightarrow> string_loop (x @ 0x22 # r) esc = Some (esc \<or> e, r)"
proof (induction arbitrary: esc rule: json_chars.induct)
  case (chars_escape x e s)
  have hd: "\<exists>t. x = 0x5C # t" using chars_escape(1) by (auto simp: escape_text_def)
  have "yep_json_escape (x @ s @ 0x22 # r) = Some (s @ 0x22 # r)" by (rule json_escape_complete [OF chars_escape(1)]) simp
  then show ?case using chars_escape hd by (auto simp: string_loop_escape)
qed (auto simp: string_loop_quote string_loop_raw)

lemma short_string_loop: "short_string n s = Some r \<Longrightarrow> string_loop s False = Some (False, r)"
  by (induction n s rule: short_string.induct) (auto simp: string_loop_quote string_loop_raw not_less split: if_splits)

lemma json_string_grammar:
  "yep_json_string (0x22 # s) = Some (e, r) \<longleftrightarrow> (\<exists>x. s = x @ 0x22 # r \<and> json_chars e x)"
proof -
  have "yep_json_string (0x22 # s) = string_loop s False"
    by (auto simp: yep_json_string_def short_string_loop split: option.splits)
  then show ?thesis using string_loop_sound [of s False e r] string_loop_complete [of e _ r False] by auto
qed

section \<open>The grammar\<close>

text \<open>
  RFC 8259 values with strict strings over a set of blanks, with the depth of nesting bounded: \<open>json_value b d v\<close>
  says that \<open>v\<close> is a value with at most \<open>d\<close> nested containers. Strings pair their surrogate
  escapes.
\<close>

definition json_string :: "byte list \<Rightarrow> bool" where
  "json_string v \<longleftrightarrow> (\<exists>x e. v = 0x22 # x @ [0x22] \<and> json_chars e x)"

definition json_number :: "byte list \<Rightarrow> bool" where
  "json_number v \<longleftrightarrow> (\<exists>sg ds f e. v = sg @ ds @ f @ e \<and> number_text sg ds f e)"

definition json_scalar :: "byte list \<Rightarrow> bool" where
  "json_scalar v \<longleftrightarrow> json_string v \<or> json_number v \<or>
     v = bytes_of ''true'' \<or> v = bytes_of ''false'' \<or> v = bytes_of ''null''"

inductive json_value :: "(byte \<Rightarrow> bool) \<Rightarrow> nat \<Rightarrow> byte list \<Rightarrow> bool"
  and json_elements :: "(byte \<Rightarrow> bool) \<Rightarrow> nat \<Rightarrow> byte list \<Rightarrow> bool"
  and json_members :: "(byte \<Rightarrow> bool) \<Rightarrow> nat \<Rightarrow> byte list \<Rightarrow> bool"
  for b
where
  scalar: "json_value b d v" if "json_scalar v"
| array0: "json_value b (Suc d) ([0x5B] @ w @ [0x5D])" if "list_all b w"
| array1: "json_value b (Suc d) ([0x5B] @ es @ [0x5D])" if "json_elements b d es"
| object0: "json_value b (Suc d) ([0x7B] @ w @ [0x7D])" if "list_all b w"
| object1: "json_value b (Suc d) ([0x7B] @ ms @ [0x7D])" if "json_members b d ms"
| element: "json_elements b d (w1 @ v @ w2)"
    if "list_all b w1" "json_value b d v" "list_all b w2"
| element_more: "json_elements b d (w1 @ v @ w2 @ [0x2C] @ es)"
    if "list_all b w1" "json_value b d v" "list_all b w2" "json_elements b d es"
| member: "json_members b d (w1 @ k @ w2 @ [0x3A] @ w3 @ v @ w4)"
    if "list_all b w1" "json_string k" "list_all b w2" "list_all b w3" "json_value b d v" "list_all b w4"
| member_more: "json_members b d (w1 @ k @ w2 @ [0x3A] @ w3 @ v @ w4 @ [0x2C] @ ms)"
    if "list_all b w1" "json_string k" "list_all b w2" "list_all b w3" "json_value b d v" "list_all b w4"
       "json_members b d ms"

section \<open>The rest of a container\<close>

text \<open>
  What may still follow inside a container of a kind from a state of the machine on, up to and
  including its closing bracket.
\<close>

definition open_byte :: "bool \<Rightarrow> byte" where "open_byte k = (if k then 0x7B else 0x5B)"
definition close_byte :: "bool \<Rightarrow> byte" where "close_byte k = (if k then 0x7D else 0x5D)"
definition first_state :: "bool \<Rightarrow> json_expect" where
  "first_state k = (if k then JV_KEY_OR_CLOSE else JV_VALUE_OR_CLOSE)"
definition next_state :: "bool \<Rightarrow> json_expect" where
  "next_state k = (if k then JV_KEY else JV_VALUE)"

inductive machine_value :: "(byte \<Rightarrow> bool) \<Rightarrow> nat \<Rightarrow> byte list \<Rightarrow> bool"
  and machine_rest :: "(byte \<Rightarrow> bool) \<Rightarrow> nat \<Rightarrow> bool \<Rightarrow> json_expect \<Rightarrow> byte list \<Rightarrow> bool"
  for b
where
  m_scalar: "machine_value b d v" if "json_scalar v"
| m_open: "machine_value b (Suc d) (open_byte k # t)" if "machine_rest b d k (first_state k) t"
| r_blank: "machine_rest b d k ex (c # t)" if "b c" "machine_rest b d k ex t"
| r_close: "machine_rest b d k ex [close_byte k]" if "closable ex"
| r_value: "machine_rest b d k ex (v @ t)"
    if "ex = JV_VALUE_OR_CLOSE \<or> ex = JV_VALUE" "machine_value b d v" "machine_rest b d k JV_COMMA_OR_CLOSE t"
| r_key: "machine_rest b d True ex (v @ t)"
    if "ex = JV_KEY_OR_CLOSE \<or> ex = JV_KEY" "json_string v" "machine_rest b d True JV_COLON t"
| r_colon: "machine_rest b d k JV_COLON (0x3A # t)" if "machine_rest b d k JV_VALUE t"
| r_comma: "machine_rest b d k JV_COMMA_OR_CLOSE (0x2C # t)" if "machine_rest b d k (next_state k) t"

text \<open>The states a frame of a kind can be in.\<close>

definition frame_ok :: "json_frame \<Rightarrow> bool" where
  "frame_ok f \<longleftrightarrow> (if fst f then snd f \<noteq> JV_VALUE_OR_CLOSE
     else snd f = JV_VALUE_OR_CLOSE \<or> snd f = JV_VALUE \<or> snd f = JV_COMMA_OR_CLOSE)"

lemma rest_blanks: "list_all b w \<Longrightarrow> machine_rest b d k ex t \<Longrightarrow> machine_rest b d k ex (w @ t)"
  by (induction w) (auto intro: r_blank)

lemma machine_value_step:
  "list_all b w1 \<Longrightarrow> machine_value b d v \<Longrightarrow> list_all b w2 \<Longrightarrow> machine_rest b d k JV_COMMA_OR_CLOSE t \<Longrightarrow>
   ex = JV_VALUE_OR_CLOSE \<or> ex = JV_VALUE \<Longrightarrow> machine_rest b d k ex (w1 @ v @ w2 @ t)"
  using r_value [of ex b d v k "w2 @ t"] rest_blanks [of b w2 d k JV_COMMA_OR_CLOSE t] rest_blanks [of b w1 d k ex "v @ w2 @ t"] by simp

lemma machine_key_step:
  "list_all b w1 \<Longrightarrow> json_string v \<Longrightarrow> list_all b w2 \<Longrightarrow> machine_rest b d True JV_COLON t \<Longrightarrow>
   ex = JV_KEY_OR_CLOSE \<or> ex = JV_KEY \<Longrightarrow> machine_rest b d True ex (w1 @ v @ w2 @ t)"
  using r_key [of ex v b d "w2 @ t"] rest_blanks [of b w2 d True JV_COLON t] rest_blanks [of b w1 d True ex "v @ w2 @ t"] by simp

lemma grammar_to_machine:
  "json_value b d v \<Longrightarrow> machine_value b d v"
  "json_elements b d es \<Longrightarrow>
     (\<forall>t ex. machine_rest b d False JV_COMMA_OR_CLOSE t \<longrightarrow> ex = JV_VALUE_OR_CLOSE \<or> ex = JV_VALUE \<longrightarrow>
        machine_rest b d False ex (es @ t))"
  "json_members b d ms \<Longrightarrow>
     (\<forall>t ex. machine_rest b d True JV_COMMA_OR_CLOSE t \<longrightarrow> ex = JV_KEY_OR_CLOSE \<or> ex = JV_KEY \<longrightarrow>
        machine_rest b d True ex (ms @ t))"
proof (induction rule: json_value_json_elements_json_members.inducts)
  case (array0 w d)
  then have "machine_rest b d False (first_state False) (w @ [close_byte False])"
    by (intro rest_blanks r_close) (simp_all add: closable_def first_state_def)
  from m_open [OF this] show ?case by (simp add: open_byte_def close_byte_def)
next
  case (object0 w d)
  then have "machine_rest b d True (first_state True) (w @ [close_byte True])"
    by (intro rest_blanks r_close) (simp_all add: closable_def first_state_def)
  from m_open [OF this] show ?case by (simp add: open_byte_def close_byte_def)
next
  case (array1 d es)
  have "machine_rest b d False JV_COMMA_OR_CLOSE [close_byte False]" by (rule r_close) (simp add: closable_def)
  then have "machine_rest b d False (first_state False) (es @ [close_byte False])"
    using array1 by (simp add: first_state_def)
  from m_open [OF this] show ?case by (simp add: open_byte_def close_byte_def)
next
  case (object1 d ms)
  have "machine_rest b d True JV_COMMA_OR_CLOSE [close_byte True]" by (rule r_close) (simp add: closable_def)
  then have "machine_rest b d True (first_state True) (ms @ [close_byte True])"
    using object1 by (simp add: first_state_def)
  from m_open [OF this] show ?case by (simp add: open_byte_def close_byte_def)
next
  case (element w1 d v w2)
  then show ?case by (simp add: machine_value_step)
next
  case (element_more w1 d v w2 es)
  then show ?case by (simp add: machine_value_step r_comma next_state_def)
next
  case (member w1 k w2 w3 d v w4)
  then show ?case by (simp add: machine_value_step machine_key_step r_colon)
next
  case (member_more w1 k w2 w3 d v w4 ms)
  then show ?case by (simp add: machine_value_step machine_key_step r_colon r_comma next_state_def)
qed (auto intro: m_scalar)

lemma elements_blank:
  assumes "json_elements b d es" "b c"
  shows "json_elements b d (c # es)"
  using assms(1)
proof (cases rule: json_elements.cases)
  case (element w1 v w2)
  then show ?thesis using assms(2) json_value_json_elements_json_members.element [of b "c # w1" d v w2] by simp
next
  case (element_more w1 v w2 es)
  then show ?thesis using assms(2) json_value_json_elements_json_members.element_more [of b "c # w1" d v w2 es] by simp
qed

lemma members_blank:
  assumes "json_members b d ms" "b c"
  shows "json_members b d (c # ms)"
  using assms(1)
proof (cases rule: json_members.cases)
  case (member w1 k w2 w3 v w4)
  then show ?thesis using assms(2) json_value_json_elements_json_members.member [of b "c # w1" k w2 w3 d v w4] by simp
next
  case (member_more w1 k w2 w3 v w4 ms)
  then show ?thesis using assms(2) json_value_json_elements_json_members.member_more [of b "c # w1" k w2 w3 d v w4 ms] by simp
qed

text \<open>The parts of the rest of a container.\<close>

definition items :: "(byte \<Rightarrow> bool) \<Rightarrow> nat \<Rightarrow> bool \<Rightarrow> byte list \<Rightarrow> bool" where
  "items b d k is \<longleftrightarrow> (if k then json_members b d is else json_elements b d is)"

definition rest_after :: "(byte \<Rightarrow> bool) \<Rightarrow> nat \<Rightarrow> bool \<Rightarrow> byte list \<Rightarrow> bool" where
  "rest_after b d k t \<longleftrightarrow> (\<exists>w. list_all b w \<and> (t = w @ [close_byte k] \<or> (\<exists>is. items b d k is \<and> t = w @ [0x2C] @ is @ [close_byte k])))"

definition rest_value :: "(byte \<Rightarrow> bool) \<Rightarrow> nat \<Rightarrow> bool \<Rightarrow> byte list \<Rightarrow> bool" where
  "rest_value b d k t \<longleftrightarrow> (\<exists>w v q. list_all b w \<and> json_value b d v \<and> rest_after b d k q \<and> t = w @ v @ q)"

definition rest_first :: "(byte \<Rightarrow> bool) \<Rightarrow> nat \<Rightarrow> bool \<Rightarrow> byte list \<Rightarrow> bool" where
  "rest_first b d k t \<longleftrightarrow> (\<exists>w. list_all b w \<and> t = w @ [close_byte k]) \<or> (\<exists>is. items b d k is \<and> t = is @ [close_byte k])"

definition rest_colon :: "(byte \<Rightarrow> bool) \<Rightarrow> nat \<Rightarrow> bool \<Rightarrow> byte list \<Rightarrow> bool" where
  "rest_colon b d k t \<longleftrightarrow> (\<exists>w q. list_all b w \<and> rest_value b d k q \<and> t = w @ [0x3A] @ q)"

definition grammar_rest :: "(byte \<Rightarrow> bool) \<Rightarrow> nat \<Rightarrow> bool \<Rightarrow> json_expect \<Rightarrow> byte list \<Rightarrow> bool" where
  "grammar_rest b d k ex t \<longleftrightarrow>
     (case ex of
        JV_VALUE_OR_CLOSE \<Rightarrow> rest_first b d k t
      | JV_KEY_OR_CLOSE \<Rightarrow> rest_first b d k t
      | JV_KEY \<Rightarrow> \<exists>is. items b d k is \<and> t = is @ [close_byte k]
      | JV_VALUE \<Rightarrow> rest_value b d k t
      | JV_COLON \<Rightarrow> rest_colon b d k t
      | JV_COMMA_OR_CLOSE \<Rightarrow> rest_after b d k t)"

lemma blank_more: "b c \<Longrightarrow> list_all b w \<Longrightarrow> t = w @ r \<Longrightarrow> \<exists>w'. list_all b w' \<and> c # t = w' @ r"
  by (intro exI [of _ "c # w"]) simp

lemma items_blank: "b c \<Longrightarrow> items b d k is \<Longrightarrow> items b d k (c # is)"
  by (simp add: items_def elements_blank members_blank)

lemma items_blanks: "list_all b w \<Longrightarrow> items b d k is \<Longrightarrow> items b d k (w @ is)"
  by (induction w) (auto simp: items_blank)

lemma grammar_rest_blank: "b c \<Longrightarrow> grammar_rest b d k ex t \<Longrightarrow> grammar_rest b d k ex (c # t)"
proof -
  assume c: "b c" and t: "grammar_rest b d k ex t"
  have w: "list_all b (c # w)" if "list_all b w" for w using c that by simp
  have "rest_after b d k t \<Longrightarrow> rest_after b d k (c # t)" for t
    unfolding rest_after_def using w by (metis append_Cons)
  moreover have "rest_value b d k t \<Longrightarrow> rest_value b d k (c # t)" for t
    unfolding rest_value_def using w by (metis append_Cons)
  moreover have "rest_colon b d k t \<Longrightarrow> rest_colon b d k (c # t)" for t
    unfolding rest_colon_def using w by (metis append_Cons)
  moreover have "items b d k is \<and> t = is @ r \<Longrightarrow> \<exists>is. items b d k is \<and> c # t = is @ r" for t r "is"
    using items_blank [of b c d k "is"] c by (intro exI [of _ "c # is"]) simp
  moreover have "rest_first b d k t \<Longrightarrow> rest_first b d k (c # t)" for t
    unfolding rest_first_def using w items_blank [of b c d k] c by (metis append_Cons)
  ultimately show ?thesis using t unfolding grammar_rest_def by (cases ex) auto
qed

lemma items_value:
  "\<not> k \<Longrightarrow> json_value b d v \<Longrightarrow> rest_after b d k q \<Longrightarrow> \<exists>is. items b d k is \<and> v @ q = is @ [close_byte k]"
  unfolding rest_after_def items_def
  using element [of b "[]" d v] element_more [of b "[]" d v] by fastforce

lemma items_key:
  assumes "json_string s" "rest_colon b d True q"
  shows "\<exists>is. items b d True is \<and> s @ q = is @ [close_byte True]"
proof -
  obtain w w3 v w4 q' where q: "q = w @ [0x3A] @ w3 @ v @ q'" "list_all b w" "list_all b w3" "json_value b d v" "rest_after b d True q'"
    using assms(2) unfolding rest_colon_def rest_value_def by blast
  then show ?thesis
    using member [of b "[]" s w w3 d v] member_more [of b "[]" s w w3 d v] assms(1)
    unfolding rest_after_def items_def by fastforce
qed

lemma machine_to_grammar:
  "machine_value b d v \<Longrightarrow> json_value b d v"
  "machine_rest b d k ex t \<Longrightarrow> frame_ok (k, ex) \<longrightarrow> grammar_rest b d k ex t"
proof (induction rule: machine_value_machine_rest.inducts)
  case (m_open d k t)
  then have "rest_first b d k t" by (cases k) (auto simp: frame_ok_def first_state_def grammar_rest_def)
  then show ?case
    unfolding rest_first_def items_def open_byte_def
    using array0 [of b _ d] array1 [of b d] object0 [of b _ d] object1 [of b d] by (cases k) (auto simp: close_byte_def)
next
  case (r_blank c d k ex t)
  then show ?case using grammar_rest_blank by blast
next
  case (r_close ex d k)
  then show ?case
    by (cases ex) (auto simp: closable_def grammar_rest_def rest_first_def rest_after_def intro!: exI [of _ "[]"])
next
  case (r_value ex d v k t)
  then have "rest_after b d k t" by (simp add: grammar_rest_def frame_ok_def split: if_splits)
  then have "rest_value b d k (v @ t)"
    unfolding rest_value_def using r_value by (intro exI [of _ "[]"] exI [of _ v] exI [of _ t]) auto
  then show ?case using r_value items_value [of k b d v t] \<open>rest_after b d k t\<close>
    by (auto simp: grammar_rest_def rest_first_def frame_ok_def split: if_splits)
next
  case (r_key ex v d t)
  then have "rest_colon b d True t" by (simp add: grammar_rest_def frame_ok_def)
  then show ?case using r_key items_key [of v b d t]
    by (auto simp: grammar_rest_def rest_first_def)
next
  case (r_colon d k t)
  then have "frame_ok (k, JV_COLON) \<Longrightarrow> rest_value b d k t" by (simp add: grammar_rest_def frame_ok_def split: if_splits)
  then have "frame_ok (k, JV_COLON) \<Longrightarrow> rest_colon b d k (0x3A # t)"
    unfolding rest_colon_def by (intro exI [of _ "[]"] exI [of _ t]) simp
  then show ?case by (simp add: grammar_rest_def)
next
  case (r_comma d k t)
  then have "\<exists>is. items b d k is \<and> t = is @ [close_byte k]" 
  proof (cases k)
    case True
    then show ?thesis using r_comma by (simp add: next_state_def frame_ok_def grammar_rest_def)
  next
    case False
    then have "rest_value b d k t" using r_comma by (simp add: next_state_def frame_ok_def grammar_rest_def)
    then obtain w v q where w: "list_all b w" "json_value b d v" "rest_after b d k q" "t = w @ v @ q"
      unfolding rest_value_def by blast
    obtain "is" where "items b d k is" "v @ q = is @ [close_byte k]" using items_value [OF False w(2,3)] by blast
    then show ?thesis using items_blanks [OF w(1)] w(4) by (intro exI [of _ "w @ is"]) simp
  qed
  then show ?case by (force simp: grammar_rest_def rest_after_def intro: exI [of _ "[]"])
qed (auto intro: scalar)

lemma grammar_machine_value: "json_value b d v \<longleftrightarrow> machine_value b d v"
  using grammar_to_machine(1) machine_to_grammar(1) by blast

section \<open>The pushdown machine\<close>

definition scalar_end :: "byte list \<Rightarrow> byte list option" where
  "scalar_end s = (case doc_scalar s of Inl e \<Rightarrow> None | Inr r \<Rightarrow> Some r)"

text \<open>
  One step of the machine at a token byte: the frames of the open containers, innermost first,
  and the text that is left. \<open>lim\<close> bounds the number of open containers.
\<close>

definition resume :: "json_frame list \<Rightarrow> json_frame list" where
  "resume fs = (case fs of [] \<Rightarrow> [] | f # fs \<Rightarrow> (fst f, JV_COMMA_OR_CLOSE) # fs)"

definition key_state :: "json_frame \<Rightarrow> bool" where
  "key_state f \<longleftrightarrow> fst f \<and> (snd f = JV_KEY_OR_CLOSE \<or> snd f = JV_KEY)"

definition json_step :: "nat \<Rightarrow> json_frame \<Rightarrow> json_frame list \<Rightarrow> byte list \<Rightarrow> (json_frame list \<times> byte list) option" where
  "json_step lim f fs s =
     (let c = hd s in
      if c = 0x5D \<or> c = 0x7D then
        if c = close_byte (fst f) \<and> closable (snd f) then Some (resume fs, tl s) else None
      else if snd f = JV_COLON then
        if c = 0x3A then Some ((fst f, JV_VALUE) # fs, tl s) else None
      else if snd f = JV_COMMA_OR_CLOSE then
        if c = 0x2C then Some ((fst f, next_state (fst f)) # fs, tl s) else None
      else if c = 0x7B \<or> c = 0x5B then
        if length fs + 1 < lim \<and> \<not> key_state f
        then Some ((c = 0x7B, first_state (c = 0x7B)) # f # fs, tl s) else None
      else (case scalar_end s of
              None \<Rightarrow> None
            | Some r \<Rightarrow>
                if key_state f then if c = 0x22 then Some ((True, JV_COLON) # fs, r) else None
                else Some ((fst f, JV_COMMA_OR_CLOSE) # fs, r)))"

lemma json_string_head: "json_string v \<Longrightarrow> \<exists>t. v = 0x22 # t"
  by (auto simp: json_string_def)

lemma number_head:
  assumes "number_text sg ds f e"
  shows "\<exists>c t. sg @ ds @ f @ e = c # t \<and> (c = 0x2D \<or> is_digit c)"
  using assms by (cases ds) (auto simp: number_text_def int_text_def digits1_def)

lemma scalar_end_sound:
  assumes "s \<noteq> []" "scalar_end s = Some r"
  shows "\<exists>v. s = v @ r \<and> json_scalar v \<and> (hd s = 0x22 \<longrightarrow> json_string v)"
proof -
  obtain c s' where s: "s = c # s'" using assms(1) by (cases s) auto
  have d: "doc_scalar s = Inr r" using assms(2) by (auto simp: scalar_end_def split: sum.splits)
  consider "c = 0x22" | "c \<noteq> 0x22" "c = 0x2D \<or> is_digit c" | "c \<noteq> 0x22" "\<not> (c = 0x2D \<or> is_digit c)" by blast
  then show ?thesis
  proof cases
    case 1
    then obtain e where "yep_json_string (0x22 # s') = Some (e, r)"
      using d by (auto simp: doc_scalar_def s split: option.splits)
    then obtain x where "s' = x @ 0x22 # r" "json_chars e x" unfolding json_string_grammar by blast
    then have "s = (0x22 # x @ [0x22]) @ r" "json_string (0x22 # x @ [0x22])" using s 1 by (auto simp: json_string_def)
    then show ?thesis unfolding json_scalar_def by blast
  next
    case 2
    then obtain n where "yep_json_number_scan s = Some (n, r)"
      using d by (auto simp: doc_scalar_def s yep_json_number_def split: option.splits)
    then obtain sg ds f e where "s = (sg @ ds @ f @ e) @ r" "number_text sg ds f e" unfolding number_scan_grammar by auto
    moreover have "hd s \<noteq> 0x22" using s 2(1) by simp
    ultimately show ?thesis unfolding json_scalar_def json_number_def by blast
  next
    case 3
    then have "\<exists>v. s = v @ r \<and> (v = bytes_of ''true'' \<or> v = bytes_of ''false'' \<or> v = bytes_of ''null'')"
      using d by (auto simp: doc_scalar_def s yep_json_literal_def literal_match_iff split: option.splits if_splits)
    then show ?thesis using s 3 unfolding json_scalar_def by auto
  qed
qed

lemma literal_end:
  "delim_next r \<Longrightarrow> scalar_end (bytes_of ''true'' @ r) = Some r" "delim_next r \<Longrightarrow> scalar_end (bytes_of ''false'' @ r) = Some r"
  "delim_next r \<Longrightarrow> scalar_end (bytes_of ''null'' @ r) = Some r"
  by (simp_all add: scalar_end_def doc_scalar_def yep_json_literal_def is_digit_def)

lemma string_end: "json_string v \<Longrightarrow> scalar_end (v @ r) = Some r"
proof -
  assume "json_string v"
  then obtain x e where v: "v = 0x22 # x @ [0x22]" "json_chars e x" by (auto simp: json_string_def)
  then have "yep_json_string (0x22 # x @ 0x22 # r) = Some (e, r)" unfolding json_string_grammar by blast
  then show ?thesis by (simp add: v(1) scalar_end_def doc_scalar_def)
qed

lemma scalar_end_complete:
  assumes "json_scalar v" "delim_next r"
  shows "scalar_end (v @ r) = Some r"
proof -
  from assms(1) consider "json_string v" | "json_number v" | "v = bytes_of ''true''" | "v = bytes_of ''false''" | "v = bytes_of ''null''"
    unfolding json_scalar_def by blast
  then show ?thesis
  proof cases
    case 2
    then obtain sg ds f e where v: "v = sg @ ds @ f @ e" "number_text sg ds f e" by (auto simp: json_number_def)
    have "yep_json_number_scan (v @ r) = Some (number_of sg ds f e, r)"
      unfolding number_scan_grammar v(1) using v(2) assms(2)
      by (intro exI [of _ sg] exI [of _ ds] exI [of _ f] exI [of _ e]) simp
    moreover obtain c t where c: "v = c # t" "c = 0x2D \<or> is_digit c" using number_head [OF v(2)] v(1) by auto
    moreover from c(2) have "c \<noteq> 0x22" by (auto simp: is_digit_def)
    ultimately show ?thesis by (simp add: scalar_end_def doc_scalar_def yep_json_number_def)
  qed (simp_all only: assms(2) string_end literal_end)
qed

lemma scalar_head:
  assumes "json_scalar v"
  obtains c t where "v = c # t" "c \<noteq> 0x5B" "c \<noteq> 0x5D" "c \<noteq> 0x7B" "c \<noteq> 0x7D" "c \<noteq> 0x3A" "c \<noteq> 0x2C" "\<not> jv_blank c"
proof -
  from assms consider "json_string v" | "json_number v" | "v = bytes_of ''true''" | "v = bytes_of ''false''" | "v = bytes_of ''null''"
    unfolding json_scalar_def by blast
  then show ?thesis
  proof cases
    case 1
    then show ?thesis using json_string_head that by (force simp: jv_blank_def)
  next
    case 2
    then obtain sg ds f e where "v = sg @ ds @ f @ e" "number_text sg ds f e" by (auto simp: json_number_def)
    then obtain c t where "v = c # t" "c = 0x2D \<or> is_digit c" using number_head [of sg ds f e] by auto
    moreover from this(2) have "c \<noteq> 0x5B" "c \<noteq> 0x5D" "c \<noteq> 0x7B" "c \<noteq> 0x7D" "c \<noteq> 0x3A" "c \<noteq> 0x2C" "\<not> jv_blank c"
      by (auto simp: is_digit_def jv_blank_def)
    ultimately show ?thesis using that by blast
  qed (use that in \<open>force simp: jv_blank_def\<close>)+
qed

lemma json_step_shrinks:
  assumes "s \<noteq> []" "json_step lim f fs s = Some (fs', s')"
  shows "length s' < length s"
  using assms doc_scalar_shrinks [of s s']
  by (auto simp: json_step_def scalar_end_def Let_def split: if_splits option.splits sum.splits)

lemma frame_ok_intros [simp]:
  "frame_ok (k, first_state k)" "frame_ok (k, next_state k)" "frame_ok (k, JV_VALUE)" "frame_ok (k, JV_COMMA_OR_CLOSE)"
  "frame_ok (True, JV_COLON)"
  by (cases k; simp add: frame_ok_def first_state_def next_state_def)+

lemma blank_head: "jv_blank c \<Longrightarrow> json_delim c \<and> c \<noteq> 0x5D \<and> c \<noteq> 0x7D \<and> c \<noteq> 0x2C \<and> c \<noteq> 0x3A"
  by (auto simp: jv_blank_def json_delim_def)

text \<open>
  The interface of a machine: how it treats blanks, the end of the text and a token byte. It
  is met by the validator and by the strict walker.
\<close>

locale json_machine =
  fixes run :: "json_frame list \<Rightarrow> byte list \<Rightarrow> byte list option"
    and blank :: "byte \<Rightarrow> bool"
    and lim :: nat
  assumes lim_pos: "0 < lim"
    and blank_jv: "blank c \<Longrightarrow> jv_blank c"
    and run_done: "run [] s = Some s"
    and run_end: "run (f # fs) [] = None"
    and run_blank: "blank c \<Longrightarrow> run (f # fs) (c # s) = run (f # fs) s"
    and run_step: "\<not> blank c \<Longrightarrow> run (f # fs) (c # s) =
      (case json_step lim f fs (c # s) of None \<Rightarrow> None | Some (fs', s') \<Rightarrow> run fs' s')"
begin

lemma rest_delim: "machine_rest blank d k JV_COMMA_OR_CLOSE t \<Longrightarrow> delim_next (t @ s)"
  by (erule machine_rest.cases) (use blank_jv blank_head in \<open>auto simp: delim_next_def json_delim_def close_byte_def\<close>)

lemma not_blank: "c = 0x5D \<or> c = 0x7D \<or> c = 0x5B \<or> c = 0x7B \<or> c = 0x3A \<or> c = 0x2C \<Longrightarrow> \<not> blank c"
  using blank_jv [of c] by (auto simp: jv_blank_def)

lemma run_scalar:
  assumes "json_scalar v" "delim_next r \<or> json_string v" "snd f \<noteq> JV_COLON" "snd f \<noteq> JV_COMMA_OR_CLOSE"
    "key_state f \<longrightarrow> json_string v"
  shows "run (f # fs) (v @ r) = run ((fst f, if key_state f then JV_COLON else JV_COMMA_OR_CLOSE) # fs) r"
proof -
  obtain c t where v: "v = c # t" "c \<noteq> 0x5B" "c \<noteq> 0x5D" "c \<noteq> 0x7B" "c \<noteq> 0x7D" "c \<noteq> 0x3A" "c \<noteq> 0x2C" "\<not> jv_blank c"
    by (rule scalar_head [OF assms(1)])
  have e: "scalar_end (c # t @ r) = Some r"
    using scalar_end_complete [OF assms(1), of r] string_end [of v r] assms(2) v(1) by auto
  have "key_state f \<Longrightarrow> c = 0x22 \<and> fst f" using json_string_head assms(5) v(1) by (auto simp: key_state_def)
  moreover have "\<not> blank c" using v(8) blank_jv by blast
  ultimately show ?thesis using v assms(3,4) e by (auto simp: run_step json_step_def)
qed

lemma run_complete:
  "machine_value blank d v \<Longrightarrow> (\<forall>f fs r. length (f # fs) + d \<le> lim \<longrightarrow> snd f = JV_VALUE_OR_CLOSE \<or> snd f = JV_VALUE \<longrightarrow>
     delim_next r \<longrightarrow> run (f # fs) (v @ r) = run ((fst f, JV_COMMA_OR_CLOSE) # fs) r)"
  "machine_rest blank d k ex t \<Longrightarrow> (\<forall>fs s. Suc (length fs) + d \<le> lim \<longrightarrow> run ((k, ex) # fs) (t @ s) = run (resume fs) s)"
proof (induction rule: machine_value_machine_rest.inducts)
  case (m_scalar v d)
  then show ?case using run_scalar by (auto simp: key_state_def)
next
  case (m_open d k t)
  have "\<not> blank (open_byte k)" using not_blank by (simp add: open_byte_def)
  then show ?case using m_open.IH
    by (cases k) (auto simp: run_step json_step_def key_state_def resume_def open_byte_def)
next
  case (r_blank c d k ex t)
  then show ?case by (simp add: run_blank)
next
  case (r_close ex d k)
  have "\<not> blank (close_byte k)" using not_blank by (simp add: close_byte_def)
  then show ?case using r_close by (auto simp: run_step json_step_def close_byte_def)
next
  case (r_value ex d v k t)
  then show ?case using rest_delim by auto
next
  case (r_key ex v d t)
  then have "run ((True, ex) # fs) (v @ t @ s) = run ((True, JV_COLON) # fs) (t @ s)" for fs s
    using run_scalar [of v "t @ s" "(True, ex)" fs] by (auto simp: json_scalar_def key_state_def)
  then show ?case using r_key by simp
next
  case (r_colon d k t)
  then show ?case using not_blank by (simp add: run_step json_step_def)
next
  case (r_comma d k t)
  then show ?case using not_blank by (simp add: run_step json_step_def)
qed

lemma run_sound:
  "run (f # fs) s = Some r \<Longrightarrow> length (f # fs) \<le> lim \<Longrightarrow> list_all frame_ok (f # fs) \<Longrightarrow>
   \<exists>t s'. s = t @ s' \<and> machine_rest blank (lim - length (f # fs)) (fst f) (snd f) t \<and> run (resume fs) s' = Some r"
proof (induction "length s" arbitrary: f fs s rule: less_induct)
  case less
  define d where "d = lim - length (f # fs)"
  obtain c s1 where s: "s = c # s1" using less.prems(1) run_end by (cases s) auto
  have step: "\<exists>t s'. q = t @ s' \<and> machine_rest blank d k ex t \<and> run (resume fs) s' = Some r"
    if "length q < length s" "run ((k, ex) # fs) q = Some r" "frame_ok (k, ex)" for k ex q
    using less.hyps [OF that(1,2)] less.prems(2,3) that(3) by (simp add: d_def)
  have ok: "frame_ok f" using less.prems(3) by simp
  have goal: "\<exists>t s'. s = t @ s' \<and> machine_rest blank d (fst f) (snd f) t \<and> run (resume fs) s' = Some r"
  proof (cases "blank c")
    case True
    then have "run (f # fs) s1 = Some r" using less.prems(1) by (simp add: s run_blank)
    then obtain t s' where "s1 = t @ s'" "machine_rest blank d (fst f) (snd f) t" "run (resume fs) s' = Some r"
      using step [of s1 "fst f" "snd f"] ok s by auto
    then show ?thesis using r_blank [of blank c, OF True] s by (intro exI [of _ "c # t"] exI [of _ s']) auto
  next
    case nb: False
    then obtain fs' s' where js: "json_step lim f fs s = Some (fs', s')" "run fs' s' = Some r"
      using less.prems(1) by (auto simp: s run_step split: option.splits)
    have short: "length s' < length s" using json_step_shrinks [OF _ js(1)] s by simp
    consider (close) "c = close_byte (fst f)" "closable (snd f)" "fs' = resume fs" "s' = s1"
      | (colon) "snd f = JV_COLON" "c = 0x3A" "fs' = (fst f, JV_VALUE) # fs" "s' = s1"
      | (comma) "snd f = JV_COMMA_OR_CLOSE" "c = 0x2C" "fs' = (fst f, next_state (fst f)) # fs" "s' = s1"
      | (bracket) "c = open_byte (c = 0x7B)" "snd f \<noteq> JV_COLON" "snd f \<noteq> JV_COMMA_OR_CLOSE" "length fs + 1 < lim" "\<not> key_state f"
          "fs' = (c = 0x7B, first_state (c = 0x7B)) # f # fs" "s' = s1"
      | (key) "scalar_end s = Some s'" "key_state f" "c = 0x22" "fs' = (True, JV_COLON) # fs"
      | (scalar) "scalar_end s = Some s'" "\<not> key_state f" "snd f \<noteq> JV_COLON" "snd f \<noteq> JV_COMMA_OR_CLOSE"
          "fs' = (fst f, JV_COMMA_OR_CLOSE) # fs"
      using js(1) s
      by (auto simp: json_step_def Let_def open_byte_def key_state_def split: if_splits option.splits)
    then show ?thesis
    proof cases
      case close
      then show ?thesis using js(2) s machine_value_machine_rest.r_close [of "snd f" blank d "fst f"]
        by (intro exI [of _ "[c]"] exI [of _ s1]) simp
    next
      case colon
      then obtain t q where "s1 = t @ q" "machine_rest blank d (fst f) JV_VALUE t" "run (resume fs) q = Some r"
        using step [of s1 "fst f" JV_VALUE] js(2) s by auto
      then show ?thesis using machine_value_machine_rest.r_colon [of blank d "fst f" t] s colon
        by (intro exI [of _ "c # t"] exI [of _ q]) simp
    next
      case comma
      then obtain t q where "s1 = t @ q" "machine_rest blank d (fst f) (next_state (fst f)) t" "run (resume fs) q = Some r"
        using step [of s1 "fst f" "next_state (fst f)"] js(2) s by auto
      then show ?thesis using machine_value_machine_rest.r_comma [of blank d "fst f" t] s comma
        by (intro exI [of _ "c # t"] exI [of _ q]) simp
    next
      case bracket
      define k where "k = (c = 0x7B)"
      note bracket = bracket [folded k_def]
      have ex: "snd f = JV_VALUE_OR_CLOSE \<or> snd f = JV_VALUE" and fok: "frame_ok (k, first_state k)" "frame_ok (fst f, JV_COMMA_OR_CLOSE)"
        using ok bracket(2,3,5) by (cases "snd f"; auto simp: frame_ok_def key_state_def first_state_def split: if_splits)+
      obtain d' where d': "d = Suc d'" "lim - length ((k, first_state k) # f # fs) = d'"
        using bracket(4) by (cases d) (simp_all add: d_def)
      have "length s1 < length s" by (simp add: s)
      then obtain t q where t: "s1 = t @ q" "machine_rest blank d' k (first_state k) t" "run (resume (f # fs)) q = Some r"
        using less.hyps [of s1 "(k, first_state k)" "f # fs"] js(2) bracket(4,6,7) less.prems(3) fok d'(2) by auto
      have "length q < length s" using s t(1) by simp
      then obtain t2 q2 where "q = t2 @ q2" "machine_rest blank d (fst f) JV_COMMA_OR_CLOSE t2" "run (resume fs) q2 = Some r"
        using step [of q "fst f" JV_COMMA_OR_CLOSE] t(3) fok(2) by (auto simp: resume_def)
      moreover have "machine_value blank d (open_byte k # t)" unfolding d'(1) by (rule m_open [OF t(2)])
      ultimately show ?thesis using machine_value_machine_rest.r_value [OF ex, of blank d "open_byte k # t" "fst f" t2] s t(1) bracket(1)
        by (intro exI [of _ "(open_byte k # t) @ t2"] exI [of _ q2]) simp
    next
      case key
      obtain v where v: "s = v @ s'" "json_string v" using scalar_end_sound [OF _ key(1)] key(3) s by auto
      obtain t q where "s' = t @ q" "machine_rest blank d True JV_COLON t" "run (resume fs) q = Some r"
        using step [of s' True JV_COLON] js(2) key(4) short by (auto simp: frame_ok_def)
      moreover have "fst f" "snd f = JV_KEY_OR_CLOSE \<or> snd f = JV_KEY" using key(2) by (auto simp: key_state_def)
      ultimately show ?thesis using machine_value_machine_rest.r_key [of "snd f" v blank d t] v
        by (intro exI [of _ "v @ t"] exI [of _ q]) simp
    next
      case scalar
      have ex: "snd f = JV_VALUE_OR_CLOSE \<or> snd f = JV_VALUE" and fok: "frame_ok (fst f, JV_COMMA_OR_CLOSE)"
        using ok scalar(2-4) by (cases "snd f"; auto simp: frame_ok_def key_state_def split: if_splits)+
      obtain v where v: "s = v @ s'" "json_scalar v" using scalar_end_sound [OF _ scalar(1)] s by auto
      obtain t q where "s' = t @ q" "machine_rest blank d (fst f) JV_COMMA_OR_CLOSE t" "run (resume fs) q = Some r"
        using step [of s' "fst f" JV_COMMA_OR_CLOSE] js(2) scalar(5) short fok by auto
      then show ?thesis using machine_value_machine_rest.r_value [OF ex m_scalar [OF v(2)], of blank d "fst f" t] v
        by (intro exI [of _ "v @ t"] exI [of _ q]) simp
    qed
  qed
  then show ?case by (simp add: d_def)
qed

lemma run_container:
  "run [(k, first_state k)] s = Some r \<longleftrightarrow>
     (\<exists>v. open_byte k # s = v @ r \<and> json_value blank lim v)"
proof
  obtain d where d: "lim = Suc d" using lim_pos by (cases lim) auto
  assume "run [(k, first_state k)] s = Some r"
  then obtain t s' where "s = t @ s'" "machine_rest blank d k (first_state k) t" "run [] s' = Some r"
    using run_sound [of "(k, first_state k)" "[]" s r] d by (auto simp: resume_def)
  then show "\<exists>v. open_byte k # s = v @ r \<and> json_value blank lim v"
    using m_open [of blank d k t] unfolding d grammar_machine_value run_done
    by (intro exI [of _ "open_byte k # t"]) simp
next
  assume "\<exists>v. open_byte k # s = v @ r \<and> json_value blank lim v"
  then obtain v where v: "open_byte k # s = v @ r" "machine_value blank lim v" unfolding grammar_machine_value by blast
  from v(2) show "run [(k, first_state k)] s = Some r"
  proof (cases rule: machine_value.cases)
    case m_scalar
    then show ?thesis using v(1) scalar_head [of v] by (fastforce simp: open_byte_def split: if_splits)
  next
    case (m_open d k' t)
    then have "k' = k" "s = t @ r" using v(1) by (auto simp: open_byte_def split: if_splits)
    then show ?thesis using m_open run_complete(2) [of d k "first_state k" t] run_done
      by (simp add: resume_def)
  qed
qed

end

end
