(* ===== verification/Json_Facts.thy ===== *)
theory Json_Facts
  imports Json_Machine
begin

text \<open>
  The validator and the strict span walker of \<^verbatim>\<open>src/yeptris/scan/json.c\<close> as instances of the
  pushdown machine, and the properties of the JSON front end.
\<close>

section \<open>The validator is such a machine\<close>

definition doc_root :: json_frame where
  "doc_root = (False, JV_VALUE)"

definition doc_run :: "json_frame list \<Rightarrow> byte list \<Rightarrow> byte list option" where
  "doc_run fs s = (if fs = [] then Some s else case doc_loop (fs @ [doc_root]) s of Inl e \<Rightarrow> None | Inr r \<Rightarrow> Some r)"

lemma doc_loop_blank: "jv_blank c \<Longrightarrow> doc_loop fs (c # s) = doc_loop fs s"
  by (subst (1 2) doc_loop.simps) simp

lemma doc_turn_step:
  "(case doc_turn (f # fs @ [doc_root]) (c # s) of Doc_Error e \<Rightarrow> None | Doc_Root r \<Rightarrow> Some r
      | Doc_Next fs' s' \<Rightarrow> (case doc_loop fs' s' of Inl e \<Rightarrow> None | Inr r \<Rightarrow> Some r)) =
   (case json_step 255 f fs (c # s) of None \<Rightarrow> None | Some (fs', s') \<Rightarrow> doc_run fs' s')"
proof -
  obtain k ex where f: "f = (k, ex)" by (cases f)
  consider (close) "c = 0x5D \<or> c = 0x7D" | (colon) "c \<noteq> 0x5D" "c \<noteq> 0x7D" "ex = JV_COLON"
    | (comma) "c \<noteq> 0x5D" "c \<noteq> 0x7D" "ex = JV_COMMA_OR_CLOSE"
    | (bracket) "c = 0x5B \<or> c = 0x7B" "ex \<noteq> JV_COLON" "ex \<noteq> JV_COMMA_OR_CLOSE"
    | (scalar) "c \<noteq> 0x5D" "c \<noteq> 0x7D" "c \<noteq> 0x5B" "c \<noteq> 0x7B" "ex \<noteq> JV_COLON" "ex \<noteq> JV_COMMA_OR_CLOSE" by blast
  then show ?thesis
  proof cases
    case close
    then show ?thesis by (cases fs) (auto simp: f doc_turn_def doc_close_def json_step_def close_byte_def resume_def doc_run_def)
  next
    case colon
    then show ?thesis by (auto simp: f doc_turn_def json_step_def doc_run_def)
  next
    case comma
    then show ?thesis by (auto simp: f doc_turn_def json_step_def doc_run_def next_state_def)
  next
    case bracket
    then show ?thesis
      by (auto simp: f doc_turn_def doc_open_def json_step_def doc_run_def key_state_def first_state_def JX_MAX_DEPTH_def)
  next
    case scalar
    then show ?thesis
      by (auto simp: f doc_turn_def doc_value_def json_step_def doc_run_def key_state_def scalar_end_def split: sum.split)
  qed
qed

interpretation validator: json_machine doc_run jv_blank 255
proof
  fix c f fs s
  assume nb: "\<not> jv_blank c"
  have "doc_run (f # fs) (c # s) = (case doc_turn (f # fs @ [doc_root]) (c # s) of Doc_Error e \<Rightarrow> None | Doc_Root r \<Rightarrow> Some r
      | Doc_Next fs' s' \<Rightarrow> (case doc_loop fs' s' of Inl e \<Rightarrow> None | Inr r \<Rightarrow> Some r))"
    using nb by (simp add: doc_run_def doc_loop.simps [of _ "c # s"] split: doc_turn.split)
  then show "doc_run (f # fs) (c # s) =
      (case json_step 255 f fs (c # s) of None \<Rightarrow> None | Some (fs', s') \<Rightarrow> doc_run fs' s')"
    unfolding doc_turn_step .
qed (simp_all add: doc_run_def doc_loop_blank, simp add: doc_loop.simps)

lemma blanks_json: "dropWhile jv_blank s = [] \<longleftrightarrow> list_all jv_blank s"
  by (simp add: list_all_iff)

lemma doc_scalar_container: "c = 0x5B \<or> c = 0x7B \<Longrightarrow> \<not> json_scalar (c # t)"
  using scalar_head [of "c # t"] by blast

text \<open>The root value: a container through the machine, a scalar at once.\<close>

lemma doc_root_value:
  assumes nb: "\<not> jv_blank c"
  shows "(\<exists>r. doc_loop [doc_root] (c # s) = Inr r \<and> list_all jv_blank r) \<longleftrightarrow>
    (\<exists>v r. c # s = v @ r \<and> json_value jv_blank 255 v \<and> list_all jv_blank r)" (is "?L \<longleftrightarrow> ?R")
proof -
  have del: "delim_next r" if "list_all jv_blank r" for r
    using that blank_head by (cases r) (auto simp: delim_next_def)
  have open_run: "doc_loop [doc_root] (c # s) = doc_loop [(k, first_state k), doc_root] s" if "c = open_byte k" for k
    using nb that by (subst doc_loop.simps)
      (auto simp: doc_turn_def doc_open_def doc_root_def JX_MAX_DEPTH_def first_state_def open_byte_def)
  show ?thesis
  proof (cases "c = 0x5B \<or> c = 0x7B")
    case True
    then have "c = open_byte (c = 0x7B)" by (auto simp: open_byte_def)
    then obtain k where k: "c = open_byte k" by blast
    have "doc_loop [doc_root] (c # s) = Inr r \<longleftrightarrow> doc_run [(k, first_state k)] s = Some r" for r
      unfolding open_run [OF k] by (auto simp: doc_run_def split: sum.splits)
    then show ?thesis unfolding validator.run_container k by blast
  next
    case False
    have "doc_loop [doc_root] (c # s) = Inr r \<longleftrightarrow> c \<noteq> 0x5D \<and> c \<noteq> 0x7D \<and> scalar_end (c # s) = Some r" for r
      using nb False by (subst doc_loop.simps)
        (auto simp: doc_turn_def doc_close_def doc_value_def doc_root_def scalar_end_def Let_def split: sum.splits)
    then have L: "?L \<longleftrightarrow> c \<noteq> 0x5D \<and> c \<noteq> 0x7D \<and> (\<exists>r. scalar_end (c # s) = Some r \<and> list_all jv_blank r)" by blast
    have V: "json_value jv_blank 255 v \<longleftrightarrow> json_scalar v" if "c # s = v @ r" "v \<noteq> []" for v r
      using that False by (auto elim: json_value.cases intro: scalar)
    have ne: "v \<noteq> []" if "json_value jv_blank 255 v" for v
      using that by (auto elim!: json_value.cases elim: scalar_head)
    show ?thesis
    proof
      assume ?L
      then obtain r where r: "scalar_end (c # s) = Some r" "list_all jv_blank r" unfolding L by blast
      then obtain v where "c # s = v @ r" "json_scalar v" using scalar_end_sound [of "c # s" r] by auto
      then show ?R using r(2) scalar by blast
    next
      assume ?R
      then obtain v r where v: "c # s = v @ r" "json_value jv_blank 255 v" "list_all jv_blank r" by blast
      then have sc: "json_scalar v" using V ne by blast
      then have "scalar_end (c # s) = Some r" using scalar_end_complete [OF sc del [OF v(3)]] v(1) by simp
      moreover obtain c' t where "v = c' # t" "c' \<noteq> 0x5D" "c' \<noteq> 0x7D" by (rule scalar_head [OF sc])
      then have "c \<noteq> 0x5D \<and> c \<noteq> 0x7D" using v(1) by simp
      ultimately show ?L unfolding L using v(3) by blast
    qed
  qed
qed

lemma document_grammar:
  "yep_json_document p = None \<longleftrightarrow>
     (\<exists>w v w'. p = w @ v @ w' \<and> list_all jv_blank w \<and> json_value jv_blank 255 v \<and> list_all jv_blank w')" (is "_ \<longleftrightarrow> ?R")
proof -
  define s where "s = dropWhile jv_blank p"
  have p: "p = takeWhile jv_blank p @ s" by (simp add: s_def)
  have ne: "\<exists>c t. v = c # t \<and> \<not> jv_blank c" if "json_value jv_blank 255 v" for v
    using that by (auto elim!: json_value.cases elim: scalar_head simp: jv_blank_def)
  have split: "?R \<longleftrightarrow> (\<exists>v w'. s = v @ w' \<and> json_value jv_blank 255 v \<and> list_all jv_blank w')"
  proof
    assume ?R
    then obtain w v w' where w: "p = w @ v @ w'" "list_all jv_blank w" "json_value jv_blank 255 v" "list_all jv_blank w'" by blast
    then obtain c t where "v = c # t" "\<not> jv_blank c" using ne by blast
    then have "s = v @ w'" using w(1,2) by (simp add: s_def list_all_iff dropWhile_append2)
    then show "\<exists>v w'. s = v @ w' \<and> json_value jv_blank 255 v \<and> list_all jv_blank w'" using w by blast
  next
    assume "\<exists>v w'. s = v @ w' \<and> json_value jv_blank 255 v \<and> list_all jv_blank w'"
    moreover have "list_all jv_blank (takeWhile jv_blank p)" by (auto simp: list_all_iff dest: set_takeWhileD)
    ultimately show ?R using p by metis
  qed
  show ?thesis
  proof (cases s)
    case Nil
    then have "yep_json_document p \<noteq> None" by (simp add: yep_json_document_def jv_ws_drop s_def [symmetric])
    then show ?thesis unfolding split using Nil ne by fastforce
  next
    case (Cons c t)
    then have nb: "\<not> jv_blank c" using hd_dropWhile [of jv_blank p] by (auto simp: s_def)
    have "yep_json_document p = None \<longleftrightarrow> (\<exists>r. doc_loop [doc_root] (c # t) = Inr r \<and> list_all jv_blank r)"
      by (simp add: yep_json_document_def jv_ws_drop s_def [symmetric] Cons doc_root_def Let_def list_all_iff split: sum.split)
    then show ?thesis unfolding split Cons doc_root_value [OF nb] .
  qed
qed

section \<open>The strict walker is such a machine\<close>

text \<open>A consumer: it asks for tokens until the walker is done or rejects.\<close>

lemma walk_value_shrinks: "walk_scalar w t = (True, w', t') \<Longrightarrow> jw_i w \<noteq> [] \<Longrightarrow> length (jw_i w') < length (jw_i w)"
  using yep_json_string_shrinks [of "jw_i w"] yep_json_number_shrinks [of "jw_i w"]
  by (auto simp: walk_scalar_def Let_def yep_json_literal_def literal_match_iff split: if_splits option.splits prod.splits)

lemma walk_turn_shrinks: "walk_turn w t = (Some YEP_JW_OK, w', t') \<Longrightarrow> jw_i w \<noteq> [] \<Longrightarrow> length (jw_i w') < length (jw_i w)"
  using walk_value_shrinks [of w t]
  by (auto simp: walk_turn_def walk_close_def walk_open_def walk_value_def walk_expect_def Let_def map_prod_def
      split: if_splits prod.splits)

lemma json_ws_shrinks: "yep_json_ws s tab = (k, s', tab') \<Longrightarrow> length s' \<le> length s"
  by (induction s) (auto split: if_splits)

lemma walk_next_ok: "yep_json_walk_next w t = (YEP_JW_OK, w', t') \<Longrightarrow> length (jw_i w') < length (jw_i w)"
proof (induction w t rule: yep_json_walk_next.induct)
  case (1 w t)
  obtain k s tab where ws: "yep_json_ws (jw_i w) (jw_saw_tab w) = (k, s, tab)" by (cases "yep_json_ws (jw_i w) (jw_saw_tab w)") auto
  let ?w = "w\<lparr>jw_i := s, jw_saw_tab := tab\<rparr>"
  have k: "k = 1" using 1(2) ws by (auto simp: yep_json_walk_next.simps [of w t] split: if_splits)
  then have s: "s \<noteq> []" "length s \<le> length (jw_i w)" using json_ws_token [of "jw_i w"] ws by auto
  obtain st w1 t1 where turn: "walk_turn ?w t = (st, w1, t1)" by (cases "walk_turn ?w t") auto
  show ?case
  proof (cases st)
    case None
    then have "length (jw_i w') < length (jw_i w1)"
      using 1 ws k turn by (auto simp: yep_json_walk_next.simps [of w t])
    moreover have "length (jw_i w1) < length (jw_i w)" using walk_next_shrinks ws k turn None by blast
    ultimately show ?thesis by simp
  next
    case (Some a)
    then have "a = YEP_JW_OK" "w' = w1" using 1(2) ws k turn by (auto simp: yep_json_walk_next.simps [of w t])
    then show ?thesis using walk_turn_shrinks [of ?w t w1 t1] turn Some s by simp
  qed
qed

function walk_all :: "yep_json_walk \<Rightarrow> yep_json_tok \<Rightarrow> yep_json_walk option" where
  "walk_all w t =
     (case yep_json_walk_next w t of
        (YEP_JW_OK, w, t) \<Rightarrow> walk_all w t
      | (YEP_JW_DONE, w, t) \<Rightarrow> Some w
      | (YEP_JW_REJECT, w, t) \<Rightarrow> None)"
  by pat_completeness auto
termination by (relation "measure (\<lambda>(w, t). length (jw_i w))") (auto intro: walk_next_ok [OF sym])

declare walk_all.simps [simp del]

definition walk_blank :: "byte \<Rightarrow> bool" where
  "walk_blank c \<longleftrightarrow> c = 0x20 \<or> c = 0x0A \<or> c = 0x0D"

lemma walk_all_end: "jw_i w = [] \<Longrightarrow> walk_all w t = None"
  by (simp add: walk_all.simps yep_json_walk_next.simps)

lemma walk_all_turn:
  assumes "jw_i w = c # s" "\<not> walk_blank c"
  shows "walk_all w t =
    (if c = 0x09 then None
     else case walk_turn w t of
            (None, w, t) \<Rightarrow> walk_all w t
          | (Some YEP_JW_OK, w, t) \<Rightarrow> walk_all w t
          | (Some YEP_JW_DONE, w, t) \<Rightarrow> Some w
          | (Some YEP_JW_REJECT, w, t) \<Rightarrow> None)"
proof -
  have same: "w\<lparr>jw_i := c # s, jw_saw_tab := jw_saw_tab w\<rparr> = w" using assms(1) by simp
  have "yep_json_ws (jw_i w) (jw_saw_tab w) = (if c = 0x09 then (0, c # s, True) else (1, c # s, jw_saw_tab w))"
    using assms by (simp add: walk_blank_def)
  moreover obtain st w1 t1 where turn: "walk_turn w t = (st, w1, t1)" by (cases "walk_turn w t") auto
  ultimately show ?thesis
  proof (cases st)
    case None
    with \<open>yep_json_ws _ _ = _\<close> show ?thesis
      by (simp add: walk_all.simps [of w t] walk_all.simps [of w1 t1] yep_json_walk_next.simps [of w t] turn same)
  next
    case (Some a)
    with \<open>yep_json_ws _ _ = _\<close> show ?thesis
      by (simp add: walk_all.simps [of w t] yep_json_walk_next.simps [of w t] turn same split: yep_jw_status.split)
  qed
qed

lemma walk_all_blank:
  assumes "jw_i w = c # s" "walk_blank c"
  shows "walk_all w t = walk_all (w\<lparr>jw_i := s\<rparr>) t"
  using assms by (cases "yep_json_ws s (jw_saw_tab w)") (simp add: walk_all.simps [of w] walk_all.simps [of "w\<lparr>jw_i := s\<rparr>"] yep_json_walk_next.simps [of w]
      yep_json_walk_next.simps [of "w\<lparr>jw_i := s\<rparr>"] walk_blank_def)

text \<open>The number of containers the walker may have open: the outermost one is always admitted.\<close>

definition walk_limit :: "int \<Rightarrow> nat" where
  "walk_limit md = max 1 (min YEP_JSON_WALK_DEPTH (nat md))"

lemma walk_limit_open:
  "\<not> (YEP_JSON_WALK_DEPTH \<le> Suc n \<or> md \<le> int (Suc n)) \<longleftrightarrow> n + 1 < walk_limit md"
  by (auto simp: walk_limit_def YEP_JSON_WALK_DEPTH_def)

text \<open>One turn of the walker is one step of the machine.\<close>

definition turn_result :: "yep_json_walk \<Rightarrow> json_frame list \<Rightarrow> byte list \<Rightarrow> yep_jw_status option \<times> yep_json_walk \<times> yep_json_tok \<Rightarrow> bool" where
  "turn_result w fs s res \<longleftrightarrow>
     (case res of (st, w', t') \<Rightarrow>
        jw_frames w' = fs \<and> jw_i w' = s \<and> jw_strict w' \<and> jw_max_depth w' = jw_max_depth w \<and> jw_p w' = jw_p w \<and>
        (if fs = [] then st = Some YEP_JW_DONE \<and> jw_close w' = length (jw_p w) - Suc (length s)
         else st = None \<or> st = Some YEP_JW_OK))"

lemma literal_cases:
  "doc_scalar s = (let c = hd s in
      if c = 0x22 then (case yep_json_string s of None \<Rightarrow> Inl s | Some (he, r) \<Rightarrow> Inr r)
      else if c = 0x2D \<or> is_digit c then (case yep_json_number s of None \<Rightarrow> Inl s | Some r \<Rightarrow> Inr r)
      else if c = 0x74 \<or> c = 0x66 \<or> c = 0x6E then
        (case yep_json_literal s (if c = 0x74 then bytes_of ''true'' else if c = 0x66 then bytes_of ''false'' else bytes_of ''null'')
         of (ok, r) \<Rightarrow> if ok then Inr r else Inl r)
      else Inl s)"
  unfolding doc_scalar_def Let_def by simp

lemma walk_scalar_result:
  assumes "jw_i w = c # s"
  shows "case scalar_end (c # s) of
      None \<Rightarrow> \<exists>w' t'. walk_scalar w t = (False, w', t')
    | Some r \<Rightarrow> \<exists>w' t'. walk_scalar w t = (True, w', t') \<and> (tok_cls t' = 0x22 \<longleftrightarrow> c = 0x22) \<and> jw_i w' = r \<and>
        jw_frames w' = jw_frames w \<and> jw_strict w' = jw_strict w \<and> jw_max_depth w' = jw_max_depth w \<and> jw_p w' = jw_p w"
proof -
  consider (string) "c = 0x22" | (number) "c \<noteq> 0x22" "c = 0x2D \<or> is_digit c"
    | (word) "c \<noteq> 0x22" "c \<noteq> 0x2D" "\<not> is_digit c" "c = 0x74 \<or> c = 0x66 \<or> c = 0x6E"
    | (other) "c \<noteq> 0x22" "c \<noteq> 0x2D" "\<not> is_digit c" "\<not> (c = 0x74 \<or> c = 0x66 \<or> c = 0x6E)" by blast
  then show ?thesis
  proof cases
    case string
    then show ?thesis using assms
      by (cases "yep_json_string (c # s)") (auto simp: scalar_end_def literal_cases walk_scalar_def Let_def)
  next
    case number
    then show ?thesis using assms
      by (cases "yep_json_number_scan (c # s)") (auto simp: scalar_end_def literal_cases walk_scalar_def yep_json_number_def Let_def)
  next
    case word
    note facts = assms scalar_end_def literal_cases walk_scalar_def Let_def is_digit_def
    from word(4) show ?thesis
    proof (elim disjE)
      assume "c = 0x74"
      then show ?thesis by (cases "yep_json_literal (c # s) (bytes_of ''true'')") (auto simp: facts)
    next
      assume "c = 0x66"
      then show ?thesis by (cases "yep_json_literal (c # s) (bytes_of ''false'')") (auto simp: facts)
    next
      assume "c = 0x6E"
      then show ?thesis by (cases "yep_json_literal (c # s) (bytes_of ''null'')") (auto simp: facts)
    qed
  next
    case other
    then show ?thesis using assms by (simp add: scalar_end_def literal_cases walk_scalar_def Let_def)
  qed
qed

lemma walk_turn_result:
  assumes "jw_frames w = f # fs" "jw_i w = c # s" "jw_strict w"
  shows "case json_step (walk_limit (jw_max_depth w)) f fs (c # s) of
      None \<Rightarrow> \<exists>w' t'. walk_turn w t = (Some YEP_JW_REJECT, w', t')
    | Some (fs', s') \<Rightarrow> turn_result w fs' s' (walk_turn w t)"
proof -
  obtain k ex where f: "f = (k, ex)" by (cases f)
  note facts = f assms walk_turn_def json_step_def turn_result_def walk_expect_def Let_def
  consider (close) "c = 0x5D \<or> c = 0x7D" | (colon) "c \<noteq> 0x5D" "c \<noteq> 0x7D" "ex = JV_COLON"
    | (comma) "c \<noteq> 0x5D" "c \<noteq> 0x7D" "ex = JV_COMMA_OR_CLOSE"
    | (bracket) "c = 0x5B \<or> c = 0x7B" "ex \<noteq> JV_COLON" "ex \<noteq> JV_COMMA_OR_CLOSE"
    | (scalar) "c \<noteq> 0x5D" "c \<noteq> 0x7D" "c \<noteq> 0x5B" "c \<noteq> 0x7B" "ex \<noteq> JV_COLON" "ex \<noteq> JV_COMMA_OR_CLOSE" by blast
  then show ?thesis
  proof cases
    case close
    then show ?thesis
      by (cases fs) (auto simp: facts walk_close_def close_byte_def resume_def walk_pos_def)
  next
    case colon
    then show ?thesis by (auto simp: facts)
  next
    case comma
    then show ?thesis by (auto simp: facts next_state_def)
  next
    case bracket
    then show ?thesis
      using walk_limit_open [of "length fs" "jw_max_depth w"]
      by (auto simp: facts walk_open_def key_expected_def key_state_def first_state_def)
  next
    case scalar
    show ?thesis
    proof (cases "scalar_end (c # s)")
      case None
      then obtain w' t' where "walk_scalar w t = (False, w', t')" using walk_scalar_result [OF assms(2), of t] by auto
      then show ?thesis using scalar None by (simp add: facts walk_value_def)
    next
      case (Some r)
      then obtain w' t' where "walk_scalar w t = (True, w', t')" "tok_cls t' = 0x22 \<longleftrightarrow> c = 0x22" "jw_i w' = r"
        "jw_frames w' = jw_frames w" "jw_strict w'" "jw_max_depth w' = jw_max_depth w" "jw_p w' = jw_p w"
        using walk_scalar_result [OF assms(2), of t] assms(3) by auto
      then show ?thesis using scalar Some by (auto simp: facts walk_value_def key_state_def)
    qed
  qed
qed

text \<open>The walker depends on the frames, the cursor, the mode and the depth bound only.\<close>

definition walk_run :: "int \<Rightarrow> json_frame list \<Rightarrow> byte list \<Rightarrow> byte list option" where
  "walk_run md fs s =
     (if fs = [] then Some s
      else map_option jw_i (walk_all
        \<lparr>jw_p = [], jw_max_depth = md, jw_i = s, jw_close = 0, jw_long_key = False, jw_saw_tab = False,
         jw_strict = True, jw_frames = fs\<rparr>
        \<lparr>tok_at = 0, tok_end = 0, tok_cls = 0, tok_has_escape = False, tok_num = None\<rparr>))"

definition walk_core :: "yep_json_walk \<Rightarrow> json_frame list \<times> byte list \<times> bool \<times> int" where
  "walk_core w = (jw_frames w, jw_i w, jw_strict w, jw_max_depth w)"

lemma walk_all_token:
  assumes "jw_frames w = f # fs" "jw_i w = c # s" "jw_strict w" "\<not> walk_blank c"
  shows "case json_step (walk_limit (jw_max_depth w)) f fs (c # s) of
      None \<Rightarrow> walk_all w t = None
    | Some (fs', s') \<Rightarrow> (\<exists>st w' t'. turn_result w fs' s' (st, w', t') \<and> walk_all w t = (if fs' = [] then Some w' else walk_all w' t'))"
proof (cases "c = 0x09")
  case True
  then have "scalar_end (c # s) = None" by (simp add: scalar_end_def doc_scalar_def is_digit_def)
  then show ?thesis using True walk_all_turn [OF assms(2,4)] by (simp add: json_step_def)
next
  case False
  obtain st w1 t1 where turn: "walk_turn w t = (st, w1, t1)" by (cases "walk_turn w t") auto
  show ?thesis
    using walk_turn_result [OF assms(1-3), of t] walk_all_turn [OF assms(2,4), of t] False
    by (auto simp: turn turn_result_def split: option.splits prod.splits if_splits)
qed

lemma walk_all_core:
  assumes "walk_core w1 = walk_core w2" "jw_strict w1" "jw_frames w1 \<noteq> []"
  shows "map_option jw_i (walk_all w1 t1) = map_option jw_i (walk_all w2 t2)"
  using assms
proof (induction "length (jw_i w1)" arbitrary: w1 w2 t1 t2 rule: less_induct)
  case less
  then obtain f fs where w1: "jw_frames w1 = f # fs" and w2: "jw_frames w2 = f # fs" "jw_i w2 = jw_i w1" "jw_strict w2"
    "jw_max_depth w2 = jw_max_depth w1" by (cases "jw_frames w1") (auto simp: walk_core_def)
  show ?case
  proof (cases "jw_i w1")
    case Nil
    then show ?thesis using walk_all_end w2 by simp
  next
    case (Cons c s)
    show ?thesis
    proof (cases "walk_blank c")
      case True
      have "map_option jw_i (walk_all (w1\<lparr>jw_i := s\<rparr>) t1) = map_option jw_i (walk_all (w2\<lparr>jw_i := s\<rparr>) t2)"
        using less.prems w2(2) [unfolded Cons] by (intro less.hyps) (simp_all add: walk_core_def Cons)
      then show ?thesis using walk_all_blank [of w1 c s] walk_all_blank [of w2 c s] Cons w2 True by simp
    next
      case nb: False
      note step1 = walk_all_token [OF w1 Cons less.prems(2) nb, of t1]
      have i2: "jw_i w2 = c # s" using w2 Cons by simp
      note step2 = walk_all_token [OF w2(1) i2 w2(3) nb, of t2, unfolded w2(4)]
      show ?thesis
      proof (cases "json_step (walk_limit (jw_max_depth w1)) f fs (c # s)")
        case None
        then show ?thesis using step1 step2 by simp
      next
        case (Some q)
        obtain fs' s' where q: "q = (fs', s')" by (cases q)
        obtain st w1' t1' where 1: "turn_result w1 fs' s' (st, w1', t1')" "walk_all w1 t1 = (if fs' = [] then Some w1' else walk_all w1' t1')"
          using step1 Some q by auto
        obtain st2 w2' t2' where 2: "turn_result w2 fs' s' (st2, w2', t2')" "walk_all w2 t2 = (if fs' = [] then Some w2' else walk_all w2' t2')"
          using step2 Some q by auto
        have "length s' < length (c # s)" using json_step_shrinks Some q by blast
        then have "fs' \<noteq> [] \<Longrightarrow> map_option jw_i (walk_all w1' t1') = map_option jw_i (walk_all w2' t2')"
          using 1(1) 2(1) w2(4) Cons by (intro less.hyps) (auto simp: turn_result_def walk_core_def)
        then show ?thesis using 1 2 by (auto simp: turn_result_def)
      qed
    qed
  qed
qed

lemma walk_all_close:
  assumes "walk_all w t = Some w'" "jw_strict w" "jw_frames w \<noteq> []"
  shows "jw_close w' = length (jw_p w) - Suc (length (jw_i w'))"
  using assms
proof (induction "length (jw_i w)" arbitrary: w t rule: less_induct)
  case less
  then obtain f fs where w: "jw_frames w = f # fs" by (cases "jw_frames w") auto
  obtain c s where i: "jw_i w = c # s" using less.prems(1) walk_all_end [of w t] by (cases "jw_i w") auto
  show ?case
  proof (cases "walk_blank c")
    case True
    then show ?thesis using less.hyps [of "w\<lparr>jw_i := s\<rparr>" t] less.prems walk_all_blank [OF i, of t] i by simp
  next
    case nb: False
    then obtain fs' s' st w1 t1 where 1: "json_step (walk_limit (jw_max_depth w)) f fs (c # s) = Some (fs', s')"
      "turn_result w fs' s' (st, w1, t1)" "walk_all w t = (if fs' = [] then Some w1 else walk_all w1 t1)"
      using walk_all_token [OF w i less.prems(2) nb, of t] less.prems(1) by (auto split: option.splits)
    have "length s' < length (c # s)" using json_step_shrinks 1(1) by blast
    then show ?thesis using less.hyps [of w1 t1] less.prems(1) 1(2,3) i
      by (auto simp: turn_result_def split: if_splits)
  qed
qed

lemma walk_all_run:
  "jw_strict w \<Longrightarrow> jw_frames w \<noteq> [] \<Longrightarrow> map_option jw_i (walk_all w t) = walk_run (jw_max_depth w) (jw_frames w) (jw_i w)"
  unfolding walk_run_def by (simp, intro walk_all_core) (simp_all add: walk_core_def)

interpretation walker: json_machine "walk_run md" walk_blank "walk_limit md" for md
proof
  fix c f fs s
  let ?w = "\<lparr>jw_p = [], jw_max_depth = md, jw_i = c # s, jw_close = 0, jw_long_key = False, jw_saw_tab = False,
         jw_strict = True, jw_frames = f # fs\<rparr>"
  let ?t = "\<lparr>tok_at = 0, tok_end = 0, tok_cls = 0, tok_has_escape = False, tok_num = None\<rparr>"
  assume nb: "\<not> walk_blank c"
  show "walk_run md (f # fs) (c # s) =
      (case json_step (walk_limit md) f fs (c # s) of None \<Rightarrow> None | Some (fs', s') \<Rightarrow> walk_run md fs' s')"
  proof (cases "json_step (walk_limit md) f fs (c # s)")
    case None
    then show ?thesis using walk_all_token [of ?w f fs c s ?t] nb by (simp add: walk_run_def)
  next
    case (Some q)
    obtain fs' s' where q: "q = (fs', s')" by (cases q)
    then obtain st w' t' where w': "turn_result ?w fs' s' (st, w', t')" "walk_all ?w ?t = (if fs' = [] then Some w' else walk_all w' t')"
      using walk_all_token [of ?w f fs c s ?t] nb Some by auto
    have "fs' \<noteq> [] \<Longrightarrow> map_option jw_i (walk_all w' t') = walk_run md fs' s'"
      using walk_all_run [of w' t'] w'(1) by (simp add: turn_result_def)
    moreover have "walk_run md (f # fs) (c # s) = map_option jw_i (walk_all ?w ?t)" by (simp add: walk_run_def)
    ultimately show ?thesis using w' Some q by (simp add: turn_result_def walk_run_def [of md "[]"])
  qed
qed (auto simp: walk_limit_def walk_blank_def jv_blank_def walk_run_def walk_all_end walk_all_blank)

lemma walk_grammar:
  assumes "open < length p" "p ! open = 0x5B \<or> p ! open = 0x7B"
  shows "(\<exists>w'. walk_all (yep_json_walk_init p open md\<lparr>jw_strict := True\<rparr>) t = Some w' \<and> jw_i w' = r \<and>
       jw_close w' = length p - Suc (length r)) \<longleftrightarrow>
     (\<exists>v. drop open p = v @ r \<and> json_value walk_blank (walk_limit md) v)"
proof -
  let ?w = "yep_json_walk_init p open md\<lparr>jw_strict := True\<rparr>"
  define k where "k = (p ! open \<noteq> 0x5B)"
  have w: "jw_strict ?w" "jw_frames ?w = [(k, first_state k)]" "jw_i ?w = drop (Suc open) p" "jw_p ?w = p" "jw_max_depth ?w = md"
    by (simp_all add: yep_json_walk_init_def k_def first_state_def Let_def)
  have dr: "drop open p = open_byte k # drop (Suc open) p"
    using assms Cons_nth_drop_Suc [OF assms(1)] by (auto simp: k_def open_byte_def)
  have "(\<exists>w'. walk_all ?w t = Some w' \<and> jw_i w' = r \<and> jw_close w' = length p - Suc (length r)) \<longleftrightarrow>
      map_option jw_i (walk_all ?w t) = Some r"
    using walk_all_close [of ?w t] w by (auto simp: map_option_case split: option.splits)
  also have "\<dots> \<longleftrightarrow> walk_run md [(k, first_state k)] (drop (Suc open) p) = Some r"
    using walk_all_run [of ?w t] w by simp
  also have "\<dots> \<longleftrightarrow> (\<exists>v. drop open p = v @ r \<and> json_value walk_blank (walk_limit md) v)"
    unfolding walker.run_container dr ..
  finally show ?thesis .
qed

text \<open>Brackets inside each other.\<close>

definition nest :: "nat \<Rightarrow> byte list" where
  "nest n = replicate n 0x5B @ replicate n 0x5D"

lemma nest_Suc: "nest (Suc n) = [0x5B] @ nest n @ [0x5D]"
  by (simp add: nest_def replicate_append_same)

lemma nest_value: "n \<le> d \<Longrightarrow> 0 < n \<Longrightarrow> json_value b d (nest n)"
proof (induction n arbitrary: d)
  case (Suc n)
  then obtain d' where d: "d = Suc d'" by (cases d) auto
  show ?case
  proof (cases "n = 0")
    case True
    then show ?thesis using array0 [of b "[]" d'] by (simp add: d nest_def)
  next
    case False
    then have "json_elements b d' ([] @ nest n @ [])" using Suc d by (intro element) simp_all
    then show ?thesis unfolding nest_Suc d by (intro array1) simp
  qed
qed simp

lemma validator_opens:
  "0 < k \<Longrightarrow> k \<le> 255 \<Longrightarrow> 255 < k + m \<Longrightarrow> doc_run (replicate k (False, JV_VALUE_OR_CLOSE)) (replicate m 0x5B @ s) = None"
proof (induction m arbitrary: k)
  case (Suc m)
  obtain k' where k: "k = Suc k'" using Suc.prems by (cases k) auto
  have step: "doc_run (replicate k (False, JV_VALUE_OR_CLOSE)) (0x5B # q) =
      (if k < 255 then doc_run (replicate (Suc k) (False, JV_VALUE_OR_CLOSE)) q else None)" for q
    using validator.run_step [where c = "0x5B" and f = "(False, JV_VALUE_OR_CLOSE)" and fs = "replicate k' (False, JV_VALUE_OR_CLOSE)" and s = q]
    by (simp add: k jv_blank_def json_step_def key_state_def first_state_def)
  show ?case
  proof (cases "k < 255")
    case True
    then show ?thesis using Suc.IH [of "Suc k"] Suc.prems step [of "replicate m 0x5B @ s"] by simp
  next
    case False
    then show ?thesis using step [of "replicate m 0x5B @ s"] by simp
  qed
qed simp

lemma nest_256_rejected: "yep_json_document (nest 256) \<noteq> None"
proof
  assume "yep_json_document (nest 256) = None"
  then obtain w v w' where v: "nest 256 = w @ v @ w'" "list_all jv_blank w" "json_value jv_blank 255 v" "list_all jv_blank w'"
    unfolding document_grammar by blast
  have "\<not> jv_blank c" if "c \<in> set (nest 256)" for c
    using that by (auto simp: nest_def jv_blank_def)
  then have "w = []" "w' = []" using v(1,2,4) by (cases w; cases w'; auto simp: list_all_iff)+
  then have "open_byte False # replicate 255 0x5B @ replicate 256 0x5D = v @ []"
    using v(1) replicate_Suc [of 255 "0x5B :: byte"] by (simp add: nest_def open_byte_def del: replicate_Suc)
  then have "doc_run [(False, first_state False)] (replicate 255 0x5B @ replicate 256 0x5D) = Some []"
    using validator.run_container v(3) by blast
  then show False using validator_opens [of 1 255 "replicate 256 0x5D"] by (simp add: first_state_def)
qed

lemma nest_256_walked: "\<exists>w'. walk_all (yep_json_walk_init (nest 256) 0 256\<lparr>jw_strict := True\<rparr>) t = Some w'"
proof -
  have "drop 0 (nest 256) = nest 256 @ [] \<and> json_value walk_blank (walk_limit 256) (nest 256)"
    using nest_value [of 256 256 walk_blank] by (simp add: walk_limit_def YEP_JSON_WALK_DEPTH_def)
  moreover have "0 < length (nest 256)" "nest 256 ! 0 = 0x5B" by (simp_all add: nest_def nth_append)
  ultimately show ?thesis using walk_grammar [of 0 "nest 256" 256 t "[]"] by blast
qed

section \<open>The properties\<close>

text \<open>
  C32. The string scanner accepts exactly the strict JSON strings: from the opening quote over
  raw characters that are no control, quote or backslash and over escapes (surrogates only as a
  high-low pair) to the closing quote, and reports exactly whether an escape occurs. The
  eight-byte path for short strings changes nothing, and nothing is accepted that does not
  start with a quote the caller has seen.
\<close>

theorem json_string_exact:
  "yep_json_string (0x22 # s) = Some (e, r) \<longleftrightarrow> (\<exists>x. s = x @ 0x22 # r \<and> json_chars e x)"
  by (rule json_string_grammar)

text \<open>
  C33. The validator accepts a text exactly when it is one value of the strict grammar between
  blanks, with at most 255 containers inside each other (the virtual root takes one of the 256
  frames). The strict grammar is that of RFC 8259 but for its strings: these are the strings of the
  RFC in which every surrogate escape belongs to a high-low pair. The stack machine over state
  arrays so computes the nested grammar, and it always ends.
\<close>

theorem json_document_exact:
  "(yep_json_document p = None \<longleftrightarrow>
     (\<exists>w v w'. p = w @ v @ w' \<and> list_all jv_blank w \<and> json_value jv_blank 255 v \<and> list_all jv_blank w')) \<and>
   (json_string t \<longleftrightarrow> (\<exists>x us. t = 0x22 # x @ [0x22] \<and> rfc_chars us x \<and> paired us))"
proof
  show "json_string t \<longleftrightarrow> (\<exists>x us. t = 0x22 # x @ [0x22] \<and> rfc_chars us x \<and> paired us)"
    unfolding json_string_def using strict_rfc rfc_strict by blast
qed (rule document_grammar)

text \<open>
  C34. A consumer that asks the strict walker for tokens, from an opening bracket at \<open>open\<close> on,
  reaches the end exactly when a JSON container with tab-free white space starts there whose
  nesting stays within 256 and the configured depth (the outermost container is always
  admitted). The walker then stands right after the container and has recorded the position of
  its closing bracket. It ends for every text.
\<close>

theorem json_walk_exact:
  assumes "open < length p" "p ! open = 0x5B \<or> p ! open = 0x7B"
  shows "(\<exists>w'. walk_all (yep_json_walk_init p open md\<lparr>jw_strict := True\<rparr>) t = Some w' \<and> jw_i w' = r \<and>
       jw_close w' = length p - Suc (length r)) \<longleftrightarrow>
     (\<exists>v. drop open p = v @ r \<and> json_value walk_blank (walk_limit md) v)"
  using assms by (rule walk_grammar)

theorem json_walk_exact_witness:
  "\<exists>w'. walk_all (yep_json_walk_init [0x20, 0x5B, 0x5D, 0x2C] 1 9\<lparr>jw_strict := True\<rparr>)
       \<lparr>tok_at = 0, tok_end = 0, tok_cls = 0, tok_has_escape = False, tok_num = None\<rparr> = Some w' \<and>
     jw_i w' = [0x2C] \<and> jw_close w' = 2"
proof -
  have "json_value walk_blank (walk_limit 9) [0x5B, 0x5D]"
    using array0 [of walk_blank "[]" 8] by (simp add: walk_limit_def YEP_JSON_WALK_DEPTH_def)
  then show ?thesis
    using json_walk_exact [of 1 "[0x20, 0x5B, 0x5D, 0x2C]" 9 _ "[0x2C]"] by (simp add: numeral_2_eq_2)
qed

text \<open>
  The two grammars of the file do not have the same depth: 255 nested arrays are accepted
  by the validator, 256 are refused by it although the strict walker at the depth bound 256
  takes them.
\<close>

theorem json_depth_differs:
  "yep_json_document (nest 255) = None \<and> yep_json_document (nest 256) \<noteq> None \<and>
   (\<exists>w'. walk_all (yep_json_walk_init (nest 256) 0 256\<lparr>jw_strict := True\<rparr>) t = Some w')"
proof -
  have "nest 255 = [] @ nest 255 @ []" "list_all jv_blank []" "json_value jv_blank 255 (nest 255)"
    using nest_value [of 255 255 jv_blank] by simp_all
  then have "yep_json_document (nest 255) = None" unfolding document_grammar by blast
  then show ?thesis using nest_256_rejected nest_256_walked by blast
qed

end
