(* ===== verification/Scan.thy ===== *)
theory Scan
  imports Kernels
begin

text \<open>
  Line facts and span location, \<^verbatim>\<open>src/yeptris/scan/scan.[ch]\<close>.

  A buffer is a byte list with an offset into it; a \<^verbatim>\<open>size_t\<close> offset is a natural number and a
  \<^verbatim>\<open>uint32_t\<close> field is a word, converted where the code converts it. The active text kernels
  are the scalar reference ones. The \<^verbatim>\<open>uint32_t\<close> loop counters of the plain-safety test are
  natural numbers: they stay below the text's length plus eight, and no text has \<^verbatim>\<open>UINT32_MAX - 8\<close>
  bytes or more.
\<close>

section \<open>Breaks\<close>

definition yep_scan_mb_break_len :: "byte list \<Rightarrow> nat \<Rightarrow> nat" where
  "yep_scan_mb_break_len p pos =
     (if pos + 1 < length p \<and> p ! pos = 0xC2 \<and> p ! (pos + 1) = 0x85 then 2
      else if pos + 2 < length p \<and> p ! pos = 0xE2 \<and> p ! (pos + 1) = 0x80 \<and> (p ! (pos + 2)) AND 0xFE = 0xA8 then 3
      else 0)"

definition yep_scan_break_len :: "byte list \<Rightarrow> nat \<Rightarrow> nat" where
  "yep_scan_break_len p pos =
     (if length p \<le> pos then 0
      else if p ! pos = 0x0A then 1
      else if p ! pos = 0x0D then if pos + 1 < length p \<and> p ! (pos + 1) = 0x0A then 2 else 1
      else yep_scan_mb_break_len p pos)"

function advance_loop :: "byte list \<Rightarrow> nat \<Rightarrow> nat \<Rightarrow> u32 \<times> nat \<Rightarrow> u32 \<times> nat" where
  "advance_loop p to i acc =
     (if i < to then
        let (line, line_start) = acc in
        if p ! i = 0x0A then advance_loop p to (i + 1) (line + 1, i + 1)
        else if p ! i = 0x0D \<and> i + 1 < to \<and> p ! (i + 1) \<noteq> 0x0A then advance_loop p to (i + 1) (line + 1, i + 1)
        else
          let mb = yep_scan_mb_break_len (take to p) i in
          if 0 < mb then advance_loop p to (i + mb) (line + 1, i + mb) else advance_loop p to (i + 1) acc
      else acc)"
  by pat_completeness auto
termination by (relation "measure (\<lambda>(p, to, i, acc). to - i)") auto

declare advance_loop.simps [simp del]

text \<open>The new \<^verbatim>\<open>*from\<close>, \<^verbatim>\<open>*line\<close> and \<^verbatim>\<open>*line_start\<close>.\<close>

definition yep_scan_advance_line :: "byte list \<Rightarrow> nat \<Rightarrow> nat \<Rightarrow> u32 \<times> nat \<Rightarrow> nat \<times> u32 \<times> nat" where
  "yep_scan_advance_line p from to acc = (to, advance_loop p to from acc)"

section \<open>Line information\<close>

record yep_line_info =
  li_offset :: u32
  li_end :: u32
  li_indent :: u32
  li_flags :: u16
  li_first :: byte

definition YEP_LF_BLANK :: u16 where "YEP_LF_BLANK = push_bit 0 1"
definition YEP_LF_COMMENT :: u16 where "YEP_LF_COMMENT = push_bit 1 1"
definition YEP_LF_DOC_START :: u16 where "YEP_LF_DOC_START = push_bit 2 1"
definition YEP_LF_DOC_END :: u16 where "YEP_LF_DOC_END = push_bit 3 1"
definition YEP_LF_DIRECTIVE :: u16 where "YEP_LF_DIRECTIVE = push_bit 4 1"
definition YEP_LF_TAB :: u16 where "YEP_LF_TAB = push_bit 5 1"

definition is_blank :: "byte \<Rightarrow> bool" where
  "is_blank c \<longleftrightarrow> c = 0x20 \<or> c = 0x09"

definition is_break :: "byte \<Rightarrow> bool" where
  "is_break c \<longleftrightarrow> c = 0x0A \<or> c = 0x0D"

text \<open>The loops that move an offset forward or backward over blanks.\<close>

definition skip_blanks :: "byte list \<Rightarrow> nat \<Rightarrow> nat \<Rightarrow> nat" where
  "skip_blanks p i to = i + length (takeWhile is_blank (take (to - i) (drop i p)))"

fun trim_blanks :: "byte list \<Rightarrow> nat \<Rightarrow> nat \<Rightarrow> nat" where
  "trim_blanks p start 0 = 0"
| "trim_blanks p start (Suc e) = (if start < Suc e \<and> is_blank (p ! e) then trim_blanks p start e else Suc e)"

definition yep_scan_facts :: "byte list \<Rightarrow> nat \<Rightarrow> yep_line_facts" where
  "yep_scan_facts p pos = the (yep_text_line_facts_scalar p pos)"

definition marker_at :: "byte list \<Rightarrow> nat \<Rightarrow> nat \<Rightarrow> byte \<Rightarrow> bool" where
  "marker_at p j en c \<longleftrightarrow>
     3 \<le> en - j \<and> take 3 (drop j p) = [c, c, c] \<and> (en - j = 3 \<or> p ! (j + 3) = 0x20 \<or> p ! (j + 3) = 0x09)"

definition yep_scan_line_f :: "byte list \<Rightarrow> nat \<Rightarrow> yep_line_facts \<Rightarrow> yep_line_info" where
  "yep_scan_line_f p pos f =
     (let j = unat (lf_indent f); en = unat (lf_end f);
          li = \<lparr>li_offset = of_nat pos, li_end = lf_end f, li_indent = of_nat j - of_nat pos, li_flags = 0, li_first = 0\<rparr>;
          tab = (j < en \<and> p ! j = 0x09)
      in if tab \<and> en \<le> skip_blanks p j en then
           (if li_indent li = 0 then li\<lparr>li_flags := YEP_LF_BLANK OR YEP_LF_TAB\<rparr> else li\<lparr>li_flags := YEP_LF_BLANK\<rparr>)
         else
           let li = (if tab then li\<lparr>li_flags := li_flags li OR YEP_LF_TAB\<rparr> else li) in
           if en \<le> j then li\<lparr>li_flags := li_flags li OR YEP_LF_BLANK\<rparr>
           else
             let li = li\<lparr>li_first := p ! j\<rparr> in
             if li_first li = 0x23 then li\<lparr>li_flags := li_flags li OR YEP_LF_COMMENT\<rparr>
             else if li_first li = 0x25 \<and> li_indent li = 0 then li\<lparr>li_flags := li_flags li OR YEP_LF_DIRECTIVE\<rparr>
             else if li_indent li = 0 \<and> marker_at p j en 0x2D then li\<lparr>li_flags := li_flags li OR YEP_LF_DOC_START\<rparr>
             else if li_indent li = 0 \<and> marker_at p j en 0x2E then li\<lparr>li_flags := li_flags li OR YEP_LF_DOC_END\<rparr>
             else li)"

definition yep_scan_line :: "byte list \<Rightarrow> nat \<Rightarrow> yep_line_info" where
  "yep_scan_line p pos = yep_scan_line_f p pos (yep_scan_facts p pos)"

section \<open>Byte rules\<close>

definition yep_colon_terminates :: "byte list \<Rightarrow> nat \<Rightarrow> bool \<Rightarrow> bool" where
  "yep_colon_terminates p colon flow =
     (let next = colon + 1 in
      if length p \<le> next then True
      else
        let c = p ! next in
        if c = 0x20 \<or> c = 0x09 \<or> c = 0x0A \<or> c = 0x0D then True
        else if 0 < yep_scan_mb_break_len p next then True
        else if flow \<and> yep_ct_is c YEP_CT_FLOW_IND then True
        else False)"

definition yep_plain_first_ok :: "byte \<Rightarrow> bool" where
  "yep_plain_first_ok c \<longleftrightarrow> \<not> (c = 0x2C \<or> c = 0x5D \<or> c = 0x7D \<or> c = 0x25 \<or> c = 0x40 \<or> c = 0x60)"

definition yep_scan_prop_char :: "byte \<Rightarrow> bool" where
  "yep_scan_prop_char c \<longleftrightarrow>
     \<not> yep_ct_any c (YEP_CT_BLANK OR YEP_CT_LBREAK OR YEP_CT_FLOW_IND) \<and> c \<noteq> 0x2C \<and> c \<noteq> 0x23"

function yep_scan_prop_end :: "byte list \<Rightarrow> nat \<Rightarrow> nat" where
  "yep_scan_prop_end p pos =
     (if pos < length p then
        let c = p ! pos in
        if \<not> yep_scan_prop_char c then pos
        else if c = 0xC2 \<and> pos + 1 < length p \<and> p ! (pos + 1) = 0x85 then pos
        else if c = 0xE2 \<and> pos + 2 < length p \<and> p ! (pos + 1) = 0x80 \<and> (p ! (pos + 2)) AND 0xFE = 0xA8 then pos
        else yep_scan_prop_end p (pos + 1)
      else pos)"
  by pat_completeness auto
termination by (relation "measure (\<lambda>(p, pos). length p - pos)") auto

declare yep_scan_prop_end.simps [simp del]

definition yep_scan_tag_char :: "byte \<Rightarrow> bool" where
  "yep_scan_tag_char c \<longleftrightarrow>
     (if (0x30 \<le> c \<and> c \<le> 0x39) \<or> (0x41 \<le> c \<and> c \<le> 0x5A) \<or> (0x61 \<le> c \<and> c \<le> 0x7A) then True
      else if 0x80 \<le> c then True
      else c \<in> set (bytes_of ''-_;/?:@&=+$.!~*'' @ [0x27] @ bytes_of ''()%''))"

definition yep_scan_is_key_start :: "byte \<Rightarrow> bool" where
  "yep_scan_is_key_start c =
     (if c = 0x27 \<or> c = 0x22 \<or> c = 0x5B \<or> c = 0x7B \<or> c = 0x3F then True
      else if c = 0x26 \<or> c = 0x21 \<or> c = 0x2A then True
      else if yep_ct_is c YEP_CT_INDICATOR then False
      else yep_ct_is_ns c)"

fun yep_scan_dq_forced :: "byte list \<Rightarrow> bool" where
  "yep_scan_dq_forced (a # b # s) =
     (if a = 0xC2 \<and> b = 0x85 then True
      else if a = 0xE2 \<and> s \<noteq> [] \<and> b = 0x80 \<and> (hd s = 0xA8 \<or> hd s = 0xA9) then True
      else if a = 0xEF \<and> s \<noteq> [] \<and> b = 0xBB \<and> hd s = 0xBF then True
      else if a = 0xEF \<and> s \<noteq> [] \<and> b = 0xBF \<and> (hd s = 0xBE \<or> hd s = 0xBF) then True
      else yep_scan_dq_forced (b # s))"
| "yep_scan_dq_forced s = False"

section \<open>Stop sets\<close>

text \<open>The prebuilt literals; array members without an initialiser are zero.\<close>

definition yep_break_stopset :: yep_stopset where
  "yep_break_stopset =
     \<lparr>ss_bitmap = [0x00, 0x24, 0x00, 0x00, 0x00, 0x00, 0x00, 0x00, 0x00, 0x00, 0x00, 0x00, 0x00, 0x00, 0x00, 0x00,
        0x00, 0x00, 0x00, 0x00, 0x00, 0x00, 0x00, 0x00, 0x00, 0x00, 0x00, 0x00, 0x00, 0x00, 0x00, 0x00],
      ss_groups = 1,
      ss_lo = [[0x00, 0x00, 0x00, 0x00, 0x00, 0x00, 0x00, 0x00, 0x00, 0x00, 0x01, 0x00, 0x00, 0x02, 0x00, 0x00]] @ replicate 3 (replicate 16 0),
      ss_hi = [[0x03, 0x00, 0x00, 0x00, 0x00, 0x00, 0x00, 0x00, 0x00, 0x00, 0x00, 0x00, 0x00, 0x00, 0x00, 0x00]] @ replicate 3 (replicate 16 0)\<rparr>"

definition yep_plain_stop_block :: yep_stopset where
  "yep_plain_stop_block =
     \<lparr>ss_bitmap = [0x00, 0x24, 0x00, 0x00, 0x08, 0x00, 0x00, 0x04, 0x00, 0x00, 0x00, 0x00, 0x00, 0x00, 0x00, 0x00,
        0x00, 0x00, 0x00, 0x00, 0x00, 0x00, 0x00, 0x00, 0x00, 0x00, 0x00, 0x00, 0x00, 0x00, 0x00, 0x00],
      ss_groups = 1,
      ss_lo = [[0x00, 0x00, 0x00, 0x04, 0x00, 0x00, 0x00, 0x00, 0x00, 0x00, 0x09, 0x00, 0x00, 0x02, 0x00, 0x00]] @ replicate 3 (replicate 16 0),
      ss_hi = [[0x03, 0x00, 0x04, 0x08, 0x00, 0x00, 0x00, 0x00, 0x00, 0x00, 0x00, 0x00, 0x00, 0x00, 0x00, 0x00]] @ replicate 3 (replicate 16 0)\<rparr>"

definition yep_plain_stop_flow :: yep_stopset where
  "yep_plain_stop_flow =
     \<lparr>ss_bitmap = [0x00, 0x24, 0x00, 0x00, 0x08, 0x10, 0x00, 0x04, 0x00, 0x00, 0x00, 0x28, 0x00, 0x00, 0x00, 0x28,
        0x00, 0x00, 0x00, 0x00, 0x00, 0x00, 0x00, 0x00, 0x00, 0x00, 0x00, 0x00, 0x00, 0x00, 0x00, 0x00],
      ss_groups = 2,
      ss_lo = [[0x00, 0x00, 0x00, 0x04, 0x00, 0x00, 0x00, 0x00, 0x00, 0x00, 0x11, 0xA0, 0x08, 0x42, 0x00, 0x00],
       [0x00, 0x00, 0x00, 0x00, 0x00, 0x00, 0x00, 0x00, 0x00, 0x00, 0x00, 0x00, 0x00, 0x01, 0x00, 0x00]] @ replicate 2 (replicate 16 0),
      ss_hi = [[0x03, 0x00, 0x0C, 0x10, 0x00, 0x60, 0x00, 0x80, 0x00, 0x00, 0x00, 0x00, 0x00, 0x00, 0x00, 0x00],
       [0x00, 0x00, 0x00, 0x00, 0x00, 0x00, 0x00, 0x01, 0x00, 0x00, 0x00, 0x00, 0x00, 0x00, 0x00, 0x00]] @ replicate 2 (replicate 16 0)\<rparr>"

section \<open>Plain and quoted scalars\<close>

datatype yep_span_term = YEP_TERM_EOF | YEP_TERM_EOL | YEP_TERM_COMMENT | YEP_TERM_COLON | YEP_TERM_FLOW | YEP_TERM_BAD_COLON

record yep_span =
  sp_start :: u32
  sp_end :: u32
  sp_term :: yep_span_term

text \<open>The next stop byte from \<open>i\<close> on: by bit tests below 64 remaining bytes, else by the kernel.\<close>

definition next_stop :: "yep_stopset \<Rightarrow> bool \<Rightarrow> byte list \<Rightarrow> nat \<Rightarrow> nat" where
  "next_stop stop tiny p i =
     (case (if tiny then find_loop (yep_stopset_test (ss_bitmap stop)) (drop i p) 0
            else yep_text_stopset_find_scalar stop (drop i p)) of
        None \<Rightarrow> length p
      | Some hit \<Rightarrow> i + hit)"

text \<open>The first multibyte break whose lead byte lies in the piece from \<open>scan\<close> up to \<open>at\<close>.\<close>

function mb_break_in :: "byte list \<Rightarrow> nat \<Rightarrow> nat \<Rightarrow> nat option" where
  "mb_break_in p scan at =
     (if scan < at then
        (case find_loop (\<lambda>c. c = 0xC2 \<or> c = 0xE2) (take (at - scan) (drop scan p)) 0 of
           None \<Rightarrow> None
         | Some k \<Rightarrow>
             let first = scan + k in
             if 0 < yep_scan_mb_break_len p first then Some first else mb_break_in p (first + 1) at)
      else None)"
  by pat_completeness auto
termination by (relation "measure (\<lambda>(p, scan, at). at - scan)") auto

declare mb_break_in.simps [simp del]

lemma next_stop_ge: "i \<le> length p \<Longrightarrow> i \<le> next_stop stop tiny p i"
  by (simp add: next_stop_def split: option.split)

function plain_loop :: "byte list \<Rightarrow> nat \<Rightarrow> bool \<Rightarrow> bool \<Rightarrow> nat \<Rightarrow> nat \<times> yep_span_term" where
  "plain_loop p pos flow tiny i =
     (if i < length p then
        let stop = (if flow then yep_plain_stop_flow else yep_plain_stop_block);
            at = next_stop stop tiny p i
        in case mb_break_in p i at of
             Some at \<Rightarrow> (at, YEP_TERM_EOL)
           | None \<Rightarrow>
               if length p \<le> at then (length p, YEP_TERM_EOF)
               else
                 let c = p ! at in
                 if c = 0x0A \<or> c = 0x0D then (at, YEP_TERM_EOL)
                 else if c = 0x3A then
                   if yep_colon_terminates p at flow then (at, YEP_TERM_COLON)
                   else plain_loop p pos flow tiny (at + 1)
                 else if c = 0x23 then
                   if at = unat (of_nat pos :: u32) \<or>
                      unat (of_nat pos :: u32) < at \<and> (p ! (at - 1) = 0x20 \<or> p ! (at - 1) = 0x09)
                   then (at, YEP_TERM_COMMENT)
                   else plain_loop p pos flow tiny (at + 1)
                 else (at, YEP_TERM_FLOW)
      else (i, YEP_TERM_EOF))"
  by pat_completeness auto
termination
proof (relation "measure (\<lambda>(p, pos, flow, tiny, i). length p - i)", goal_cases)
  case (2 p pos flow tiny i)
  then show ?case using next_stop_ge [of i p] by (simp add: less_Suc_eq_le diff_less_mono2 le_imp_less_Suc)
next
  case (3 p pos flow tiny i)
  then show ?case using next_stop_ge [of i p] by (simp add: less_Suc_eq_le diff_less_mono2 le_imp_less_Suc)
qed simp

declare plain_loop.simps [simp del]

definition yep_scan_plain :: "byte list \<Rightarrow> nat \<Rightarrow> bool \<Rightarrow> yep_span" where
  "yep_scan_plain p pos flow =
     (let tiny = (length p - pos < 64);
          (i, term) = plain_loop p pos flow tiny pos;
          start = (of_nat pos :: u32)
      in \<lparr>sp_start = start, sp_end = of_nat (trim_blanks p (unat start) i), sp_term = term\<rparr>)"

text \<open>The span between the quotes, the terminator and \<^verbatim>\<open>*has_escape\<close>.\<close>

definition yep_scan_quoted :: "byte list \<Rightarrow> nat \<Rightarrow> yep_span \<times> bool" where
  "yep_scan_quoted p pos =
     (let q = p ! pos;
          (r, esc) = yep_text_quote_scan_scalar (drop (pos + 1) p) q
      in (case r of
            None \<Rightarrow> (\<lparr>sp_start = of_nat (pos + 1), sp_end = of_nat (length p), sp_term = YEP_TERM_EOL\<rparr>, esc)
          | Some k \<Rightarrow> (\<lparr>sp_start = of_nat (pos + 1), sp_end = of_nat (pos + 1 + k), sp_term = YEP_TERM_EOF\<rparr>, esc)))"

section \<open>Line shapes\<close>

datatype yep_line_kind = YEP_LSHAPE_NONE | YEP_LSHAPE_DASH | YEP_LSHAPE_KEY

datatype yep_line_val =
  YEP_LVAL_NONE | YEP_LVAL_EMPTY | YEP_LVAL_PLAIN | YEP_LVAL_ALIAS | YEP_LVAL_ANCHOR_PLAIN | YEP_LVAL_FLOW

record yep_line_shape =
  sh_kind :: yep_line_kind
  sh_val :: yep_line_val
  sh_dash :: u32
  sh_key_start :: u32
  sh_key_end :: u32
  sh_colon :: u32
  sh_val_start :: u32
  sh_anchor_end :: u32
  sh_val_span :: yep_span

definition shape_blank_next :: "byte list \<Rightarrow> nat \<Rightarrow> bool" where
  "shape_blank_next p at \<longleftrightarrow> length p \<le> at + 1 \<or> p ! (at + 1) = 0x20 \<or> p ! (at + 1) = 0x09 \<or>
     p ! (at + 1) = 0x0A \<or> p ! (at + 1) = 0x0D"

definition shape_val_bail :: "byte \<Rightarrow> byte list \<Rightarrow> nat \<Rightarrow> bool" where
  "shape_val_bail c p at =
     (if c = 0x22 \<or> c = 0x27 \<or> c = 0x21 \<or> c = 0x7C \<or> c = 0x3E \<or> c = 0x5B \<or> c = 0x7B \<or> c = 0x2A \<or> c = 0x26 then True
      else if c = 0x2D \<or> c = 0x3F then shape_blank_next p at
      else False)"

definition shape_value :: "byte list \<Rightarrow> yep_line_info \<Rightarrow> nat \<Rightarrow> yep_line_shape \<Rightarrow> yep_line_shape" where
  "shape_value p li vt s =
     (let s = s\<lparr>sh_val_start := of_nat vt\<rparr>; en = unat (li_end li) in
      if en \<le> vt \<or> p ! vt = 0x23 then s\<lparr>sh_val := YEP_LVAL_EMPTY\<rparr>
      else
        let c = p ! vt in
        if c = 0x2A then s\<lparr>sh_val := YEP_LVAL_ALIAS\<rparr>
        else if c = 0x5B \<or> c = 0x7B then s\<lparr>sh_val := YEP_LVAL_FLOW\<rparr>
        else if c = 0x26 then
          let a_end = yep_scan_prop_end p (vt + 1) in
          if a_end = vt + 1 then s
          else
            let t = skip_blanks p a_end (length p) in
            if t < en \<and> p ! t \<noteq> 0x23 \<and> \<not> shape_val_bail (p ! t) p t \<and> yep_plain_first_ok (p ! t) then
              let v = yep_scan_plain p t False in
              if sp_term v \<noteq> YEP_TERM_COLON \<and> sp_start v < sp_end v
              then s\<lparr>sh_val := YEP_LVAL_ANCHOR_PLAIN, sh_anchor_end := of_nat a_end, sh_val_span := v\<rparr>
              else s
            else s
        else if shape_val_bail c p vt \<or> \<not> yep_plain_first_ok c then s
        else
          let v = yep_scan_plain p vt False in
          if sp_term v = YEP_TERM_COLON then s else s\<lparr>sh_val := YEP_LVAL_PLAIN, sh_val_span := v\<rparr>)"

definition trimmed_span :: "byte list \<Rightarrow> nat \<Rightarrow> nat \<Rightarrow> yep_span_term \<Rightarrow> yep_span" where
  "trimmed_span p t en term =
     \<lparr>sp_start = of_nat t, sp_end = of_nat (trim_blanks p (unat (of_nat t :: u32)) en), sp_term = term\<rparr>"

definition shape_key_span :: "byte list \<Rightarrow> nat \<Rightarrow> yep_line_facts \<Rightarrow> yep_span" where
  "shape_key_span p t f =
     (let stop = unat (lf_stop f); en = unat (lf_end f) in
      if lf_stop_set f \<and> t \<le> stop then
        let c = p ! stop in
        if c = 0x3A \<and> yep_colon_terminates p stop False then trimmed_span p t stop YEP_TERM_COLON
        else if c \<noteq> 0x3A \<and> c = 0x23 \<and> (stop = t \<or> p ! (stop - 1) = 0x20 \<or> p ! (stop - 1) = 0x09)
        then trimmed_span p t stop YEP_TERM_COMMENT
        else yep_scan_plain p t False
      else trimmed_span p t en (if en < length p then YEP_TERM_EOL else YEP_TERM_EOF))"

definition find_colon :: "byte list \<Rightarrow> nat \<Rightarrow> nat" where
  "find_colon p i = i + length (takeWhile (\<lambda>c. c \<noteq> 0x3A) (drop i p))"

definition yep_scan_shape_f :: "byte list \<Rightarrow> yep_line_info \<Rightarrow> yep_line_facts \<Rightarrow> yep_line_shape" where
  "yep_scan_shape_f p li f =
     (let s = \<lparr>sh_kind = YEP_LSHAPE_NONE, sh_val = YEP_LVAL_NONE, sh_dash = 0, sh_key_start = 0, sh_key_end = 0,
               sh_colon = 0, sh_val_start = 0, sh_anchor_end = 0,
               sh_val_span = \<lparr>sp_start = 0, sp_end = 0, sp_term = YEP_TERM_EOF\<rparr>\<rparr>
      in if li_flags li \<noteq> 0 then s
         else
           let t = unat (li_offset li + li_indent li); c = p ! t in
           if c = 0x2D \<and> shape_blank_next p t then
             shape_value p li (skip_blanks p (t + 1) (length p)) (s\<lparr>sh_kind := YEP_LSHAPE_DASH, sh_dash := of_nat t\<rparr>)
           else if yep_plain_first_ok c \<and> c \<noteq> 0x26 \<and> c \<noteq> 0x21 \<and> c \<noteq> 0x2A \<and> c \<noteq> 0x27 \<and> c \<noteq> 0x22 \<and>
             c \<noteq> 0x5B \<and> c \<noteq> 0x7B \<and> \<not> ((c = 0x3F \<or> c = 0x3A) \<and> shape_blank_next p t)
           then
             let k = shape_key_span p t f in
             if sp_term k = YEP_TERM_COLON then
               let colon = find_colon p (unat (sp_end k)) in
               shape_value p li (skip_blanks p (colon + 1) (length p))
                 (s\<lparr>sh_kind := YEP_LSHAPE_KEY, sh_key_start := sp_start k, sh_key_end := sp_end k, sh_colon := of_nat colon\<rparr>)
             else s
           else s)"

definition yep_scan_shape :: "byte list \<Rightarrow> yep_line_info \<Rightarrow> yep_line_shape" where
  "yep_scan_shape p li = yep_scan_shape_f p li (yep_scan_facts p (unat (li_offset li)))"

section \<open>The plain-safety table\<close>

definition ONES :: u64 where "ONES = 0x0101010101010101"
definition HIGH :: u64 where "HIGH = 0x8080808080808080"

definition YST_ZDET :: "u64 \<Rightarrow> byte \<Rightarrow> u64" where
  "YST_ZDET w ch = ((w XOR ucast ch * ONES) - ONES) AND NOT (w XOR ucast ch * ONES) AND HIGH"

text \<open>The lanes of a word that the fast accept takes for no letter, digit or underscore.\<close>

definition boring_bad :: "u64 \<Rightarrow> u64" where
  "boring_bad bw =
     (let t = bw OR (ONES * 0x20);
          bad = ((t - ONES * 0x61) OR (ONES * 0x7A - t)) AND HIGH;
          bad = bad OR (((bw - ONES * 0x30) OR (ONES * 0x39 - bw)) AND HIGH)
      in bad AND NOT (YST_ZDET bw 0x5F))"

definition boring_byte :: "byte \<Rightarrow> bool" where
  "boring_byte c \<longleftrightarrow> (0x30 \<le> c \<and> c \<le> 0x39) \<or> (0x61 \<le> c OR 0x20 \<and> c OR 0x20 \<le> 0x7A) \<or> c = 0x5F"

function boring_loop :: "byte list \<Rightarrow> bool" where
  "boring_loop s =
     (if 8 \<le> length s then
        let bw = le_load (take 8 s) in
        if bw AND HIGH \<noteq> 0 then False
        else if boring_bad bw \<noteq> 0 then False
        else boring_loop (drop 8 s)
      else list_all boring_byte s)"
  by pat_completeness auto
termination by (relation "measure length") auto

declare boring_loop.simps [simp del]

text \<open>The word loop: \<open>None\<close> is the rejection, \<open>Some i\<close> where the byte loop takes over.\<close>

function swar_loop :: "byte list \<Rightarrow> nat \<Rightarrow> bool \<Rightarrow> nat option" where
  "swar_loop p i prev_blank7 =
     (if i + 8 \<le> length p then
        let w = le_load (take 8 (drop i p)) in
        if w AND HIGH \<noteq> 0 then Some i
        else
          let space = YST_ZDET w 0x20; tab = YST_ZDET w 0x09; blank = space OR tab;
              colon = YST_ZDET w 0x3A; hash = YST_ZDET w 0x23
          in if tab OR YST_ZDET w 0x0A OR YST_ZDET w 0x0D \<noteq> 0 then None
             else if colon \<noteq> 0 \<and>
               colon AND (drop_bit 8 blank OR
                 (if (if i + 8 < length p then is_blank (p ! (i + 8)) else True) then push_bit 56 0x80 else 0)) \<noteq> 0
             then None
             else if hash \<noteq> 0 \<and> hash AND (push_bit 8 blank OR (if prev_blank7 then 0x80 else 0)) \<noteq> 0 then None
             else swar_loop p (i + 8) (drop_bit 63 blank AND 1 \<noteq> 0)
      else Some i)"
  by pat_completeness auto
termination by (relation "measure (\<lambda>(p, i, prev). length p - i)") auto

declare swar_loop.simps [simp del]

text \<open>The byte rules at one offset: is the byte accepted there.\<close>

definition tail_ok :: "byte list \<Rightarrow> nat \<Rightarrow> bool" where
  "tail_ok p i \<longleftrightarrow>
     (let c = p ! i in
      \<not> (is_break c \<or> c = 0x09) \<and>
      \<not> (c = 0xE2 \<and> i + 2 < length p \<and> p ! (i + 1) = 0x80 \<and> (p ! (i + 2)) AND 0xFE = 0xA8) \<and>
      \<not> (c = 0xC2 \<and> i + 1 < length p \<and> p ! (i + 1) = 0x85) \<and>
      \<not> (c = 0x3A \<and> (length p \<le> i + 1 \<or> is_blank (p ! (i + 1)))) \<and>
      \<not> (c = 0x23 \<and> 0 < i \<and> is_blank (p ! (i - 1))))"

definition doc_marker :: "byte list \<Rightarrow> bool" where
  "doc_marker p \<longleftrightarrow>
     3 \<le> length p \<and> (take 3 p = [0x2D, 0x2D, 0x2D] \<or> take 3 p = [0x2E, 0x2E, 0x2E]) \<and>
     (length p = 3 \<or> p ! 3 = 0x20 \<or> p ! 3 = 0x09 \<or> p ! 3 = 0x0A \<or> p ! 3 = 0x0D)"

text \<open>The switch on the first byte.\<close>

definition plain_head_ok :: "byte list \<Rightarrow> bool" where
  "plain_head_ok p =
     (if hd p = 0x3A then True
      else if hd p = 0x2D \<or> hd p = 0x3F then \<not> (length p = 1 \<or> is_blank (p ! 1))
      else hd p \<notin> set (bytes_of '',[]{}#&*!|>'' @ [0x27, 0x22] @ bytes_of ''%@`''))"

definition yep_scan_plain_safe :: "byte list \<Rightarrow> bool" where
  "yep_scan_plain_safe p =
     (if length p = 0 then False
      else if is_blank (hd p) \<or> is_blank (last p) then False
      else if 3 \<le> length p \<and> p ! 0 = 0xEF \<and> p ! 1 = 0xBB \<and> p ! 2 = 0xBF then False
      else if \<not> plain_head_ok p then False
      else if boring_loop p then True
      else (case swar_loop p 0 False of
              None \<Rightarrow> False
            | Some i \<Rightarrow>
                if \<not> list_all (tail_ok p) [i..<length p] then False
                else if doc_marker p then False
                else True))"

end
