(* ===== verification/Scan_Facts.thy ===== *)
theory Scan_Facts
  imports Scan Byte_Classes Line_Facts
begin

text \<open>
  Plain spans: the scanner against the byte-by-byte rules, the key span of the line-shape classifier,
  and the plain-safety test, whose accepted texts the scanner reads back whole.
\<close>

section \<open>The stop sets\<close>

lemma stopset_test_bit: "yep_stopset_test tab c \<longleftrightarrow> bit (tab ! (unat c div 8)) (unat c mod 8)"
  unfolding yep_stopset_test_def by (simp add: bit_iff_odd_drop_bit and_one_eq odd_iff_mod_2_eq_one)

lemma byte_div_mod:
  obtains k m where "unat (c :: byte) = 8 * k + m" "m < 8" "k < 32" "unat c div 8 = k" "unat c mod 8 = m"
proof (rule that [of "unat c div 8" "unat c mod 8"])
  show "unat c div 8 < 32" using byte_bound [of c] by (simp add: div_less_iff_less_mult)
qed simp_all

lemma below_8: "m < (8 :: nat) \<Longrightarrow> m = 0 \<or> m = 1 \<or> m = 2 \<or> m = 3 \<or> m = 4 \<or> m = 5 \<or> m = 6 \<or> m = 7"
  by linarith

lemma bits_of_rows:
  assumes "m < 8"
  shows "bit (0x24 :: byte) m \<longleftrightarrow> m = 2 \<or> m = 5" "bit (0x08 :: byte) m \<longleftrightarrow> m = 3" "bit (0x04 :: byte) m \<longleftrightarrow> m = 2"
    "bit (0x10 :: byte) m \<longleftrightarrow> m = 4" "bit (0x28 :: byte) m \<longleftrightarrow> m = 3 \<or> m = 5"
  using below_8 [OF assms] by (elim disjE; simp)+

lemma byte_at: "unat c div 8 = k \<Longrightarrow> unat c mod 8 = m \<Longrightarrow> unat (c :: byte) = n \<longleftrightarrow> k = n div 8 \<and> m = n mod 8"
  by (metis div_mult_mod_eq)

lemma break_stopset: "yep_stopset_test (ss_bitmap yep_break_stopset) c \<longleftrightarrow> c = 0x0A \<or> c = 0x0D"
proof -
  obtain k m where km: "unat c = 8 * k + m" "m < 8" "k < 32" "unat c div 8 = k" "unat c mod 8 = m" by (rule byte_div_mod)
  have "ss_bitmap yep_break_stopset ! k = (if k = 1 then 0x24 else 0)"
    using km(3) by (simp add: yep_break_stopset_def nth_Cons' )
  then have "yep_stopset_test (ss_bitmap yep_break_stopset) c \<longleftrightarrow> k = 1 \<and> (m = 2 \<or> m = 5)"
    unfolding stopset_test_bit km(4,5) using bits_of_rows [OF km(2)] by simp
  also have "\<dots> \<longleftrightarrow> unat c = 10 \<or> unat c = 13" unfolding byte_at [OF km(4,5)] by auto
  finally show ?thesis by (simp add: word_unat_eq_iff)
qed

lemma block_stopset:
  "yep_stopset_test (ss_bitmap yep_plain_stop_block) c \<longleftrightarrow> c = 0x0A \<or> c = 0x0D \<or> c = 0x23 \<or> c = 0x3A"
proof -
  obtain k m where km: "unat c = 8 * k + m" "m < 8" "k < 32" "unat c div 8 = k" "unat c mod 8 = m" by (rule byte_div_mod)
  have "ss_bitmap yep_plain_stop_block ! k = (if k = 1 then 0x24 else if k = 4 then 0x08 else if k = 7 then 0x04 else 0)"
    using km(3) by (simp add: yep_plain_stop_block_def nth_Cons')
  then have "yep_stopset_test (ss_bitmap yep_plain_stop_block) c \<longleftrightarrow>
      (k = 1 \<and> (m = 2 \<or> m = 5)) \<or> (k = 4 \<and> m = 3) \<or> (k = 7 \<and> m = 2)"
    unfolding stopset_test_bit km(4,5) using bits_of_rows [OF km(2)] by simp
  also have "\<dots> \<longleftrightarrow> unat c = 10 \<or> unat c = 13 \<or> unat c = 35 \<or> unat c = 58" unfolding byte_at [OF km(4,5)] by auto
  finally show ?thesis by (simp add: word_unat_eq_iff)
qed

lemma flow_stopset:
  "yep_stopset_test (ss_bitmap yep_plain_stop_flow) c \<longleftrightarrow>
     c = 0x0A \<or> c = 0x0D \<or> c = 0x23 \<or> c = 0x3A \<or> is_flow_ind c"
proof -
  obtain k m where km: "unat c = 8 * k + m" "m < 8" "k < 32" "unat c div 8 = k" "unat c mod 8 = m" by (rule byte_div_mod)
  have "ss_bitmap yep_plain_stop_flow ! k = (if k = 1 then 0x24 else if k = 4 then 0x08 else if k = 5 then 0x10
      else if k = 7 then 0x04 else if k = 11 then 0x28 else if k = 15 then 0x28 else 0)"
    using km(3) by (simp add: yep_plain_stop_flow_def nth_Cons')
  then have "yep_stopset_test (ss_bitmap yep_plain_stop_flow) c \<longleftrightarrow>
      (k = 1 \<and> (m = 2 \<or> m = 5)) \<or> (k = 4 \<and> m = 3) \<or> (k = 5 \<and> m = 4) \<or> (k = 7 \<and> m = 2) \<or>
      (k = 11 \<and> (m = 3 \<or> m = 5)) \<or> (k = 15 \<and> (m = 3 \<or> m = 5))"
    unfolding stopset_test_bit km(4,5) using bits_of_rows [OF km(2)] by simp
  also have "\<dots> \<longleftrightarrow> unat c = 10 \<or> unat c = 13 \<or> unat c = 35 \<or> unat c = 44 \<or> unat c = 58 \<or>
      (unat c = 91 \<or> unat c = 93) \<or> (unat c = 123 \<or> unat c = 125)" unfolding byte_at [OF km(4,5)] by auto
  finally show ?thesis unfolding is_flow_ind_iff by (auto simp: word_unat_eq_iff)
qed

section \<open>Plain spans byte by byte\<close>

text \<open>Does the plain scalar that starts at \<open>pos\<close> end before offset \<open>i\<close>, and why.\<close>

definition plain_stop :: "byte list \<Rightarrow> nat \<Rightarrow> bool \<Rightarrow> nat \<Rightarrow> yep_span_term option" where
  "plain_stop p pos flow i =
     (let c = p ! i in
      if 0 < yep_scan_break_len p i then Some YEP_TERM_EOL
      else if c = 0x3A \<and> yep_colon_terminates p i flow then Some YEP_TERM_COLON
      else if c = 0x23 \<and> (i = pos \<or> is_blank (p ! (i - 1))) then Some YEP_TERM_COMMENT
      else if flow \<and> is_flow_ind c then Some YEP_TERM_FLOW
      else None)"

function plain_walk :: "byte list \<Rightarrow> nat \<Rightarrow> bool \<Rightarrow> nat \<Rightarrow> nat \<times> yep_span_term" where
  "plain_walk p pos flow i =
     (if i < length p then
        (case plain_stop p pos flow i of Some t \<Rightarrow> (i, t) | None \<Rightarrow> plain_walk p pos flow (i + 1))
      else (i, YEP_TERM_EOF))"
  by pat_completeness auto
termination by (relation "measure (\<lambda>(p, pos, flow, i). length p - i)") auto

declare plain_walk.simps [simp del]

lemma plain_walk_skip:
  "i \<le> k \<Longrightarrow> k \<le> length p \<Longrightarrow> (\<And>j. i \<le> j \<Longrightarrow> j < k \<Longrightarrow> plain_stop p pos flow j = None) \<Longrightarrow>
   plain_walk p pos flow i = plain_walk p pos flow k"
proof (induction "k - i" arbitrary: i)
  case (Suc n)
  then have "plain_stop p pos flow i = None" "i < length p" by simp_all
  then have "plain_walk p pos flow i = plain_walk p pos flow (i + 1)"
    by (simp add: plain_walk.simps [of p pos flow i])
  also have "\<dots> = plain_walk p pos flow k" using Suc by (intro Suc.hyps) auto
  finally show ?case .
qed simp

lemma find_loop_some:
  "find_loop hit s i = Some n \<Longrightarrow> i \<le> n \<and> n - i < length s \<and> hit (s ! (n - i)) \<and> (\<forall>j < n - i. \<not> hit (s ! j))"
proof (induction s arbitrary: i)
  case (Cons c s)
  show ?case
  proof (cases "hit c")
    case False
    then have "find_loop hit s (i + 1) = Some n" using Cons.prems by simp
    from Cons.IH [OF this] have IH: "i + 1 \<le> n" "n - (i + 1) < length s" "hit (s ! (n - (i + 1)))" "\<forall>j < n - (i + 1). \<not> hit (s ! j)" by auto
    have n: "n - i = Suc (n - (i + 1))" using IH(1) by simp
    have "\<not> hit ((c # s) ! j)" if "j < n - i" for j using that IH(4) False by (cases j) (auto simp: n)
    then show ?thesis using IH by (simp add: n)
  qed (use Cons.prems in simp)
qed simp

lemma find_loop_none: "find_loop hit s i = None \<longleftrightarrow> (\<forall>c \<in> set s. \<not> hit c)"
  by (induction s arbitrary: i) auto

lemma next_stop_spec:
  assumes "i \<le> length p"
  shows "next_stop stop tiny p i \<le> length p"
    "next_stop stop tiny p i < length p \<Longrightarrow> yep_stopset_test (ss_bitmap stop) (p ! next_stop stop tiny p i)"
    "i \<le> j \<Longrightarrow> j < next_stop stop tiny p i \<Longrightarrow> \<not> yep_stopset_test (ss_bitmap stop) (p ! j)"
proof -
  let ?f = "find_loop (yep_stopset_test (ss_bitmap stop)) (drop i p) 0"
  have n: "next_stop stop tiny p i = (case ?f of None \<Rightarrow> length p | Some h \<Rightarrow> i + h)"
    by (simp add: next_stop_def yep_text_stopset_find_scalar_def)
  show "next_stop stop tiny p i \<le> length p"
    "next_stop stop tiny p i < length p \<Longrightarrow> yep_stopset_test (ss_bitmap stop) (p ! next_stop stop tiny p i)"
    using find_loop_some [of "yep_stopset_test (ss_bitmap stop)" "drop i p" 0] assms
    by (auto simp: n nth_drop split: option.splits)
  assume j: "i \<le> j" "j < next_stop stop tiny p i"
  show "\<not> yep_stopset_test (ss_bitmap stop) (p ! j)"
  proof (cases ?f)
    case None
    then have "p ! j \<in> set (drop i p)" using j n assms
      by (auto simp: in_set_conv_nth intro!: exI [of _ "j - i"])
    then show ?thesis using None by (simp add: find_loop_none)
  next
    case (Some h)
    then have "\<not> yep_stopset_test (ss_bitmap stop) (drop i p ! (j - i))"
      using find_loop_some [OF Some] j n by auto
    then show ?thesis using j assms by simp
  qed
qed

lemma mb_break_in_spec:
  assumes "at \<le> length p"
  shows "case mb_break_in p scan at of
      None \<Rightarrow> \<forall>j. scan \<le> j \<and> j < at \<longrightarrow> yep_scan_mb_break_len p j = 0
    | Some k \<Rightarrow> scan \<le> k \<and> k < at \<and> 0 < yep_scan_mb_break_len p k \<and> (\<forall>j. scan \<le> j \<and> j < k \<longrightarrow> yep_scan_mb_break_len p j = 0)"
  using assms
proof (induction p scan at rule: mb_break_in.induct)
  case (1 p scan at)
  have lead: "yep_scan_mb_break_len p j = 0" if "\<not> (p ! j = 0xC2 \<or> p ! j = 0xE2)" for j
    using that by (simp add: yep_scan_mb_break_len_def)
  let ?f = "find_loop (\<lambda>c. c = 0xC2 \<or> c = 0xE2) (take (at - scan) (drop scan p)) 0"
  show ?case
  proof (cases "scan < at")
    case True
    show ?thesis
    proof (cases ?f)
      case None
      have "\<not> (p ! j = 0xC2 \<or> p ! j = 0xE2)" if "scan \<le> j" "j < at" for j
      proof -
        have "p ! j \<in> set (take (at - scan) (drop scan p))"
          using that 1(2) by (auto simp: in_set_conv_nth intro!: exI [of _ "j - scan"])
        then show ?thesis using None by (simp add: find_loop_none)
      qed
      then show ?thesis using True None lead by (simp add: mb_break_in.simps [of p scan at])
    next
      case (Some k)
      have k: "k < at - scan" "\<And>j. scan \<le> j \<Longrightarrow> j < scan + k \<Longrightarrow> yep_scan_mb_break_len p j = 0"
      proof -
        from find_loop_some [OF Some] show "k < at - scan" by simp
        fix j assume j: "scan \<le> j" "j < scan + k"
        then have "\<not> (take (at - scan) (drop scan p) ! (j - scan) = 0xC2 \<or> take (at - scan) (drop scan p) ! (j - scan) = 0xE2)"
          using find_loop_some [OF Some] by auto
        moreover have "take (at - scan) (drop scan p) ! (j - scan) = p ! j" using j \<open>k < at - scan\<close> 1(2) by simp
        ultimately show "yep_scan_mb_break_len p j = 0" using lead by simp
      qed
      show ?thesis
      proof (cases "0 < yep_scan_mb_break_len p (scan + k)")
        case mb: True
        then show ?thesis using True Some k by (auto simp: mb_break_in.simps [of p scan at])
      next
        case False
        have IH: "case mb_break_in p (scan + k + 1) at of
            None \<Rightarrow> \<forall>j. scan + k + 1 \<le> j \<and> j < at \<longrightarrow> yep_scan_mb_break_len p j = 0
          | Some q \<Rightarrow> scan + k + 1 \<le> q \<and> q < at \<and> 0 < yep_scan_mb_break_len p q \<and>
              (\<forall>j. scan + k + 1 \<le> j \<and> j < q \<longrightarrow> yep_scan_mb_break_len p j = 0)"
          using 1(1) [OF True Some refl False 1(2)] by simp
        have step: "mb_break_in p scan at = mb_break_in p (scan + k + 1) at"
          using True Some False by (simp add: mb_break_in.simps [of p scan at])
        have all: "yep_scan_mb_break_len p j = 0" if "scan \<le> j" "j < scan + k + 1" for j
          using that k(2) [of j] False by (cases "j = scan + k") auto
        show ?thesis unfolding step using IH all
          by (auto split: option.splits) (metis Suc_eq_plus1 not_less)+
      qed
    qed
  qed (simp add: mb_break_in.simps [of p scan at])
qed

lemma stop_literal:
  "yep_stopset_test (ss_bitmap (if flow then yep_plain_stop_flow else yep_plain_stop_block)) c \<longleftrightarrow>
     is_break c \<or> c = 0x23 \<or> c = 0x3A \<or> (flow \<and> is_flow_ind c)"
  by (auto simp: flow_stopset block_stopset is_break_def)

lemma break_len_pos:
  "j < length p \<Longrightarrow> 0 < yep_scan_break_len p j \<longleftrightarrow> is_break (p ! j) \<or> 0 < yep_scan_mb_break_len p j"
  by (auto simp: yep_scan_break_len_def is_break_def)

lemma mb_lead: "0 < yep_scan_mb_break_len p j \<Longrightarrow> p ! j = 0xC2 \<or> p ! j = 0xE2"
  by (auto simp: yep_scan_mb_break_len_def split: if_splits)

lemma plain_stop_none:
  "\<not> (is_break (p ! j) \<or> p ! j = 0x23 \<or> p ! j = 0x3A \<or> (flow \<and> is_flow_ind (p ! j))) \<Longrightarrow> yep_scan_mb_break_len p j = 0 \<Longrightarrow>
   j < length p \<Longrightarrow> plain_stop p pos flow j = None"
  using break_len_pos [of j p] by (auto simp: plain_stop_def)

lemma plain_loop_walk:
  assumes "length p < 2 ^ 32" "pos \<le> i" "i \<le> length p"
  shows "plain_loop p pos flow tiny i = plain_walk p pos flow i"
  using assms
proof (induction p pos flow tiny i rule: plain_loop.induct)
  case (1 p pos flow tiny i)
  show ?case
  proof (cases "i < length p")
    case False
    then show ?thesis by (simp add: plain_loop.simps [of p pos flow tiny i] plain_walk.simps [of p pos flow i])
  next
    case il: True
    define stop where "stop = (if flow then yep_plain_stop_flow else yep_plain_stop_block)"
    define at where "at = next_stop stop tiny p i"
    have ns: "at \<le> length p"
      "at < length p \<Longrightarrow> is_break (p ! at) \<or> p ! at = 0x23 \<or> p ! at = 0x3A \<or> (flow \<and> is_flow_ind (p ! at))"
      "\<And>j. i \<le> j \<Longrightarrow> j < at \<Longrightarrow> \<not> (is_break (p ! j) \<or> p ! j = 0x23 \<or> p ! j = 0x3A \<or> (flow \<and> is_flow_ind (p ! j)))"
      using next_stop_spec [OF 1(5), where stop = stop and tiny = tiny] stop_literal [of flow]
      unfolding at_def stop_def by blast+
    have at: "i \<le> at" "at \<le> length p" using next_stop_ge [OF 1(5)] ns(1) by (simp_all add: at_def)
    have none: "plain_stop p pos flow j = None" if "i \<le> j" "j < at" "yep_scan_mb_break_len p j = 0" for j
      using ns(3) [of j] that at by (intro plain_stop_none) auto
    have pos: "unat (of_nat pos :: u32) = pos" using 1(3-5) by (simp add: unsigned_of_nat take_bit_eq_mod)
    note loop = plain_loop.simps [of p pos flow tiny i, folded stop_def, unfolded Let_def, folded at_def]
    show ?thesis
    proof (cases "mb_break_in p i at")
      case (Some k)
      then have k: "i \<le> k" "k < at" "0 < yep_scan_mb_break_len p k" "\<And>j. i \<le> j \<Longrightarrow> j < k \<Longrightarrow> yep_scan_mb_break_len p j = 0"
        using mb_break_in_spec [OF at(2), of i] by auto
      then have "plain_walk p pos flow i = plain_walk p pos flow k"
        using at none by (intro plain_walk_skip) auto
      moreover have "plain_stop p pos flow k = Some YEP_TERM_EOL"
        using break_len_pos [of k p] k at by (simp add: plain_stop_def)
      then have "plain_walk p pos flow k = (k, YEP_TERM_EOL)" using k at by (simp add: plain_walk.simps [of p pos flow k])
      ultimately show ?thesis using il Some loop by simp
    next
      case None
      then have mb: "\<And>j. i \<le> j \<Longrightarrow> j < at \<Longrightarrow> yep_scan_mb_break_len p j = 0"
        using mb_break_in_spec [OF at(2), of i] by auto
      have skip: "plain_walk p pos flow i = plain_walk p pos flow at"
        using at none mb by (intro plain_walk_skip) auto
      show ?thesis
      proof (cases "at = length p")
        case True
        moreover have "plain_walk p pos flow (length p) = (length p, YEP_TERM_EOF)"
          by (simp add: plain_walk.simps [of p pos flow "length p"])
        ultimately show ?thesis using il None loop skip by simp
      next
        case False
        then have al: "at < length p" using at by simp
        have c: "is_break (p ! at) \<or> p ! at = 0x23 \<or> p ! at = 0x3A \<or> (flow \<and> is_flow_ind (p ! at))" using ns(2) al by simp
        have "p ! at \<noteq> 0xC2 \<and> p ! at \<noteq> 0xE2" using c by (auto simp: is_break_def is_flow_ind_iff)
        then have nomb: "yep_scan_mb_break_len p at = 0" using mb_lead [of p at] by auto
        note br = break_len_pos [OF al] nomb
        have walk: "plain_walk p pos flow at = (case plain_stop p pos flow at of Some t \<Rightarrow> (at, t) | None \<Rightarrow> plain_walk p pos flow (at + 1))"
          using al by (simp add: plain_walk.simps [of p pos flow at])
        have IH: "plain_loop p pos flow tiny (at + 1) = plain_walk p pos flow (at + 1)"
          if "\<not> is_break (p ! at)" "p ! at = 0x3A \<and> \<not> yep_colon_terminates p at flow \<or>
            p ! at = 0x23 \<and> \<not> (at = pos \<or> is_blank (p ! (at - 1)))"
        proof -
          have le: "pos \<le> at + 1" "at + 1 \<le> length p" using at al 1(4) by simp_all
          show ?thesis
            using that 1(1) [OF il stop_def at_def None _ refl _ _ _ 1(3) le] 1(2) [OF il stop_def at_def None _ refl _ _ _ _ 1(3) le] al
            by (auto simp: is_break_def is_blank_def pos)
        qed
        show ?thesis
        proof (cases "is_break (p ! at)")
          case True
          then have "plain_stop p pos flow at = Some YEP_TERM_EOL" using br by (simp add: plain_stop_def)
          then show ?thesis using True il None loop skip walk al by (simp add: is_break_def)
        next
          case nb: False
          show ?thesis
          proof (cases "p ! at = 0x3A")
            case True
            then have "plain_stop p pos flow at = (if yep_colon_terminates p at flow then Some YEP_TERM_COLON else None)"
              using br nb by (simp add: plain_stop_def is_flow_ind_iff)
            then show ?thesis using True nb il None loop skip walk al IH by (simp add: is_break_def)
          next
            case nc: False
            show ?thesis
            proof (cases "p ! at = 0x23")
              case True
              then have "plain_stop p pos flow at = (if at = pos \<or> is_blank (p ! (at - 1)) then Some YEP_TERM_COMMENT else None)"
                using br nb by (simp add: plain_stop_def is_flow_ind_iff)
              moreover have "at = pos \<or> pos < at" using at 1(4) by auto
              ultimately show ?thesis using True nb nc il None loop skip walk al IH pos
                by (auto simp: is_break_def is_blank_def)
            next
              case nh: False
              then have "plain_stop p pos flow at = Some YEP_TERM_FLOW" using c nb nc br by (simp add: plain_stop_def)
              then show ?thesis using nb nc nh il None loop skip walk al by (simp add: is_break_def)
            qed
          qed
        qed
      qed
    qed
  qed
qed

section \<open>The span of a plain scalar\<close>

lemma plain_walk_first:
  "i \<le> length p \<Longrightarrow> plain_walk p pos flow i = (e, t) \<Longrightarrow>
   i \<le> e \<and> e \<le> length p \<and> (\<forall>j. i \<le> j \<and> j < e \<longrightarrow> plain_stop p pos flow j = None) \<and>
   (if e = length p then t = YEP_TERM_EOF else plain_stop p pos flow e = Some t)"
proof (induction p pos flow i rule: plain_walk.induct)
  case (1 p pos flow i)
  show ?case
  proof (cases "i < length p")
    case True
    show ?thesis
    proof (cases "plain_stop p pos flow i")
      case None
      then have "plain_walk p pos flow (i + 1) = (e, t)" using 1(3) True by (simp add: plain_walk.simps [of p pos flow i])
      then have "i + 1 \<le> e \<and> e \<le> length p \<and> (\<forall>j. i + 1 \<le> j \<and> j < e \<longrightarrow> plain_stop p pos flow j = None) \<and>
          (if e = length p then t = YEP_TERM_EOF else plain_stop p pos flow e = Some t)"
        using 1(1) [OF True None] True by simp
      then show ?thesis using None by (metis Suc_eq_plus1 Suc_leD Suc_leI le_neq_implies_less)
    qed (use 1(3) True in \<open>auto simp: plain_walk.simps [of p pos flow i]\<close>)
  qed (use 1(2,3) in \<open>auto simp: plain_walk.simps [of p pos flow "length p"]\<close>)
qed

lemma trim_blanks_spec:
  "start \<le> e \<Longrightarrow> start \<le> trim_blanks p start e \<and> trim_blanks p start e \<le> e \<and>
   (\<forall>j. trim_blanks p start e \<le> j \<and> j < e \<longrightarrow> is_blank (p ! j)) \<and>
   (start < trim_blanks p start e \<longrightarrow> \<not> is_blank (p ! (trim_blanks p start e - 1)))"
proof (induction p start e rule: trim_blanks.induct)
  case (2 p start e)
  show ?case
  proof (cases "start < Suc e \<and> is_blank (p ! e)")
    case True
    then show ?thesis using 2 by (auto simp: less_Suc_eq)
  qed (use 2(2) in auto)
qed simp

lemma scan_plain_walk:
  assumes "length p < 2 ^ 32" "pos \<le> length p"
  shows "yep_scan_plain p pos flow =
    (let (e, t) = plain_walk p pos flow pos in
     \<lparr>sp_start = of_nat pos, sp_end = of_nat (trim_blanks p pos e), sp_term = t\<rparr>)"
proof -
  have "unat (of_nat pos :: u32) = pos" using assms by (simp add: unsigned_of_nat take_bit_eq_mod)
  then show ?thesis
    using plain_loop_walk [OF assms(1) order_refl assms(2), of flow "length p - pos < 64"] by (simp add: yep_scan_plain_def Let_def)
qed

section \<open>The key span from the line facts\<close>

lemma line_end:
  assumes "pos \<le> length p"
  defines "line \<equiv> takeWhile (\<lambda>b. \<not> is_brk b) (drop pos p)"
  shows "pos + length line \<le> length p"
    and "\<And>j. pos \<le> j \<Longrightarrow> j < pos + length line \<Longrightarrow> \<not> is_brk (p ! j) \<and> p ! j = line ! (j - pos)"
    and "pos + length line < length p \<Longrightarrow> is_brk (p ! (pos + length line))"
proof -
  have len: "length line \<le> length p - pos" unfolding line_def using length_takeWhile_le [of _ "drop pos p"] by simp
  then show "pos + length line \<le> length p" using assms(1) by simp
  show "\<not> is_brk (p ! j) \<and> p ! j = line ! (j - pos)" if "pos \<le> j" "j < pos + length line" for j
  proof -
    have "j - pos < length line" using that by linarith
    then have "line ! (j - pos) = drop pos p ! (j - pos)" unfolding line_def by (rule takeWhile_nth)
    moreover have "\<not> is_brk (line ! (j - pos))"
      using nth_mem [OF \<open>j - pos < length line\<close>] unfolding line_def by (auto dest: set_takeWhileD)
    moreover have "drop pos p ! (j - pos) = p ! j" using that assms(1) len by simp
    ultimately show ?thesis by simp
  qed
  show "is_brk (p ! (pos + length line))" if "pos + length line < length p"
  proof -
    have "length line < length (drop pos p)" using that by simp
    then have "is_brk (drop pos p ! length line)" using nth_length_takeWhile [of "\<lambda>b. \<not> is_brk b" "drop pos p"] unfolding line_def by simp
    then show ?thesis using that by simp
  qed
qed

lemma key_span_agrees:
  assumes len: "length p < 2 ^ 32" and pos: "pos \<le> length p"
    and f: "f = plain_line_facts p pos" and t: "t = unat (lf_indent f)"
    and nomb: "\<forall>j. t \<le> j \<and> j < unat (lf_end f) \<longrightarrow> yep_scan_mb_break_len p j = 0"
  shows "shape_key_span p t f = yep_scan_plain p t False"
proof -
  define line where "line = takeWhile (\<lambda>b. \<not> is_brk b) (drop pos p)"
  define e where "e = pos + length line"
  note le = line_end [OF pos, folded line_def, folded e_def]
  have u: "unat (of_nat n :: u32) = n" if "n \<le> length p" for n
    using that len by (simp add: unsigned_of_nat take_bit_eq_mod)
  define sp where "sp = takeWhile (\<lambda>b. b = 0x20) line"
  define pre where "pre = takeWhile (\<lambda>b. \<not> is_stop b) line"
  have spl: "length sp \<le> length line" "length pre \<le> length line" by (simp_all add: sp_def pre_def length_takeWhile_le)
  have fe: "unat (lf_end f) = e" "t = pos + length sp" "unat (lf_stop f) = pos + length pre"
    "lf_stop_set f \<longleftrightarrow> (\<exists>b\<in>set line. is_stop b)"
    using le(1) spl unfolding f t plain_line_facts_def Let_def line_def [symmetric] sp_def [symmetric] pre_def [symmetric]
    by (simp_all add: u e_def del: of_nat_add)
  have te: "t \<le> e" "t \<le> length p" using spl le(1) by (simp_all add: fe e_def)
  have "length sp \<le> length pre"
  proof -
    have "sp = takeWhile (\<lambda>b. b = 0x20) sp" by (simp add: sp_def takeWhile_idem)
    have "\<forall>b\<in>set sp. \<not> is_stop b" by (auto simp: sp_def is_stop_def dest: set_takeWhileD)
    then have "pre = sp @ takeWhile (\<lambda>b. \<not> is_stop b) (dropWhile (\<lambda>b. b = 0x20) line)"
      using takeWhile_append2 [of sp "\<lambda>b. \<not> is_stop b" "dropWhile (\<lambda>b. b = 0x20) line"]
      unfolding pre_def sp_def by (simp add: takeWhile_dropWhile_id)
    then show ?thesis by simp
  qed
  then have ts: "t \<le> pos + length pre" by (simp add: fe)
  have none: "plain_stop p t False j = None" if "t \<le> j" "j < e" "\<not> is_stop (p ! j)" for j
  proof (rule plain_stop_none)
    have "pos \<le> j" using that(1) fe(2) by simp
    then have "\<not> is_brk (p ! j)" using le(2) that(2) by blast
    then show "\<not> (is_break (p ! j) \<or> p ! j = 0x23 \<or> p ! j = 0x3A \<or> (False \<and> is_flow_ind (p ! j)))"
      using that(3) by (auto simp: is_brk_def is_break_def is_stop_def)
    show "yep_scan_mb_break_len p j = 0" using nomb that fe by simp
    show "j < length p" using that le(1) by simp
  qed
  have before: "\<not> is_stop (p ! j)" if "pos \<le> j" "j < pos + length pre" for j
  proof -
    have jl: "j - pos < length pre" using that by linarith
    have "\<not> is_stop (pre ! (j - pos))" using nth_mem [OF jl] unfolding pre_def by (blast dest: set_takeWhileD)
    moreover have "pre ! (j - pos) = line ! (j - pos)" using jl unfolding pre_def by (rule takeWhile_nth)
    moreover have "j < e" using that spl by (simp add: e_def)
    ultimately show ?thesis using le(2) [OF that(1)] by simp
  qed
  note scan = scan_plain_walk [OF len te(2), of False]
  show ?thesis
  proof (cases "lf_stop_set f")
    case True
    define s where "s = pos + length pre"
    have pl: "length pre < length line"
    proof (rule ccontr)
      assume "\<not> ?thesis"
      then have "pre = take (length line) line" using takeWhile_eq_take [of "\<lambda>b. \<not> is_stop b" line] spl by (simp add: pre_def)
      then have "pre = line" by simp
      then have "\<forall>b\<in>set line. \<not> is_stop b" unfolding pre_def by (metis takeWhile_eq_all_conv)
      then show False using True unfolding fe by blast
    qed
    then have se: "s < e" "s < length p" using le(1) by (simp_all add: s_def e_def)
    have st: "is_stop (p ! s)"
    proof -
      have "is_stop (line ! length pre)" using pl nth_length_takeWhile [of "\<lambda>b. \<not> is_stop b" line] unfolding pre_def by simp
      then show ?thesis using le(2) [of s] se(1) by (simp add: s_def)
    qed
    have "plain_walk p t False t = plain_walk p t False s"
    proof (rule plain_walk_skip)
      show "t \<le> s" using ts by (simp add: s_def)
      show "s \<le> length p" using se by simp
      fix j assume "t \<le> j" "j < s"
      then show "plain_stop p t False j = None" using none [of j] before [of j] se(1) fe(2) by (simp add: s_def)
    qed
    moreover have "yep_scan_mb_break_len p s = 0" "\<not> is_break (p ! s)"
      using nomb se(1) ts le(2) [of s] by (auto simp: fe s_def is_brk_def is_break_def)
    then have "0 < yep_scan_break_len p s \<longleftrightarrow> False" using break_len_pos [OF se(2)] by simp
    then have "plain_stop p t False s =
        (if p ! s = 0x3A \<and> yep_colon_terminates p s False then Some YEP_TERM_COLON
         else if p ! s = 0x23 \<and> (s = t \<or> is_blank (p ! (s - 1))) then Some YEP_TERM_COMMENT else None)"
      by (simp add: plain_stop_def Let_def)
    ultimately have "(p ! s = 0x3A \<and> yep_colon_terminates p s False \<longrightarrow> plain_walk p t False t = (s, YEP_TERM_COLON)) \<and>
        (p ! s = 0x23 \<and> (s = t \<or> is_blank (p ! (s - 1))) \<longrightarrow> plain_walk p t False t = (s, YEP_TERM_COMMENT))"
      using se(2) plain_walk.simps [of p t False s] by auto
    moreover have "shape_key_span p t f =
        (if p ! s = 0x3A \<and> yep_colon_terminates p s False then trimmed_span p t s YEP_TERM_COLON
         else if p ! s = 0x23 \<and> (s = t \<or> is_blank (p ! (s - 1))) then trimmed_span p t s YEP_TERM_COMMENT
         else yep_scan_plain p t False)"
    proof -
      have "unat (lf_stop f) = s" "t \<le> s" using ts fe(3) by (simp_all add: s_def)
      then show ?thesis using True by (auto simp: shape_key_span_def Let_def is_blank_def)
    qed
    moreover have "trimmed_span p t s tm = yep_scan_plain p t False" if "plain_walk p t False t = (s, tm)" for tm
      using that scan u [OF te(2)] by (simp add: trimmed_span_def)
    ultimately show ?thesis by presburger
  next
    case False
    then have nostop: "\<not> is_stop (p ! j)" if "pos \<le> j" "j < e" for j
      using le(2) [OF that] nth_mem [of "j - pos" line] that unfolding fe by (auto simp: e_def)
    have "plain_walk p t False t = plain_walk p t False e"
      using te le(1) none nostop fe(2) by (intro plain_walk_skip) auto
    also have "\<dots> = (e, if e < length p then YEP_TERM_EOL else YEP_TERM_EOF)"
    proof (cases "e < length p")
      case True
      then have "plain_stop p t False e = Some YEP_TERM_EOL"
        using le(3) break_len_pos [OF True] by (auto simp: plain_stop_def is_brk_def is_break_def)
      then show ?thesis using True by (simp add: plain_walk.simps [of p t False e])
    qed (use le(1) in \<open>simp add: plain_walk.simps [of p t False "length p"]\<close>)
    finally show ?thesis using False scan u [OF te(2)] by (simp add: shape_key_span_def fe trimmed_span_def)
  qed
qed

section \<open>Subtraction in lanes\<close>

lemma byte_bit_7: "bit w 7 \<longleftrightarrow> 128 \<le> unat w" for w :: byte
proof -
  have "bit w 7 \<longleftrightarrow> bit (unat w) 7" by (simp add: bit_unsigned_iff)
  also have "\<dots> \<longleftrightarrow> odd (unat w div 128)" by (simp add: bit_iff_odd)
  also have "\<dots> \<longleftrightarrow> 128 \<le> unat w"
  proof -
    have "unat w div 128 < 2" using byte_bound [of w] by simp
    then have "unat w div 128 = 0 \<or> unat w div 128 = 1" by linarith
    then show ?thesis using div_greater_zero_iff [of "unat w" 128] by auto
  qed
  finally show ?thesis .
qed

fun sub_lanes :: "bool \<Rightarrow> byte list \<Rightarrow> byte list \<Rightarrow> byte list \<times> bool" where
  "sub_lanes br (x # xs) (y # ys) =
     (case sub_lanes (unat x < unat y + of_bool br) xs ys of (zs, b) \<Rightarrow> ((x - y - of_bool br) # zs, b))"
| "sub_lanes br xs ys = ([], br)"

lemma byte_sub: "(ucast x - ucast y - of_bool br :: u64) = ucast (x - y - of_bool br) - 256 * of_bool (unat x < unat y + of_bool br)"
  for x y :: byte
proof -
  have x: "ucast x = (of_int (uint x) :: u64)" and y: "ucast y = (of_int (uint y) :: u64)" by simp_all
  have "uint (x - y - of_bool br) = (uint x - uint y - of_bool br) mod 256"
    by (cases br) (simp_all add: uint_word_ariths mod_simps)
  moreover have "(uint x - uint y - of_bool br) mod 256 = uint x - uint y - of_bool br + 256 * of_bool (unat x < unat y + of_bool br)"
  proof -
    have u: "int (unat x) = uint x" "int (unat y) = uint y" by simp_all
    have "int (unat x) < 256" "int (unat y) < 256" using byte_bound [of x] byte_bound [of y] by linarith+
    then have b: "0 \<le> uint x" "uint x < 256" "0 \<le> uint y" "uint y < 256" unfolding u by simp_all
    have lt: "unat x < unat y + of_bool br \<longleftrightarrow> uint x - uint y - of_bool br < 0"
      unfolding u [symmetric] by (cases br; simp only: of_bool_eq; linarith)
    have d: "0 \<le> (of_bool br :: int)" "(of_bool br :: int) \<le> 1" by simp_all
    show ?thesis
    proof (cases "uint x - uint y - of_bool br < 0")
      case True
      then have "(uint x - uint y - of_bool br) mod 256 = (uint x - uint y - of_bool br + 256) mod 256" by simp
      also have "\<dots> = uint x - uint y - of_bool br + 256" using True b d by (intro mod_pos_pos_trivial) linarith+
      finally show ?thesis using True lt by simp
    next
      case False
      then have "(uint x - uint y - of_bool br) mod 256 = uint x - uint y - of_bool br"
        using b d by (intro mod_pos_pos_trivial) linarith+
      then show ?thesis using False lt by simp
    qed
  qed
  ultimately have "(ucast (x - y - of_bool br) :: u64) = of_int (uint x - uint y - of_bool br + 256 * of_bool (unat x < unat y + of_bool br))"
    by (metis of_int_uint)
  then show ?thesis by simp
qed

lemma sub_lanes_sound:
  "length xs = length ys \<Longrightarrow>
   length (fst (sub_lanes br xs ys)) = length xs \<and>
   (le_load xs - le_load ys - of_bool br :: u64) =
     le_load (fst (sub_lanes br xs ys)) - 256 ^ length xs * of_bool (snd (sub_lanes br xs ys)) \<and>
   (\<forall>i < length xs. \<exists>b. fst (sub_lanes br xs ys) ! i = xs ! i - ys ! i - of_bool b)"
proof (induction xs ys arbitrary: br rule: list_induct2)
  case (Cons x xs y ys)
  let ?c = "unat x < unat y + of_bool br"
  obtain zs b where z: "sub_lanes ?c xs ys = (zs, b)" by (cases "sub_lanes ?c xs ys")
  note IH = Cons.IH [of ?c, unfolded z fst_conv snd_conv]
  have "(le_load (x # xs) - le_load (y # ys) - of_bool br :: u64) =
      (ucast x - ucast y - of_bool br) + 256 * (le_load xs - le_load ys)"
    by (simp add: le_load_add algebra_simps del: le_load.simps(2))
  also have "\<dots> = ucast (x - y - of_bool br) + 256 * (le_load xs - le_load ys - of_bool ?c)"
    unfolding byte_sub by (simp add: algebra_simps)
  also have "\<dots> = ucast (x - y - of_bool br) + 256 * (le_load zs - 256 ^ length xs * of_bool b)" using IH by simp
  also have "\<dots> = le_load ((x - y - of_bool br) # zs) - 256 ^ length (x # xs) * of_bool b"
    by (simp add: le_load_add algebra_simps del: le_load.simps(2))
  finally have eq: "(le_load (x # xs) - le_load (y # ys) - of_bool br :: u64) =
      le_load ((x - y - of_bool br) # zs) - 256 ^ length (x # xs) * of_bool b" .
  have lanes: "\<exists>b. ((x - y - of_bool br) # zs) ! i = (x # xs) ! i - (y # ys) ! i - of_bool b" if "i < length (x # xs)" for i
    using that IH by (cases i) auto
  show ?case unfolding sub_lanes.simps z prod.case fst_conv snd_conv using IH eq lanes by simp
qed simp

lemma sub_lane_bit:
  assumes "length xs = 8" "length ys = 8" "i < 8"
  shows "\<exists>b. bit (le_load xs - le_load ys :: u64) (8 * i + 7) \<longleftrightarrow> 128 \<le> unat (xs ! i - ys ! i - of_bool b)"
proof -
  let ?zs = "fst (sub_lanes False xs ys)"
  have wrap: "(256 :: u64) ^ 8 = 0" by simp
  have s: "length ?zs = 8" "(le_load xs - le_load ys :: u64) = le_load ?zs" "\<exists>b. ?zs ! i = xs ! i - ys ! i - of_bool b"
    using sub_lanes_sound [of xs ys False] assms wrap by auto
  have "bit (le_load ?zs :: u64) (8 * i + 7) \<longleftrightarrow> bit (?zs ! i) 7"
    using assms(3) s(1) by (simp add: bit_le_load)
  then show ?thesis using s(2,3) byte_bit_7 by metis
qed

section \<open>The zero-byte detector\<close>

lemma ones_splat: "ucast c * ONES = splat c"
  by (simp add: ONES_def splat_eight le_load_add algebra_simps del: le_load.simps(2))

lemma high_splat: "HIGH = splat 0x80"
  using splat_consts(1) by (simp add: HIGH_def YEP_SWAR_FLAGS_def)

lemma ones_one: "ONES = splat 1"
  using ones_splat [of 1] by simp

lemma bit_high: "bit HIGH n \<longleftrightarrow> n < 64 \<and> n mod 8 = 7"
proof -
  have "n < 64 \<Longrightarrow> n div 8 < 8" by simp
  then show ?thesis by (auto simp: high_splat splat_def bit_le_load bit_0x80 simp del: bit_numeral_word_iff)
qed

lemma zdet_bit:
  assumes len: "length bs = 8" and i: "i < 8"
  shows "bs ! i = ch \<Longrightarrow> bit (YST_ZDET (le_load bs) ch) (8 * i + 7)"
    and "bit (YST_ZDET (le_load bs) ch) (8 * i + 7) \<Longrightarrow> unat (bs ! i XOR ch) \<le> 1"
proof -
  let ?xs = "map (\<lambda>b. b XOR ch) bs"
  have x: "le_load bs XOR splat ch = (le_load ?xs :: u64)"
    using le_load_map_bitwise(3) [of "\<lambda>b. b" bs "\<lambda>_. ch"] by (simp add: splat_lanes [OF len])
  obtain b where b: "bit (le_load ?xs - splat 1 :: u64) (8 * i + 7) \<longleftrightarrow> 128 \<le> unat (?xs ! i - 1 - of_bool b)"
    using sub_lane_bit [of ?xs "replicate 8 1" i] len i by (auto simp: splat_def)
  have n: "bit (NOT (le_load ?xs) :: u64) (8 * i + 7) \<longleftrightarrow> \<not> 128 \<le> unat (?xs ! i)"
    using i len by (simp add: bit_not_iff bit_le_load byte_bit_7)
  have "bit (YST_ZDET (le_load bs) ch) (8 * i + 7) \<longleftrightarrow> 128 \<le> unat (?xs ! i - 1 - of_bool b) \<and> \<not> 128 \<le> unat (?xs ! i)"
    using i unfolding YST_ZDET_def ones_splat x unfolding ones_one bit_and_iff b n bit_high by simp
  moreover have xi: "?xs ! i = bs ! i XOR ch" using len i by simp
  ultimately have z: "bit (YST_ZDET (le_load bs) ch) (8 * i + 7) \<longleftrightarrow>
      128 \<le> unat ((bs ! i XOR ch) - 1 - of_bool b) \<and> \<not> 128 \<le> unat (bs ! i XOR ch)" by simp
  show "bit (YST_ZDET (le_load bs) ch) (8 * i + 7)" if "bs ! i = ch"
    unfolding z using that by (cases b) (simp_all add: unsigned_minus_1_eq_mask mask_eq_exp_minus_1)
  show "unat (bs ! i XOR ch) \<le> 1" if "bit (YST_ZDET (le_load bs) ch) (8 * i + 7)"
  proof (rule ccontr)
    assume "\<not> unat (bs ! i XOR ch) \<le> 1"
    then have "1 \<le> (bs ! i XOR ch)" "of_bool b \<le> (bs ! i XOR ch) - 1"
      by (cases b; simp add: word_le_nat_alt unat_sub)+
    then have "unat ((bs ! i XOR ch) - 1 - of_bool b) \<le> unat (bs ! i XOR ch)"
      by (cases b; simp add: unat_sub word_le_nat_alt)
    then show False using that z by simp
  qed
qed

lemma zdet_high: "bit (YST_ZDET w ch) n \<Longrightarrow> n < 64 \<and> n mod 8 = 7"
  by (simp add: YST_ZDET_def bit_and_iff bit_high)

section \<open>What the plain-safety test accepts\<close>

lemma lanes_high_clear:
  assumes "length bs = 8" "le_load bs AND HIGH = 0" "k < 8"
  shows "unat (bs ! k) < 128"
proof (rule ccontr)
  assume "\<not> unat (bs ! k) < 128"
  then have "bit (bs ! k) 7" by (simp add: byte_bit_7)
  moreover have "bit (le_load bs AND HIGH) (8 * k + 7) \<longleftrightarrow> bit (bs ! k) 7"
    using assms(1,3) by (simp add: bit_and_iff bit_le_load bit_high)
  ultimately have "bit (le_load bs AND HIGH) (8 * k + 7)" by blast
  then show False using assms(2) by simp
qed

lemma take_drop_nth: "i + 8 \<le> length p \<Longrightarrow> k < 8 \<Longrightarrow> take 8 (drop i p) ! k = p ! (i + k)"
  by simp

lemma zdet_zero:
  "length bs = 8 \<Longrightarrow> k < 8 \<Longrightarrow> YST_ZDET (le_load bs) ch = 0 \<Longrightarrow> bs ! k \<noteq> ch"
  using zdet_bit(1) [of bs k ch] by auto

lemma swar_loop_ok:
  "swar_loop p i prev = Some m \<Longrightarrow> i \<le> length p \<Longrightarrow> (0 < i \<and> is_blank (p ! (i - 1)) \<longrightarrow> prev) \<Longrightarrow>
   i \<le> m \<and> m \<le> length p \<and> (\<forall>j. i \<le> j \<and> j < m \<longrightarrow> tail_ok p j)"
proof (induction p i prev rule: swar_loop.induct)
  case (1 p i prev)
  define bs where "bs = take 8 (drop i p)"
  define w :: u64 where "w = le_load bs"
  define blank where "blank = YST_ZDET w 0x20 OR YST_ZDET w 0x09"
  define nb where "nb = (if i + 8 < length p then is_blank (p ! (i + 8)) else True)"
  note step = swar_loop.simps [of p i prev, unfolded Let_def, folded bs_def, folded w_def, folded blank_def, folded nb_def]
  show ?case
  proof (cases "i + 8 \<le> length p \<and> w AND HIGH = 0")
    case False
    then have "m = i" using 1(2) step by (auto split: if_splits)
    then show ?thesis using 1(3) by auto
  next
    case True
    then have il: "i + 8 \<le> length p" and hi: "w AND HIGH = 0" by auto
    have ne: "\<not> (YST_ZDET w 0x09 OR YST_ZDET w 0x0A OR YST_ZDET w 0x0D \<noteq> 0)"
      "\<not> (YST_ZDET w 0x3A \<noteq> 0 \<and> YST_ZDET w 0x3A AND (drop_bit 8 blank OR (if nb then push_bit 56 0x80 else 0)) \<noteq> 0)"
      "\<not> (YST_ZDET w 0x23 \<noteq> 0 \<and> YST_ZDET w 0x23 AND (push_bit 8 blank OR (if prev then 0x80 else 0)) \<noteq> 0)"
      and rec: "swar_loop p (i + 8) (drop_bit 63 blank AND 1 \<noteq> 0) = Some m"
      using 1(2) step True by (auto split: if_splits)
    have lb: "length bs = 8" using il by (simp add: bs_def)
    have lane: "bs ! k = p ! (i + k)" if "k < 8" for k using il that by (simp add: bs_def)
    have low: "unat (p ! (i + k)) < 128" if "k < 8" for k
      using lanes_high_clear [OF lb hi [unfolded w_def] that] lane [OF that] by simp
    have nobr: "p ! (i + k) \<noteq> 0x09 \<and> p ! (i + k) \<noteq> 0x0A \<and> p ! (i + k) \<noteq> 0x0D" if "k < 8" for k
      using ne(1) zdet_zero [OF lb that] lane [OF that] unfolding w_def by (simp add: or_eq_0_iff)
    have blank_bit: "bit blank (8 * k + 7)" if "k < 8" "is_blank (p ! (i + k))" for k
      using that zdet_bit(1) [OF lb that(1)] lane [OF that(1)]
      by (auto simp: blank_def w_def bit_or_iff is_blank_def)
    have zlane: "bit (YST_ZDET w c) (8 * k + 7)" if "k < 8" "p ! (i + k) = c" for k c
      using that zdet_bit(1) [OF lb that(1)] lane [OF that(1)] by (simp add: w_def)
    have colon: "\<not> (length p \<le> i + k + 1 \<or> is_blank (p ! (i + k + 1)))" if k: "k < 8" "p ! (i + k) = 0x3A" for k
    proof
      assume b: "length p \<le> i + k + 1 \<or> is_blank (p ! (i + k + 1))"
      let ?nx = "drop_bit 8 blank OR (if nb then push_bit 56 0x80 else 0) :: u64"
      have "bit ?nx (8 * k + 7)"
      proof (cases "k = 7")
        case True
        then have nb using b by (auto simp: nb_def add.commute)
        then show ?thesis using True by (simp add: bit_or_iff bit_push_bit_iff)
      next
        case False
        then have "k + 1 < 8" using k by simp
        then have "bit blank (8 * (k + 1) + 7)" using blank_bit [of "k + 1"] b il by simp
        then show ?thesis by (simp add: bit_or_iff bit_drop_bit_eq algebra_simps)
      qed
      then have "bit (YST_ZDET w 0x3A AND ?nx) (8 * k + 7)" using zlane [OF k] by (simp add: bit_and_iff)
      then show False using ne(2) zlane [OF k] by (metis bit_0_eq bot_apply bot_bool_def)
    qed
    have hash: "\<not> (0 < i + k \<and> is_blank (p ! (i + k - 1)))" if k: "k < 8" "p ! (i + k) = 0x23" for k
    proof
      assume b: "0 < i + k \<and> is_blank (p ! (i + k - 1))"
      let ?pv = "push_bit 8 blank OR (if prev then 0x80 else 0) :: u64"
      have "bit ?pv (8 * k + 7)"
      proof (cases k)
        case 0
        then have prev using b 1(4) by simp
        then show ?thesis using 0 by (simp add: bit_or_iff)
      next
        case (Suc h)
        then have "bit blank (8 * h + 7)" using blank_bit [of h] b k by simp
        then show ?thesis using Suc k by (simp add: bit_or_iff bit_push_bit_iff add.commute)
      qed
      then have "bit (YST_ZDET w 0x23 AND ?pv) (8 * k + 7)" using zlane [OF k] by (simp add: bit_and_iff)
      then show False using ne(3) zlane [OF k] by (metis bit_0_eq bot_apply bot_bool_def)
    qed
    have ok: "tail_ok p (i + k)" if k: "k < 8" for k
      using nobr [OF k] low [OF k] colon [OF k] hash [OF k]
      by (auto simp: tail_ok_def Let_def is_break_def)
    have inv: "0 < i + 8 \<and> is_blank (p ! (i + 8 - 1)) \<longrightarrow> drop_bit 63 blank AND 1 \<noteq> 0"
    proof
      assume "0 < i + 8 \<and> is_blank (p ! (i + 8 - 1))"
      then have "bit blank 63" using blank_bit [of 7] by (simp add: add.commute)
      then have "bit (drop_bit 63 blank AND 1) 0" by (simp add: bit_and_iff bit_drop_bit_eq)
      then show "drop_bit 63 blank AND 1 \<noteq> 0" by (metis bit_0_eq bot_apply bot_bool_def)
    qed
    have "swar_loop p (i + 8) (drop_bit 63 blank AND 1 \<noteq> 0) = Some m \<Longrightarrow> i + 8 \<le> length p \<Longrightarrow>
        (0 < i + 8 \<and> is_blank (p ! (i + 8 - 1)) \<longrightarrow> drop_bit 63 blank AND 1 \<noteq> 0) \<Longrightarrow>
        i + 8 \<le> m \<and> m \<le> length p \<and> (\<forall>j. i + 8 \<le> j \<and> j < m \<longrightarrow> tail_ok p j)"
      using 1(1) [OF il w_def [unfolded bs_def]] ne hi unfolding blank_def nb_def by simp
    from this [OF rec il inv] have IH: "i + 8 \<le> m" "m \<le> length p" "\<And>j. i + 8 \<le> j \<Longrightarrow> j < m \<Longrightarrow> tail_ok p j" by blast+
    have "tail_ok p j" if "i \<le> j" "j < m" for j
    proof (cases "j < i + 8")
      case True
      then show ?thesis using ok [of "j - i"] that by simp
    qed (use IH(3) that in simp)
    then show ?thesis using IH by simp
  qed
qed

lemma nothing_boring:
  "list_all (\<lambda>n. let x = word_of_nat n :: byte in
     list_all (\<lambda>(a, b, c). 128 \<le> unat ((x OR 0x20) - 0x61 - of_bool a) \<or> 128 \<le> unat (x - 0x30 - of_bool b) \<or>
       128 \<le> unat (0x39 - x - of_bool c)) (List.product [False, True] (List.product [False, True] [False, True]))) [0..<128]"
  by code_simp

lemma no_boring_lane:
  fixes x :: byte
  assumes "unat x < 128"
  shows "128 \<le> unat ((x OR 0x20) - 0x61 - of_bool a) \<or> 128 \<le> unat (x - 0x30 - of_bool b) \<or>
    128 \<le> unat (0x39 - x - of_bool c)"
proof -
  have "unat x \<in> set [0..<128]" "(a, b, c) \<in> set (List.product [False, True] (List.product [False, True] [False, True]))"
    using assms by auto
  then show ?thesis using nothing_boring unfolding list_all_iff Let_def by fastforce
qed

lemma boring_lane:
  assumes len: "length bs = 8" and k: "k < 8" and hi: "le_load bs AND HIGH = 0" and bad: "boring_bad (le_load bs) = 0"
  shows "bs ! k = 0x5E \<or> bs ! k = 0x5F"
proof -
  let ?w = "le_load bs :: u64"
  let ?t = "map (\<lambda>b. b OR 0x20) bs"
  have t: "?w OR (ONES * 0x20) = le_load ?t"
    using le_load_map_bitwise(2) [where f = "\<lambda>b. b" and g = "\<lambda>_. 0x20" and bs = bs] ones_splat [of "0x20"] by (simp add: splat_lanes [OF len] mult.commute)
  have sp: "ONES * 0x61 = splat 0x61" "ONES * 0x30 = splat 0x30" "ONES * 0x39 = splat 0x39"
    using ones_splat [of "0x61"] ones_splat [of "0x30"] ones_splat [of "0x39"] by (simp_all add: mult.commute)
  have s: "splat c = le_load (replicate 8 c)" for c by (simp add: splat_def)
  obtain a where a: "bit (le_load ?t - ONES * 0x61 :: u64) (8 * k + 7) \<longleftrightarrow> 128 \<le> unat ((bs ! k OR 0x20) - 0x61 - of_bool a)"
    using sub_lane_bit [of ?t "replicate 8 0x61" k] len k by (auto simp: sp s)
  obtain b where b: "bit (?w - ONES * 0x30) (8 * k + 7) \<longleftrightarrow> 128 \<le> unat (bs ! k - 0x30 - of_bool b)"
    using sub_lane_bit [of bs "replicate 8 0x30" k] len k by (auto simp: sp s)
  obtain c where c: "bit (ONES * 0x39 - ?w) (8 * k + 7) \<longleftrightarrow> 128 \<le> unat (0x39 - bs ! k - of_bool c)"
    using sub_lane_bit [of "replicate 8 0x39" bs k] len k by (auto simp: sp s)
  have "128 \<le> unat ((bs ! k OR 0x20) - 0x61 - of_bool a) \<or> 128 \<le> unat (bs ! k - 0x30 - of_bool b) \<or>
      128 \<le> unat (0x39 - bs ! k - of_bool c)"
    using lanes_high_clear [OF len hi k] by (rule no_boring_lane)
  then have flag: "bit ((?w OR (ONES * 0x20)) - ONES * 0x61) (8 * k + 7) \<or> bit (?w - ONES * 0x30) (8 * k + 7) \<or>
      bit (ONES * 0x39 - ?w) (8 * k + 7)"
    unfolding t a b c by blast
  have "bit (YST_ZDET ?w 0x5F) (8 * k + 7)"
  proof (rule ccontr)
    assume "\<not> ?thesis"
    then have "bit (boring_bad ?w) (8 * k + 7)"
      using flag k by (auto simp: boring_bad_def Let_def bit_and_iff bit_or_iff bit_not_iff bit_high)
    then show False using bad by simp
  qed
  then have "unat (bs ! k XOR 0x5F) \<le> 1" using zdet_bit(2) [OF len k] by blast
  then have "bs ! k XOR 0x5F = 0 \<or> bs ! k XOR 0x5F = 1" by (metis le_Suc_eq le_zero_eq One_nat_def unat_1 unat_0 word_unat_eq_iff)
  then have "(bs ! k XOR 0x5F) XOR 0x5F = 0 XOR 0x5F \<or> (bs ! k XOR 0x5F) XOR 0x5F = 1 XOR 0x5F" by metis
  then show ?thesis by (auto simp: xor.assoc)
qed

lemma boring_loop_bytes: "boring_loop s \<Longrightarrow> c \<in> set s \<Longrightarrow> boring_byte c \<or> c = 0x5E"
proof (induction s rule: boring_loop.induct)
  case (1 s)
  show ?case
  proof (cases "8 \<le> length s")
    case True
    let ?bs = "take 8 s"
    have w: "le_load ?bs AND HIGH = (0 :: u64)" "boring_bad (le_load ?bs) = 0" "boring_loop (drop 8 s)"
      using 1(2) True by (simp_all add: boring_loop.simps [of s] Let_def split: if_splits)
    have "c \<in> set ?bs \<or> c \<in> set (drop 8 s)" using 1(3) by (metis Un_iff append_take_drop_id set_append)
    then show ?thesis
    proof
      assume "c \<in> set ?bs"
      then obtain k where "k < 8" "c = ?bs ! k" using True by (auto simp: in_set_conv_nth)
      then show ?thesis using boring_lane [of ?bs k] w True by (auto simp: boring_byte_def)
    next
      assume "c \<in> set (drop 8 s)"
      then show ?thesis using 1(1) [OF True refl] w by simp
    qed
  qed (use 1(2,3) in \<open>simp add: boring_loop.simps [of s] list_all_iff\<close>)
qed

lemma boring_plain:
  "boring_byte c \<or> c = 0x5E \<Longrightarrow> c \<noteq> 0x09 \<and> c \<noteq> 0x0A \<and> c \<noteq> 0x0D \<and> c \<noteq> 0xE2 \<and> c \<noteq> 0xC2 \<and> c \<noteq> 0x3A \<and> c \<noteq> 0x23"
proof -
  have "list_all (\<lambda>c. \<not> boring_byte c \<and> c \<noteq> 0x5E) [0x09, 0x0A, 0x0D, 0xE2, 0xC2, 0x3A, 0x23]" by code_simp
  then show "boring_byte c \<or> c = 0x5E \<Longrightarrow> ?thesis" by (auto simp: list_all_iff)
qed

lemma plain_safe_bytes:
  assumes "yep_scan_plain_safe p"
  shows "p \<noteq> []" "\<not> is_blank (last p)" "hd p \<noteq> 0x23" "j < length p \<Longrightarrow> tail_ok p j"
proof -
  show p: "p \<noteq> []" "\<not> is_blank (last p)" using assms by (auto simp: yep_scan_plain_safe_def split: if_splits)
  have "plain_head_ok p" using assms by (auto simp: yep_scan_plain_safe_def split: if_splits)
  then show "hd p \<noteq> 0x23" by (auto simp: plain_head_ok_def bytes_of_def)
  assume j: "j < length p"
  show "tail_ok p j"
  proof (cases "boring_loop p")
    case True
    then show ?thesis using boring_plain boring_loop_bytes [OF True nth_mem [OF j]] by (simp add: tail_ok_def Let_def is_break_def)
  next
    case False
    then obtain m where m: "swar_loop p 0 False = Some m" "list_all (tail_ok p) [m..<length p]"
      using assms by (auto simp: yep_scan_plain_safe_def split: if_splits option.splits)
    then show ?thesis using swar_loop_ok [OF m(1)] j by (cases "j < m") (auto simp: list_all_iff)
  qed
qed

section \<open>Scanning an accepted text\<close>

lemma nth_append_shift: "j < length p \<Longrightarrow> (pre @ p @ t) ! (length pre + j) = p ! j"
  by (simp add: nth_append)

lemma safe_no_mb:
  assumes ok: "\<And>j. j < length p \<Longrightarrow> tail_ok p j" and t: "t \<noteq> []" "unat (hd t) < 128" and j: "j < length p"
  shows "yep_scan_mb_break_len (pre @ p @ t) (length pre + j) = 0"
proof -
  let ?q = "pre @ p @ t"
  have out: "?q ! (length pre + length p) = hd t" using t(1) by (simp add: nth_append hd_conv_nth)
  have bytes: "hd t \<noteq> 0x85" "hd t \<noteq> 0x80" "hd t AND 0xFE \<noteq> 0xA8"
  proof -
    have "list_all (\<lambda>n. (word_of_nat n :: byte) \<noteq> 0x85 \<and> (word_of_nat n :: byte) \<noteq> 0x80 \<and> (word_of_nat n :: byte) AND 0xFE \<noteq> 0xA8) [0..<128]"
      by code_simp
    moreover have "unat (hd t) \<in> set [0..<128]" using t(2) by simp
    ultimately have "(word_of_nat (unat (hd t)) :: byte) \<noteq> 0x85 \<and> (word_of_nat (unat (hd t)) :: byte) \<noteq> 0x80 \<and>
        (word_of_nat (unat (hd t)) :: byte) AND 0xFE \<noteq> 0xA8" unfolding list_all_iff by blast
    then show "hd t \<noteq> 0x85" "hd t \<noteq> 0x80" "hd t AND 0xFE \<noteq> 0xA8" by simp_all
  qed
  have next1: "?q ! (length pre + j + 1) = (if j + 1 < length p then p ! (j + 1) else hd t)"
  proof (cases "j + 1 = length p")
    case True
    then have "length pre + j + 1 = length pre + length p" by simp
    then show ?thesis using out True by (metis nat_neq_iff)
  next
    case False
    then have "j + 1 < length p" using j by simp
    then show ?thesis using nth_append_shift [of "j + 1" p pre t] by (metis add.assoc)
  qed
  have next2: "?q ! (length pre + j + 2) = (if j + 2 < length p then p ! (j + 2) else hd t)" if "j + 1 < length p"
  proof (cases "j + 2 = length p")
    case True
    then have "length pre + j + 2 = length pre + length p" by simp
    then show ?thesis using out True by (metis nat_neq_iff)
  next
    case False
    then have "j + 2 < length p" using that by simp
    then show ?thesis using nth_append_shift [of "j + 2" p pre t] by (metis add.assoc)
  qed
  have here: "?q ! (length pre + j) = p ! j" using j by (rule nth_append_shift)
  have "\<not> (?q ! (length pre + j) = 0xC2 \<and> ?q ! (length pre + j + 1) = 0x85)"
    using ok [OF j] bytes unfolding here next1 by (auto simp: tail_ok_def Let_def)
  moreover have "\<not> (?q ! (length pre + j) = 0xE2 \<and> ?q ! (length pre + j + 1) = 0x80 \<and> (?q ! (length pre + j + 2)) AND 0xFE = 0xA8)"
  proof (cases "j + 1 < length p")
    case True
    then show ?thesis using ok [OF j] bytes unfolding here next1 next2 [OF True] by (auto simp: tail_ok_def Let_def)
  qed (use bytes next1 in simp)
  ultimately show ?thesis by (auto simp: yep_scan_mb_break_len_def)
qed

lemma safe_no_stop:
  assumes safe: "yep_scan_plain_safe p" and t: "t \<noteq> []" "unat (hd t) < 128" and j: "j < length p"
  shows "plain_stop (pre @ p @ t) (length pre) False (length pre + j) = None"
proof -
  let ?q = "pre @ p @ t"
  note ok = plain_safe_bytes(4) [OF safe]
  have mb: "yep_scan_mb_break_len ?q (length pre + j) = 0" if "j < length p" for j
    using safe_no_mb [of p t j pre] ok t that by blast
  have here: "?q ! (length pre + j) = p ! j" using j by (rule nth_append_shift)
  have "\<not> is_break (p ! j)" using ok [OF j] by (simp add: tail_ok_def Let_def)
  then have br: "yep_scan_break_len ?q (length pre + j) = 0"
    using break_len_pos [of "length pre + j" ?q] mb [OF j] j here by simp
  have colon: "\<not> (p ! j = 0x3A \<and> yep_colon_terminates ?q (length pre + j) False)"
  proof
    assume c: "p ! j = 0x3A \<and> yep_colon_terminates ?q (length pre + j) False"
    then have n: "j + 1 < length p" "\<not> is_blank (p ! (j + 1))" using ok [OF j] by (auto simp: tail_ok_def Let_def)
    then have "\<not> is_break (p ! (j + 1))" using ok [of "j + 1"] by (simp add: tail_ok_def Let_def)
    then have "\<not> yep_colon_terminates ?q (length pre + j) False"
      using n mb [of "j + 1"] nth_append_shift [of "j + 1" p pre t]
      by (auto simp: yep_colon_terminates_def Let_def is_blank_def is_break_def)
    then show False using c by simp
  qed
  have hash: "\<not> (p ! j = 0x23 \<and> (length pre + j = length pre \<or> is_blank (?q ! (length pre + j - 1))))"
  proof
    assume c: "p ! j = 0x23 \<and> (length pre + j = length pre \<or> is_blank (?q ! (length pre + j - 1)))"
    then have "j \<noteq> 0" using plain_safe_bytes(1,3) [OF safe] by (metis hd_conv_nth)
    then obtain h where "j = Suc h" by (cases j) auto
    then have "is_blank (p ! (j - 1))" "0 < j" using c j nth_append_shift [of h p pre t] by auto
    then show False using c ok [OF j] by (auto simp: tail_ok_def Let_def)
  qed
  show ?thesis unfolding plain_stop_def Let_def here br using colon hash by simp
qed

lemma safe_walk:
  assumes safe: "yep_scan_plain_safe p" and t: "t \<noteq> []" "unat (hd t) < 128"
    and stop: "plain_stop (pre @ p @ t) (length pre) False (length pre + length p) = Some tm"
    and len: "length (pre @ p @ t) < 2 ^ 32"
  shows "yep_scan_plain (pre @ p @ t) (length pre) False =
    \<lparr>sp_start = of_nat (length pre), sp_end = of_nat (length pre + length p), sp_term = tm\<rparr>"
proof -
  let ?q = "pre @ p @ t" and ?e = "length pre + length p"
  have "plain_walk ?q (length pre) False (length pre) = plain_walk ?q (length pre) False ?e"
  proof (rule plain_walk_skip)
    fix j assume "length pre \<le> j" "j < ?e"
    then have "j = length pre + (j - length pre)" "j - length pre < length p" by auto
    then show "plain_stop ?q (length pre) False j = None" using safe_no_stop [OF safe t] by metis
  qed (use t in auto)
  also have "\<dots> = (?e, tm)" using stop t by (simp add: plain_walk.simps [of ?q "length pre" False ?e])
  finally have walk: "plain_walk ?q (length pre) False (length pre) = (?e, tm)" .
  have "p \<noteq> []" "\<not> is_blank (last p)" using plain_safe_bytes [OF safe] by auto
  then obtain n where n: "length p = Suc n" "\<not> is_blank (p ! n)" by (cases "length p") (auto simp: last_conv_nth)
  then have "\<not> is_blank (?q ! (length pre + n))" "?e = Suc (length pre + n)" using nth_append_shift [of n p pre t] by simp_all
  then have "trim_blanks ?q (length pre) ?e = ?e" by simp
  then show ?thesis using scan_plain_walk [OF len, of "length pre" False] walk by simp
qed

section \<open>Properties\<close>

lemma scan_facts_plain:
  "length p < 2 ^ 32 \<Longrightarrow> pos \<le> length p \<Longrightarrow> yep_scan_facts p pos = plain_line_facts p pos"
proof -
  assume a: "length p < 2 ^ 32" "pos \<le> length p"
  then have "\<not> (2 ^ 64 - 1 < length p - pos)" by simp
  then show ?thesis using capped_facts [OF a(2), of "2 ^ 64 - 1"] by (simp add: yep_scan_facts_def yep_text_line_facts_scalar_def)
qed

lemma scan_line_fields:
  "li_offset (yep_scan_line p pos) = of_nat pos \<and> li_end (yep_scan_line p pos) = lf_end (yep_scan_facts p pos) \<and>
   li_offset (yep_scan_line p pos) + li_indent (yep_scan_line p pos) = lf_indent (yep_scan_facts p pos)"
  by (simp add: yep_scan_line_def yep_scan_line_f_def Let_def)

text \<open>
  C36. The plain scanner, which leaps from stop byte to stop byte, returns for every 32-bit sized
  buffer the span the byte-by-byte rules give: it ends before the first byte that ends a plain
  scalar (with that reason, or end of input), less the blanks in front of that byte.
\<close>

theorem scan_plain_exact:
  assumes "length p < 2 ^ 32" "pos \<le> length p"
  shows "\<exists>e. sp_start (yep_scan_plain p pos flow) = of_nat pos \<and> pos \<le> e \<and> e \<le> length p \<and>
    (\<forall>j. pos \<le> j \<and> j < e \<longrightarrow> plain_stop p pos flow j = None) \<and>
    (if e = length p then sp_term (yep_scan_plain p pos flow) = YEP_TERM_EOF
     else plain_stop p pos flow e = Some (sp_term (yep_scan_plain p pos flow))) \<and>
    (let last = unat (sp_end (yep_scan_plain p pos flow)) in
     pos \<le> last \<and> last \<le> e \<and> (\<forall>j. last \<le> j \<and> j < e \<longrightarrow> is_blank (p ! j)) \<and>
     (pos < last \<longrightarrow> \<not> is_blank (p ! (last - 1))))"
proof -
  obtain e t where w: "plain_walk p pos flow pos = (e, t)" by (cases "plain_walk p pos flow pos")
  note first = plain_walk_first [OF assms(2) w]
  then have trim: "pos \<le> trim_blanks p pos e \<and> trim_blanks p pos e \<le> e \<and>
      (\<forall>j. trim_blanks p pos e \<le> j \<and> j < e \<longrightarrow> is_blank (p ! j)) \<and>
      (pos < trim_blanks p pos e \<longrightarrow> \<not> is_blank (p ! (trim_blanks p pos e - 1)))"
    by (intro trim_blanks_spec) simp
  then have "unat (of_nat (trim_blanks p pos e) :: u32) = trim_blanks p pos e"
    using first assms(1) by (simp add: unsigned_of_nat take_bit_eq_mod)
  then show ?thesis using first trim scan_plain_walk [OF assms, of flow] unfolding w
    by (intro exI [of _ e]) (simp add: Let_def)
qed

theorem scan_plain_exact_witness:
  "\<exists>e. sp_start (yep_scan_plain (bytes_of ''a:b  # c'') 0 False) = 0 \<and> plain_stop (bytes_of ''a:b  # c'') 0 False e = Some YEP_TERM_COMMENT"
proof -
  have "plain_walk (bytes_of ''a:b  # c'') 0 False 0 = (5, YEP_TERM_COMMENT)" by code_simp
  then have t: "sp_term (yep_scan_plain (bytes_of ''a:b  # c'') 0 False) = YEP_TERM_COMMENT"
    by (simp add: scan_plain_walk)
  show ?thesis
    using scan_plain_exact [of "bytes_of ''a:b  # c''" 0 False] unfolding t by (auto split: if_splits)
qed

text \<open>
  C37. The key span the line-shape classifier reads off the line facts is the span the plain
  scanner finds from the first byte of the line, when the line holds no NEL, LS or PS.
\<close>

theorem shape_key_agrees:
  assumes "length p < 2 ^ 32" "pos \<le> length p"
    and "t = unat (li_offset (yep_scan_line p pos) + li_indent (yep_scan_line p pos))"
    and "\<forall>j. t \<le> j \<and> j < unat (li_end (yep_scan_line p pos)) \<longrightarrow> yep_scan_mb_break_len p j = 0"
  shows "shape_key_span p t (yep_scan_facts p pos) = yep_scan_plain p t False"
proof -
  note li = scan_line_fields [of p pos]
  have t: "t = unat (lf_indent (yep_scan_facts p pos))" using assms(3) li by metis
  moreover have "\<forall>j. t \<le> j \<and> j < unat (lf_end (yep_scan_facts p pos)) \<longrightarrow> yep_scan_mb_break_len p j = 0" using assms(4) li by metis
  ultimately show ?thesis by (rule key_span_agrees [OF assms(1,2) scan_facts_plain [OF assms(1,2)]])
qed

theorem shape_key_agrees_witness:
  "shape_key_span (bytes_of '' key: v'') 1 (yep_scan_facts (bytes_of '' key: v'') 0) = yep_scan_plain (bytes_of '' key: v'') 1 False"
proof (rule shape_key_agrees)
  have f: "yep_scan_facts (bytes_of '' key: v'') 0 = \<lparr>lf_end = 7, lf_indent = 1, lf_stop = 4, lf_stop_set = True\<rparr>"
    by (simp add: scan_facts_plain plain_line_facts_def is_brk_def is_stop_def)
  note li = scan_line_fields [of "bytes_of '' key: v''" 0, unfolded f]
  then show "1 = unat (li_offset (yep_scan_line (bytes_of '' key: v'') 0) + li_indent (yep_scan_line (bytes_of '' key: v'') 0))"
    by (metis One_nat_def unat_1 yep_line_facts.select_convs(2))
  have "list_all (\<lambda>j. yep_scan_mb_break_len (bytes_of '' key: v'') j = 0) [0..<7]" by code_simp
  then show "\<forall>j. 1 \<le> j \<and> j < unat (li_end (yep_scan_line (bytes_of '' key: v'') 0)) \<longrightarrow> yep_scan_mb_break_len (bytes_of '' key: v'') j = 0"
    using li by (simp add: list_all_iff)
qed simp_all

text \<open>
  C38. A text that \<^verbatim>\<open>yep_scan_plain_safe\<close> accepts is read back whole: written without quotes before
  a line end, or as a key before \<^verbatim>\<open>": "\<close>, the plain scanner in block context returns exactly its
  span, whatever precedes and follows it in a buffer of a 32-bit size.
\<close>

theorem plain_safe_rescans:
  assumes "yep_scan_plain_safe p"
  shows "(length (pre @ p @ 0x0A # rest) < 2 ^ 32 \<longrightarrow>
      yep_scan_plain (pre @ p @ 0x0A # rest) (length pre) False =
        \<lparr>sp_start = of_nat (length pre), sp_end = of_nat (length pre + length p), sp_term = YEP_TERM_EOL\<rparr>) \<and>
    (length (pre @ p @ 0x3A # 0x20 # rest) < 2 ^ 32 \<longrightarrow>
      yep_scan_plain (pre @ p @ 0x3A # 0x20 # rest) (length pre) False =
        \<lparr>sp_start = of_nat (length pre), sp_end = of_nat (length pre + length p), sp_term = YEP_TERM_COLON\<rparr>)"
proof (intro conjI impI)
  let ?q = "pre @ p @ 0x0A # rest"
  have "plain_stop ?q (length pre) False (length pre + length p) = Some YEP_TERM_EOL"
    by (simp add: plain_stop_def yep_scan_break_len_def nth_append)
  then show "length ?q < 2 ^ 32 \<Longrightarrow> yep_scan_plain ?q (length pre) False =
      \<lparr>sp_start = of_nat (length pre), sp_end = of_nat (length pre + length p), sp_term = YEP_TERM_EOL\<rparr>"
    by (intro safe_walk [OF assms]) auto
next
  let ?q = "pre @ p @ 0x3A # 0x20 # rest"
  have n: "?q ! (length pre + length p) = 0x3A" "?q ! Suc (length pre + length p) = 0x20" by (simp_all add: nth_append)
  have "plain_stop ?q (length pre) False (length pre + length p) = Some YEP_TERM_COLON"
    using n by (simp add: plain_stop_def yep_scan_break_len_def yep_scan_mb_break_len_def yep_colon_terminates_def Let_def)
  then show "length ?q < 2 ^ 32 \<Longrightarrow> yep_scan_plain ?q (length pre) False =
      \<lparr>sp_start = of_nat (length pre), sp_end = of_nat (length pre + length p), sp_term = YEP_TERM_COLON\<rparr>"
    by (intro safe_walk [OF assms]) auto
qed

theorem plain_safe_rescans_witness:
  "yep_scan_plain (bytes_of ''k'' @ bytes_of ''a b:c'' @ 0x0A # bytes_of ''z'') 1 False =
     \<lparr>sp_start = 1, sp_end = 6, sp_term = YEP_TERM_EOL\<rparr>"
proof -
  have "yep_scan_plain_safe (bytes_of ''a b:c'')" by code_simp
  from plain_safe_rescans [OF this, of "bytes_of ''k''" "bytes_of ''z''"] show ?thesis by simp
qed

end
