(* ===== verification/Scalars.thy ===== *)
theory Scalars
  imports Memory Json View Encoding
begin

text \<open>
  Scalar finishing, \<^verbatim>\<open>src/yeptris/parse/scalars.[ch]\<close>: from the raw span of a scalar to its
  content. A span \<open>[start, end)\<close> of the buffer \<open>p\<close> is passed as the offsets into \<open>p\<close>. The
  output buffer holds its \<^verbatim>\<open>len\<close> bytes as a list; it grows into the pool of \<open>Memory\<close>, or is a
  caller's fixed buffer when it has none. \<^verbatim>\<open>size_t\<close> lengths and capacities are natural numbers:
  they stay below twice an allocation's size. A byte that finds no room is dropped without a
  sign, as in the code.
\<close>

section \<open>The output buffer\<close>

definition yep_simple_key_chars :: "byte list \<Rightarrow> nat" where
  "yep_simple_key_chars p = length [c \<leftarrow> p. c AND 0xC0 \<noteq> 0x80]"

definition yep_emit_cp :: "u32 \<Rightarrow> byte list" where
  "yep_emit_cp cp =
     (if cp < 0x80 then [ucast cp]
      else if cp < 0x800 then [ucast (0xC0 OR drop_bit 6 cp), ucast (0x80 OR (cp AND 0x3F))]
      else if cp < 0x10000 then
        [ucast (0xE0 OR drop_bit 12 cp), ucast (0x80 OR (drop_bit 6 cp AND 0x3F)), ucast (0x80 OR (cp AND 0x3F))]
      else
        [ucast (0xF0 OR drop_bit 18 cp), ucast (0x80 OR (drop_bit 12 cp AND 0x3F)),
         ucast (0x80 OR (drop_bit 6 cp AND 0x3F)), ucast (0x80 OR (cp AND 0x3F))])"

record yep_buf =
  bf_pool :: "yep_pool option"
  bf_data :: "byte list"
  bf_cap :: nat

text \<open>The doubling loop; the code enters it with a capacity of at least 256.\<close>

function grow_cap :: "nat \<Rightarrow> nat \<Rightarrow> nat" where
  "grow_cap ncap need = (if 0 < ncap \<and> ncap < need then grow_cap (ncap * 2) need else ncap)"
  by pat_completeness auto
termination by (relation "measure (\<lambda>(ncap, need). need - ncap)") auto

declare grow_cap.simps [simp del]

definition yep_buf_reserve :: "yep_allocator \<Rightarrow> yep_buf \<Rightarrow> nat \<Rightarrow> bool \<times> yep_buf" where
  "yep_buf_reserve sys b need =
     (if length (bf_data b) + need \<le> bf_cap b then (True, b)
      else
        (case bf_pool b of
           None \<Rightarrow> (False, b)
         | Some pool \<Rightarrow>
             let ncap = grow_cap (if bf_cap b \<noteq> 0 then bf_cap b * 2 else 256) (length (bf_data b) + need) in
             (case yep_pool_alloc sys pool (of_nat ncap) 16 of
                (None, pool') \<Rightarrow> (False, b\<lparr>bf_pool := Some pool'\<rparr>)
              | (Some a, pool') \<Rightarrow> (True, b\<lparr>bf_pool := Some pool', bf_cap := ncap\<rparr>))))"

definition yep_buf_put :: "yep_allocator \<Rightarrow> yep_buf \<Rightarrow> byte list \<Rightarrow> yep_buf" where
  "yep_buf_put sys b s =
     (if s = [] then b
      else
        (case yep_buf_reserve sys b (length s) of
           (True, b) \<Rightarrow> b\<lparr>bf_data := bf_data b @ s\<rparr>
         | (False, b) \<Rightarrow> b))"

definition yep_buf_putc :: "yep_allocator \<Rightarrow> yep_buf \<Rightarrow> byte \<Rightarrow> yep_buf" where
  "yep_buf_putc sys b c =
     (case yep_buf_reserve sys b 1 of
        (True, b) \<Rightarrow> b\<lparr>bf_data := bf_data b @ [c]\<rparr>
      | (False, b) \<Rightarrow> b)"

definition buf_new :: "yep_pool option \<Rightarrow> nat \<Rightarrow> yep_buf" where
  "buf_new pool cap = \<lparr>bf_pool = pool, bf_data = [], bf_cap = cap\<rparr>"

fun yep_emit_breaks :: "yep_allocator \<Rightarrow> yep_buf \<Rightarrow> nat \<Rightarrow> yep_buf" where
  "yep_emit_breaks sys b 0 = b"
| "yep_emit_breaks sys b (Suc n) = yep_emit_breaks sys (yep_buf_putc sys b 0x0A) n"

definition yep_fold_break :: "yep_allocator \<Rightarrow> yep_buf \<Rightarrow> nat \<Rightarrow> yep_buf" where
  "yep_fold_break sys b breaks =
     (if breaks = 0 then b
      else if breaks = 1 then yep_buf_putc sys b 0x20
      else yep_emit_breaks sys b (breaks - 1))"

section \<open>Folding inside quotes\<close>

text \<open>The offset behind one line break, \<^verbatim>\<open>CR LF\<close> counting as one.\<close>

definition past_break :: "byte list \<Rightarrow> nat \<Rightarrow> nat \<Rightarrow> nat" where
  "past_break p i en = (if p ! i = 0x0D \<and> i + 1 < en \<and> p ! (i + 1) = 0x0A then i + 2 else i + 1)"

definition brk_at :: "byte list \<Rightarrow> nat \<Rightarrow> nat \<Rightarrow> bool" where
  "brk_at p i en \<longleftrightarrow> i < en \<and> (p ! i = 0x0A \<or> p ! i = 0x0D)"

definition past_blanks :: "byte list \<Rightarrow> nat \<Rightarrow> nat \<Rightarrow> nat" where
  "past_blanks p i en = i + length (takeWhile (\<lambda>c. c = 0x20 \<or> c = 0x09) (take (en - i) (drop i p)))"

function break_run :: "byte list \<Rightarrow> nat \<Rightarrow> nat \<Rightarrow> nat \<Rightarrow> nat \<times> nat" where
  "break_run p en i breaks =
     (if brk_at p i en then break_run p en (past_break p i en) (breaks + 1) else (i, breaks))"
  by pat_completeness auto
termination
  by (relation "measure (\<lambda>(p, en, i, breaks). en - i)") (auto simp: brk_at_def past_break_def)

declare break_run.simps [simp del]

text \<open>
  The counting loop \<^verbatim>\<open>for (;;)\<close>: runs of breaks, with the lines of white space only between
  them, and the white space of the line that follows.
\<close>

lemma break_run_ge: "i \<le> fst (break_run p en i n) \<and> (i \<le> en \<longrightarrow> fst (break_run p en i n) \<le> en)"
proof (induction p en i n rule: break_run.induct)
  case (1 p en i breaks)
  then show ?case by (auto simp: break_run.simps [of p en i breaks] brk_at_def past_break_def)
qed

lemma past_blanks_ge: "i \<le> past_blanks p i en" and past_blanks_le: "i \<le> en \<Longrightarrow> past_blanks p i en \<le> en"
  using length_takeWhile_le [of "\<lambda>c. c = 0x20 \<or> c = 0x09" "take (en - i) (drop i p)"]
  by (auto simp: past_blanks_def)

function count_breaks :: "byte list \<Rightarrow> nat \<Rightarrow> nat \<Rightarrow> nat \<Rightarrow> nat \<times> nat" where
  "count_breaks p en i breaks =
     (let (save, breaks) = break_run p en i breaks; i = past_blanks p save en in
      if brk_at p i en \<and> save < i then count_breaks p en i breaks else (i, breaks))"
  by pat_completeness auto
termination
proof (relation "measure (\<lambda>(p, en, i, breaks). en - i)")
  fix p :: "byte list" and en i breaks save breaks' x :: nat and z
  assume z: "z = break_run p en i breaks" "(save, breaks') = z" "x = past_blanks p save en" "brk_at p x en \<and> save < x"
  then have "save = fst (break_run p en i breaks)" by (metis fst_conv)
  then have "i \<le> save" using break_run_ge by simp
  then have "i < x" "x < en" using z(4) by (auto simp: brk_at_def)
  then show "((p, en, x, breaks'), (p, en, i, breaks)) \<in> measure (\<lambda>(p, en, i, breaks). en - i)" by simp
qed simp

declare count_breaks.simps [simp del]

fun strip_blanks :: "nat \<Rightarrow> byte list \<Rightarrow> byte list" where
  "strip_blanks floor data =
     (if data \<noteq> [] \<and> floor < length data \<and> (last data = 0x20 \<or> last data = 0x09)
      then strip_blanks floor (butlast data) else data)"

declare strip_blanks.simps [simp del]

definition fold_in_quotes :: "yep_allocator \<Rightarrow> yep_buf \<Rightarrow> nat \<Rightarrow> nat \<Rightarrow> yep_buf" where
  "fold_in_quotes sys b floor breaks =
     (let b = b\<lparr>bf_data := strip_blanks floor (bf_data b)\<rparr> in
      if breaks = 1 then yep_buf_putc sys b 0x20 else yep_emit_breaks sys b (breaks - 1))"

section \<open>Double quotes\<close>

text \<open>The digits of \<^verbatim>\<open>\x\<close>, \<^verbatim>\<open>\u\<close> and \<^verbatim>\<open>\U\<close>; \<open>None\<close> when one is missing.\<close>

fun hex_digits :: "byte list \<Rightarrow> nat \<Rightarrow> nat \<Rightarrow> nat \<Rightarrow> u32 \<Rightarrow> u32 option" where
  "hex_digits p i en 0 cp = Some cp"
| "hex_digits p i en (Suc k) cp =
     (let hv = (if i < en then hexval (p ! i) else - 1) in
      if hv < 0 then None else hex_digits p (i + 1) en k (push_bit 4 cp OR of_int hv))"

text \<open>The escape at \<open>i\<close>, the offset of the letter behind the backslash; the result is the next offset.\<close>

definition finish_hex :: "yep_allocator \<Rightarrow> byte list \<Rightarrow> nat \<Rightarrow> nat \<Rightarrow> byte \<Rightarrow> yep_buf \<Rightarrow> yep_buf \<times> nat" where
  "finish_hex sys p en i e b =
     (let digits = (if e = 0x78 then 2 else if e = 0x75 then 4 else 8) in
      case hex_digits p (i + 1) en digits 0 of
        None \<Rightarrow> (yep_buf_putc sys (yep_buf_putc sys b 0x5C) e, i + 1)
      | Some cp \<Rightarrow>
          let (cp, i) =
            (if e = 0x75 \<and> 0xD800 \<le> cp \<and> cp \<le> 0xDBFF \<and> i + 1 + 4 + 6 \<le> en \<and> p ! (i + 1 + 4) = 0x5C \<and>
               p ! (i + 2 + 4) = 0x75
             then
               (case hex_digits p (i + 3 + 4) en 4 0 of
                  None \<Rightarrow> (cp, i)
                | Some lo \<Rightarrow>
                    if 0xDC00 \<le> lo \<and> lo \<le> 0xDFFF then (0x10000 + push_bit 10 (cp - 0xD800) + (lo - 0xDC00), i + 6)
                    else (cp, i))
             else (cp, i));
              cp = (if 0xD800 \<le> cp \<and> cp \<le> 0xDFFF then 0xFFFD else cp)
          in (yep_buf_put sys b (yep_emit_cp cp), i + 1 + digits))"

text \<open>The breaks behind an escaped line break.\<close>

function extra_breaks :: "byte list \<Rightarrow> nat \<Rightarrow> nat \<Rightarrow> nat \<Rightarrow> nat \<times> nat" where
  "extra_breaks p en j extra =
     (let j = past_blanks p j en in
      if brk_at p j en then extra_breaks p en (past_break p j en) (extra + 1) else (j, extra))"
  by pat_completeness auto
termination
proof (relation "measure (\<lambda>(p, en, j, extra). en - j)")
  fix p :: "byte list" and en j extra x :: nat
  assume x: "x = past_blanks p j en" "brk_at p x en"
  then have "j \<le> x" "x < en" using past_blanks_ge [of j p en] by (auto simp: brk_at_def)
  then show "((p, en, past_break p x en, extra + 1), (p, en, j, extra)) \<in> measure (\<lambda>(p, en, j, extra). en - j)"
    by (auto simp: past_break_def)
qed simp

declare extra_breaks.simps [simp del]

text \<open>The one-byte escapes, and those that stand for a few bytes.\<close>

definition simple_escape :: "byte \<Rightarrow> byte option" where
  "simple_escape e =
     (if e = 0x30 then Some 0 else if e = 0x61 then Some 0x07 else if e = 0x62 then Some 0x08
      else if e = 0x74 \<or> e = 0x09 then Some 0x09 else if e = 0x6E then Some 0x0A else if e = 0x76 then Some 0x0B
      else if e = 0x66 then Some 0x0C else if e = 0x72 then Some 0x0D else if e = 0x65 then Some 0x1B
      else if e = 0x20 then Some 0x20 else if e = 0x22 then Some 0x22 else if e = 0x2F then Some 0x2F
      else if e = 0x5C then Some 0x5C else None)"

definition wide_escape :: "byte \<Rightarrow> byte list option" where
  "wide_escape e =
     (if e = 0x4E then Some [0xC2, 0x85] else if e = 0x5F then Some [0xC2, 0xA0]
      else if e = 0x4C then Some [0xE2, 0x80, 0xA8] else if e = 0x50 then Some [0xE2, 0x80, 0xA9] else None)"

definition finish_escape :: "yep_allocator \<Rightarrow> byte list \<Rightarrow> nat \<Rightarrow> nat \<Rightarrow> yep_buf \<Rightarrow> yep_buf \<times> nat" where
  "finish_escape sys p en i b =
     (let e = p ! i in
      case simple_escape e of Some c \<Rightarrow> (yep_buf_putc sys b c, i + 1)
      | None \<Rightarrow>
          (case wide_escape e of Some s \<Rightarrow> (yep_buf_put sys b s, i + 1)
           | None \<Rightarrow>
               if e = 0x78 \<or> e = 0x75 \<or> e = 0x55 then finish_hex sys p en i e b
               else if e = 0x0A \<or> e = 0x0D then
                 (case extra_breaks p en (past_break p i en) 0 of (j, extra) \<Rightarrow> (yep_emit_breaks sys b extra, j))
               else (yep_buf_putc sys (yep_buf_putc sys b 0x5C) e, i + 1)))"

text \<open>The loop of \<^verbatim>\<open>finish_double_body\<close>; every turn moves the offset forward.\<close>

lemma past_break_gt: "i < past_break p i en" "brk_at p i en \<Longrightarrow> past_break p i en \<le> en"
  by (auto simp: past_break_def brk_at_def)

lemma count_breaks_ge: "i \<le> fst (count_breaks p en i n)"
proof (induction p en i n rule: count_breaks.induct)
  case (1 p en i n)
  obtain save m where r: "break_run p en i n = (save, m)" by (cases "break_run p en i n")
  then have "i \<le> save" using break_run_ge [of i p en n] by simp
  then have "i \<le> past_blanks p save en" using past_blanks_ge [of save p en] by simp
  then show ?case using 1 [OF r [symmetric] refl refl] r
    by (auto simp: count_breaks.simps [of p en i n] Let_def)
qed

lemma count_breaks_gt: "brk_at p i en \<Longrightarrow> i < fst (count_breaks p en i n)"
proof -
  assume b: "brk_at p i en"
  obtain save m where r: "break_run p en i n = (save, m)" by (cases "break_run p en i n")
  have "i < save"
    using r b break_run_ge [of "past_break p i en" p en "n + 1"] past_break_gt(1) [of i p en]
    by (simp add: break_run.simps [of p en i n])
  then have "i < past_blanks p save en" using past_blanks_ge [of save p en] by simp
  then show ?thesis using count_breaks_ge [of "past_blanks p save en" p en m] r
    by (auto simp: count_breaks.simps [of p en i n] Let_def)
qed

lemma extra_breaks_ge: "j \<le> fst (extra_breaks p en j n)"
proof (induction p en j n rule: extra_breaks.induct)
  case (1 p en j n)
  have "j \<le> past_blanks p j en" by (rule past_blanks_ge)
  moreover have "past_blanks p j en < past_break p (past_blanks p j en) en" by (rule past_break_gt)
  ultimately show ?case using 1 [OF refl] by (auto simp: extra_breaks.simps [of p en j n] Let_def)
qed

lemma finish_hex_gt: "i < snd (finish_hex sys p en i e b)"
proof -
  let ?d = "if e = 0x78 then 2 else if e = 0x75 then 4 else (8 :: nat)"
  show ?thesis
  proof (cases "hex_digits p (i + 1) en ?d 0")
    case (Some cp)
    then show ?thesis unfolding finish_hex_def Let_def
      by (cases "hex_digits p (i + 3 + 4) en 4 0") (simp_all del: hex_digits.simps)
  qed (simp add: finish_hex_def Let_def del: hex_digits.simps)
qed

lemma finish_escape_gt: "i < snd (finish_escape sys p en i b)"
proof -
  have "i < fst (extra_breaks p en (past_break p i en) 0)"
    using extra_breaks_ge [of "past_break p i en" p en 0] past_break_gt(1) [of i p en] by linarith
  then show ?thesis
    using finish_hex_gt [of i sys p en "p ! i" b] unfolding finish_escape_def Let_def
    by (cases "simple_escape (p ! i)"; cases "wide_escape (p ! i)"; cases "extra_breaks p en (past_break p i en) 0") auto
qed

function finish_double_body ::
    "yep_allocator \<Rightarrow> byte list \<Rightarrow> nat \<Rightarrow> bool \<Rightarrow> nat \<Rightarrow> nat \<Rightarrow> yep_buf \<Rightarrow> yep_buf" where
  "finish_double_body sys p en multiline i esc_floor b =
     (if i < en then
        let c = p ! i in
        if c \<noteq> 0x5C then
          if multiline \<and> (c = 0x0A \<or> c = 0x0D) then
            let (j, breaks) = count_breaks p en i 0
            in finish_double_body sys p en multiline j esc_floor (fold_in_quotes sys b esc_floor breaks)
          else finish_double_body sys p en multiline (i + 1) esc_floor (yep_buf_putc sys b c)
        else if en \<le> i + 1 then b
        else
          let (b', j) = finish_escape sys p en (i + 1) b
          in finish_double_body sys p en multiline j (length (bf_data b')) b'
      else b)"
  by pat_completeness auto
termination
proof (relation "measure (\<lambda>(sys, p, en, multiline, i, esc_floor, b). en - i)", goal_cases)
  case (2 sys p en multiline i esc_floor b x xa j breaks)
  then have "i < j" using count_breaks_gt [of p i en 0] by (metis brk_at_def fst_conv)
  then show ?case using 2 by simp
next
  case (4 sys p en multiline i esc_floor b x xa b' j)
  then have "i + 1 < j" using finish_escape_gt [of "i + 1" sys p en b] by (metis snd_conv)
  then show ?case using 4 by simp
qed auto

declare finish_double_body.simps [simp del]

text \<open>The offsets are natural numbers; the code keeps them in \<^verbatim>\<open>uint32_t\<close>, for buffers below \<open>2^32\<close>
  bytes. The decoded bytes (\<open>None\<close> is NULL: no block was ever taken), \<^verbatim>\<open>*out_len\<close> and the pool.\<close>

definition buf_result :: "yep_buf \<Rightarrow> byte list option \<times> u32 \<times> yep_pool option" where
  "buf_result b = ((if bf_cap b = 0 then None else Some (bf_data b)), of_nat (length (bf_data b)), bf_pool b)"

definition yep_finish_double ::
    "yep_allocator \<Rightarrow> byte list \<Rightarrow> nat \<Rightarrow> nat \<Rightarrow> bool \<Rightarrow> yep_pool \<Rightarrow> byte list option \<times> u32 \<times> yep_pool option" where
  "yep_finish_double sys p start en multiline pool =
     buf_result (finish_double_body sys p en multiline start 0 (buf_new (Some pool) 0))"

text \<open>The bytes written to \<^verbatim>\<open>dst\<close>; the result of the C function is their number.\<close>

definition yep_finish_double_into :: "yep_allocator \<Rightarrow> byte list \<Rightarrow> nat \<Rightarrow> nat \<Rightarrow> nat \<Rightarrow> byte list" where
  "yep_finish_double_into sys p start en cap =
     bf_data (finish_double_body sys p en False start 0 (buf_new None cap))"

section \<open>Single quotes\<close>

definition quote_pair :: "byte list \<Rightarrow> nat \<Rightarrow> nat \<Rightarrow> bool" where
  "quote_pair p i en \<longleftrightarrow> p ! i = 0x27 \<and> i + 1 < en \<and> p ! (i + 1) = 0x27"

function finish_single_body :: "yep_allocator \<Rightarrow> byte list \<Rightarrow> nat \<Rightarrow> bool \<Rightarrow> nat \<Rightarrow> yep_buf \<Rightarrow> yep_buf" where
  "finish_single_body sys p en multiline i b =
     (if i < en then
        if quote_pair p i en then finish_single_body sys p en multiline (i + 2) (yep_buf_putc sys b 0x27)
        else if multiline \<and> (p ! i = 0x0A \<or> p ! i = 0x0D) then
          let (j, breaks) = count_breaks p en i 0
          in finish_single_body sys p en multiline j (fold_in_quotes sys b 0 breaks)
        else finish_single_body sys p en multiline (i + 1) (yep_buf_putc sys b (p ! i))
      else b)"
  by pat_completeness auto
termination
proof (relation "measure (\<lambda>(sys, p, en, multiline, i, b). en - i)", goal_cases)
  case (3 sys p en multiline i b x j breaks)
  then have "i < j" using count_breaks_gt [of p i en 0] by (metis brk_at_def fst_conv)
  then show ?case using 3 by simp
qed auto

declare finish_single_body.simps [simp del]

text \<open>\<open>None\<close>: the content is the span itself (borrowed).\<close>

definition yep_finish_single ::
    "yep_allocator \<Rightarrow> byte list \<Rightarrow> nat \<Rightarrow> nat \<Rightarrow> bool \<Rightarrow> yep_pool \<Rightarrow> (byte list option \<times> u32 \<times> yep_pool option) option" where
  "yep_finish_single sys p start en multiline pool =
     (if \<not> list_ex (\<lambda>i. quote_pair p i en) [start..<en] \<and> \<not> multiline then None
      else Some (buf_result (finish_single_body sys p en multiline start (buf_new (Some pool) 0))))"

section \<open>Folded lines and blocks\<close>

record yep_fold_line =
  fl_content :: yep_view
  fl_breaks_before :: nat
  fl_more_indented :: bool

definition yep_fold_plain ::
    "yep_allocator \<Rightarrow> yep_fold_line list \<Rightarrow> yep_pool \<Rightarrow> byte list option \<times> u32 \<times> yep_pool option" where
  "yep_fold_plain sys lines pool =
     buf_result (foldl (\<lambda>b l. yep_buf_put sys (yep_fold_break sys b (fl_breaks_before l)) (fl_content l))
       (buf_new (Some pool) 0) lines)"

definition block_line :: "yep_allocator \<Rightarrow> yep_fold_line list \<Rightarrow> bool \<Rightarrow> yep_buf \<Rightarrow> nat \<Rightarrow> yep_buf" where
  "block_line sys lines folded b i =
     (let l = lines ! i; br = fl_breaks_before l;
          b = (if \<not> folded then yep_emit_breaks sys b br
               else
                 let keep = fl_more_indented l \<or> (0 < i \<and> fl_more_indented (lines ! (i - 1)))
                 in if keep \<or> i = 0 then yep_emit_breaks sys b br else yep_fold_break sys b br)
      in yep_buf_put sys b (fl_content l))"

definition yep_finish_block ::
    "yep_allocator \<Rightarrow> yep_fold_line list \<Rightarrow> bool \<Rightarrow> int \<Rightarrow> nat \<Rightarrow> yep_pool \<Rightarrow> byte list option \<times> u32 \<times> yep_pool option" where
  "yep_finish_block sys lines folded chomp trailing_breaks pool =
     (let b = foldl (block_line sys lines folded) (buf_new (Some pool) 0) [0..<length lines];
          b = (if chomp = 1 then b
               else if chomp = 2 then yep_emit_breaks sys b trailing_breaks
               else if bf_data b \<noteq> [] then yep_buf_putc sys b 0x0A else b)
      in buf_result b)"

end
