(* ===== verification/Scalar_Facts.thy ===== *)
theory Scalar_Facts
  imports Scalars Scan_Facts Utf8_Facts Json_Machine
begin

text \<open>
  Facts about the scalar finishers: the text a JSON string stands for and its decoding in place,
  the growth of a pool buffer, and the results the callers cannot tell from a failure.
\<close>

section \<open>Buffers with room\<close>

lemma reserve_room: "length (bf_data b) + n \<le> bf_cap b \<Longrightarrow> yep_buf_reserve sys b n = (True, b)"
  by (simp add: yep_buf_reserve_def)

lemma put_room: "length (bf_data b) + length s \<le> bf_cap b \<Longrightarrow> yep_buf_put sys b s = b\<lparr>bf_data := bf_data b @ s\<rparr>"
  by (cases b) (simp add: yep_buf_put_def reserve_room)

lemma putc_room: "length (bf_data b) < bf_cap b \<Longrightarrow> yep_buf_putc sys b c = b\<lparr>bf_data := bf_data b @ [c]\<rparr>"
  by (simp add: yep_buf_putc_def reserve_room)

section \<open>The text a JSON string stands for\<close>

text \<open>The UTF-8 form of a code point, by the arithmetic encoder.\<close>

definition utf8 :: "nat \<Rightarrow> byte list" where
  "utf8 n = map of_nat (emit_nat n)"

lemma emit_cp_utf8:
  assumes "n < 0x110000"
  shows "yep_emit_cp (of_nat n) = utf8 n"
proof -
  let ?bs = "yep_emit_utf8 (of_nat n)"
  have "map unat ?bs = emit_nat n" using emit_eq_iff [OF assms] by blast
  then have "map of_nat (map unat ?bs) = utf8 n" by (simp add: utf8_def)
  then have "?bs = utf8 n" by (simp add: comp_def)
  then show ?thesis by (simp add: yep_emit_cp_def yep_emit_utf8_def)
qed

lemma utf8_length: "length (utf8 n) \<le> 4" "n < 0x10000 \<Longrightarrow> length (utf8 n) \<le> 3"
  by (simp_all add: utf8_def emit_nat_def)

definition json_letters :: "(byte \<times> byte) list" where
  "json_letters = [(0x22, 0x22), (0x5C, 0x5C), (0x2F, 0x2F), (0x62, 0x08), (0x66, 0x0C), (0x6E, 0x0A), (0x72, 0x0D), (0x74, 0x09)]"

inductive json_decoded :: "byte list \<Rightarrow> byte list \<Rightarrow> bool" where
  dec_nil: "json_decoded [] []"
| dec_raw: "json_decoded (c # s) (c # t)" if "0x20 \<le> c" "c \<noteq> 0x22" "c \<noteq> 0x5C" "json_decoded s t"
| dec_letter: "json_decoded (0x5C # c # s) (d # t)" if "(c, d) \<in> set json_letters" "json_decoded s t"
| dec_unit: "json_decoded (0x5C # 0x75 # h @ s) (utf8 (hex_nat h) @ t)"
    if "hex4 h" "\<not> (0xD800 \<le> hex_nat h \<and> hex_nat h \<le> 0xDFFF)" "json_decoded s t"
| dec_pair: "json_decoded (0x5C # 0x75 # h @ 0x5C # 0x75 # l @ s)
      (utf8 (0x10000 + 0x400 * (hex_nat h - 0xD800) + (hex_nat l - 0xDC00)) @ t)"
    if "hex4 h" "hex4 l" "0xD800 \<le> hex_nat h" "hex_nat h \<le> 0xDBFF" "0xDC00 \<le> hex_nat l" "hex_nat l \<le> 0xDFFF"
      "json_decoded s t"

lemma letter_decoded: "c \<in> set ([0x22, 0x5C] @ bytes_of ''/bfnrt'') \<Longrightarrow> \<exists>d. (c, d) \<in> set json_letters"
  by (auto simp: json_letters_def)

lemma json_chars_decoded: "json_chars e x \<Longrightarrow> \<exists>t. json_decoded x t \<and> (\<not> e \<longrightarrow> t = x)"
proof (induction rule: json_chars.induct)
  case (chars_escape x e s)
  then obtain t where t: "json_decoded s t" by blast
  from chars_escape(1) consider
      c where "c \<in> set ([0x22, 0x5C] @ bytes_of ''/bfnrt'')" "x = [0x5C, c]"
    | h where "x = [0x5C, 0x75] @ h" "hex4 h" "\<not> (0xD800 \<le> hex_nat h \<and> hex_nat h \<le> 0xDFFF)"
    | h l where "x = [0x5C, 0x75] @ h @ [0x5C, 0x75] @ l" "hex4 h" "hex4 l"
        "0xD800 \<le> hex_nat h" "hex_nat h \<le> 0xDBFF" "0xDC00 \<le> hex_nat l" "hex_nat l \<le> 0xDFFF"
    unfolding escape_text_def by blast
  then show ?case
  proof cases
    case 1
    then show ?thesis using letter_decoded [OF 1(1)] dec_letter [OF _ t] by fastforce
  next
    case 2
    then show ?thesis using dec_unit [OF 2(2,3) t] by fastforce
  next
    case 3
    then show ?thesis using dec_pair [OF 3(2-7) t] by fastforce
  qed
qed (auto intro: json_decoded.intros)

section \<open>Decoding in place\<close>

lemma hex_digits_ok:
  "list_all is_hex ds \<Longrightarrow> (\<And>k. k < length ds \<Longrightarrow> q ! (i + k) = ds ! k) \<Longrightarrow> i + length ds \<le> en \<Longrightarrow>
   hex_digits q i en (length ds) cp = Some (foldl (\<lambda>cp d. push_bit 4 cp OR of_int (hexval d)) cp ds)"
proof (induction ds arbitrary: i cp)
  case (Cons d ds)
  have "q ! i = d" using Cons.prems(2) [of 0] by simp
  moreover have "\<not> hexval d < 0" using Cons.prems(1) hexval_range [of d] by simp
  moreover have "q ! (i + 1 + k) = ds ! k" if "k < length ds" for k using Cons.prems(2) [of "Suc k"] that by simp
  ultimately show ?case using Cons.IH [of "i + 1"] Cons.prems(1,3) by (simp add: Let_def)
qed simp

lemma hex4_digits:
  assumes "hex4 h" "i = length q"
  shows "i + 4 \<le> en \<Longrightarrow> hex_digits (q @ h @ r') i en 4 0 = Some (of_nat (hex_nat h))"
proof -
  assume en: "i + 4 \<le> en"
  have h: "length h = 4" "list_all is_hex h" using assms(1) by (simp_all add: hex4_def)
  have "hex_digits (q @ h @ r') i en (length h) 0 = Some (hex_fold h)"
    unfolding hex_fold_def using h en assms(2) by (intro hex_digits_ok) (auto simp: nth_append)
  moreover have "of_nat (unat (hex_fold h)) = hex_fold h" by simp
  then have "hex_fold h = of_nat (hex_nat h)" unfolding hex_fold_cmp(2) [OF assms(1)] by simp
  ultimately show ?thesis using h by simp
qed

lemma finish_simple:
  "p ! i = c \<Longrightarrow> (c, d) \<in> set json_letters \<Longrightarrow> finish_escape sys p en i b = (yep_buf_putc sys b d, i + 1)"
proof -
  have "list_all (\<lambda>(c, d). simple_escape c = Some d) json_letters" by code_simp
  then show "p ! i = c \<Longrightarrow> (c, d) \<in> set json_letters \<Longrightarrow> ?thesis"
    by (auto simp: finish_escape_def Let_def list_all_iff)
qed

lemma finish_u:
  "p ! i = 0x75 \<Longrightarrow> finish_escape sys p en i b = finish_hex sys p en i 0x75 b"
  by (simp add: finish_escape_def simple_escape_def wide_escape_def Let_def)

lemma cmp_nat:
  "n < 0x10000 \<Longrightarrow> (0xD800 \<le> (of_nat n :: u32) \<longleftrightarrow> 0xD800 \<le> n) \<and> ((of_nat n :: u32) \<le> 0xDBFF \<longleftrightarrow> n \<le> 0xDBFF) \<and>
     (0xDC00 \<le> (of_nat n :: u32) \<longleftrightarrow> 0xDC00 \<le> n) \<and> ((of_nat n :: u32) \<le> 0xDFFF \<longleftrightarrow> n \<le> 0xDFFF)"
  by (simp add: word_le_nat_alt unsigned_of_nat take_bit_eq_mod)

lemma finish_unit:
  assumes "hex4 h" "\<not> (0xD800 \<le> hex_nat h \<and> hex_nat h \<le> 0xDFFF)" "length q + 5 \<le> en"
  shows "finish_escape sys (q @ 0x75 # h @ r) en (length q) b = (yep_buf_put sys b (utf8 (hex_nat h)), length q + 5)"
proof -
  let ?p = "q @ 0x75 # h @ r"
  have d: "hex_digits ?p (length q + 1) en 4 0 = Some (of_nat (hex_nat h))"
    using hex4_digits [OF assms(1), of "length q + 1" "q @ [0x75]" en r] assms(3) by simp
  note n = hex_fold_cmp(1) [OF assms(1)]
  have "\<not> (0xD800 \<le> (of_nat (hex_nat h) :: u32) \<and> (of_nat (hex_nat h) :: u32) \<le> 0xDBFF)"
    "\<not> (0xD800 \<le> (of_nat (hex_nat h) :: u32) \<and> (of_nat (hex_nat h) :: u32) \<le> 0xDFFF)"
    using cmp_nat n assms(2) by auto
  moreover have "yep_emit_cp (of_nat (hex_nat h)) = utf8 (hex_nat h)" using n by (intro emit_cp_utf8) simp
  moreover have "?p ! length q = 0x75" by (simp add: nth_append)
  ultimately show ?thesis using d by (auto simp: finish_u finish_hex_def simp del: hex_digits.simps)
qed

lemma finish_hex_pair:
  assumes "hex_digits p (i + 1) en 4 0 = Some cp" "0xD800 \<le> cp \<and> cp \<le> 0xDBFF" "i + 11 \<le> en"
    and "p ! (i + 5) = 0x5C" "p ! (i + 6) = 0x75" "hex_digits p (i + 7) en 4 0 = Some lo" "0xDC00 \<le> lo \<and> lo \<le> 0xDFFF"
    and N: "N = 0x10000 + push_bit 10 (cp - 0xD800) + (lo - 0xDC00)" "\<not> (0xD800 \<le> N \<and> N \<le> 0xDFFF)"
  shows "finish_hex sys p en i 0x75 b = (yep_buf_put sys b (yep_emit_cp N), i + 11)"
proof -
  have digits: "(if (0x75 :: byte) = 0x78 then 2 else if (0x75 :: byte) = 0x75 then 4 else 8) = (4 :: nat)" by simp
  have at: "i + 1 + 4 + 6 = i + 11" "i + 1 + 4 = i + 5" "i + 2 + 4 = i + 6" "i + 3 + 4 = i + 7" by simp_all
  show ?thesis unfolding finish_hex_def Let_def digits at assms(1) option.case assms(4-6)
    using assms(2,3,7) N by (auto simp del: hex_digits.simps)
qed

lemma finish_pair:
  assumes h: "hex4 h" "0xD800 \<le> hex_nat h" "hex_nat h \<le> 0xDBFF" and l: "hex4 l" "0xDC00 \<le> hex_nat l" "hex_nat l \<le> 0xDFFF"
    and en: "length q + 11 \<le> en"
  shows "finish_escape sys (q @ 0x75 # h @ 0x5C # 0x75 # l @ r) en (length q) b =
    (yep_buf_put sys b (utf8 (0x10000 + 0x400 * (hex_nat h - 0xD800) + (hex_nat l - 0xDC00))), length q + 11)"
proof -
  let ?p = "q @ 0x75 # h @ 0x5C # 0x75 # l @ r"
  let ?n = "0x10000 + 0x400 * (hex_nat h - 0xD800) + (hex_nat l - 0xDC00)"
  have h4: "length h = 4" using h(1) by (simp add: hex4_def)
  have d: "hex_digits ?p (length q + 1) en 4 0 = Some (of_nat (hex_nat h))"
    using hex4_digits [OF h(1), of "length q + 1" "q @ [0x75]" en "0x5C # 0x75 # l @ r"] en by simp
  have d2: "hex_digits ?p (length q + 7) en 4 0 = Some (of_nat (hex_nat l))"
    using hex4_digits [OF l(1), of "length q + 7" "q @ 0x75 # h @ [0x5C, 0x75]" en r] en h4 by simp
  have at: "?p ! length q = 0x75" "?p ! (length q + 5) = 0x5C" "?p ! (length q + 6) = 0x75"
    using h4 by (simp_all add: nth_append nth_Cons')
  have c: "0xD800 \<le> (of_nat (hex_nat h) :: u32) \<and> (of_nat (hex_nat h) :: u32) \<le> 0xDBFF"
    "0xDC00 \<le> (of_nat (hex_nat l) :: u32) \<and> (of_nat (hex_nat l) :: u32) \<le> 0xDFFF"
    using cmp_nat hex_fold_cmp(1) [OF h(1)] hex_fold_cmp(1) [OF l(1)] h l by auto
  have n: "?n < 0x110000" using h l by simp
  have "0x10000 + push_bit 10 (of_nat (hex_nat h) - 0xD800) + (of_nat (hex_nat l) - 0xDC00) = (of_nat ?n :: u32)"
    using h(2) l(2) by (simp add: push_bit_eq_mult of_nat_diff algebra_simps)
  moreover have "unat (of_nat ?n :: u32) = ?n" using n by (simp add: unsigned_of_nat take_bit_eq_mod del: of_nat_add)
  then have "\<not> (0xD800 \<le> (of_nat ?n :: u32) \<and> (of_nat ?n :: u32) \<le> 0xDFFF)" by (simp add: word_le_nat_alt del: of_nat_add)
  moreover note emit_cp_utf8 [OF n]
  ultimately show ?thesis
    unfolding finish_u [OF at(1)] by (subst finish_hex_pair [OF d c(1) en at(2,3) d2 c(2) refl]) (simp_all del: of_nat_add hex_digits.simps)
qed

text \<open>One turn of the loop outside the folding of lines.\<close>

lemma body_raw:
  "i < en \<Longrightarrow> p ! i \<noteq> 0x5C \<Longrightarrow>
   finish_double_body sys p en False i fl b = finish_double_body sys p en False (i + 1) fl (yep_buf_putc sys b (p ! i))"
  by (simp add: finish_double_body.simps [of sys p en False i fl b])

lemma body_escape:
  "i + 1 < en \<Longrightarrow> p ! i = 0x5C \<Longrightarrow> finish_escape sys p en (i + 1) b = (b', j) \<Longrightarrow>
   finish_double_body sys p en False i fl b = finish_double_body sys p en False j (length (bf_data b')) b'"
  by (simp add: finish_double_body.simps [of sys p en False i fl b])

lemma body_end: "finish_double_body sys p en False en fl b = b"
  by (simp add: finish_double_body.simps [of sys p en False en fl b])

lemma decode_body:
  "json_decoded s t \<Longrightarrow> en = length pre + length s \<Longrightarrow> length (bf_data b) + length s \<le> bf_cap b \<Longrightarrow>
   bf_data (finish_double_body sys (pre @ s @ post) en False (length pre) fl b) = bf_data b @ t"
proof (induction arbitrary: pre fl b rule: json_decoded.induct)
  case dec_nil
  then show ?case by (simp add: body_end)
next
  case (dec_raw c s t)
  have "(pre @ (c # s) @ post) ! length pre = c" by (simp add: nth_append)
  moreover have "pre @ (c # s) @ post = (pre @ [c]) @ s @ post" by simp
  ultimately show ?case
    using dec_raw.prems dec_raw(3) dec_raw.IH [of "pre @ [c]" "b\<lparr>bf_data := bf_data b @ [c]\<rparr>" fl]
    by (subst body_raw) (simp_all add: putc_room)
next
  case (dec_letter c d s t)
  let ?p = "pre @ (0x5C # c # s) @ post"
  have at: "?p ! length pre = 0x5C" "?p ! (length pre + 1) = c" by (simp_all add: nth_append)
  have fin: "finish_escape sys ?p en (length pre + 1) b = (b\<lparr>bf_data := bf_data b @ [d]\<rparr>, length pre + 2)"
    using finish_simple [OF at(2) dec_letter(1), of sys en b] dec_letter.prems by (simp add: putc_room)
  have "bf_data (finish_double_body sys ?p en False (length pre) fl b) =
      bf_data (finish_double_body sys ?p en False (length pre + 2) (length (bf_data b) + 1) (b\<lparr>bf_data := bf_data b @ [d]\<rparr>))"
    using body_escape [OF _ at(1) fin] dec_letter.prems by simp
  then show ?case
    using dec_letter.IH [of "pre @ [0x5C, c]" "b\<lparr>bf_data := bf_data b @ [d]\<rparr>"] dec_letter.prems by simp
next
  case (dec_unit h s t)
  let ?p = "pre @ (0x5C # 0x75 # h @ s) @ post" and ?u = "utf8 (hex_nat h)"
  have h: "length h = 4" using dec_unit(1) by (simp add: hex4_def)
  have room: "length ?u \<le> 3" using hex_fold_cmp(1) [OF dec_unit(1)] by (intro utf8_length) simp
  have at: "?p ! length pre = 0x5C" by (simp add: nth_append)
  have fin: "finish_escape sys ?p en (length pre + 1) b = (b\<lparr>bf_data := bf_data b @ ?u\<rparr>, length pre + 6)"
    using finish_unit [OF dec_unit(1,2), of "pre @ [0x5C]" en sys "s @ post" b] dec_unit.prems h room by (simp add: put_room)
  have "bf_data (finish_double_body sys ?p en False (length pre) fl b) =
      bf_data (finish_double_body sys ?p en False (length pre + 6) (length (bf_data b @ ?u)) (b\<lparr>bf_data := bf_data b @ ?u\<rparr>))"
    using body_escape [OF _ at fin] dec_unit.prems by simp
  then show ?case
    using dec_unit.IH [of "pre @ 0x5C # 0x75 # h" "b\<lparr>bf_data := bf_data b @ ?u\<rparr>"] dec_unit.prems h room by simp
next
  case (dec_pair h l s t)
  let ?p = "pre @ (0x5C # 0x75 # h @ 0x5C # 0x75 # l @ s) @ post"
  let ?u = "utf8 (0x10000 + 0x400 * (hex_nat h - 0xD800) + (hex_nat l - 0xDC00))"
  have h: "length h = 4" "length l = 4" using dec_pair(1,2) by (simp_all add: hex4_def)
  have room: "length ?u \<le> 4" by (rule utf8_length)
  have at: "?p ! length pre = 0x5C" by (simp add: nth_append)
  have fin: "finish_escape sys ?p en (length pre + 1) b = (b\<lparr>bf_data := bf_data b @ ?u\<rparr>, length pre + 12)"
    using finish_pair [OF dec_pair(1,3,4,2,5,6), of "pre @ [0x5C]" en sys "s @ post" b] dec_pair.prems h room by (simp add: put_room)
  have "bf_data (finish_double_body sys ?p en False (length pre) fl b) =
      bf_data (finish_double_body sys ?p en False (length pre + 12) (length (bf_data b @ ?u)) (b\<lparr>bf_data := bf_data b @ ?u\<rparr>))"
    using body_escape [OF _ at fin] dec_pair.prems by simp
  then show ?case
    using dec_pair.IH [of "pre @ 0x5C # 0x75 # h @ 0x5C # 0x75 # l" "b\<lparr>bf_data := bf_data b @ ?u\<rparr>"] dec_pair.prems h room by simp
qed

section \<open>Buffers that grow\<close>

text \<open>The pool grants the next \<open>k\<close> blocks of the doubling sequence from the size \<open>c\<close> on.\<close>

fun grants :: "yep_allocator \<Rightarrow> yep_pool \<Rightarrow> nat \<Rightarrow> nat \<Rightarrow> bool" where
  "grants sys pool c 0 = True"
| "grants sys pool c (Suc k) =
     (case yep_pool_alloc sys pool (of_nat c) 16 of (None, _) \<Rightarrow> False | (Some a, pool') \<Rightarrow> grants sys pool' (2 * c) k)"

definition next_cap :: "yep_buf \<Rightarrow> nat" where
  "next_cap b = (if bf_cap b \<noteq> 0 then bf_cap b * 2 else 256)"

definition grows_to :: "yep_allocator \<Rightarrow> nat \<Rightarrow> yep_buf \<Rightarrow> bool" where
  "grows_to sys n b \<longleftrightarrow> length (bf_data b) \<le> bf_cap b \<and> (bf_cap b = 0 \<or> 4 \<le> bf_cap b) \<and>
     (\<exists>pool. bf_pool b = Some pool \<and>
       (n \<le> bf_cap b \<or> (\<exists>k. grants sys pool (next_cap b) (Suc k) \<and> n \<le> next_cap b * 2 ^ k)))"

lemma next_cap_data: "next_cap (b\<lparr>bf_data := d\<rparr>) = next_cap b"
  by (simp add: next_cap_def)

lemma grow_cap_enough: "need \<le> ncap \<Longrightarrow> grow_cap ncap need = ncap"
  by (simp add: grow_cap.simps [of ncap need])

lemma next_cap_room: "length (bf_data b) \<le> bf_cap b \<Longrightarrow> bf_cap b = 0 \<or> 4 \<le> bf_cap b \<Longrightarrow> length (bf_data b) + 4 \<le> next_cap b"
  by (auto simp: next_cap_def)

lemma putc_put: "yep_buf_putc sys b c = yep_buf_put sys b [c]"
  by (simp add: yep_buf_putc_def yep_buf_put_def)

lemma put_grows:
  assumes ok: "grows_to sys n b" and room: "length (bf_data b) + length s \<le> n" and small: "length s \<le> 4"
  shows "bf_data (yep_buf_put sys b s) = bf_data b @ s \<and> grows_to sys n (yep_buf_put sys b s)"
proof (cases "length (bf_data b) + length s \<le> bf_cap b")
  case True
  then show ?thesis using ok by (simp add: put_room grows_to_def next_cap_data del: grants.simps)
next
  case False
  then obtain pool k where p: "length (bf_data b) \<le> bf_cap b" "bf_cap b = 0 \<or> 4 \<le> bf_cap b" "bf_pool b = Some pool"
    "grants sys pool (next_cap b) (Suc k)" "n \<le> next_cap b * 2 ^ k"
    using ok room by (auto simp: grows_to_def)
  obtain a pool' where a: "yep_pool_alloc sys pool (of_nat (next_cap b)) 16 = (Some a, pool')"
    "grants sys pool' (2 * next_cap b) k"
    using p(4) by (auto split: prod.splits option.splits)
  have fits: "length (bf_data b) + length s \<le> next_cap b" using next_cap_room [OF p(1,2)] small by simp
  then have cap: "grow_cap (if bf_cap b \<noteq> 0 then bf_cap b * 2 else 256) (length (bf_data b) + length s) = next_cap b"
    unfolding next_cap_def [symmetric] by (rule grow_cap_enough)
  let ?b = "b\<lparr>bf_pool := Some pool', bf_cap := next_cap b\<rparr>"
  have "yep_buf_reserve sys b (length s) = (True, ?b)"
    using a(1) False p(3) unfolding yep_buf_reserve_def cap by simp
  moreover have "s \<noteq> []" using False p(1) by auto
  ultimately have put: "yep_buf_put sys b s = ?b\<lparr>bf_data := bf_data b @ s\<rparr>" by (simp add: yep_buf_put_def)
  have nc: "next_cap (?b\<lparr>bf_data := bf_data b @ s\<rparr>) = 2 * next_cap b" "4 \<le> next_cap b"
    using next_cap_room [OF p(1,2)] by (simp_all add: next_cap_def)
  have "n \<le> next_cap b \<or> (\<exists>k. grants sys pool' (2 * next_cap b) (Suc k) \<and> n \<le> 2 * next_cap b * 2 ^ k)"
  proof (cases k)
    case (Suc j)
    then show ?thesis using a(2) p(5) by (intro disjI2 exI [of _ j]) simp
  qed (use p(5) in simp)
  then show ?thesis using fits nc unfolding put grows_to_def by simp
qed

lemma putc_grows:
  "grows_to sys n b \<Longrightarrow> length (bf_data b) < n \<Longrightarrow>
   bf_data (yep_buf_putc sys b c) = bf_data b @ [c] \<and> grows_to sys n (yep_buf_putc sys b c)"
  using put_grows [of sys n b "[c]"] by (simp add: putc_put)

lemma grows_to_new: "grants sys pool 256 (Suc k) \<Longrightarrow> n \<le> 256 * 2 ^ k \<Longrightarrow> grows_to sys n (buf_new (Some pool) 0)"
  unfolding grows_to_def buf_new_def next_cap_def by auto

section \<open>Properties\<close>

text \<open>
  C40. Every JSON string the strict scanner accepts is decoded by \<^verbatim>\<open>yep_finish_double_into\<close> into
  exactly the text it stands for (each escape as its character, each surrogate pair as one code
  point in UTF-8), in a buffer no larger than the raw span; a string the scanner reports as
  free of escapes decodes to its own bytes, so borrowing the span is right.
\<close>

theorem json_string_decodes:
  assumes "yep_json_string (0x22 # s) = Some (e, r)" "n = length s - length r - 1" "n \<le> cap"
  shows "\<exists>t. json_decoded (take n s) t \<and> (\<not> e \<longrightarrow> t = take n s) \<and>
    yep_finish_double_into sys (pre @ s) (length pre) (length pre + n) cap = t"
proof -
  obtain x where x: "s = x @ 0x22 # r" "json_chars e x" using assms(1) json_string_grammar by blast
  then have n: "take n s = x" "n = length x" using assms(2) by simp_all
  obtain t where "json_decoded x t" "\<not> e \<longrightarrow> t = x" using json_chars_decoded [OF x(2)] by blast
  moreover from this have "yep_finish_double_into sys (pre @ s) (length pre) (length pre + n) cap = t"
    using decode_body [of x t "length pre + n" pre "buf_new None cap" sys "0x22 # r" 0] assms(3) n x(1)
    by (simp add: yep_finish_double_into_def buf_new_def)
  ultimately show ?thesis unfolding n(1) by blast
qed

theorem json_string_decodes_witness:
  "\<exists>t. json_decoded (bytes_of ''a'' @ [0x5C, 0x6E]) t \<and>
    yep_finish_double_into (\<lambda>_ _. None) (bytes_of ''a'' @ [0x5C, 0x6E, 0x22]) 0 3 3 = t"
proof -
  have "yep_json_string (0x22 # bytes_of ''a'' @ [0x5C, 0x6E, 0x22]) = Some (True, [])" by code_simp
  from json_string_decodes [OF this refl, of 3 "\<lambda>_ _. None" "[]"] show ?thesis by (auto simp: numeral_3_eq_3)
qed

text \<open>Some escapes are longer decoded than written, and are lost in a buffer of the raw size.\<close>

lemma wide_escape_lost: "yep_finish_double_into sys [0x5C, 0x4C] 0 2 2 = []"
proof -
  have "finish_escape sys [0x5C, 0x4C] 2 1 (buf_new None 2) = (buf_new None 2, 2)"
    by (simp add: finish_escape_def simple_escape_def wide_escape_def yep_buf_put_def yep_buf_reserve_def buf_new_def)
  then have "finish_double_body sys [0x5C, 0x4C] 2 False 0 0 (buf_new None 2) = buf_new None 2"
    using body_end [of sys "[0x5C, 0x4C]" 2 0 "buf_new None 2"] by (subst finish_double_body.simps) (simp add: buf_new_def)
  then show ?thesis by (simp add: yep_finish_double_into_def buf_new_def)
qed

text \<open>
  Two results the callers cannot tell from a failure or a success: a scalar that holds only an
  escaped line break decodes to nothing and returns NULL, and a single-quoted scalar whose buffer
  the pool refuses returns NULL too, the sign for borrowing the raw span.
\<close>

lemma escaped_break_null: "yep_finish_double sys [0x5C, 0x0A] 0 2 True pool = (None, 0, Some pool)"
proof -
  let ?p = "[0x5C, 0x0A] :: byte list"
  have "extra_breaks ?p 2 2 0 = (2, 0)"
    by (subst extra_breaks.simps) (simp add: past_blanks_def brk_at_def)
  then have "finish_escape sys ?p 2 1 (buf_new (Some pool) 0) = (buf_new (Some pool) 0, 2)"
  proof -
    have e: "?p ! 1 = 0x0A" "past_break ?p 1 2 = 2" "simple_escape 0x0A = None" "wide_escape 0x0A = None"
      by (simp_all add: simple_escape_def wide_escape_def past_break_def)
    assume "extra_breaks ?p 2 2 0 = (2, 0)"
    then show ?thesis unfolding finish_escape_def e Let_def by simp
  qed
  then have "finish_double_body sys ?p 2 True 0 0 (buf_new (Some pool) 0) = buf_new (Some pool) 0"
    by (subst finish_double_body.simps, subst finish_double_body.simps) (simp add: buf_new_def)
  then show ?thesis by (simp add: yep_finish_double_def buf_result_def buf_new_def)
qed

lemma single_refused_null:
  "yep_finish_single (\<lambda>_ _. None) [0x27, 0x27] 0 2 False \<lparr>pl_chain = [], pl_block_size = 4096, pl_blocks = 0\<rparr> =
     Some (None, 0, Some \<lparr>pl_chain = [], pl_block_size = 4096, pl_blocks = 0\<rparr>)"
  by code_simp

end
