(* ===== verification/Writer.thy ===== *)
theory Writer
  imports Scan "HOL-Library.Monad_Syntax"
begin

text \<open>
  The write engine of the emitter, \<^verbatim>\<open>src/yeptris/emit/writer.[ch]\<close> and \<^verbatim>\<open>emit/style.c\<close>: the
  primitives that put bytes on one of four routes (counting only, a growing buffer, a caller's
  buffer, a window flushed to a sink), and the scalar forms over them.

  Memory is what it is in the code: \<open>w_mem\<close> maps the offsets from \<^verbatim>\<open>w->p\<close> that were written to their
  bytes, whether or not they lie inside the buffer, and \<open>w_len\<close> is the offset of the next
  write. A writer function returns \<open>None\<close> when it never returns. \<^verbatim>\<open>size_t\<close> values are natural
  numbers with the wrap-around of the subtraction written out; \<^verbatim>\<open>int\<close> columns are integers.
\<close>

section \<open>The writer\<close>

record yep_writer =
  w_mem :: "nat \<Rightarrow> byte option"
  w_null :: bool
  w_len :: nat
  w_dry :: bool
  w_last :: byte
  w_sink :: bool
  w_chunks :: "byte list list"
  w_watermark :: nat
  w_flushed :: nat
  w_sink_aborted :: bool
  w_json_indent :: "byte list option"
  w_best_width :: int
  w_indent :: int
  w_block_fold :: bool
  w_in_flow :: bool
  w_flow_item :: bool
  w_col :: int
  w_cap :: nat
  w_grow :: bool
  w_oom :: bool
  w_bounded :: bool
  w_reserve :: nat

text \<open>The outside: whether \<^verbatim>\<open>realloc\<close> grants a size, and whether the sink takes a chunk.\<close>

record wr_env =
  env_realloc :: "nat \<Rightarrow> bool"
  env_sink :: "byte list list \<Rightarrow> byte list \<Rightarrow> bool"

definition size_sub :: "nat \<Rightarrow> nat \<Rightarrow> nat" where
  "size_sub a b = (if b \<le> a then a - b else a + 2 ^ 64 - b)"

definition store :: "(nat \<Rightarrow> byte option) \<Rightarrow> nat \<Rightarrow> byte list \<Rightarrow> nat \<Rightarrow> byte option" where
  "store mem at bs = (\<lambda>i. if at \<le> i \<and> i < at + length bs then Some (bs ! (i - at)) else mem i)"

definition written :: "(nat \<Rightarrow> byte option) \<Rightarrow> nat \<Rightarrow> byte list" where
  "written mem n = map (\<lambda>i. case mem i of Some b \<Rightarrow> b | None \<Rightarrow> 0) [0..<n]"

section \<open>The primitives\<close>

definition wr_maybe_flush :: "wr_env \<Rightarrow> yep_writer \<Rightarrow> yep_writer" where
  "wr_maybe_flush env w =
     (if \<not> w_sink w \<or> w_dry w \<or> w_len w < w_watermark w then w
      else
        let bs = written (w_mem w) (w_len w); w' = w\<lparr>w_chunks := w_chunks w @ [bs]\<rparr> in
        if \<not> env_sink env (w_chunks w) bs then w'\<lparr>w_sink_aborted := True\<rparr>
        else w'\<lparr>w_flushed := w_flushed w + w_len w, w_len := 0\<rparr>)"

definition wr_col_update :: "yep_writer \<Rightarrow> byte list \<Rightarrow> yep_writer" where
  "wr_col_update w s =
     w\<lparr>w_col := (if 0x0A \<in> set s then int (length (takeWhile (\<lambda>c. c \<noteq> 0x0A) (rev s))) else w_col w + int (length s))\<rparr>"

text \<open>
  The wanted capacity is a natural number: sums and doublings of sizes that a buffer can have stay
  below \<open>2^64\<close>.
\<close>

definition wr_grow :: "wr_env \<Rightarrow> yep_writer \<Rightarrow> nat \<Rightarrow> yep_writer" where
  "wr_grow env w need =
     (if w_oom w \<or> w_null w then w\<lparr>w_oom := w_null w\<rparr>
      else
        let want = w_len w + need + 1; want = (if want < w_cap w * 2 then w_cap w * 2 else want) in
        if \<not> env_realloc env want then w\<lparr>w_oom := True\<rparr> else w\<lparr>w_cap := want\<rparr>)"

definition wr_reserve :: "wr_env \<Rightarrow> yep_writer \<Rightarrow> nat \<Rightarrow> yep_writer" where
  "wr_reserve env w need =
     (let w = wr_maybe_flush env w in
      if \<not> w_grow w \<or> w_bounded w then w\<lparr>w_reserve := 0\<rparr>
      else if w_oom w then w
      else
        let w = (if w_cap w < w_len w + need + 1 then wr_grow env w need else w) in
        if w_oom w then w else w\<lparr>w_reserve := size_sub (size_sub (w_cap w) (w_len w)) 1\<rparr>)"

text \<open>
  The chunking loop of the window route, on the bytes still to write. A window without room whose
  flush leaves no room either would loop for ever.
\<close>

partial_function (option) wr_chunks :: "wr_env \<Rightarrow> byte list \<Rightarrow> yep_writer \<Rightarrow> yep_writer option" where
  "wr_chunks env s w =
     (if s = [] then Some w
      else if w_sink_aborted w then Some (w\<lparr>w_len := w_len w + length s\<rparr>)
      else
        let room = size_sub (size_sub (w_cap w) (w_len w)) 1;
            room = (if length s < room then length s else room);
            w = w\<lparr>w_mem := store (w_mem w) (w_len w) (take room s), w_len := w_len w + room\<rparr>;
            s = drop room s
        in
          if s = [] then Some w
          else
            let bs = written (w_mem w) (w_len w); w' = w\<lparr>w_chunks := w_chunks w @ [bs]\<rparr> in
            if \<not> env_sink env (w_chunks w) bs then wr_chunks env s (w'\<lparr>w_sink_aborted := True\<rparr>)
            else wr_chunks env s (w'\<lparr>w_flushed := w_flushed w + w_len w, w_len := 0\<rparr>))"

definition wr_put :: "wr_env \<Rightarrow> byte list \<Rightarrow> yep_writer \<Rightarrow> yep_writer option" where
  "wr_put env s w =
     (let w = (if s \<noteq> [] then w\<lparr>w_last := last s\<rparr> else w); w = wr_col_update w s in
      if w_dry w then Some (w\<lparr>w_len := w_len w + length s\<rparr>)
      else if w_sink w \<and> \<not> w_grow w \<and> \<not> w_bounded w \<and> 0 < w_cap w \<and>
        size_sub (size_sub (w_cap w) (w_len w)) 1 < length s
      then wr_chunks env s w
      else
        let w1 = (if w_reserve w < length s then wr_reserve env w (length s) else w) in
        if w_reserve w < length s \<and> w_oom w1 then Some (w1\<lparr>w_len := w_len w1 + length s\<rparr>)
        else Some (w1\<lparr>w_reserve := (if length s \<le> w_reserve w1 then w_reserve w1 - length s else 0),
                      w_mem := store (w_mem w1) (w_len w1) s, w_len := w_len w1 + length s\<rparr>))"

definition wr_byte :: "wr_env \<Rightarrow> byte \<Rightarrow> yep_writer \<Rightarrow> yep_writer option" where
  "wr_byte env c w =
     (let w = w\<lparr>w_last := c, w_col := (if c = 0x0A then 0 else w_col w + 1)\<rparr> in
      if w_dry w then Some (w\<lparr>w_len := w_len w + 1\<rparr>)
      else
        let w1 = (if w_reserve w = 0 then wr_reserve env w 1 else w) in
        if w_reserve w = 0 \<and> w_oom w1 then Some (w1\<lparr>w_len := w_len w1 + 1\<rparr>)
        else Some (w1\<lparr>w_reserve := w_reserve w1 - 1, w_mem := (w_mem w1)(w_len w1 \<mapsto> c), w_len := w_len w1 + 1\<rparr>))"

text \<open>The write calls a scalar form makes, in order.\<close>

datatype wr_op = W_Put "byte list" | W_Byte byte

fun wr_run :: "wr_env \<Rightarrow> wr_op list \<Rightarrow> yep_writer \<Rightarrow> yep_writer option" where
  "wr_run env [] w = Some w"
| "wr_run env (W_Put s # ops) w = wr_put env s w \<bind> wr_run env ops"
| "wr_run env (W_Byte c # ops) w = wr_byte env c w \<bind> wr_run env ops"

definition indent_ops :: "int \<Rightarrow> wr_op list" where
  "indent_ops depth = replicate (nat depth) (W_Byte 0x20)"

definition wr_indent :: "wr_env \<Rightarrow> int \<Rightarrow> yep_writer \<Rightarrow> yep_writer option" where
  "wr_indent env depth = wr_run env (indent_ops depth)"

definition wr_pretty_indent :: "wr_env \<Rightarrow> int \<Rightarrow> yep_writer \<Rightarrow> yep_writer option" where
  "wr_pretty_indent env depth w =
     (case w_json_indent w of
        None \<Rightarrow> wr_indent env (depth * 2) w
      | Some unit \<Rightarrow> wr_run env (replicate (nat depth) (W_Put unit)) w)"

section \<open>Quoted forms\<close>

definition flush_run :: "byte list \<Rightarrow> wr_op list" where
  "flush_run run = (if run = [] then [] else [W_Put run])"

definition hex_upper :: "byte list" where "hex_upper = bytes_of ''0123456789ABCDEF''"
definition hex_lower :: "byte list" where "hex_lower = bytes_of ''0123456789abcdef''"

text \<open>The multibyte sequences that are never written raw: the writes and the bytes consumed.\<close>

definition dq_multi :: "byte list \<Rightarrow> (wr_op list \<times> nat) option" where
  "dq_multi s =
     (let c = s ! 0 in
      if c = 0xC2 \<and> 1 < length s \<and> s ! 1 = 0x85 then Some ([W_Put (bytes_of [CHR 0x5C, CHR ''N''])], 2)
      else if c = 0xE2 \<and> 2 < length s \<and> s ! 1 = 0x80 \<and> (s ! 2 = 0xA8 \<or> s ! 2 = 0xA9) then
        Some ([W_Put (bytes_of [CHR 0x5C, if s ! 2 = 0xA8 then CHR ''L'' else CHR ''P''])], 3)
      else if c = 0xC2 \<and> 1 < length s \<and> 0x80 \<le> s ! 1 \<and> s ! 1 \<le> 0x9F then
        Some ([W_Byte 0x5C, W_Byte 0x78, W_Byte (hex_upper ! unat (drop_bit 4 (s ! 1))),
               W_Byte (hex_upper ! unat (s ! 1 AND 0x0F))], 2)
      else if c = 0xEF \<and> 2 < length s \<and> s ! 1 = 0xBF \<and> (s ! 2 = 0xBE \<or> s ! 2 = 0xBF) then
        Some ([W_Put (0x5C # bytes_of (if s ! 2 = 0xBE then ''uFFFE'' else ''uFFFF''))], 3)
      else if c = 0xEF \<and> 2 < length s \<and> s ! 1 = 0xBB \<and> s ! 2 = 0xBF then
        Some ([W_Put (0x5C # bytes_of ''uFEFF'')], 3)
      else None)"

definition dq_named :: "byte \<Rightarrow> byte option" where
  "dq_named c = map_of (zip [0x00, 0x07, 0x08, 0x0B, 0x0C, 0x1B] (bytes_of ''0abvfe'')) c"

definition dq_single :: "byte \<Rightarrow> wr_op list" where
  "dq_single c =
     (if c = 0x22 \<or> c = 0x5C then [W_Byte 0x5C, W_Byte c]
      else if c = 0x0A then [W_Put [0x5C, 0x6E]]
      else if c = 0x0D then [W_Put [0x5C, 0x72]]
      else if c = 0x09 then [W_Put [0x5C, 0x74]]
      else if c < 0x20 \<or> c = 0x7F then
        (case dq_named c of
           Some l \<Rightarrow> [W_Put [0x5C, l]]
         | None \<Rightarrow> [W_Put [0x5C, 0x78, hex_lower ! unat (drop_bit 4 c AND 0x0F), hex_lower ! unat (c AND 0x0F)]])
      else [])"

definition dq_clean :: "byte \<Rightarrow> bool" where
  "dq_clean c \<longleftrightarrow> 0x20 \<le> c \<and> c \<noteq> 0x22 \<and> c \<noteq> 0x5C \<and> c \<noteq> 0x7F"

lemma dq_multi_pos: "dq_multi s = Some (ops, k) \<Longrightarrow> 2 \<le> k \<and> k \<le> length s"
  by (auto simp: dq_multi_def Let_def split: if_splits)

function dq_ops :: "byte list \<Rightarrow> byte list \<Rightarrow> wr_op list" where
  "dq_ops run [] = flush_run run"
| "dq_ops run (c # s) =
     (case dq_multi (c # s) of
        Some (ops, k) \<Rightarrow> flush_run run @ ops @ dq_ops [] (drop k (c # s))
      | None \<Rightarrow>
          if dq_clean c then dq_ops (run @ [c]) s
          else flush_run run @ dq_single c @ dq_ops [] s)"
  by pat_completeness auto
termination
  by (relation "measure (\<lambda>(run, s). length s)") (auto dest: dq_multi_pos)

definition emit_dq :: "wr_env \<Rightarrow> byte list \<Rightarrow> yep_writer \<Rightarrow> yep_writer option" where
  "emit_dq env p = wr_run env ([W_Byte 0x22] @ dq_ops [] p @ [W_Byte 0x22])"

definition sq_ops :: "byte list \<Rightarrow> wr_op list" where
  "sq_ops p = map (\<lambda>c. if c = 0x27 then W_Put [0x27, 0x27] else W_Byte c) p"

definition emit_sq :: "wr_env \<Rightarrow> byte list \<Rightarrow> yep_writer \<Rightarrow> yep_writer option" where
  "emit_sq env p = wr_run env ([W_Byte 0x27] @ sq_ops p @ [W_Byte 0x27])"

definition json_named :: "byte \<Rightarrow> byte option" where
  "json_named c = map_of (zip [0x08, 0x09, 0x0A, 0x0C, 0x0D] (bytes_of ''btnfr'')) c"

fun dq_json_ops :: "byte list \<Rightarrow> byte list \<Rightarrow> wr_op list" where
  "dq_json_ops run [] = flush_run run"
| "dq_json_ops run (c # s) =
     (if 0x20 \<le> c \<and> c \<noteq> 0x22 \<and> c \<noteq> 0x5C then dq_json_ops (run @ [c]) s
      else
        flush_run run @
        (case (if c < 32 then json_named c else None) of
           Some l \<Rightarrow> [W_Put [0x5C, l]]
         | None \<Rightarrow>
             if c = 0x22 \<or> c = 0x5C then [W_Byte 0x5C, W_Byte c]
             else [W_Put ([0x5C, 0x75, 0x30, 0x30, hex_lower ! unat (drop_bit 4 c AND 0x0F), hex_lower ! unat (c AND 0x0F)])]) @
        dq_json_ops [] s)"

definition emit_dq_json :: "wr_env \<Rightarrow> byte list \<Rightarrow> yep_writer \<Rightarrow> yep_writer option" where
  "emit_dq_json env p = wr_run env ([W_Byte 0x22] @ dq_json_ops [] p @ [W_Byte 0x22])"

section \<open>Folding at the width\<close>

definition wr_fold_break :: "wr_env \<Rightarrow> int \<Rightarrow> yep_writer \<Rightarrow> yep_writer option" where
  "wr_fold_break env fold_col w = wr_byte env 0x0A w \<bind> wr_indent env fold_col"

text \<open>May the break replace the byte at \<open>i\<close>; \<open>run\<close> bytes before it are not written yet.\<close>

definition fold_here :: "byte list \<Rightarrow> nat \<Rightarrow> nat \<Rightarrow> yep_writer \<Rightarrow> bool" where
  "fold_here p i run w \<longleftrightarrow>
     p ! i = 0x20 \<and> 0 < i \<and> i + 1 < length p \<and> w_best_width w < w_col w + int run \<and>
     p ! (i - 1) \<noteq> 0x20 \<and> p ! (i + 1) \<noteq> 0x20"

definition put_run :: "wr_env \<Rightarrow> byte list \<Rightarrow> nat \<Rightarrow> nat \<Rightarrow> yep_writer \<Rightarrow> yep_writer option" where
  "put_run env p i run w = (if run \<noteq> 0 then wr_put env (take run (drop (i - run) p)) w else Some w)"

function plain_folded_loop ::
    "wr_env \<Rightarrow> byte list \<Rightarrow> int \<Rightarrow> nat \<Rightarrow> nat \<Rightarrow> yep_writer \<Rightarrow> yep_writer option" where
  "plain_folded_loop env p fold_col i run w =
     (if i < length p then
        if fold_here p i run w then
          put_run env p i run w \<bind> wr_fold_break env fold_col \<bind> plain_folded_loop env p fold_col (i + 1) 0
        else plain_folded_loop env p fold_col (i + 1) (run + 1) w
      else put_run env p i run w)"
  by pat_completeness auto
termination by (relation "measure (\<lambda>(env, p, fold_col, i, run, w). length p - i)") auto

definition emit_plain_folded :: "wr_env \<Rightarrow> byte list \<Rightarrow> int \<Rightarrow> yep_writer \<Rightarrow> yep_writer option" where
  "emit_plain_folded env p fold_col = plain_folded_loop env p fold_col 0 0"

function sq_folded_loop ::
    "wr_env \<Rightarrow> byte list \<Rightarrow> int \<Rightarrow> nat \<Rightarrow> nat \<Rightarrow> yep_writer \<Rightarrow> yep_writer option" where
  "sq_folded_loop env p fold_col i run w =
     (if i < length p then
        if p ! i = 0x27 then
          put_run env p i run w \<bind> wr_put env [0x27, 0x27] \<bind> sq_folded_loop env p fold_col (i + 1) 0
        else if fold_here p i run w then
          put_run env p i run w \<bind> wr_fold_break env fold_col \<bind> sq_folded_loop env p fold_col (i + 1) 0
        else sq_folded_loop env p fold_col (i + 1) (run + 1) w
      else put_run env p i run w)"
  by pat_completeness auto
termination by (relation "measure (\<lambda>(env, p, fold_col, i, run, w). length p - i)") auto

declare plain_folded_loop.simps [simp del] sq_folded_loop.simps [simp del]

definition emit_sq_folded :: "wr_env \<Rightarrow> byte list \<Rightarrow> int \<Rightarrow> yep_writer \<Rightarrow> yep_writer option" where
  "emit_sq_folded env p fold_col w =
     wr_byte env 0x27 w \<bind> sq_folded_loop env p fold_col 0 0 \<bind> wr_byte env 0x27"

section \<open>Literal blocks\<close>

definition literal_ops :: "byte list \<Rightarrow> int \<Rightarrow> int \<Rightarrow> wr_op list" where
  "literal_ops p indent parent_col =
     (let trail = length (takeWhile (\<lambda>c. c = 0x0A) (rev p)); body = length p - trail; pad = parent_col + indent in
      [W_Byte 0x7C] @
      (if trail = 0 then [W_Byte 0x2D] else if 1 < trail then [W_Byte 0x2B] else []) @
      (if 0 < body \<and> (p ! 0 = 0x20 \<or> p ! 0 = 0x0A) then [W_Byte (of_int (0x30 + indent))] else []) @
      [W_Byte 0x0A] @ indent_ops pad @
      concat (map (\<lambda>i. W_Byte (p ! i) #
        (if p ! i = 0x0A \<and> i + 1 < body \<and> p ! (i + 1) \<noteq> 0x0A then indent_ops pad else [])) [0..<body]) @
      replicate trail (W_Byte 0x0A))"

definition emit_literal :: "wr_env \<Rightarrow> byte list \<Rightarrow> int \<Rightarrow> yep_writer \<Rightarrow> yep_writer option" where
  "emit_literal env p parent_col w = wr_run env (literal_ops p (w_indent w) parent_col) w"

section \<open>Routes\<close>

definition json_int_token :: "byte list \<Rightarrow> bool" where
  "json_int_token p =
     (let i = (if 0 < length p \<and> p ! 0 = 0x2D then 1 else 0) in
      if length p \<le> i then False
      else if p ! i = 0x30 then i + 1 = length p
      else list_all (\<lambda>c. 0x30 \<le> c \<and> c \<le> 0x39) (drop i p))"

definition yep_style_plain_safe :: "byte list \<Rightarrow> bool" where
  "yep_style_plain_safe p = yep_scan_plain_safe p"

definition yep_style_plain_key_safe :: "byte list \<Rightarrow> bool" where
  "yep_style_plain_key_safe p = yep_scan_plain_safe p"

datatype yep_sc_route = YEP_SC_NOTHING | YEP_SC_PLAIN | YEP_SC_SQ | YEP_SC_DQ | YEP_SC_LITERAL | YEP_SC_TILDE

definition flow_unsafe :: "byte \<Rightarrow> bool" where
  "flow_unsafe c \<longleftrightarrow> c \<in> set (bytes_of '',[]{}'' @ [0x22, 0x5C, 0x27] @ bytes_of ''!&*:?'')"

definition plain_verdict :: "byte list \<Rightarrow> bool \<Rightarrow> bool \<Rightarrow> bool" where
  "plain_verdict p as_key plain_fact =
     (plain_fact \<or> (if as_key then yep_style_plain_key_safe p else yep_style_plain_safe p))"

definition blockable :: "byte list \<Rightarrow> bool" where
  "blockable p \<longleftrightarrow> \<not> list_all (\<lambda>c. c = 0x20 \<or> c = 0x09 \<or> c = 0x0A \<or> c = 0x0D) p \<and> 0x0D \<notin> set p"

definition style_route :: "byte list \<Rightarrow> bool \<Rightarrow> nat \<Rightarrow> bool \<Rightarrow> bool \<Rightarrow> yep_sc_route" where
  "style_route p as_key sty multiline plain_fact =
     (if sty = 1 then
        if p = [] then (if as_key then YEP_SC_DQ else YEP_SC_NOTHING)
        else if plain_verdict p as_key plain_fact then YEP_SC_PLAIN
        else if \<not> multiline then (if list_ex (\<lambda>c. c < 0x20 \<or> c = 0x7F) p then YEP_SC_DQ else YEP_SC_SQ)
        else YEP_SC_DQ
      else if sty = 2 then (if multiline then YEP_SC_DQ else YEP_SC_SQ)
      else YEP_SC_DQ)"

definition sc_route ::
    "yep_writer \<Rightarrow> byte list \<Rightarrow> bool \<Rightarrow> nat \<Rightarrow> bool \<Rightarrow> bool \<Rightarrow> bool \<Rightarrow> yep_sc_route" where
  "sc_route w p as_key sty_in has_tag no_exotic plain_fact =
     (if \<not> no_exotic \<and> yep_scan_dq_forced p then YEP_SC_DQ
      else if w_in_flow w \<and> p \<noteq> [] \<and> list_ex flow_unsafe p then YEP_SC_DQ
      else if sty_in = 1 \<and> p \<noteq> [] \<and> plain_verdict p as_key plain_fact then YEP_SC_PLAIN
      else
        let multiline = (0x0A \<in> set p); block = (multiline \<and> \<not> as_key \<and> blockable p) in
        if sty_in = 4 \<or> sty_in = 5 then
          if w_in_flow w then YEP_SC_DQ
          else if multiline \<and> as_key then YEP_SC_DQ
          else if multiline \<and> block then YEP_SC_LITERAL
          else if multiline then YEP_SC_DQ
          else if p = [] then YEP_SC_DQ
          else if has_tag then YEP_SC_LITERAL
          else style_route p as_key 1 multiline plain_fact
        else style_route p as_key sty_in multiline plain_fact)"

text \<open>The write of one scalar by its route; \<open>len\<close> is never zero on the folded forms.\<close>

definition emit_routed ::
    "wr_env \<Rightarrow> yep_sc_route \<Rightarrow> byte list \<Rightarrow> int \<Rightarrow> bool \<Rightarrow> yep_writer \<Rightarrow> yep_writer option" where
  "emit_routed env route p parent_col as_key w =
     (let fold = (w_block_fold w \<and> \<not> as_key \<and> \<not> w_in_flow w \<and> p \<noteq> []) in
      case route of
        YEP_SC_NOTHING \<Rightarrow> (if w_flow_item w then wr_put env [0x7E] w else Some w)
      | YEP_SC_PLAIN \<Rightarrow> (if fold then emit_plain_folded env p (parent_col + w_indent w) w else wr_put env p w)
      | YEP_SC_SQ \<Rightarrow> (if fold then emit_sq_folded env p (parent_col + w_indent w) w else emit_sq env p w)
      | YEP_SC_LITERAL \<Rightarrow> emit_literal env p parent_col w
      | _ \<Rightarrow> emit_dq env p w)"

end
