(* ===== verification/Writer_Facts.thy ===== *)
theory Writer_Facts
  imports Writer
begin

text \<open>
  The write engine on its routes. A locale states what a route promises of one write: it returns,
  keeps the route's invariant and advances the output by the bytes; the scalar forms are proved once
  inside it, and the counting pass, the growing buffer and the flushed window are its interpretations.
\<close>

section \<open>What a write promises\<close>

definition op_bytes :: "wr_op \<Rightarrow> byte list" where
  "op_bytes op = (case op of W_Put s \<Rightarrow> s | W_Byte c \<Rightarrow> [c])"

definition ops_bytes :: "wr_op list \<Rightarrow> byte list" where
  "ops_bytes ops = concat (map op_bytes ops)"

lemma ops_bytes_simps [simp]:
  "ops_bytes [] = []" "ops_bytes (W_Put s # ops) = s @ ops_bytes ops" "ops_bytes (W_Byte c # ops) = c # ops_bytes ops"
  "ops_bytes (a @ b) = ops_bytes a @ ops_bytes b"
  by (simp_all add: ops_bytes_def op_bytes_def)

text \<open>All bytes written so far, handed to the sink or still in the buffer.\<close>

definition all_out :: "yep_writer \<Rightarrow> byte list" where
  "all_out w = concat (w_chunks w) @ written (w_mem w) (w_len w)"

definition col_after :: "int \<Rightarrow> byte list \<Rightarrow> int" where
  "col_after col s = (if 0x0A \<in> set s then int (length (takeWhile (\<lambda>c. c \<noteq> 0x0A) (rev s))) else col + int (length s))"

lemma col_after_append: "col_after col (s @ t) = col_after (col_after col s) t"
proof (cases "0x0A \<in> set t")
  case False
  then have "takeWhile (\<lambda>c. c \<noteq> 0x0A) (rev t @ u) = rev t @ takeWhile (\<lambda>c. c \<noteq> 0x0A) u" for u
    by (intro takeWhile_append2) auto
  then show ?thesis using False by (auto simp: col_after_def)
qed (auto simp: col_after_def)

lemma col_after_simps [simp]: "col_after col [] = col" "col_after col [c] = (if c = 0x0A then 0 else col + 1)"
  by (simp_all add: col_after_def)

text \<open>The parts of the state that the scalar forms read, besides the column.\<close>

definition same_mode :: "yep_writer \<Rightarrow> yep_writer \<Rightarrow> bool" where
  "same_mode w w' \<longleftrightarrow> w_best_width w' = w_best_width w \<and> w_indent w' = w_indent w \<and> w_block_fold w' = w_block_fold w \<and>
     w_in_flow w' = w_in_flow w \<and> w_flow_item w' = w_flow_item w \<and> w_dry w' = w_dry w \<and> w_json_indent w' = w_json_indent w"

text \<open>The writer \<open>w'\<close> is \<open>w\<close> after the bytes \<open>s\<close>.\<close>

definition adv :: "yep_writer \<Rightarrow> byte list \<Rightarrow> yep_writer \<Rightarrow> bool" where
  "adv w s w' \<longleftrightarrow> same_mode w w' \<and> w_flushed w' + w_len w' = w_flushed w + w_len w + length s \<and>
     (\<not> w_dry w \<longrightarrow> all_out w' = all_out w @ s) \<and> w_col w' = col_after (w_col w) s \<and>
     w_last w' = (if s = [] then w_last w else last s)"

lemma adv_refl: "adv w [] w"
  by (simp add: adv_def same_mode_def)

lemma adv_trans: "adv w s w1 \<Longrightarrow> adv w1 t w2 \<Longrightarrow> adv w (s @ t) w2"
  by (auto simp: adv_def same_mode_def col_after_append)

text \<open>The contract of a route: from a ready writer each write returns, ready, having advanced.\<close>

locale writer_route =
  fixes ready :: "wr_env \<Rightarrow> yep_writer \<Rightarrow> bool"
  assumes put: "ready env w \<Longrightarrow> \<exists>w'. wr_put env s w = Some w' \<and> ready env w' \<and> adv w s w'"
    and byte: "ready env w \<Longrightarrow> \<exists>w'. wr_byte env c w = Some w' \<and> ready env w' \<and> adv w [c] w'"
begin

lemma run:
  "ready env w \<Longrightarrow> \<exists>w'. wr_run env ops w = Some w' \<and> ready env w' \<and> adv w (ops_bytes ops) w'"
proof (induction ops arbitrary: w)
  case (Cons op ops)
  obtain w1 where w1: "ready env w1" "adv w (op_bytes op) w1" "wr_run env (op # ops) w = wr_run env ops w1"
    using put [OF Cons.prems] byte [OF Cons.prems] by (cases op) (fastforce simp: op_bytes_def)+
  from Cons.IH [OF w1(1)] obtain w' where "wr_run env ops w1 = Some w'" "ready env w'" "adv w1 (ops_bytes ops) w'" by blast
  then show ?case using w1 adv_trans [OF w1(2)] by (auto simp: ops_bytes_def)
qed (auto intro: adv_refl)

end

section \<open>The counting route\<close>

definition counting :: "wr_env \<Rightarrow> yep_writer \<Rightarrow> bool" where
  "counting env w \<longleftrightarrow> w_dry w"

interpretation dry_run: writer_route counting
proof
  fix env w s c
  assume "counting env w"
  then show "\<exists>w'. wr_put env s w = Some w' \<and> counting env w' \<and> adv w s w'"
    "\<exists>w'. wr_byte env c w = Some w' \<and> counting env w' \<and> adv w [c] w'"
    by (auto simp: counting_def wr_put_def wr_byte_def wr_col_update_def Let_def adv_def same_mode_def col_after_def)
qed

section \<open>The growing route\<close>

lemma written_store:
  "written (store mem n s) (n + length s) = written mem n @ s"
proof (rule nth_equalityI)
  show "length (written (store mem n s) (n + length s)) = length (written mem n @ s)" by (simp add: written_def)
  fix i assume "i < length (written (store mem n s) (n + length s))"
  then have "i < n + length s" by (simp add: written_def)
  then show "written (store mem n s) (n + length s) ! i = (written mem n @ s) ! i"
    by (auto simp: written_def store_def nth_append)
qed

lemma store_single: "mem(n \<mapsto> c) = store mem n [c]"
  by (auto simp: store_def fun_eq_iff)

text \<open>Every write so far was inside the buffer, and its last byte is free for the terminator.\<close>

definition inside :: "yep_writer \<Rightarrow> bool" where
  "inside w \<longleftrightarrow> w_len w < w_cap w \<and> (\<forall>i. w_mem w i \<noteq> None \<longrightarrow> i + 1 < w_cap w)"

lemma store_inside: "(\<forall>i. mem i \<noteq> None \<longrightarrow> i + 1 < cap) \<Longrightarrow> n + length s < cap \<Longrightarrow> \<forall>i. store mem n s i \<noteq> None \<longrightarrow> i + 1 < cap"
  by (auto simp: store_def)

definition growing :: "wr_env \<Rightarrow> yep_writer \<Rightarrow> bool" where
  "growing env w \<longleftrightarrow> \<not> w_dry w \<and> \<not> w_sink w \<and> w_grow w \<and> \<not> w_bounded w \<and> \<not> w_oom w \<and> \<not> w_null w \<and>
     inside w \<and> w_len w + w_reserve w < w_cap w \<and> (\<forall>n. env_realloc env n)"

lemma reserve_growing:
  assumes "growing env w" "w_reserve w < n"
  defines "w1 \<equiv> wr_reserve env w n"
  shows "growing env w1" "n \<le> w_reserve w1" "w_len w1 = w_len w" "w_mem w1 = w_mem w" "w_chunks w1 = w_chunks w"
    "w_col w1 = w_col w" "w_last w1 = w_last w" "same_mode w w1" "w_flushed w1 = w_flushed w"
  using assms
  by (auto simp: growing_def wr_reserve_def wr_maybe_flush_def wr_grow_def Let_def inside_def size_sub_def same_mode_def)

interpretation grown: writer_route growing
proof
  fix env w s c
  assume g: "growing env w"
  show "\<exists>w'. wr_put env s w = Some w' \<and> growing env w' \<and> adv w s w'"
  proof -
    let ?w = "wr_col_update (if s \<noteq> [] then w\<lparr>w_last := last s\<rparr> else w) s"
    have g0: "growing env ?w" using g by (simp add: growing_def wr_col_update_def inside_def)
    define w1 where "w1 = (if w_reserve ?w < length s then wr_reserve env ?w (length s) else ?w)"
    have w1: "growing env w1" "length s \<le> w_reserve w1" "w_len w1 = w_len w" "w_mem w1 = w_mem w" "w_chunks w1 = w_chunks w"
      "w_col w1 = col_after (w_col w) s" "w_last w1 = (if s = [] then w_last w else last s)" "same_mode w w1"
      "w_flushed w1 = w_flushed w"
      using reserve_growing [OF g0, of "length s"] g0
      by (auto simp: w1_def wr_col_update_def col_after_def same_mode_def)
    let ?w' = "w1\<lparr>w_reserve := w_reserve w1 - length s, w_mem := store (w_mem w1) (w_len w1) s, w_len := w_len w1 + length s\<rparr>"
    have "wr_put env s w = Some ?w'"
      using w1(1,2) g unfolding wr_put_def Let_def w1_def [symmetric]
      by (simp add: growing_def wr_col_update_def)
    moreover have "growing env ?w'"
      using w1(1,2) by (auto simp: growing_def inside_def store_def)
    moreover have "adv w s ?w'"
      using w1(3-) by (simp add: adv_def all_out_def written_store same_mode_def)
    ultimately show ?thesis by blast
  qed
  show "\<exists>w'. wr_byte env c w = Some w' \<and> growing env w' \<and> adv w [c] w'"
  proof -
    let ?w = "w\<lparr>w_last := c, w_col := (if c = 0x0A then 0 else w_col w + 1)\<rparr>"
    have g0: "growing env ?w" using g by (simp add: growing_def inside_def)
    define w1 where "w1 = (if w_reserve ?w = 0 then wr_reserve env ?w 1 else ?w)"
    have w1: "growing env w1" "1 \<le> w_reserve w1" "w_len w1 = w_len w" "w_mem w1 = w_mem w" "w_chunks w1 = w_chunks w"
      "w_col w1 = col_after (w_col w) [c]" "w_last w1 = c" "same_mode w w1" "w_flushed w1 = w_flushed w"
      using reserve_growing [OF g0, of 1] g0 by (auto simp: w1_def same_mode_def)
    let ?w' = "w1\<lparr>w_reserve := w_reserve w1 - 1, w_mem := store (w_mem w1) (w_len w1) [c], w_len := w_len w1 + 1\<rparr>"
    have "wr_byte env c w = Some ?w'"
      using w1(1,2) g unfolding wr_byte_def Let_def w1_def [symmetric]
      by (simp add: growing_def store_single)
    moreover have "growing env ?w'"
      using w1(1,2) by (auto simp: growing_def inside_def store_def)
    moreover have "adv w [c] ?w'"
      using w1(3-) written_store [of "w_mem w1" "w_len w1" "[c]"] by (simp add: adv_def all_out_def same_mode_def)
    ultimately show ?thesis by blast
  qed
qed

section \<open>The window route\<close>

definition window :: "wr_env \<Rightarrow> yep_writer \<Rightarrow> bool" where
  "window env w \<longleftrightarrow> \<not> w_dry w \<and> w_sink w \<and> \<not> w_grow w \<and> \<not> w_bounded w \<and> \<not> w_oom w \<and> \<not> w_sink_aborted w \<and>
     w_reserve w = 0 \<and> inside w \<and> w_watermark w < w_cap w \<and> 1 < w_cap w \<and> (\<forall>cs b. env_sink env cs b)"

text \<open>The bytes leave the buffer for the sink.\<close>

definition flush_all :: "yep_writer \<Rightarrow> yep_writer" where
  "flush_all w = w\<lparr>w_chunks := w_chunks w @ [written (w_mem w) (w_len w)], w_flushed := w_flushed w + w_len w, w_len := 0\<rparr>"

lemma flush_all_adv: "adv w [] (flush_all w)"
  by (simp add: adv_def flush_all_def all_out_def written_def same_mode_def)

lemma flush_all_window: "window env w \<Longrightarrow> window env (flush_all w)"
  by (auto simp: window_def flush_all_def inside_def)

lemma written_put: "adv (w\<lparr>w_last := (if s = [] then w_last w else last s), w_col := col_after (w_col w) s\<rparr>) [] w1 \<Longrightarrow>
  adv w s (w1\<lparr>w_mem := store (w_mem w1) (w_len w1) s, w_len := w_len w1 + length s\<rparr>)"
  by (auto simp: adv_def all_out_def written_store same_mode_def)

lemma window_reserve:
  "window env w \<Longrightarrow> wr_reserve env w n = (if w_len w < w_watermark w then w else flush_all w)"
  by (auto simp: window_def wr_reserve_def wr_maybe_flush_def flush_all_def Let_def)

text \<open>The chunking loop appends its bytes, whatever the room it starts with.\<close>

lemma chunks_window:
  "window env w \<Longrightarrow> \<exists>w'. wr_chunks env s w = Some w' \<and> window env w' \<and>
     w_flushed w' + w_len w' = w_flushed w + w_len w + length s \<and> all_out w' = all_out w @ s \<and>
     w_col w' = w_col w \<and> w_last w' = w_last w \<and> same_mode w w'"
proof (induction "2 * length s + of_bool (w_len w + 1 = w_cap w)" arbitrary: s w rule: less_induct)
  case less
  show ?case
  proof (cases "s = []")
    case True
    then show ?thesis using less(2) by (subst wr_chunks.simps) (simp add: same_mode_def)
  next
    case False
    define room where "room = min (length s) (w_cap w - w_len w - 1)"
    have room: "size_sub (size_sub (w_cap w) (w_len w)) 1 = w_cap w - w_len w - 1" "w_len w + room < w_cap w" "room \<le> length s"
      using less(2) by (auto simp: window_def inside_def size_sub_def room_def)
    define w1 where "w1 = w\<lparr>w_mem := store (w_mem w) (w_len w) (take room s), w_len := w_len w + room\<rparr>"
    have w1: "window env w1" "w_cap w1 = w_cap w" "all_out w1 = all_out w @ take room s" "w_flushed w1 = w_flushed w" "w_len w1 = w_len w + room"
      "w_col w1 = w_col w" "w_last w1 = w_last w" "same_mode w w1"
      using less(2) room(2,3) written_store [of "w_mem w" "w_len w" "take room s"]
      by (auto simp: window_def inside_def w1_def all_out_def store_def same_mode_def min_absorb2)
    have step: "wr_chunks env s w = (if drop room s = [] then Some w1 else wr_chunks env (drop room s) (flush_all w1))"
    proof -
      have m: "(if length s < w_cap w - w_len w - 1 then length s else w_cap w - w_len w - 1) = room" by (simp add: room_def)
      show ?thesis using less(2) False
        unfolding wr_chunks.simps [of env s w] Let_def room(1) m by (simp add: window_def w1_def flush_all_def)
    qed
    show ?thesis
    proof (cases "drop room s = []")
      case True
      then have "take room s = s" "length s = room" using room(3) by simp_all
      then show ?thesis using True step w1 by simp
    next
      case rest: False
      have small: "2 * length (drop room s) + of_bool (w_len (flush_all w1) + 1 = w_cap (flush_all w1)) <
          2 * length s + of_bool (w_len w + 1 = w_cap w)"
      proof (cases room)
        case 0
        then have "w_len w + 1 = w_cap w" using False less(2) by (auto simp: room_def window_def inside_def min_def split: if_splits)
        then show ?thesis using 0 w1 less(2) by (simp add: flush_all_def window_def)
      next
        case (Suc r)
        then show ?thesis using w1 less(2) False by (cases s) (auto simp: flush_all_def window_def)
      qed
      from less(1) [OF small flush_all_window [OF w1(1)]] obtain w' where w': "wr_chunks env (drop room s) (flush_all w1) = Some w'"
        "window env w'" "w_flushed w' + w_len w' = w_flushed (flush_all w1) + w_len (flush_all w1) + length (drop room s)"
        "all_out w' = all_out (flush_all w1) @ drop room s" "w_col w' = w_col (flush_all w1)"
        "w_last w' = w_last (flush_all w1)" "same_mode (flush_all w1) w'" by blast
      have "all_out (flush_all w1) = all_out w1" by (simp add: flush_all_def all_out_def written_def)
      then show ?thesis using rest step w' w1 room(3)
        by (auto simp: flush_all_def same_mode_def)
    qed
  qed
qed

interpretation streamed: writer_route window
proof
  fix env w s c
  assume g: "window env w"
  show "\<exists>w'. wr_put env s w = Some w' \<and> window env w' \<and> adv w s w'"
  proof -
    let ?w = "w\<lparr>w_last := (if s = [] then w_last w else last s), w_col := col_after (w_col w) s\<rparr>"
    have w: "wr_col_update (if s \<noteq> [] then w\<lparr>w_last := last s\<rparr> else w) s = ?w" by (simp add: wr_col_update_def col_after_def)
    have g0: "window env ?w" using g by (simp add: window_def inside_def)
    have sz: "size_sub (size_sub (w_cap w) (w_len w)) (Suc 0) = w_cap w - Suc (w_len w)"
      using g by (auto simp: window_def inside_def size_sub_def)
    show ?thesis
    proof (cases "w_cap w - w_len w - 1 < length s")
      case True
      then have "wr_put env s w = wr_chunks env s ?w"
        using g unfolding wr_put_def Let_def w by (simp add: window_def sz)
      then show ?thesis using chunks_window [OF g0, of s] by (auto simp: adv_def same_mode_def all_out_def)
    next
      case False
      define w1 where "w1 = (if 0 < length s \<and> w_watermark w \<le> w_len w then flush_all ?w else ?w)"
      have w1: "window env w1" "adv ?w [] w1" "w_len w1 + length s < w_cap w1"
        using g0 flush_all_window [OF g0] flush_all_adv [of ?w] False g by (auto simp: w1_def adv_refl flush_all_def window_def inside_def)
      let ?w' = "w1\<lparr>w_mem := store (w_mem w1) (w_len w1) s, w_len := w_len w1 + length s\<rparr>"
      have r: "w_reserve ?w = 0" using g by (simp add: window_def)
      have "(if w_reserve ?w < length s then wr_reserve env ?w (length s) else ?w) = w1"
        unfolding r window_reserve [OF g0] by (simp add: w1_def)
      then have "wr_put env s w = Some (w1\<lparr>w_reserve := 0, w_mem := store (w_mem w1) (w_len w1) s, w_len := w_len w1 + length s\<rparr>)"
        using g w1(1) False unfolding wr_put_def Let_def w by (simp add: window_def sz)
      moreover have "w1\<lparr>w_reserve := 0, w_mem := store (w_mem w1) (w_len w1) s, w_len := w_len w1 + length s\<rparr> = ?w'"
        using w1(1) by (simp add: window_def)
      moreover have "window env ?w'" using w1(1,3) by (auto simp: window_def inside_def store_def)
      moreover have "adv w s ?w'" using written_put [OF w1(2)] .
      ultimately show ?thesis by auto
    qed
  qed
  show "\<exists>w'. wr_byte env c w = Some w' \<and> window env w' \<and> adv w [c] w'"
  proof -
    let ?w = "w\<lparr>w_last := (if [c] = [] then w_last w else last [c]), w_col := col_after (w_col w) [c]\<rparr>"
    have g0: "window env ?w" using g by (simp add: window_def inside_def)
    define w1 where "w1 = (if w_watermark w \<le> w_len w then flush_all ?w else ?w)"
    have w1: "window env w1" "adv ?w [] w1" "w_len w1 + 1 < w_cap w1"
      using g0 flush_all_window [OF g0] flush_all_adv [of ?w] g by (auto simp: w1_def adv_refl flush_all_def window_def inside_def)
    let ?w' = "w1\<lparr>w_mem := store (w_mem w1) (w_len w1) [c], w_len := w_len w1 + 1\<rparr>"
    have r: "w_reserve ?w = 0" using g by (simp add: window_def)
    have "(if w_reserve ?w = 0 then wr_reserve env ?w 1 else ?w) = w1"
      unfolding r window_reserve [OF g0] by (simp add: w1_def)
    then have "wr_byte env c w = Some ?w'"
      using g w1(1) unfolding wr_byte_def Let_def by (simp add: window_def store_single)
    moreover have "window env ?w'" using w1(1,3) by (auto simp: window_def inside_def store_def)
    moreover have "adv w [c] ?w'" using written_put [OF w1(2)] by simp
    ultimately show ?thesis by blast
  qed
qed

section \<open>The scalar forms on any route\<close>

text \<open>The text of the folding loops; \<open>dbl\<close> tells the single-quoted form, which doubles its quotes.\<close>

function fold_text :: "byte list \<Rightarrow> int \<Rightarrow> int \<Rightarrow> bool \<Rightarrow> nat \<Rightarrow> nat \<Rightarrow> int \<Rightarrow> byte list" where
  "fold_text p best fold_col dbl i run col =
     (let pending = take run (drop (i - run) p) in
      if i < length p then
        if dbl \<and> p ! i = 0x27 then
          (pending @ [0x27, 0x27]) @ fold_text p best fold_col dbl (i + 1) 0 (col_after col (pending @ [0x27, 0x27]))
        else if p ! i = 0x20 \<and> 0 < i \<and> i + 1 < length p \<and> best < col + int run \<and> p ! (i - 1) \<noteq> 0x20 \<and> p ! (i + 1) \<noteq> 0x20
        then
          (pending @ 0x0A # replicate (nat fold_col) 0x20) @
          fold_text p best fold_col dbl (i + 1) 0 (col_after col (pending @ 0x0A # replicate (nat fold_col) 0x20))
        else fold_text p best fold_col dbl (i + 1) (run + 1) col
      else pending)"
  by pat_completeness auto
termination by (relation "measure (\<lambda>(p, best, fold_col, dbl, i, run, col). length p - i)") auto

declare fold_text.simps [simp del]

definition single_text :: "byte list \<Rightarrow> byte list" where
  "single_text p = ops_bytes (sq_ops p)"

definition routed_text :: "yep_writer \<Rightarrow> yep_sc_route \<Rightarrow> byte list \<Rightarrow> int \<Rightarrow> bool \<Rightarrow> byte list" where
  "routed_text w route p parent_col as_key =
     (let fold = (w_block_fold w \<and> \<not> as_key \<and> \<not> w_in_flow w \<and> p \<noteq> []); fc = parent_col + w_indent w in
      case route of
        YEP_SC_NOTHING \<Rightarrow> (if w_flow_item w then [0x7E] else [])
      | YEP_SC_PLAIN \<Rightarrow> (if fold then fold_text p (w_best_width w) fc False 0 0 (w_col w) else p)
      | YEP_SC_SQ \<Rightarrow>
          (if fold then 0x27 # fold_text p (w_best_width w) fc True 0 0 (w_col w + 1) @ [0x27]
           else 0x27 # single_text p @ [0x27])
      | YEP_SC_LITERAL \<Rightarrow> ops_bytes (literal_ops p (w_indent w) parent_col)
      | _ \<Rightarrow> 0x22 # ops_bytes (dq_ops [] p) @ [0x22])"

lemma indent_bytes [simp]: "ops_bytes (indent_ops n) = replicate (nat n) 0x20"
  by (simp add: ops_bytes_def indent_ops_def op_bytes_def)

lemma adv_col: "adv w s w' \<Longrightarrow> w_col w' = col_after (w_col w) s \<and> w_best_width w' = w_best_width w"
  by (simp add: adv_def same_mode_def)

context writer_route
begin

lemma put_run_adv:
  "ready env w \<Longrightarrow> \<exists>w'. put_run env p i run w = Some w' \<and> ready env w' \<and> adv w (take run (drop (i - run) p)) w'"
  using put adv_refl by (auto simp: put_run_def)

lemma fold_break_adv:
  "ready env w \<Longrightarrow> \<exists>w'. wr_fold_break env fc w = Some w' \<and> ready env w' \<and> adv w (0x0A # replicate (nat fc) 0x20) w'"
proof -
  assume "ready env w"
  from run [OF this, of "W_Byte 0x0A # indent_ops fc"] show ?thesis
    by (simp add: wr_fold_break_def wr_indent_def fun_eq_iff)
qed

lemma plain_folded_adv:
  "ready env w \<Longrightarrow> \<exists>w'. plain_folded_loop env p fc i run w = Some w' \<and> ready env w' \<and>
     adv w (fold_text p (w_best_width w) fc False i run (w_col w)) w'"
proof (induction "length p - i" arbitrary: i run w)
  case (0 i run w)
  then show ?case using put_run_adv [OF 0(2), of p i run] by (simp add: plain_folded_loop.simps [of env p fc i] fold_text.simps [of p _ fc False i])
next
  case (Suc n)
  have n: "n = length p - (i + 1)" using Suc(2) by simp
  show ?case
  proof (cases "fold_here p i run w")
    case False
    have "fold_text p (w_best_width w) fc False i run (w_col w) = fold_text p (w_best_width w) fc False (i + 1) (run + 1) (w_col w)"
      using False Suc(2) unfolding fold_here_def by (subst fold_text.simps) (auto simp: Let_def)
    moreover have "plain_folded_loop env p fc i run w = plain_folded_loop env p fc (i + 1) (run + 1) w"
      using False Suc(2) by (subst plain_folded_loop.simps) auto
    ultimately show ?thesis using Suc(1) [OF n Suc(3), of "run + 1"] by simp
  next
    case True
    let ?pend = "take run (drop (i - run) p)" and ?brk = "0x0A # replicate (nat fc) 0x20"
    obtain w1 where w1: "put_run env p i run w = Some w1" "ready env w1" "adv w ?pend w1" using put_run_adv [OF Suc(3)] by blast
    obtain w2 where w2: "wr_fold_break env fc w1 = Some w2" "ready env w2" "adv w1 ?brk w2" using fold_break_adv [OF w1(2)] by blast
    have a: "adv w (?pend @ ?brk) w2" by (rule adv_trans [OF w1(3) w2(3)])
    obtain w' where w': "plain_folded_loop env p fc (i + 1) 0 w2 = Some w'" "ready env w'"
      "adv w2 (fold_text p (w_best_width w2) fc False (i + 1) 0 (w_col w2)) w'"
      using Suc(1) [OF n w2(2), of 0] by auto
    have "plain_folded_loop env p fc i run w = Some w'"
      using True Suc(2) w1(1) w2(1) w'(1) by (simp add: plain_folded_loop.simps [of env p fc i])
    moreover have "fold_text p (w_best_width w) fc False i run (w_col w) =
        (?pend @ ?brk) @ fold_text p (w_best_width w2) fc False (i + 1) 0 (w_col w2)"
      using True Suc(2) adv_col [OF a] by (simp add: fold_text.simps [of p _ fc False i] fold_here_def Let_def)
    ultimately show ?thesis using w'(2) adv_trans [OF a w'(3)] by simp
  qed
qed

lemma sq_folded_adv:
  "ready env w \<Longrightarrow> \<exists>w'. sq_folded_loop env p fc i run w = Some w' \<and> ready env w' \<and>
     adv w (fold_text p (w_best_width w) fc True i run (w_col w)) w'"
proof (induction "length p - i" arbitrary: i run w)
  case (0 i run w)
  then show ?case using put_run_adv [OF 0(2), of p i run] by (simp add: sq_folded_loop.simps [of env p fc i] fold_text.simps [of p _ fc True i])
next
  case (Suc n)
  have n: "n = length p - (i + 1)" using Suc(2) by simp
  let ?pend = "take run (drop (i - run) p)"
  obtain w1 where w1: "put_run env p i run w = Some w1" "ready env w1" "adv w ?pend w1" using put_run_adv [OF Suc(3)] by blast
  consider "p ! i = 0x27" | "p ! i \<noteq> 0x27" "fold_here p i run w" | "p ! i \<noteq> 0x27" "\<not> fold_here p i run w" by blast
  then show ?case
  proof cases
    case 3
    have "fold_text p (w_best_width w) fc True i run (w_col w) = fold_text p (w_best_width w) fc True (i + 1) (run + 1) (w_col w)"
      using 3 Suc(2) unfolding fold_here_def by (subst fold_text.simps) (auto simp: Let_def)
    moreover have "sq_folded_loop env p fc i run w = sq_folded_loop env p fc (i + 1) (run + 1) w"
      using 3 Suc(2) by (subst sq_folded_loop.simps) auto
    ultimately show ?thesis using Suc(1) [OF n Suc(3), of "run + 1"] by simp
  next
    case 1
    obtain w2 where w2: "wr_put env [0x27, 0x27] w1 = Some w2" "ready env w2" "adv w1 [0x27, 0x27] w2" using put [OF w1(2)] by blast
    have a: "adv w (?pend @ [0x27, 0x27]) w2" by (rule adv_trans [OF w1(3) w2(3)])
    obtain w' where w': "sq_folded_loop env p fc (i + 1) 0 w2 = Some w'" "ready env w'"
      "adv w2 (fold_text p (w_best_width w2) fc True (i + 1) 0 (w_col w2)) w'"
      using Suc(1) [OF n w2(2), of 0] by auto
    have "sq_folded_loop env p fc i run w = Some w'"
      using 1 Suc(2) w1(1) w2(1) w'(1) by (simp add: sq_folded_loop.simps [of env p fc i])
    moreover have "fold_text p (w_best_width w) fc True i run (w_col w) =
        (?pend @ [0x27, 0x27]) @ fold_text p (w_best_width w2) fc True (i + 1) 0 (w_col w2)"
      using 1 Suc(2) adv_col [OF a] by (simp add: fold_text.simps [of p _ fc True i] Let_def)
    ultimately show ?thesis using w'(2) adv_trans [OF a w'(3)] by simp
  next
    case 2
    let ?brk = "0x0A # replicate (nat fc) 0x20"
    obtain w2 where w2: "wr_fold_break env fc w1 = Some w2" "ready env w2" "adv w1 ?brk w2" using fold_break_adv [OF w1(2)] by blast
    have a: "adv w (?pend @ ?brk) w2" by (rule adv_trans [OF w1(3) w2(3)])
    obtain w' where w': "sq_folded_loop env p fc (i + 1) 0 w2 = Some w'" "ready env w'"
      "adv w2 (fold_text p (w_best_width w2) fc True (i + 1) 0 (w_col w2)) w'"
      using Suc(1) [OF n w2(2), of 0] by auto
    have "sq_folded_loop env p fc i run w = Some w'"
      using 2 Suc(2) w1(1) w2(1) w'(1) by (simp add: sq_folded_loop.simps [of env p fc i])
    moreover have "fold_text p (w_best_width w) fc True i run (w_col w) =
        (?pend @ ?brk) @ fold_text p (w_best_width w2) fc True (i + 1) 0 (w_col w2)"
      using 2 Suc(2) adv_col [OF a] by (simp add: fold_text.simps [of p _ fc True i] fold_here_def Let_def)
    ultimately show ?thesis using w'(2) adv_trans [OF a w'(3)] by simp
  qed
qed

lemma sq_emit_folded_adv:
  "ready env w \<Longrightarrow> \<exists>w'. emit_sq_folded env p fc w = Some w' \<and> ready env w' \<and>
     adv w (0x27 # fold_text p (w_best_width w) fc True 0 0 (w_col w + 1) @ [0x27]) w'"
proof -
  assume "ready env w"
  then obtain w1 where w1: "wr_byte env 0x27 w = Some w1" "ready env w1" "adv w [0x27] w1" using byte by blast
  obtain w2 where w2: "sq_folded_loop env p fc 0 0 w1 = Some w2" "ready env w2"
    "adv w1 (fold_text p (w_best_width w1) fc True 0 0 (w_col w1)) w2" using sq_folded_adv [OF w1(2)] by blast
  obtain w3 where w3: "wr_byte env 0x27 w2 = Some w3" "ready env w3" "adv w2 [0x27] w3" using byte [OF w2(2)] by blast
  show ?thesis
    using w1 w2 w3 adv_col [OF w1(3)] adv_trans [OF adv_trans [OF w1(3) w2(3)] w3(3)] by (simp add: emit_sq_folded_def)
qed

lemma routed:
  assumes "ready env w"
  shows "\<exists>w'. emit_routed env route p parent_col as_key w = Some w' \<and> ready env w' \<and>
    adv w (routed_text w route p parent_col as_key) w'"
proof -
  note r = run [OF assms] and f = plain_folded_adv [OF assms, of p "parent_col + w_indent w" 0 0]
    and q = sq_emit_folded_adv [OF assms, of p "parent_col + w_indent w"]
  show ?thesis
  proof (cases route)
    case YEP_SC_NOTHING
    then show ?thesis using put [OF assms] assms adv_refl by (auto simp: emit_routed_def routed_text_def)
  next
    case YEP_SC_PLAIN
    then show ?thesis using put [OF assms] f by (auto simp: emit_routed_def routed_text_def emit_plain_folded_def Let_def)
  next
    case YEP_SC_SQ
    then show ?thesis using q r [of "W_Byte 0x27 # sq_ops p @ [W_Byte 0x27]"]
      by (auto simp: emit_routed_def routed_text_def emit_sq_def single_text_def Let_def)
  next
    case YEP_SC_LITERAL
    then show ?thesis using r by (auto simp: emit_routed_def routed_text_def emit_literal_def Let_def)
  next
    case YEP_SC_DQ
    then show ?thesis using r [of "W_Byte 0x22 # dq_ops [] p @ [W_Byte 0x22]"] by (auto simp: emit_routed_def routed_text_def emit_dq_def Let_def)
  next
    case YEP_SC_TILDE
    then show ?thesis using r [of "W_Byte 0x22 # dq_ops [] p @ [W_Byte 0x22]"] by (auto simp: emit_routed_def routed_text_def emit_dq_def Let_def)
  qed
qed

end

section \<open>Properties of the write engine\<close>

text \<open>
  C8. Sizing and writing agree by construction: for any scalar, route and style, started at the
  same column with the same options, the counting pass, the growing buffer and the flushed window
  all return (no loop runs on), put the same bytes in the same order, and count exactly them; in
  the two that write, every byte lands inside the buffer and one byte stays free for the
  terminator. This holds while \<^verbatim>\<open>realloc\<close> and the sink succeed.
\<close>

theorem writer_routes_agree:
  assumes "growing env w1" "window env w2" "counting env w3"
    and "w_col w2 = w_col w1" "w_best_width w2 = w_best_width w1" "w_indent w2 = w_indent w1"
      "w_block_fold w2 = w_block_fold w1" "w_in_flow w2 = w_in_flow w1" "w_flow_item w2 = w_flow_item w1"
    and "w_col w3 = w_col w1" "w_best_width w3 = w_best_width w1" "w_indent w3 = w_indent w1"
      "w_block_fold w3 = w_block_fold w1" "w_in_flow w3 = w_in_flow w1" "w_flow_item w3 = w_flow_item w1"
  shows "\<exists>t w1' w2' w3'.
    emit_routed env route p parent_col as_key w1 = Some w1' \<and> all_out w1' = all_out w1 @ t \<and> inside w1' \<and>
    emit_routed env route p parent_col as_key w2 = Some w2' \<and> all_out w2' = all_out w2 @ t \<and> inside w2' \<and>
    emit_routed env route p parent_col as_key w3 = Some w3' \<and>
    w_flushed w3' + w_len w3' = w_flushed w3 + w_len w3 + length t \<and>
    w_col w2' = w_col w1' \<and> w_col w3' = w_col w1'"
proof -
  let ?t = "routed_text w1 route p parent_col as_key"
  have t: "routed_text w2 route p parent_col as_key = ?t" "routed_text w3 route p parent_col as_key = ?t"
    unfolding routed_text_def assms(4-9) assms(10-15) by (rule refl)+
  obtain w1' where "emit_routed env route p parent_col as_key w1 = Some w1'" "growing env w1'" "adv w1 ?t w1'"
    using grown.routed [OF assms(1)] by blast
  moreover obtain w2' where "emit_routed env route p parent_col as_key w2 = Some w2'" "window env w2'" "adv w2 ?t w2'"
    using streamed.routed [OF assms(2)] t by metis
  moreover obtain w3' where "emit_routed env route p parent_col as_key w3 = Some w3'" "adv w3 ?t w3'"
    using dry_run.routed [OF assms(3)] t by metis
  ultimately show ?thesis using assms(1,2,4,10)
    by (intro exI [of _ ?t] exI [of _ w1'] exI [of _ w2'] exI [of _ w3']) (auto simp: adv_def growing_def window_def)
qed

definition blank_writer :: yep_writer where
  "blank_writer = \<lparr>w_mem = (\<lambda>_. None), w_null = False, w_len = 0, w_dry = False, w_last = 0, w_sink = False, w_chunks = [],
     w_watermark = 0, w_flushed = 0, w_sink_aborted = False, w_json_indent = None, w_best_width = 80, w_indent = 2,
     w_block_fold = False, w_in_flow = False, w_flow_item = False, w_col = 0, w_cap = 4, w_grow = False, w_oom = False,
     w_bounded = False, w_reserve = 0\<rparr>"

definition granting :: wr_env where
  "granting = \<lparr>env_realloc = \<lambda>_. True, env_sink = \<lambda>_ _. True\<rparr>"

theorem writer_routes_agree_witness:
  "\<exists>w1 w2 w3.
     emit_routed granting YEP_SC_SQ (bytes_of ''isn't'') 0 False (blank_writer\<lparr>w_grow := True\<rparr>) = Some w1 \<and>
     emit_routed granting YEP_SC_SQ (bytes_of ''isn't'') 0 False (blank_writer\<lparr>w_sink := True, w_watermark := 2\<rparr>) = Some w2 \<and>
     emit_routed granting YEP_SC_SQ (bytes_of ''isn't'') 0 False (blank_writer\<lparr>w_dry := True\<rparr>) = Some w3 \<and>
     all_out w2 = all_out w1 \<and> w_flushed w3 + w_len w3 = length (all_out w1)"
proof -
  have "growing granting (blank_writer\<lparr>w_grow := True\<rparr>)" "window granting (blank_writer\<lparr>w_sink := True, w_watermark := 2\<rparr>)"
    "counting granting (blank_writer\<lparr>w_dry := True\<rparr>)"
    by (simp_all add: granting_def growing_def window_def counting_def blank_writer_def inside_def)
  from writer_routes_agree [OF this, of YEP_SC_SQ "bytes_of ''isn't''" 0 False]
  have "\<exists>t w1 w2 w3.
      emit_routed granting YEP_SC_SQ (bytes_of ''isn't'') 0 False (blank_writer\<lparr>w_grow := True\<rparr>) = Some w1 \<and>
      all_out w1 = all_out (blank_writer\<lparr>w_grow := True\<rparr>) @ t \<and>
      emit_routed granting YEP_SC_SQ (bytes_of ''isn't'') 0 False (blank_writer\<lparr>w_sink := True, w_watermark := 2\<rparr>) = Some w2 \<and>
      all_out w2 = all_out (blank_writer\<lparr>w_sink := True, w_watermark := 2\<rparr>) @ t \<and>
      emit_routed granting YEP_SC_SQ (bytes_of ''isn't'') 0 False (blank_writer\<lparr>w_dry := True\<rparr>) = Some w3 \<and>
      w_flushed w3 + w_len w3 = w_flushed (blank_writer\<lparr>w_dry := True\<rparr>) + w_len (blank_writer\<lparr>w_dry := True\<rparr>) + length t"
    by (simp add: blank_writer_def) blast
  moreover have "all_out (blank_writer\<lparr>w_grow := True\<rparr>) = []" "all_out (blank_writer\<lparr>w_sink := True, w_watermark := 2\<rparr>) = []"
    "w_flushed (blank_writer\<lparr>w_dry := True\<rparr>) = 0" "w_len (blank_writer\<lparr>w_dry := True\<rparr>) = 0"
    by (simp_all add: blank_writer_def all_out_def written_def)
  ultimately show ?thesis by auto
qed

text \<open>
  The route into a caller's buffer of known size does not stop at its end: a text longer than
  the buffer is written past it in full, and the flag that tells the caller so stays clear.
\<close>

lemma bounded_route_overruns:
  assumes "w_bounded w" "\<not> w_sink w" "\<not> w_dry w" "\<not> w_oom w" "w_reserve w = 0" "s \<noteq> []"
  shows "\<exists>w'. wr_put env s w = Some w' \<and> \<not> w_oom w' \<and> w_len w' = w_len w + length s \<and>
    (\<forall>k < length s. w_mem w' (w_len w + k) = Some (s ! k))"
  using assms by (auto simp: wr_put_def wr_reserve_def wr_maybe_flush_def wr_col_update_def store_def Let_def)

text \<open>A failed growth leaves the old reservation standing, so a later small write lands past the end.\<close>

lemma failed_growth_overruns:
  "wr_run \<lparr>env_realloc = \<lambda>_. False, env_sink = \<lambda>_ _. True\<rparr> [W_Put [0x61], W_Put [0x62, 0x63, 0x64, 0x65], W_Byte 0x66]
     (blank_writer\<lparr>w_grow := True\<rparr>) \<bind> (\<lambda>w. Some (w_oom w, w_cap w, w_mem w 5)) = Some (True, 4, Some 0x66)"
  by (simp add: wr_put_def wr_byte_def wr_reserve_def wr_grow_def wr_maybe_flush_def wr_col_update_def blank_writer_def size_sub_def Let_def)

text \<open>A second growth after a failed one clears the failure.\<close>

lemma growth_clears_failure: "\<not> w_null w \<Longrightarrow> \<not> w_oom (wr_grow env (w\<lparr>w_oom := True\<rparr>) need)"
  by (simp add: wr_grow_def)

end
