(* ===== verification/Emit_Facts.thy ===== *)
theory Emit_Facts
  imports Scalar_Facts Writer_Facts
begin

text \<open>
  What the emitter writes between quotes, as relations between written bytes and text: every
  byte string in double quotes, single-quoted texts with their folds, and JSON strings; and that
  the finishers of the parser turn the written bytes back into the text.
\<close>

section \<open>What the double-quoted form writes\<close>

text \<open>The escape \<open>x\<close>, backslash first, stands for the bytes \<open>y\<close>.\<close>

definition hex_code :: "byte list \<Rightarrow> u32" where
  "hex_code ds = foldl (\<lambda>cp d. push_bit 4 cp OR of_int (hexval d)) 0 ds"

fun escape_for :: "byte list \<Rightarrow> byte list \<Rightarrow> bool" where
  "escape_for (b # l # ds) y \<longleftrightarrow> b = 0x5C \<and> length y \<le> 4 \<and> list_all is_hex ds \<and>
     (if ds = [] then (case simple_escape l of Some d \<Rightarrow> y = [d] | None \<Rightarrow> wide_escape l = Some y)
      else (l = 0x78 \<and> length ds = 2 \<or> l = 0x75 \<and> length ds = 4) \<and>
        \<not> (0xD800 \<le> hex_code ds \<and> hex_code ds \<le> 0xDFFF) \<and> y = yep_emit_cp (hex_code ds))"
| "escape_for x y \<longleftrightarrow> False"

inductive dq_written :: "byte list \<Rightarrow> byte list \<Rightarrow> bool" where
  dqw_nil: "dq_written [] []"
| dqw_raw: "dq_written (c # b) (c # t)" if "dq_clean c" "dq_written b t"
| dqw_escape: "dq_written (x @ b) (y @ t)" if "escape_for x y" "dq_written b t"

lemma dq_written_raws: "list_all dq_clean r \<Longrightarrow> dq_written b t \<Longrightarrow> dq_written (r @ b) (r @ t)"
  by (induction r) (auto intro: dqw_raw)

lemma single_escapes:
  "list_all (\<lambda>n. let c = word_of_nat n in dq_clean c \<or> escape_for (ops_bytes (dq_single c)) [c]) [0..<256]"
  by code_simp

lemma dq_single_escape: "\<not> dq_clean c \<Longrightarrow> escape_for (ops_bytes (dq_single c)) [c]"
proof -
  assume c: "\<not> dq_clean c"
  have "unat c \<in> set [0..<256]" using byte_bound [of c] by simp
  then have "let c = word_of_nat (unat c) in dq_clean c \<or> escape_for (ops_bytes (dq_single c)) [c]"
    using single_escapes unfolding list_all_iff by blast
  then show ?thesis using c by (simp add: Let_def)
qed

lemma c1_escapes:
  "list_all (\<lambda>n. let v = word_of_nat n in
     escape_for [0x5C, 0x78, hex_upper ! unat (drop_bit 4 v), hex_upper ! unat (v AND 0x0F)] [0xC2, v]) [0x80..<0xA0]"
  by code_simp

lemma c1_escape:
  "0x80 \<le> v \<Longrightarrow> v \<le> 0x9F \<Longrightarrow>
   escape_for [0x5C, 0x78, hex_upper ! unat (drop_bit 4 v), hex_upper ! unat (v AND 0x0F)] [0xC2, v]"
proof -
  assume "0x80 \<le> v" "v \<le> 0x9F"
  then have "0x80 \<le> unat v" "unat v < 0xA0" by (simp_all add: word_le_nat_alt)
  then have "unat v \<in> set [0x80..<0xA0]" unfolding set_upt atLeastLessThan_iff by blast
  then have "let v = word_of_nat (unat v) in
      escape_for [0x5C, 0x78, hex_upper ! unat (drop_bit 4 v), hex_upper ! unat (v AND 0x0F)] [0xC2, v]"
    using c1_escapes unfolding list_all_iff by blast
  moreover have "word_of_nat (unat v) = v" by simp
  ultimately show ?thesis unfolding Let_def by metis
qed

lemma fixed_escapes:
  "escape_for [0x5C, 0x4E] [0xC2, 0x85]" "escape_for [0x5C, 0x4C] [0xE2, 0x80, 0xA8]" "escape_for [0x5C, 0x50] [0xE2, 0x80, 0xA9]"
  "escape_for (0x5C # bytes_of ''uFFFE'') [0xEF, 0xBF, 0xBE]" "escape_for (0x5C # bytes_of ''uFFFF'') [0xEF, 0xBF, 0xBF]"
  "escape_for (0x5C # bytes_of ''uFEFF'') [0xEF, 0xBB, 0xBF]"
  by code_simp+

lemma take_2: "1 < length s \<Longrightarrow> take 2 s = [s ! 0, s ! 1]" and take_3: "2 < length s \<Longrightarrow> take 3 s = [s ! 0, s ! 1, s ! 2]"
  by (auto simp: list_eq_iff_nth_eq less_Suc_eq numeral_eq_Suc)

lemma dq_multi_escape: "dq_multi s = Some (ops, k) \<Longrightarrow> escape_for (ops_bytes ops) (take k s)"
proof -
  assume d: "dq_multi s = Some (ops, k)"
  have w: "ops_bytes [W_Put x] = x" "ops_bytes [W_Byte a, W_Byte b, W_Byte c, W_Byte d] = [a, b, c, d]" for x a b c d by simp_all
  have P: "bytes_of [CHR 0x5C, CHR ''N''] = [0x5C, 0x4E]" "bytes_of [CHR 0x5C, CHR ''L''] = [0x5C, 0x4C]"
    "bytes_of [CHR 0x5C, CHR ''P''] = [0x5C, 0x50]" by simp_all
  note t2 = take_2 [of s] and t3 = take_3 [of s] and f = fixed_escapes [folded P]
  consider "s ! 0 = 0xC2 \<and> 1 < length s \<and> s ! 1 = 0x85" "ops = [W_Put (bytes_of [CHR 0x5C, CHR ''N''])]" "k = 2"
    | "s ! 0 = 0xE2 \<and> 2 < length s \<and> s ! 1 = 0x80 \<and> s ! 2 = 0xA8" "ops = [W_Put (bytes_of [CHR 0x5C, CHR ''L''])]" "k = 3"
    | "s ! 0 = 0xE2 \<and> 2 < length s \<and> s ! 1 = 0x80 \<and> s ! 2 = 0xA9" "ops = [W_Put (bytes_of [CHR 0x5C, CHR ''P''])]" "k = 3"
    | "s ! 0 = 0xC2 \<and> 1 < length s \<and> 0x80 \<le> s ! 1 \<and> s ! 1 \<le> 0x9F"
      "ops = [W_Byte 0x5C, W_Byte 0x78, W_Byte (hex_upper ! unat (drop_bit 4 (s ! 1))), W_Byte (hex_upper ! unat (s ! 1 AND 0x0F))]" "k = 2"
    | "s ! 0 = 0xEF \<and> 2 < length s \<and> s ! 1 = 0xBF \<and> s ! 2 = 0xBE" "ops = [W_Put (0x5C # bytes_of ''uFFFE'')]" "k = 3"
    | "s ! 0 = 0xEF \<and> 2 < length s \<and> s ! 1 = 0xBF \<and> s ! 2 = 0xBF" "ops = [W_Put (0x5C # bytes_of ''uFFFF'')]" "k = 3"
    | "s ! 0 = 0xEF \<and> 2 < length s \<and> s ! 1 = 0xBB \<and> s ! 2 = 0xBF" "ops = [W_Put (0x5C # bytes_of ''uFEFF'')]" "k = 3"
    using d unfolding dq_multi_def Let_def by (simp only: split: if_split_asm) auto
  then show ?thesis
    by cases (simp_all only: w t2 t3 f c1_escape)
qed

lemma dq_ops_written: "list_all dq_clean run \<Longrightarrow> dq_written (ops_bytes (dq_ops run s)) (run @ s)"
proof (induction run s rule: dq_ops.induct)
  case (1 run)
  show ?case using dq_written_raws [OF 1 dqw_nil] dqw_nil by (simp add: flush_run_def)
next
  case (2 run c s)
  have flush: "ops_bytes (flush_run run) = run" by (simp add: flush_run_def)
  show ?case
  proof (cases "dq_multi (c # s)")
    case None
    show ?thesis
    proof (cases "dq_clean c")
      case True
      then show ?thesis using 2(1) [OF None True] 2(4) None by simp
    next
      case False
      have "dq_written (ops_bytes (dq_ops [] s)) s" using 2(2) [OF None False] by simp
      then have "dq_written (ops_bytes (dq_single c) @ ops_bytes (dq_ops [] s)) ([c] @ s)"
        by (rule dqw_escape [OF dq_single_escape [OF False]])
      then show ?thesis using dq_written_raws [OF 2(4)] None False flush by simp
    qed
  next
    case (Some r)
    obtain ops k where r: "r = (ops, k)" by (cases r)
    have "dq_written (ops_bytes (dq_ops [] (drop k (c # s)))) (drop k (c # s))" using 2(3) [OF Some r [symmetric]] by simp
    then have "dq_written (ops_bytes ops @ ops_bytes (dq_ops [] (drop k (c # s)))) (take k (c # s) @ drop k (c # s))"
      by (rule dqw_escape [OF dq_multi_escape [OF Some [unfolded r]]])
    then show ?thesis using dq_written_raws [OF 2(4)] Some r flush by simp
  qed
qed

section \<open>Reading it back\<close>

lemma escape_shape:
  "escape_for x y \<Longrightarrow> \<exists>l ds. x = 0x5C # l # ds \<and> list_all is_hex ds"
  by (cases "(x, y)" rule: escape_for.cases) auto

lemma hex_not_special: "is_hex c \<Longrightarrow> c \<noteq> 0x22 \<and> c \<noteq> 0x5C \<and> c \<noteq> 0x0A \<and> c \<noteq> 0x0D"
  by (auto simp: is_hex_def is_digit_def)

lemma quote_scan_hex:
  "list_all is_hex ds \<Longrightarrow> quote_scan_loop 0x22 (ds @ s) i esc = quote_scan_loop 0x22 s (i + length ds) esc"
  by (induction ds arbitrary: i) (auto dest: hex_not_special)

lemma quote_scan_written:
  "dq_written b t \<Longrightarrow> quote_scan_loop 0x22 (b @ 0x22 # rest) i esc = (Some (i + length b), esc \<or> 0x5C \<in> set b)"
proof (induction arbitrary: i esc rule: dq_written.induct)
  case (dqw_raw c b t)
  then show ?case by (auto simp: dq_clean_def)
next
  case (dqw_escape x y b t)
  obtain l ds where x: "x = 0x5C # l # ds" "list_all is_hex ds" using escape_shape [OF dqw_escape(1)] by blast
  then show ?case using dqw_escape.IH [of "i + 2 + length ds" True] quote_scan_hex [OF x(2), of "b @ 0x22 # rest" "i + 2" True] by simp
qed simp

lemma finish_escape_for:
  assumes "escape_for x y" "length q + length x \<le> en + 1"
  shows "finish_escape sys (q @ tl x @ r) en (length q) b = (yep_buf_put sys b y, length q + length x - 1)"
proof -
  obtain l ds where x: "x = 0x5C # l # ds" "list_all is_hex ds" using escape_shape [OF assms(1)] by blast
  have at: "(q @ tl x @ r) ! length q = l" by (simp add: x nth_append)
  show ?thesis
  proof (cases "ds = []")
    case True
    show ?thesis
    proof (cases "simple_escape l")
      case None
      then have "wide_escape l = Some y" using assms(1) True by (simp add: x)
      then show ?thesis unfolding finish_escape_def at Let_def None using True by (simp add: x)
    next
      case (Some d)
      then have "y = [d]" using assms(1) True by (simp add: x)
      then show ?thesis unfolding finish_escape_def at Let_def Some using True by (simp add: x putc_put)
    qed
  next
    case False
    define n where "n = length ds"
    have d: "hex_digits (q @ tl x @ r) (length q + 1) en n 0 = Some (hex_code ds)"
      unfolding hex_code_def n_def using x assms(2) by (intro hex_digits_ok) (auto simp: nth_append)
    have code: "\<not> (0xD800 \<le> hex_code ds \<and> hex_code ds \<le> 0xDFFF)" "y = yep_emit_cp (hex_code ds)"
      and l: "l = 0x78 \<and> n = 2 \<or> l = 0x75 \<and> n = 4"
      using assms(1) False by (simp_all add: x n_def)
    have esc: "simple_escape l = None" "wide_escape l = None" using l by (auto simp: simple_escape_def wide_escape_def)
    have "finish_escape sys (q @ tl x @ r) en (length q) b = finish_hex sys (q @ tl x @ r) en (length q) l b"
      unfolding finish_escape_def at Let_def esc using l by auto
    also have "\<dots> = (yep_buf_put sys b y, length q + 1 + n)"
    proof -
      have digits: "(if l = 0x78 then 2 else if l = 0x75 then 4 else 8) = n" using l by auto
      have high: "hex_code ds \<le> 0xDBFF \<Longrightarrow> hex_code ds \<le> 0xDFFF" by (simp add: word_le_nat_alt)
      show ?thesis unfolding finish_hex_def digits Let_def d option.case using code high by auto
    qed
    finally show ?thesis by (simp add: x n_def)
  qed
qed

lemma decode_written:
  "dq_written b t \<Longrightarrow> en = length pre + length b \<Longrightarrow> grows_to sys n bf \<Longrightarrow> length (bf_data bf) + length t \<le> n \<Longrightarrow>
   bf_data (finish_double_body sys (pre @ b @ post) en False (length pre) fl bf) = bf_data bf @ t \<and>
   grows_to sys n (finish_double_body sys (pre @ b @ post) en False (length pre) fl bf)"
proof (induction arbitrary: pre fl bf rule: dq_written.induct)
  case dqw_nil
  then show ?case by (simp add: body_end)
next
  case (dqw_raw c b t)
  have at: "(pre @ (c # b) @ post) ! length pre = c" "c \<noteq> 0x5C" using dqw_raw(1) by (simp_all add: nth_append dq_clean_def)
  note put = putc_grows [OF dqw_raw.prems(2), of c]
  show ?case
    using dqw_raw.IH [of "pre @ [c]" "yep_buf_putc sys bf c" fl] put dqw_raw.prems at
    by (subst (1 2) body_raw) simp_all
next
  case (dqw_escape x y b t)
  obtain l ds where x: "x = 0x5C # l # ds" using escape_shape [OF dqw_escape(1)] by blast
  have y: "length y \<le> 4" using dqw_escape(1) by (simp add: x)
  let ?p = "pre @ (x @ b) @ post"
  have at: "?p ! length pre = 0x5C" by (simp add: x nth_append)
  have "?p = (pre @ [0x5C]) @ tl x @ (b @ post)" by (simp add: x)
  then have fin: "finish_escape sys ?p en (length pre + 1) bf = (yep_buf_put sys bf y, length pre + length x)"
    using finish_escape_for [OF dqw_escape(1), of "pre @ [0x5C]" en sys "b @ post" bf] dqw_escape.prems(1) by (simp add: x)
  have put: "bf_data (yep_buf_put sys bf y) = bf_data bf @ y" "grows_to sys n (yep_buf_put sys bf y)"
    using put_grows [OF dqw_escape.prems(2), of y] dqw_escape.prems(3) y by simp_all
  have "finish_double_body sys ?p en False (length pre) fl bf =
      finish_double_body sys ?p en False (length pre + length x) (length (bf_data (yep_buf_put sys bf y))) (yep_buf_put sys bf y)"
    using dqw_escape.prems(1) by (intro body_escape [OF _ at fin]) (simp add: x)
  then show ?case
    using dqw_escape.IH [of "pre @ x" "yep_buf_put sys bf y"] dqw_escape.prems put by simp
qed

section \<open>Single quotes, folded or not\<close>

text \<open>
  The written form \<open>b\<close> of the text \<open>t\<close> that follows the byte \<open>v\<close>: quotes doubled, and single
  spaces inside replaced by a break and an indent of \<open>k\<close>.
\<close>

inductive sq_written :: "nat \<Rightarrow> byte \<Rightarrow> byte list \<Rightarrow> byte list \<Rightarrow> bool" for k where
  sqw_nil: "sq_written k v [] []"
| sqw_raw: "sq_written k v (c # b) (c # t)" if "c \<noteq> 0x27" "c \<noteq> 0x0A" "c \<noteq> 0x0D" "sq_written k c b t"
| sqw_quote: "sq_written k v (0x27 # 0x27 # b) (0x27 # t)" if "sq_written k 0x27 b t"
| sqw_fold: "sq_written k v (0x0A # replicate k 0x20 @ b) (0x20 # t)"
    if "v \<noteq> 0x20" "v \<noteq> 0x09" "t \<noteq> []" "hd t \<noteq> 0x20" "hd t \<noteq> 0x09" "sq_written k 0x20 b t"

lemma single_text_simps:
  "single_text [] = []" "single_text (c # s) = (if c = 0x27 then 0x27 # 0x27 # single_text s else c # single_text s)"
  by (simp_all add: single_text_def sq_ops_def)

lemma single_text_written: "0x0A \<notin> set s \<Longrightarrow> 0x0D \<notin> set s \<Longrightarrow> sq_written k v (single_text s) s"
  by (induction s arbitrary: v) (auto simp: single_text_simps intro: sq_written.intros)

lemma sq_written_raws:
  "r \<noteq> [] \<Longrightarrow> 0x27 \<notin> set r \<Longrightarrow> 0x0A \<notin> set r \<Longrightarrow> 0x0D \<notin> set r \<Longrightarrow> sq_written k (last r) b t \<Longrightarrow> sq_written k v (r @ b) (r @ t)"
proof (induction r arbitrary: v)
  case (Cons c r)
  show ?case
  proof (cases "r = []")
    case False
    then have "sq_written k c (r @ b) (r @ t)" using Cons by simp
    then show ?thesis using Cons.prems by (auto intro: sqw_raw)
  qed (use Cons.prems in \<open>auto intro: sqw_raw\<close>)
qed simp

lemma fold_text_written:
  "0x0A \<notin> set p \<Longrightarrow> 0x0D \<notin> set p \<Longrightarrow> 0x09 \<notin> set p \<Longrightarrow> run \<le> i \<Longrightarrow> i \<le> length p \<Longrightarrow>
   0x27 \<notin> set (take run (drop (i - run) p)) \<Longrightarrow> v = (if run < i then p ! (i - run - 1) else 0x20) \<Longrightarrow>
   sq_written (nat fc) v (fold_text p best fc True i run col) (drop (i - run) p)"
proof (induction "length p - i" arbitrary: i run col v)
  case (0 i run)
  let ?r = "take run (drop (i - run) p)"
  have r: "?r = drop (i - run) p" using 0 by simp
  have "sq_written (nat fc) v (?r @ []) (?r @ [])"
  proof (cases "?r = []")
    case True
    show ?thesis unfolding True append_Nil by (rule sqw_nil)
  next
    case False
    have "set ?r \<subseteq> set p" by (meson set_drop_subset set_take_subset subset_trans)
    then have "0x0A \<notin> set ?r" "0x0D \<notin> set ?r" using 0(2,3) by blast+
    then show ?thesis using 0(7) by (intro sq_written_raws [OF False] sqw_nil)
  qed
  then show ?case using 0 r by (simp add: fold_text.simps [of p best fc True i])
next
  case (Suc n)
  have n: "n = length p - (i + 1)" and il: "i < length p" using Suc(2) by simp_all
  let ?r = "take run (drop (i - run) p)"
  have split: "drop (i - run) p = ?r @ drop i p"
    using Suc(6) append_take_drop_id [of run "drop (i - run) p"] by simp
  have tail: "drop i p = p ! i # drop (i + 1) p" using il by (simp add: Cons_nth_drop_Suc)
  have sub: "set ?r \<subseteq> set p" by (meson set_drop_subset set_take_subset subset_trans)
  have lr: "length ?r = run" using Suc(6) il by simp
  have last: "?r \<noteq> [] \<Longrightarrow> last ?r = p ! (i - 1)" using lr Suc(6) il by (auto simp: last_conv_nth nth_append)
  have prev: "(if ?r = [] then v else last ?r) = (if 0 < i then p ! (i - 1) else 0x20)"
    using last lr Suc(6,9) by (cases "run = 0") auto
  have pre: "sq_written (nat fc) v (?r @ b) (drop (i - run) p)" if "sq_written (nat fc) (if 0 < i then p ! (i - 1) else 0x20) b (drop i p)" for b
  proof (cases "?r = []")
    case True
    then have "run = 0" using lr by (simp only: list.size)
    then show ?thesis using that prev by simp
  next
    case False
    have "0x0A \<notin> set ?r" "0x0D \<notin> set ?r" using Suc(3,4) sub by blast+
    then show ?thesis using that prev False Suc(8) by (subst split) (intro sq_written_raws; simp)
  qed
  consider "p ! i = 0x27"
    | "p ! i \<noteq> 0x27" "p ! i = 0x20 \<and> 0 < i \<and> i + 1 < length p \<and> best < col + int run \<and> p ! (i - 1) \<noteq> 0x20 \<and> p ! (i + 1) \<noteq> 0x20"
    | "p ! i \<noteq> 0x27" "\<not> (p ! i = 0x20 \<and> 0 < i \<and> i + 1 < length p \<and> best < col + int run \<and> p ! (i - 1) \<noteq> 0x20 \<and> p ! (i + 1) \<noteq> 0x20)"
    by blast
  then show ?case
  proof cases
    case 1
    have "sq_written (nat fc) 0x27 (fold_text p best fc True (i + 1) 0 c) (drop (i + 1) p)" for c
      using Suc(1) [OF n Suc(3-5), of 0] il 1 by simp
    then have "sq_written (nat fc) v (?r @ 0x27 # 0x27 # fold_text p best fc True (i + 1) 0 c) (drop (i - run) p)" for c
      using 1 by (intro pre) (simp only: tail, rule sqw_quote)
    then show ?thesis using 1 il by (subst fold_text.simps) (simp add: Let_def)
  next
    case 2
    have tb: "drop (i + 1) p \<noteq> []" "hd (drop (i + 1) p) = p ! (i + 1)" using 2 by (simp_all add: hd_drop_conv_nth)
    have nt: "p ! (i - 1) \<noteq> 0x09" "p ! (i + 1) \<noteq> 0x09" using Suc(5) 2 by (metis less_imp_diff_less nth_mem il, metis nth_mem)
    have "sq_written (nat fc) 0x20 (fold_text p best fc True (i + 1) 0 c) (drop (i + 1) p)" for c
      using Suc(1) [OF n Suc(3-5), of 0] il 2 by simp
    then have "sq_written (nat fc) (p ! (i - 1)) (0x0A # replicate (nat fc) 0x20 @ fold_text p best fc True (i + 1) 0 c) (0x20 # drop (i + 1) p)" for c
      using 2 tb nt by (intro sqw_fold) auto
    then have "sq_written (nat fc) v (?r @ 0x0A # replicate (nat fc) 0x20 @ fold_text p best fc True (i + 1) 0 c) (drop (i - run) p)" for c
      using 2 tail by (intro pre) simp
    then show ?thesis using 2 il by (subst fold_text.simps) (simp add: Let_def)
  next
    case 3
    have step: "fold_text p best fc True i run col = fold_text p best fc True (i + 1) (run + 1) col"
      using 3 il by (subst fold_text.simps) (auto simp: Let_def)
    have "take (run + 1) (drop (i - run) p) = ?r @ [p ! i]"
      using Suc(6) il by (simp add: take_Suc_conv_app_nth)
    then have "0x27 \<notin> set (take (run + 1) (drop (i + 1 - (run + 1)) p))" using Suc(8) 3(1) by simp
    moreover have e: "i + 1 - (run + 1) = i - run" "(run + 1 < i + 1) = (run < i)" by simp_all
    moreover have "v = (if run + 1 < i + 1 then p ! (i + 1 - (run + 1) - 1) else 0x20)" unfolding e by (rule Suc(9))
    ultimately have "sq_written (nat fc) v (fold_text p best fc True (i + 1) (run + 1) col) (drop (i + 1 - (run + 1)) p)"
      using Suc(6) il by (intro Suc(1) [OF n Suc(3-5)]) simp_all
    then show ?thesis unfolding step e(1) .
  qed
qed

lemma quote_scan_sq_written:
  "sq_written k v b t \<Longrightarrow> rest = [] \<or> hd rest \<noteq> 0x27 \<Longrightarrow>
   quote_scan_loop 0x27 (b @ 0x27 # rest) i esc = (Some (i + length b), esc \<or> 0x27 \<in> set t)"
proof (induction arbitrary: i esc rule: sq_written.induct)
  case (sqw_fold v t b)
  have "quote_scan_loop 0x27 (replicate k 0x20 @ s) j e = quote_scan_loop 0x27 s (j + k) e" for s j e
    by (induction k arbitrary: j) auto
  then show ?case using sqw_fold by simp
qed auto

section \<open>Reading single quotes back\<close>

lemma sq_written_head: "sq_written k v b t \<Longrightarrow> t \<noteq> [] \<Longrightarrow> hd t \<noteq> 0x20 \<Longrightarrow> b \<noteq> [] \<and> hd b = hd t \<and> hd b \<noteq> 0x0A \<and> hd b \<noteq> 0x0D"
  by (cases rule: sq_written.cases) auto

text \<open>One break and the indent behind it count as one.\<close>

lemma one_break:
  assumes "p = pre @ 0x0A # replicate k 0x20 @ c # r" "c \<noteq> 0x20" "c \<noteq> 0x09" "c \<noteq> 0x0A" "c \<noteq> 0x0D" "length pre + 1 + k < en"
  shows "count_breaks p en (length pre) 0 = (length pre + 1 + k, 1)"
proof -
  let ?i = "length pre"
  have at: "p ! ?i = 0x0A" "p ! (?i + 1 + k) = c" using assms(1) by (simp_all add: nth_append)
  have "k > 0 \<Longrightarrow> p ! (?i + 1) = 0x20" using assms(1) by (simp add: nth_append nth_Cons')
  then have second: "\<not> brk_at p (?i + 1) en" using at assms(4,5) by (cases "k = 0") (auto simp: brk_at_def)
  have pb: "past_break p ?i en = ?i + 1" using at by (simp add: past_break_def)
  have run: "break_run p en ?i 0 = (?i + 1, 1)"
    using at second assms(6) by (subst break_run.simps, subst break_run.simps) (simp add: pb brk_at_def)
  have d: "take (en - (?i + 1)) (drop (?i + 1) p) = replicate k 0x20 @ c # take (en - (?i + 1) - k - 1) r"
  proof -
    have "drop (?i + 1) p = replicate k 0x20 @ c # r" using assms(1) by simp
    moreover have "en - (?i + 1) - k = Suc (en - (?i + 1) - k - 1)" using assms(6) by simp
    ultimately show ?thesis using assms(6) by (simp add: take_Cons')
  qed
  have "takeWhile (\<lambda>c. c = 0x20 \<or> c = 0x09) (replicate k 0x20 @ c # u) = replicate k 0x20" for u :: "byte list"
    using assms(2,3) by (subst takeWhile_append2) auto
  then have blanks: "past_blanks p (?i + 1) en = ?i + 1 + k" unfolding past_blanks_def d by simp
  have "\<not> brk_at p (?i + 1 + k) en" using at assms(4,5) by (simp add: brk_at_def)
  then show ?thesis by (simp only: count_breaks.simps [of p en ?i] run Let_def prod.case blanks) simp
qed

lemma strip_none: "data = [] \<or> (last data \<noteq> 0x20 \<and> last data \<noteq> 0x09) \<Longrightarrow> strip_blanks floor data = data"
  by (auto simp: strip_blanks.simps [of floor data])

lemma sq_decode:
  "sq_written k v b t \<Longrightarrow> en = length pre + length b \<Longrightarrow> grows_to sys n bf \<Longrightarrow> length (bf_data bf) + length t \<le> n \<Longrightarrow>
   (0x0A \<in> set b \<Longrightarrow> ml) \<Longrightarrow> bf_data bf = [] \<or> last (bf_data bf) = v \<Longrightarrow>
   bf_data (finish_single_body sys (pre @ b @ 0x27 # post) en ml (length pre) bf) = bf_data bf @ t \<and>
   grows_to sys n (finish_single_body sys (pre @ b @ 0x27 # post) en ml (length pre) bf)"
proof (induction arbitrary: pre bf rule: sq_written.induct)
  case (sqw_nil v)
  then show ?case by (simp add: finish_single_body.simps [of sys "pre @ 0x27 # post" "length pre"])
next
  case (sqw_raw c b t v)
  note put = putc_grows [OF sqw_raw.prems(2), of c]
  have "finish_single_body sys (pre @ (c # b) @ 0x27 # post) en ml (length pre) bf =
      finish_single_body sys (pre @ (c # b) @ 0x27 # post) en ml (length pre + 1) (yep_buf_putc sys bf c)"
    using sqw_raw(1-3) sqw_raw.prems(1) by (subst finish_single_body.simps) (simp add: quote_pair_def nth_append)
  then show ?case using sqw_raw.IH [of "pre @ [c]" "yep_buf_putc sys bf c"] put sqw_raw.prems by simp
next
  case (sqw_quote b t v)
  note put = putc_grows [OF sqw_quote.prems(2), of "0x27"]
  have "finish_single_body sys (pre @ (0x27 # 0x27 # b) @ 0x27 # post) en ml (length pre) bf =
      finish_single_body sys (pre @ (0x27 # 0x27 # b) @ 0x27 # post) en ml (length pre + 2) (yep_buf_putc sys bf 0x27)"
    using sqw_quote.prems(1) by (subst finish_single_body.simps) (simp add: quote_pair_def nth_append)
  then show ?case using sqw_quote.IH [of "pre @ [0x27, 0x27]" "yep_buf_putc sys bf 0x27"] put sqw_quote.prems by simp
next
  case (sqw_fold v t b)
  let ?b = "0x0A # replicate k 0x20 @ b" and ?q = "pre @ 0x0A # replicate k 0x20"
  let ?p = "pre @ ?b @ 0x27 # post"
  have ml: ml using sqw_fold.prems(4) by simp
  have h: "b \<noteq> []" "hd b \<noteq> 0x20" "hd b \<noteq> 0x09" "hd b \<noteq> 0x0A" "hd b \<noteq> 0x0D"
    using sq_written_head [OF sqw_fold(6,3,4)] sqw_fold(4,5) by metis+
  have p: "?p = pre @ 0x0A # replicate k 0x20 @ hd b # (tl b @ 0x27 # post)" using h(1) by simp
  have "length pre + 1 + k < en" using sqw_fold.prems(1) h(1) by simp
  then have cb: "count_breaks ?p en (length pre) 0 = (length pre + 1 + k, 1)" by (rule one_break [OF p h(2-5)])
  have strip: "bf\<lparr>bf_data := strip_blanks 0 (bf_data bf)\<rparr> = bf"
    using sqw_fold.prems(5) sqw_fold(1,2) by (subst strip_none) auto
  have f: "fold_in_quotes sys bf 0 1 = yep_buf_putc sys bf 0x20" unfolding fold_in_quotes_def strip Let_def by simp
  note put = putc_grows [OF sqw_fold.prems(2), of "0x20"]
  have "finish_single_body sys ?p en ml (length pre) bf =
      finish_single_body sys ?p en ml (length pre + 1 + k) (yep_buf_putc sys bf 0x20)"
  proof -
    have i: "length pre < en" "\<not> quote_pair ?p (length pre) en" "?p ! length pre = 0x0A"
      using sqw_fold.prems(1) by (simp_all add: quote_pair_def nth_append)
    show ?thesis by (subst finish_single_body.simps) (simp only: i ml if_True if_False cb Let_def prod.case f simp_thms)
  qed
  then show ?case using sqw_fold.IH [of ?q "yep_buf_putc sys bf 0x20"] put sqw_fold.prems by simp
qed

lemma written_text:
  assumes "growing env w" "emit_routed env route s parent_col as_key w = Some w'" "all_out w' = all_out w @ q"
  shows "q = routed_text w route s parent_col as_key"
proof -
  have "\<not> w_dry w" using assms(1) by (simp add: growing_def)
  then show ?thesis using grown.routed [OF assms(1), of route s parent_col as_key] assms(2,3) by (auto simp: adv_def)
qed

lemma dq_written_clean: "dq_written b t \<Longrightarrow> 0x0A \<notin> set b \<and> 0x0D \<notin> set b"
proof (induction rule: dq_written.induct)
  case (dqw_escape x y b t)
  obtain l ds where x: "x = 0x5C # l # ds" "list_all is_hex ds" using escape_shape [OF dqw_escape(1)] by blast
  have "l \<noteq> 0x0A" "l \<noteq> 0x0D" using dqw_escape(1) unfolding x(1)
    by (auto simp: simple_escape_def wide_escape_def split: if_splits)
  then show ?case using dqw_escape.IH x hex_not_special by (auto simp: list_all_iff)
qed (auto simp: dq_clean_def)

lemma dq_written_plain: "dq_written b t \<Longrightarrow> 0x5C \<notin> set b \<Longrightarrow> t = b"
  by (induction rule: dq_written.induct) (auto dest: escape_shape)

section \<open>The JSON form\<close>

definition json_raw :: "byte \<Rightarrow> bool" where
  "json_raw c \<longleftrightarrow> 0x20 \<le> c \<and> c \<noteq> 0x22 \<and> c \<noteq> 0x5C"

definition json_escape_of :: "byte \<Rightarrow> byte list" where
  "json_escape_of c = ops_bytes (case (if c < 32 then json_named c else None) of
     Some l \<Rightarrow> [W_Put [0x5C, l]]
   | None \<Rightarrow>
       if c = 0x22 \<or> c = 0x5C then [W_Byte 0x5C, W_Byte c]
       else [W_Put ([0x5C, 0x75, 0x30, 0x30, hex_lower ! unat (drop_bit 4 c AND 0x0F), hex_lower ! unat (c AND 0x0F)])])"

definition short_code :: "byte \<Rightarrow> byte list \<Rightarrow> bool" where
  "short_code c x \<longleftrightarrow> (case x of
     [b, l] \<Rightarrow> b = 0x5C \<and> (l, c) \<in> set json_letters
   | b # u # h \<Rightarrow> b = 0x5C \<and> u = 0x75 \<and> hex4 h \<and> hex_nat h = unat c \<and> unat c < 0x20
   | _ \<Rightarrow> False)"

lemma json_escapes: "list_all (\<lambda>n. let c = word_of_nat n in json_raw c \<or> short_code c (json_escape_of c)) [0..<256]"
  by code_simp

lemma json_escape_code: "\<not> json_raw c \<Longrightarrow> short_code c (json_escape_of c)"
proof -
  assume c: "\<not> json_raw c"
  have "unat c \<in> set [0..<256]" using byte_bound [of c] by simp
  then have "let c = word_of_nat (unat c) in json_raw c \<or> short_code c (json_escape_of c)"
    using json_escapes unfolding list_all_iff by blast
  then show ?thesis using c by (simp add: Let_def)
qed

lemma letters_named: "(l, c) \<in> set json_letters \<Longrightarrow> l \<in> set ([0x22, 0x5C] @ bytes_of ''/bfnrt'')"
  by (auto simp: json_letters_def)

lemma json_code_step:
  assumes "short_code c x" "json_chars e b" "json_decoded b t"
  shows "json_chars True (x @ b) \<and> json_decoded (x @ b) (c # t)"
proof -
  consider l where "x = [0x5C, l]" "(l, c) \<in> set json_letters"
    | h where "x = 0x5C # 0x75 # h" "hex4 h" "hex_nat h = unat c" "unat c < 0x20"
    using assms(1) by (auto simp: short_code_def hex4_def split: list.splits)
  then show ?thesis
  proof cases
    case 1
    then have "escape_text x" using letters_named [OF 1(2)] by (auto simp: escape_text_def)
    then show ?thesis using 1 assms(2,3) chars_escape dec_letter by (metis append_Cons append_Nil)
  next
    case 2
    then have n: "\<not> (0xD800 \<le> hex_nat h \<and> hex_nat h \<le> 0xDFFF)" by simp
    have u: "utf8 (hex_nat h) = [c]" using 2(3,4) by (simp add: utf8_def emit_nat_def)
    have "escape_text x" using 2 n by (auto simp: escape_text_def)
    then have "json_chars True (x @ b)" using assms(2) by (rule chars_escape)
    moreover have "json_decoded (0x5C # 0x75 # h @ b) (utf8 (hex_nat h) @ t)" using 2(2) n assms(3) by (rule dec_unit)
    ultimately show ?thesis using 2(1) u by simp
  qed
qed

lemma json_raw_step:
  "list_all json_raw r \<Longrightarrow> json_chars e b \<Longrightarrow> json_decoded b t \<Longrightarrow> json_chars e (r @ b) \<and> json_decoded (r @ b) (r @ t)"
  by (induction r) (auto simp: json_raw_def intro: chars_raw dec_raw)

lemma dq_json_written:
  "list_all json_raw run \<Longrightarrow>
   \<exists>e. json_chars e (ops_bytes (dq_json_ops run s)) \<and> json_decoded (ops_bytes (dq_json_ops run s)) (run @ s)"
proof (induction s arbitrary: run)
  case Nil
  have f: "ops_bytes (flush_run run) = run" by (simp add: flush_run_def)
  show ?case using json_raw_step [OF Nil chars_nil dec_nil] f by auto
next
  case (Cons c s)
  have f: "ops_bytes (flush_run run) = run" by (simp add: flush_run_def)
  show ?case
  proof (cases "json_raw c")
    case True
    then show ?thesis using Cons.IH [of "run @ [c]"] Cons.prems by (simp add: json_raw_def)
  next
    case False
    obtain e where e: "json_chars e (ops_bytes (dq_json_ops [] s))" "json_decoded (ops_bytes (dq_json_ops [] s)) s"
      using Cons.IH [of "[]"] by auto
    have nr: "(0x20 \<le> c \<and> c \<noteq> 0x22 \<and> c \<noteq> 0x5C) = False" using False unfolding json_raw_def by blast
    have step: "ops_bytes (dq_json_ops run (c # s)) = run @ json_escape_of c @ ops_bytes (dq_json_ops [] s)"
      unfolding dq_json_ops.simps nr if_False json_escape_of_def ops_bytes_simps f ..
    show ?thesis unfolding step
      using json_raw_step [OF Cons.prems] json_code_step [OF json_escape_code [OF False] e] by blast
  qed
qed

end
