(* ===== verification/Readers.thy ===== *)
theory Readers
  imports Scalars Scan_Facts "HOL-Library.Monad_Syntax"
begin

text \<open>
  The scalar readers of \<^verbatim>\<open>src/yeptris/parse/engine.c\<close>: quoted, block and multi-line plain scalars,
  over the part of \<^verbatim>\<open>struct yep_engine\<close> they read and write (cursor, line, line memos, error slot,
  fold array, finish pool). A reader returns its \<^verbatim>\<open>int\<close>, the engine and the event. The finish pool
  is \<open>en_pool\<close>; its allocator is the argument \<open>sys\<close>. The fold array \<^verbatim>\<open>fold[0 .. fold_n)\<close> is a list.
  The \<^verbatim>\<open>uint32_t\<close> break counters are natural numbers: each counts breaks of a 32-bit sized input.
  The loops that could run on are \<open>partial_function\<close>s: \<open>None\<close> is not returning.
\<close>

section \<open>Errors and events\<close>

datatype yep_err_code =
  YEP_ERR_NONE | YEP_ERR_UNEXPECTED | YEP_ERR_DOC_BOUNDARY | YEP_ERR_MEMORY | YEP_ERR_DEPTH | YEP_ERR_ENCODING
| YEP_ERR_TAB_IN_INDENT | YEP_ERR_UNTERMINATED_QUOTE | YEP_ERR_BAD_INDENT | YEP_ERR_KEY_TOO_LONG
| YEP_ERR_UNDEFINED_ALIAS | YEP_ERR_ABORTED | YEP_ERR_INVALID_ESCAPE | YEP_ERR_BAD_DIRECTIVE | YEP_ERR_INTERNAL
| YEP_ERR_SCHEMA

record yep_error =
  er_code :: yep_err_code
  er_line :: u32
  er_col :: u32
  er_offset :: nat

datatype yep_scalar_style =
  YEP_STYLE_ANY | YEP_STYLE_PLAIN | YEP_STYLE_SINGLE_QUOTED | YEP_STYLE_DOUBLE_QUOTED | YEP_STYLE_LITERAL | YEP_STYLE_FOLDED

text \<open>The members of the event the readers fill; \<open>None\<close> is a NULL value pointer.\<close>

record yep_event =
  ev_value :: "byte list option"
  ev_len :: u32
  ev_style :: yep_scalar_style
  ev_multiline :: bool
  ev_borrowed :: bool
  ev_end_line :: u32
  ev_end_col :: u32

record yep_engine =
  en_p :: "byte list"
  en_pos :: nat
  en_line :: u32
  en_line_start :: nat
  en_facts_cache :: yep_line_facts
  en_facts_cache_line :: u32
  en_li_cache :: yep_line_info
  en_li_cache_line :: u32
  en_shape_cache_line :: u32
  en_err :: yep_error
  en_fold :: "yep_fold_line list"
  en_pool :: yep_pool

definition YEP_MAX_FOLD_LINES :: nat where "YEP_MAX_FOLD_LINES = 8192"
definition YEP_MAX_SIMPLE_KEY :: nat where "YEP_MAX_SIMPLE_KEY = 1024"

section \<open>The cursor\<close>

definition e_col :: "yep_engine \<Rightarrow> nat \<Rightarrow> u32" where
  "e_col e at = (if en_line_start e \<le> at then of_nat (at - en_line_start e) else 0)"

text \<open>The start of the line that ends just below \<open>q + 1\<close>.\<close>

fun line_back :: "byte list \<Rightarrow> nat \<Rightarrow> nat" where
  "line_back p 0 = 0"
| "line_back p (Suc q) = (if p ! q \<noteq> 0x0A \<and> p ! q \<noteq> 0x0D then line_back p q else Suc q)"

lemma line_back_le: "line_back p q \<le> q"
  by (induction q) auto

function mark_back :: "byte list \<Rightarrow> nat \<Rightarrow> nat \<Rightarrow> u32 \<Rightarrow> nat \<times> u32" where
  "mark_back p at ls l = (if at < ls \<and> 0 < ls then mark_back p at (line_back p (ls - 1)) (l - 1) else (ls, l))"
  by pat_completeness auto
termination
proof (relation "measure (\<lambda>(p, at, ls, l). ls)", goal_cases)
  case (2 p at ls l)
  then show ?case using line_back_le [of p "ls - 1"] by (simp del: line_back.simps) linarith
qed simp

declare mark_back.simps [simp del]

definition e_pos_mark :: "yep_engine \<Rightarrow> nat \<Rightarrow> u32 \<times> u32" where
  "e_pos_mark e at =
     (if en_line_start e \<le> at then (en_line e, of_nat (at - en_line_start e) + 1)
      else
        let (ls, l) = mark_back (en_p e) at (en_line_start e) (en_line e) in (l, of_nat (at - ls) + 1))"

definition set_end :: "yep_event \<Rightarrow> u32 \<times> u32 \<Rightarrow> yep_event" where
  "set_end ev m = ev\<lparr>ev_end_line := fst m, ev_end_col := snd m\<rparr>"

definition e_fail :: "yep_engine \<Rightarrow> yep_err_code \<Rightarrow> nat \<Rightarrow> int \<times> yep_engine" where
  "e_fail e code at =
     (- 1, e\<lparr>en_err := \<lparr>er_code = code, er_line = en_line e, er_col = e_col e at + 1, er_offset = at\<rparr>\<rparr>)"

definition e_simple_key_ok :: "yep_engine \<Rightarrow> nat \<Rightarrow> nat \<Rightarrow> int \<times> yep_engine" where
  "e_simple_key_ok e key_at colon_at =
     (if YEP_MAX_SIMPLE_KEY < colon_at - key_at then e_fail e YEP_ERR_KEY_TOO_LONG key_at else (0, e))"

definition e_line_done :: "yep_engine \<Rightarrow> nat \<Rightarrow> yep_engine" where
  "e_line_done e at =
     (let br = yep_scan_break_len (en_p e) at in
      if 0 < br then
        e\<lparr>en_pos := at + br, en_line := en_line e + 1, en_line_start := at + br, en_li_cache_line := 0,
          en_shape_cache_line := 0, en_facts_cache_line := 0\<rparr>
      else e\<lparr>en_pos := at\<rparr>)"

definition e_facts_here :: "yep_engine \<Rightarrow> yep_engine" where
  "e_facts_here e =
     (if en_facts_cache_line e \<noteq> en_line e then
        e\<lparr>en_facts_cache := yep_scan_facts (en_p e) (en_line_start e), en_facts_cache_line := en_line e,
          en_li_cache_line := 0, en_shape_cache_line := 0\<rparr>
      else e)"

definition e_line_info_here :: "yep_engine \<Rightarrow> yep_line_info \<times> yep_engine" where
  "e_line_info_here e =
     (let e = e_facts_here e;
          e = (if en_li_cache_line e \<noteq> en_line e then
                 e\<lparr>en_li_cache := yep_scan_line_f (en_p e) (en_line_start e) (en_facts_cache e), en_li_cache_line := en_line e\<rparr>
               else e)
      in (en_li_cache e, e))"

definition e_skip_inline_space :: "yep_engine \<Rightarrow> yep_engine" where
  "e_skip_inline_space e = e\<lparr>en_pos := skip_blanks (en_p e) (en_pos e) (length (en_p e))\<rparr>"

text \<open>At an offset inside the input.\<close>

definition e_comment_at :: "yep_engine \<Rightarrow> bool" where
  "e_comment_at e \<longleftrightarrow> en_p e ! en_pos e = 0x23 \<and>
     (en_pos e = 0 \<or> is_blank (en_p e ! (en_pos e - 1)) \<or> is_break (en_p e ! (en_pos e - 1)))"

definition e_at_eol :: "yep_engine \<Rightarrow> bool" where
  "e_at_eol e \<longleftrightarrow> length (en_p e) \<le> en_pos e \<or> is_break (en_p e ! en_pos e) \<or> e_comment_at e \<or>
     0 < yep_scan_mb_break_len (en_p e) (en_pos e)"

definition e_skip_to_eol :: "yep_engine \<Rightarrow> yep_engine" where
  "e_skip_to_eol e = e\<lparr>en_pos := en_pos e + length (takeWhile (\<lambda>c. \<not> is_break c) (drop (en_pos e) (en_p e)))\<rparr>"

definition e_colon_at :: "yep_engine \<Rightarrow> nat \<Rightarrow> bool" where
  "e_colon_at e at \<longleftrightarrow> at < length (en_p e) \<and> en_p e ! at = 0x3A \<and>
     (length (en_p e) \<le> at + 1 \<or> en_p e ! (at + 1) = 0x20 \<or> is_break (en_p e ! (at + 1)))"

section \<open>Quoted scalars\<close>

text \<open>The scan without the kernel, for a span the kernel found no end of.\<close>

function manual_scan :: "byte list \<Rightarrow> byte \<Rightarrow> nat \<Rightarrow> bool \<Rightarrow> nat option \<times> bool" where
  "manual_scan p q i has_esc =
     (if i < length p then
        if q = 0x22 \<and> p ! i = 0x5C then manual_scan p q (i + 2) True
        else if p ! i = q then
          if q = 0x27 \<and> i + 1 < length p \<and> p ! (i + 1) = 0x27 then manual_scan p q (i + 2) has_esc
          else (Some i, has_esc)
        else manual_scan p q (i + 1) has_esc
      else (None, has_esc))"
  by pat_completeness auto
termination by (relation "measure (\<lambda>(p, q, i, has_esc). length p - i)") auto

declare manual_scan.simps [simp del]

text \<open>
  The lines of the span: each one behind a break must be content, and in block context deeper
  than the parent. The result is an error and its offset, or \<^verbatim>\<open>multiline\<close> and \<^verbatim>\<open>breaks\<close>.
\<close>

lemma break_found:
  assumes "yep_text_stopset_find_scalar yep_break_stopset (take (en - i) (drop i p)) = Some r"
  shows "i + r < en" "i + r < length p" "is_break (p ! (i + r))" "0 < yep_scan_break_len p (i + r)"
proof -
  have f: "find_loop (\<lambda>c. c = 0x0A \<or> c = 0x0D) (take (en - i) (drop i p)) 0 = Some r"
    using assms by (simp add: yep_text_stopset_find_scalar_def break_stopset [abs_def])
  from find_loop_some [OF this] show a: "i + r < en" "i + r < length p" "is_break (p ! (i + r))"
    by (auto simp: is_break_def)
  then show "0 < yep_scan_break_len p (i + r)" by (auto simp: yep_scan_break_len_def is_break_def)
qed

function quoted_lines ::
    "byte list \<Rightarrow> u32 \<Rightarrow> bool \<Rightarrow> nat \<Rightarrow> nat \<Rightarrow> bool \<Rightarrow> nat \<Rightarrow> (yep_err_code \<times> nat) + (bool \<times> nat)" where
  "quoted_lines p min_indent enforce en i multiline breaks =
     (if i < en then
        (case yep_text_stopset_find_scalar yep_break_stopset (take (en - i) (drop i p)) of
           None \<Rightarrow> Inr (multiline, breaks)
         | Some r \<Rightarrow>
             let at = i + r; breaks = (if p ! at = 0x0A then breaks + 1 else breaks); br = yep_scan_break_len p at;
                 ql = yep_scan_line p (at + br)
             in if li_flags ql AND (YEP_LF_DOC_START OR YEP_LF_DOC_END OR YEP_LF_DIRECTIVE) \<noteq> 0 then
                  Inl (YEP_ERR_UNTERMINATED_QUOTE, at + br)
                else if enforce \<and> li_flags ql AND YEP_LF_BLANK = 0 \<and> li_indent ql \<le> min_indent then
                  Inl (YEP_ERR_BAD_INDENT, at + br + unat (li_indent ql))
                else quoted_lines p min_indent enforce en (at + br) True breaks)
      else Inr (multiline, breaks))"
  by pat_completeness auto
termination
proof (relation "measure (\<lambda>(p, min_indent, enforce, en, i, multiline, breaks). en - i)", goal_cases)
  case (2 p min_indent enforce en i multiline breaks r)
  then show ?case using break_found [of en i p r] by auto
qed simp

declare quoted_lines.simps [simp del]

text \<open>The checked digits of an escape, with the digits' test done before.\<close>

definition hex_cp :: "byte list \<Rightarrow> nat \<Rightarrow> nat \<Rightarrow> u32" where
  "hex_cp p i n = foldl (\<lambda>cp k. push_bit 4 cp OR of_int (hexval (p ! (i + k)))) 0 [0..<n]"

text \<open>One escape at the backslash \<open>i\<close>: the offset of the error, or the next offset.\<close>

definition escape_check :: "byte list \<Rightarrow> nat \<Rightarrow> nat \<Rightarrow> nat + nat" where
  "escape_check p en i =
     (let esc = p ! (i + 1) in
      if esc = 0x78 \<or> esc = 0x75 \<or> esc = 0x55 then
        let need = (if esc = 0x78 then 2 else if esc = 0x75 then 4 else 8) in
        if en \<le> i + 1 + need then Inl i
        else
          (case find (\<lambda>k. \<not> yep_ct_is (p ! (i + 1 + k)) YEP_CT_HEXDIGIT) [1..<need + 1] of
             Some k \<Rightarrow> Inl (i + 1 + k)
           | None \<Rightarrow>
               let cp = hex_cp p (i + 2) 4 in
               if esc = 0x75 \<and> 0xD800 \<le> cp \<and> cp \<le> 0xDBFF then
                 let j = i + 6 in
                 (case (if j + 6 \<le> en \<and> p ! j = 0x5C \<and> p ! (j + 1) = 0x75 then hex_digits p (j + 2) (j + 6) 4 0 else None) of
                    Some lo \<Rightarrow> if 0xDC00 \<le> lo \<and> lo \<le> 0xDFFF then Inr (j + 5 + 1) else Inl i
                  | None \<Rightarrow> Inl i)
               else if esc = 0x75 \<and> 0xDC00 \<le> cp \<and> cp \<le> 0xDFFF then Inl i
               else if esc = 0x55 \<and> 0x10FFFF < hex_cp p (i + 2) 8 then Inl i
               else Inr (i + 1 + need + 1))
      else if is_break esc then Inr (i + 1)
      else if esc \<in> set (bytes_of ''0abt'' @ [0x09] @ bytes_of ''nvfre '' @ [0x22, 0x2F, 0x5C] @ bytes_of ''N_LP'') then Inr (i + 2)
      else Inl i)"

lemma escape_check_gt: "escape_check p en i = Inr j \<Longrightarrow> i < j"
  unfolding escape_check_def Let_def by (auto split: if_splits option.splits)

function escapes_ok :: "byte list \<Rightarrow> nat \<Rightarrow> nat \<Rightarrow> nat option" where
  "escapes_ok p en i =
     (if i < en then
        if p ! i \<noteq> 0x5C \<or> en \<le> i + 1 then escapes_ok p en (i + 1)
        else (case escape_check p en i of Inl at \<Rightarrow> Some at | Inr j \<Rightarrow> escapes_ok p en j)
      else None)"
  by pat_completeness auto
termination by (relation "measure (\<lambda>(p, en, i). en - i)") (auto dest: escape_check_gt)

declare escapes_ok.simps [simp del]

text \<open>The offset behind the last line feed between \<open>start\<close> and \<open>ls\<close>.\<close>

fun feed_back :: "byte list \<Rightarrow> nat \<Rightarrow> nat \<Rightarrow> nat" where
  "feed_back p start 0 = 0"
| "feed_back p start (Suc ls) = (if start < Suc ls \<and> p ! ls \<noteq> 0x0A then feed_back p start ls else Suc ls)"

definition u32_trunc :: "nat \<Rightarrow> nat" where "u32_trunc n = n mod 2 ^ 32"

text \<open>The value of the event: borrowed from the input or finished in the pool.\<close>

definition borrow :: "yep_engine \<Rightarrow> nat \<Rightarrow> nat \<Rightarrow> yep_event \<Rightarrow> yep_event" where
  "borrow e start en ev =
     ev\<lparr>ev_value := Some (take (en - start) (drop start (en_p e))), ev_len := of_nat (en - start), ev_borrowed := True\<rparr>"

definition with_pool :: "yep_engine \<Rightarrow> yep_pool option \<Rightarrow> yep_engine" where
  "with_pool e pool = (case pool of None \<Rightarrow> e | Some pl \<Rightarrow> e\<lparr>en_pool := pl\<rparr>)"

definition quoted_value ::
    "yep_allocator \<Rightarrow> yep_engine \<Rightarrow> byte \<Rightarrow> nat \<Rightarrow> nat \<Rightarrow> bool \<Rightarrow> bool \<Rightarrow> yep_event \<Rightarrow> int \<times> yep_engine \<times> yep_event" where
  "quoted_value sys e q start en has_esc multiline ev =
     (let ev = ev\<lparr>ev_style := (if q = 0x27 then YEP_STYLE_SINGLE_QUOTED else YEP_STYLE_DOUBLE_QUOTED)\<rparr> in
      if q = 0x27 then
        let ev = ev\<lparr>ev_multiline := multiline\<rparr> in
        (case yep_finish_single sys (en_p e) start en multiline (en_pool e) of
           None \<Rightarrow> (0, e, borrow e start en ev)
         | Some (None, len, pool) \<Rightarrow> (0, with_pool e pool, borrow e start en ev)
         | Some (Some out, len, pool) \<Rightarrow> (0, with_pool e pool, ev\<lparr>ev_value := Some out, ev_len := len, ev_borrowed := False\<rparr>))
      else if \<not> has_esc \<and> \<not> multiline then (0, e, borrow e start en ev)
      else
        let ev = ev\<lparr>ev_multiline := multiline\<rparr> in
        (case yep_finish_double sys (en_p e) start en multiline (en_pool e) of
           (None, len, pool) \<Rightarrow>
             let (rc, e) = e_fail (with_pool e pool) YEP_ERR_MEMORY (en_pos e) in (rc, e, ev\<lparr>ev_len := len\<rparr>)
         | (Some out, len, pool) \<Rightarrow>
             (0, with_pool e pool, ev\<lparr>ev_value := Some out, ev_len := len, ev_borrowed := False\<rparr>)))"

definition e_quoted_floor ::
    "yep_allocator \<Rightarrow> yep_engine \<Rightarrow> yep_event \<Rightarrow> u32 \<Rightarrow> bool \<Rightarrow> int \<times> yep_engine \<times> yep_event" where
  "e_quoted_floor sys e ev min_indent enforce =
     (let p = en_p e; q = p ! en_pos e; content_start = en_pos e + 1;
          (r, esc) = yep_text_quote_scan_scalar (drop content_start p) q;
          (close, has_esc) =
            (case r of Some k \<Rightarrow> (Some (content_start + k), esc) | None \<Rightarrow> manual_scan p q content_start esc)
      in case close of
           None \<Rightarrow> (let (rc, e) = e_fail e YEP_ERR_UNTERMINATED_QUOTE (en_pos e) in (rc, e, ev))
         | Some close \<Rightarrow>
             let start = u32_trunc content_start; en = u32_trunc close in
             (case quoted_lines p min_indent enforce en start False 0 of
                Inl (code, at) \<Rightarrow> (let (rc, e) = e_fail e code at in (rc, e, ev))
              | Inr (multiline, breaks) \<Rightarrow>
                  (case (if q = 0x22 \<and> has_esc then escapes_ok p en start else None) of
                     Some at \<Rightarrow> (let (rc, e) = e_fail e YEP_ERR_INVALID_ESCAPE at in (rc, e, ev))
                   | None \<Rightarrow>
                       (case quoted_value sys e q start en has_esc multiline ev of (rc, e, ev) \<Rightarrow>
                          if rc \<noteq> 0 then (rc, e, ev)
                          else
                            let after = close + 1;
                                e = e\<lparr>en_line := en_line e + of_nat breaks\<rparr>;
                                e = (if multiline then e\<lparr>en_line_start := feed_back p start close\<rparr> else e);
                                e = e\<lparr>en_pos := after\<rparr>;
                                ev = set_end ev (e_pos_mark e after)
                            in (0, e_skip_inline_space e, ev)))))"

section \<open>Block scalars\<close>

text \<open>The locals of \<^verbatim>\<open>e_block_scalar\<close> that live across lines.\<close>

record block_vars =
  bv_content_indent :: int
  bv_pending :: nat
  bv_trailing :: nat
  bv_saw :: bool
  bv_blank_tab :: bool
  bv_max_blank :: int

datatype block_next = Block_Stop yep_engine block_vars | Block_More yep_engine block_vars | Block_Fail yep_engine

record block_head =
  bh_chomp :: int
  bh_indent :: int
  bh_digit :: bool
  bh_blank :: bool

text \<open>The indicators behind \<^verbatim>\<open>|\<close> or \<^verbatim>\<open>>\<close>; \<open>Inl\<close> is the failed engine.\<close>

function block_header :: "yep_engine \<Rightarrow> block_head \<Rightarrow> yep_engine + yep_engine \<times> block_head" where
  "block_header e h =
     (if en_pos e < length (en_p e) \<and> \<not> is_break (en_p e ! en_pos e) then
        let c = en_p e ! en_pos e in
        if is_blank c then block_header (e\<lparr>en_pos := en_pos e + 1\<rparr>) (h\<lparr>bh_blank := True\<rparr>)
        else if e_comment_at e then Inr (e_skip_to_eol e, h)
        else if bh_blank h \<or> (c = 0x2D \<and> bh_chomp h \<noteq> 0) \<or> (c = 0x2B \<and> bh_chomp h \<noteq> 0) \<or>
            (0x31 \<le> c \<and> c \<le> 0x39 \<and> bh_digit h) then
          Inl (snd (e_fail e YEP_ERR_UNEXPECTED (en_pos e)))
        else if c = 0x2D then block_header (e\<lparr>en_pos := en_pos e + 1\<rparr>) (h\<lparr>bh_chomp := 1\<rparr>)
        else if c = 0x2B then block_header (e\<lparr>en_pos := en_pos e + 1\<rparr>) (h\<lparr>bh_chomp := 2\<rparr>)
        else if 0x31 \<le> c \<and> c \<le> 0x39 then
          block_header (e\<lparr>en_pos := en_pos e + 1\<rparr>) (h\<lparr>bh_indent := int (unat c) - 0x30, bh_digit := True\<rparr>)
        else Inl (snd (e_fail e YEP_ERR_UNEXPECTED (en_pos e)))
      else Inr (e, h))"
  by pat_completeness auto
termination by (relation "measure (\<lambda>(e, h). length (en_p e) - en_pos e)") auto

declare block_header.simps [simp del]

text \<open>The end of a content line: its own break counts as trailing; \<open>reset\<close> drops the line memos.\<close>

definition content_end :: "yep_engine \<Rightarrow> block_vars \<Rightarrow> nat \<Rightarrow> bool \<Rightarrow> block_next" where
  "content_end e b at reset =
     (let b = b\<lparr>bv_saw := True, bv_pending := 0, bv_trailing := 0\<rparr>; br = yep_scan_break_len (en_p e) at in
      if 0 < br then
        let e = e\<lparr>en_pos := at + br, en_line := en_line e + 1, en_line_start := at + br\<rparr> in
        Block_More (if reset then e\<lparr>en_li_cache_line := 0, en_shape_cache_line := 0\<rparr> else e) (b\<lparr>bv_trailing := 1\<rparr>)
      else Block_More (e\<lparr>en_pos := at\<rparr>) b)"

definition view_at :: "byte list \<Rightarrow> u32 \<Rightarrow> u32 \<Rightarrow> yep_view" where
  "view_at p from len = take (unat len) (drop (unat from) p)"

text \<open>One line of the block taken into the fold array.\<close>

definition fold_push :: "yep_engine \<Rightarrow> block_vars \<Rightarrow> u32 \<Rightarrow> u32 \<Rightarrow> bool \<Rightarrow> bool \<Rightarrow> block_next" where
  "fold_push e b from en deep reset =
     (if YEP_MAX_FOLD_LINES \<le> length (en_fold e) then Block_Fail (snd (e_fail e YEP_ERR_MEMORY (en_pos e)))
      else
        let l = \<lparr>fl_content = view_at (en_p e) from (if from < en then en - from else 0),
                 fl_breaks_before = (if bv_saw b then bv_pending b + 1 else bv_pending b), fl_more_indented = deep\<rparr>
        in content_end (e\<lparr>en_fold := en_fold e @ [l]\<rparr>) b (unat en) reset)"

text \<open>A blank line without a tab behind the indent.\<close>

definition block_blank :: "yep_engine \<Rightarrow> block_vars \<Rightarrow> yep_line_info \<Rightarrow> bool \<Rightarrow> block_next" where
  "block_blank e b li tab =
     (let ci = bv_content_indent b in
      if 0 \<le> ci \<and> ci < sint (li_indent li) then fold_push e b (li_offset li + of_int ci) (li_end li) True True
      else
        let b = (if \<not> bv_saw b then
                   b\<lparr>bv_blank_tab := (bv_blank_tab b \<or> tab), bv_max_blank := max (bv_max_blank b) (sint (li_indent li))\<rparr>
                 else b)
        in Block_More (e_line_done e (unat (li_end li))) (b\<lparr>bv_pending := bv_pending b + 1\<rparr>))"

definition block_step :: "int \<Rightarrow> yep_engine \<Rightarrow> block_vars \<Rightarrow> block_next" where
  "block_step parent_col e b =
     (let (li, e) = (if en_pos e = en_line_start e then e_line_info_here e else (yep_scan_line (en_p e) (en_pos e), e));
          indent = sint (li_indent li); ci = bv_content_indent b; fresh = b\<lparr>bv_content_indent := indent\<rparr>
      in if li_flags li AND YEP_LF_BLANK = 0 then
           if parent_col < 0 \<and> li_flags li AND (YEP_LF_DOC_START OR YEP_LF_DOC_END) \<noteq> 0 then Block_Stop e b
           else if bv_saw b \<and> parent_col < 0 \<and> li_flags li AND YEP_LF_DIRECTIVE \<noteq> 0 then Block_Stop e b
           else if ci < 0 \<and> indent \<le> parent_col then Block_Stop e fresh
           else if 0 \<le> ci \<and> indent \<le> parent_col then Block_Stop e b
           else if 0 \<le> ci \<and> indent < ci then Block_Stop e b
           else
             let b = (if ci < 0 then fresh else b); from = li_offset li + of_int (bv_content_indent b) in
             fold_push e b from (li_end li)
               (bv_content_indent b < indent \<or> (from < li_end li \<and> is_blank (en_p e ! unat from))) False
         else
           let tab = (0x09 \<in> set (view_at (en_p e) (li_offset li) (li_end li - li_offset li))) in
           if 0 < li_indent li \<and> tab then
             if ci < 0 \<and> indent \<le> parent_col then Block_Stop e fresh
             else if 0 \<le> ci \<and> indent < ci then Block_Stop e b
             else
               let b = (if ci < 0 then fresh else b) in
               fold_push e b (li_offset li + of_int (bv_content_indent b)) (li_end li) True True
           else block_blank e b li tab)"

partial_function (option) block_loop :: "int \<Rightarrow> yep_engine \<Rightarrow> block_vars \<Rightarrow> (yep_engine + yep_engine \<times> block_vars) option" where
  "block_loop parent_col e b =
     (if en_pos e < length (en_p e) then
        (case block_step parent_col e b of
           Block_Stop e b \<Rightarrow> Some (Inr (e, b))
         | Block_Fail e \<Rightarrow> Some (Inl e)
         | Block_More e b \<Rightarrow> block_loop parent_col e b)
      else Some (Inr (e, b)))"

declare block_loop.simps [code]

definition block_finish ::
    "yep_allocator \<Rightarrow> bool \<Rightarrow> int \<Rightarrow> yep_engine \<Rightarrow> block_vars \<Rightarrow> yep_event \<Rightarrow> int \<times> yep_engine \<times> yep_event" where
  "block_finish sys folded chomp e b ev =
     (let p = en_p e; trailing = bv_trailing b + bv_pending b;
          trailing = (if \<not> bv_saw b \<and> 0 < trailing \<and> en_pos e = length p \<and> p \<noteq> [] \<and> \<not> is_break (last p)
                      then trailing - 1 else trailing)
      in if (if bv_saw b then bv_content_indent b < bv_max_blank b else bv_blank_tab b) then
           let (rc, e) = e_fail e YEP_ERR_BAD_INDENT (en_pos e) in (rc, e, ev)
         else
           (case yep_finish_block sys (en_fold e) folded chomp trailing (en_pool e) of
              (out, len, pool) \<Rightarrow>
                let e = with_pool e pool;
                    ev = ev\<lparr>ev_value := out, ev_len := len, ev_borrowed := False,
                            ev_style := (if folded then YEP_STYLE_FOLDED else YEP_STYLE_LITERAL)\<rparr>
                in (0, e, set_end ev (e_pos_mark e (en_pos e)))))"

definition e_block_scalar ::
    "yep_allocator \<Rightarrow> yep_engine \<Rightarrow> yep_event \<Rightarrow> int \<Rightarrow> (int \<times> yep_engine \<times> yep_event) option" where
  "e_block_scalar sys e ev parent_col =
     (let folded = (en_p e ! en_pos e = 0x3E) in
      case block_header (e\<lparr>en_pos := en_pos e + 1\<rparr>) \<lparr>bh_chomp = 0, bh_indent = 0, bh_digit = False, bh_blank = False\<rparr> of
        Inl e \<Rightarrow> Some (- 1, e, ev)
      | Inr (e, h) \<Rightarrow>
          let e = e_line_done e (en_pos e);
              ci = (if bh_indent h \<noteq> 0 then (if parent_col < 0 then bh_indent h else parent_col + bh_indent h) else - 1)
          in block_loop parent_col (e\<lparr>en_fold := []\<rparr>)
               \<lparr>bv_content_indent = ci, bv_pending = 0, bv_trailing = 0, bv_saw = False, bv_blank_tab = False, bv_max_blank = - 1\<rparr>
             \<bind> (\<lambda>r. case r of Inl e \<Rightarrow> Some (- 1, e, ev) | Inr (e, b) \<Rightarrow> Some (block_finish sys folded (bh_chomp h) e b ev)))"

section \<open>Plain scalars over several lines\<close>

text \<open>How one turn ends; \<open>lend\<close> is the offset behind the last piece.\<close>

datatype plain_next = Plain_Stop yep_engine nat | Plain_More yep_engine nat nat | Plain_Fail yep_engine

definition span_view :: "byte list \<Rightarrow> yep_span \<Rightarrow> yep_view" where
  "span_view p s = view_at p (sp_start s) (sp_end s - sp_start s)"

definition span_end :: "yep_span \<Rightarrow> nat" where
  "span_end s = unat (sp_start s) + unat (sp_end s - sp_start s)"

definition plain_step :: "u32 \<Rightarrow> bool \<Rightarrow> yep_engine \<Rightarrow> nat \<Rightarrow> nat \<Rightarrow> plain_next" where
  "plain_step block_floor root_ctx e breaks lend =
     (let p = en_p e; e = e_skip_inline_space e in
      if length p \<le> en_pos e then Plain_Stop e lend
      else if e_comment_at e then Plain_Stop (e_skip_to_eol e) lend
      else
        let breaks = breaks + 1; (li, e) = e_line_info_here (e_line_done e (en_pos e)) in
        if li_flags li AND YEP_LF_BLANK \<noteq> 0 then Plain_More (e\<lparr>en_pos := unat (li_end li)\<rparr>) breaks lend
        else if (\<not> root_ctx \<and> li_indent li \<le> block_floor) \<or> li_flags li AND (YEP_LF_DOC_START OR YEP_LF_DOC_END) \<noteq> 0 then
          Plain_Stop e lend
        else
          let cs = skip_blanks p (en_pos e + unat (li_indent li)) (length p) in
          if cs < length p \<and> p ! cs = 0x23 then Plain_Stop (e_skip_to_eol e) lend
          else
            let s = yep_scan_plain p cs False in
            if sp_term s = YEP_TERM_COLON then Plain_Fail (snd (e_fail e YEP_ERR_UNEXPECTED (unat (sp_end s))))
            else if sp_end s = sp_start s \<and> sp_term s = YEP_TERM_EOL then Plain_More e breaks lend
            else if YEP_MAX_FOLD_LINES \<le> length (en_fold e) then Plain_Fail (snd (e_fail e YEP_ERR_MEMORY (en_pos e)))
            else
              let l = \<lparr>fl_content = span_view p s, fl_breaks_before = breaks, fl_more_indented = False\<rparr>;
                  e = e\<lparr>en_fold := en_fold e @ [l], en_pos := unat (sp_end s)\<rparr>
              in if sp_term s = YEP_TERM_COMMENT then Plain_Stop (e_skip_to_eol e) (span_end s)
                 else Plain_More e 0 (span_end s))"

partial_function (option) plain_lines :: "u32 \<Rightarrow> bool \<Rightarrow> yep_engine \<Rightarrow> nat \<Rightarrow> nat \<Rightarrow> (yep_engine + yep_engine \<times> nat) option" where
  "plain_lines block_floor root_ctx e breaks lend =
     (if en_pos e < length (en_p e) then
        (case plain_step block_floor root_ctx e breaks lend of
           Plain_Stop e lend \<Rightarrow> Some (Inr (e, lend))
         | Plain_Fail e \<Rightarrow> Some (Inl e)
         | Plain_More e breaks lend \<Rightarrow> plain_lines block_floor root_ctx e breaks lend)
      else Some (Inr (e, lend)))"

declare plain_lines.simps [code]

definition e_plain_multiline ::
    "yep_allocator \<Rightarrow> yep_engine \<Rightarrow> yep_span \<Rightarrow> u32 \<Rightarrow> yep_event \<Rightarrow> bool \<Rightarrow> (int \<times> yep_engine \<times> yep_event) option" where
  "e_plain_multiline sys e s0 block_floor ev root_ctx =
     (let e = e\<lparr>en_fold := [\<lparr>fl_content = span_view (en_p e) s0, fl_breaks_before = 0, fl_more_indented = False\<rparr>]\<rparr> in
      if sp_term s0 = YEP_TERM_COMMENT then Some (0, e_skip_to_eol (e\<lparr>en_pos := unat (sp_end s0)\<rparr>), ev)
      else
        plain_lines block_floor root_ctx e 0 (span_end s0) \<bind> (\<lambda>r. case r of
          Inl e \<Rightarrow> Some (- 1, e, ev)
        | Inr (e, lend) \<Rightarrow>
            let ev = set_end ev (e_pos_mark e lend) in
            if length (en_fold e) = 1 then Some (0, e, ev)
            else
              (case yep_fold_plain sys (en_fold e) (en_pool e) of
                 (None, len, pool) \<Rightarrow>
                   let (rc, e) = e_fail (with_pool e pool) YEP_ERR_MEMORY (en_pos e) in Some (rc, e, ev\<lparr>ev_len := len\<rparr>)
               | (Some out, len, pool) \<Rightarrow>
                   Some (0, with_pool e pool, ev\<lparr>ev_value := Some out, ev_len := len, ev_borrowed := False\<rparr>))))"

end
