(* ===== verification/Reader_Facts.thy ===== *)
theory Reader_Facts
  imports Readers Scalar_Facts Byte_Classes
begin

text \<open>
  The line at an offset as the readers see it, buffers over an allocator that does not fail, the
  coherence of the line memos, the three kinds of lines of a block scalar, and that the block
  reader returns.
\<close>

section \<open>The line at an offset\<close>

definition line_of :: "byte list \<Rightarrow> nat \<Rightarrow> byte list" where
  "line_of p pos = takeWhile (\<lambda>b. \<not> is_brk b) (drop pos p)"

definition depth_of :: "byte list \<Rightarrow> nat" where
  "depth_of l = length (takeWhile (\<lambda>b. b = 0x20) l)"

lemma flags_bits:
  "YEP_LF_BLANK \<noteq> 0" "(YEP_LF_BLANK OR YEP_LF_TAB) AND YEP_LF_BLANK \<noteq> 0" "YEP_LF_BLANK AND YEP_LF_BLANK \<noteq> 0"
  "(YEP_LF_TAB OR YEP_LF_BLANK) AND YEP_LF_BLANK \<noteq> 0"
  "YEP_LF_TAB AND YEP_LF_BLANK = 0" "YEP_LF_COMMENT AND YEP_LF_BLANK = 0" "(YEP_LF_TAB OR YEP_LF_COMMENT) AND YEP_LF_BLANK = 0"
  "(YEP_LF_TAB OR YEP_LF_DIRECTIVE) AND YEP_LF_BLANK = 0" "(YEP_LF_TAB OR YEP_LF_DOC_START) AND YEP_LF_BLANK = 0"
  "(YEP_LF_TAB OR YEP_LF_DOC_END) AND YEP_LF_BLANK = 0" "YEP_LF_DIRECTIVE AND YEP_LF_BLANK = 0"
  "YEP_LF_DOC_START AND YEP_LF_BLANK = 0" "YEP_LF_DOC_END AND YEP_LF_BLANK = 0"
  by (simp_all add: YEP_LF_BLANK_def YEP_LF_TAB_def YEP_LF_COMMENT_def YEP_LF_DIRECTIVE_def YEP_LF_DOC_START_def YEP_LF_DOC_END_def)

lemma marks_bits:
  fixes f :: u16
  defines "m \<equiv> YEP_LF_DOC_START OR YEP_LF_DOC_END OR YEP_LF_DIRECTIVE"
  shows "0 AND m = 0" "YEP_LF_BLANK AND m = 0" "(YEP_LF_BLANK OR YEP_LF_TAB) AND m = 0" "(YEP_LF_TAB OR YEP_LF_BLANK) AND m = 0"
    "YEP_LF_TAB AND m = 0" "YEP_LF_COMMENT AND m = 0" "(YEP_LF_TAB OR YEP_LF_COMMENT) AND m = 0"
  by (simp_all add: m_def YEP_LF_BLANK_def YEP_LF_TAB_def YEP_LF_COMMENT_def YEP_LF_DIRECTIVE_def YEP_LF_DOC_START_def YEP_LF_DOC_END_def)

lemma skip_blanks_end: "i \<le> to \<Longrightarrow> to \<le> length p \<Longrightarrow> to \<le> skip_blanks p i to \<longleftrightarrow> (\<forall>c \<in> set (take (to - i) (drop i p)). is_blank c)"
proof -
  assume "i \<le> to" "to \<le> length p"
  then have l: "length (take (to - i) (drop i p)) = to - i" by simp
  have "(to \<le> skip_blanks p i to) = (length (take (to - i) (drop i p)) \<le> length (takeWhile is_blank (take (to - i) (drop i p))))"
    unfolding skip_blanks_def l by linarith
  also have "\<dots> = (takeWhile is_blank (take (to - i) (drop i p)) = take (to - i) (drop i p))"
    by (metis length_takeWhile_le le_antisym order_refl takeWhile_eq_take take_all)
  finally show ?thesis by (simp add: takeWhile_eq_all_conv)
qed

lemma line_flags:
  "li_flags (yep_scan_line_f p pos f) =
     (let j = unat (lf_indent f); en = unat (lf_end f); top = (of_nat j - of_nat pos = (0 :: u32));
          tab = (j < en \<and> p ! j = 0x09); t = (if tab then YEP_LF_TAB else 0)
      in if tab \<and> en \<le> skip_blanks p j en then (if top then YEP_LF_BLANK OR YEP_LF_TAB else YEP_LF_BLANK)
         else if en \<le> j then t OR YEP_LF_BLANK
         else if p ! j = 0x23 then t OR YEP_LF_COMMENT
         else if p ! j = 0x25 \<and> top then t OR YEP_LF_DIRECTIVE
         else if top \<and> marker_at p j en 0x2D then t OR YEP_LF_DOC_START
         else if top \<and> marker_at p j en 0x2E then t OR YEP_LF_DOC_END
         else t)"
  unfolding yep_scan_line_f_def Let_def
  by (cases "p ! unat (lf_indent f) = 0x09"; cases "unat (lf_indent f) < unat (lf_end f)") (simp_all del: of_nat_unat)

lemma scan_line_at:
  assumes "length p < 2 ^ 32" "pos \<le> length p"
  defines "l \<equiv> line_of p pos"
  defines "d \<equiv> depth_of l"
  defines "li \<equiv> yep_scan_line p pos"
  shows "li_offset li = of_nat pos" "li_end li = of_nat (pos + length l)" "li_indent li = of_nat d"
    "li_flags li AND YEP_LF_BLANK \<noteq> 0 \<longleftrightarrow> (\<forall>c \<in> set l. is_blank c)"
    "0 < d \<Longrightarrow> li_flags li AND (YEP_LF_DOC_START OR YEP_LF_DOC_END OR YEP_LF_DIRECTIVE) = 0"
    "pos + length l \<le> length p" "d \<le> length l"
proof -
  have f: "yep_scan_facts p pos = plain_line_facts p pos" by (rule scan_facts_plain [OF assms(1,2)])
  have le: "lf_end (yep_scan_facts p pos) = of_nat (pos + length l)" "lf_indent (yep_scan_facts p pos) = of_nat (pos + d)"
    unfolding f plain_line_facts_def Let_def l_def d_def line_of_def depth_of_def by simp_all
  have dl: "d \<le> length l" unfolding d_def depth_of_def by (rule length_takeWhile_le)
  have ll: "pos + length l \<le> length p" using line_end(1) [OF assms(2)] by (simp add: l_def line_of_def)
  have u: "unat (of_nat (pos + length l) :: u32) = pos + length l" "unat (of_nat (pos + d) :: u32) = pos + d" "unat (of_nat d :: u32) = d"
    using ll dl assms(1) by (simp_all add: unsigned_of_nat take_bit_eq_mod del: of_nat_add)
  have ind: "(of_nat (pos + d) :: u32) - of_nat pos = of_nat d" by simp
  have d0: "((of_nat d :: u32) = 0) = (d = 0)" by (simp only: unat_eq_0 [symmetric] u(3))
  have at: "p ! (pos + j) = l ! j" if "j < length l" for j
    using line_end(2) [OF assms(2), of "pos + j"] that by (simp add: l_def line_of_def)
  have seg: "take (pos + length l - (pos + d)) (drop (pos + d) p) = drop d l"
    using ll dl by (intro nth_equalityI) (auto simp: at add.assoc)
  have spaces: "\<forall>c \<in> set (take d l). c = 0x20" unfolding d_def depth_of_def
    by (metis set_takeWhileD takeWhile_eq_take)
  have rest: "(\<forall>c \<in> set l. is_blank c) = (\<forall>c \<in> set (drop d l). is_blank c)"
  proof -
    have "set l = set (take d l) \<union> set (drop d l)" by (metis append_take_drop_id set_append)
    then show ?thesis using spaces by (auto simp: is_blank_def)
  qed
  have sb: "(pos + length l \<le> skip_blanks p (pos + d) (pos + length l)) = (\<forall>c \<in> set l. is_blank c)"
    unfolding rest using skip_blanks_end [of "pos + d" "pos + length l" p] dl ll seg by simp
  have nsp: "d < length l \<Longrightarrow> p ! (pos + d) \<noteq> 0x20"
    using at nth_length_takeWhile [of "\<lambda>b. b = 0x20" l] by (simp add: d_def depth_of_def)
  have nb: "(\<forall>c \<in> set l. is_blank c) \<Longrightarrow> d < length l \<Longrightarrow> p ! (pos + d) = 0x09"
    using at [of d] nsp by (auto simp: is_blank_def)
  note fields = scan_line_fields [of p pos, unfolded le]
  show "li_offset li = of_nat pos" "li_end li = of_nat (pos + length l)" unfolding li_def using fields by simp_all
  show "li_indent li = of_nat d" unfolding li_def using fields ind by (metis add_diff_cancel_left')
  define t where "t = (if d < length l \<and> p ! (pos + d) = 0x09 then YEP_LF_TAB else 0)"
  have lt: "pos + d < pos + length l \<longleftrightarrow> d < length l" "pos + length l \<le> pos + d \<longleftrightarrow> length l \<le> d" by simp_all
  have fl: "li_flags li =
      (if (d < length l \<and> p ! (pos + d) = 0x09) \<and> (\<forall>c \<in> set l. is_blank c) then (if d = 0 then YEP_LF_BLANK OR YEP_LF_TAB else YEP_LF_BLANK)
       else if length l \<le> d then t OR YEP_LF_BLANK
       else if p ! (pos + d) = 0x23 then t OR YEP_LF_COMMENT
       else if p ! (pos + d) = 0x25 \<and> d = 0 then t OR YEP_LF_DIRECTIVE
       else if d = 0 \<and> marker_at p (pos + d) (pos + length l) 0x2D then t OR YEP_LF_DOC_START
       else if d = 0 \<and> marker_at p (pos + d) (pos + length l) 0x2E then t OR YEP_LF_DOC_END
       else t)"
    unfolding li_def yep_scan_line_def line_flags le u(1,2) ind d0 sb Let_def lt t_def ..
  consider "d < length l" "p ! (pos + d) = 0x09" "\<forall>c \<in> set l. is_blank c" | "d = length l" "\<forall>c \<in> set l. is_blank c"
    | "d < length l" "\<not> (\<forall>c \<in> set l. is_blank c)"
    using nb dl rest by fastforce
  then have "(li_flags li AND YEP_LF_BLANK \<noteq> 0 \<longleftrightarrow> (\<forall>c \<in> set l. is_blank c)) \<and>
      (0 < d \<longrightarrow> li_flags li AND (YEP_LF_DOC_START OR YEP_LF_DOC_END OR YEP_LF_DIRECTIVE) = 0)"
  proof cases
    case 1
    then show ?thesis unfolding fl by (simp add: flags_bits marks_bits)
  next
    case 2
    then show ?thesis unfolding fl by (simp add: flags_bits marks_bits t_def)
  next
    case 3
    then have "li_flags li AND YEP_LF_BLANK = 0" unfolding fl by (auto simp: flags_bits t_def)
    moreover have "0 < d \<Longrightarrow> li_flags li AND (YEP_LF_DOC_START OR YEP_LF_DOC_END OR YEP_LF_DIRECTIVE) = 0"
      unfolding fl using 3 by (simp add: marks_bits t_def)
    ultimately show ?thesis using 3 by blast
  qed
  then show "li_flags li AND YEP_LF_BLANK \<noteq> 0 \<longleftrightarrow> (\<forall>c \<in> set l. is_blank c)"
    "0 < d \<Longrightarrow> li_flags li AND (YEP_LF_DOC_START OR YEP_LF_DOC_END OR YEP_LF_DIRECTIVE) = 0" by blast+
  show "pos + length l \<le> length p" "d \<le> length l" by (rule ll, rule dl)
qed

section \<open>Buffers over an allocator that does not fail\<close>

definition unfailing :: "yep_allocator \<Rightarrow> bool" where
  "unfailing sys \<longleftrightarrow> (\<forall>bs n. sys bs n \<noteq> None)"

lemma pool_serves:
  assumes "unfailing sys" "0 < c" "c \<le> 2 ^ 62"
  shows "\<exists>a pool'. yep_pool_alloc sys pool (of_nat c) 16 = (Some a, pool')"
proof -
  have c: "unat (of_nat c :: u64) = c" using assms(3) by (simp add: unsigned_of_nat take_bit_eq_mod)
  then have nz: "(of_nat c :: u64) \<noteq> 0" using assms(2) by (metis less_numeral_extra(3) unat_0)
  have lim: "\<not> (SIZE_MAX - 16) div 2 < (of_nat c :: u64)"
  proof -
    have "unat ((SIZE_MAX - 16) div 2) = 9223372036854775799" by (simp add: SIZE_MAX_def)
    then show ?thesis using c assms(3) by (simp add: word_less_nat_alt)
  qed
  have al: "yep_align_ok 16" by (simp add: yep_align_ok_def)
  have new: "\<exists>b. yep_block_new sys bs n = Some b" for bs n
  proof -
    obtain a where "sys bs (BLOCK_HEADER + n) = Some a" using assms(1) unfolding unfailing_def by blast
    then show ?thesis by (simp add: yep_block_new_def)
  qed
  have inn: "\<exists>a pool'. pool_alloc_in sys pl (of_nat c) 16 = (Some a, pool')" for pl
  proof -
    obtain b where "yep_block_new sys (pl_chain pl) (new_payload (pl_block_size pl) (of_nat c) 16) = Some b" using new by blast
    then show ?thesis unfolding pool_alloc_in_def Let_def by (simp only: option.case) (auto split: if_split)
  qed
  obtain b where "yep_block_new sys [] (pl_block_size pool) = Some b" using new by blast
  then show ?thesis unfolding yep_pool_alloc_def using nz lim al inn by (simp only: option.case if_False simp_thms) (auto split: if_split)
qed

definition roomy :: "yep_buf \<Rightarrow> bool" where
  "roomy b \<longleftrightarrow> bf_pool b \<noteq> None \<and> length (bf_data b) \<le> bf_cap b \<and> bf_cap b \<le> 2 ^ 34"

lemma grow_cap_bounds: "0 < c \<Longrightarrow> need \<le> grow_cap c need \<and> c \<le> grow_cap c need \<and> grow_cap c need \<le> max c (2 * need)"
proof (induction c need rule: grow_cap.induct)
  case (1 c need)
  then show ?case by (auto simp: grow_cap.simps [of c need])
qed

lemma put_roomy:
  assumes "unfailing sys" "roomy b" "length (bf_data b) + length s \<le> 2 ^ 33"
  shows "bf_data (yep_buf_put sys b s) = bf_data b @ s" "roomy (yep_buf_put sys b s)"
proof -
  have "bf_data (yep_buf_put sys b s) = bf_data b @ s \<and> roomy (yep_buf_put sys b s)"
  proof (cases "length (bf_data b) + length s \<le> bf_cap b \<or> s = []")
    case True
    then show ?thesis using assms(2) by (auto simp: yep_buf_put_def yep_buf_reserve_def roomy_def)
  next
    case False
    let ?start = "if bf_cap b \<noteq> 0 then bf_cap b * 2 else 256"
    let ?c = "grow_cap ?start (length (bf_data b) + length s)"
    obtain pool where pool: "bf_pool b = Some pool" using assms(2) by (auto simp: roomy_def)
    have c: "length (bf_data b) + length s \<le> ?c" "0 < ?c" "?c \<le> 2 ^ 34"
      using grow_cap_bounds [of ?start "length (bf_data b) + length s"] False assms(3) by auto
    then have "?c \<le> 2 ^ 62" by simp
    then obtain a pool' where "yep_pool_alloc sys pool (of_nat ?c) 16 = (Some a, pool')" using pool_serves [OF assms(1) c(2)] by blast
    then have r: "yep_buf_reserve sys b (length s) = (True, b\<lparr>bf_pool := Some pool', bf_cap := ?c\<rparr>)"
      using False pool unfolding yep_buf_reserve_def Let_def by simp
    then show ?thesis using False c by (simp add: yep_buf_put_def roomy_def)
  qed
  then show "bf_data (yep_buf_put sys b s) = bf_data b @ s" "roomy (yep_buf_put sys b s)" by blast+
qed

lemma putc_roomy:
  assumes "unfailing sys" "roomy b" "length (bf_data b) + 1 \<le> 2 ^ 33"
  shows "bf_data (yep_buf_putc sys b c) = bf_data b @ [c]" "roomy (yep_buf_putc sys b c)"
  using put_roomy [OF assms(1,2), of "[c]"] assms(3) by (simp_all add: putc_put)

lemma breaks_roomy:
  "unfailing sys \<Longrightarrow> roomy b \<Longrightarrow> length (bf_data b) + n \<le> 2 ^ 33 \<Longrightarrow>
   bf_data (yep_emit_breaks sys b n) = bf_data b @ replicate n 0x0A \<and> roomy (yep_emit_breaks sys b n)"
proof (induction n arbitrary: b)
  case (Suc n)
  note p = putc_roomy [OF Suc.prems(1,2), of "0x0A"]
  have "bf_data b @ 0x0A # replicate n 0x0A = bf_data b @ replicate (Suc n) 0x0A" by simp
  then show ?case using Suc.IH [OF Suc.prems(1), of "yep_buf_putc sys b 0x0A"] p Suc.prems(3) by simp
qed simp

text \<open>The text of the collected lines of a literal block.\<close>

definition lit_text :: "yep_fold_line list \<Rightarrow> byte list" where
  "lit_text ls = concat (map (\<lambda>l. replicate (fl_breaks_before l) 0x0A @ fl_content l) ls)"

lemma lit_text_snoc: "lit_text (ls @ [l]) = lit_text ls @ replicate (fl_breaks_before l) 0x0A @ fl_content l"
  by (simp add: lit_text_def)

lemma literal_lines:
  assumes "unfailing sys" "length (lit_text ls) \<le> 2 ^ 33"
  shows "n \<le> length ls \<Longrightarrow>
    bf_data (foldl (block_line sys ls False) (buf_new (Some pool) 0) [0..<n]) = lit_text (take n ls) \<and>
    roomy (foldl (block_line sys ls False) (buf_new (Some pool) 0) [0..<n])"
proof (induction n)
  case 0
  then show ?case by (simp add: lit_text_def buf_new_def roomy_def)
next
  case (Suc n)
  let ?b = "foldl (block_line sys ls False) (buf_new (Some pool) 0) [0..<n]" and ?l = "ls ! n"
  have IH: "bf_data ?b = lit_text (take n ls)" "roomy ?b" using Suc by simp_all
  have t: "take (Suc n) ls = take n ls @ [?l]" using Suc.prems by (simp add: take_Suc_conv_app_nth)
  have "lit_text ls = lit_text (take (Suc n) ls) @ lit_text (drop (Suc n) ls)"
    unfolding lit_text_def by (metis append_take_drop_id concat_append map_append)
  then have len: "length (lit_text (take n ls)) + fl_breaks_before ?l + length (fl_content ?l) \<le> 2 ^ 33"
    using assms(2) unfolding t lit_text_snoc by simp
  let ?b1 = "yep_emit_breaks sys ?b (fl_breaks_before ?l)"
  have b1: "bf_data ?b1 = lit_text (take n ls) @ replicate (fl_breaks_before ?l) 0x0A" "roomy ?b1"
    using breaks_roomy [OF assms(1) IH(2), of "fl_breaks_before ?l"] IH(1) len by simp_all
  have step: "block_line sys ls False ?b n = yep_buf_put sys ?b1 (fl_content ?l)" by (simp add: block_line_def Let_def)
  show ?case
    using put_roomy [OF assms(1) b1(2), of "fl_content ?l"] b1(1) len unfolding t lit_text_snoc by (simp add: step)
qed

lemma roomy_result:
  "roomy b \<Longrightarrow> bf_data b \<noteq> [] \<Longrightarrow> \<exists>pool. buf_result b = (Some (bf_data b), of_nat (length (bf_data b)), Some pool)"
  by (cases "bf_data b") (auto simp: roomy_def buf_result_def)

lemma literal_finish:
  assumes "unfailing sys" "length (lit_text ls) + trailing + 1 \<le> 2 ^ 33" "lit_text ls \<noteq> []"
    and "s = lit_text ls @ (if chomp = 1 then [] else if chomp = 2 then replicate trailing 0x0A else [0x0A])"
  shows "\<exists>pool'. yep_finish_block sys ls False chomp trailing pool = (Some s, of_nat (length s), Some pool')"
proof -
  let ?b = "foldl (block_line sys ls False) (buf_new (Some pool) 0) [0..<length ls]"
  have b: "bf_data ?b = lit_text ls" "roomy ?b" using literal_lines [OF assms(1), of ls "length ls" pool] assms(2) by simp_all
  let ?e = "if chomp = 1 then ?b else if chomp = 2 then yep_emit_breaks sys ?b trailing
    else if bf_data ?b \<noteq> [] then yep_buf_putc sys ?b 0x0A else ?b"
  have br: "bf_data (yep_emit_breaks sys ?b trailing) = lit_text ls @ replicate trailing 0x0A" "roomy (yep_emit_breaks sys ?b trailing)"
    using breaks_roomy [OF assms(1) b(2), of trailing] b(1) assms(2) by simp_all
  have pc: "bf_data (yep_buf_putc sys ?b 0x0A) = lit_text ls @ [0x0A]" "roomy (yep_buf_putc sys ?b 0x0A)"
    using putc_roomy [OF assms(1) b(2), of "0x0A"] b(1) assms(2) by simp_all
  have e: "bf_data ?e = s" "roomy ?e"
    using assms(3) unfolding assms(4) by (simp_all add: b br pc)
  have "s \<noteq> []" using assms(3,4) by simp
  then obtain pool' where "buf_result ?e = (Some s, of_nat (length s), Some pool')" using roomy_result [OF e(2)] unfolding e(1) by blast
  then show ?thesis by (simp add: yep_finish_block_def Let_def)
qed

section \<open>The line memos\<close>

text \<open>A memo that carries the current line's number holds the current line; no memo is ahead of it.\<close>

definition coherent :: "yep_engine \<Rightarrow> bool" where
  "coherent e \<longleftrightarrow> en_facts_cache_line e \<le> en_line e \<and> en_li_cache_line e \<le> en_line e \<and> 0 < en_line e \<and>
     (en_facts_cache_line e = en_line e \<longrightarrow> en_facts_cache e = yep_scan_facts (en_p e) (en_line_start e)) \<and>
     (en_facts_cache_line e = en_line e \<longrightarrow> en_li_cache_line e = en_line e \<longrightarrow>
        en_li_cache e = yep_scan_line (en_p e) (en_line_start e))"

text \<open>The same engine but for the memos.\<close>

definition memo_only :: "yep_engine \<Rightarrow> yep_engine \<Rightarrow> bool" where
  "memo_only e e' \<longleftrightarrow> en_p e' = en_p e \<and> en_pos e' = en_pos e \<and> en_line e' = en_line e \<and> en_line_start e' = en_line_start e \<and>
     en_err e' = en_err e \<and> en_fold e' = en_fold e \<and> en_pool e' = en_pool e"

lemma line_info_here:
  assumes "coherent e"
  shows "\<exists>e'. e_line_info_here e = (yep_scan_line (en_p e) (en_line_start e), e') \<and> coherent e' \<and> memo_only e e'"
  using assms
  by (auto simp: e_line_info_here_def e_facts_here_def Let_def coherent_def memo_only_def yep_scan_line_def)

text \<open>Moving to the next line.\<close>

lemma coherent_next:
  assumes "coherent e" "unat (en_line e) + 1 < 2 ^ 32" "en_line e' = en_line e + 1"
    and "en_facts_cache_line e' = en_facts_cache_line e \<or> en_facts_cache_line e' = 0"
    and "en_li_cache_line e' = en_li_cache_line e \<or> en_li_cache_line e' = 0"
  shows "coherent e'"
proof -
  have "unat (en_line e + 1) = unat (en_line e) + 1" using assms(2) by (simp add: unat_word_ariths)
  then have lt: "en_line e < en_line e + 1" "0 < en_line e + 1" by (simp_all add: word_less_nat_alt)
  have "en_facts_cache_line e' \<le> en_line e" "en_li_cache_line e' \<le> en_line e"
    using assms(1,4,5) by (auto simp: coherent_def)
  then show ?thesis using lt assms(3) unfolding coherent_def by auto
qed

section \<open>One line of a block\<close>

lemma line_bytes:
  assumes "pos \<le> length p"
  shows "take (length (line_of p pos)) (drop pos p) = line_of p pos" "\<And>c. c \<in> set (line_of p pos) \<Longrightarrow> \<not> is_break c"
    "pos + length (line_of p pos) \<le> length p"
proof -
  show "take (length (line_of p pos)) (drop pos p) = line_of p pos" unfolding line_of_def by (simp add: takeWhile_eq_take [symmetric])
  show "\<And>c. c \<in> set (line_of p pos) \<Longrightarrow> \<not> is_break c"
    unfolding line_of_def by (auto simp: is_break_def is_brk_def dest: set_takeWhileD)
  show "pos + length (line_of p pos) \<le> length p" unfolding line_of_def by (rule line_end(1) [OF assms])
qed

lemma u32_nat: "n < 2 ^ 32 \<Longrightarrow> unat (of_nat n :: u32) = n"
  by (simp add: unsigned_of_nat take_bit_eq_mod)

lemma u32_signed: "n < 2 ^ 31 \<Longrightarrow> sint (of_nat n :: u32) = int n"
  by (simp add: signed_of_nat signed_take_bit_int_eq_self)

lemma view_line:
  assumes "pos \<le> length p" "length p < 2 ^ 32" "line_of p pos = a @ x"
  shows "view_at p (of_nat (pos + length a)) (of_nat (pos + length (line_of p pos)) - of_nat (pos + length a)) = x"
    "x \<noteq> [] \<Longrightarrow> (of_nat (pos + length a) :: u32) < of_nat (pos + length (line_of p pos))"
proof -
  let ?l = "line_of p pos"
  have len: "pos + length a + length x \<le> length p" using line_bytes(3) [OF assms(1)] assms(3) by simp
  have "(of_nat (pos + length ?l) :: u32) - of_nat (pos + length a) = of_nat (length x)" by (simp add: assms(3))
  moreover have "take (length x) (drop (pos + length a) p) = x"
  proof -
    have "take (length a + length x) (drop pos p) = a @ x" using line_bytes(1) [OF assms(1)] assms(3) by simp
    then have "drop (length a) (take (length a + length x) (drop pos p)) = x" by simp
    then show ?thesis by (simp add: drop_take add.commute)
  qed
  ultimately show "view_at p (of_nat (pos + length a)) (of_nat (pos + length ?l) - of_nat (pos + length a)) = x"
    unfolding view_at_def using len assms(2) by (simp only: u32_nat)
  show "x \<noteq> [] \<Longrightarrow> (of_nat (pos + length a) :: u32) < of_nat (pos + length ?l)"
    using len assms(2,3) by (simp add: word_less_nat_alt u32_nat del: of_nat_add)
qed

lemma push_line:
  assumes "pos \<le> length (en_p e)" "length (en_p e) < 2 ^ 32" "line_of (en_p e) pos = a @ x" "x \<noteq> []"
    and "length (en_fold e) < YEP_MAX_FOLD_LINES"
  shows "fold_push e b (of_nat (pos + length a)) (of_nat (pos + length (line_of (en_p e) pos))) deep reset =
    content_end (e\<lparr>en_fold := en_fold e @ [\<lparr>fl_content = x,
      fl_breaks_before = (if bv_saw b then bv_pending b + 1 else bv_pending b), fl_more_indented = deep\<rparr>]\<rparr>) b
      (pos + length (line_of (en_p e) pos)) reset"
proof -
  note v = view_line [OF assms(1-3)]
  have "unat (of_nat (pos + length (line_of (en_p e) pos)) :: u32) = pos + length (line_of (en_p e) pos)"
    using line_bytes(3) [OF assms(1)] assms(2) by (intro u32_nat) simp
  then show ?thesis unfolding fold_push_def Let_def using assms(5) v(1) v(2) [OF assms(4)] by simp
qed

lemma no_doc_flags:
  "f AND (YEP_LF_DOC_START OR YEP_LF_DOC_END OR YEP_LF_DIRECTIVE) = 0 \<Longrightarrow>
   f AND (YEP_LF_DOC_START OR YEP_LF_DOC_END) = 0 \<and> f AND YEP_LF_DIRECTIVE = 0"
  by (metis (no_types) bit.conj_disj_distrib or_eq_0_iff)

lemma depth_spaces: "x \<noteq> [] \<Longrightarrow> hd x \<noteq> 0x20 \<Longrightarrow> depth_of (replicate k 0x20 @ x) = k"
  by (cases x) (simp_all add: depth_of_def takeWhile_append)

lemma depth_ge: "k \<le> depth_of (replicate k 0x20 @ x)"
  by (simp add: depth_of_def takeWhile_append)

text \<open>A line with content behind the block's indent, of any of the three kinds.\<close>

lemma block_content:
  assumes e: "coherent e" "en_pos e = en_line_start e" "en_pos e \<le> length (en_p e)" "length (en_p e) < 2 ^ 31"
    and l: "line_of (en_p e) (en_pos e) = replicate k 0x20 @ x" "x \<noteq> []" and k: "0 < k" "rp < int k"
    and ci: "bv_content_indent b = int k \<or> bv_content_indent b < 0 \<and> hd x \<noteq> 0x20"
    and room: "length (en_fold e) < YEP_MAX_FOLD_LINES"
  shows "\<exists>e1 deep reset. coherent e1 \<and> memo_only e e1 \<and>
    block_step rp e b = content_end (e1\<lparr>en_fold := en_fold e @ [\<lparr>fl_content = x,
      fl_breaks_before = (if bv_saw b then bv_pending b + 1 else bv_pending b), fl_more_indented = deep\<rparr>]\<rparr>)
      (b\<lparr>bv_content_indent := int k\<rparr>) (en_pos e + length (line_of (en_p e) (en_pos e))) reset"
proof -
  let ?p = "en_p e" and ?pos = "en_pos e"
  let ?l = "line_of ?p ?pos" and ?li = "yep_scan_line ?p ?pos"
  define d where "d = depth_of ?l"
  obtain e1 where e1: "e_line_info_here e = (?li, e1)" "coherent e1" "memo_only e e1"
    using line_info_here [OF e(1)] e(2) by auto
  have len: "length ?p < 2 ^ 32" using e(4) by simp
  note at = scan_line_at [OF len e(3), folded d_def]
  have dk: "k \<le> d" "bv_content_indent b < 0 \<Longrightarrow> d = k"
    using depth_ge [of k x] depth_spaces [OF l(2), of k] ci k unfolding d_def l(1) by auto
  have d: "0 < d" "d < 2 ^ 31" using dk(1) k(1) at(6,7) e(4) by auto
  have ind: "sint (li_indent ?li) = int d" unfolding at(3) by (rule u32_signed [OF d(2)])
  have pos: "0 < li_indent ?li"
  proof -
    have "unat (li_indent ?li) = d" unfolding at(3) using d(2) by (intro u32_nat) simp
    then show ?thesis using d(1) by (simp add: word_less_nat_alt)
  qed
  have frm: "li_offset ?li + of_int (int k) = of_nat (?pos + length (replicate k (0x20 :: byte)))" unfolding at(1) by simp
  have en: "li_end ?li = of_nat (?pos + length ?l)" by (rule at(2))
  have m: "en_p e1 = ?p" "en_pos e1 = ?pos" "en_fold e1 = en_fold e" using e1(3) by (simp_all add: memo_only_def)
  have push: "fold_push e1 b' (of_nat (?pos + length (replicate k (0x20 :: byte)))) (of_nat (?pos + length ?l)) deep reset =
      content_end (e1\<lparr>en_fold := en_fold e @ [\<lparr>fl_content = x,
        fl_breaks_before = (if bv_saw b' then bv_pending b' + 1 else bv_pending b'), fl_more_indented = deep\<rparr>]\<rparr>) b'
        (?pos + length ?l) reset" for b' deep reset
    using push_line [of ?pos e1 "replicate k 0x20" x b' deep reset] e(3) len l room m by simp
  let ?b = "b\<lparr>bv_content_indent := int k\<rparr>"
  have b: "(if bv_content_indent b < 0 then b\<lparr>bv_content_indent := int d\<rparr> else b) = ?b" "bv_content_indent ?b = int k"
    using ci dk(2) by auto
  have go: "\<not> (bv_content_indent b < 0 \<and> int d \<le> rp)" "\<not> (0 \<le> bv_content_indent b \<and> int d \<le> rp)"
    "\<not> (0 \<le> bv_content_indent b \<and> int d < bv_content_indent b)"
    using ci dk(1) k by auto
  have step: "block_step rp e b =
      (if li_flags ?li AND YEP_LF_BLANK = 0 then
         if rp < 0 \<and> li_flags ?li AND (YEP_LF_DOC_START OR YEP_LF_DOC_END) \<noteq> 0 then Block_Stop e1 b
         else if bv_saw b \<and> rp < 0 \<and> li_flags ?li AND YEP_LF_DIRECTIVE \<noteq> 0 then Block_Stop e1 b
         else fold_push e1 ?b (of_nat (?pos + length (replicate k (0x20 :: byte)))) (of_nat (?pos + length ?l))
           (int k < int d \<or> (of_nat (?pos + length (replicate k (0x20 :: byte))) < (of_nat (?pos + length ?l) :: u32) \<and>
              is_blank (?p ! unat (of_nat (?pos + length (replicate k (0x20 :: byte))) :: u32)))) False
       else if 0x09 \<in> set (view_at ?p (li_offset ?li) (li_end ?li - li_offset ?li)) then
         fold_push e1 ?b (of_nat (?pos + length (replicate k (0x20 :: byte)))) (of_nat (?pos + length ?l)) True True
       else block_blank e1 b ?li (0x09 \<in> set (view_at ?p (li_offset ?li) (li_end ?li - li_offset ?li))))"
    unfolding block_step_def Let_def e(2) [symmetric] if_P [OF refl] e1(1) prod.case ind
    by (simp only: go b frm en m(1) pos if_False if_True simp_thms)
  show ?thesis
  proof (cases "\<forall>c \<in> set ?l. is_blank c")
    case False
    then have nb: "li_flags ?li AND YEP_LF_BLANK = 0" using at(4) by blast
    note no = no_doc_flags [OF at(5) [OF d(1)]]
    show ?thesis unfolding step using nb no push [of ?b] e1 by auto
  next
    case True
    then have nb: "li_flags ?li AND YEP_LF_BLANK \<noteq> 0" using at(4) by blast
    show ?thesis
    proof (cases "0x09 \<in> set (view_at ?p (li_offset ?li) (li_end ?li - li_offset ?li))")
      case tab: True
      show ?thesis unfolding step using nb tab push [of ?b] e1 by auto
    next
      case tab: False
      have v: "view_at ?p (li_offset ?li) (li_end ?li - li_offset ?li) = ?l"
        using view_line(1) [OF e(3) len, of "[]" ?l] at(1,2) by simp
      have sp: "\<forall>c \<in> set ?l. c = 0x20" using True tab unfolding v by (auto simp: is_blank_def)
      then have "hd x = 0x20" using l by (cases x) auto
      then have cik: "bv_content_indent b = int k" using ci by simp
      then have bb: "?b = b" by simp
      have "takeWhile (\<lambda>b. b = 0x20) ?l = ?l" using sp by (simp add: takeWhile_eq_all_conv)
      then have "d = length ?l" unfolding d_def depth_of_def by (rule arg_cong)
      then have "k < d" using l by simp
      then have "block_blank e1 b ?li False = fold_push e1 b (of_nat (?pos + length (replicate k (0x20 :: byte)))) (of_nat (?pos + length ?l)) True True"
        unfolding block_blank_def Let_def cik ind frm en by simp
      then show ?thesis unfolding step using nb tab push [of b True True] e1 bb by auto
    qed
  qed
qed

text \<open>A line of at most the indent's spaces.\<close>

lemma block_empty:
  assumes e: "coherent e" "en_pos e = en_line_start e" "en_pos e \<le> length (en_p e)" "length (en_p e) < 2 ^ 31"
    and l: "line_of (en_p e) (en_pos e) = replicate j 0x20" "j \<le> k" and ci: "bv_content_indent b = int k"
  shows "\<exists>e1. coherent e1 \<and> memo_only e e1 \<and>
    block_step rp e b = Block_More (e_line_done e1 (en_pos e + j))
      ((if \<not> bv_saw b then b\<lparr>bv_max_blank := max (bv_max_blank b) (int j)\<rparr> else b)\<lparr>bv_pending := bv_pending b + 1\<rparr>)"
proof -
  let ?p = "en_p e" and ?pos = "en_pos e"
  let ?l = "line_of ?p ?pos" and ?li = "yep_scan_line ?p ?pos"
  obtain e1 where e1: "e_line_info_here e = (?li, e1)" "coherent e1" "memo_only e e1"
    using line_info_here [OF e(1)] e(2) by auto
  have len: "length ?p < 2 ^ 32" using e(4) by simp
  have dj: "depth_of ?l = j" unfolding l(1) depth_of_def by (simp add: takeWhile_eq_all_conv)
  note at = scan_line_at [OF len e(3), unfolded dj]
  have lj: "length ?l = j" unfolding l(1) by simp
  have jb: "j < 2 ^ 31" "?pos + j \<le> length ?p" using at(6) e(4) unfolding lj by linarith+
  have ind: "sint (li_indent ?li) = int j" unfolding at(3) by (rule u32_signed [OF jb(1)])
  have en: "unat (li_end ?li) = ?pos + j" unfolding at(2) lj using jb(2) len by (intro u32_nat) simp
  have nb: "(li_flags ?li AND YEP_LF_BLANK = 0) = False" using at(4) unfolding l(1) by (auto simp: is_blank_def)
  have v: "view_at ?p (li_offset ?li) (li_end ?li - li_offset ?li) = ?l"
    using view_line(1) [OF e(3) len, of "[]" ?l] at(1,2) by simp
  have tab: "(0x09 \<in> set (view_at ?p (li_offset ?li) (li_end ?li - li_offset ?li))) = False" unfolding v l(1) by simp
  have more: "(0 \<le> int k \<and> int k < int j) = False" using l(2) by simp
  have m: "en_p e1 = ?p" using e1(3) by (simp add: memo_only_def)
  have "block_step rp e b = block_blank e1 b ?li False"
    unfolding block_step_def Let_def e(2) [symmetric] if_P [OF refl] e1(1) prod.case m nb tab by simp
  also have "\<dots> = Block_More (e_line_done e1 (?pos + j))
      ((if \<not> bv_saw b then b\<lparr>bv_max_blank := max (bv_max_blank b) (int j)\<rparr> else b)\<lparr>bv_pending := bv_pending b + 1\<rparr>)"
    unfolding block_blank_def Let_def ci ind more if_False en by simp
  finally show ?thesis using e1 by blast
qed

text \<open>A line that starts left of the block.\<close>

lemma block_dedent:
  assumes e: "coherent e" "en_pos e = en_line_start e" "en_pos e \<le> length (en_p e)" "length (en_p e) < 2 ^ 31"
    and l: "line_of (en_p e) (en_pos e) = replicate j 0x20 @ c # r" "\<not> is_blank c" "int j \<le> rp"
    and ci: "0 \<le> bv_content_indent b"
  shows "\<exists>e1. coherent e1 \<and> memo_only e e1 \<and> block_step rp e b = Block_Stop e1 b"
proof -
  let ?p = "en_p e" and ?pos = "en_pos e"
  let ?l = "line_of ?p ?pos" and ?li = "yep_scan_line ?p ?pos"
  obtain e1 where e1: "e_line_info_here e = (?li, e1)" "coherent e1" "memo_only e e1"
    using line_info_here [OF e(1)] e(2) by auto
  have len: "length ?p < 2 ^ 32" using e(4) by simp
  have dj: "depth_of ?l = j" using l(2) unfolding l(1) by (intro depth_spaces) (auto simp: is_blank_def)
  note at = scan_line_at [OF len e(3), unfolded dj]
  have "j < 2 ^ 31" using at(6,7) e(4) by linarith
  then have ind: "sint (li_indent ?li) = int j" unfolding at(3) by (rule u32_signed)
  have nb: "(li_flags ?li AND YEP_LF_BLANK = 0) = True" using at(4) l(2) unfolding l(1) by auto
  have "block_step rp e b = Block_Stop e1 b"
    unfolding block_step_def Let_def e(2) [symmetric] if_P [OF refl] e1(1) prod.case nb ind if_True
    using l(3) ci by simp
  then show ?thesis using e1 by blast
qed

text \<open>Behind the feed at \<open>at\<close> a new line begins.\<close>

definition at_line :: "yep_engine \<Rightarrow> byte list \<Rightarrow> nat \<Rightarrow> bool" where
  "at_line e p pos \<longleftrightarrow> coherent e \<and> en_p e = p \<and> en_pos e = pos \<and> en_line_start e = pos \<and> pos \<le> length p \<and> length p < 2 ^ 31 \<and>
     unat (en_line e) + (length p - pos) < 2 ^ 32"

lemma feed_len: "at < length p \<Longrightarrow> p ! at = 0x0A \<Longrightarrow> yep_scan_break_len p at = 1"
  by (simp add: yep_scan_break_len_def)

lemma next_line:
  assumes "coherent e1" "memo_only e e1" "at_line e p pos" "pos \<le> at" "at < length p" "p ! at = 0x0A"
    and "e' = e1\<lparr>en_fold := f, en_pos := at + 1, en_line := en_line e1 + 1, en_line_start := at + 1\<rparr> \<or>
      e' = e1\<lparr>en_fold := f, en_pos := at + 1, en_line := en_line e1 + 1, en_line_start := at + 1, en_li_cache_line := 0, en_shape_cache_line := 0\<rparr> \<or>
      e' = e1\<lparr>en_fold := f, en_pos := at + 1, en_line := en_line e1 + 1, en_line_start := at + 1, en_li_cache_line := 0,
        en_shape_cache_line := 0, en_facts_cache_line := 0\<rparr>"
  shows "at_line e' p (at + 1)"
proof -
  have a: "en_line e1 = en_line e" "en_p e1 = p" "length p < 2 ^ 31" "unat (en_line e) + (length p - pos) < 2 ^ 32"
    using assms(2,3) unfolding at_line_def memo_only_def by (blast | metis)+
  have l: "unat (en_line e1) + 1 < 2 ^ 32" unfolding a(1) using a(4) assms(4,5) by linarith
  then have u: "unat (en_line e1 + 1) = unat (en_line e1) + 1" by (simp add: unat_word_ariths)
  have b: "unat (en_line e) + 1 + (length p - (at + 1)) < 2 ^ 32" using a(4) assms(4,5) by linarith
  have "coherent e'" by (rule coherent_next [OF assms(1) l]) (use assms(7) in auto)
  then show ?thesis using assms(5,7) a(1-3) u b unfolding at_line_def by auto
qed

lemma loop_more: "en_pos e < length (en_p e) \<Longrightarrow> block_step rp e b = Block_More e' b' \<Longrightarrow> block_loop rp e b = block_loop rp e' b'"
  by (simp add: block_loop.simps [of rp e b])

text \<open>The line feeds behind the content, up to the end of the input or a line left of the block.\<close>

definition ends_block :: "int \<Rightarrow> byte list \<Rightarrow> bool" where
  "ends_block rp r \<longleftrightarrow> r = [] \<or> (\<exists>j c u. r = replicate j 0x20 @ c # u \<and> \<not> is_blank c \<and> \<not> is_break c \<and> int j \<le> rp)"

lemma read_tail:
  "at_line e p pos \<Longrightarrow> drop pos p = replicate n 0x0A @ r \<Longrightarrow> ends_block rp r \<Longrightarrow>
   bv_content_indent b = int k \<Longrightarrow> bv_saw b \<Longrightarrow>
   \<exists>e'. block_loop rp e b = Some (Inr (e', b\<lparr>bv_pending := bv_pending b + n\<rparr>)) \<and> coherent e' \<and> en_fold e' = en_fold e \<and>
     en_pool e' = en_pool e \<and> en_p e' = p \<and> en_pos e' = pos + n"
proof (induction n arbitrary: e pos b)
  case 0
  show ?case
  proof (cases "r = []")
    case True
    then have "\<not> en_pos e < length (en_p e)" using 0(1,2) by (simp add: at_line_def)
    then show ?thesis using 0(1) by (simp add: block_loop.simps [of rp e b] at_line_def)
  next
    case False
    then obtain j c u where r: "r = replicate j 0x20 @ c # u" "\<not> is_blank c" "\<not> is_break c" "int j \<le> rp"
      using 0(3) by (auto simp: ends_block_def)
    have "drop pos p = replicate j 0x20 @ c # u" using 0(2) r(1) by simp
    moreover have "\<not> is_brk c" "\<not> is_brk 0x20" using r(3) by (auto simp: is_break_def is_brk_def)
    ultimately have l: "line_of p pos = replicate j 0x20 @ c # takeWhile (\<lambda>b. \<not> is_brk b) u"
      by (simp add: line_of_def takeWhile_append)
    have "en_pos e < length (en_p e)" using 0(1,2) False by (cases "pos < length p") (auto simp: at_line_def)
    moreover obtain e1 where "coherent e1" "memo_only e e1" "block_step rp e b = Block_Stop e1 b"
      using block_dedent [of e j c "takeWhile (\<lambda>b. \<not> is_brk b) u" rp b] 0(1,4) l r by (auto simp: at_line_def)
    ultimately show ?thesis using 0(1) by (auto simp: block_loop.simps [of rp e b] at_line_def memo_only_def)
  qed
next
  case (Suc n)
  have pos: "pos < length p" using Suc.prems(2) by (cases "pos < length p") auto
  have feed: "p ! pos = 0x0A" using Suc.prems(2) pos by (metis append_Cons hd_drop_conv_nth list.sel(1) replicate_Suc)
  have d: "drop (pos + 1) p = replicate n 0x0A @ r"
    using Suc.prems(2) pos by (metis Suc_eq_plus1 append_Cons drop_Suc list.sel(3) replicate_Suc tl_drop)
  have l: "line_of p pos = replicate 0 0x20" using Suc.prems(2) by (simp add: line_of_def is_brk_def)
  obtain e1 where e1: "coherent e1" "memo_only e e1" "block_step rp e b = Block_More (e_line_done e1 pos) (b\<lparr>bv_pending := bv_pending b + 1\<rparr>)"
    using block_empty [of e 0 k b rp] Suc.prems(1,4,5) l by (auto simp: at_line_def)
  have ld: "e_line_done e1 pos = e1\<lparr>en_pos := pos + 1, en_line := en_line e1 + 1, en_line_start := pos + 1, en_li_cache_line := 0,
      en_shape_cache_line := 0, en_facts_cache_line := 0\<rparr>"
    using feed_len [OF pos feed] e1(2) Suc.prems(1) by (simp add: e_line_done_def memo_only_def at_line_def)
  have "at_line (e_line_done e1 pos) p (pos + 1)"
    by (rule next_line [OF e1(1,2) Suc.prems(1) order_refl pos feed, of _ "en_fold e1"]) (simp add: ld)
  from Suc.IH [OF this d Suc.prems(3), of "b\<lparr>bv_pending := bv_pending b + 1\<rparr>"] Suc.prems(4,5)
  obtain e' where "block_loop rp (e_line_done e1 pos) (b\<lparr>bv_pending := bv_pending b + 1\<rparr>) =
      Some (Inr (e', b\<lparr>bv_pending := bv_pending b + 1 + n\<rparr>))" "coherent e'" "en_fold e' = en_fold (e_line_done e1 pos)"
    "en_pool e' = en_pool (e_line_done e1 pos)" "en_p e' = p" "en_pos e' = pos + 1 + n" by auto
  moreover have "en_pos e < length (en_p e)" using Suc.prems(1) pos by (simp add: at_line_def)
  ultimately show ?case using loop_more [OF _ e1(3)] e1(2) by (auto simp: ld memo_only_def)
qed

section \<open>The block reader returns\<close>

text \<open>The engine between two lines: its memos hold, and the line counter has room for the lines left.\<close>

definition running :: "yep_engine \<Rightarrow> bool" where
  "running e \<longleftrightarrow> coherent e \<and> en_pos e \<le> length (en_p e) \<and> length (en_p e) < 2 ^ 32 \<and>
     unat (en_line e) + length (en_p e) < 2 ^ 32 + en_pos e"

definition went_on :: "yep_engine \<Rightarrow> yep_engine \<Rightarrow> bool" where
  "went_on e e' \<longleftrightarrow> running e' \<and> en_p e' = en_p e \<and> en_pos e < en_pos e'"

lemma running_memo: "running e \<Longrightarrow> memo_only e e1 \<Longrightarrow> coherent e1 \<Longrightarrow> running e1"
  unfolding running_def memo_only_def by (elim conjE) (simp only: simp_thms)

lemma running_fold: "running e \<Longrightarrow> running (e\<lparr>en_fold := f\<rparr>)"
  by (simp add: running_def coherent_def)

lemma break_step:
  assumes "pos \<le> length p" "pos < length p"
  defines "at \<equiv> pos + length (line_of p pos)"
  shows "at \<le> length p" "at + yep_scan_break_len p at \<le> length p" "pos < at + yep_scan_break_len p at"
    "yep_scan_break_len p at = 0 \<Longrightarrow> at = length p"
proof -
  note l = line_end [OF assms(1), folded line_of_def, folded at_def]
  show "at \<le> length p" by (rule l(1))
  show "at + yep_scan_break_len p at \<le> length p" using l(1) l(3)
    by (cases "at < length p") (auto simp: yep_scan_break_len_def is_brk_def)
  show z: "yep_scan_break_len p at = 0 \<Longrightarrow> at = length p" using l(1) l(3)
    by (cases "at < length p") (auto simp: yep_scan_break_len_def is_brk_def split: if_splits)
  show "pos < at + yep_scan_break_len p at"
    using z assms(2) unfolding at_def by (cases "yep_scan_break_len p at = 0") (auto simp: at_def)
qed

lemma next_running:
  assumes "running e" "en_line e' = en_line e + 1" "en_p e' = en_p e" "en_pos e < en_pos e'" "en_pos e' \<le> length (en_p e)"
    and "en_facts_cache_line e' = en_facts_cache_line e \<or> en_facts_cache_line e' = 0"
    and "en_li_cache_line e' = en_li_cache_line e \<or> en_li_cache_line e' = 0"
  shows "went_on e e'"
proof -
  have a: "coherent e" "length (en_p e) < 2 ^ 32" "unat (en_line e) + length (en_p e) < 2 ^ 32 + en_pos e"
    using assms(1) unfolding running_def by blast+
  have l: "unat (en_line e) + 1 < 2 ^ 32" using a(3) assms(4,5) by linarith
  then have u: "unat (en_line e + 1) = unat (en_line e) + 1" by (simp add: unat_word_ariths)
  have "unat (en_line e) + 1 + length (en_p e) < 2 ^ 32 + en_pos e'" using a(3) assms(4,5) by linarith
  moreover have "coherent e'" by (rule coherent_next [OF a(1) l assms(2,6,7)])
  ultimately show ?thesis unfolding went_on_def running_def assms(2,3) u using a(2) assms(4,5) by blast
qed

lemma same_running:
  assumes "running e" "e' = e\<lparr>en_pos := at\<rparr>" "en_pos e < at" "at \<le> length (en_p e)"
  shows "went_on e e'"
proof -
  have "unat (en_line e) + length (en_p e) < 2 ^ 32 + at" using assms(1,3) unfolding running_def by linarith
  then show ?thesis using assms unfolding went_on_def running_def by (simp add: coherent_def)
qed

lemma content_end_running:
  assumes "running e" "en_pos e < length (en_p e)"
  shows "\<exists>e' b'. content_end e b (en_pos e + length (line_of (en_p e) (en_pos e))) reset = Block_More e' b' \<and> went_on e e'"
proof -
  let ?at = "en_pos e + length (line_of (en_p e) (en_pos e))"
  note s = break_step [OF less_imp_le [OF assms(2)] assms(2)]
  show ?thesis
  proof (cases "yep_scan_break_len (en_p e) ?at = 0")
    case True
    then show ?thesis using same_running [OF assms(1) refl, of ?at] s(1,3)
      unfolding content_end_def Let_def by simp
  next
    case False
    let ?n = "?at + yep_scan_break_len (en_p e) ?at"
    let ?e = "e\<lparr>en_pos := ?n, en_line := en_line e + 1, en_line_start := ?n\<rparr>"
    have "went_on e (if reset then ?e\<lparr>en_li_cache_line := 0, en_shape_cache_line := 0\<rparr> else ?e)"
      by (rule next_running [OF assms(1)]) (use s(2,3) in simp_all)
    then show ?thesis using False unfolding content_end_def Let_def by simp
  qed
qed

lemma line_done_running:
  assumes "running e" "en_pos e < length (en_p e)"
  shows "went_on e (e_line_done e (en_pos e + length (line_of (en_p e) (en_pos e))))"
proof -
  let ?at = "en_pos e + length (line_of (en_p e) (en_pos e))"
  note s = break_step [OF less_imp_le [OF assms(2)] assms(2)]
  show ?thesis
  proof (cases "yep_scan_break_len (en_p e) ?at = 0")
    case True
    then show ?thesis using same_running [OF assms(1) refl, of ?at] s(1,3) by (simp add: e_line_done_def Let_def)
  next
    case False
    show ?thesis by (rule next_running [OF assms(1)]) (use s(2,3) False in \<open>simp_all add: e_line_done_def Let_def\<close>)
  qed
qed

lemma went_memo: "memo_only e e1 \<Longrightarrow> went_on e1 e' \<Longrightarrow> went_on e e'"
  unfolding went_on_def memo_only_def by (elim conjE) (simp only: simp_thms)

text \<open>A turn that goes on moves the cursor; one that fails reports the full fold array.\<close>

definition step_ok :: "yep_engine \<Rightarrow> block_next \<Rightarrow> bool" where
  "step_ok e n \<longleftrightarrow> (case n of Block_Stop e' b' \<Rightarrow> running e' \<and> en_p e' = en_p e \<and> en_pos e \<le> en_pos e'
     | Block_More e' b' \<Rightarrow> went_on e e' | Block_Fail e' \<Rightarrow> er_code (en_err e') = YEP_ERR_MEMORY)"

lemma push_running:
  assumes "running e" "en_pos e < length (en_p e)" "en = of_nat (en_pos e + length (line_of (en_p e) (en_pos e)))"
  shows "step_ok e (fold_push e b frm en deep reset)"
proof (cases "YEP_MAX_FOLD_LINES \<le> length (en_fold e)")
  case True
  then show ?thesis by (simp add: fold_push_def step_ok_def e_fail_def)
next
  case False
  have "en_pos e + length (line_of (en_p e) (en_pos e)) < 2 ^ 32"
    using break_step(1) [OF less_imp_le [OF assms(2)] assms(2)] assms(1) by (simp add: running_def)
  then have u: "unat en = en_pos e + length (line_of (en_p e) (en_pos e))" unfolding assms(3) by (rule u32_nat)
  let ?l = "\<lparr>fl_content = view_at (en_p e) frm (if frm < en then en - frm else 0),
     fl_breaks_before = (if bv_saw b then bv_pending b + 1 else bv_pending b), fl_more_indented = deep\<rparr>"
  let ?e = "e\<lparr>en_fold := en_fold e @ [?l]\<rparr>"
  obtain e' b' where r: "content_end ?e b (en_pos e + length (line_of (en_p e) (en_pos e))) reset = Block_More e' b'" "went_on ?e e'"
    using content_end_running [OF running_fold [OF assms(1)], of "en_fold e @ [?l]" b reset] assms(2) by auto
  then have "went_on e e'" by (simp add: went_on_def)
  then show ?thesis using False r(1) unfolding fold_push_def Let_def u by (simp add: step_ok_def)
qed

lemma step_memo: "memo_only e e1 \<Longrightarrow> step_ok e1 n \<Longrightarrow> step_ok e n"
proof -
  assume a: "memo_only e e1" "step_ok e1 n"
  then have "en_p e1 = en_p e" "en_pos e1 = en_pos e" by (simp_all add: memo_only_def)
  then show ?thesis using a(2) went_memo [OF a(1)] by (cases n) (simp_all add: step_ok_def)
qed

lemma block_step_running:
  assumes "running e" "en_pos e < length (en_p e)"
  shows "step_ok e (block_step rp e b)"
proof -
  let ?p = "en_p e" and ?pos = "en_pos e"
  let ?li = "yep_scan_line ?p ?pos"
  obtain e1 where e1: "(if en_pos e = en_line_start e then e_line_info_here e else (yep_scan_line (en_p e) (en_pos e), e)) = (?li, e1)"
      "coherent e1" "memo_only e e1"
  proof (cases "en_pos e = en_line_start e")
    case True
    have "coherent e" using assms(1) by (simp add: running_def)
    then show ?thesis using line_info_here [of e] True that by auto
  next
    case False
    have "coherent e" "memo_only e e" using assms(1) by (simp_all add: running_def memo_only_def)
    then show ?thesis using False that by simp
  qed
  note run1 = running_memo [OF assms(1) e1(3,2)]
  have m: "en_p e1 = ?p" "en_pos e1 = ?pos" using e1(3) by (simp_all add: memo_only_def)
  have len: "length ?p < 2 ^ 32" "?pos \<le> length ?p" using assms(1) by (simp_all add: running_def)
  have en: "li_end ?li = of_nat (en_pos e1 + length (line_of (en_p e1) (en_pos e1)))"
    unfolding m by (rule scan_line_at(2) [OF len])
  have eu: "unat (li_end ?li) = en_pos e1 + length (line_of (en_p e1) (en_pos e1))"
    unfolding en m using scan_line_at(6) [OF len] len(1) by (intro u32_nat) simp
  have go: "en_pos e1 < length (en_p e1)" using assms(2) m by simp
  note push = push_running [OF run1 go en]
  have stop: "step_ok e1 (Block_Stop e1 b')" for b' using run1 by (simp add: step_ok_def)
  have blank: "step_ok e1 (block_blank e1 b' ?li tab)" for b' tab
    using push line_done_running [OF run1 go] unfolding block_blank_def Let_def eu by (auto simp: step_ok_def)
  have "step_ok e1 (block_step rp e b)"
    unfolding block_step_def Let_def e1(1) prod.case using push stop blank by (simp split: if_split)
  then show ?thesis by (rule step_memo [OF e1(3)])
qed

lemma block_loop_returns:
  "running e \<Longrightarrow> \<exists>r. block_loop rp e b = Some r \<and>
     (case r of Inl e' \<Rightarrow> er_code (en_err e') = YEP_ERR_MEMORY | Inr (e', b') \<Rightarrow> running e' \<and> en_p e' = en_p e \<and> en_pos e \<le> en_pos e')"
proof (induction "length (en_p e) - en_pos e" arbitrary: e b rule: less_induct)
  case less
  show ?case
  proof (cases "en_pos e < length (en_p e)")
    case True
    have ok: "step_ok e (block_step rp e b)" by (rule block_step_running [OF less.prems True])
    show ?thesis
    proof (cases "block_step rp e b")
      case (Block_More e' b')
      then have w: "running e'" "en_p e' = en_p e" "en_pos e < en_pos e'" using ok by (simp_all add: step_ok_def went_on_def)
      then have "length (en_p e') - en_pos e' < length (en_p e) - en_pos e" using True by simp
      from less.hyps [OF this w(1), of b', unfolded w(2)] w(3)
      show ?thesis using Block_More True by (fastforce simp: block_loop.simps [of rp e b] split: sum.splits)
    qed (use ok True in \<open>simp_all add: block_loop.simps [of rp e b] step_ok_def\<close>)
  qed (use less.prems in \<open>simp add: block_loop.simps [of rp e b]\<close>)
qed

lemma header_running:
  "running e \<Longrightarrow> case block_header e h of
     Inl e' \<Rightarrow> er_code (en_err e') = YEP_ERR_UNEXPECTED
   | Inr (e', h') \<Rightarrow> running e' \<and> en_p e' = en_p e \<and> en_pos e \<le> en_pos e' \<and>
       (en_pos e' < length (en_p e) \<longrightarrow> is_break (en_p e ! en_pos e'))"
proof (induction e h rule: block_header.induct)
  case (1 e h)
  have skip: "running (e\<lparr>en_pos := en_pos e + 1\<rparr>)" if "en_pos e < length (en_p e)"
    using same_running [OF 1(5) refl, of "en_pos e + 1"] that by (simp add: went_on_def)
  let ?n = "en_pos e + length (takeWhile (\<lambda>c. \<not> is_break c) (drop (en_pos e) (en_p e)))"
  have eol: "running (e_skip_to_eol e)" "en_p (e_skip_to_eol e) = en_p e" "en_pos e \<le> en_pos (e_skip_to_eol e)"
    "en_pos (e_skip_to_eol e) < length (en_p e) \<Longrightarrow> is_break (en_p e ! en_pos (e_skip_to_eol e))"
  proof -
    have le: "?n \<le> length (en_p e)"
      using length_takeWhile_le [of "\<lambda>c. \<not> is_break c" "drop (en_pos e) (en_p e)"] 1(5) by (simp add: running_def) linarith
    have "e_skip_to_eol e = e \<or> went_on e (e_skip_to_eol e)"
      using same_running [OF 1(5) refl, of ?n] le by (cases "en_pos e < ?n") (auto simp: e_skip_to_eol_def)
    then show "running (e_skip_to_eol e)" "en_p (e_skip_to_eol e) = en_p e" "en_pos e \<le> en_pos (e_skip_to_eol e)"
      using 1(5) by (auto simp: went_on_def e_skip_to_eol_def)
    show "is_break (en_p e ! en_pos (e_skip_to_eol e))" if "en_pos (e_skip_to_eol e) < length (en_p e)"
      using nth_length_takeWhile [of "\<lambda>c. \<not> is_break c" "drop (en_pos e) (en_p e)"] that by (simp add: e_skip_to_eol_def)
  qed
  have up: "(case x of Inl e' \<Rightarrow> er_code (en_err e') = YEP_ERR_UNEXPECTED
     | Inr (e', h') \<Rightarrow> running e' \<and> en_p e' = en_p (e\<lparr>en_pos := en_pos e + 1\<rparr>) \<and> en_pos (e\<lparr>en_pos := en_pos e + 1\<rparr>) \<le> en_pos e' \<and>
       (en_pos e' < length (en_p (e\<lparr>en_pos := en_pos e + 1\<rparr>)) \<longrightarrow> is_break (en_p (e\<lparr>en_pos := en_pos e + 1\<rparr>) ! en_pos e'))) \<Longrightarrow>
     (case x of Inl e' \<Rightarrow> er_code (en_err e') = YEP_ERR_UNEXPECTED
     | Inr (e', h') \<Rightarrow> running e' \<and> en_p e' = en_p e \<and> en_pos e \<le> en_pos e' \<and>
       (en_pos e' < length (en_p e) \<longrightarrow> is_break (en_p e ! en_pos e')))" for x :: "yep_engine + yep_engine \<times> block_head"
    by (auto split: sum.splits)
  show ?case
  proof (cases "en_pos e < length (en_p e) \<and> \<not> is_break (en_p e ! en_pos e)")
    case False
    then show ?thesis using 1(5) by (auto simp: block_header.simps [of e h])
  next
    case True
    note sk = skip [OF conjunct1 [OF True]]
    let ?c = "en_p e ! en_pos e"
    consider "is_blank ?c" | "\<not> is_blank ?c" "e_comment_at e"
      | "\<not> is_blank ?c" "\<not> e_comment_at e" "bh_blank h \<or> (?c = 0x2D \<and> bh_chomp h \<noteq> 0) \<or> (?c = 0x2B \<and> bh_chomp h \<noteq> 0) \<or>
          (0x31 \<le> ?c \<and> ?c \<le> 0x39 \<and> bh_digit h)"
      | "\<not> is_blank ?c" "\<not> e_comment_at e" "\<not> (bh_blank h \<or> (?c = 0x2D \<and> bh_chomp h \<noteq> 0) \<or> (?c = 0x2B \<and> bh_chomp h \<noteq> 0) \<or>
          (0x31 \<le> ?c \<and> ?c \<le> 0x39 \<and> bh_digit h))" by blast
    then show ?thesis
    proof cases
      case 1
      note a = this
      show ?thesis using up [OF "1.IH"(1) [OF True refl a sk]] True a by (subst block_header.simps) simp
    next
      case 2
      then show ?thesis using True eol by (subst block_header.simps) simp
    next
      case 3
      then show ?thesis using True unfolding block_header.simps [of e h] Let_def by (simp only: if_True if_False simp_thms) (simp add: e_fail_def)
    next
      case 4
      note a = this
      show ?thesis
      proof (cases "?c = 0x2D")
        case t: True
        show ?thesis using up [OF "1.IH"(2) [OF True refl a(1-3) t sk]] True a t
          unfolding block_header.simps [of e h] Let_def by (simp only: if_True if_False simp_thms)
      next
        case f: False
        show ?thesis
        proof (cases "?c = 0x2B")
          case t: True
          show ?thesis using up [OF "1.IH"(3) [OF True refl a(1-3) f t sk]] True a f t
            unfolding block_header.simps [of e h] Let_def by (simp only: if_True if_False simp_thms)
        next
          case f2: False
          show ?thesis
          proof (cases "0x31 \<le> ?c \<and> ?c \<le> 0x39")
            case t: True
            show ?thesis using up [OF "1.IH"(4) [OF True refl a(1-3) f f2 t sk]] True a f f2 t
              unfolding block_header.simps [of e h] Let_def by (simp only: if_True if_False simp_thms)
          next
            case f3: False
            show ?thesis using True a f f2 f3
              unfolding block_header.simps [of e h] Let_def by (simp only: if_True if_False simp_thms) (simp add: e_fail_def)
          qed
        qed
      qed
    qed
  qed
qed

lemma block_scalar_total:
  assumes "running e" "en_pos e < length (en_p e)"
  shows "\<exists>rc e' ev'. e_block_scalar sys e ev rp = Some (rc, e', ev') \<and>
    (rc = 0 \<and> running e' \<and> en_p e' = en_p e \<and> en_pos e < en_pos e' \<or>
     rc = - 1 \<and> er_code (en_err e') \<in> {YEP_ERR_UNEXPECTED, YEP_ERR_MEMORY, YEP_ERR_BAD_INDENT})"
proof -
  let ?e = "e\<lparr>en_pos := en_pos e + 1\<rparr>" and ?h = "\<lparr>bh_chomp = 0, bh_indent = 0, bh_digit = False, bh_blank = False\<rparr>"
  have "went_on e ?e" using same_running [OF assms(1) refl, of "en_pos e + 1"] assms(2) by simp
  then have r0: "running ?e" by (simp add: went_on_def)
  note hd = header_running [OF r0, of ?h]
  show ?thesis
  proof (cases "block_header ?e ?h")
    case (Inl e1)
    then show ?thesis using hd by (simp add: e_block_scalar_def Let_def)
  next
    case (Inr x)
    obtain e1 h where x: "x = (e1, h)" by (cases x)
    have e1: "running e1" "en_p e1 = en_p e" "en_pos e < en_pos e1"
      "en_pos e1 < length (en_p e) \<Longrightarrow> is_break (en_p e ! en_pos e1)" using hd Inr x by auto
    define e2 where "e2 = (e_line_done e1 (en_pos e1))\<lparr>en_fold := []\<rparr>"
    have e2: "running e2" "en_p e2 = en_p e" "en_pos e < en_pos e2"
    proof -
      have "running (e_line_done e1 (en_pos e1)) \<and> en_p (e_line_done e1 (en_pos e1)) = en_p e \<and> en_pos e < en_pos (e_line_done e1 (en_pos e1))"
      proof (cases "en_pos e1 < length (en_p e)")
        case True
        have "line_of (en_p e1) (en_pos e1) = []"
          using e1(4) [OF True] True e1(2) unfolding line_of_def
          by (metis Cons_nth_drop_Suc is_break_def is_brk_def takeWhile.simps(2))
        then have "went_on e1 (e_line_done e1 (en_pos e1))" using line_done_running [OF e1(1)] True e1(2) by simp
        then show ?thesis using e1 by (simp add: went_on_def)
      next
        case False
        then have "yep_scan_break_len (en_p e1) (en_pos e1) = 0" using e1(2) by (simp add: yep_scan_break_len_def)
        then have "e_line_done e1 (en_pos e1) = e1" by (simp add: e_line_done_def Let_def)
        then show ?thesis using e1 by simp
      qed
      then show "running e2" "en_p e2 = en_p e" "en_pos e < en_pos e2" by (simp_all add: e2_def running_fold)
    qed
    let ?ci = "if bh_indent h \<noteq> 0 then (if rp < 0 then bh_indent h else rp + bh_indent h) else - 1"
    let ?b = "\<lparr>bv_content_indent = ?ci, bv_pending = 0, bv_trailing = 0, bv_saw = False, bv_blank_tab = False, bv_max_blank = - 1\<rparr>"
    obtain r where r: "block_loop rp e2 ?b = Some r"
      "case r of Inl e' \<Rightarrow> er_code (en_err e') = YEP_ERR_MEMORY | Inr (e', b') \<Rightarrow> running e' \<and> en_p e' = en_p e2 \<and> en_pos e2 \<le> en_pos e'"
      using block_loop_returns [OF e2(1)] by blast
    have eq: "e_block_scalar sys e ev rp = (case r of Inl e' \<Rightarrow> Some (- 1, e', ev)
        | Inr (e', b') \<Rightarrow> Some (block_finish sys (en_p e ! en_pos e = 0x3E) (bh_chomp h) e' b' ev))"
      unfolding e_block_scalar_def Let_def Inr x sum.case prod.case e2_def [symmetric] r(1) by simp
    show ?thesis
    proof (cases r)
      case (Inl e')
      then show ?thesis using eq r(2) by simp
    next
      case (Inr y)
      obtain e3 b3 where y: "y = (e3, b3)" by (cases y)
      have e3: "running e3" "en_p e3 = en_p e" "en_pos e < en_pos e3" using r(2) Inr y e2 by auto
      have pool: "running (with_pool e3 pl)" "en_p (with_pool e3 pl) = en_p e" "en_pos e < en_pos (with_pool e3 pl)" for pl
        using e3 by (auto simp: with_pool_def running_def coherent_def split: option.split)
      have "\<exists>rc e' ev'. block_finish sys (en_p e ! en_pos e = 0x3E) (bh_chomp h) e3 b3 ev = (rc, e', ev') \<and>
          (rc = 0 \<and> running e' \<and> en_p e' = en_p e \<and> en_pos e < en_pos e' \<or>
           rc = - 1 \<and> er_code (en_err e') \<in> {YEP_ERR_UNEXPECTED, YEP_ERR_MEMORY, YEP_ERR_BAD_INDENT})"
        unfolding block_finish_def Let_def using pool
        by (auto simp: e_fail_def split: prod.split)
      then show ?thesis using eq Inr y by auto
    qed
  qed
qed

section \<open>Property\<close>

text \<open>
  C11. The block scalar reader returns on every input: each turn of its loop moves the cursor to a
  later line. It succeeds with the cursor moved, the line memos coherent and the line counter in
  range, or fails with one of three errors (bad header, more lines than the fold array holds, a
  leading blank line deeper than the text).
\<close>

theorem block_scalar_returns:
  assumes "running e" "en_pos e < length (en_p e)"
  shows "\<exists>rc e' ev'. e_block_scalar sys e ev rp = Some (rc, e', ev') \<and>
    (rc = 0 \<and> running e' \<and> en_p e' = en_p e \<and> en_pos e < en_pos e' \<or>
     rc = - 1 \<and> er_code (en_err e') \<in> {YEP_ERR_UNEXPECTED, YEP_ERR_MEMORY, YEP_ERR_BAD_INDENT})"
  by (rule block_scalar_total [OF assms])

text \<open>An engine at the start of a run, and an allocator that grants everything.\<close>

definition fresh_engine :: "byte list \<Rightarrow> nat \<Rightarrow> yep_engine" where
  "fresh_engine p pos = \<lparr>en_p = p, en_pos = pos, en_line = 1, en_line_start = 0,
     en_facts_cache = \<lparr>lf_end = 0, lf_indent = 0, lf_stop = 0, lf_stop_set = False\<rparr>, en_facts_cache_line = 0,
     en_li_cache = \<lparr>li_offset = 0, li_end = 0, li_indent = 0, li_flags = 0, li_first = 0\<rparr>, en_li_cache_line = 0,
     en_shape_cache_line = 0, en_err = \<lparr>er_code = YEP_ERR_NONE, er_line = 0, er_col = 0, er_offset = 0\<rparr>, en_fold = [],
     en_pool = \<lparr>pl_chain = [], pl_block_size = 4096, pl_blocks = 0\<rparr>\<rparr>"

definition fresh_event :: yep_event where
  "fresh_event = \<lparr>ev_value = None, ev_len = 0, ev_style = YEP_STYLE_ANY, ev_multiline = False, ev_borrowed = False,
     ev_end_line = 0, ev_end_col = 0\<rparr>"

definition kind_sys :: yep_allocator where
  "kind_sys = (\<lambda>_ _. Some 0x1000)"

theorem block_scalar_returns_witness:
  "\<exists>rc e' ev'. e_block_scalar kind_sys (fresh_engine [0x7C, 0x78] 0) fresh_event 0 = Some (rc, e', ev')"
proof -
  have "running (fresh_engine [0x7C, 0x78] 0)" by (simp add: fresh_engine_def running_def coherent_def)
  moreover have "en_pos (fresh_engine [0x7C, 0x78] 0) < length (en_p (fresh_engine [0x7C, 0x78] 0))" by (simp add: fresh_engine_def)
  ultimately show ?thesis using block_scalar_returns [of "fresh_engine [0x7C, 0x78] 0" kind_sys fresh_event 0] by blast
qed

end
