(* ===== verification/Restore_Facts.thy ===== *)
theory Restore_Facts
  imports Reader_Facts Emit_Facts
begin

text \<open>
  Written scalars are read back: the emitter's quoted and literal forms, taken from the output
  of the growing writer, go through the engine's readers and come out as the text that was written.
\<close>

section \<open>Quoted scalars\<close>

lemma quoted_lines_skip:
  assumes "i < en" "i < length p" "\<not> is_break (p ! i)"
  shows "quoted_lines p mi enforce en i ml br = quoted_lines p mi enforce en (i + 1) ml br"
proof -
  let ?find = "\<lambda>i. yep_text_stopset_find_scalar yep_break_stopset (take (en - i) (drop i p))"
  have "take (en - i) (drop i p) = p ! i # take (en - (i + 1)) (drop (i + 1) p)"
    using assms(1,2) by (simp add: Cons_nth_drop_Suc [symmetric] take_Cons' del: Cons_nth_drop_Suc)
  then have f: "?find i = map_option Suc (?find (i + 1))"
    using assms(3) by (simp add: yep_text_stopset_find_scalar_def break_stopset is_break_def find_loop_shift)
  show ?thesis
  proof (cases "?find (i + 1)")
    case None
    then show ?thesis using f assms(1)
      by (simp add: quoted_lines.simps [of p mi enforce en i] quoted_lines.simps [of p mi enforce en "Suc i"])
  next
    case (Some r)
    then have "i + 1 < en" using break_found(1) [OF Some] by simp
    then show ?thesis using f Some assms(1)
      by (simp add: quoted_lines.simps [of p mi enforce en i] quoted_lines.simps [of p mi enforce en "Suc i"] Let_def)
  qed
qed

lemma quoted_lines_end: "quoted_lines p mi enforce en en ml br = Inr (ml, br)"
  by (simp add: quoted_lines.simps)

lemma quoted_lines_break:
  assumes "i < en" "i < length p" "p ! i = 0x0A"
    and "li_flags (yep_scan_line p (i + 1)) AND (YEP_LF_DOC_START OR YEP_LF_DOC_END OR YEP_LF_DIRECTIVE) = 0"
    and "enforce \<Longrightarrow> mi < li_indent (yep_scan_line p (i + 1))"
  shows "quoted_lines p mi enforce en i ml br = quoted_lines p mi enforce en (i + 1) True (br + 1)"
proof -
  have "take (en - i) (drop i p) = p ! i # take (en - (i + 1)) (drop (i + 1) p)"
    using assms(1,2) by (simp add: Cons_nth_drop_Suc [symmetric] take_Cons' del: Cons_nth_drop_Suc)
  then have f: "yep_text_stopset_find_scalar yep_break_stopset (take (en - i) (drop i p)) = Some 0"
    using assms(3) by (simp add: yep_text_stopset_find_scalar_def break_stopset is_break_def)
  have b: "yep_scan_break_len p i = 1" using assms(2,3) by (simp add: yep_scan_break_len_def)
  have ni: "\<not> (enforce \<and> li_flags (yep_scan_line p (i + 1)) AND YEP_LF_BLANK = 0 \<and> li_indent (yep_scan_line p (i + 1)) \<le> mi)"
    using assms(5) by (auto simp: not_le)
  have z: "i + 0 = i" by simp
  show ?thesis
    by (subst quoted_lines.simps) (simp only: assms(1,3,4) f option.case b Let_def ni if_True if_False z simp_thms refl)
qed

text \<open>The first line of an indented text.\<close>

lemma indented_line:
  assumes "p = pre @ replicate k 0x20 @ c # r" "length p < 2 ^ 32" "c \<noteq> 0x20" "\<not> is_break c"
  shows "line_of p (length pre) = replicate k 0x20 @ c # takeWhile (\<lambda>b. \<not> is_brk b) r" "depth_of (line_of p (length pre)) = k"
proof -
  have "\<not> is_brk c" "\<not> is_brk 0x20" using assms(4) by (auto simp: is_break_def is_brk_def)
  then show l: "line_of p (length pre) = replicate k 0x20 @ c # takeWhile (\<lambda>b. \<not> is_brk b) r"
    using assms(1) by (simp add: line_of_def takeWhile_append)
  show "depth_of (line_of p (length pre)) = k"
    using assms(3) unfolding l depth_of_def by (simp add: takeWhile_append)
qed

lemma quoted_lines_written:
  "sq_written k v b t \<Longrightarrow> length (pre @ b @ 0x27 # post) < 2 ^ 32 \<Longrightarrow> en = length pre + length b \<Longrightarrow>
   (0x0A \<in> set b \<Longrightarrow> 0 < k \<and> (enforce \<longrightarrow> unat mi < k)) \<Longrightarrow>
   quoted_lines (pre @ b @ 0x27 # post) mi enforce en (length pre) ml br = Inr (ml \<or> 0x0A \<in> set b, br + count_list b 0x0A)"
proof (induction arbitrary: pre ml br rule: sq_written.induct)
  case (sqw_nil v)
  then show ?case by (simp add: quoted_lines_end)
next
  case (sqw_raw c b t v)
  have "quoted_lines (pre @ (c # b) @ 0x27 # post) mi enforce en (length pre) ml br =
      quoted_lines (pre @ (c # b) @ 0x27 # post) mi enforce en (length pre + 1) ml br"
    using sqw_raw(2,3) sqw_raw.prems(2) by (intro quoted_lines_skip) (auto simp: nth_append is_break_def)
  then show ?case using sqw_raw.IH [of "pre @ [c]" ml br] sqw_raw(2) sqw_raw.prems by auto
next
  case (sqw_quote b t v)
  let ?p = "pre @ (0x27 # 0x27 # b) @ 0x27 # post"
  have "quoted_lines ?p mi enforce en (length pre) ml br = quoted_lines ?p mi enforce en (length pre + 1) ml br"
    "quoted_lines ?p mi enforce en (length pre + 1) ml br = quoted_lines ?p mi enforce en (length pre + 1 + 1) ml br"
    using sqw_quote.prems(2) by (intro quoted_lines_skip; auto simp: nth_append nth_Cons' is_break_def)+
  then show ?case using sqw_quote.IH [of "pre @ [0x27, 0x27]" ml br] sqw_quote.prems by simp
next
  case (sqw_fold v t b)
  let ?q = "pre @ [0x0A]" and ?p = "pre @ (0x0A # replicate k 0x20 @ b) @ 0x27 # post"
  have h: "b \<noteq> []" "hd b = hd t" "hd b \<noteq> 0x0A" "hd b \<noteq> 0x0D"
    using sq_written_head [OF sqw_fold(6,3,4)] by blast+
  have p: "?p = ?q @ replicate k 0x20 @ hd b # (tl b @ 0x27 # post)" using h(1) by simp
  have c: "hd b \<noteq> 0x20" "\<not> is_break (hd b)" "\<not> is_blank (hd b)"
    using h sqw_fold(4,5) unfolding is_break_def is_blank_def by metis+
  note l = indented_line [OF p sqw_fold.prems(1) c(1,2)]
  have k: "0 < k" "enforce \<Longrightarrow> unat mi < k" using sqw_fold.prems(3) by simp_all
  have pos: "length ?q \<le> length ?p" by simp
  note at = scan_line_at [OF sqw_fold.prems(1) pos, unfolded l(2)]
  have ku: "unat (of_nat k :: u32) = k"
    using sqw_fold.prems(1) by (simp add: unsigned_of_nat take_bit_eq_mod del: of_nat_add)
  have "quoted_lines ?p mi enforce en (length pre) ml br = quoted_lines ?p mi enforce en (length pre + 1) True (br + 1)"
  proof (rule quoted_lines_break)
    show "li_flags (yep_scan_line ?p (length pre + 1)) AND (YEP_LF_DOC_START OR YEP_LF_DOC_END OR YEP_LF_DIRECTIVE) = 0"
      using at(5) k(1) by simp
    show "mi < li_indent (yep_scan_line ?p (length pre + 1))" if enforce
    proof -
      have "unat mi < unat (of_nat k :: u32)" using k(2) [OF that] ku by simp
      then have "mi < of_nat k" by (simp only: word_less_nat_alt)
      then show ?thesis using at(3) by simp
    qed
  qed (use sqw_fold.prems(2) in \<open>simp_all add: nth_append\<close>)
  also have "\<dots> = quoted_lines ?p mi enforce en (length pre + 1 + k) True (br + 1)"
  proof -
    have "j \<le> k \<Longrightarrow> quoted_lines ?p mi enforce en (length pre + 1) True (br + 1) = quoted_lines ?p mi enforce en (length pre + 1 + j) True (br + 1)" for j
    proof (induction j)
      case (Suc j)
      have "quoted_lines ?p mi enforce en (length pre + 1 + j) True (br + 1) = quoted_lines ?p mi enforce en (length pre + 1 + j + 1) True (br + 1)"
        using Suc.prems sqw_fold.prems(2) by (intro quoted_lines_skip) (auto simp: nth_append is_break_def)
      then show ?case using Suc by simp
    qed simp
    then show ?thesis by blast
  qed
  finally show ?case using sqw_fold.IH [of "pre @ 0x0A # replicate k 0x20" True "br + 1"] sqw_fold.prems k by simp
qed

lemma hex_cp_code:
  assumes "\<And>k. k < length ds \<Longrightarrow> p ! (i + k) = ds ! k"
  shows "hex_cp p i (length ds) = hex_code ds"
proof -
  have "hex_code ds = hex_code (map (\<lambda>k. p ! (i + k)) [0..<length ds])"
    using assms by (intro arg_cong [where f = hex_code] nth_equalityI) simp_all
  then show ?thesis by (simp add: hex_code_def hex_cp_def foldl_map)
qed

lemma letter_escapes:
  "simple_escape l = Some d \<or> wide_escape l = Some y \<Longrightarrow>
   l \<in> set (bytes_of ''0abt'' @ [0x09] @ bytes_of ''nvfre '' @ [0x22, 0x2F, 0x5C] @ bytes_of ''N_LP'') \<and>
   \<not> (l = 0x78 \<or> l = 0x75 \<or> l = 0x55) \<and> \<not> is_break l"
  by (elim disjE) (auto simp: simple_escape_def wide_escape_def is_break_def split: if_splits)

lemma escape_check_written:
  assumes "escape_for x y" "length pre + length x \<le> en"
  shows "escape_check (pre @ x @ r) en (length pre) = Inr (length pre + length x)"
proof -
  obtain l ds where x: "x = 0x5C # l # ds" "list_all is_hex ds" using escape_shape [OF assms(1)] by blast
  let ?p = "pre @ x @ r"
  have l: "?p ! (length pre + 1) = l" by (simp add: x nth_append)
  show ?thesis
  proof (cases "ds = []")
    case True
    then have "simple_escape l \<noteq> None \<or> wide_escape l = Some y"
      using assms(1) by (cases "simple_escape l") (auto simp: x)
    then have c: "l \<in> set (bytes_of ''0abt'' @ [0x09] @ bytes_of ''nvfre '' @ [0x22, 0x2F, 0x5C] @ bytes_of ''N_LP'')"
      "\<not> (l = 0x78 \<or> l = 0x75 \<or> l = 0x55)" "\<not> is_break l"
      using letter_escapes by blast+
    show ?thesis unfolding escape_check_def Let_def l using c by (simp only: if_False if_True) (simp add: x True)
  next
    case False
    define n where "n = length ds"
    have n: "l = 0x78 \<and> n = 2 \<or> l = 0x75 \<and> n = 4" and code: "\<not> (0xD800 \<le> hex_code ds \<and> hex_code ds \<le> 0xDFFF)"
      using assms(1) False by (simp_all add: x n_def)
    have at: "?p ! (length pre + 2 + k) = ds ! k" if "k < n" for k
      using that by (simp add: x n_def nth_append)
    have "\<not> (\<exists>k \<in> set [1..<n + 1]. \<not> yep_ct_is (?p ! (length pre + 1 + k)) YEP_CT_HEXDIGIT)"
    proof (rule notI, elim bexE)
      fix k assume k: "k \<in> set [1..<n + 1]" "\<not> yep_ct_is (?p ! (length pre + 1 + k)) YEP_CT_HEXDIGIT"
      then have "?p ! (length pre + 1 + k) = ds ! (k - 1)" "k - 1 < n" using at [of "k - 1"] by auto
      then show False using k(2) x(2) by (simp add: n_def list_all_length ct_is_class)
    qed
    then have f: "find (\<lambda>k. \<not> yep_ct_is (?p ! (length pre + 1 + k)) YEP_CT_HEXDIGIT) [1..<n + 1] = None"
      unfolding find_None_iff by blast
    have len: "length pre + 1 + n < en" "length pre + length x = length pre + 1 + n + 1" using assms(2) by (simp_all add: x n_def)
    have need: "(if l = 0x78 then 2 else if l = 0x75 then 4 else 8) = n" using n by auto
    have u: "l = 0x78 \<or> l = 0x75 \<or> l = 0x55" "l \<noteq> 0x55" using n by auto
    have cp: "l = 0x75 \<Longrightarrow> hex_cp ?p (length pre + 2) 4 = hex_code ds"
      using hex_cp_code [of ds ?p "length pre + 2"] at n by (auto simp: n_def)
    have ns: "\<not> (l = 0x75 \<and> 0xD800 \<le> hex_cp ?p (length pre + 2) 4 \<and> hex_cp ?p (length pre + 2) 4 \<le> 0xDBFF)"
      "\<not> (l = 0x75 \<and> 0xDC00 \<le> hex_cp ?p (length pre + 2) 4 \<and> hex_cp ?p (length pre + 2) 4 \<le> 0xDFFF)"
    proof -
      have "c \<le> 0xDBFF \<Longrightarrow> c \<le> 0xDFFF" "0xDC00 \<le> c \<Longrightarrow> 0xD800 \<le> c" for c :: u32 by (simp_all add: word_le_nat_alt)
      then show "\<not> (l = 0x75 \<and> 0xD800 \<le> hex_cp ?p (length pre + 2) 4 \<and> hex_cp ?p (length pre + 2) 4 \<le> 0xDBFF)"
        "\<not> (l = 0x75 \<and> 0xDC00 \<le> hex_cp ?p (length pre + 2) 4 \<and> hex_cp ?p (length pre + 2) 4 \<le> 0xDFFF)"
        using code cp by metis+
    qed
    have le: "\<not> en \<le> length pre + 1 + n" using len(1) by simp
    show ?thesis unfolding escape_check_def Let_def l need f len(2) option.case
      using u ns le by (simp only: if_True if_False simp_thms)
  qed
qed

lemma escapes_skip: "i < en \<Longrightarrow> p ! i \<noteq> 0x5C \<Longrightarrow> escapes_ok p en i = escapes_ok p en (i + 1)"
  by (simp add: escapes_ok.simps [of p en i])

lemma escapes_written:
  "dq_written b t \<Longrightarrow> en = length pre + length b \<Longrightarrow> escapes_ok (pre @ b @ post) en (length pre) = None"
proof (induction arbitrary: pre rule: dq_written.induct)
  case dqw_nil
  then show ?case by (simp add: escapes_ok.simps)
next
  case (dqw_raw c b t)
  then have "escapes_ok (pre @ (c # b) @ post) en (length pre) = escapes_ok (pre @ (c # b) @ post) en (length pre + 1)"
    by (intro escapes_skip) (auto simp: dq_clean_def)
  then show ?case using dqw_raw.IH [of "pre @ [c]"] dqw_raw.prems by simp
next
  case (dqw_escape x y b t)
  obtain l ds where x: "x = 0x5C # l # ds" using escape_shape [OF dqw_escape(1)] by blast
  have "escape_check (pre @ x @ (b @ post)) en (length pre) = Inr (length pre + length x)"
    using dqw_escape.prems by (intro escape_check_written [OF dqw_escape(1)]) simp
  moreover have "(pre @ x @ b @ post) ! length pre = 0x5C" by (simp add: x)
  moreover have "length pre + 1 < en" using dqw_escape.prems by (simp add: x)
  ultimately have "escapes_ok (pre @ x @ b @ post) en (length pre) = escapes_ok (pre @ x @ b @ post) en (length pre + length x)"
    by (subst escapes_ok.simps) simp
  then show ?case using dqw_escape.IH [of "pre @ x"] dqw_escape.prems by simp
qed

lemma escape_nonempty: "escape_for x y \<Longrightarrow> y \<noteq> []"
  by (cases "(x, y)" rule: escape_for.cases)
    (auto simp: wide_escape_def yep_emit_cp_def split: if_splits option.splits)

text \<open>What the double-quoted finish returns for a written text.\<close>

lemma double_value:
  assumes "dq_written b t" "en_p e = pre @ b @ 0x22 # rest" "start = length pre" "en = length pre + length b"
    and "grants sys (en_pool e) 256 (Suc k)" "length t \<le> 256 * 2 ^ k"
  shows "\<exists>e' ev'. quoted_value sys e 0x22 start en (0x5C \<in> set b) False ev = (0, e', ev') \<and> ev_value ev' = Some t \<and>
    ev_len ev' = of_nat (length t) \<and> ev_style ev' = YEP_STYLE_DOUBLE_QUOTED \<and> (\<exists>pool. e' = e\<lparr>en_pool := pool\<rparr>)"
proof (cases "0x5C \<in> set b")
  case False
  moreover have "\<exists>pool. e = e\<lparr>en_pool := pool\<rparr>" by (rule exI [of _ "en_pool e"]) simp
  ultimately show ?thesis using dq_written_plain [OF assms(1)] assms(2-4) by (simp add: quoted_value_def borrow_def)
next
  case True
  have t: "t \<noteq> []" using assms(1) True
  proof (induction rule: dq_written.induct)
    case (dqw_escape x y b t)
    then show ?case using escape_nonempty by blast
  qed auto
  note g = grows_to_new [OF assms(5,6)]
  let ?b = "finish_double_body sys (en_p e) en False start 0 (buf_new (Some (en_pool e)) 0)"
  have body: "bf_data ?b = t" "grows_to sys (length t) ?b"
    using decode_written [OF assms(1,4) g, where fl = 0 and post = "0x22 # rest"] assms(2,3) by (simp_all add: buf_new_def)
  have "bf_cap ?b \<noteq> 0" using body t by (auto simp: grows_to_def)
  moreover obtain pool where "bf_pool ?b = Some pool" using body(2) by (auto simp: grows_to_def)
  ultimately have "yep_finish_double sys (en_p e) start en False (en_pool e) = (Some t, of_nat (length t), Some pool)"
    using body(1) by (simp add: yep_finish_double_def buf_result_def)
  then show ?thesis using True by (auto simp: quoted_value_def with_pool_def Let_def)
qed

lemma sq_written_plain: "sq_written k v b t \<Longrightarrow> 0x0A \<notin> set b \<Longrightarrow> 0x27 \<notin> set b \<Longrightarrow> t = b"
  by (induction rule: sq_written.induct) auto

lemma sq_written_pair:
  "sq_written k v b t \<Longrightarrow> 0x27 \<in> set b \<Longrightarrow> \<exists>b1 b2. b = b1 @ 0x27 # 0x27 # b2"
proof (induction rule: sq_written.induct)
  case (sqw_raw c b t v)
  then obtain b1 b2 where "b = b1 @ 0x27 # 0x27 # b2" by auto
  then show ?case by (intro exI [of _ "c # b1"] exI [of _ b2]) simp
next
  case (sqw_quote b t v)
  show ?case by (intro exI [of _ "[]"] exI [of _ b]) simp
next
  case (sqw_fold v t b)
  then obtain b1 b2 where "b = b1 @ 0x27 # 0x27 # b2" by auto
  then show ?case by (intro exI [of _ "0x0A # replicate k 0x20 @ b1"] exI [of _ b2]) simp
qed simp

lemma sq_written_nil: "sq_written k v b [] \<Longrightarrow> b = []"
  by (cases rule: sq_written.cases) auto

lemma single_value:
  assumes "sq_written n v b t" "en_p e = pre @ b @ 0x27 # rest" "start = length pre" "en = length pre + length b"
    and "grants sys (en_pool e) 256 (Suc k)" "length t \<le> 256 * 2 ^ k"
  shows "\<exists>e' ev'. quoted_value sys e 0x27 start en esc (0x0A \<in> set b) ev = (0, e', ev') \<and> ev_value ev' = Some t \<and>
    ev_len ev' = of_nat (length t) \<and> ev_style ev' = YEP_STYLE_SINGLE_QUOTED \<and> (\<exists>pool. e' = e\<lparr>en_pool := pool\<rparr>)"
proof -
  let ?pair = "list_ex (\<lambda>i. quote_pair (en_p e) i en) [start..<en]"
  have same: "\<exists>pool. e = e\<lparr>en_pool := pool\<rparr>" by (rule exI [of _ "en_pool e"]) simp
  have pair: "?pair" if q: "0x27 \<in> set b"
  proof -
    obtain b1 b2 where b: "b = b1 @ 0x27 # 0x27 # b2" using sq_written_pair [OF assms(1) q] by blast
    have "quote_pair (en_p e) (length pre + length b1) en" unfolding quote_pair_def assms(2,4) b by (simp add: nth_append)
    then show ?thesis using b assms(3,4) unfolding list_ex_iff by (intro bexI [of _ "length pre + length b1"]) auto
  qed
  show ?thesis
  proof (cases "\<not> ?pair \<and> 0x0A \<notin> set b")
    case True
    then have "t = b" using pair sq_written_plain [OF assms(1)] by blast
    then show ?thesis using True assms(2-4) same
      by (simp add: quoted_value_def yep_finish_single_def borrow_def Let_def)
  next
    case False
    note g = grows_to_new [OF assms(5,6)]
    let ?b = "finish_single_body sys (en_p e) en (0x0A \<in> set b) start (buf_new (Some (en_pool e)) 0)"
    have body: "bf_data ?b = t" "grows_to sys (length t) ?b"
      using sq_decode [OF assms(1,4) g, where ml = "0x0A \<in> set b" and post = rest] assms(2,3) by (simp_all add: buf_new_def)
    have "b \<noteq> []" using False assms(3,4) by auto
    then have "t \<noteq> []" using assms(1) sq_written_nil by blast
    then have "bf_cap ?b \<noteq> 0" using body by (auto simp: grows_to_def)
    moreover obtain pool where "bf_pool ?b = Some pool" using body(2) by (auto simp: grows_to_def)
    ultimately have "yep_finish_single sys (en_p e) start en (0x0A \<in> set b) (en_pool e) = Some (Some t, of_nat (length t), Some pool)"
      using body(1) False by (auto simp: yep_finish_single_def buf_result_def)
    then show ?thesis by (auto simp: quoted_value_def with_pool_def Let_def)
  qed
qed

lemma quoted_read:
  assumes "en_p e = pre @ q # b @ q # rest" "en_pos e = length pre" "length (en_p e) < 2 ^ 32"
    and scan: "quote_scan_loop q (b @ q # rest) 0 False = (Some (length b), esc)"
    and lines: "quoted_lines (en_p e) mi enforce (length pre + 1 + length b) (length pre + 1) False 0 = Inr (ml, br)"
    and esc: "q = 0x22 \<Longrightarrow> escapes_ok (en_p e) (length pre + 1 + length b) (length pre + 1) = None"
    and val: "quoted_value sys e q (length pre + 1) (length pre + 1 + length b) esc ml ev = (0, e', ev')"
    and same: "e' = e\<lparr>en_pool := pool\<rparr>"
  shows "\<exists>e2 ev2. e_quoted_floor sys e ev mi enforce = (0, e2, ev2) \<and> ev_value ev2 = ev_value ev' \<and> ev_len ev2 = ev_len ev' \<and>
    ev_style ev2 = ev_style ev' \<and> en_pos e2 = skip_blanks (en_p e) (length pre + 2 + length b) (length (en_p e)) \<and>
    en_line e2 = en_line e + of_nat br"
proof -
  have len: "length pre + 1 + length b < 2 ^ 32" "length pre + 1 < 2 ^ 32" using assms(1,3) by simp_all
  then have tr: "u32_trunc (length pre + 1) = length pre + 1" "u32_trunc (length pre + 1 + length b) = length pre + 1 + length b"
    by (simp_all only: u32_trunc_def mod_less)
  have at: "en_p e ! length pre = q" using assms(1) by (simp add: nth_append)
  have d: "drop (length pre + 1) (en_p e) = b @ q # rest" using assms(1) by simp
  have s: "yep_text_quote_scan_scalar (b @ q # rest) q = (Some (length b), esc)"
    using scan by (simp add: yep_text_quote_scan_scalar_def)
  have eo: "(if q = 0x22 \<and> esc then escapes_ok (en_p e) (length pre + 1 + length b) (length pre + 1) else None) = None"
    using esc by simp
  show ?thesis
    unfolding e_quoted_floor_def Let_def assms(2) at d s prod.case option.case tr lines sum.case eo val
    by (simp add: set_end_def e_skip_inline_space_def same)
qed

lemma quoted_lines_clean:
  "(\<And>c. c \<in> set b \<Longrightarrow> \<not> is_break c) \<Longrightarrow>
   quoted_lines (pre @ b @ post) mi enforce (length pre + length b) (length pre) ml br = Inr (ml, br)"
proof (induction b arbitrary: pre)
  case (Cons c b)
  have "quoted_lines (pre @ (c # b) @ post) mi enforce (length pre + length (c # b)) (length pre) ml br =
      quoted_lines (pre @ (c # b) @ post) mi enforce (length pre + length (c # b)) (length pre + 1) ml br"
    using Cons.prems by (intro quoted_lines_skip) (auto simp: nth_append)
  then show ?case using Cons.IH [of "pre @ [c]"] Cons.prems by simp
qed (simp add: quoted_lines_end)

lemma double_quotes_read:
  assumes "growing env w" "emit_routed env YEP_SC_DQ s parent_col as_key w = Some w'" "all_out w' = all_out w @ q"
    and "en_p e = pre @ q @ rest" "en_pos e = length pre" "length (en_p e) < 2 ^ 32"
    and "grants sys (en_pool e) 256 (Suc k)" "length s \<le> 256 * 2 ^ k"
  shows "\<exists>e' ev'. e_quoted_floor sys e ev min_indent enforce = (0, e', ev') \<and> ev_value ev' = Some s \<and>
    ev_len ev' = of_nat (length s) \<and> ev_style ev' = YEP_STYLE_DOUBLE_QUOTED \<and>
    en_pos e' = skip_blanks (en_p e) (length pre + length q) (length (en_p e)) \<and> en_line e' = en_line e"
proof -
  define b where "b = ops_bytes (dq_ops [] s)"
  have q: "q = 0x22 # b @ [0x22]" using written_text [OF assms(1-3)] by (simp add: routed_text_def b_def)
  have w: "dq_written b s" using dq_ops_written [of "[]" s] by (simp add: b_def)
  have p: "en_p e = pre @ 0x22 # b @ 0x22 # rest" using assms(4) q by simp
  have p': "en_p e = (pre @ [0x22]) @ b @ 0x22 # rest" using p by simp
  have pos: "length pre + 1 = length (pre @ [0x22])" "length pre + 1 + length b = length (pre @ [0x22]) + length b" by simp_all
  have scan: "quote_scan_loop 0x22 (b @ 0x22 # rest) 0 False = (Some (length b), 0x5C \<in> set b)"
    using quote_scan_written [OF w, of rest 0 False] by simp
  have lines: "quoted_lines (en_p e) min_indent enforce (length pre + 1 + length b) (length pre + 1) False 0 = Inr (False, 0)"
    unfolding p' pos by (rule quoted_lines_clean) (use dq_written_clean [OF w] in \<open>auto simp: is_break_def\<close>)
  have esc: "escapes_ok (en_p e) (length pre + 1 + length b) (length pre + 1) = None"
    unfolding p' pos by (rule escapes_written [OF w refl])
  obtain e1 ev1 pool where v: "quoted_value sys e 0x22 (length pre + 1) (length pre + 1 + length b) (0x5C \<in> set b) False ev = (0, e1, ev1)"
    "ev_value ev1 = Some s" "ev_len ev1 = of_nat (length s)" "ev_style ev1 = YEP_STYLE_DOUBLE_QUOTED" "e1 = e\<lparr>en_pool := pool\<rparr>"
    using double_value [OF w p' pos assms(7,8), of ev] by blast
  show ?thesis
    using quoted_read [OF p assms(5,6) scan lines esc v(1,5)] v(2-4) q by (auto simp: add.assoc)
qed

lemma single_quotes_read:
  assumes "growing env w" "emit_routed env YEP_SC_SQ s parent_col as_key w = Some w'" "all_out w' = all_out w @ q"
    and "0x0A \<notin> set s" "0x0D \<notin> set s" "w_block_fold w \<Longrightarrow> 0x09 \<notin> set s"
    and "w_block_fold w \<Longrightarrow> 0 < parent_col + w_indent w" "w_block_fold w \<Longrightarrow> enforce \<Longrightarrow> unat min_indent < nat (parent_col + w_indent w)"
    and "en_p e = pre @ q @ rest" "rest = [] \<or> hd rest \<noteq> 0x27" "en_pos e = length pre" "length (en_p e) < 2 ^ 32"
    and "grants sys (en_pool e) 256 (Suc k)" "length s \<le> 256 * 2 ^ k"
  shows "\<exists>e' ev'. e_quoted_floor sys e ev min_indent enforce = (0, e', ev') \<and> ev_value ev' = Some s \<and>
    ev_len ev' = of_nat (length s) \<and> ev_style ev' = YEP_STYLE_SINGLE_QUOTED \<and>
    en_pos e' = skip_blanks (en_p e) (length pre + length q) (length (en_p e)) \<and>
    en_line e' = en_line e + of_nat (count_list q 0x0A)"
proof -
  let ?fc = "parent_col + w_indent w"
  define fold where "fold = (w_block_fold w \<and> \<not> as_key \<and> \<not> w_in_flow w \<and> s \<noteq> [])"
  define b where "b = (if fold then fold_text s (w_best_width w) ?fc True 0 0 (w_col w + 1) else single_text s)"
  have q: "q = 0x27 # b @ [0x27]" using written_text [OF assms(1-3)] by (auto simp: routed_text_def b_def fold_def Let_def)
  have w: "sq_written (nat ?fc) 0x20 b s"
  proof (cases fold)
    case True
    then show ?thesis using fold_text_written [of s 0 0 "0x20" ?fc "w_best_width w" "w_col w + 1"] assms(4-6)
      by (simp add: b_def fold_def)
  qed (simp add: b_def single_text_written assms(4,5))
  have deep: "0x0A \<in> set b \<Longrightarrow> fold"
    using assms(4) by (auto simp: b_def single_text_def sq_ops_def ops_bytes_def op_bytes_def split: if_splits)
  have p: "en_p e = pre @ 0x27 # b @ 0x27 # rest" using assms(9) q by simp
  have p': "en_p e = (pre @ [0x27]) @ b @ 0x27 # rest" using p by simp
  have pos: "length pre + 1 = length (pre @ [0x27])" "length pre + 1 + length b = length (pre @ [0x27]) + length b" by simp_all
  have scan: "quote_scan_loop 0x27 (b @ 0x27 # rest) 0 False = (Some (length b), 0x27 \<in> set s)"
    using quote_scan_sq_written [OF w assms(10), of 0 False] by simp
  have "quoted_lines ((pre @ [0x27]) @ b @ 0x27 # rest) min_indent enforce (length pre + 1 + length b) (length (pre @ [0x27])) False 0 =
      Inr (False \<or> 0x0A \<in> set b, 0 + count_list b 0x0A)"
    using assms(7,8,12) deep unfolding fold_def by (intro quoted_lines_written [OF w]) (auto simp: p)
  then have lines: "quoted_lines (en_p e) min_indent enforce (length pre + 1 + length b) (length pre + 1) False 0 =
      Inr (0x0A \<in> set b, count_list b 0x0A)"
    unfolding p' by simp
  obtain e1 ev1 pool where v: "quoted_value sys e 0x27 (length pre + 1) (length pre + 1 + length b) (0x27 \<in> set s) (0x0A \<in> set b) ev = (0, e1, ev1)"
    "ev_value ev1 = Some s" "ev_len ev1 = of_nat (length s)" "ev_style ev1 = YEP_STYLE_SINGLE_QUOTED" "e1 = e\<lparr>en_pool := pool\<rparr>"
    using single_value [OF w p' pos assms(13,14), of "0x27 \<in> set s" ev] by blast
  have n: "(0x27 :: byte) = 0x22 \<Longrightarrow> escapes_ok (en_p e) (length pre + 1 + length b) (length pre + 1) = None" by simp
  show ?thesis
    using quoted_read [OF p assms(11,12) scan lines n v(1,5)] v(2-4) q by (auto simp: add.assoc count_list_append)
qed

section \<open>Literal blocks\<close>

text \<open>The body of a literal block as it is written: a line that is not empty is padded.\<close>

fun pad_body :: "nat \<Rightarrow> byte list \<Rightarrow> byte list" where
  "pad_body k [] = []"
| "pad_body k (c # s) = c # (if c = 0x0A \<and> s \<noteq> [] \<and> hd s \<noteq> 0x0A then replicate k 0x20 else []) @ pad_body k s"

lemma pad_line: "0x0A \<notin> set l \<Longrightarrow> pad_body k (l @ r) = l @ pad_body k r"
  by (induction l) auto

text \<open>One content line: the loop goes on behind it.\<close>

lemma content_step:
  assumes "at_line e p pos" "line_of p pos = replicate k 0x20 @ x" "x \<noteq> []" "0 < k" "rp < int k"
    and "bv_content_indent b = int k \<or> bv_content_indent b < 0 \<and> hd x \<noteq> 0x20" "length (en_fold e) < YEP_MAX_FOLD_LINES"
    and "n = pos + k + length x" "n < length p \<Longrightarrow> p ! n = 0x0A"
  shows "\<exists>e' deep. block_loop rp e b = block_loop rp e'
      (b\<lparr>bv_content_indent := int k, bv_saw := True, bv_pending := 0, bv_trailing := (if n < length p then 1 else 0)\<rparr>) \<and>
    en_fold e' = en_fold e @ [\<lparr>fl_content = x,
      fl_breaks_before = (if bv_saw b then bv_pending b + 1 else bv_pending b), fl_more_indented = deep\<rparr>] \<and>
    en_pool e' = en_pool e \<and> en_p e' = p \<and> en_pos e' = (if n < length p then n + 1 else n) \<and>
    (n < length p \<longrightarrow> at_line e' p (n + 1)) \<and> (\<not> n < length p \<longrightarrow> coherent e')"
proof -
  have a: "coherent e" "en_p e = p" "en_pos e = pos" "en_pos e = en_line_start e" "en_pos e \<le> length (en_p e)" "length (en_p e) < 2 ^ 31"
    using assms(1) unfolding at_line_def by simp_all
  have l: "line_of (en_p e) (en_pos e) = replicate k 0x20 @ x" using assms(2) a by simp
  obtain e1 deep reset where e1: "coherent e1" "memo_only e e1"
    "block_step rp e b = content_end (e1\<lparr>en_fold := en_fold e @ [\<lparr>fl_content = x,
      fl_breaks_before = (if bv_saw b then bv_pending b + 1 else bv_pending b), fl_more_indented = deep\<rparr>]\<rparr>)
      (b\<lparr>bv_content_indent := int k\<rparr>) n reset"
    using block_content [OF a(1,4,5,6) l assms(3-7)] l assms(8) a(3) by (auto simp: add.assoc)
  have m: "en_p e1 = p" "en_pool e1 = en_pool e" using e1(2) a(2) by (simp_all add: memo_only_def)
  have npos: "pos < length p" "pos \<le> n" "n \<le> length p"
    using assms(3,8) line_bytes(3) [of pos p] assms(1,2) by (auto simp: at_line_def neq_Nil_conv)
  have go: "en_pos e < length (en_p e)" using a npos by simp
  define F where "F = en_fold e @ [\<lparr>fl_content = x,
      fl_breaks_before = (if bv_saw b then bv_pending b + 1 else bv_pending b), fl_more_indented = deep\<rparr>]"
  show ?thesis
  proof (cases "n < length p")
    case True
    have br: "yep_scan_break_len p n = 1" by (rule feed_len [OF True assms(9) [OF True]])
    let ?e = "e1\<lparr>en_fold := F, en_pos := n + 1, en_line := en_line e1 + 1, en_line_start := n + 1\<rparr>"
    let ?e' = "if reset then ?e\<lparr>en_li_cache_line := 0, en_shape_cache_line := 0\<rparr> else ?e"
    have "block_step rp e b = Block_More ?e' (b\<lparr>bv_content_indent := int k, bv_saw := True, bv_pending := 0, bv_trailing := 1\<rparr>)"
      unfolding e1(3) F_def [symmetric] content_end_def Let_def using br m by (cases reset) simp_all
    from loop_more [OF go this]
    have "block_loop rp e b = block_loop rp ?e' (b\<lparr>bv_content_indent := int k, bv_saw := True, bv_pending := 0, bv_trailing := 1\<rparr>)" .
    moreover have "at_line ?e' p (n + 1)"
      by (rule next_line [OF e1(1,2) assms(1) npos(2) True assms(9) [OF True], of _ F]) auto
    ultimately show ?thesis using True m unfolding F_def [symmetric]
      by (intro exI [of _ ?e'] exI [of _ deep]) (simp add: F_def)
  next
    case False
    then have br: "yep_scan_break_len p n = 0" by (simp add: yep_scan_break_len_def)
    let ?e' = "e1\<lparr>en_fold := F, en_pos := n\<rparr>"
    have "block_step rp e b = Block_More ?e' (b\<lparr>bv_content_indent := int k, bv_saw := True, bv_pending := 0, bv_trailing := 0\<rparr>)"
      unfolding e1(3) F_def [symmetric] content_end_def Let_def using br m by simp
    from loop_more [OF go this]
    have "block_loop rp e b = block_loop rp ?e' (b\<lparr>bv_content_indent := int k, bv_saw := True, bv_pending := 0, bv_trailing := 0\<rparr>)" .
    moreover have "coherent ?e'" using e1(1) by (simp add: coherent_def)
    ultimately show ?thesis using False m by (intro exI [of _ ?e'] exI [of _ deep]) (simp add: F_def)
  qed
qed

definition block_done :: "yep_engine \<Rightarrow> block_vars \<Rightarrow> nat \<Rightarrow> nat \<Rightarrow> byte list \<Rightarrow> yep_engine \<Rightarrow> byte list \<Rightarrow> nat \<Rightarrow> bool" where
  "block_done e' b' k m p e t pos \<longleftrightarrow>
     coherent e' \<and> lit_text (en_fold e') = lit_text (en_fold e) @ t \<and> bv_saw b' \<and> bv_content_indent b' = int k \<and>
     bv_trailing b' + bv_pending b' = m \<and> bv_max_blank b' \<le> int k \<and> en_pool e' = en_pool e \<and> en_p e' = p \<and> en_pos e' = pos"

lemma read_body:
  "s \<noteq> [] \<Longrightarrow> last s \<noteq> 0x0A \<Longrightarrow> 0x0D \<notin> set s \<Longrightarrow> at_line e p (length pre) \<Longrightarrow>
   p = pre @ (if padded then replicate k 0x20 else []) @ pad_body k s @ replicate m 0x0A @ r \<Longrightarrow> (hd s \<noteq> 0x0A \<Longrightarrow> padded) \<Longrightarrow>
   0 < k \<Longrightarrow> rp < int k \<Longrightarrow> ends_block rp r \<Longrightarrow> (m = 0 \<Longrightarrow> r = []) \<Longrightarrow>
   bv_content_indent b = int k \<or> bv_content_indent b < 0 \<and> hd s \<noteq> 0x0A \<and> hd s \<noteq> 0x20 \<Longrightarrow>
   bv_max_blank b \<le> int k \<Longrightarrow> length (en_fold e) + count_list s 0x0A < YEP_MAX_FOLD_LINES \<Longrightarrow>
   \<exists>e' b'. block_loop rp e b = Some (Inr (e', b')) \<and>
     block_done e' b' k m p e (replicate (bv_pending b + (if bv_saw b then 1 else 0)) 0x0A @ s) (length p - length r)"
proof (induction "length s" arbitrary: s e pre padded b rule: less_induct)
  case less
  let ?pads = "if padded then replicate k 0x20 else [] :: byte list"
  show ?case
  proof (cases "hd s = 0x0A")
    case True
    then obtain s' where s: "s = 0x0A # s'" "s' \<noteq> []" using less.prems(1,2) by (cases s) (auto split: if_splits)
    let ?pads' = "if hd s' \<noteq> 0x0A then replicate k 0x20 else [] :: byte list"
    define at where "at = length pre + length ?pads"
    have p: "p = (pre @ ?pads) @ 0x0A # ?pads' @ pad_body k s' @ replicate m 0x0A @ r" using less.prems(5) s by simp
    have ci: "bv_content_indent b = int k" using less.prems(11) True by simp
    have l: "line_of p (length pre) = replicate (length ?pads) 0x20"
      unfolding line_of_def p by (simp add: is_brk_def takeWhile_append)
    have pk: "length ?pads \<le> k" and atge: "length pre \<le> at" by (simp_all add: at_def)
    obtain e1 where e1: "coherent e1" "memo_only e e1" "block_step rp e b = Block_More (e_line_done e1 at)
        ((if \<not> bv_saw b then b\<lparr>bv_max_blank := max (bv_max_blank b) (int (length ?pads))\<rparr> else b)\<lparr>bv_pending := bv_pending b + 1\<rparr>)"
      using block_empty [of e "length ?pads" k b rp] less.prems(4) l ci pk by (auto simp: at_line_def at_def)
    let ?b = "(if \<not> bv_saw b then b\<lparr>bv_max_blank := max (bv_max_blank b) (int (length ?pads))\<rparr> else b)\<lparr>bv_pending := bv_pending b + 1\<rparr>"
    have feed: "at < length p" "p ! at = 0x0A" unfolding at_def p by (simp_all add: nth_append)
    have ep: "en_p e1 = p" "en_fold e1 = en_fold e" "en_pool e1 = en_pool e"
      using e1(2) less.prems(4) by (simp_all add: memo_only_def at_line_def)
    have ld: "e_line_done e1 at = e1\<lparr>en_pos := at + 1, en_line := en_line e1 + 1, en_line_start := at + 1, en_li_cache_line := 0,
        en_shape_cache_line := 0, en_facts_cache_line := 0\<rparr>"
      using feed_len [OF feed] ep by (simp add: e_line_done_def)
    have "at_line (e_line_done e1 at) p (at + 1)"
      by (rule next_line [OF e1(1,2) less.prems(4) atge feed, of _ "en_fold e1"]) (simp add: ld)
    moreover have "at + 1 = length (pre @ ?pads @ [0x0A])" by (simp add: at_def)
    ultimately have next_at: "at_line (e_line_done e1 at) p (length (pre @ ?pads @ [0x0A]))" by simp
    have p': "p = (pre @ ?pads @ [0x0A]) @ ?pads' @ pad_body k s' @ replicate m 0x0A @ r" using p by simp
    have "\<exists>e' b'. block_loop rp (e_line_done e1 at) ?b = Some (Inr (e', b')) \<and>
        block_done e' b' k m p (e_line_done e1 at) (replicate (bv_pending ?b + (if bv_saw ?b then 1 else 0)) 0x0A @ s') (length p - length r)"
      using less.prems s ci
      by (intro less.hyps [OF _ _ _ _ next_at p' _ less.prems(7-10)]) (auto simp: ld ep)
    then obtain e' b' where r: "block_loop rp (e_line_done e1 at) ?b = Some (Inr (e', b'))"
        "block_done e' b' k m p (e_line_done e1 at) (replicate (bv_pending ?b + (if bv_saw ?b then 1 else 0)) 0x0A @ s') (length p - length r)"
      by blast
    have t: "replicate (bv_pending ?b + (if bv_saw ?b then 1 else 0)) 0x0A @ s' = replicate (bv_pending b + (if bv_saw b then 1 else 0)) 0x0A @ s"
      unfolding s(1) by (simp add: replicate_app_Cons_same)
    have "en_pos e < length (en_p e)" using less.prems(4) feed(1) by (simp add: at_line_def at_def)
    from loop_more [OF this e1(3)] r(1) have "block_loop rp e b = Some (Inr (e', b'))" by simp
    moreover have "block_done e' b' k m p e (replicate (bv_pending b + (if bv_saw b then 1 else 0)) 0x0A @ s) (length p - length r)"
      using r(2) unfolding t by (simp add: block_done_def ld ep)
    ultimately show ?thesis by blast
  next
    case False
    define x where "x = takeWhile (\<lambda>c. c \<noteq> 0x0A) s"
    have x: "x \<noteq> []" "hd x = hd s" "0x0A \<notin> set x" using False less.prems(1) by (cases s; auto simp: x_def dest: set_takeWhileD)+
    have pads: "?pads = replicate k 0x20" using less.prems(6) False by simp
    define n where "n = length pre + k + length x"
    define B where "B = b\<lparr>bv_content_indent := int k, bv_saw := True, bv_pending := 0\<rparr>"
    have cut: "s = x \<or> (\<exists>s'. s = x @ 0x0A # s')"
      using takeWhile_dropWhile_id [of "\<lambda>c. c \<noteq> 0x0A" s] hd_dropWhile [of "\<lambda>c. c \<noteq> 0x0A" s]
      unfolding x_def by (metis append_Nil2 list.exhaust_sel)
    have xs: "set x \<subseteq> set s" unfolding x_def by (auto dest: set_takeWhileD)
    have clean: "\<not> is_brk c" if "c \<in> set x" for c using that x(3) xs less.prems(3) by (auto simp: is_brk_def)
    have ci: "bv_content_indent b = int k \<or> bv_content_indent b < 0 \<and> hd x \<noteq> 0x20" using less.prems(11) x(2) by auto
    have room: "length (en_fold e) < YEP_MAX_FOLD_LINES" using less.prems(13) by simp
    have line: "line_of p (length pre) = replicate k 0x20 @ x" "n \<le> length p" "n < length p \<Longrightarrow> p ! n = 0x0A" "n < length p \<longleftrightarrow> s \<noteq> x \<or> 0 < m"
    proof -
      obtain u where u: "p = pre @ replicate k 0x20 @ x @ u" "u = [] \<or> hd u = 0x0A" "u \<noteq> [] \<longleftrightarrow> s \<noteq> x \<or> 0 < m"
      proof (cases "s = x")
        case True
        have "replicate m 0x0A @ r = [] \<or> hd (replicate m 0x0A @ r) = 0x0A" using less.prems(10) by (cases m) auto
        moreover have "replicate m 0x0A @ r \<noteq> [] \<longleftrightarrow> 0 < m" using less.prems(10) by (cases m) auto
        ultimately show ?thesis
          by (intro that [of "replicate m 0x0A @ r"])
            (use less.prems(5) True pads x(3) pad_line [of x k "[]"] in simp_all)
      next
        case neq: False
        then obtain s' where "s = x @ 0x0A # s'" using cut by blast
        then show ?thesis
          by (intro that [of "pad_body k (0x0A # s') @ replicate m 0x0A @ r"])
            (use less.prems(5) neq pads x(3) pad_line [of x k "0x0A # s'"] in auto)
      qed
      have "takeWhile (\<lambda>b. \<not> is_brk b) u = []" using u(2) by (cases u) (auto simp: is_brk_def)
      moreover have "takeWhile (\<lambda>b. \<not> is_brk b) (x @ u) = x @ takeWhile (\<lambda>b. \<not> is_brk b) u" using clean by (intro takeWhile_append2)
      ultimately have w: "takeWhile (\<lambda>b. \<not> is_brk b) (x @ u) = x" by simp
      have "takeWhile (\<lambda>b. \<not> is_brk b) (replicate k 0x20 @ x @ u) = replicate k 0x20 @ takeWhile (\<lambda>b. \<not> is_brk b) (x @ u)"
        by (intro takeWhile_append2) (auto simp: is_brk_def)
      then show "line_of p (length pre) = replicate k 0x20 @ x" unfolding line_of_def u(1) w by simp
      show "n \<le> length p" "n < length p \<longleftrightarrow> s \<noteq> x \<or> 0 < m" using u unfolding n_def by auto
      show "p ! n = 0x0A" if "n < length p" using u(2) that unfolding n_def u(1) by (cases u) (auto simp: nth_append)
    qed
    obtain e' deep where e': "block_loop rp e b = block_loop rp e' (B\<lparr>bv_trailing := (if n < length p then 1 else 0)\<rparr>)"
        "en_fold e' = en_fold e @ [\<lparr>fl_content = x, fl_breaks_before = (if bv_saw b then bv_pending b + 1 else bv_pending b), fl_more_indented = deep\<rparr>]"
        "en_pool e' = en_pool e" "en_p e' = p" "en_pos e' = (if n < length p then n + 1 else n)"
        "n < length p \<Longrightarrow> at_line e' p (n + 1)" "\<not> n < length p \<Longrightarrow> coherent e'"
      using content_step [OF less.prems(4) line(1) x(1) less.prems(7,8) ci room n_def line(3)] unfolding B_def by auto
    have tx: "lit_text (en_fold e') = lit_text (en_fold e) @ replicate (bv_pending b + (if bv_saw b then 1 else 0)) 0x0A @ x"
      unfolding e'(2) lit_text_snoc by simp
    show ?thesis
    proof (cases "s = x")
      case sx: True
      show ?thesis
      proof (cases "m = 0")
        case True
        then have nl: "\<not> n < length p" "r = []" using line(4) sx less.prems(10) by auto
        then have "block_loop rp e' (B\<lparr>bv_trailing := 0\<rparr>) = Some (Inr (e', B\<lparr>bv_trailing := 0\<rparr>))"
          using e'(4,5) line(2) by (simp add: block_loop.simps [of rp e'])
        moreover have "block_done e' (B\<lparr>bv_trailing := 0\<rparr>) k m p e (replicate (bv_pending b + (if bv_saw b then 1 else 0)) 0x0A @ s) (length p - length r)"
          using e' nl tx sx True line(2) less.prems(12) by (simp add: block_done_def B_def)
        ultimately show ?thesis using e'(1) nl by auto
      next
        case False
        then have nl: "n < length p" using line(4) by simp
        have p: "p = (pre @ replicate k 0x20 @ x) @ replicate m 0x0A @ r"
          using less.prems(5) pads sx x(3) pad_line [of x k "[]"] by simp
        then have ln: "length p = n + m + length r" by (simp add: n_def)
        have "drop (n + 1) p = replicate (m - 1) 0x0A @ r"
        proof -
          have "drop (n + 1) p = drop 1 (replicate m 0x0A @ r)" unfolding p n_def by simp
          then show ?thesis using False by (cases m) simp_all
        qed
        from read_tail [OF e'(6) [OF nl] this less.prems(9), of "B\<lparr>bv_trailing := 1\<rparr>" k]
        obtain e2 where e2: "block_loop rp e' (B\<lparr>bv_trailing := 1\<rparr>) = Some (Inr (e2, B\<lparr>bv_trailing := 1, bv_pending := m - 1\<rparr>))"
          "coherent e2" "en_fold e2 = en_fold e'" "en_pool e2 = en_pool e'" "en_p e2 = p" "en_pos e2 = n + 1 + (m - 1)"
          by (auto simp: B_def)
        have "block_done e2 (B\<lparr>bv_trailing := 1, bv_pending := m - 1\<rparr>) k m p e (replicate (bv_pending b + (if bv_saw b then 1 else 0)) 0x0A @ s) (length p - length r)"
          using e2(2-) e'(3) tx sx False ln less.prems(12) by (simp add: block_done_def B_def)
        then show ?thesis using e'(1) e2(1) nl by auto
      qed
    next
      case False
      then obtain s' where s: "s = x @ 0x0A # s'" using cut by blast
      then have s': "s' \<noteq> []" "last s' \<noteq> 0x0A" using less.prems(2) by (auto split: if_splits)
      have nl: "n < length p" using line(4) False by simp
      let ?q = "pre @ replicate k 0x20 @ x @ [0x0A]" and ?pads' = "if hd s' \<noteq> 0x0A then replicate k 0x20 else [] :: byte list"
      have p: "p = ?q @ ?pads' @ pad_body k s' @ replicate m 0x0A @ r"
        using less.prems(5) pads s s' x(3) pad_line [of x k "0x0A # s'"] by simp
      have "n + 1 = length ?q" by (simp add: n_def)
      then have al: "at_line e' p (length ?q)" using e'(6) [OF nl] by simp
      have "\<exists>e2 b2. block_loop rp e' (B\<lparr>bv_trailing := 1\<rparr>) = Some (Inr (e2, b2)) \<and>
          block_done e2 b2 k m p e' (replicate (bv_pending (B\<lparr>bv_trailing := 1\<rparr>) + (if bv_saw (B\<lparr>bv_trailing := 1\<rparr>) then 1 else 0)) 0x0A @ s') (length p - length r)"
        using less.prems s s' e'(2) x(1)
        by (intro less.hyps [OF _ _ _ _ al p _ less.prems(7-10)]) (auto simp: B_def neq_Nil_conv count_list_append)
      then obtain e2 b2 where e2: "block_loop rp e' (B\<lparr>bv_trailing := 1\<rparr>) = Some (Inr (e2, b2))"
          "block_done e2 b2 k m p e' (replicate 1 0x0A @ s') (length p - length r)" by (auto simp: B_def)
      have "block_done e2 b2 k m p e (replicate (bv_pending b + (if bv_saw b then 1 else 0)) 0x0A @ s) (length p - length r)"
        using e2(2) tx e'(3) s unfolding block_done_def by simp
      then show ?thesis using e'(1) e2(1) nl by auto
    qed
  qed
qed

lemma padded_ops:
  "ops_bytes (concat (map (\<lambda>i. W_Byte ((pre @ s) ! i) #
      (if (pre @ s) ! i = 0x0A \<and> i + 1 < length pre + length s \<and> (pre @ s) ! (i + 1) \<noteq> 0x0A then indent_ops pad else []))
      [length pre..<length pre + length s])) = pad_body (nat pad) s"
proof (induction s arbitrary: pre)
  case (Cons c s)
  let ?f = "\<lambda>i. W_Byte ((pre @ c # s) ! i) #
      (if (pre @ c # s) ! i = 0x0A \<and> i + 1 < length pre + length (c # s) \<and> (pre @ c # s) ! (i + 1) \<noteq> 0x0A then indent_ops pad else [])"
  have u: "[length pre..<length pre + length (c # s)] = length pre # [Suc (length pre)..<Suc (length pre) + length s]"
    using upt_conv_Cons [of "length pre" "length pre + length (c # s)"] by simp
  have "ops_bytes (concat (map ?f [Suc (length pre)..<Suc (length pre) + length s])) = pad_body (nat pad) s"
    using Cons.IH [of "pre @ [c]"] by simp
  moreover have "ops_bytes (?f (length pre)) = c # (if c = 0x0A \<and> s \<noteq> [] \<and> hd s \<noteq> 0x0A then replicate (nat pad) 0x20 else [])"
    by (cases s) (simp_all add: nth_append)
  ultimately show ?case unfolding u by simp
qed simp

definition head_bytes :: "nat \<Rightarrow> bool \<Rightarrow> int \<Rightarrow> byte list" where
  "head_bytes trail digit indent =
     (if trail = 0 then [0x2D] else if 1 < trail then [0x2B] else []) @ (if digit then [of_int (0x30 + indent)] else [])"

lemma literal_bytes:
  assumes "s = t @ replicate trail 0x0A" "t \<noteq> []" "last t \<noteq> 0x0A"
  shows "ops_bytes (literal_ops s indent parent_col) =
    0x7C # head_bytes trail (hd t = 0x20 \<or> hd t = 0x0A) indent @ 0x0A # replicate (nat (parent_col + indent)) 0x20 @
      pad_body (nat (parent_col + indent)) t @ replicate trail 0x0A"
proof -
  have tr: "length (takeWhile (\<lambda>c. c = 0x0A) (rev s)) = trail"
    using assms(2,3) unfolding assms(1) by (cases t rule: rev_cases) (simp_all add: takeWhile_append)
  have body: "length s - trail = length t" by (simp add: assms(1))
  have nth: "s ! i = t ! i" if "i < length t" for i using that by (simp add: assms(1) nth_append)
  have mp: "map (\<lambda>i. W_Byte (s ! i) #
        (if s ! i = 0x0A \<and> i + 1 < length t \<and> s ! (i + 1) \<noteq> 0x0A then indent_ops (parent_col + indent) else [])) [0..<length t] =
      map (\<lambda>i. W_Byte (t ! i) #
        (if t ! i = 0x0A \<and> i + 1 < length t \<and> t ! (i + 1) \<noteq> 0x0A then indent_ops (parent_col + indent) else [])) [0..<length t]"
    by (intro map_cong refl) (auto simp: nth)
  have b: "ops_bytes (concat (map (\<lambda>i. W_Byte (s ! i) #
        (if s ! i = 0x0A \<and> i + 1 < length t \<and> s ! (i + 1) \<noteq> 0x0A then indent_ops (parent_col + indent) else [])) [0..<length t])) =
      pad_body (nat (parent_col + indent)) t"
    unfolding mp using padded_ops [of "[]" t "parent_col + indent"] by simp
  have h: "s ! 0 = hd t" "0 < length t" using nth [of 0] assms(2) by (simp_all add: hd_conv_nth)
  have r: "ops_bytes (replicate n (W_Byte 0x0A)) = replicate n 0x0A" for n by (induction n) simp_all
  show ?thesis
    unfolding literal_ops_def Let_def tr body h ops_bytes_simps b r head_bytes_def using assms(2) by simp
qed

section \<open>The header\<close>

lemma indicator_byte:
  "1 \<le> d \<Longrightarrow> d \<le> 9 \<Longrightarrow> 0x31 \<le> (of_int (0x30 + d) :: byte) \<and> (of_int (0x30 + d) :: byte) \<le> 0x39 \<and> int (unat (of_int (0x30 + d) :: byte)) - 0x30 = d"
proof -
  assume "1 \<le> d" "d \<le> 9"
  then have "d \<in> {1, 2, 3, 4, 5, 6, 7, 8, 9}" by auto
  then show ?thesis by auto
qed

lemma digit_range:
  "0x31 \<le> x \<Longrightarrow> x \<le> 0x39 \<Longrightarrow> x \<noteq> 0x0A \<and> x \<noteq> 0x0D \<and> x \<noteq> 0x20 \<and> x \<noteq> 0x09 \<and> x \<noteq> 0x23 \<and> x \<noteq> 0x2D \<and> x \<noteq> 0x2B" for x :: byte
  by auto

lemma header_end:
  "en_pos e < length (en_p e) \<Longrightarrow> en_p e ! en_pos e = 0x0A \<Longrightarrow> block_header e h = Inr (e, h)"
  by (simp add: block_header.simps [of e h] is_break_def)

lemma header_chomp:
  "en_pos e < length (en_p e) \<Longrightarrow> en_p e ! en_pos e = (if c = 1 then 0x2D else 0x2B) \<Longrightarrow> c = 1 \<or> c = 2 \<Longrightarrow>
   bh_chomp h = 0 \<Longrightarrow> \<not> bh_blank h \<Longrightarrow>
   block_header e h = block_header (e\<lparr>en_pos := en_pos e + 1\<rparr>) (h\<lparr>bh_chomp := c\<rparr>)"
  by (auto simp: block_header.simps [of e h] is_break_def is_blank_def e_comment_at_def)

lemma header_digit:
  "en_pos e < length (en_p e) \<Longrightarrow> en_p e ! en_pos e = of_int (0x30 + d) \<Longrightarrow> 1 \<le> d \<Longrightarrow> d \<le> 9 \<Longrightarrow> \<not> bh_digit h \<Longrightarrow> \<not> bh_blank h \<Longrightarrow>
   block_header e h = block_header (e\<lparr>en_pos := en_pos e + 1\<rparr>) (h\<lparr>bh_indent := d, bh_digit := True\<rparr>)"
proof -
  assume a: "en_pos e < length (en_p e)" "en_p e ! en_pos e = of_int (0x30 + d)" "1 \<le> d" "d \<le> 9" "\<not> bh_digit h" "\<not> bh_blank h"
  note c = indicator_byte [OF a(3,4)]
  let ?c = "of_int (0x30 + d) :: byte"
  note n = digit_range [OF conjunct1 [OF c] conjunct1 [OF conjunct2 [OF c]]]
  have f: "is_break ?c = False" "is_blank ?c = False" "e_comment_at e = False"
    unfolding is_break_def is_blank_def e_comment_at_def a(2) by (simp_all only: n simp_thms)
  show ?thesis
    unfolding block_header.simps [of e h] a(2) f Let_def using a(1,5,6) c n by (simp only: simp_thms if_True if_False)
qed

lemma read_header:
  assumes "en_p e = pre @ 0x7C # head_bytes trail digit d @ 0x0A # u" "en_pos e = length pre + 1" "digit \<Longrightarrow> 1 \<le> d \<and> d \<le> 9"
  shows "\<exists>h. block_header e \<lparr>bh_chomp = 0, bh_indent = 0, bh_digit = False, bh_blank = False\<rparr> =
      Inr (e\<lparr>en_pos := length pre + 1 + length (head_bytes trail digit d)\<rparr>, h) \<and>
    bh_chomp h = (if trail = 0 then 1 else if trail = 1 then 0 else 2) \<and> bh_indent h = (if digit then d else 0)"
proof -
  let ?h = "\<lparr>bh_chomp = 0, bh_indent = 0, bh_digit = False, bh_blank = False\<rparr>"
  define c :: int where "c = (if trail = 0 then 1 else if trail = 1 then 0 else 2)"
  define n where "n = length pre + 1 + (if c = 0 then 0 else 1)"
  have p: "en_p e = pre @ 0x7C # (if c = 0 then [] else [if c = 1 then 0x2D else 0x2B]) @
      (if digit then [of_int (0x30 + d)] else []) @ 0x0A # u"
    unfolding assms(1) head_bytes_def c_def by (cases trail) auto
  have 1: "block_header e ?h = block_header (e\<lparr>en_pos := n\<rparr>) (?h\<lparr>bh_chomp := c\<rparr>)"
  proof (cases "c = 0")
    case True
    then have "e\<lparr>en_pos := n\<rparr> = e" using assms(2) by (simp add: n_def)
    then show ?thesis using True by simp
  next
    case False
    have "en_p e ! en_pos e = (if c = 1 then 0x2D else 0x2B)" using p False assms(2) by (simp add: nth_append)
    moreover have "en_pos e < length (en_p e)" using p assms(2) by simp
    moreover have "c = 1 \<or> c = 2" using False by (auto simp: c_def split: if_splits)
    ultimately have "block_header e ?h = block_header (e\<lparr>en_pos := en_pos e + 1\<rparr>) (?h\<lparr>bh_chomp := c\<rparr>)"
      by (intro header_chomp) simp_all
    then show ?thesis using False assms(2) by (simp add: n_def)
  qed
  have len: "length pre + 1 + length (head_bytes trail digit d) = n + (if digit then 1 else 0)"
    by (auto simp: head_bytes_def n_def c_def)
  show ?thesis
  proof (cases digit)
    case True
    let ?e = "e\<lparr>en_pos := n\<rparr>" and ?e2 = "e\<lparr>en_pos := n + 1\<rparr>"
    have at: "en_p ?e ! en_pos ?e = of_int (0x30 + d)" "en_pos ?e < length (en_p ?e)" using p True by (simp_all add: n_def nth_append nth_Cons')
    have at2: "en_p ?e2 ! en_pos ?e2 = 0x0A" "en_pos ?e2 < length (en_p ?e2)" using p True by (simp_all add: n_def nth_append nth_Cons')
    have "block_header ?e (?h\<lparr>bh_chomp := c\<rparr>) = block_header ?e2 (?h\<lparr>bh_chomp := c, bh_indent := d, bh_digit := True\<rparr>)"
      using header_digit [OF at(2,1), of "?h\<lparr>bh_chomp := c\<rparr>"] assms(3) [OF True] by (simp add: header_digit)
    then show ?thesis unfolding 1 len using header_end [OF at2(2,1)] True by (simp add: c_def [symmetric])
  next
    case False
    let ?e = "e\<lparr>en_pos := n\<rparr>"
    have at: "en_p ?e ! en_pos ?e = 0x0A" "en_pos ?e < length (en_p ?e)" using p False by (simp_all add: n_def nth_append nth_Cons')
    show ?thesis unfolding 1 len using header_end [OF at(2,1)] False by (simp add: c_def [symmetric])
  qed
qed

text \<open>What may follow a literal block: the break the strip form leaves out, then the block's end.\<close>

definition follows_block :: "int \<Rightarrow> byte list \<Rightarrow> byte list \<Rightarrow> bool" where
  "follows_block rp s rest \<longleftrightarrow>
     (if last s = 0x0A then ends_block rp rest else rest = [] \<or> (\<exists>r. rest = 0x0A # r \<and> ends_block rp r))"

lemma pad_body_length: "length s \<le> length (pad_body k s)"
  by (induction s) auto

lemma split_feeds:
  assumes "\<exists>c \<in> set s. c \<noteq> (0x0A :: byte)"
  obtains t n where "s = t @ replicate n 0x0A" "t \<noteq> []" "last t \<noteq> 0x0A"
proof -
  let ?t = "rev (dropWhile (\<lambda>c. c = 0x0A) (rev s))" and ?n = "length (takeWhile (\<lambda>c. c = 0x0A) (rev s))"
  have "takeWhile (\<lambda>c. c = 0x0A) (rev s) = replicate ?n 0x0A"
    by (rule replicate_length_same [symmetric]) (auto dest: set_takeWhileD)
  then have "s = ?t @ replicate ?n 0x0A"
    by (metis rev_append rev_replicate rev_rev_ident takeWhile_dropWhile_id)
  moreover have d: "dropWhile (\<lambda>c. c = 0x0A) (rev s) \<noteq> []" using assms by auto
  moreover have "last ?t \<noteq> 0x0A" using hd_dropWhile [OF d] d by (simp add: last_rev)
  ultimately show ?thesis using that [of ?t ?n] by simp
qed

text \<open>The line feeds behind a literal block: those of the text, or the one that ends its last line.\<close>

lemma literal_rest:
  assumes "s = t @ replicate n 0x0A" "t \<noteq> []" "last t \<noteq> 0x0A" "follows_block rp s rest"
  obtains m r where "replicate n 0x0A @ rest = replicate m 0x0A @ r" "ends_block rp r" "m = 0 \<Longrightarrow> r = []"
    "n \<noteq> 0 \<Longrightarrow> m = n" "m \<le> n + 1" "length rest = m - n + length r"
proof (cases "0 < n")
  case True
  then have "last s = 0x0A" using assms(1) by (cases n) auto
  then show ?thesis using that [of n rest] assms(4) True by (simp add: follows_block_def)
next
  case False
  then have "rest = [] \<or> (\<exists>r. rest = 0x0A # r \<and> ends_block rp r)" using assms by (simp add: follows_block_def)
  then show ?thesis
  proof
    assume "rest = []"
    then show ?thesis using that [of 0 "[]"] False by (simp add: ends_block_def)
  next
    assume "\<exists>r. rest = 0x0A # r \<and> ends_block rp r"
    then obtain r where "rest = 0x0A # r" "ends_block rp r" by blast
    then show ?thesis using that [of 1 r] False by simp
  qed
qed

text \<open>The reader at the first line of the body, with the indicators the emitter wrote.\<close>

lemma enter_body:
  assumes "en_p e = pre @ 0x7C # head_bytes n digit d @ 0x0A # u" "en_pos e = length pre" "coherent e" "1 \<le> d" "d \<le> 9"
    and "length (en_p e) < 2 ^ 31" "unat (en_line e) + length (en_p e) < 2 ^ 32"
  obtains e1 h where
    "block_header (e\<lparr>en_pos := length pre + 1\<rparr>) \<lparr>bh_chomp = 0, bh_indent = 0, bh_digit = False, bh_blank = False\<rparr> = Inr (e1, h)"
    "bh_chomp h = (if n = 0 then 1 else if n = 1 then 0 else 2)" "bh_indent h = (if digit then d else 0)"
    "at_line ((e_line_done e1 (en_pos e1))\<lparr>en_fold := []\<rparr>) (en_p e) (length (pre @ 0x7C # head_bytes n digit d @ [0x0A]))"
proof -
  let ?e0 = "e\<lparr>en_pos := length pre + 1\<rparr>" and ?h = "head_bytes n digit d" and ?p = "en_p e"
  define e1 where "e1 = ?e0\<lparr>en_pos := length pre + 1 + length ?h\<rparr>"
  have p0: "en_p ?e0 = pre @ 0x7C # ?h @ 0x0A # u" "en_pos ?e0 = length pre + 1" using assms(1,2) by simp_all
  obtain h where h: "block_header ?e0 \<lparr>bh_chomp = 0, bh_indent = 0, bh_digit = False, bh_blank = False\<rparr> = Inr (e1, h)"
    "bh_chomp h = (if n = 0 then 1 else if n = 1 then 0 else 2)" "bh_indent h = (if digit then d else 0)"
    using read_header [OF p0] assms(4,5) unfolding e1_def by auto
  have at: "en_pos e1 < length ?p" "?p ! en_pos e1 = 0x0A" "en_p e1 = ?p"
    using assms(1) by (simp_all add: e1_def nth_append nth_Cons')
  define e2 where "e2 = (e_line_done e1 (en_pos e1))\<lparr>en_fold := []\<rparr>"
  have ld: "e2 = e1\<lparr>en_fold := [], en_pos := en_pos e1 + 1, en_line := en_line e1 + 1, en_line_start := en_pos e1 + 1,
      en_li_cache_line := 0, en_shape_cache_line := 0, en_facts_cache_line := 0\<rparr>"
    unfolding e2_def e_line_done_def Let_def at(3) using feed_len [OF at(1,2)] by simp
  have ln: "en_line e1 = en_line e" by (simp add: e1_def)
  have l: "unat (en_line e1) + 1 < 2 ^ 32" unfolding ln using assms(7) at(1) by linarith
  then have "unat (en_line e1 + 1) = unat (en_line e1) + 1" by (simp add: unat_word_ariths)
  moreover have "coherent e1" using assms(3) by (simp add: coherent_def e1_def)
  then have "coherent e2" by (rule coherent_next [OF _ l]) (simp_all add: ld)
  ultimately have "at_line e2 ?p (en_pos e1 + 1)" using assms(6,7) at ln unfolding at_line_def by (simp add: ld)
  then show ?thesis using that [OF h] unfolding e2_def by (simp add: e1_def)
qed

text \<open>
  C35. A literal block the emitter writes is read back by the block reader as the same bytes, at any
  column and indent from 1 to 9, whether the text ends in no, one or several line feeds, starts with
  a blank or an empty line, or holds lines of blanks and tabs: the header's chomping and
  indentation indicators are read as they were meant. The text has no carriage return, something
  other than line feeds, and at most 8192 lines.
\<close>

theorem literal_restores:
  assumes "growing env w" "emit_routed env YEP_SC_LITERAL s parent_col as_key w = Some w'" "all_out w' = all_out w @ q"
    and "\<exists>c \<in> set s. c \<noteq> 0x0A" "0x0D \<notin> set s" "count_list s 0x0A < YEP_MAX_FOLD_LINES"
    and "1 \<le> w_indent w" "w_indent w \<le> 9" "0 \<le> parent_col" "rp = parent_col \<or> rp < 0 \<and> parent_col = 0"
    and "en_p e = pre @ q @ rest" "follows_block rp s rest" "en_pos e = length pre" "coherent e"
    and "length (en_p e) < 2 ^ 31" "unat (en_line e) + length (en_p e) < 2 ^ 32" "unfailing sys"
  shows "\<exists>e' ev'. e_block_scalar sys e ev rp = Some (0, e', ev') \<and> ev_value ev' = Some s \<and>
    ev_len ev' = of_nat (length s) \<and> ev_style ev' = YEP_STYLE_LITERAL \<and> coherent e' \<and>
    length pre + length q \<le> en_pos e' \<and> en_pos e' \<le> length pre + length q + 1"
proof -
  obtain t n where t: "s = t @ replicate n 0x0A" "t \<noteq> []" "last t \<noteq> 0x0A" using split_feeds [OF assms(4)] .
  define k where "k = nat (parent_col + w_indent w)"
  let ?dig = "hd t = 0x20 \<or> hd t = 0x0A" and ?p = "en_p e"
  let ?h = "head_bytes n ?dig (w_indent w)"
  have q: "q = 0x7C # ?h @ 0x0A # replicate k 0x20 @ pad_body k t @ replicate n 0x0A"
    using written_text [OF assms(1-3)] literal_bytes [OF t, of "w_indent w" parent_col] by (simp add: routed_text_def k_def)
  obtain m r where mr: "replicate n 0x0A @ rest = replicate m 0x0A @ r" "ends_block rp r" "m = 0 \<Longrightarrow> r = []"
    "n \<noteq> 0 \<Longrightarrow> m = n" "m \<le> n + 1" "length rest = m - n + length r" using literal_rest [OF t assms(12)] by metis
  have p: "?p = pre @ 0x7C # ?h @ 0x0A # replicate k 0x20 @ pad_body k t @ replicate m 0x0A @ r" using assms(11) q mr(1) by simp
  obtain e1 h where h: "block_header (e\<lparr>en_pos := length pre + 1\<rparr>) \<lparr>bh_chomp = 0, bh_indent = 0, bh_digit = False, bh_blank = False\<rparr> = Inr (e1, h)"
    "bh_chomp h = (if n = 0 then 1 else if n = 1 then 0 else 2)" "bh_indent h = (if ?dig then w_indent w else 0)"
    "at_line ((e_line_done e1 (en_pos e1))\<lparr>en_fold := []\<rparr>) ?p (length (pre @ 0x7C # ?h @ [0x0A]))"
    by (rule enter_body [OF p assms(13,14,7,8,15,16)])
  let ?e2 = "(e_line_done e1 (en_pos e1))\<lparr>en_fold := []\<rparr>"
  let ?ci = "if bh_indent h \<noteq> 0 then (if rp < 0 then bh_indent h else rp + bh_indent h) else - 1"
  let ?b = "\<lparr>bv_content_indent = ?ci, bv_pending = 0, bv_trailing = 0, bv_saw = False, bv_blank_tab = False, bv_max_blank = - 1\<rparr>"
  have k: "0 < k" "rp < int k" using assms(7,9,10) by (auto simp: k_def)
  have ci: "?ci = int k \<or> ?ci < 0 \<and> hd t \<noteq> 0x0A \<and> hd t \<noteq> 0x20" using h(3) assms(7,9,10) by (auto simp: k_def)
  have cr: "0x0D \<notin> set t" and f0: "length (en_fold ?e2) + count_list t 0x0A < YEP_MAX_FOLD_LINES"
    using assms(5,6) t(1) by (auto simp: count_list_append)
  have pad: "?p = (pre @ 0x7C # ?h @ [0x0A]) @ (if True then replicate k 0x20 else []) @ pad_body k t @ replicate m 0x0A @ r" using p by simp
  obtain e' b' where b': "block_loop rp ?e2 ?b = Some (Inr (e', b'))"
    "block_done e' b' k m ?p ?e2 (replicate (bv_pending ?b + (if bv_saw ?b then 1 else 0)) 0x0A @ t) (length ?p - length r)"
    using read_body [OF t(2,3) cr h(4) pad _ k mr(2,3) _ _ f0, of ?b] ci by auto
  have d: "coherent e'" "lit_text (en_fold e') = t" "bv_saw b'" "bv_content_indent b' = int k" "bv_trailing b' + bv_pending b' = m"
    "bv_max_blank b' \<le> int k" "en_p e' = ?p" "en_pos e' = length ?p - length r"
    using b'(2) by (simp_all add: block_done_def lit_text_def)
  have st: "s = lit_text (en_fold e') @ (if bh_chomp h = 1 then [] else if bh_chomp h = 2 then replicate m 0x0A else [0x0A])"
    using t(1) mr(4) h(2) d(2) by auto
  have "length t \<le> length ?p" "m \<le> length ?p" using pad_body_length [of t k] p by simp_all
  then have "length (lit_text (en_fold e')) + m + 1 \<le> 2 ^ 33" unfolding d(2) using assms(15) by simp
  then obtain pool where fin: "yep_finish_block sys (en_fold e') False (bh_chomp h) m (en_pool e') = (Some s, of_nat (length s), Some pool)"
    using literal_finish [OF assms(17) _ _ st] d(2) t(2) by blast
  have "e_block_scalar sys e ev rp = Some (block_finish sys False (bh_chomp h) e' b' ev)"
    unfolding e_block_scalar_def Let_def assms(13) h(1) sum.case prod.case b'(1) using p by (simp add: nth_append)
  moreover have "\<exists>ev'. block_finish sys False (bh_chomp h) e' b' ev = (0, with_pool e' (Some pool), ev') \<and> ev_value ev' = Some s \<and>
      ev_len ev' = of_nat (length s) \<and> ev_style ev' = YEP_STYLE_LITERAL"
    unfolding block_finish_def Let_def d(5) using d(3,4,6) fin by (simp add: set_end_def)
  moreover have "coherent (with_pool e' (Some pool))" "en_pos (with_pool e' (Some pool)) = length pre + length q + (m - n)"
    using d(1,8) assms(11) mr(6) by (simp_all add: with_pool_def coherent_def)
  ultimately show ?thesis using mr(5) by auto
qed

lemma unfailing_grants: "unfailing sys \<Longrightarrow> 0 < c \<Longrightarrow> c * 2 ^ k \<le> 2 ^ 62 \<Longrightarrow> grants sys pool c k"
proof (induction k arbitrary: c pool)
  case (Suc k)
  have "c * 1 \<le> c * 2 ^ Suc k" by (rule mult_le_mono2) simp
  from order_trans [OF this Suc.prems(3)] have "c \<le> 2 ^ 62" by simp
  then obtain a pool' where "yep_pool_alloc sys pool (of_nat c) 16 = (Some a, pool')" using pool_serves [OF Suc.prems(1,2)] by blast
  moreover have "grants sys pool' (2 * c) k" using Suc.prems by (intro Suc.IH) (simp_all add: mult.assoc mult.left_commute)
  ultimately show ?case by simp
qed simp

lemma unfailing_256: "unfailing sys \<Longrightarrow> grants sys pool 256 (Suc 24)"
  by (rule unfailing_grants) simp_all

lemma chars_plain: "json_chars e x \<Longrightarrow> \<not> e \<Longrightarrow> 0x5C \<notin> set x"
  by (induction rule: json_chars.induct) auto

lemma decoded_plain: "json_decoded x t \<Longrightarrow> 0x5C \<notin> set x \<Longrightarrow> x = t"
  by (induction rule: json_decoded.induct) auto

section \<open>Properties\<close>

text \<open>
  C20. What the emitter writes in double quotes the engine's quoted reader takes back as the same
  bytes, for every byte string: it finds the closing quote, accepts every escape the emitter wrote,
  stays on its line and delivers the text, whatever the indentation floor.
\<close>

theorem double_quotes_restore:
  assumes "growing env w" "emit_routed env YEP_SC_DQ s parent_col as_key w = Some w'" "all_out w' = all_out w @ q"
    and "en_p e = pre @ q @ rest" "en_pos e = length pre" "length (en_p e) < 2 ^ 32" "length s < 2 ^ 32" "unfailing sys"
  shows "\<exists>e' ev'. e_quoted_floor sys e ev min_indent enforce = (0, e', ev') \<and> ev_value ev' = Some s \<and>
    ev_len ev' = of_nat (length s) \<and> ev_style ev' = YEP_STYLE_DOUBLE_QUOTED \<and>
    en_pos e' = skip_blanks (en_p e) (length pre + length q) (length (en_p e)) \<and> en_line e' = en_line e"
  using double_quotes_read [OF assms(1-6) unfailing_256 [OF assms(8)], of ev min_indent enforce] assms(7) by simp

text \<open>
  C39. What the emitter writes in single quotes the quoted reader takes back as the same bytes: quotes
  doubled and, when folding is on, long lines broken at single spaces. The text has no line break
  (and no tab when folded), and folded lines are indented past the reader's floor; the line
  counter advances by the breaks that were written.
\<close>

theorem single_quotes_restore:
  assumes "growing env w" "emit_routed env YEP_SC_SQ s parent_col as_key w = Some w'" "all_out w' = all_out w @ q"
    and "0x0A \<notin> set s" "0x0D \<notin> set s" "w_block_fold w \<Longrightarrow> 0x09 \<notin> set s"
    and "w_block_fold w \<Longrightarrow> 0 < parent_col + w_indent w" "w_block_fold w \<Longrightarrow> enforce \<Longrightarrow> unat min_indent < nat (parent_col + w_indent w)"
    and "en_p e = pre @ q @ rest" "rest = [] \<or> hd rest \<noteq> 0x27" "en_pos e = length pre" "length (en_p e) < 2 ^ 32"
    and "length s < 2 ^ 32" "unfailing sys"
  shows "\<exists>e' ev'. e_quoted_floor sys e ev min_indent enforce = (0, e', ev') \<and> ev_value ev' = Some s \<and>
    ev_len ev' = of_nat (length s) \<and> ev_style ev' = YEP_STYLE_SINGLE_QUOTED \<and>
    en_pos e' = skip_blanks (en_p e) (length pre + length q) (length (en_p e)) \<and>
    en_line e' = en_line e + of_nat (count_list q 0x0A)"
  using single_quotes_read [OF assms(1-12) unfailing_256 [OF assms(14)], where ev = ev] assms(13) by simp

text \<open>
  C13. Every byte string is written as a JSON string that the strict scanner accepts in front of any
  text, that it calls free of escapes only when it is the string itself, and that decodes in place,
  in a buffer of its own size, to the string.
\<close>

theorem json_text_restores:
  assumes "growing env w"
  shows "\<exists>w' body esc. emit_dq_json env s w = Some w' \<and> growing env w' \<and> all_out w' = all_out w @ 0x22 # body @ [0x22] \<and>
    yep_json_string (0x22 # body @ 0x22 # rest) = Some (esc, rest) \<and> (\<not> esc \<longrightarrow> body = s) \<and>
    (length body \<le> cap \<longrightarrow>
       yep_finish_double_into sys (pre @ body @ 0x22 # rest) (length pre) (length pre + length body) cap = s)"
proof -
  define body where "body = ops_bytes (dq_json_ops [] s)"
  obtain e where e: "json_chars e body" "json_decoded body s" using dq_json_written [of "[]" s] by (auto simp: body_def)
  have "\<not> w_dry w" using assms by (simp add: growing_def)
  moreover obtain w' where w': "emit_dq_json env s w = Some w'" "growing env w'" "adv w (0x22 # body @ [0x22]) w'"
    using grown.run [OF assms, of "[W_Byte 0x22] @ dq_json_ops [] s @ [W_Byte 0x22]"] by (auto simp: emit_dq_json_def body_def)
  ultimately have out: "all_out w' = all_out w @ 0x22 # body @ [0x22]" by (simp add: adv_def)
  have "yep_json_string (0x22 # body @ 0x22 # rest) = Some (e, rest)" unfolding json_string_grammar using e(1) by blast
  moreover have "body = s" if "\<not> e" using decoded_plain [OF e(2) chars_plain [OF e(1) that]] .
  moreover have "yep_finish_double_into sys (pre @ body @ 0x22 # rest) (length pre) (length pre + length body) cap = s" if "length body \<le> cap"
    using decode_body [OF e(2), of "length pre + length body" pre "buf_new None cap" sys "0x22 # rest" 0] that
    by (simp add: yep_finish_double_into_def buf_new_def)
  ultimately show ?thesis using w' out by blast
qed

section \<open>Instances\<close>

lemma kind: "growing granting (blank_writer\<lparr>w_grow := True\<rparr>)" "unfailing kind_sys" "all_out (blank_writer\<lparr>w_grow := True\<rparr>) = []"
  by (simp_all add: growing_def granting_def blank_writer_def inside_def unfailing_def kind_sys_def all_out_def written_def)

lemma kind_writes:
  "\<exists>w'. emit_routed granting route p c k (blank_writer\<lparr>w_grow := True\<rparr>) = Some w' \<and>
     all_out w' = all_out (blank_writer\<lparr>w_grow := True\<rparr>) @ routed_text (blank_writer\<lparr>w_grow := True\<rparr>) route p c k"
proof -
  have "\<not> w_dry (blank_writer\<lparr>w_grow := True\<rparr>)" by (simp add: blank_writer_def)
  then show ?thesis using grown.routed [OF kind(1), of route p c k] by (auto simp: adv_def)
qed

theorem double_quotes_restore_witness:
  "\<exists>e' ev'. e_quoted_floor kind_sys (fresh_engine [0x22, 0x61, 0x5C, 0x22, 0x22] 0) fresh_event 0 False = (0, e', ev') \<and>
     ev_value ev' = Some [0x61, 0x22]"
proof -
  let ?w = "blank_writer\<lparr>w_grow := True\<rparr>" and ?s = "[0x61, 0x22] :: byte list" and ?q = "[0x22, 0x61, 0x5C, 0x22, 0x22] :: byte list"
  have "ops_bytes (dq_ops [] ?s) = [0x61, 0x5C, 0x22]" by code_simp
  then have q: "routed_text ?w YEP_SC_DQ ?s 0 False = ?q" by (simp add: routed_text_def)
  obtain w' where "emit_routed granting YEP_SC_DQ ?s 0 False ?w = Some w'" "all_out w' = all_out ?w @ ?q"
    using kind_writes [of YEP_SC_DQ ?s 0 False] unfolding q by blast
  from double_quotes_restore [OF kind(1) this, of "fresh_engine ?q 0" "[]" "[]" kind_sys fresh_event 0 False] kind(2)
  show ?thesis by (simp add: fresh_engine_def) blast
qed

theorem single_quotes_restore_witness:
  "\<exists>e' ev'. e_quoted_floor kind_sys (fresh_engine [0x27, 0x61, 0x27, 0x27, 0x27] 0) fresh_event 0 False = (0, e', ev') \<and>
     ev_value ev' = Some [0x61, 0x27]"
proof -
  let ?w = "blank_writer\<lparr>w_grow := True\<rparr>" and ?s = "[0x61, 0x27] :: byte list" and ?q = "[0x27, 0x61, 0x27, 0x27, 0x27] :: byte list"
  have q: "routed_text ?w YEP_SC_SQ ?s 0 False = ?q" by (simp add: routed_text_def single_text_def sq_ops_def blank_writer_def)
  obtain w' where w: "emit_routed granting YEP_SC_SQ ?s 0 False ?w = Some w'" "all_out w' = all_out ?w @ ?q"
    using kind_writes [of YEP_SC_SQ ?s 0 False] unfolding q by blast
  have nf: "\<not> w_block_fold ?w" by (simp add: blank_writer_def)
  from single_quotes_restore [OF kind(1) w, of False 0 "fresh_engine ?q 0" "[]" "[]" kind_sys fresh_event] nf kind(2)
  show ?thesis by (simp add: fresh_engine_def) blast
qed

theorem literal_restores_witness:
  "\<exists>e' ev'. e_block_scalar kind_sys (fresh_engine ([0x7C, 0x0A, 0x20, 0x20, 0x61, 0x0A]) 0) fresh_event 0 = Some (0, e', ev') \<and>
     ev_value ev' = Some [0x61, 0x0A]"
proof -
  let ?w = "blank_writer\<lparr>w_grow := True\<rparr>" and ?s = "[0x61, 0x0A] :: byte list" and ?q = "[0x7C, 0x0A, 0x20, 0x20, 0x61, 0x0A] :: byte list"
  have "ops_bytes (literal_ops ?s 2 0) = ?q" by code_simp
  then have q: "routed_text ?w YEP_SC_LITERAL ?s 0 False = ?q" by (simp add: routed_text_def blank_writer_def)
  obtain w' where w: "emit_routed granting YEP_SC_LITERAL ?s 0 False ?w = Some w'" "all_out w' = all_out ?w @ ?q"
    using kind_writes [of YEP_SC_LITERAL ?s 0 False] unfolding q by blast
  have c: "coherent (fresh_engine ?q 0)" by (simp add: fresh_engine_def coherent_def)
  have i: "w_indent ?w = 2" by (simp add: blank_writer_def)
  from literal_restores [OF kind(1) w, of 0 "fresh_engine ?q 0" "[]" "[]" kind_sys fresh_event] kind(2) c i
  show ?thesis by (simp add: fresh_engine_def follows_block_def ends_block_def YEP_MAX_FOLD_LINES_def) blast
qed

theorem json_text_restores_witness:
  "\<exists>w'. emit_dq_json granting [0x61, 0x0A] (blank_writer\<lparr>w_grow := True\<rparr>) = Some w'"
  using json_text_restores [OF kind(1), of "[0x61, 0x0A]"] by blast

end
