(* ===== verification/Regexp.thy ===== *)
theory Regexp
  imports Prelude "HOL-Library.Monad_Syntax"
begin

text \<open>
  The regular expressions behind the \<^verbatim>\<open>pattern\<close> keyword, \<^verbatim>\<open>src/yeptris/validate/regexp.c\<close>: parser,
  compiler to a program with pending arrows, the machine that runs all threads at once over the
  subject, and the cache of compiled programs.

  An array with its fill count (\<^verbatim>\<open>ast\<close>, \<^verbatim>\<open>cls\<close>, \<^verbatim>\<open>inst\<close>, a ring slot) is a list; \<^verbatim>\<open>uint8_t\<close> members are
  bytes, sizes and program counters natural numbers. A function of the parser returns its
  \<^verbatim>\<open>int\<close> as an option (\<open>None\<close> is \<^verbatim>\<open>-1\<close>) with the context. Where a loop could run on, the result
  is wrapped in one more option, \<open>None\<close> being not returning. The context of a failed parse is read by no caller, so where a
  failure leaves the cursor is not kept in every case.
\<close>

section \<open>Budgets and tables\<close>

definition RE_MAX_PAT :: nat where "RE_MAX_PAT = 1024"
definition RE_MAX_AST :: nat where "RE_MAX_AST = 256"
definition RE_MAX_INST :: nat where "RE_MAX_INST = 320"
definition RE_MAX_CLS :: nat where "RE_MAX_CLS = 24"
definition RE_AST_DEPTH :: nat where "RE_AST_DEPTH = 64"
definition RE_REP_INF :: nat where "RE_REP_INF = 0xFFFF"

text \<open>Sorted inclusive pairs of code points.\<close>

definition RE_PROP_L :: "u32 list" where
  "RE_PROP_L = [
    0x0041, 0x005A, 0x0061, 0x007A, 0x00AA, 0x00AA, 0x00B5, 0x00B5, 0x00BA, 0x00BA, 0x00C0, 0x00D6, 0x00D8, 0x00F6, 0x00F8,
    0x02C1, 0x02C6, 0x02D1, 0x02E0, 0x02E4, 0x02EC, 0x02EC, 0x02EE, 0x02EE, 0x0370, 0x0374, 0x0376, 0x0377, 0x037A, 0x037D,
    0x037F, 0x037F, 0x0386, 0x0386, 0x0388, 0x038A, 0x038C, 0x038C, 0x038E, 0x03A1, 0x03A3, 0x03F5, 0x03F7, 0x0481, 0x048A,
    0x052F, 0x0531, 0x0556, 0x0559, 0x0559, 0x0560, 0x0588, 0x05D0, 0x05EA, 0x05EF, 0x05F2, 0x0620, 0x064A, 0x066E, 0x066F,
    0x0671, 0x06D3, 0x06D5, 0x06D5, 0x06E5, 0x06E6, 0x06EE, 0x06EF, 0x06FA, 0x06FC, 0x06FF, 0x06FF, 0x0710, 0x0710, 0x0712,
    0x072F, 0x074D, 0x07A5, 0x07B1, 0x07B1, 0x07CA, 0x07EA, 0x07F4, 0x07F5, 0x07FA, 0x07FA, 0x0800, 0x0815, 0x081A, 0x081A,
    0x0824, 0x0824, 0x0828, 0x0828, 0x0840, 0x0858, 0x0860, 0x086A, 0x08A0, 0x08B4, 0x08B6, 0x08C7, 0x0904, 0x0939, 0x093D,
    0x093D, 0x0950, 0x0950, 0x0958, 0x0961, 0x0971, 0x0980, 0x0985, 0x098C, 0x098F, 0x0990, 0x0993, 0x09A8, 0x09AA, 0x09B0,
    0x09B2, 0x09B2, 0x09B6, 0x09B9, 0x09BD, 0x09BD, 0x09CE, 0x09CE, 0x09DC, 0x09DD, 0x09DF, 0x09E1, 0x09F0, 0x09F1, 0x09FC,
    0x09FC, 0x0A05, 0x0A0A, 0x0A0F, 0x0A10, 0x0A13, 0x0A28, 0x0A2A, 0x0A30, 0x0A32, 0x0A33, 0x0A35, 0x0A36, 0x0A38, 0x0A39,
    0x0A59, 0x0A5C, 0x0A5E, 0x0A5E, 0x0A72, 0x0A74, 0x0A85, 0x0A8D, 0x0A8F, 0x0A91, 0x0A93, 0x0AA8, 0x0AAA, 0x0AB0, 0x0AB2,
    0x0AB3, 0x0AB5, 0x0AB9, 0x0ABD, 0x0ABD, 0x0AD0, 0x0AD0, 0x0AE0, 0x0AE1, 0x0AF9, 0x0AF9, 0x0B05, 0x0B0C, 0x0B0F, 0x0B10,
    0x0B13, 0x0B28, 0x0B2A, 0x0B30, 0x0B32, 0x0B33, 0x0B35, 0x0B39, 0x0B3D, 0x0B3D, 0x0B5C, 0x0B5D, 0x0B5F, 0x0B61, 0x0B71,
    0x0B71, 0x0B83, 0x0B83, 0x0B85, 0x0B8A, 0x0B8E, 0x0B90, 0x0B92, 0x0B95, 0x0B99, 0x0B9A, 0x0B9C, 0x0B9C, 0x0B9E, 0x0B9F,
    0x0BA3, 0x0BA4, 0x0BA8, 0x0BAA, 0x0BAE, 0x0BB9, 0x0BD0, 0x0BD0, 0x0C05, 0x0C0C, 0x0C0E, 0x0C10, 0x0C12, 0x0C28, 0x0C2A,
    0x0C39, 0x0C3D, 0x0C3D, 0x0C58, 0x0C5A, 0x0C60, 0x0C61, 0x0C80, 0x0C80, 0x0C85, 0x0C8C, 0x0C8E, 0x0C90, 0x0C92, 0x0CA8,
    0x0CAA, 0x0CB3, 0x0CB5, 0x0CB9, 0x0CBD, 0x0CBD, 0x0CDE, 0x0CDE, 0x0CE0, 0x0CE1, 0x0CF1, 0x0CF2, 0x0D04, 0x0D0C, 0x0D0E,
    0x0D10, 0x0D12, 0x0D3A, 0x0D3D, 0x0D3D, 0x0D4E, 0x0D4E, 0x0D54, 0x0D56, 0x0D5F, 0x0D61, 0x0D7A, 0x0D7F, 0x0D85, 0x0D96,
    0x0D9A, 0x0DB1, 0x0DB3, 0x0DBB, 0x0DBD, 0x0DBD, 0x0DC0, 0x0DC6, 0x0E01, 0x0E30, 0x0E32, 0x0E33, 0x0E40, 0x0E46, 0x0E81,
    0x0E82, 0x0E84, 0x0E84, 0x0E86, 0x0E8A, 0x0E8C, 0x0EA3, 0x0EA5, 0x0EA5, 0x0EA7, 0x0EB0, 0x0EB2, 0x0EB3, 0x0EBD, 0x0EBD,
    0x0EC0, 0x0EC4, 0x0EC6, 0x0EC6, 0x0EDC, 0x0EDF, 0x0F00, 0x0F00, 0x0F40, 0x0F47, 0x0F49, 0x0F6C, 0x0F88, 0x0F8C, 0x1000,
    0x102A, 0x103F, 0x103F, 0x1050, 0x1055, 0x105A, 0x105D, 0x1061, 0x1061, 0x1065, 0x1066, 0x106E, 0x1070, 0x1075, 0x1081,
    0x108E, 0x108E, 0x10A0, 0x10C5, 0x10C7, 0x10C7, 0x10CD, 0x10CD, 0x10D0, 0x10FA, 0x10FC, 0x1248, 0x124A, 0x124D, 0x1250,
    0x1256, 0x1258, 0x1258, 0x125A, 0x125D, 0x1260, 0x1288, 0x128A, 0x128D, 0x1290, 0x12B0, 0x12B2, 0x12B5, 0x12B8, 0x12BE,
    0x12C0, 0x12C0, 0x12C2, 0x12C5, 0x12C8, 0x12D6, 0x12D8, 0x1310, 0x1312, 0x1315, 0x1318, 0x135A, 0x1380, 0x138F, 0x13A0,
    0x13F5, 0x13F8, 0x13FD, 0x1401, 0x166C, 0x166F, 0x167F, 0x1681, 0x169A, 0x16A0, 0x16EA, 0x16F1, 0x16F8, 0x1700, 0x170C,
    0x170E, 0x1711, 0x1720, 0x1731, 0x1740, 0x1751, 0x1760, 0x176C, 0x176E, 0x1770, 0x1780, 0x17B3, 0x17D7, 0x17D7, 0x17DC,
    0x17DC, 0x1820, 0x1878, 0x1880, 0x1884, 0x1887, 0x18A8, 0x18AA, 0x18AA, 0x18B0, 0x18F5, 0x1900, 0x191E, 0x1950, 0x196D,
    0x1970, 0x1974, 0x1980, 0x19AB, 0x19B0, 0x19C9, 0x1A00, 0x1A16, 0x1A20, 0x1A54, 0x1AA7, 0x1AA7, 0x1B05, 0x1B33, 0x1B45,
    0x1B4B, 0x1B83, 0x1BA0, 0x1BAE, 0x1BAF, 0x1BBA, 0x1BE5, 0x1C00, 0x1C23, 0x1C4D, 0x1C4F, 0x1C5A, 0x1C7D, 0x1C80, 0x1C88,
    0x1C90, 0x1CBA, 0x1CBD, 0x1CBF, 0x1CE9, 0x1CEC, 0x1CEE, 0x1CF3, 0x1CF5, 0x1CF6, 0x1CFA, 0x1CFA, 0x1D00, 0x1DBF, 0x1E00,
    0x1F15, 0x1F18, 0x1F1D, 0x1F20, 0x1F45, 0x1F48, 0x1F4D, 0x1F50, 0x1F57, 0x1F59, 0x1F59, 0x1F5B, 0x1F5B, 0x1F5D, 0x1F5D,
    0x1F5F, 0x1F7D, 0x1F80, 0x1FB4, 0x1FB6, 0x1FBC, 0x1FBE, 0x1FBE, 0x1FC2, 0x1FC4, 0x1FC6, 0x1FCC, 0x1FD0, 0x1FD3, 0x1FD6,
    0x1FDB, 0x1FE0, 0x1FEC, 0x1FF2, 0x1FF4, 0x1FF6, 0x1FFC, 0x2071, 0x2071, 0x207F, 0x207F, 0x2090, 0x209C, 0x2102, 0x2102,
    0x2107, 0x2107, 0x210A, 0x2113, 0x2115, 0x2115, 0x2119, 0x211D, 0x2124, 0x2124, 0x2126, 0x2126, 0x2128, 0x2128, 0x212A,
    0x212D, 0x212F, 0x2139, 0x213C, 0x213F, 0x2145, 0x2149, 0x214E, 0x214E, 0x2183, 0x2184, 0x2C00, 0x2C2E, 0x2C30, 0x2C5E,
    0x2C60, 0x2CE4, 0x2CEB, 0x2CEE, 0x2CF2, 0x2CF3, 0x2D00, 0x2D25, 0x2D27, 0x2D27, 0x2D2D, 0x2D2D, 0x2D30, 0x2D67, 0x2D6F,
    0x2D6F, 0x2D80, 0x2D96, 0x2DA0, 0x2DA6, 0x2DA8, 0x2DAE, 0x2DB0, 0x2DB6, 0x2DB8, 0x2DBE, 0x2DC0, 0x2DC6, 0x2DC8, 0x2DCE,
    0x2DD0, 0x2DD6, 0x2DD8, 0x2DDE, 0x2E2F, 0x2E2F, 0x3005, 0x3006, 0x3031, 0x3035, 0x303B, 0x303C, 0x3041, 0x3096, 0x309D,
    0x309F, 0x30A1, 0x30FA, 0x30FC, 0x30FF, 0x3105, 0x312F, 0x3131, 0x318E, 0x31A0, 0x31BF, 0x31F0, 0x31FF, 0x3400, 0x4DBF,
    0x4E00, 0x9FFC, 0xA000, 0xA48C, 0xA4D0, 0xA4FD, 0xA500, 0xA60C, 0xA610, 0xA61F, 0xA62A, 0xA62B, 0xA640, 0xA66E, 0xA67F,
    0xA69D, 0xA6A0, 0xA6E5, 0xA717, 0xA71F, 0xA722, 0xA788, 0xA78B, 0xA7BF, 0xA7C2, 0xA7CA, 0xA7F5, 0xA801, 0xA803, 0xA805,
    0xA807, 0xA80A, 0xA80C, 0xA822, 0xA840, 0xA873, 0xA882, 0xA8B3, 0xA8F2, 0xA8F7, 0xA8FB, 0xA8FB, 0xA8FD, 0xA8FE, 0xA90A,
    0xA925, 0xA930, 0xA946, 0xA960, 0xA97C, 0xA984, 0xA9B2, 0xA9CF, 0xA9CF, 0xA9E0, 0xA9E4, 0xA9E6, 0xA9EF, 0xA9FA, 0xA9FE,
    0xAA00, 0xAA28, 0xAA40, 0xAA42, 0xAA44, 0xAA4B, 0xAA60, 0xAA76, 0xAA7A, 0xAA7A, 0xAA7E, 0xAAAF, 0xAAB1, 0xAAB1, 0xAAB5,
    0xAAB6, 0xAAB9, 0xAABD, 0xAAC0, 0xAAC0, 0xAAC2, 0xAAC2, 0xAADB, 0xAADD, 0xAAE0, 0xAAEA, 0xAAF2, 0xAAF4, 0xAB01, 0xAB06,
    0xAB09, 0xAB0E, 0xAB11, 0xAB16, 0xAB20, 0xAB26, 0xAB28, 0xAB2E, 0xAB30, 0xAB5A, 0xAB5C, 0xAB69, 0xAB70, 0xABE2, 0xAC00,
    0xD7A3, 0xD7B0, 0xD7C6, 0xD7CB, 0xD7FB, 0xF900, 0xFA6D, 0xFA70, 0xFAD9, 0xFB00, 0xFB06, 0xFB13, 0xFB17, 0xFB1D, 0xFB1D,
    0xFB1F, 0xFB28, 0xFB2A, 0xFB36, 0xFB38, 0xFB3C, 0xFB3E, 0xFB3E, 0xFB40, 0xFB41, 0xFB43, 0xFB44, 0xFB46, 0xFBB1, 0xFBD3,
    0xFD3D, 0xFD50, 0xFD8F, 0xFD92, 0xFDC7, 0xFDF0, 0xFDFB, 0xFE70, 0xFE74, 0xFE76, 0xFEFC, 0xFF21, 0xFF3A, 0xFF41, 0xFF5A,
    0xFF66, 0xFFBE, 0xFFC2, 0xFFC7, 0xFFCA, 0xFFCF, 0xFFD2, 0xFFD7, 0xFFDA, 0xFFDC, 0x10000, 0x1000B, 0x1000D, 0x10026,
    0x10028, 0x1003A, 0x1003C, 0x1003D, 0x1003F, 0x1004D, 0x10050, 0x1005D, 0x10080, 0x100FA, 0x10280, 0x1029C, 0x102A0,
    0x102D0, 0x10300, 0x1031F, 0x1032D, 0x10340, 0x10342, 0x10349, 0x10350, 0x10375, 0x10380, 0x1039D, 0x103A0, 0x103C3,
    0x103C8, 0x103CF, 0x10400, 0x1049D, 0x104B0, 0x104D3, 0x104D8, 0x104FB, 0x10500, 0x10527, 0x10530, 0x10563, 0x10600,
    0x10736, 0x10740, 0x10755, 0x10760, 0x10767, 0x10800, 0x10805, 0x10808, 0x10808, 0x1080A, 0x10835, 0x10837, 0x10838,
    0x1083C, 0x1083C, 0x1083F, 0x10855, 0x10860, 0x10876, 0x10880, 0x1089E, 0x108E0, 0x108F2, 0x108F4, 0x108F5, 0x10900,
    0x10915, 0x10920, 0x10939, 0x10980, 0x109B7, 0x109BE, 0x109BF, 0x10A00, 0x10A00, 0x10A10, 0x10A13, 0x10A15, 0x10A17,
    0x10A19, 0x10A35, 0x10A60, 0x10A7C, 0x10A80, 0x10A9C, 0x10AC0, 0x10AC7, 0x10AC9, 0x10AE4, 0x10B00, 0x10B35, 0x10B40,
    0x10B55, 0x10B60, 0x10B72, 0x10B80, 0x10B91, 0x10C00, 0x10C48, 0x10C80, 0x10CB2, 0x10CC0, 0x10CF2, 0x10D00, 0x10D23,
    0x10E80, 0x10EA9, 0x10EB0, 0x10EB1, 0x10F00, 0x10F1C, 0x10F27, 0x10F27, 0x10F30, 0x10F45, 0x10FB0, 0x10FC4, 0x10FE0,
    0x10FF6, 0x11003, 0x11037, 0x11083, 0x110AF, 0x110D0, 0x110E8, 0x11103, 0x11126, 0x11144, 0x11144, 0x11147, 0x11147,
    0x11150, 0x11172, 0x11176, 0x11176, 0x11183, 0x111B2, 0x111C1, 0x111C4, 0x111DA, 0x111DA, 0x111DC, 0x111DC, 0x11200,
    0x11211, 0x11213, 0x1122B, 0x11280, 0x11286, 0x11288, 0x11288, 0x1128A, 0x1128D, 0x1128F, 0x1129D, 0x1129F, 0x112A8,
    0x112B0, 0x112DE, 0x11305, 0x1130C, 0x1130F, 0x11310, 0x11313, 0x11328, 0x1132A, 0x11330, 0x11332, 0x11333, 0x11335,
    0x11339, 0x1133D, 0x1133D, 0x11350, 0x11350, 0x1135D, 0x11361, 0x11400, 0x11434, 0x11447, 0x1144A, 0x1145F, 0x11461,
    0x11480, 0x114AF, 0x114C4, 0x114C5, 0x114C7, 0x114C7, 0x11580, 0x115AE, 0x115D8, 0x115DB, 0x11600, 0x1162F, 0x11644,
    0x11644, 0x11680, 0x116AA, 0x116B8, 0x116B8, 0x11700, 0x1171A, 0x11800, 0x1182B, 0x118A0, 0x118DF, 0x118FF, 0x11906,
    0x11909, 0x11909, 0x1190C, 0x11913, 0x11915, 0x11916, 0x11918, 0x1192F, 0x1193F, 0x1193F, 0x11941, 0x11941, 0x119A0,
    0x119A7, 0x119AA, 0x119D0, 0x119E1, 0x119E1, 0x119E3, 0x119E3, 0x11A00, 0x11A00, 0x11A0B, 0x11A32, 0x11A3A, 0x11A3A,
    0x11A50, 0x11A50, 0x11A5C, 0x11A89, 0x11A9D, 0x11A9D, 0x11AC0, 0x11AF8, 0x11C00, 0x11C08, 0x11C0A, 0x11C2E, 0x11C40,
    0x11C40, 0x11C72, 0x11C8F, 0x11D00, 0x11D06, 0x11D08, 0x11D09, 0x11D0B, 0x11D30, 0x11D46, 0x11D46, 0x11D60, 0x11D65,
    0x11D67, 0x11D68, 0x11D6A, 0x11D89, 0x11D98, 0x11D98, 0x11EE0, 0x11EF2, 0x11FB0, 0x11FB0, 0x12000, 0x12399, 0x12480,
    0x12543, 0x13000, 0x1342E, 0x14400, 0x14646, 0x16800, 0x16A38, 0x16A40, 0x16A5E, 0x16AD0, 0x16AED, 0x16B00, 0x16B2F,
    0x16B40, 0x16B43, 0x16B63, 0x16B77, 0x16B7D, 0x16B8F, 0x16E40, 0x16E7F, 0x16F00, 0x16F4A, 0x16F50, 0x16F50, 0x16F93,
    0x16F9F, 0x16FE0, 0x16FE1, 0x16FE3, 0x16FE3, 0x17000, 0x187F7, 0x18800, 0x18CD5, 0x18D00, 0x18D08, 0x1B000, 0x1B11E,
    0x1B150, 0x1B152, 0x1B164, 0x1B167, 0x1B170, 0x1B2FB, 0x1BC00, 0x1BC6A, 0x1BC70, 0x1BC7C, 0x1BC80, 0x1BC88, 0x1BC90,
    0x1BC99, 0x1D400, 0x1D454, 0x1D456, 0x1D49C, 0x1D49E, 0x1D49F, 0x1D4A2, 0x1D4A2, 0x1D4A5, 0x1D4A6, 0x1D4A9, 0x1D4AC,
    0x1D4AE, 0x1D4B9, 0x1D4BB, 0x1D4BB, 0x1D4BD, 0x1D4C3, 0x1D4C5, 0x1D505, 0x1D507, 0x1D50A, 0x1D50D, 0x1D514, 0x1D516,
    0x1D51C, 0x1D51E, 0x1D539, 0x1D53B, 0x1D53E, 0x1D540, 0x1D544, 0x1D546, 0x1D546, 0x1D54A, 0x1D550, 0x1D552, 0x1D6A5,
    0x1D6A8, 0x1D6C0, 0x1D6C2, 0x1D6DA, 0x1D6DC, 0x1D6FA, 0x1D6FC, 0x1D714, 0x1D716, 0x1D734, 0x1D736, 0x1D74E, 0x1D750,
    0x1D76E, 0x1D770, 0x1D788, 0x1D78A, 0x1D7A8, 0x1D7AA, 0x1D7C2, 0x1D7C4, 0x1D7CB, 0x1E100, 0x1E12C, 0x1E137, 0x1E13D,
    0x1E14E, 0x1E14E, 0x1E2C0, 0x1E2EB, 0x1E800, 0x1E8C4, 0x1E900, 0x1E943, 0x1E94B, 0x1E94B, 0x1EE00, 0x1EE03, 0x1EE05,
    0x1EE1F, 0x1EE21, 0x1EE22, 0x1EE24, 0x1EE24, 0x1EE27, 0x1EE27, 0x1EE29, 0x1EE32, 0x1EE34, 0x1EE37, 0x1EE39, 0x1EE39,
    0x1EE3B, 0x1EE3B, 0x1EE42, 0x1EE42, 0x1EE47, 0x1EE47, 0x1EE49, 0x1EE49, 0x1EE4B, 0x1EE4B, 0x1EE4D, 0x1EE4F, 0x1EE51,
    0x1EE52, 0x1EE54, 0x1EE54, 0x1EE57, 0x1EE57, 0x1EE59, 0x1EE59, 0x1EE5B, 0x1EE5B, 0x1EE5D, 0x1EE5D, 0x1EE5F, 0x1EE5F,
    0x1EE61, 0x1EE62, 0x1EE64, 0x1EE64, 0x1EE67, 0x1EE6A, 0x1EE6C, 0x1EE72, 0x1EE74, 0x1EE77, 0x1EE79, 0x1EE7C, 0x1EE7E,
    0x1EE7E, 0x1EE80, 0x1EE89, 0x1EE8B, 0x1EE9B, 0x1EEA1, 0x1EEA3, 0x1EEA5, 0x1EEA9, 0x1EEAB, 0x1EEBB, 0x20000, 0x2A6DD,
    0x2A700, 0x2B734, 0x2B740, 0x2B81D, 0x2B820, 0x2CEA1, 0x2CEB0, 0x2EBE0, 0x2F800, 0x2FA1D, 0x30000, 0x3134A]"

definition RE_PROP_ND :: "u32 list" where
  "RE_PROP_ND = [
    0x0030, 0x0039, 0x0660, 0x0669, 0x06F0, 0x06F9, 0x07C0, 0x07C9, 0x0966, 0x096F, 0x09E6, 0x09EF, 0x0A66, 0x0A6F, 0x0AE6,
    0x0AEF, 0x0B66, 0x0B6F, 0x0BE6, 0x0BEF, 0x0C66, 0x0C6F, 0x0CE6, 0x0CEF, 0x0D66, 0x0D6F, 0x0DE6, 0x0DEF, 0x0E50, 0x0E59,
    0x0ED0, 0x0ED9, 0x0F20, 0x0F29, 0x1040, 0x1049, 0x1090, 0x1099, 0x17E0, 0x17E9, 0x1810, 0x1819, 0x1946, 0x194F, 0x19D0,
    0x19D9, 0x1A80, 0x1A89, 0x1A90, 0x1A99, 0x1B50, 0x1B59, 0x1BB0, 0x1BB9, 0x1C40, 0x1C49, 0x1C50, 0x1C59, 0xA620, 0xA629,
    0xA8D0, 0xA8D9, 0xA900, 0xA909, 0xA9D0, 0xA9D9, 0xA9F0, 0xA9F9, 0xAA50, 0xAA59, 0xABF0, 0xABF9, 0xFF10, 0xFF19, 0x104A0,
    0x104A9, 0x10D30, 0x10D39, 0x11066, 0x1106F, 0x110F0, 0x110F9, 0x11136, 0x1113F, 0x111D0, 0x111D9, 0x112F0, 0x112F9,
    0x11450, 0x11459, 0x114D0, 0x114D9, 0x11650, 0x11659, 0x116C0, 0x116C9, 0x11730, 0x11739, 0x118E0, 0x118E9, 0x11950,
    0x11959, 0x11C50, 0x11C59, 0x11D50, 0x11D59, 0x11DA0, 0x11DA9, 0x16A60, 0x16A69, 0x16B50, 0x16B59, 0x1D7CE, 0x1D7FF,
    0x1E140, 0x1E149, 0x1E2F0, 0x1E2F9, 0x1E950, 0x1E959, 0x1FBF0, 0x1FBF9]"

definition RE_RANGES_D :: "u32 list" where
  "RE_RANGES_D = [
    0x0030, 0x0039]"

definition RE_RANGES_WHITE :: "u32 list" where
  "RE_RANGES_WHITE = [
    0x0009, 0x000D, 0x0020, 0x0020, 0x00A0, 0x00A0, 0x1680, 0x1680, 0x2000, 0x200A, 0x2028, 0x2029, 0x202F, 0x202F, 0x205F,
    0x205F, 0x3000, 0x3000, 0xFEFF, 0xFEFF]"

definition RE_RANGES_WORD :: "u32 list" where
  "RE_RANGES_WORD = [
    0x0030, 0x0039, 0x0041, 0x005A, 0x005F, 0x005F, 0x0061, 0x007A]"

definition RE_RANGES_NOTD :: "u32 list" where
  "RE_RANGES_NOTD = [
    0x0000, 0x002F, 0x003A, 0x10FFFF]"

definition RE_RANGES_NOTW :: "u32 list" where
  "RE_RANGES_NOTW = [
    0x0000, 0x002F, 0x003A, 0x0040, 0x005B, 0x005E, 0x0060, 0x0060, 0x007B, 0x10FFFF]"

definition RE_RANGES_NOTS :: "u32 list" where
  "RE_RANGES_NOTS = [
    0x0000, 0x0008, 0x000E, 0x001F, 0x0021, 0x009F, 0x00A1, 0x167F, 0x1681, 0x1FFF, 0x200B, 0x2027, 0x202A, 0x202E, 0x2030,
    0x205E, 0x2060, 0x2FFF, 0x3001, 0xFEFE, 0xFF00, 0x10FFFF]"

section \<open>Syntax trees, instructions, fragments\<close>

datatype re_kind = A_BYTE | A_CLASS | A_ASSERT | A_CAT | A_ALT | A_REP | A_EMPTY

definition RE_AS_BOL :: byte where "RE_AS_BOL = 0"
definition RE_AS_EOL :: byte where "RE_AS_EOL = 1"
definition RE_AS_WBOUND :: byte where "RE_AS_WBOUND = 2"
definition RE_AS_NWBOUND :: byte where "RE_AS_NWBOUND = 3"

record re_ast =
  ra_kind :: re_kind
  ra_a :: byte
  ra_b :: byte
  ra_cls :: byte
  ra_lazy :: bool
  ra_min :: nat
  ra_max :: nat

datatype re_op = RE_OP_CHAR | RE_OP_BYTE | RE_OP_SPLIT | RE_OP_JMP | RE_OP_ASSERT | RE_OP_MATCH

record re_inst =
  ri_op :: re_op
  ri_cls :: byte
  ri_x :: nat
  ri_y :: nat

text \<open>The pending arrows are the set of the bits \<^verbatim>\<open>pc * 2 + slot\<close>; the entry \<open>None\<close> is \<^verbatim>\<open>-1\<close>.\<close>

record re_frag =
  fr_in :: "nat option"
  fr_bits :: "nat set"

text \<open>A class is a bitmap of 32 bytes, and a range table with its count when it is by code point.\<close>

record re_ctx =
  rc_pat :: "byte list"
  rc_pi :: nat
  rc_err :: bool
  rc_ast :: "re_ast list"
  rc_cls :: "byte list list"
  rc_ucls :: "(u32 list \<times> nat) option list"
  rc_inst :: "re_inst list"

definition re_word :: "byte \<Rightarrow> bool" where
  "re_word b \<longleftrightarrow> (0x30 \<le> b \<and> b \<le> 0x39) \<or> (0x61 \<le> b \<and> b \<le> 0x7A) \<or> (0x41 \<le> b \<and> b \<le> 0x5A) \<or> b = 0x5F"

section \<open>The parser\<close>

definition re_fail :: "re_ctx \<Rightarrow> re_ctx" where
  "re_fail c = c\<lparr>rc_err := True\<rparr>"

definition re_adv :: "nat \<Rightarrow> re_ctx \<Rightarrow> re_ctx" where
  "re_adv n c = c\<lparr>rc_pi := rc_pi c + n\<rparr>"

definition re_at :: "re_ctx \<Rightarrow> byte \<Rightarrow> bool" where
  "re_at c ch \<longleftrightarrow> rc_pi c < length (rc_pat c) \<and> rc_pat c ! rc_pi c = ch"

definition ast_new :: "re_kind \<Rightarrow> re_ctx \<Rightarrow> nat option \<times> re_ctx" where
  "ast_new kind c =
     (if RE_MAX_AST \<le> length (rc_ast c) then (None, re_fail c)
      else (Some (length (rc_ast c)),
            c\<lparr>rc_ast := rc_ast c @ [\<lparr>ra_kind = kind, ra_a = 0, ra_b = 0, ra_cls = 0, ra_lazy = False, ra_min = 1, ra_max = 1\<rparr>]\<rparr>))"

text \<open>A node and the members its maker sets.\<close>

definition ast_make :: "re_kind \<Rightarrow> (re_ast \<Rightarrow> re_ast) \<Rightarrow> re_ctx \<Rightarrow> nat option \<times> re_ctx" where
  "ast_make kind f c =
     (case ast_new kind c of
        (None, c) \<Rightarrow> (None, c)
      | (Some nid, c) \<Rightarrow> (Some nid, c\<lparr>rc_ast := (rc_ast c)[nid := f (rc_ast c ! nid)]\<rparr>))"

definition cls_new :: "re_ctx \<Rightarrow> nat option \<times> re_ctx" where
  "cls_new c =
     (if RE_MAX_CLS \<le> length (rc_cls c) then (None, re_fail c)
      else (Some (length (rc_cls c)), c\<lparr>rc_cls := rc_cls c @ [replicate 32 0], rc_ucls := rc_ucls c @ [None]\<rparr>))"

definition cls_bits_set :: "nat \<Rightarrow> byte list \<Rightarrow> byte list" where
  "cls_bits_set b bits = (let k = (b div 8) mod 32 in bits[k := bits ! k OR push_bit (b mod 8) 1])"

definition cls_has :: "byte list \<Rightarrow> nat \<Rightarrow> bool" where
  "cls_has bits b \<longleftrightarrow> bits ! ((b div 8) mod 32) AND push_bit (b mod 8) 1 \<noteq> 0"

definition cls_set :: "nat \<Rightarrow> nat \<Rightarrow> re_ctx \<Rightarrow> re_ctx" where
  "cls_set nid b c = c\<lparr>rc_cls := (rc_cls c)[nid := cls_bits_set b (rc_cls c ! nid)]\<rparr>"

definition cls_add_ranges :: "nat \<Rightarrow> u32 list \<Rightarrow> nat \<Rightarrow> re_ctx \<Rightarrow> re_ctx" where
  "cls_add_ranges nid r n c = c\<lparr>rc_ucls := (rc_ucls c)[nid := Some (r, n)]\<rparr>"

definition cls_add_named :: "nat \<Rightarrow> bool \<Rightarrow> nat \<Rightarrow> re_ctx \<Rightarrow> re_ctx" where
  "cls_add_named nid neg kind c =
     (if kind = 0 then
        (if neg then cls_add_ranges nid RE_RANGES_NOTD 2 c else cls_add_ranges nid RE_RANGES_D 1 c)
      else if kind = 1 then
        (if neg then cls_add_ranges nid RE_RANGES_NOTW 5 c else cls_add_ranges nid RE_RANGES_WORD 4 c)
      else
        (if neg then cls_add_ranges nid RE_RANGES_NOTS 11 c else cls_add_ranges nid RE_RANGES_WHITE 10 c))"

definition re_hex :: "byte \<Rightarrow> nat option" where
  "re_hex ch =
     (if 0x30 \<le> ch \<and> ch \<le> 0x39 then Some (unat ch - 0x30)
      else if 0x61 \<le> ch \<and> ch \<le> 0x66 then Some (unat ch - 0x61 + 10)
      else if 0x41 \<le> ch \<and> ch \<le> 0x46 then Some (unat ch - 0x41 + 10)
      else None)"

fun p_hex :: "nat \<Rightarrow> nat \<Rightarrow> re_ctx \<Rightarrow> nat option \<times> re_ctx" where
  "p_hex 0 v c = (Some v, c)"
| "p_hex (Suc nibbles) v c =
     (if length (rc_pat c) \<le> rc_pi c then (None, c)
      else (case re_hex (rc_pat c ! rc_pi c) of None \<Rightarrow> (None, c) | Some d \<Rightarrow> p_hex nibbles (v * 16 + d) (re_adv 1 c)))"

text \<open>The four outcomes of an escape: \<^verbatim>\<open>0\<close>, \<^verbatim>\<open>1\<close>, \<^verbatim>\<open>-2\<close> and \<^verbatim>\<open>-1\<close>.\<close>

datatype re_esc = Esc_Byte byte | Esc_Class nat | Esc_Assert byte | Esc_Error

definition esc_named :: "bool \<Rightarrow> nat \<Rightarrow> re_ctx \<Rightarrow> re_esc \<times> re_ctx" where
  "esc_named neg kind c =
     (case cls_new c of (None, c) \<Rightarrow> (Esc_Error, c) | (Some nid, c) \<Rightarrow> (Esc_Class nid, cls_add_named nid neg kind c))"

definition esc_control :: "re_ctx \<Rightarrow> re_esc \<times> re_ctx" where
  "esc_control c =
     (let l = rc_pat c ! rc_pi c in
      if rc_pi c < length (rc_pat c) \<and> ((0x41 \<le> l \<and> l \<le> 0x5A) \<or> (0x61 \<le> l \<and> l \<le> 0x7A))
      then (Esc_Byte (l AND 0x1F), re_adv 1 c) else (Esc_Byte 0x63, c))"

text \<open>
  The property escape. For a name of eight bytes the source writes a terminator behind its eight-byte
  buffer; the verdict does not depend on it.
\<close>

definition esc_prop :: "re_ctx \<Rightarrow> re_esc \<times> re_ctx" where
  "esc_prop c =
     (let name = takeWhile (\<lambda>ch. ch \<noteq> 0x7D) (drop (rc_pi c + 1) (rc_pat c)); close = rc_pi c + 1 + length name in
      if re_at c 0x7B \<and> close < length (rc_pat c) \<and> 4 \<le> length name \<and> length name \<le> 8 \<and>
        (name = bytes_of ''Letter'' \<or> name = bytes_of ''digit'') then
        (case cls_new (c\<lparr>rc_pi := close + 1\<rparr>) of
           (None, c) \<Rightarrow> (Esc_Error, c)
         | (Some nid, c) \<Rightarrow>
             (Esc_Class nid,
              if name = bytes_of ''Letter'' then cls_add_ranges nid RE_PROP_L 622 c else cls_add_ranges nid RE_PROP_ND 61 c))
      else (Esc_Byte 0x70, c))"

definition p_escape :: "re_ctx \<Rightarrow> re_esc \<times> re_ctx" where
  "p_escape c =
     (if length (rc_pat c) \<le> rc_pi c then (Esc_Error, re_fail c)
      else
        let e = rc_pat c ! rc_pi c; c = re_adv 1 c in
        if e = 0x64 then esc_named False 0 c
        else if e = 0x77 then esc_named False 1 c
        else if e = 0x73 then esc_named False 2 c
        else if e = 0x44 then esc_named True 0 c
        else if e = 0x57 then esc_named True 1 c
        else if e = 0x53 then esc_named True 2 c
        else if e = 0x62 then (Esc_Assert RE_AS_WBOUND, c)
        else if e = 0x42 then (Esc_Assert RE_AS_NWBOUND, c)
        else if e = 0x6E then (Esc_Byte 0x0A, c)
        else if e = 0x74 then (Esc_Byte 0x09, c)
        else if e = 0x72 then (Esc_Byte 0x0D, c)
        else if e = 0x66 then (Esc_Byte 0x0C, c)
        else if e = 0x76 then (Esc_Byte 0x0B, c)
        else if e = 0x30 then (Esc_Byte 0x00, c)
        else if e = 0x63 then esc_control c
        else if e = 0x78 then
          (case p_hex 2 0 c of (None, c) \<Rightarrow> (Esc_Error, re_fail c) | (Some v, c) \<Rightarrow> (Esc_Byte (of_nat v), c))
        else if e = 0x70 then esc_prop c
        else if 0x30 \<le> e \<and> e \<le> 0x39 then (Esc_Error, re_fail c)
        else (Esc_Byte e, c))"

definition p_byte_atom :: "byte \<Rightarrow> re_ctx \<Rightarrow> nat option \<times> re_ctx" where
  "p_byte_atom b = ast_make A_BYTE (\<lambda>n. n\<lparr>ra_a := b\<rparr>)"

definition p_class_atom :: "nat \<Rightarrow> re_ctx \<Rightarrow> nat option \<times> re_ctx" where
  "p_class_atom cid = ast_make A_CLASS (\<lambda>n. n\<lparr>ra_cls := of_nat cid\<rparr>)"

definition p_assert_atom :: "byte \<Rightarrow> re_ctx \<Rightarrow> nat option \<times> re_ctx" where
  "p_assert_atom k = ast_make A_ASSERT (\<lambda>n. n\<lparr>ra_a := k\<rparr>)"

text \<open>The bytes a class escape adds to the bracket class \<open>nid\<close>.\<close>

definition class_merge :: "nat \<Rightarrow> nat \<Rightarrow> re_ctx \<Rightarrow> re_ctx" where
  "class_merge nid v c =
     (case rc_ucls c ! v of
        Some (r, n) \<Rightarrow>
          fold (\<lambda>k c. fold (cls_set nid) [unat (r ! (k * 2))..<Suc (min 0xFF (unat (r ! (k * 2 + 1))))] c) [0..<n] c
      | None \<Rightarrow> fold (\<lambda>b c. if cls_has (rc_cls c ! v) b then cls_set nid b c else c) [0..<256] c)"

text \<open>One member or the low end of a range; an assertion is no member.\<close>

definition class_lo :: "re_ctx \<Rightarrow> re_esc \<times> re_ctx" where
  "class_lo c =
     (if rc_pat c ! rc_pi c = 0x5C then
        (case p_escape (re_adv 1 c) of
           (Esc_Byte b, c) \<Rightarrow> (Esc_Byte b, c)
         | (Esc_Class v, c) \<Rightarrow> (Esc_Class v, c)
         | (_, c) \<Rightarrow> (Esc_Error, re_fail c))
      else (Esc_Byte (rc_pat c ! rc_pi c), re_adv 1 c))"

definition class_item :: "nat \<Rightarrow> re_ctx \<Rightarrow> bool \<times> re_ctx" where
  "class_item nid c =
     (case class_lo c of
        (Esc_Class v, c) \<Rightarrow> (True, class_merge nid v c)
      | (Esc_Byte lo, c) \<Rightarrow>
          if rc_pi c + 1 < length (rc_pat c) \<and> rc_pat c ! rc_pi c = 0x2D \<and> rc_pat c ! (rc_pi c + 1) \<noteq> 0x5D then
            (case class_lo (re_adv 1 c) of
               (Esc_Byte hi, c) \<Rightarrow>
                 if hi < lo then (False, re_fail c) else (True, fold (cls_set nid) [unat lo..<Suc (unat hi)] c)
             | (_, c) \<Rightarrow> (False, re_fail c))
          else (True, cls_set nid (unat lo) c)
      | (_, c) \<Rightarrow> (False, c))"

subsection \<open>The parser moves forward\<close>

definition moved :: "re_ctx \<Rightarrow> re_ctx \<Rightarrow> bool" where
  "moved c c' \<longleftrightarrow> rc_pat c' = rc_pat c \<and> rc_pi c \<le> rc_pi c' \<and> rc_ast c' = rc_ast c \<and> rc_inst c' = rc_inst c"

lemma moved_refl [simp]: "moved c c"
  by (simp add: moved_def)

lemma moved_trans: "moved a b \<Longrightarrow> moved b c \<Longrightarrow> moved a c"
  by (simp add: moved_def)

lemma moved_simps [simp]:
  "moved c (re_fail c') = moved c c'" "moved c (cls_set nid b c') = moved c c'"
  "moved c (cls_add_ranges nid r n c') = moved c c'" "moved c (cls_add_named nid neg kind c') = moved c c'"
  "moved c (c'\<lparr>rc_cls := k\<rparr>) = moved c c'" "moved c (re_adv n c)"
  by (simp_all add: moved_def re_fail_def cls_set_def cls_add_ranges_def cls_add_named_def re_adv_def)

lemma moved_fold: "(\<And>k c. moved c (f k c)) \<Longrightarrow> moved c (fold f ks c)"
  by (induction ks arbitrary: c) (auto intro: moved_trans)

lemma p_hex_moved: "p_hex n v c = (r, c') \<Longrightarrow> moved c c'"
proof (induction n v c rule: p_hex.induct)
  case (2 nibbles v c)
  then show ?case
    by (auto split: if_splits option.splits intro: moved_trans [of c "re_adv 1 c"])
qed simp

lemma cls_new_moved: "cls_new c = (r, c') \<Longrightarrow> moved c c'"
  by (auto simp: cls_new_def moved_def re_fail_def split: if_splits)

lemma esc_moved:
  "esc_named neg kind c = (r, c') \<Longrightarrow> moved c c'" "esc_control c = (r, c') \<Longrightarrow> moved c c'" "esc_prop c = (r, c') \<Longrightarrow> moved c c'"
proof -
  show "esc_named neg kind c = (r, c') \<Longrightarrow> moved c c'"
    by (auto simp: esc_named_def split: option.splits prod.splits dest: cls_new_moved)
  show "esc_control c = (r, c') \<Longrightarrow> moved c c'" by (auto simp: esc_control_def Let_def split: if_splits)
  show "esc_prop c = (r, c') \<Longrightarrow> moved c c'"
    by (auto simp: esc_prop_def Let_def moved_def cls_add_ranges_def split: option.splits prod.splits if_splits
        dest!: cls_new_moved)
qed

lemma p_escape_moved: "p_escape c = (r, c') \<Longrightarrow> moved c c'"
proof (cases "length (rc_pat c) \<le> rc_pi c")
  case False
  assume a: "p_escape c = (r, c')"
  have m: "moved c d" if "moved (re_adv 1 c) d" for d using moved_trans [OF _ that] by simp
  show ?thesis using a False unfolding p_escape_def Let_def
    by (auto split: if_splits option.splits prod.splits intro!: m dest: esc_moved p_hex_moved)
qed (auto simp: p_escape_def)

lemma class_merge_moved: "moved c (class_merge nid v c)"
  unfolding class_merge_def by (auto split: option.splits intro!: moved_fold)

lemma moved_adv: "moved (re_adv 1 c) c' \<longleftrightarrow> moved c c' \<and> rc_pi c < rc_pi c'"
  by (auto simp: moved_def re_adv_def)

lemma class_lo_moved: "class_lo c = (r, c') \<Longrightarrow> moved (re_adv 1 c) c'"
  by (auto simp: class_lo_def split: if_splits prod.splits re_esc.splits dest: p_escape_moved)

lemma sets_moved [simp]: "moved c (fold (cls_set nid) ks c') = moved c c'"
  by (induction ks arbitrary: c') simp_all

lemma class_item_moved: "class_item nid c = (ok, c') \<Longrightarrow> moved (re_adv 1 c) c'"
  by (auto simp: class_item_def moved_adv split: if_splits prod.splits re_esc.splits intro: moved_trans [OF _ class_merge_moved]
      dest!: class_lo_moved simp del: upt_Suc) (auto simp: moved_def re_adv_def)

function class_loop :: "nat \<Rightarrow> bool \<Rightarrow> re_ctx \<Rightarrow> bool \<times> re_ctx" where
  "class_loop nid first c =
     (if length (rc_pat c) \<le> rc_pi c then (False, re_fail c)
      else if rc_pat c ! rc_pi c = 0x5D \<and> \<not> first then (True, re_adv 1 c)
      else (case class_item nid c of (False, c) \<Rightarrow> (False, c) | (True, c) \<Rightarrow> class_loop nid False c))"
  by pat_completeness auto
termination
proof (relation "measure (\<lambda>(nid, first, c). length (rc_pat c) - rc_pi c)", goal_cases)
  case (2 nid first c ok c')
  then show ?case using class_item_moved [of nid c True c'] by (simp add: moved_def re_adv_def) linarith
qed simp

declare class_loop.simps [simp del]

definition p_class :: "re_ctx \<Rightarrow> nat option \<times> re_ctx" where
  "p_class c =
     (case cls_new c of
        (None, c) \<Rightarrow> (None, c)
      | (Some nid, c) \<Rightarrow>
          let neg = re_at c 0x5E; c = (if neg then re_adv 1 c else c) in
          (case class_loop nid True c of
             (False, c) \<Rightarrow> (None, c)
           | (True, c) \<Rightarrow>
               (Some nid, if neg then c\<lparr>rc_cls := (rc_cls c)[nid := map (\<lambda>b. NOT b) (rc_cls c ! nid)]\<rparr> else c)))"

text \<open>The digits of a bound; \<open>None\<close> when the value passes 255.\<close>

function quant_digits :: "nat \<Rightarrow> nat \<Rightarrow> re_ctx \<Rightarrow> (nat \<times> nat \<times> re_ctx) option" where
  "quant_digits n dn c =
     (if rc_pi c < length (rc_pat c) \<and> is_digit (rc_pat c ! rc_pi c) then
        let n = n * 10 + digit_val (rc_pat c ! rc_pi c) in
        if 255 < n then None else quant_digits n (dn + 1) (re_adv 1 c)
      else Some (n, dn, c))"
  by pat_completeness auto
termination by (relation "measure (\<lambda>(n, dn, c). length (rc_pat c) - rc_pi c)") (auto simp: re_adv_def)

declare quant_digits.simps [simp del]

text \<open>The bounds in braces: \<open>Some None\<close> is a literal brace, \<open>None\<close> a syntax error.\<close>

definition quant_upper :: "nat \<Rightarrow> re_ctx \<Rightarrow> (nat \<times> re_ctx) option" where
  "quant_upper n c =
     (if re_at c 0x2C then
        (case quant_digits 0 0 (re_adv 1 c) of
           None \<Rightarrow> None | Some (m, dm, c) \<Rightarrow> Some (if dm = 0 then RE_REP_INF else m, c))
      else Some (n, c))"

definition quant_braces :: "re_ctx \<Rightarrow> ((nat \<times> nat) \<times> re_ctx) option option" where
  "quant_braces c =
     (case quant_digits 0 0 (re_adv 1 c) of
        None \<Rightarrow> Some None
      | Some (n, dn, c) \<Rightarrow>
          if dn = 0 then Some None
          else
            (case quant_upper n c of
               None \<Rightarrow> Some None
             | Some (m, c) \<Rightarrow>
                 if \<not> re_at c 0x7D then Some None
                 else if m \<noteq> RE_REP_INF \<and> m < n then None
                 else Some (Some ((n, m), re_adv 1 c))))"

datatype re_quant = Quant_Error | Quant_None | Quant_Bounds nat nat bool

definition quant_lazy :: "nat \<Rightarrow> nat \<Rightarrow> re_ctx \<Rightarrow> re_quant \<times> re_ctx" where
  "quant_lazy mn mx c =
     (let lazy = re_at c 0x3F in (Quant_Bounds mn mx lazy, if lazy then re_adv 1 c else c))"

definition p_quant :: "re_ctx \<Rightarrow> re_quant \<times> re_ctx" where
  "p_quant c =
     (if re_at c 0x2A then quant_lazy 0 RE_REP_INF (re_adv 1 c)
      else if re_at c 0x2B then quant_lazy 1 RE_REP_INF (re_adv 1 c)
      else if re_at c 0x3F then quant_lazy 0 1 (re_adv 1 c)
      else if re_at c 0x7B then
        (case quant_braces c of
           None \<Rightarrow> (Quant_Error, re_fail c)
         | Some None \<Rightarrow> (Quant_None, c)
         | Some (Some ((n, m), c)) \<Rightarrow> quant_lazy n m c)
      else (Quant_None, c))"

type_synonym re_parse = "re_ctx \<Rightarrow> (nat option \<times> re_ctx) option"

definition p_group :: "re_parse \<Rightarrow> re_parse" where
  "p_group alt c =
     (let c = re_adv 1 c; colon = (rc_pi c + 1 < length (rc_pat c) \<and> rc_pat c ! (rc_pi c + 1) = 0x3A) in
      if re_at c 0x3F \<and> \<not> colon then Some (None, re_fail c)
      else
        alt (if re_at c 0x3F then re_adv 2 c else c) \<bind>
        (\<lambda>(r, c). case r of
            None \<Rightarrow> Some (None, c)
          | Some nid \<Rightarrow> if \<not> re_at c 0x29 then Some (None, re_fail c) else Some (Some nid, re_adv 1 c)))"

definition p_dot :: "re_ctx \<Rightarrow> nat option \<times> re_ctx" where
  "p_dot c =
     (case cls_new c of
        (None, c) \<Rightarrow> (None, c)
      | (Some cid, c) \<Rightarrow> p_class_atom cid (fold (\<lambda>b c. if b \<noteq> 0x0A then cls_set cid b c else c) [0..<256] c))"

text \<open>An atom; \<open>alt\<close> is the parser of a nested alternation.\<close>

definition p_atom :: "re_parse \<Rightarrow> re_parse" where
  "p_atom alt c =
     (if length (rc_pat c) \<le> rc_pi c then Some (None, re_fail c)
      else
        let ch = rc_pat c ! rc_pi c in
        if ch = 0x28 then p_group alt c
        else if ch = 0x5B then
          Some (case p_class (re_adv 1 c) of (None, c) \<Rightarrow> (None, c) | (Some cid, c) \<Rightarrow> p_class_atom cid c)
        else if ch = 0x2E then Some (p_dot (re_adv 1 c))
        else if ch = 0x5E then Some (p_assert_atom RE_AS_BOL (re_adv 1 c))
        else if ch = 0x24 then Some (p_assert_atom RE_AS_EOL (re_adv 1 c))
        else if ch = 0x5C then
          Some (case p_escape (re_adv 1 c) of
                  (Esc_Error, c) \<Rightarrow> (None, c)
                | (Esc_Assert k, c) \<Rightarrow> p_assert_atom k c
                | (Esc_Class v, c) \<Rightarrow> p_class_atom v c
                | (Esc_Byte b, c) \<Rightarrow> p_byte_atom b c)
        else if ch = 0x2A \<or> ch = 0x2B \<or> ch = 0x3F then Some (None, re_fail c)
        else if ch = 0x29 \<or> ch = 0x7C then Some (None, re_fail c)
        else Some (p_byte_atom ch (re_adv 1 c)))"

text \<open>The quantifier behind an atom, and the atom joined to the sequence before it.\<close>

definition seq_quant :: "nat \<Rightarrow> re_ctx \<Rightarrow> nat option \<times> re_ctx" where
  "seq_quant atom c =
     (case p_quant c of
        (Quant_Error, c) \<Rightarrow> (None, c)
      | (Quant_None, c) \<Rightarrow> (Some atom, c)
      | (Quant_Bounds mn mx lazy, c) \<Rightarrow>
          ast_make A_REP (\<lambda>n. n\<lparr>ra_a := of_nat atom, ra_min := mn, ra_max := mx, ra_lazy := lazy\<rparr>) c)"

definition seq_join :: "nat option \<Rightarrow> nat \<Rightarrow> re_ctx \<Rightarrow> nat option \<times> re_ctx" where
  "seq_join acc atom c =
     (case acc of
        None \<Rightarrow> (Some atom, c)
      | Some a \<Rightarrow> ast_make A_CAT (\<lambda>n. n\<lparr>ra_a := of_nat a, ra_b := of_nat atom\<rparr>) c)"

datatype re_next = Next_Done "nat option" re_ctx | Next_More nat re_ctx

definition seq_step :: "re_parse \<Rightarrow> nat option \<Rightarrow> re_ctx \<Rightarrow> re_next option" where
  "seq_step atom acc c =
     (if length (rc_pat c) \<le> rc_pi c \<or> re_at c 0x7C \<or> re_at c 0x29 then
        Some (case acc of Some a \<Rightarrow> Next_Done (Some a) c | None \<Rightarrow> (case ast_new A_EMPTY c of (r, c) \<Rightarrow> Next_Done r c))
      else
        atom c \<bind>
        (\<lambda>(r, c). Some (case r of
            None \<Rightarrow> Next_Done None c
          | Some a \<Rightarrow>
              (case seq_quant a c of
                 (None, c) \<Rightarrow> Next_Done None c
               | (Some a, c) \<Rightarrow>
                   (case seq_join acc a c of (None, c) \<Rightarrow> Next_Done None c | (Some a, c) \<Rightarrow> Next_More a c)))))"

partial_function (option) seq_loop :: "re_parse \<Rightarrow> nat option \<Rightarrow> re_ctx \<Rightarrow> (nat option \<times> re_ctx) option" where
  "seq_loop atom acc c =
     seq_step atom acc c \<bind> (\<lambda>n. case n of Next_Done r c \<Rightarrow> Some (r, c) | Next_More a c \<Rightarrow> seq_loop atom (Some a) c)"

definition p_seq :: "re_parse \<Rightarrow> re_parse" where
  "p_seq alt = seq_loop (p_atom alt) None"

definition alt_step :: "re_parse \<Rightarrow> nat \<Rightarrow> re_ctx \<Rightarrow> re_next option" where
  "alt_step seq acc c =
     (if \<not> re_at c 0x7C then Some (Next_Done (Some acc) c)
      else
        seq (re_adv 1 c) \<bind>
        (\<lambda>(r, c). Some (case r of
            None \<Rightarrow> Next_Done None c
          | Some right \<Rightarrow>
              (case ast_make A_ALT (\<lambda>n. n\<lparr>ra_a := of_nat acc, ra_b := of_nat right\<rparr>) c of
                 (None, c) \<Rightarrow> Next_Done None c | (Some nid, c) \<Rightarrow> Next_More nid c))))"

partial_function (option) alt_loop :: "re_parse \<Rightarrow> nat \<Rightarrow> re_ctx \<Rightarrow> (nat option \<times> re_ctx) option" where
  "alt_loop seq acc c =
     alt_step seq acc c \<bind> (\<lambda>n. case n of Next_Done r c \<Rightarrow> Some (r, c) | Next_More a c \<Rightarrow> alt_loop seq a c)"

declare seq_loop.simps [code] alt_loop.simps [code]

function p_alt :: "nat \<Rightarrow> re_ctx \<Rightarrow> (nat option \<times> re_ctx) option" where
  "p_alt depth c =
     (if RE_AST_DEPTH < depth then Some (None, re_fail c)
      else
        p_seq (p_alt (depth + 1)) c \<bind>
        (\<lambda>(r, c). case r of None \<Rightarrow> Some (None, c) | Some first \<Rightarrow> alt_loop (p_seq (p_alt (depth + 1))) first c))"
  by pat_completeness auto
termination by (relation "measure (\<lambda>(depth, c). Suc RE_AST_DEPTH - depth)") auto

declare p_alt.simps [simp del]

section \<open>The compiler\<close>

definition emit_inst :: "re_op \<Rightarrow> byte \<Rightarrow> nat \<Rightarrow> nat \<Rightarrow> re_ctx \<Rightarrow> nat option \<times> re_ctx" where
  "emit_inst op cls x y c =
     (if RE_MAX_INST \<le> length (rc_inst c) then (None, re_fail c)
      else (Some (length (rc_inst c)), c\<lparr>rc_inst := rc_inst c @ [\<lparr>ri_op = op, ri_cls = cls, ri_x = x, ri_y = y\<rparr>]\<rparr>))"

definition frag_init :: "nat option \<Rightarrow> re_frag" where
  "frag_init i = \<lparr>fr_in = i, fr_bits = {}\<rparr>"

definition frag_bit :: "nat \<Rightarrow> nat \<Rightarrow> re_frag \<Rightarrow> re_frag" where
  "frag_bit pc slot f = f\<lparr>fr_bits := insert (pc * 2 + slot) (fr_bits f)\<rparr>"

definition frag_or :: "re_frag \<Rightarrow> re_frag \<Rightarrow> re_frag" where
  "frag_or dst src = dst\<lparr>fr_bits := fr_bits dst \<union> fr_bits src\<rparr>"

definition set_arrow :: "nat \<Rightarrow> nat \<Rightarrow> re_inst list \<Rightarrow> re_inst list" where
  "set_arrow target k inst =
     (let pc = k div 2 in
      inst[pc := (if odd k then (inst ! pc)\<lparr>ri_y := target\<rparr> else (inst ! pc)\<lparr>ri_x := target\<rparr>)])"

definition frag_connect :: "nat set \<Rightarrow> nat \<Rightarrow> re_inst list \<Rightarrow> re_inst list" where
  "frag_connect bits target inst =
     fold (\<lambda>k inst. if k \<in> bits then set_arrow target k inst else inst) [0..<RE_MAX_INST * 2] inst"

text \<open>The arrows of a fragment resolved in the program of the context, and cleared.\<close>

definition connect :: "re_frag \<Rightarrow> nat \<Rightarrow> re_ctx \<Rightarrow> re_frag \<times> re_ctx" where
  "connect f target c = (f\<lparr>fr_bits := {}\<rparr>, c\<lparr>rc_inst := frag_connect (fr_bits f) target (rc_inst c)\<rparr>)"

definition frag_adopt :: "re_frag \<Rightarrow> re_frag \<Rightarrow> re_frag" where
  "frag_adopt dst src = dst\<lparr>fr_bits := fr_bits src\<rparr>"

definition frag_force_entry :: "re_frag \<Rightarrow> re_ctx \<Rightarrow> re_frag option \<times> re_ctx" where
  "frag_force_entry f c =
     (case fr_in f of
        Some _ \<Rightarrow> (Some f, c)
      | None \<Rightarrow>
          (case emit_inst RE_OP_JMP 0 0xFFFF 0 c of
             (None, c) \<Rightarrow> (None, c) | (Some j, c) \<Rightarrow> (Some (frag_bit j 0 (f\<lparr>fr_in := Some j\<rparr>)), c)))"

type_synonym re_comp = "nat \<Rightarrow> re_ctx \<Rightarrow> re_frag option \<times> re_ctx"

definition c_leaf :: "re_op \<Rightarrow> byte \<Rightarrow> re_ctx \<Rightarrow> re_frag option \<times> re_ctx" where
  "c_leaf op v c =
     (case emit_inst op v 0 0 c of
        (None, c) \<Rightarrow> (None, c) | (Some pc, c) \<Rightarrow> (Some (frag_bit pc 0 (frag_init (Some pc))), c))"

definition c_cat :: "re_comp \<Rightarrow> nat \<Rightarrow> nat \<Rightarrow> re_ctx \<Rightarrow> re_frag option \<times> re_ctx" where
  "c_cat node a b c =
     (case node a c of
        (None, c) \<Rightarrow> (None, c)
      | (Some f1, c) \<Rightarrow>
          (case node b c of
             (None, c) \<Rightarrow> (None, c)
           | (Some f2, c) \<Rightarrow>
               if fr_in f1 = None then (Some f2, c)
               else
                 (case fr_in f2 of
                    None \<Rightarrow> (Some f1, c)
                  | Some i2 \<Rightarrow> (case connect f1 i2 c of (f1, c) \<Rightarrow> (Some (frag_or f1 f2), c)))))"

definition set_x :: "nat \<Rightarrow> nat \<Rightarrow> re_ctx \<Rightarrow> re_ctx" where
  "set_x pc t c = c\<lparr>rc_inst := (rc_inst c)[pc := (rc_inst c ! pc)\<lparr>ri_x := t\<rparr>]\<rparr>"

definition set_y :: "nat \<Rightarrow> nat \<Rightarrow> re_ctx \<Rightarrow> re_ctx" where
  "set_y pc t c = c\<lparr>rc_inst := (rc_inst c)[pc := (rc_inst c ! pc)\<lparr>ri_y := t\<rparr>]\<rparr>"

definition c_alt :: "re_comp \<Rightarrow> nat \<Rightarrow> nat \<Rightarrow> re_ctx \<Rightarrow> re_frag option \<times> re_ctx" where
  "c_alt node a b c =
     (case emit_inst RE_OP_SPLIT 0 0xFFFF 0xFFFF c of
        (None, c) \<Rightarrow> (None, c)
      | (Some split, c) \<Rightarrow>
          (case node a c of
             (None, c) \<Rightarrow> (None, c)
           | (Some f1, c) \<Rightarrow>
               (case node b c of
                  (None, c) \<Rightarrow> (None, c)
                | (Some f2, c) \<Rightarrow>
                    (case frag_force_entry f1 c of
                       (None, c) \<Rightarrow> (None, c)
                     | (Some f1, c) \<Rightarrow>
                         (case frag_force_entry f2 c of
                            (None, c) \<Rightarrow> (None, c)
                          | (Some f2, c) \<Rightarrow>
                              (Some (frag_or (frag_or (frag_init (Some split)) f1) f2),
                               set_y split (the (fr_in f2)) (set_x split (the (fr_in f1)) c)))))))"

text \<open>The required copies, left-folded.\<close>

fun rep_prefix :: "re_comp \<Rightarrow> nat \<Rightarrow> nat \<Rightarrow> re_frag \<Rightarrow> re_ctx \<Rightarrow> re_frag option \<times> re_ctx" where
  "rep_prefix node a 0 acc c = (Some acc, c)"
| "rep_prefix node a (Suc n) acc c =
     (case node a c of
        (None, c) \<Rightarrow> (None, c)
      | (Some f, c) \<Rightarrow>
          (case fr_in f of
             None \<Rightarrow> rep_prefix node a n acc c
           | Some i \<Rightarrow>
               if fr_in acc = None then rep_prefix node a n f c
               else (case connect acc i c of (acc, c) \<Rightarrow> rep_prefix node a n (frag_adopt acc f) c)))"

definition rep_star :: "re_comp \<Rightarrow> nat \<Rightarrow> re_frag \<Rightarrow> re_ctx \<Rightarrow> re_frag option \<times> re_ctx" where
  "rep_star node a acc c =
     (case emit_inst RE_OP_SPLIT 0 0xFFFF 0xFFFF c of
        (None, c) \<Rightarrow> (None, c)
      | (Some split, c) \<Rightarrow>
          (case node a c of
             (None, c) \<Rightarrow> (None, c)
           | (Some f, c) \<Rightarrow>
               let c = (case fr_in f of Some i \<Rightarrow> snd (connect f split (set_x split i c)) | None \<Rightarrow> set_x split split c);
                   (out, c) = (if fr_in acc \<noteq> None then connect acc split c else (acc, c));
                   out = (if fr_in out = None then out\<lparr>fr_in := Some split\<rparr> else out)
               in (Some (frag_bit split 1 out), c)))"

text \<open>The optional copies: \<open>chain\<close> enters the next one, \<open>exits\<close> are the skip arms, \<open>i\<close> is the entry.\<close>

fun rep_tail :: "re_comp \<Rightarrow> nat \<Rightarrow> nat \<Rightarrow> re_frag \<Rightarrow> re_frag \<Rightarrow> nat option \<Rightarrow> re_ctx \<Rightarrow> re_frag option \<times> re_ctx" where
  "rep_tail node a 0 chain exits i c = (Some (frag_or (frag_or (frag_init i) chain) exits), c)"
| "rep_tail node a (Suc n) chain exits i c =
     (case emit_inst RE_OP_SPLIT 0 0xFFFF 0xFFFF c of
        (None, c) \<Rightarrow> (None, c)
      | (Some split, c) \<Rightarrow>
          (case connect chain split c of (chain, c) \<Rightarrow>
             (case node a c of
                (None, c) \<Rightarrow> (None, c)
              | (Some f, c) \<Rightarrow>
                  let (chain, c) = (case fr_in f of Some j \<Rightarrow> (chain, set_x split j c) | None \<Rightarrow> (frag_bit split 0 chain, c))
                  in rep_tail node a n (frag_or chain f) (frag_bit split 1 exits) (if i = None then Some split else i) c)))"

definition c_rep :: "re_comp \<Rightarrow> nat \<Rightarrow> nat \<Rightarrow> nat \<Rightarrow> re_ctx \<Rightarrow> re_frag option \<times> re_ctx" where
  "c_rep node a mn mx c =
     (case rep_prefix node a mn (frag_init None) c of
        (None, c) \<Rightarrow> (None, c)
      | (Some acc, c) \<Rightarrow>
          if mx = RE_REP_INF then rep_star node a acc c
          else rep_tail node a ((mx + 0x10000 - mn) mod 0x10000) acc (frag_init None) (fr_in acc) c)"

text \<open>One node; an nid behind the nodes reads a zeroed entry, which has no kind.\<close>

definition c_body :: "re_comp \<Rightarrow> re_comp" where
  "c_body node nid c =
     (if length (rc_ast c) \<le> nid then (None, re_fail c)
      else
        let a = rc_ast c ! nid in
        case ra_kind a of
          A_EMPTY \<Rightarrow> (Some (frag_init None), c)
        | A_BYTE \<Rightarrow> c_leaf RE_OP_BYTE (ra_a a) c
        | A_CLASS \<Rightarrow> c_leaf RE_OP_CHAR (ra_cls a) c
        | A_ASSERT \<Rightarrow> c_leaf RE_OP_ASSERT (ra_a a) c
        | A_CAT \<Rightarrow> c_cat node (unat (ra_a a)) (unat (ra_b a)) c
        | A_ALT \<Rightarrow> c_alt node (unat (ra_a a)) (unat (ra_b a)) c
        | A_REP \<Rightarrow> c_rep node (unat (ra_a a)) (ra_min a) (ra_max a) c)"

function c_node :: "nat \<Rightarrow> nat \<Rightarrow> re_ctx \<Rightarrow> re_frag option \<times> re_ctx" where
  "c_node depth nid c =
     (if RE_AST_DEPTH + 8 < depth then (None, re_fail c) else c_body (c_node (depth + 1)) nid c)"
  by pat_completeness auto
termination by (relation "measure (\<lambda>(depth, nid, c). RE_AST_DEPTH + 9 - depth)") auto

declare c_node.simps [simp del]

definition re_start :: "byte list \<Rightarrow> re_ctx" where
  "re_start pat = \<lparr>rc_pat = pat, rc_pi = 0, rc_err = False, rc_ast = [], rc_cls = [], rc_ucls = [], rc_inst = []\<rparr>"

text \<open>The entry and the context, or \<open>None\<close> for a syntax error.\<close>

definition re_finish :: "nat \<Rightarrow> re_ctx \<Rightarrow> (nat option \<times> re_ctx) option" where
  "re_finish root c =
     (case c_node 0 root c of
        (None, c) \<Rightarrow> None
      | (Some f, c) \<Rightarrow>
          (case emit_inst RE_OP_MATCH 0 0 0 c of
             (None, c) \<Rightarrow> None
           | (Some _, c) \<Rightarrow>
               (case connect f (length (rc_inst c) - 1) c of (_, c) \<Rightarrow> if rc_err c then None else Some (fr_in f, c))))"

definition re_build :: "byte list \<Rightarrow> (nat option \<times> re_ctx) option option" where
  "re_build pat =
     p_alt 0 (re_start pat) \<bind>
     (\<lambda>(r, c). Some (case r of
         None \<Rightarrow> None
       | Some root \<Rightarrow> if rc_pi c \<noteq> length (rc_pat c) then None else re_finish root c))"

section \<open>The machine\<close>

fun cp_tail :: "byte list \<Rightarrow> nat \<Rightarrow> nat \<Rightarrow> u32 \<Rightarrow> u32 option" where
  "cp_tail s at 0 cp = Some cp"
| "cp_tail s at (Suc n) cp =
     (if s ! at AND 0xC0 \<noteq> 0x80 then None else cp_tail s (at + 1) n (push_bit 6 cp OR (ucast (s ! at) AND 0x3F)))"

definition cp_lead :: "byte \<Rightarrow> (nat \<times> u32) option" where
  "cp_lead b =
     (if b AND 0xE0 = 0xC0 \<and> 0xC2 \<le> b then Some (2, ucast b AND 0x1F)
      else if b AND 0xF0 = 0xE0 then Some (3, ucast b AND 0x0F)
      else if b AND 0xF8 = 0xF0 \<and> b \<le> 0xF4 then Some (4, ucast b AND 0x07)
      else None)"

text \<open>The code point at an offset below \<open>s_len\<close> and its length.\<close>

definition re_cp_at :: "byte list \<Rightarrow> nat \<Rightarrow> nat \<Rightarrow> u32 \<times> nat" where
  "re_cp_at s s_len at =
     (let b = s ! at in
      if b < 0x80 then (ucast b, 1)
      else
        (case cp_lead b of
           None \<Rightarrow> (ucast b, 1)
         | Some (n, cp) \<Rightarrow>
             if s_len < at + n then (ucast b, 1)
             else (case cp_tail s (at + 1) (n - 1) cp of None \<Rightarrow> (ucast b, 1) | Some cp \<Rightarrow> (cp, n))))"

function ranges_loop :: "u32 list \<Rightarrow> u32 \<Rightarrow> nat \<Rightarrow> nat \<Rightarrow> bool" where
  "ranges_loop r cp lo hi =
     (if lo < hi then
        let mid = lo + (hi - lo) div 2 in
        if cp < r ! (mid * 2) then ranges_loop r cp lo mid
        else if r ! (mid * 2 + 1) < cp then ranges_loop r cp (mid + 1) hi
        else True
      else False)"
  by pat_completeness auto
termination by (relation "measure (\<lambda>(r, cp, lo, hi). hi - lo)") auto

declare ranges_loop.simps [simp del]

definition re_ranges_has :: "u32 list \<Rightarrow> nat \<Rightarrow> u32 \<Rightarrow> bool" where
  "re_ranges_has r n cp = ranges_loop r cp 0 n"

fun cont_back :: "byte list \<Rightarrow> nat \<Rightarrow> nat" where
  "cont_back s 0 = 0"
| "cont_back s (Suc q) = (if s ! q AND 0xC0 = 0x80 then cont_back s q else Suc q)"

text \<open>\<open>q\<close> ends behind the last byte that is no continuation, so the code point there is not read whole.\<close>

definition re_word_before :: "byte list \<Rightarrow> nat \<Rightarrow> bool" where
  "re_word_before s at =
     (if at = 0 then False
      else
        let q = cont_back s at;
            q = (if q < at then (if q + snd (re_cp_at s at q) \<noteq> at then at - 1 else q) else at - 1)
        in re_word (s ! q))"

definition re_word_at :: "byte list \<Rightarrow> nat \<Rightarrow> bool" where
  "re_word_at s at =
     (if length s \<le> at then False
      else let cp = fst (re_cp_at s (length s) at) in cp < 0x80 \<and> re_word (ucast cp))"

record re_prog =
  pr_inst :: "re_inst list"
  pr_cls :: "byte list list"
  pr_ucls :: "(u32 list \<times> nat) option list"
  pr_entry :: "nat option"

text \<open>The machine's marks and rings; \<open>vm_ring ! d\<close> holds the states at offset \<open>d\<close> of the frontier.\<close>

record re_mach =
  vm_mark_gen :: "byte list"
  vm_mark_pos :: "byte list"
  vm_mark_tag :: "byte list"
  vm_ring_gen :: "byte list"
  vm_ring_pos :: "byte list"
  vm_ring_tag :: "byte list"
  vm_gen :: u32
  vm_gen_at :: nat
  vm_ring :: "nat list list"
  vm_matched :: bool

definition assert_ok :: "byte list \<Rightarrow> nat \<Rightarrow> byte \<Rightarrow> bool" where
  "assert_ok s pos kind =
     (if kind = RE_AS_BOL then pos = 0
      else if kind = RE_AS_EOL then pos = length s
      else if kind = RE_AS_WBOUND then re_word_before s pos \<noteq> re_word_at s pos
      else re_word_before s pos = re_word_at s pos)"

definition marked :: "re_mach \<Rightarrow> nat \<Rightarrow> nat \<Rightarrow> bool" where
  "marked v pos pc \<longleftrightarrow>
     vm_mark_tag v ! pc = 2 \<and> vm_mark_gen v ! pc = ucast (vm_gen v) \<and> vm_mark_pos v ! pc = of_nat pos"

definition set_mark :: "nat \<Rightarrow> nat \<Rightarrow> re_mach \<Rightarrow> re_mach" where
  "set_mark pos pc v =
     v\<lparr>vm_mark_gen := (vm_mark_gen v)[pc := ucast (vm_gen v)], vm_mark_pos := (vm_mark_pos v)[pc := of_nat pos],
       vm_mark_tag := (vm_mark_tag v)[pc := 2]\<rparr>"

text \<open>What an instruction pushes on the stack, top first.\<close>

definition inst_next :: "byte list \<Rightarrow> nat \<Rightarrow> re_inst \<Rightarrow> nat list" where
  "inst_next s pos i =
     (case ri_op i of
        RE_OP_JMP \<Rightarrow> [ri_x i]
      | RE_OP_SPLIT \<Rightarrow> [ri_y i, ri_x i]
      | RE_OP_ASSERT \<Rightarrow> if assert_ok s pos (ri_cls i) then [ri_x i] else []
      | _ \<Rightarrow> [])"

text \<open>
  The stack is a list. The array of the code has two entries for each instruction and two more; an
  instruction pushes at most two, once, when it is first marked, so the array is never full.
\<close>

partial_function (option) closure_loop :: "re_inst list \<Rightarrow> byte list \<Rightarrow> nat \<Rightarrow> nat list \<Rightarrow> re_mach \<Rightarrow> re_mach option" where
  "closure_loop inst s pos stack v =
     (if stack = [] then Some v
      else if marked v pos (hd stack) then closure_loop inst s pos (tl stack) v
      else
        let pc = hd stack; v = set_mark pos pc v; i = inst ! pc;
            v = (if ri_op i = RE_OP_MATCH then v\<lparr>vm_matched := True\<rparr> else v)
        in closure_loop inst s pos (inst_next s pos i @ tl stack) v)"

declare closure_loop.simps [code]

definition re_closure :: "re_inst list \<Rightarrow> byte list \<Rightarrow> nat \<Rightarrow> nat \<Rightarrow> re_mach \<Rightarrow> re_mach option" where
  "re_closure inst s seed pos v = closure_loop inst s pos [seed] v"

definition re_ring_push :: "nat \<Rightarrow> nat \<Rightarrow> re_mach \<Rightarrow> re_mach" where
  "re_ring_push pc pos v =
     (let slot = pos - vm_gen_at v in
      if slot < 1 \<or> 4 < slot then v
      else if vm_ring_tag v ! pc = 1 \<and> vm_ring_gen v ! pc = ucast (vm_gen v) \<and> vm_ring_pos v ! pc = of_nat pos then v
      else
        let v = v\<lparr>vm_ring_gen := (vm_ring_gen v)[pc := ucast (vm_gen v)], vm_ring_pos := (vm_ring_pos v)[pc := of_nat pos],
                  vm_ring_tag := (vm_ring_tag v)[pc := 1]\<rparr>
        in if RE_MAX_INST * 2 \<le> length (vm_ring v ! slot) then v
           else v\<lparr>vm_ring := (vm_ring v)[slot := vm_ring v ! slot @ [pc]]\<rparr>)"

text \<open>Does the class hold the code point of length \<open>len\<close> at \<open>sp\<close>.\<close>

definition class_hit :: "re_prog \<Rightarrow> byte list \<Rightarrow> nat \<Rightarrow> u32 \<Rightarrow> nat \<Rightarrow> nat \<Rightarrow> bool" where
  "class_hit prog s sp cp len nid =
     (case pr_ucls prog ! nid of
        Some (r, n) \<Rightarrow> re_ranges_has r n cp
      | None \<Rightarrow> list_all (\<lambda>k. cls_has (pr_cls prog ! nid) (unat (s ! (sp + k)))) [0..<len])"

text \<open>How far the instruction moves at \<open>sp\<close>, if it takes what is there.\<close>

definition inst_takes :: "re_prog \<Rightarrow> byte list \<Rightarrow> nat \<Rightarrow> re_inst \<Rightarrow> nat option" where
  "inst_takes prog s sp i =
     (let (cp, len) = re_cp_at s (length s) sp in
      case ri_op i of
        RE_OP_BYTE \<Rightarrow> if ri_cls i = s ! sp then Some 1 else None
      | RE_OP_CHAR \<Rightarrow> if class_hit prog s sp cp len (unat (ri_cls i)) then Some len else None
      | _ \<Rightarrow> None)"

definition vm_consume :: "re_prog \<Rightarrow> byte list \<Rightarrow> nat \<Rightarrow> nat \<Rightarrow> re_mach \<Rightarrow> re_mach" where
  "vm_consume prog s sp pc v =
     (if \<not> marked v sp pc then v
      else
        (case inst_takes prog s sp (pr_inst prog ! pc) of
           None \<Rightarrow> v | Some adv \<Rightarrow> re_ring_push (ri_x (pr_inst prog ! pc)) (sp + adv) v))"

text \<open>The closures of the states that arrived, up to a match.\<close>

fun vm_arrivals :: "re_inst list \<Rightarrow> byte list \<Rightarrow> nat \<Rightarrow> nat list \<Rightarrow> re_mach \<Rightarrow> re_mach option" where
  "vm_arrivals inst s sp [] v = Some v"
| "vm_arrivals inst s sp (pc # pcs) v =
     re_closure inst s pc sp (v\<lparr>vm_mark_tag := (vm_mark_tag v)[pc := 0]\<rparr>) \<bind>
     (\<lambda>v. if vm_matched v then Some v else vm_arrivals inst s sp pcs v)"

definition vm_shift :: "re_mach \<Rightarrow> re_mach" where
  "vm_shift v =
     (let v = v\<lparr>vm_ring := tl (vm_ring v) @ [Nil]\<rparr>; gen = vm_gen v + 1 in
      if gen AND 0xFF = 0 then
        v\<lparr>vm_mark_tag := replicate RE_MAX_INST 0, vm_ring_tag := replicate RE_MAX_INST 0, vm_gen := gen + 1\<rparr>
      else v\<lparr>vm_gen := gen\<rparr>)"

definition vm_step :: "re_prog \<Rightarrow> byte list \<Rightarrow> nat \<Rightarrow> nat \<Rightarrow> re_mach \<Rightarrow> re_mach option" where
  "vm_step prog s entry sp v =
     (let v = v\<lparr>vm_gen_at := sp\<rparr> in
      vm_arrivals (pr_inst prog) s sp (vm_ring v ! 0) v \<bind>
      (\<lambda>v. if vm_matched v then Some v
           else
             re_closure (pr_inst prog) s entry sp v \<bind>
             (\<lambda>v. if vm_matched v then Some v
                  else Some (vm_shift (fold (vm_consume prog s sp) [0..<RE_MAX_INST] v)))))"

fun vm_loop :: "re_prog \<Rightarrow> byte list \<Rightarrow> nat \<Rightarrow> nat list \<Rightarrow> re_mach \<Rightarrow> re_mach option" where
  "vm_loop prog s entry [] v = Some v"
| "vm_loop prog s entry (sp # sps) v =
     vm_step prog s entry sp v \<bind> (\<lambda>v. if vm_matched v then Some v else vm_loop prog s entry sps v)"

text \<open>The marks are read only where their tag was written, so their first values do not matter.\<close>

definition vm_start :: re_mach where
  "vm_start =
     (let z = replicate RE_MAX_INST 0 in
      \<lparr>vm_mark_gen = z, vm_mark_pos = z, vm_mark_tag = z, vm_ring_gen = z, vm_ring_pos = z, vm_ring_tag = z, vm_gen = 1,
       vm_gen_at = 0, vm_ring = replicate 5 [], vm_matched = False\<rparr>)"

definition re_vm :: "re_prog \<Rightarrow> byte list \<Rightarrow> bool option" where
  "re_vm prog s =
     (case pr_entry prog of
        None \<Rightarrow> Some True
      | Some entry \<Rightarrow>
          re_closure (pr_inst prog) s entry 0 vm_start \<bind>
          (\<lambda>v. if vm_matched v then Some True
               else
                 vm_loop prog s entry [0..<length s] v \<bind>
                 (\<lambda>v. if vm_matched v then Some True
                      else
                        vm_arrivals (pr_inst prog) s (length s) (vm_ring v ! 0) (v\<lparr>vm_gen_at := length s\<rparr>) \<bind>
                        (\<lambda>v. Some (vm_matched v)))))"

section \<open>Search and the cache of programs\<close>

definition prog_of :: "nat option \<Rightarrow> re_ctx \<Rightarrow> re_prog" where
  "prog_of entry c = \<lparr>pr_inst = rc_inst c, pr_cls = rc_cls c, pr_ucls = rc_ucls c, pr_entry = entry\<rparr>"

definition yep_re_search :: "byte list \<Rightarrow> byte list \<Rightarrow> int option" where
  "yep_re_search pat s =
     (if pat = [] \<or> RE_MAX_PAT < length pat then Some (- 1)
      else
        re_build pat \<bind>
        (\<lambda>r. case r of
            None \<Rightarrow> Some (- 1)
          | Some (entry, c) \<Rightarrow> re_vm (prog_of entry c) s \<bind> (\<lambda>m. Some (if m then 1 else 0))))"

text \<open>The heap program: exact-size copies, if \<open>grant\<close> grants both requests.\<close>

definition re_compile :: "(nat \<Rightarrow> bool) \<Rightarrow> byte list \<Rightarrow> re_prog option option" where
  "re_compile grant pat =
     (if pat = [] \<or> RE_MAX_PAT < length pat then Some None
      else
        re_build pat \<bind>
        (\<lambda>r. Some (case r of
            None \<Rightarrow> None
          | Some (entry, c) \<Rightarrow>
              if \<not> grant (length (rc_inst c) * 6) \<or> \<not> grant (max 1 (length (rc_cls c)) * 32) then None
              else Some (prog_of entry c))))"

definition RE_CACHE_MAX :: nat where "RE_CACHE_MAX = 256"

type_synonym yep_re_cache = "(byte list \<times> re_prog) list"

definition yep_re_cache_add :: "(nat \<Rightarrow> bool) \<Rightarrow> byte list \<Rightarrow> yep_re_cache \<Rightarrow> (int \<times> yep_re_cache) option" where
  "yep_re_cache_add grant pat t =
     (if pat = [] then Some (0, t)
      else if \<exists>slot \<in> set t. fst slot = pat then Some (1, t)
      else if RE_CACHE_MAX \<le> length t then Some (0, t)
      else
        re_compile grant pat \<bind>
        (\<lambda>r. Some (case r of None \<Rightarrow> (0, t) | Some p \<Rightarrow> (1, t @ [(pat, p)]))))"

definition yep_re_cache_search :: "yep_re_cache option \<Rightarrow> byte list \<Rightarrow> byte list \<Rightarrow> int option" where
  "yep_re_cache_search t pat s =
     (case (case t of None \<Rightarrow> None | Some t \<Rightarrow> find (\<lambda>slot. fst slot = pat) t) of
        Some (_, prog) \<Rightarrow> re_vm prog s \<bind> (\<lambda>m. Some (if m then 1 else 0))
      | None \<Rightarrow> yep_re_search pat s)"

end
