(* ===== verification/Regexp_Machine.thy ===== *)
theory Regexp_Machine
  imports Regexp
begin

text \<open>
  The machine of \<^verbatim>\<open>regexp.c\<close> against the runs of its program. A program is read as a step relation on pairs of an instruction and
  a position; the machine keeps all threads in marks and in a ring of five slots, tagged by an eight-bit generation. It returns on
  every program whose arrows stay inside, and finds a match exactly if some run from the entry, started at the first position or at
  any later byte, reaches the final instruction.
\<close>

section \<open>Runs of a program\<close>

inductive re_step :: "re_prog \<Rightarrow> byte list \<Rightarrow> nat \<times> nat \<Rightarrow> nat \<times> nat \<Rightarrow> bool" for prog s where
  eps: "pc < length (pr_inst prog) \<Longrightarrow> pc' \<in> set (inst_next s p (pr_inst prog ! pc)) \<Longrightarrow> re_step prog s (pc, p) (pc', p)"
| take: "pc < length (pr_inst prog) \<Longrightarrow> p < length s \<Longrightarrow> inst_takes prog s p (pr_inst prog ! pc) = Some adv \<Longrightarrow>
    re_step prog s (pc, p) (ri_x (pr_inst prog ! pc), p + adv)"

definition at_match :: "re_prog \<Rightarrow> nat \<Rightarrow> bool" where
  "at_match prog pc \<longleftrightarrow> pc < length (pr_inst prog) \<and> ri_op (pr_inst prog ! pc) = RE_OP_MATCH"

definition re_accepts :: "re_prog \<Rightarrow> byte list \<Rightarrow> nat \<Rightarrow> nat \<Rightarrow> bool" where
  "re_accepts prog s pc p \<longleftrightarrow> (\<exists>m p'. (re_step prog s)\<^sup>*\<^sup>* (pc, p) (m, p') \<and> at_match prog m)"

definition inst_ok :: "nat \<Rightarrow> re_inst \<Rightarrow> bool" where
  "inst_ok n i \<longleftrightarrow> (ri_op i \<noteq> RE_OP_MATCH \<longrightarrow> ri_x i < n) \<and> (ri_op i = RE_OP_SPLIT \<longrightarrow> ri_y i < n)"

definition prog_ok :: "re_prog \<Rightarrow> bool" where
  "prog_ok prog \<longleftrightarrow> length (pr_inst prog) \<le> RE_MAX_INST \<and> list_all (inst_ok (length (pr_inst prog))) (pr_inst prog)"

lemma step_in: "prog_ok prog \<Longrightarrow> re_step prog s c c' \<Longrightarrow> fst c' < length (pr_inst prog)"
  by (erule re_step.cases)
    (auto simp: prog_ok_def list_all_length inst_ok_def inst_next_def inst_takes_def split: re_op.splits if_splits prod.splits dest!: spec)

section \<open>Lengths of code points\<close>

lemma cp_len: "0 < snd (re_cp_at s n p) \<and> snd (re_cp_at s n p) \<le> 4"
  by (auto simp: re_cp_at_def cp_lead_def Let_def split: option.splits if_splits)

lemma cp_fits: "p < n \<Longrightarrow> p + snd (re_cp_at s n p) \<le> n"
  by (auto simp: re_cp_at_def cp_lead_def Let_def split: option.splits if_splits)

lemma cp_tail_conts: "cp_tail s at k cp = Some r \<Longrightarrow> j < k \<Longrightarrow> s ! (at + j) AND 0xC0 = 0x80"
proof (induction s at k cp arbitrary: j rule: cp_tail.induct)
  case (2 s at n cp)
  show ?case
  proof (cases j)
    case 0
    then show ?thesis using 2 by (auto split: if_splits)
  next
    case (Suc i)
    then have "cp_tail s (at + 1) n (push_bit 6 cp OR (ucast (s ! at) AND 0x3F)) = Some r" "s ! at AND 0xC0 = 0x80"
      using 2(2) by (auto split: if_splits)
    from 2(1) [of i] this show ?thesis using 2(3) Suc by simp
  qed
qed simp

lemma cont_alone: "s ! p AND 0xC0 = 0x80 \<Longrightarrow> snd (re_cp_at s n p) = 1"
proof -
  assume a: "s ! p AND 0xC0 = (0x80 :: byte)"
  have b: "bit (s ! p) 7" "\<not> bit (s ! p) 6"
    using arg_cong [OF a, of "\<lambda>x. bit x 7"] arg_cong [OF a, of "\<lambda>x. bit x 6"] by (simp_all add: bit_and_iff)
  have "x AND m \<noteq> k" if "bit k 6" "bit k 7" "x = s ! p" for m k x :: byte
    using b that by (auto simp: bit_and_iff dest!: arg_cong [where f = "\<lambda>x. bit x 6"])
  then have "cp_lead (s ! p) = None" by (simp add: cp_lead_def)
  then show ?thesis by (simp add: re_cp_at_def Let_def)
qed

lemma cp_inside: "0 < k \<Longrightarrow> k < snd (re_cp_at s n p) \<Longrightarrow> snd (re_cp_at s m (p + k)) = 1"
proof (rule cont_alone)
  assume k: "0 < k" "k < snd (re_cp_at s n p)"
  then obtain l cp r where "cp_tail s (p + 1) (l - 1) cp = Some r" "snd (re_cp_at s n p) = l"
    by (auto simp: re_cp_at_def Let_def split: if_splits option.splits)
  from cp_tail_conts [OF this(1), of "k - 1"] this(2) k show "s ! (p + k) AND 0xC0 = 0x80" by simp
qed

lemma takes_cases:
  assumes "inst_takes prog s p i = Some adv"
  shows "adv = 1 \<or> adv = snd (re_cp_at s (length s) p)" "0 < adv" "adv \<le> 4" "p < length s \<Longrightarrow> p + adv \<le> length s"
proof -
  show a: "adv = 1 \<or> adv = snd (re_cp_at s (length s) p)"
    using assms by (auto simp: inst_takes_def Let_def split: re_op.splits if_splits prod.splits)
  then show "0 < adv" "adv \<le> 4" "p < length s \<Longrightarrow> p + adv \<le> length s"
    using cp_len [of s "length s" p] cp_fits [of p "length s" s] by auto
qed

section \<open>The closure\<close>

definition marks :: "re_mach \<Rightarrow> nat \<Rightarrow> nat set" where
  "marks v p = {pc. pc < RE_MAX_INST \<and> marked v p pc}"

definition mach_ok :: "re_mach \<Rightarrow> bool" where
  "mach_ok v \<longleftrightarrow> length (vm_mark_gen v) = RE_MAX_INST \<and> length (vm_mark_pos v) = RE_MAX_INST \<and>
     length (vm_mark_tag v) = RE_MAX_INST \<and> length (vm_ring_gen v) = RE_MAX_INST \<and> length (vm_ring_pos v) = RE_MAX_INST \<and>
     length (vm_ring_tag v) = RE_MAX_INST \<and> length (vm_ring v) = 5"

text \<open>Everything but the marks and the verdict.\<close>

definition rest_same :: "re_mach \<Rightarrow> re_mach \<Rightarrow> bool" where
  "rest_same v v' \<longleftrightarrow> vm_ring_gen v' = vm_ring_gen v \<and> vm_ring_pos v' = vm_ring_pos v \<and> vm_ring_tag v' = vm_ring_tag v \<and>
     vm_gen v' = vm_gen v \<and> vm_gen_at v' = vm_gen_at v \<and> vm_ring v' = vm_ring v"

text \<open>Marks are of this generation or an older one.\<close>

definition marks_past :: "re_mach \<Rightarrow> bool" where
  "marks_past v \<longleftrightarrow> (\<forall>pc < RE_MAX_INST. vm_mark_tag v ! pc = 2 \<longrightarrow> vm_mark_gen v ! pc \<le> ucast (vm_gen v))"

lemma set_mark_simps:
  assumes "mach_ok v" "pc < RE_MAX_INST"
  shows "mach_ok (set_mark p pc v)" "rest_same v (set_mark p pc v)" "marks (set_mark p pc v) p = insert pc (marks v p)"
    "vm_matched (set_mark p pc v) = vm_matched v" "marks_past v \<Longrightarrow> marks_past (set_mark p pc v)"
  using assms by (auto simp: set_mark_def mach_ok_def rest_same_def marks_def marked_def marks_past_def nth_list_update)

definition verdict :: "bool \<Rightarrow> re_mach \<Rightarrow> re_mach" where
  "verdict b v = (if b then v\<lparr>vm_matched := True\<rparr> else v)"

lemma verdict_simps [simp]:
  "mach_ok (verdict b v) = mach_ok v" "rest_same v' (verdict b v) = rest_same v' v" "marks (verdict b v) p = marks v p"
  "vm_matched (verdict b v) \<longleftrightarrow> vm_matched v \<or> b" "marks_past (verdict b v) = marks_past v" "marked (verdict b v) = marked v"
  by (auto simp: verdict_def mach_ok_def rest_same_def marks_def marked_def [abs_def] marks_past_def)

lemma marks_finite [simp]: "finite (marks v p)" "card (marks v p) \<le> RE_MAX_INST"
proof -
  have "marks v p \<subseteq> {..<RE_MAX_INST}" by (auto simp: marks_def)
  then show "finite (marks v p)" "card (marks v p) \<le> RE_MAX_INST"
    using finite_subset [of "marks v p" "{..<RE_MAX_INST}"] card_mono [of "{..<RE_MAX_INST}" "marks v p"] by auto
qed

text \<open>Following instructions that consume nothing, from position \<open>p\<close>.\<close>

definition eps_rel :: "re_prog \<Rightarrow> byte list \<Rightarrow> nat \<Rightarrow> nat \<Rightarrow> nat \<Rightarrow> bool" where
  "eps_rel prog s p pc pc' \<longleftrightarrow> pc < length (pr_inst prog) \<and> pc' \<in> set (inst_next s p (pr_inst prog ! pc))"

definition eps_closed :: "re_prog \<Rightarrow> byte list \<Rightarrow> nat \<Rightarrow> nat set \<Rightarrow> nat set \<Rightarrow> bool" where
  "eps_closed prog s p M N \<longleftrightarrow> (\<forall>pc \<in> M. \<forall>pc'. eps_rel prog s p pc pc' \<longrightarrow> pc' \<in> N)"

definition eps_reach :: "re_prog \<Rightarrow> byte list \<Rightarrow> nat \<Rightarrow> nat set \<Rightarrow> nat set" where
  "eps_reach prog s p M = {pc'. \<exists>pc \<in> M. (eps_rel prog s p)\<^sup>*\<^sup>* pc pc'}"

lemma eps_reach_mono: "M \<subseteq> eps_reach prog s p N \<Longrightarrow> eps_reach prog s p M \<subseteq> eps_reach prog s p N"
  unfolding eps_reach_def by (blast intro: rtranclp_trans)

lemma eps_reach_refl: "M \<subseteq> eps_reach prog s p M"
  by (auto simp: eps_reach_def)

text \<open>What a closure leaves: the marks, closed, and the verdict on them.\<close>

definition closed_over :: "re_prog \<Rightarrow> byte list \<Rightarrow> nat \<Rightarrow> nat set \<Rightarrow> re_mach \<Rightarrow> re_mach \<Rightarrow> bool" where
  "closed_over prog s p N v v' \<longleftrightarrow> mach_ok v' \<and> rest_same v v' \<and> marks_past v' \<and> N \<subseteq> marks v' p \<and>
     marks v' p \<subseteq> eps_reach prog s p N \<and> eps_closed prog s p (marks v' p) (marks v' p) \<and>
     (vm_matched v' \<longleftrightarrow> vm_matched v \<or> (\<exists>pc \<in> marks v' p. at_match prog pc))"

lemma closure_spec:
  assumes "prog_ok prog" "mach_ok v" "marks_past v" "set stack \<subseteq> {..<length (pr_inst prog)}"
    and "marks v p \<subseteq> {..<length (pr_inst prog)}"
    and "eps_closed prog s p (marks v p) (marks v p \<union> set stack)" "(\<exists>pc \<in> marks v p. at_match prog pc) \<Longrightarrow> vm_matched v"
  shows "\<exists>v'. closure_loop (pr_inst prog) s p stack v = Some v' \<and> closed_over prog s p (marks v p \<union> set stack) v v'"
  using assms(2-)
proof (induction "2 * (RE_MAX_INST - card (marks v p)) + length stack" arbitrary: stack v rule: less_induct)
  case less
  let ?I = "pr_inst prog" and ?M = "marks v p"
  show ?case
  proof (cases stack)
    case Nil
    then have "closure_loop ?I s p stack v = Some v" by (subst closure_loop.simps) simp
    moreover have "closed_over prog s p (?M \<union> set stack) v v"
      using less.prems Nil eps_reach_refl by (auto simp: closed_over_def rest_same_def)
    ultimately show ?thesis by blast
  next
    case (Cons pc st)
    have pc: "pc < length ?I" "pc < RE_MAX_INST" using less.prems(3) Cons assms(1) by (auto simp: prog_ok_def)
    show ?thesis
    proof (cases "marked v p pc")
      case True
      then have in_M: "pc \<in> ?M" using pc by (simp add: marks_def)
      then have eq: "?M \<union> set stack = ?M \<union> set st" using Cons by auto
      have "\<exists>v'. closure_loop ?I s p st v = Some v' \<and> closed_over prog s p (?M \<union> set st) v v'"
        by (rule less.hyps) (use less.prems Cons eq in auto)
      moreover have "closure_loop ?I s p stack v = closure_loop ?I s p st v"
        using Cons True by (subst closure_loop.simps) simp
      ultimately show ?thesis using eq by simp
    next
      case False
      define w where "w = verdict (ri_op (?I ! pc) = RE_OP_MATCH) (set_mark p pc v)"
      let ?st = "inst_next s p (?I ! pc) @ st"
      note sm = set_mark_simps [OF less.prems(1) pc(2), of p]
      have eq: "closure_loop ?I s p stack v = closure_loop ?I s p ?st w"
        using Cons False by (subst closure_loop.simps) (simp add: w_def verdict_def Let_def)
      have new: "pc \<notin> ?M" using False by (simp add: marks_def)
      have mw: "marks w p = insert pc ?M" using sm(3) by (simp add: w_def)
      have c: "Suc (card ?M) = card (marks w p)" unfolding mw using new by simp
      have card_less: "card (marks w p) \<le> RE_MAX_INST" by (rule marks_finite)
      have nx: "set (inst_next s p (?I ! pc)) = {pc'. eps_rel prog s p pc pc'}" using pc(1) by (auto simp: eps_rel_def)
      have len: "length (inst_next s p (?I ! pc)) \<le> 2" by (simp add: inst_next_def split: re_op.splits)
      have sub: "{pc'. eps_rel prog s p pc pc'} \<subseteq> {..<length ?I}"
        using step_in [OF assms(1) re_step.eps, of pc _ s p] by (auto simp: eps_rel_def)
      have "2 * (RE_MAX_INST - card (marks w p)) + length ?st < 2 * (RE_MAX_INST - card ?M) + length stack"
        using card_less c len unfolding Cons length_append list.size by arith
      moreover have "mach_ok w" "marks_past w" using sm less.prems(2) by (simp_all add: w_def)
      moreover have "set ?st \<subseteq> {..<length ?I}" "marks w p \<subseteq> {..<length ?I}"
        using sub nx mw less.prems(3,4) Cons pc by auto
      moreover have "eps_closed prog s p (marks w p) (marks w p \<union> set ?st)"
        using less.prems(5) nx mw Cons by (auto simp: eps_closed_def)
      moreover have "vm_matched w \<longleftrightarrow> vm_matched v \<or> at_match prog pc" using sm(4) pc by (simp add: w_def at_match_def)
      moreover from this have "(\<exists>pc \<in> marks w p. at_match prog pc) \<Longrightarrow> vm_matched w" using less.prems(6) mw by auto
      ultimately obtain v' where v': "closure_loop ?I s p ?st w = Some v'" "closed_over prog s p (marks w p \<union> set ?st) w v'"
        and m: "vm_matched w \<longleftrightarrow> vm_matched v \<or> at_match prog pc"
        using less.hyps [of w ?st] by blast
      have "marks w p \<union> set ?st \<subseteq> eps_reach prog s p (?M \<union> set stack)"
        using mw nx Cons by (auto simp: eps_reach_def)
      then have "eps_reach prog s p (marks w p \<union> set ?st) \<subseteq> eps_reach prog s p (?M \<union> set stack)" by (rule eps_reach_mono)
      moreover have "?M \<union> set stack \<subseteq> marks w p \<union> set ?st" using mw Cons by auto
      moreover have "rest_same v w" using sm(2) by (simp add: w_def)
      moreover have "pc \<in> marks w p" using mw by simp
      ultimately have "closed_over prog s p (?M \<union> set stack) v v'"
        using v'(2) m unfolding closed_over_def rest_same_def by (auto dest: subsetD)
      then show ?thesis using eq v'(1) by auto
    qed
  qed
qed

section \<open>One turn of the machine\<close>

lemma unmark:
  assumes "mach_ok v" "u = v\<lparr>vm_mark_tag := (vm_mark_tag v)[pc := 0]\<rparr>"
  shows "mach_ok u" "rest_same v u" "marks u p = marks v p - {pc}" "vm_matched u = vm_matched v" "marks_past v \<Longrightarrow> marks_past u"
proof -
  have t: "vm_mark_tag u ! x = (if x = pc then 0 else vm_mark_tag v ! x)" if "x < RE_MAX_INST" for x
    using assms that by (simp add: mach_ok_def nth_list_update)
  show "mach_ok u" "rest_same v u" "vm_matched u = vm_matched v" using assms by (simp_all add: mach_ok_def rest_same_def)
  show "marks u p = marks v p - {pc}" "marks_past v \<Longrightarrow> marks_past u"
    using t assms(2) by (auto simp: marks_def marked_def marks_past_def split: if_splits)
qed

lemma eps_reach_subset: "M \<subseteq> N \<Longrightarrow> eps_reach prog s p M \<subseteq> eps_reach prog s p N"
  by (auto simp: eps_reach_def)

lemma rest_same_trans: "rest_same u v \<Longrightarrow> rest_same v w \<Longrightarrow> rest_same u w"
  by (simp add: rest_same_def)

text \<open>The marks at \<open>p\<close> are those of a closed set without a match.\<close>

definition settled :: "re_prog \<Rightarrow> byte list \<Rightarrow> nat \<Rightarrow> re_mach \<Rightarrow> bool" where
  "settled prog s p v \<longleftrightarrow> mach_ok v \<and> marks_past v \<and> marks v p \<subseteq> {..<length (pr_inst prog)} \<and>
     eps_closed prog s p (marks v p) (marks v p) \<and> \<not> vm_matched v \<and> \<not> (\<exists>pc \<in> marks v p. at_match prog pc)"

lemma eps_reach_in:
  assumes "prog_ok prog" "M \<subseteq> {..<length (pr_inst prog)}"
  shows "eps_reach prog s p M \<subseteq> {..<length (pr_inst prog)}"
proof
  fix pc' assume "pc' \<in> eps_reach prog s p M"
  then obtain pc where pc: "pc \<in> M" "(eps_rel prog s p)\<^sup>*\<^sup>* pc pc'" by (auto simp: eps_reach_def)
  from pc(2) show "pc' \<in> {..<length (pr_inst prog)}"
  proof cases
    case rtrancl_refl
    then show ?thesis using pc(1) assms(2) by auto
  next
    case (rtrancl_into_rtrancl b)
    then show ?thesis using step_in [OF assms(1) re_step.eps, of b pc' s p] by (simp add: eps_rel_def)
  qed
qed

text \<open>What the closures of a list of states leave, up to the first match.\<close>

definition arrived :: "re_prog \<Rightarrow> byte list \<Rightarrow> nat \<Rightarrow> nat set \<Rightarrow> re_mach \<Rightarrow> re_mach \<Rightarrow> bool" where
  "arrived prog s p N v v' \<longleftrightarrow> rest_same v v' \<and> marks v' p \<subseteq> eps_reach prog s p N \<and>
     (vm_matched v' \<longleftrightarrow> (\<exists>pc \<in> marks v' p. at_match prog pc)) \<and>
     (\<not> vm_matched v' \<longrightarrow> settled prog s p v' \<and> N \<subseteq> marks v' p)"

lemma closed_arrived:
  assumes "prog_ok prog" "closed_over prog s p N u v'" "rest_same v u" "\<not> vm_matched u" "N \<subseteq> {..<length (pr_inst prog)}"
  shows "arrived prog s p N v v'"
  using assms(2-4) eps_reach_in [OF assms(1,5), of s p] rest_same_trans [OF assms(3)]
  unfolding arrived_def closed_over_def settled_def by auto

lemma arrivals_spec:
  assumes "prog_ok prog" "settled prog s p v" "set pcs \<subseteq> {..<length (pr_inst prog)}"
  shows "\<exists>v'. vm_arrivals (pr_inst prog) s p pcs v = Some v' \<and> arrived prog s p (marks v p \<union> set pcs) v v'"
  using assms(2,3)
proof (induction pcs arbitrary: v)
  case Nil
  then show ?case using eps_reach_refl by (auto simp: arrived_def settled_def rest_same_def)
next
  case (Cons pc pcs)
  define u where "u = v\<lparr>vm_mark_tag := (vm_mark_tag v)[pc := 0]\<rparr>"
  have s: "mach_ok v" "marks_past v" "marks v p \<subseteq> {..<length (pr_inst prog)}" "eps_closed prog s p (marks v p) (marks v p)"
      "\<not> vm_matched v" "\<not> (\<exists>pc \<in> marks v p. at_match prog pc)"
    using Cons.prems(1) by (auto simp: settled_def)
  note un = unmark [OF s(1) u_def]
  have eq: "marks u p \<union> set [pc] = insert pc (marks v p)" using un(3) by auto
  obtain v1 where v1: "re_closure (pr_inst prog) s pc p u = Some v1" "closed_over prog s p (insert pc (marks v p)) u v1"
    using closure_spec [OF assms(1) un(1) un(5) [OF s(2)], of "[pc]" p s] s Cons.prems(2) un(3,4) unfolding eq re_closure_def
    by (fastforce simp: eps_closed_def)
  have a1: "arrived prog s p (insert pc (marks v p)) v v1"
    using closed_arrived [OF assms(1) v1(2) un(2)] un(4) s(3,5) Cons.prems(2) by auto
  have eqn: "vm_arrivals (pr_inst prog) s p (pc # pcs) v = (if vm_matched v1 then Some v1 else vm_arrivals (pr_inst prog) s p pcs v1)"
    using v1(1) by (simp add: u_def)
  have sub: "eps_reach prog s p (insert pc (marks v p)) \<subseteq> eps_reach prog s p (marks v p \<union> set (pc # pcs))"
    by (rule eps_reach_subset) auto
  show ?case
  proof (cases "vm_matched v1")
    case True
    then show ?thesis using eqn a1 sub by (auto simp: arrived_def)
  next
    case False
    then have n1: "settled prog s p v1" "insert pc (marks v p) \<subseteq> marks v1 p" using a1 by (auto simp: arrived_def)
    obtain v' where v': "vm_arrivals (pr_inst prog) s p pcs v1 = Some v'" "arrived prog s p (marks v1 p \<union> set pcs) v1 v'"
      using Cons.IH [OF n1(1)] Cons.prems(2) by auto
    have "marks v1 p \<union> set pcs \<subseteq> eps_reach prog s p (marks v p \<union> set (pc # pcs))"
      using a1 sub eps_reach_refl [of "marks v p \<union> set (pc # pcs)" prog s p] by (auto simp: arrived_def)
    then have "eps_reach prog s p (marks v1 p \<union> set pcs) \<subseteq> eps_reach prog s p (marks v p \<union> set (pc # pcs))" by (rule eps_reach_mono)
    then have "arrived prog s p (marks v p \<union> set (pc # pcs)) v v'"
      using v'(2) a1 n1(2) unfolding arrived_def by (auto intro: rest_same_trans)
    then show ?thesis using eqn False v'(1) by auto
  qed
qed

lemma entry_spec:
  assumes "prog_ok prog" "settled prog s p v" "pc < length (pr_inst prog)"
  shows "\<exists>v'. re_closure (pr_inst prog) s pc p v = Some v' \<and> arrived prog s p (insert pc (marks v p)) v v'"
proof -
  have eq: "marks v p \<union> set [pc] = insert pc (marks v p)" by simp
  obtain v' where v': "re_closure (pr_inst prog) s pc p v = Some v'" "closed_over prog s p (insert pc (marks v p)) v v'"
    using closure_spec [OF assms(1), of v "[pc]" p s] assms(2,3) unfolding eq re_closure_def
    by (fastforce simp: eps_closed_def settled_def)
  moreover have "rest_same v v" by (simp add: rest_same_def)
  ultimately show ?thesis using closed_arrived [OF assms(1) v'(2)] assms(2,3) by (auto simp: settled_def)
qed

section \<open>The live states\<close>

definition live :: "re_prog \<Rightarrow> byte list \<Rightarrow> nat \<Rightarrow> nat \<Rightarrow> nat \<Rightarrow> bool" where
  "live prog s entry pc p \<longleftrightarrow> (\<exists>q. (q = 0 \<or> q < length s) \<and> (re_step prog s)\<^sup>*\<^sup>* (entry, q) (pc, p))"

lemma live_step: "live prog s entry pc p \<Longrightarrow> re_step prog s (pc, p) (pc', p') \<Longrightarrow> live prog s entry pc' p'"
  unfolding live_def by (blast intro: rtranclp.rtrancl_into_rtrancl)

lemma live_in:
  assumes "prog_ok prog" "entry < length (pr_inst prog)" "live prog s entry pc p"
  shows "pc < length (pr_inst prog)"
proof -
  obtain q where "(re_step prog s)\<^sup>*\<^sup>* (entry, q) (pc, p)" using assms(3) by (auto simp: live_def)
  then show ?thesis by cases (use assms(2) step_in [OF assms(1)] in \<open>auto dest: step_in [OF assms(1)]\<close>)
qed

lemma live_reach:
  assumes "\<And>pc. pc \<in> N \<Longrightarrow> live prog s entry pc p" "pc' \<in> eps_reach prog s p N"
  shows "live prog s entry pc' p"
proof -
  obtain pc where pc: "pc \<in> N" "(eps_rel prog s p)\<^sup>*\<^sup>* pc pc'" using assms(2) by (auto simp: eps_reach_def)
  from pc(2) show ?thesis
    by induction (use assms(1) [OF pc(1)] live_step re_step.eps in \<open>auto simp: eps_rel_def intro: live_step\<close>)
qed

text \<open>The states that reach position \<open>q\<close> by consuming before \<open>p\<close>.\<close>

definition coming :: "re_prog \<Rightarrow> byte list \<Rightarrow> nat \<Rightarrow> nat \<Rightarrow> nat \<Rightarrow> nat set" where
  "coming prog s entry p q =
     {ri_x (pr_inst prog ! pc) | pc r adv. live prog s entry pc r \<and> pc < length (pr_inst prog) \<and> r < p \<and> r < length s \<and>
        inst_takes prog s r (pr_inst prog ! pc) = Some adv \<and> r + adv = q}"

lemma live_from:
  assumes "eps_closed prog s p M M" "coming prog s entry p p \<subseteq> M" "p = 0 \<or> p < length s \<Longrightarrow> entry \<in> M" "live prog s entry pc p"
  shows "pc \<in> M"
proof -
  obtain q where q: "q = 0 \<or> q < length s" "(re_step prog s)\<^sup>*\<^sup>* (entry, q) (pc, p)" using assms(4) by (auto simp: live_def)
  have "snd c = p \<longrightarrow> fst c \<in> M" if "(re_step prog s)\<^sup>*\<^sup>* (entry, q) c" for c
    using that
  proof induction
    case base
    then show ?case using assms(3) q(1) by auto
  next
    case (step b c)
    then have "live prog s entry (fst b) (snd b)" using q(1) by (auto simp: live_def)
    with step.hyps(2) step.IH show ?case
    proof cases
      case (eps pc pc' p')
      then show ?thesis using step.IH assms(1) by (auto simp: eps_closed_def eps_rel_def)
    next
      case (take pc p' adv)
      then show ?thesis using \<open>live prog s entry (fst b) (snd b)\<close> takes_cases(2) [of prog s p' _ adv] assms(2)
        by (fastforce simp: coming_def)
    qed
  qed
  then show ?thesis using q(2) by fastforce
qed

section \<open>Consuming and shifting\<close>

text \<open>The marked instructions below \<open>k\<close> that advance by \<open>d\<close>.\<close>

definition takers :: "re_prog \<Rightarrow> byte list \<Rightarrow> nat \<Rightarrow> nat set \<Rightarrow> nat \<Rightarrow> nat \<Rightarrow> nat set" where
  "takers prog s sp M k d = {pc \<in> M. pc < k \<and> inst_takes prog s sp (pr_inst prog ! pc) = Some d}"

definition ring_past :: "re_mach \<Rightarrow> bool" where
  "ring_past v \<longleftrightarrow> (\<forall>pc < RE_MAX_INST. vm_ring_tag v ! pc = 1 \<longrightarrow> vm_ring_gen v ! pc \<le> ucast (vm_gen v))"

definition pushed :: "re_mach \<Rightarrow> nat \<Rightarrow> nat \<Rightarrow> bool" where
  "pushed v pos pc \<longleftrightarrow> vm_ring_tag v ! pc = 1 \<and> vm_ring_gen v ! pc = ucast (vm_gen v) \<and> vm_ring_pos v ! pc = of_nat pos"

text \<open>The rings after the first \<open>k\<close> instructions of the turn at \<open>sp\<close>, begun with \<open>v0\<close>.\<close>

definition slot_has :: "re_prog \<Rightarrow> byte list \<Rightarrow> nat \<Rightarrow> re_mach \<Rightarrow> nat \<Rightarrow> nat \<Rightarrow> nat list \<Rightarrow> bool" where
  "slot_has prog s sp v0 k d r \<longleftrightarrow>
     set r = set (vm_ring v0 ! d) \<union> (\<lambda>pc. ri_x (pr_inst prog ! pc)) ` takers prog s sp (marks v0 sp) k d \<and>
     length r \<le> length (vm_ring v0 ! d) + card (takers prog s sp (marks v0 sp) k d)"

definition consumed :: "re_prog \<Rightarrow> byte list \<Rightarrow> nat \<Rightarrow> re_mach \<Rightarrow> nat \<Rightarrow> re_mach \<Rightarrow> bool" where
  "consumed prog s sp v0 k v \<longleftrightarrow> mach_ok v \<and> marked v = marked v0 \<and> marks_past v \<and> ring_past v \<and> vm_gen v = vm_gen v0 \<and>
     vm_gen_at v = sp \<and> vm_matched v = vm_matched v0 \<and> vm_ring v ! 0 = vm_ring v0 ! 0 \<and>
     (\<forall>d \<in> {1..4}. slot_has prog s sp v0 k d (vm_ring v ! d)) \<and>
     (\<forall>pc < RE_MAX_INST. \<forall>d \<in> {1..4}. pushed v (sp + d) pc \<longrightarrow> pc \<in> set (vm_ring v ! d))"

lemma near_bytes: "(of_nat (sp + d) :: byte) = of_nat (sp + d') \<Longrightarrow> d \<le> 4 \<Longrightarrow> d' \<le> 4 \<Longrightarrow> d = d'"
proof -
  assume a: "(of_nat (sp + d) :: byte) = of_nat (sp + d')" "d \<le> 4" "d' \<le> 4"
  then have "(of_nat d :: byte) = of_nat d'" by simp
  then have "unat (of_nat d :: byte) = unat (of_nat d' :: byte)" by simp
  then show ?thesis using a(2,3) by (simp add: unat_of_nat)
qed

lemma takers_Suc:
  "takers prog s sp M (Suc k) d =
     (if k \<in> M \<and> inst_takes prog s sp (pr_inst prog ! k) = Some d then insert k (takers prog s sp M k d) else takers prog s sp M k d)"
  by (auto simp: takers_def less_Suc_eq)

lemma takers_finite [simp]: "finite (takers prog s sp M k d)"
  by (rule finite_subset [of _ "{..<k}"]) (auto simp: takers_def)

lemma consumed_skip:
  assumes "consumed prog s sp v0 k v" "\<And>d. takers prog s sp (marks v0 sp) (Suc k) d = takers prog s sp (marks v0 sp) k d"
  shows "consumed prog s sp v0 (Suc k) v"
  using assms(1) unfolding consumed_def slot_has_def assms(2) .

lemma ring_push_new:
  assumes "mach_ok v" "vm_gen_at v = sp" "1 \<le> d" "d \<le> 4" "\<not> pushed v (sp + d) x" "length (vm_ring v ! d) < RE_MAX_INST * 2"
  shows "re_ring_push x (sp + d) v =
    v\<lparr>vm_ring_gen := (vm_ring_gen v)[x := ucast (vm_gen v)], vm_ring_pos := (vm_ring_pos v)[x := of_nat (sp + d)],
      vm_ring_tag := (vm_ring_tag v)[x := 1], vm_ring := (vm_ring v)[d := vm_ring v ! d @ [x]]\<rparr>"
  using assms by (auto simp: re_ring_push_def Let_def pushed_def)

lemma consume_push:
  assumes c: "consumed prog s sp v0 k v" and k: "k < RE_MAX_INST" "k \<in> marks v0 sp"
    and t: "inst_takes prog s sp (pr_inst prog ! k) = Some d" "d \<in> {1..4}" and x: "ri_x (pr_inst prog ! k) < RE_MAX_INST"
    and room: "length (vm_ring v0 ! d) + card (takers prog s sp (marks v0 sp) RE_MAX_INST d) \<le> RE_MAX_INST * 2"
  shows "consumed prog s sp v0 (Suc k) (re_ring_push (ri_x (pr_inst prog ! k)) (sp + d) v)"
proof -
  let ?x = "ri_x (pr_inst prog ! k)" and ?T = "takers prog s sp (marks v0 sp)"
  have v: "mach_ok v" "vm_gen_at v = sp" "length (vm_ring v) = 5" using c by (auto simp: consumed_def mach_ok_def)
  have T: "?T (Suc k) e = (if e = d then insert k (?T k d) else ?T k e)" for e using k t(1) by (auto simp: takers_Suc)
  have new: "k \<notin> ?T k d" by (simp add: takers_def)
  have slot: "slot_has prog s sp v0 k e (vm_ring v ! e)" if "e \<in> {1..4}" for e using c that unfolding consumed_def by blast
  show ?thesis
  proof (cases "pushed v (sp + d) ?x")
    case True
    then have "re_ring_push ?x (sp + d) v = v" using v t(2) by (simp add: re_ring_push_def pushed_def)
    moreover have "?x \<in> set (vm_ring v ! d)" using c x t(2) True unfolding consumed_def by blast
    ultimately have "slot_has prog s sp v0 (Suc k) e (vm_ring v ! e)" if "e \<in> {1..4}" for e
      using slot [OF that] new by (auto simp: slot_has_def T)
    then show ?thesis using c \<open>re_ring_push ?x (sp + d) v = v\<close> by (simp add: consumed_def)
  next
    case False
    have "insert k (?T k d) \<subseteq> ?T RE_MAX_INST d" using k t(1) by (auto simp: takers_def)
    then have "Suc (card (?T k d)) \<le> card (?T RE_MAX_INST d)" using card_mono [OF takers_finite, of "insert k (?T k d)"] new by simp
    moreover have "length (vm_ring v ! d) \<le> length (vm_ring v0 ! d) + card (?T k d)" using slot [OF t(2)] by (simp add: slot_has_def)
    ultimately have r: "length (vm_ring v ! d) < RE_MAX_INST * 2" using room by linarith
    define w where "w = re_ring_push ?x (sp + d) v"
    have w: "w = v\<lparr>vm_ring_gen := (vm_ring_gen v)[?x := ucast (vm_gen v)], vm_ring_pos := (vm_ring_pos v)[?x := of_nat (sp + d)],
        vm_ring_tag := (vm_ring_tag v)[?x := 1], vm_ring := (vm_ring v)[d := vm_ring v ! d @ [?x]]\<rparr>"
      unfolding w_def using ring_push_new [OF v(1,2) _ _ False r] t(2) by simp
    have ring: "vm_ring w ! e = (if e = d then vm_ring v ! d @ [?x] else vm_ring v ! e)" if "e < 5" for e
      using v(3) t(2) that by (simp add: w nth_list_update)
    have same: "mach_ok w" "marked w = marked v0" "marks_past w" "vm_gen w = vm_gen v0" "vm_gen_at w = sp" "vm_matched w = vm_matched v0"
      using c by (auto simp: w consumed_def mach_ok_def marked_def [abs_def] marks_past_def)
    have "ring_past w" using c x v(1) by (auto simp: w consumed_def ring_past_def mach_ok_def nth_list_update)
    moreover have "vm_ring w ! 0 = vm_ring v0 ! 0" using c ring [of 0] t(2) by (simp add: consumed_def)
    moreover have "slot_has prog s sp v0 (Suc k) e (vm_ring w ! e)" if "e \<in> {1..4}" for e
      using slot [OF that] ring [of e] that new by (auto simp: slot_has_def T)
    moreover have "pc \<in> set (vm_ring w ! e)" if "pc < RE_MAX_INST" "e \<in> {1..4}" "pushed w (sp + e) pc" for pc e
    proof (cases "pc = ?x")
      case True
      then have "(of_nat (sp + e) :: byte) = of_nat (sp + d)" using that(3) x v(1) by (simp add: pushed_def w mach_ok_def)
      then have "e = d" using near_bytes that(2) t(2) by auto
      then show ?thesis using True ring [of d] t(2) by simp
    next
      case False
      then have "pushed v (sp + e) pc" using that(3) x v(1) by (simp add: pushed_def w mach_ok_def)
      then show ?thesis using c that(1,2) ring [of e] by (auto simp: consumed_def)
    qed
    ultimately show ?thesis using same unfolding consumed_def w_def [symmetric] by blast
  qed
qed

lemma consume_fold:
  assumes "prog_ok prog" "marks v0 sp \<subseteq> {..<length (pr_inst prog)}" "consumed prog s sp v0 0 v0" "k \<le> RE_MAX_INST"
    and "\<And>d. d \<in> {1..4} \<Longrightarrow> length (vm_ring v0 ! d) + card (takers prog s sp (marks v0 sp) RE_MAX_INST d) \<le> RE_MAX_INST * 2"
  shows "consumed prog s sp v0 k (fold (vm_consume prog s sp) [0..<k] v0)"
  using assms(4)
proof (induction k)
  case (Suc k)
  define v where "v = fold (vm_consume prog s sp) [0..<k] v0"
  have c: "consumed prog s sp v0 k v" using Suc by (simp add: v_def)
  have m: "marked v sp k \<longleftrightarrow> k \<in> marks v0 sp" using c Suc.prems by (simp add: consumed_def marks_def)
  have "consumed prog s sp v0 (Suc k) (vm_consume prog s sp k v)"
  proof (cases "k \<in> marks v0 sp \<and> inst_takes prog s sp (pr_inst prog ! k) \<noteq> None")
    case True
    then obtain d where d: "inst_takes prog s sp (pr_inst prog ! k) = Some d" by blast
    then have "d \<in> {1..4}" using takes_cases(2,3) [OF d] by simp
    moreover have "ri_op (pr_inst prog ! k) \<noteq> RE_OP_MATCH" using d by (auto simp: inst_takes_def Let_def split: prod.splits)
    then have "ri_x (pr_inst prog ! k) < RE_MAX_INST"
      using assms(1,2) True by (auto simp: prog_ok_def list_all_length inst_ok_def subset_iff intro: less_le_trans)
    ultimately show ?thesis using consume_push [OF c _ _ d] assms(5) Suc.prems True m d by (simp add: vm_consume_def)
  next
    case False
    then have "vm_consume prog s sp k v = v" using m by (auto simp: vm_consume_def)
    moreover have "takers prog s sp (marks v0 sp) (Suc k) d = takers prog s sp (marks v0 sp) k d" for d using False by (auto simp: takers_Suc)
    ultimately show ?thesis using consumed_skip [OF c] by simp
  qed
  then show ?case by (simp add: v_def)
qed (use assms(3) in simp)

text \<open>The generation byte moves on, or starts again with all marks dropped.\<close>

lemma low_byte: "unat (ucast (g :: u32) :: byte) = unat g mod 256"
  by (simp add: unat_ucast take_bit_eq_mod)

lemma gen_next:
  assumes "(g + 1) AND 0xFF \<noteq> (0 :: u32)"
  shows "(ucast g :: byte) < ucast (g + 1)"
proof -
  have "unat ((g + 1) AND 0xFF) = unat (g + 1) mod 256"
    using unat_and_mask [of "g + 1" 8] by (simp add: mask_eq_exp_minus_1)
  moreover have "unat ((g + 1) AND 0xFF) \<noteq> 0" using assms by (simp add: unat_eq_0)
  moreover have "unat (g + 1) mod 256 = (unat g + 1) mod 256" by (simp add: unat_word_ariths mod_mod_cancel)
  ultimately show ?thesis unfolding word_less_nat_alt low_byte using mod_Suc [of "unat g" 256] by (simp split: if_splits)
qed

lemma shift_spec:
  assumes "mach_ok v" "marks_past v" "ring_past v" "\<not> vm_matched v"
  defines "w \<equiv> vm_shift v"
  shows "mach_ok w" "marks_past w" "ring_past w" "\<not> vm_matched w" "vm_ring w = tl (vm_ring v) @ [Nil]" "marks w p = {}"
    "\<And>pc pos. pc < RE_MAX_INST \<Longrightarrow> \<not> pushed w pos pc"
proof -
  show "mach_ok w" "\<not> vm_matched w" "vm_ring w = tl (vm_ring v) @ [Nil]"
    using assms(1,4) by (auto simp: w_def vm_shift_def Let_def mach_ok_def)
  have old: "vm_mark_tag w ! pc = 2 \<Longrightarrow> vm_mark_gen w ! pc < ucast (vm_gen w)"
      "vm_ring_tag w ! pc = 1 \<Longrightarrow> vm_ring_gen w ! pc < ucast (vm_gen w)" if "pc < RE_MAX_INST" for pc
    using that assms(2,3) gen_next [of "vm_gen v"]
    by (auto simp: w_def vm_shift_def Let_def marks_past_def ring_past_def split: if_splits intro: le_less_trans)
  then show "marks_past w" "ring_past w" by (auto simp: marks_past_def ring_past_def intro: less_imp_le)
  show "marks w p = {}" using old(1) by (fastforce simp: marks_def marked_def)
  show "\<And>pc pos. pc < RE_MAX_INST \<Longrightarrow> \<not> pushed w pos pc" using old(2) by (fastforce simp: pushed_def)
qed

section \<open>The frontier\<close>

lemma comingI:
  "live prog s entry pc r \<Longrightarrow> pc < length (pr_inst prog) \<Longrightarrow> r < p \<Longrightarrow> r < length s \<Longrightarrow>
   inst_takes prog s r (pr_inst prog ! pc) = Some adv \<Longrightarrow> r + adv = q \<Longrightarrow> ri_x (pr_inst prog ! pc) \<in> coming prog s entry p q"
  unfolding coming_def by blast

lemma arrived_live:
  assumes "arrived prog s p N v v'" "\<And>pc. pc \<in> N \<Longrightarrow> live prog s entry pc p" "pc \<in> marks v' p"
  shows "live prog s entry pc p"
proof -
  have "pc \<in> eps_reach prog s p N" using assms(1,3) unfolding arrived_def by blast
  then show ?thesis using live_reach [OF assms(2)] by blast
qed

lemma coming_live: "x \<in> coming prog s entry p q \<Longrightarrow> live prog s entry x q"
  by (auto simp: coming_def intro: live_step re_step.take)

lemma coming_far: "coming prog s entry p (p + 4) = {}"
  using takes_cases(3) by (fastforce simp: coming_def)

lemma coming_none:
  assumes "2 \<le> snd (re_cp_at s (length s) p)"
  shows "coming prog s entry p (p + snd (re_cp_at s (length s) p)) = {}"
proof (rule ccontr)
  assume "coming prog s entry p (p + snd (re_cp_at s (length s) p)) \<noteq> {}"
  then obtain i r adv where r: "r < p" "inst_takes prog s r i = Some adv" "r + adv = p + snd (re_cp_at s (length s) p)"
    by (auto simp: coming_def)
  then have "adv = snd (re_cp_at s (length s) r)" using takes_cases(1) [OF r(2)] assms by auto
  then have "snd (re_cp_at s (length s) (r + (p - r))) = 1" using r assms by (intro cp_inside [of _ s "length s" r]) auto
  then show False using r(1) assms by simp
qed

lemma coming_next:
  assumes "M = {pc. live prog s entry pc p}" "p < length s" "prog_ok prog" "entry < length (pr_inst prog)" "d \<in> {1..4}"
  shows "coming prog s entry (Suc p) (p + d) =
    coming prog s entry p (p + d) \<union> (\<lambda>pc. ri_x (pr_inst prog ! pc)) ` takers prog s p M RE_MAX_INST d"
proof -
  have in_prog: "pc < length (pr_inst prog)" "pc < RE_MAX_INST" if "live prog s entry pc p" for pc
    using live_in [OF assms(3,4) that] assms(3) by (auto simp: prog_ok_def)
  show ?thesis
  proof (intro set_eqI iffI)
    fix x assume "x \<in> coming prog s entry (Suc p) (p + d)"
    then obtain pc r adv where x: "x = ri_x (pr_inst prog ! pc)" "live prog s entry pc r" "pc < length (pr_inst prog)" "r < Suc p"
      "r < length s" "inst_takes prog s r (pr_inst prog ! pc) = Some adv" "r + adv = p + d" by (auto simp: coming_def)
    show "x \<in> coming prog s entry p (p + d) \<union> (\<lambda>pc. ri_x (pr_inst prog ! pc)) ` takers prog s p M RE_MAX_INST d"
    proof (cases "r = p")
      case True
      then show ?thesis using x in_prog assms(1) by (auto simp: takers_def)
    next
      case False
      then have "r < p" using x(4) by simp
      then show ?thesis using comingI [OF x(2,3) _ x(5,6,7)] x(1) by simp
    qed
  next
    fix x assume "x \<in> coming prog s entry p (p + d) \<union> (\<lambda>pc. ri_x (pr_inst prog ! pc)) ` takers prog s p M RE_MAX_INST d"
    then show "x \<in> coming prog s entry (Suc p) (p + d)"
    proof
      assume "x \<in> coming prog s entry p (p + d)"
      then show ?thesis by (auto simp: coming_def intro: less_SucI)
    next
      assume "x \<in> (\<lambda>pc. ri_x (pr_inst prog ! pc)) ` takers prog s p M RE_MAX_INST d"
      then show ?thesis using assms(1,2) in_prog by (auto simp: takers_def intro!: comingI)
    qed
  qed
qed

text \<open>The state of the machine before the turn at \<open>sp\<close>, with nothing matched so far.\<close>

definition frontier :: "re_prog \<Rightarrow> byte list \<Rightarrow> nat \<Rightarrow> nat \<Rightarrow> re_mach \<Rightarrow> bool" where
  "frontier prog s entry sp v \<longleftrightarrow> settled prog s sp v \<and> ring_past v \<and> (\<forall>pc < RE_MAX_INST. \<forall>pos. \<not> pushed v pos pc) \<and>
     (\<forall>pc \<in> marks v sp. live prog s entry pc sp) \<and> (sp = 0 \<longrightarrow> entry \<in> marks v sp) \<and>
     (\<forall>d < 5. set (vm_ring v ! d) = coming prog s entry sp (sp + d)) \<and>
     (\<forall>d \<in> {1..4}. length (vm_ring v ! d) \<le> length (pr_inst prog)) \<and>
     (\<forall>pc q. q < sp \<longrightarrow> live prog s entry pc q \<longrightarrow> \<not> at_match prog pc)"

lemma takers_card:
  assumes "M \<subseteq> {..<n}"
  shows "card (takers prog s p M k d) \<le> n"
proof -
  have "takers prog s p M k d \<subseteq> {..<n}" using assms by (auto simp: takers_def)
  then show ?thesis using card_mono [of "{..<n}"] by fastforce
qed

lemma takers_other: "d \<noteq> 1 \<Longrightarrow> d \<noteq> snd (re_cp_at s (length s) p) \<Longrightarrow> takers prog s p M k d = {}"
  using takes_cases(1) by (fastforce simp: takers_def)

text \<open>The turn behind the closures, when all live states are marked.\<close>

lemma consume_turn:
  assumes prog: "prog_ok prog" "entry < length (pr_inst prog)" and sp: "sp < length s"
    and f: "frontier prog s entry sp v" and v3: "settled prog s sp v3" "rest_same (v\<lparr>vm_gen_at := sp\<rparr>) v3"
    and all: "marks v3 sp = {pc. live prog s entry pc sp}"
  shows "frontier prog s entry (Suc sp) (vm_shift (fold (vm_consume prog s sp) [0..<RE_MAX_INST] v3))"
proof -
  let ?n = "length (pr_inst prog)" and ?T = "takers prog s sp (marks v3 sp) RE_MAX_INST"
  have n: "?n \<le> RE_MAX_INST" using prog by (simp add: prog_ok_def)
  have M: "marks v3 sp \<subseteq> {..<?n}" using v3(1) by (simp add: settled_def)
  have ring3: "vm_ring v3 = vm_ring v" "vm_gen_at v3 = sp" "vm_gen v3 = vm_gen v" and past: "ring_past v3"
    and np: "\<not> pushed v3 pos pc" if "pc < RE_MAX_INST" for pos pc
    using v3(2) f that by (auto simp: rest_same_def frontier_def ring_past_def pushed_def)
  have r3: "vm_ring v3 = vm_ring v" "vm_gen_at v3 = sp" "ring_past v3" using v3(2) f by (auto simp: rest_same_def frontier_def ring_past_def)
  have c0: "consumed prog s sp v3 0 v3"
    using v3(1) r3 np by (auto simp: consumed_def settled_def slot_has_def takers_def)
  have len: "length (vm_ring v3 ! d) \<le> ?n" "card (?T d) \<le> ?n" if "d \<in> {1..4}" for d
    using f that r3 takers_card [OF M] by (auto simp: frontier_def)
  define v4 where "v4 = fold (vm_consume prog s sp) [0..<RE_MAX_INST] v3"
  have c: "consumed prog s sp v3 RE_MAX_INST v4" unfolding v4_def
    using consume_fold [OF prog(1) M c0, of RE_MAX_INST] len n by fastforce
  then have slot: "slot_has prog s sp v3 RE_MAX_INST d (vm_ring v4 ! d)" if "d \<in> {1..4}" for d using that unfolding consumed_def by blast
  have "mach_ok v4" "marks_past v4" "ring_past v4" "\<not> vm_matched v4" "length (vm_ring v4) = 5"
    using c v3(1) by (auto simp: consumed_def settled_def mach_ok_def)
  note w = shift_spec [OF this(1-4)] and five = this(5)
  have set5: "set (vm_ring (vm_shift v4) ! d) = coming prog s entry (Suc sp) (Suc sp + d)" if "d < 5" for d
  proof (cases "d = 4")
    case True
    then show ?thesis using w(5) five coming_far [of prog s entry "Suc sp"] by (simp add: nth_append)
  next
    case False
    then have "vm_ring (vm_shift v4) ! d = vm_ring v4 ! Suc d" using that w(5) five by (simp add: nth_append nth_tl)
    moreover have "set (vm_ring v4 ! Suc d) = coming prog s entry (Suc sp) (sp + Suc d)"
      using slot [of "Suc d"] coming_next [OF all sp prog, of "Suc d"] f r3 False that by (simp add: slot_has_def frontier_def)
    ultimately show ?thesis by simp
  qed
  have len5: "length (vm_ring (vm_shift v4) ! d) \<le> ?n" if "d \<in> {1..4}" for d
  proof (cases "d = 4")
    case True
    then show ?thesis using w(5) five by (simp add: nth_append)
  next
    case False
    then have eq: "vm_ring (vm_shift v4) ! d = vm_ring v4 ! Suc d" and d: "Suc d \<in> {1..4}" "2 \<le> Suc d"
      using that w(5) five by (auto simp: nth_append nth_tl)
    have l: "length (vm_ring v4 ! Suc d) \<le> length (vm_ring v3 ! Suc d) + card (?T (Suc d))" using slot [OF d(1)] by (simp add: slot_has_def)
    show ?thesis
    proof (cases "Suc d = snd (re_cp_at s (length s) sp)")
      case True
      then have "coming prog s entry sp (sp + Suc d) = {}" using coming_none [of s sp prog entry] d by simp
      moreover have "set (vm_ring v3 ! Suc d) = coming prog s entry sp (sp + Suc d)" using f r3 d by (simp add: frontier_def)
      ultimately have "vm_ring v3 ! Suc d = []" by simp
      then show ?thesis using l len(2) [OF d(1)] eq by simp
    next
      case False
      then show ?thesis using takers_other [of "Suc d" s sp prog] d l len(1) [OF d(1)] eq by simp
    qed
  qed
  have "settled prog s (Suc sp) (vm_shift v4)" using w(1-4,6) by (simp add: settled_def eps_closed_def)
  moreover have "\<not> at_match prog pc" if "q < Suc sp" "live prog s entry pc q" for pc q
  proof (cases "q = sp")
    case True
    then show ?thesis using that(2) v3(1) all by (auto simp: settled_def)
  next
    case False
    then have "q < sp" using that(1) by simp
    then show ?thesis using that(2) f unfolding frontier_def by blast
  qed
  ultimately show ?thesis using w set5 len5 unfolding frontier_def v4_def [symmetric] by simp
qed

lemma vm_turn:
  assumes prog: "prog_ok prog" "entry < length (pr_inst prog)" and sp: "sp < length s" and f: "frontier prog s entry sp v"
  shows "\<exists>v'. vm_step prog s entry sp v = Some v' \<and>
    (if vm_matched v' then \<exists>pc q. live prog s entry pc q \<and> at_match prog pc else frontier prog s entry (Suc sp) v')"
proof -
  let ?v = "v\<lparr>vm_gen_at := sp\<rparr>"
  have marks_v [simp]: "marks ?v sp = marks v sp" by (simp add: marks_def marked_def)
  have set0: "set (vm_ring v ! 0) = coming prog s entry sp sp" using f by (simp add: frontier_def)
  have sv: "settled prog s sp ?v" using f by (simp add: frontier_def settled_def mach_ok_def marks_past_def)
  have in_prog: "set (vm_ring v ! 0) \<subseteq> {..<length (pr_inst prog)}" using set0 live_in [OF prog] coming_live by fastforce
  obtain v2 where v2: "vm_arrivals (pr_inst prog) s sp (vm_ring v ! 0) ?v = Some v2"
    "arrived prog s sp (marks v sp \<union> set (vm_ring v ! 0)) ?v v2"
    using arrivals_spec [OF prog(1) sv in_prog] by auto
  have N: "live prog s entry pc sp" if "pc \<in> marks v sp \<union> set (vm_ring v ! 0)" for pc
    using that f set0 coming_live by (auto simp: frontier_def)
  have l2: "live prog s entry pc sp" if "pc \<in> marks v2 sp" for pc using arrived_live [OF v2(2) N that] .
  show ?thesis
  proof (cases "vm_matched v2")
    case True
    then show ?thesis using v2 l2 by (auto simp: vm_step_def arrived_def)
  next
    case False
    then have s2: "settled prog s sp v2" "marks v sp \<union> set (vm_ring v ! 0) \<subseteq> marks v2 sp" using v2(2) by (auto simp: arrived_def)
    obtain v3 where v3: "re_closure (pr_inst prog) s entry sp v2 = Some v3" "arrived prog s sp (insert entry (marks v2 sp)) v2 v3"
      using entry_spec [OF prog(1) s2(1) prog(2)] by blast
    have "live prog s entry entry sp" using sp by (auto simp: live_def)
    then have l3: "live prog s entry pc sp" if "pc \<in> marks v3 sp" for pc
      using arrived_live [OF v3(2) _ that, of entry] l2 by auto
    show ?thesis
    proof (cases "vm_matched v3")
      case True
      then show ?thesis using v2(1) v3 l3 False by (auto simp: vm_step_def arrived_def)
    next
      case m3: False
      then have s3: "settled prog s sp v3" "insert entry (marks v2 sp) \<subseteq> marks v3 sp" using v3(2) by (auto simp: arrived_def)
      have "pc \<in> marks v3 sp" if "live prog s entry pc sp" for pc
        using live_from [OF _ _ _ that, of "marks v3 sp"] s3 s2(2) set0 by (auto simp: settled_def)
      then have "marks v3 sp = {pc. live prog s entry pc sp}" using l3 by auto
      moreover have "rest_same ?v v3" using v2(2) v3(2) by (auto simp: arrived_def intro: rest_same_trans)
      ultimately have f': "frontier prog s entry (Suc sp) (vm_shift (fold (vm_consume prog s sp) [0..<RE_MAX_INST] v3))"
        using consume_turn [OF prog sp f s3(1)] by blast
      then have "\<not> vm_matched (vm_shift (fold (vm_consume prog s sp) [0..<RE_MAX_INST] v3))" by (simp add: frontier_def settled_def)
      then show ?thesis using v2(1) v3(1) False m3 f' by (simp add: vm_step_def)
    qed
  qed
qed

lemma vm_turns:
  assumes "prog_ok prog" "entry < length (pr_inst prog)" "frontier prog s entry sp v" "sp \<le> length s"
  shows "\<exists>v'. vm_loop prog s entry [sp..<length s] v = Some v' \<and>
    (if vm_matched v' then \<exists>pc q. live prog s entry pc q \<and> at_match prog pc else frontier prog s entry (length s) v')"
  using assms(3,4)
proof (induction "length s - sp" arbitrary: sp v)
  case 0
  then show ?case by (auto simp: frontier_def settled_def)
next
  case (Suc k)
  then have sp: "sp < length s" by simp
  obtain v' where v': "vm_step prog s entry sp v = Some v'"
    "if vm_matched v' then \<exists>pc q. live prog s entry pc q \<and> at_match prog pc else frontier prog s entry (Suc sp) v'"
    using vm_turn [OF assms(1,2) sp Suc.prems(1)] by blast
  then show ?case using Suc.hyps(1) [of "Suc sp" v'] Suc.hyps(2) sp by (auto simp: upt_rec [of sp])
qed

lemma live_bound: "live prog s entry pc p \<Longrightarrow> p \<le> length s"
proof -
  assume "live prog s entry pc p"
  then obtain q where q: "q = 0 \<or> q < length s" "(re_step prog s)\<^sup>*\<^sup>* (entry, q) (pc, p)" by (auto simp: live_def)
  have "snd c \<le> length s" if "(re_step prog s)\<^sup>*\<^sup>* (entry, q) c" for c
    using that by induction (use q(1) in \<open>auto elim!: re_step.cases dest: takes_cases(4)\<close>)
  then show ?thesis using q(2) by fastforce
qed

lemma start_settled: "settled prog s 0 vm_start"
  by (auto simp: settled_def vm_start_def Let_def mach_ok_def marks_past_def marks_def marked_def eps_closed_def)

theorem vm_exact:
  assumes prog: "prog_ok prog" "pr_entry prog = Some entry" "entry < length (pr_inst prog)"
  shows "re_vm prog s = Some (\<exists>q. (q = 0 \<or> q < length s) \<and> re_accepts prog s entry q)"
proof -
  define found where "found \<longleftrightarrow> (\<exists>pc q. live prog s entry pc q \<and> at_match prog pc)"
  have fd: "found \<longleftrightarrow> (\<exists>q. (q = 0 \<or> q < length s) \<and> re_accepts prog s entry q)"
    unfolding found_def live_def re_accepts_def by blast
  obtain v1 where v1: "re_closure (pr_inst prog) s entry 0 vm_start = Some v1" "arrived prog s 0 (insert entry (marks vm_start 0)) vm_start v1"
    using entry_spec [OF prog(1) start_settled prog(3)] by blast
  have m0: "marks vm_start 0 = {}" by (auto simp: marks_def marked_def vm_start_def Let_def)
  have l0: "live prog s entry entry 0" by (auto simp: live_def)
  have l1: "live prog s entry pc 0" if "pc \<in> marks v1 0" for pc
    using arrived_live [OF v1(2) _ that, of entry] l0 m0 by auto
  have "re_vm prog s = Some found"
  proof (cases "vm_matched v1")
    case True
    then have "found" using v1(2) l1 by (auto simp: arrived_def found_def)
    then show ?thesis using v1(1) True prog(2) by (simp add: re_vm_def)
  next
    case m1: False
    have rs: "rest_same vm_start v1" "settled prog s 0 v1" "entry \<in> marks v1 0" using v1(2) m1 by (auto simp: arrived_def)
    have "frontier prog s entry 0 v1"
      using rs l1 by (auto simp: frontier_def rest_same_def vm_start_def Let_def ring_past_def pushed_def coming_def nth_Cons'
          numeral_eq_Suc)
    then obtain v2 where v2: "vm_loop prog s entry [0..<length s] v1 = Some v2"
      "if vm_matched v2 then \<exists>pc q. live prog s entry pc q \<and> at_match prog pc else frontier prog s entry (length s) v2"
      using vm_turns [OF prog(1,3)] by blast
    show ?thesis
    proof (cases "vm_matched v2")
      case True
      then have "found" using v2(2) by (simp add: found_def)
      then show ?thesis using v1(1) v2(1) m1 True prog(2) by (simp add: re_vm_def)
    next
      case m2: False
      then have f: "frontier prog s entry (length s) v2" using v2(2) by simp
      let ?v = "v2\<lparr>vm_gen_at := length s\<rparr>"
      have mv [simp]: "marks ?v (length s) = marks v2 (length s)" by (simp add: marks_def marked_def)
      have set0: "set (vm_ring v2 ! 0) = coming prog s entry (length s) (length s)" using f by (simp add: frontier_def)
      have "settled prog s (length s) ?v" using f by (simp add: frontier_def settled_def mach_ok_def marks_past_def)
      moreover have "set (vm_ring v2 ! 0) \<subseteq> {..<length (pr_inst prog)}" using set0 live_in [OF prog(1,3)] coming_live by fastforce
      ultimately obtain v3 where v3: "vm_arrivals (pr_inst prog) s (length s) (vm_ring v2 ! 0) ?v = Some v3"
        "arrived prog s (length s) (marks v2 (length s) \<union> set (vm_ring v2 ! 0)) ?v v3"
        using arrivals_spec [OF prog(1)] by fastforce
      have "live prog s entry pc (length s)" if "pc \<in> marks v2 (length s) \<union> set (vm_ring v2 ! 0)" for pc
        using that f set0 coming_live by (auto simp: frontier_def)
      note l3 = arrived_live [OF v3(2) this]
      have "vm_matched v3 \<longleftrightarrow> found"
      proof
        assume "vm_matched v3"
        then show found using v3(2) l3 by (auto simp: arrived_def found_def)
      next
        assume found
        then obtain pc q where pq: "live prog s entry pc q" "at_match prog pc" by (auto simp: found_def)
        show "vm_matched v3"
        proof (rule ccontr)
          assume a: "\<not> vm_matched v3"
          have "\<not> q < length s" using pq f unfolding frontier_def by blast
          then have q: "q = length s" using live_bound [OF pq(1)] by simp
          have sub: "marks v2 (length s) \<union> set (vm_ring v2 ! 0) \<subseteq> marks v3 (length s)"
            and "eps_closed prog s (length s) (marks v3 (length s)) (marks v3 (length s))"
            using a v3(2) by (auto simp: arrived_def settled_def)
          moreover have "entry \<in> marks v3 (length s)" if "length s = 0 \<or> length s < length s"
            using that f sub by (auto simp: frontier_def)
          ultimately have "pc \<in> marks v3 (length s)" using live_from [OF _ _ _ pq(1) [unfolded q]] set0 by blast
          then show False using a v3(2) pq(2) by (auto simp: arrived_def)
        qed
      qed
      then show ?thesis using v1(1) v2(1) v3(1) m1 m2 prog(2) by (simp add: re_vm_def)
    qed
  qed
  then show ?thesis unfolding fd .
qed

end
