(* ===== verification/Regexp_Compile.thy ===== *)
theory Regexp_Compile
  imports Regexp_Machine
begin

text \<open>
  The compiler of \<^verbatim>\<open>regexp.c\<close>: a syntax tree stands for an expression, an expression for a relation on positions, and the
  program made for the tree runs from its entry to its end exactly along that relation. A fragment with pending arrows is correct
  for every target its arrows may be given; the cases of the compiler join such fragments.
\<close>

section \<open>Regular expressions and their meaning\<close>

text \<open>The expression that a syntax tree stands for, as a relation on positions of the subject.\<close>

datatype regex =
  R_Empty | R_Byte byte | R_Class byte | R_Assert byte | R_Cat regex regex | R_Alt regex regex | R_Rep regex nat nat

primrec re_sem :: "re_prog \<Rightarrow> byte list \<Rightarrow> regex \<Rightarrow> nat \<Rightarrow> nat \<Rightarrow> bool" where
  "re_sem prog s R_Empty = (=)"
| "re_sem prog s (R_Byte b) = (\<lambda>p p'. p < length s \<and> s ! p = b \<and> p' = p + 1)"
| "re_sem prog s (R_Class k) = (\<lambda>p p'. p < length s \<and>
     (case re_cp_at s (length s) p of (cp, len) \<Rightarrow> class_hit prog s p cp len (unat k) \<and> p' = p + len))"
| "re_sem prog s (R_Assert k) = (\<lambda>p p'. assert_ok s p k \<and> p' = p)"
| "re_sem prog s (R_Cat a b) = re_sem prog s a OO re_sem prog s b"
| "re_sem prog s (R_Alt a b) = (\<lambda>p p'. re_sem prog s a p p' \<or> re_sem prog s b p p')"
| "re_sem prog s (R_Rep a mn mx) = (\<lambda>p p'. \<exists>n. mn \<le> n \<and> (mx = RE_REP_INF \<or> n \<le> mx) \<and> (re_sem prog s a ^^ n) p p')"

inductive tree :: "re_ast list \<Rightarrow> nat \<Rightarrow> regex \<Rightarrow> bool" for A where
  empty: "i < length A \<Longrightarrow> ra_kind (A ! i) = A_EMPTY \<Longrightarrow> tree A i R_Empty"
| byte: "i < length A \<Longrightarrow> ra_kind (A ! i) = A_BYTE \<Longrightarrow> tree A i (R_Byte (ra_a (A ! i)))"
| cls: "i < length A \<Longrightarrow> ra_kind (A ! i) = A_CLASS \<Longrightarrow> tree A i (R_Class (ra_cls (A ! i)))"
| assert: "i < length A \<Longrightarrow> ra_kind (A ! i) = A_ASSERT \<Longrightarrow> tree A i (R_Assert (ra_a (A ! i)))"
| cat: "i < length A \<Longrightarrow> ra_kind (A ! i) = A_CAT \<Longrightarrow> tree A (unat (ra_a (A ! i))) a \<Longrightarrow> tree A (unat (ra_b (A ! i))) b \<Longrightarrow>
    tree A i (R_Cat a b)"
| alt: "i < length A \<Longrightarrow> ra_kind (A ! i) = A_ALT \<Longrightarrow> tree A (unat (ra_a (A ! i))) a \<Longrightarrow> tree A (unat (ra_b (A ! i))) b \<Longrightarrow>
    tree A i (R_Alt a b)"
| rep: "i < length A \<Longrightarrow> ra_kind (A ! i) = A_REP \<Longrightarrow> tree A (unat (ra_a (A ! i))) a \<Longrightarrow>
    ra_min (A ! i) \<le> ra_max (A ! i) \<Longrightarrow> ra_max (A ! i) \<le> RE_REP_INF \<Longrightarrow> tree A i (R_Rep a (ra_min (A ! i)) (ra_max (A ! i)))"

section \<open>Runs inside a part of a program\<close>

definition leaves :: "re_prog \<Rightarrow> byte list \<Rightarrow> nat set \<Rightarrow> nat \<times> nat \<Rightarrow> nat \<times> nat \<Rightarrow> bool" where
  "leaves prog s D c c' \<longleftrightarrow> fst c' \<notin> D \<and> (\<lambda>c c'. fst c \<in> D \<and> re_step prog s c c')\<^sup>*\<^sup>* c c'"

lemma leaves_out: "fst c \<notin> D \<Longrightarrow> leaves prog s D c c' \<longleftrightarrow> c' = c"
  by (auto simp: leaves_def elim: converse_rtranclpE)

lemma leaves_step: "fst c \<in> D \<Longrightarrow> leaves prog s D c c'' \<longleftrightarrow> (\<exists>c'. re_step prog s c c' \<and> leaves prog s D c' c'')"
proof
  assume "fst c \<in> D" "leaves prog s D c c''"
  then show "\<exists>c'. re_step prog s c c' \<and> leaves prog s D c' c''"
    unfolding leaves_def by (metis (mono_tags, lifting) converse_rtranclpE)
next
  assume "fst c \<in> D" "\<exists>c'. re_step prog s c c' \<and> leaves prog s D c' c''"
  then show "leaves prog s D c c''" unfolding leaves_def by (blast intro: converse_rtranclp_into_rtranclp)
qed

lemma leaves_split:
  assumes "D1 \<subseteq> D"
  shows "leaves prog s D c c'' \<longleftrightarrow> (\<exists>c'. leaves prog s D1 c c' \<and> leaves prog s D c' c'')"
proof
  assume "leaves prog s D c c''"
  then have out: "fst c'' \<notin> D" and path: "(\<lambda>c c'. fst c \<in> D \<and> re_step prog s c c')\<^sup>*\<^sup>* c c''" by (auto simp: leaves_def)
  from path show "\<exists>c'. leaves prog s D1 c c' \<and> leaves prog s D c' c''"
  proof (induction rule: converse_rtranclp_induct)
    case base
    then show ?case using out assms leaves_out [of c'' D] leaves_out [of c'' D1] by blast
  next
    case (step b c)
    show ?case
    proof (cases "fst b \<in> D1")
      case True
      then show ?thesis using step leaves_step [of b D1] by blast
    next
      case False
      have "leaves prog s D b c''" unfolding leaves_def using out converse_rtranclp_into_rtranclp [OF step(1,2)] by simp
      then show ?thesis using leaves_out [OF False] by blast
    qed
  qed
next
  assume "\<exists>c'. leaves prog s D1 c c' \<and> leaves prog s D c' c''"
  then obtain c' where c: "leaves prog s D1 c c'" "leaves prog s D c' c''" by blast
  have "(\<lambda>c c'. fst c \<in> D \<and> re_step prog s c c')\<^sup>*\<^sup>* c c'"
    using c(1) assms unfolding leaves_def by (auto elim!: mono_rtranclp [rule_format, rotated])
  then show "leaves prog s D c c''" using c(2) unfolding leaves_def by auto
qed

text \<open>A part entered at \<open>i\<close> whose runs all end at \<open>t\<close> and relate positions by \<open>R\<close>.\<close>

definition realizes :: "re_prog \<Rightarrow> byte list \<Rightarrow> nat set \<Rightarrow> nat \<Rightarrow> nat \<Rightarrow> (nat \<Rightarrow> nat \<Rightarrow> bool) \<Rightarrow> bool" where
  "realizes prog s D i t R \<longleftrightarrow> t \<notin> D \<and> (\<forall>p c'. leaves prog s D (i, p) c' \<longleftrightarrow> (\<exists>p'. c' = (t, p') \<and> R p p'))"

lemma realizes_part:
  assumes "realizes prog s D1 i t R" "D1 \<subseteq> D"
  shows "leaves prog s D (i, p) c' \<longleftrightarrow> (\<exists>p'. R p p' \<and> leaves prog s D (t, p') c')"
  using assms(1) unfolding realizes_def leaves_split [OF assms(2), of prog s "(i, p)"] by auto

lemma realizes_seq:
  assumes "realizes prog s D1 i1 i2 R1" "realizes prog s D2 i2 t R2" "t \<notin> D1"
  shows "realizes prog s (D1 \<union> D2) i1 t (R1 OO R2)"
proof -
  have t: "t \<notin> D1 \<union> D2" using assms by (auto simp: realizes_def)
  have "leaves prog s (D1 \<union> D2) (i1, p) c' \<longleftrightarrow> (\<exists>p'. c' = (t, p') \<and> (R1 OO R2) p p')" for p c'
    using realizes_part [OF assms(1), of "D1 \<union> D2"] realizes_part [OF assms(2), of "D1 \<union> D2"] leaves_out [of "(t, _)" "D1 \<union> D2"] t
    by (auto simp: relcompp_apply)
  then show ?thesis using t by (simp add: realizes_def)
qed

text \<open>The steps of an instruction that consumes nothing.\<close>

lemma eps_steps:
  assumes "pc < length (pr_inst prog)" "ri_op (pr_inst prog ! pc) \<in> {RE_OP_JMP, RE_OP_SPLIT, RE_OP_ASSERT}"
  shows "re_step prog s (pc, p) c' \<longleftrightarrow> (\<exists>pc' \<in> set (inst_next s p (pr_inst prog ! pc)). c' = (pc', p))"
proof
  assume "re_step prog s (pc, p) c'"
  then show "\<exists>pc' \<in> set (inst_next s p (pr_inst prog ! pc)). c' = (pc', p)"
    using assms(2) by cases (auto simp: inst_takes_def Let_def split: prod.splits)
qed (use assms(1) in \<open>auto intro: re_step.eps\<close>)

lemma split_steps:
  assumes "pc < length (pr_inst prog)" "ri_op (pr_inst prog ! pc) = RE_OP_SPLIT"
  shows "re_step prog s (pc, p) c' \<longleftrightarrow> c' = (ri_x (pr_inst prog ! pc), p) \<or> c' = (ri_y (pr_inst prog ! pc), p)"
  using eps_steps [of pc prog s p c'] assms by (auto simp: inst_next_def)

lemma leaves_branch:
  assumes "pc < length (pr_inst prog)" "ri_op (pr_inst prog ! pc) = RE_OP_SPLIT" "pc \<in> D"
  shows "leaves prog s D (pc, p) c' \<longleftrightarrow> leaves prog s D (ri_x (pr_inst prog ! pc), p) c' \<or> leaves prog s D (ri_y (pr_inst prog ! pc), p) c'"
proof -
  have "fst (pc, p) \<in> D" using assms(3) by simp
  from leaves_step [OF this, of prog s c'] show ?thesis unfolding split_steps [OF assms(1,2)] by blast
qed

lemma leaves_end: "t \<notin> D \<Longrightarrow> leaves prog s D (t, p) c' \<longleftrightarrow> c' = (t, p)"
  by (rule leaves_out) simp

lemma realizes_alt:
  assumes "realizes prog s D1 i1 t R1" "realizes prog s D2 i2 t R2" "t \<noteq> pc" "pc < length (pr_inst prog)"
    and "ri_op (pr_inst prog ! pc) = RE_OP_SPLIT" "ri_x (pr_inst prog ! pc) = i1" "ri_y (pr_inst prog ! pc) = i2"
  shows "realizes prog s (insert pc (D1 \<union> D2)) pc t (\<lambda>p p'. R1 p p' \<or> R2 p p')"
proof -
  let ?D = "insert pc (D1 \<union> D2)"
  have t: "t \<notin> ?D" and s1: "D1 \<subseteq> ?D" and s2: "D2 \<subseteq> ?D" using assms(1-3) by (auto simp: realizes_def)
  have "leaves prog s ?D (pc, p) c' \<longleftrightarrow> (\<exists>p'. c' = (t, p') \<and> (R1 p p' \<or> R2 p p'))" for p c'
    unfolding leaves_branch [OF assms(4,5) insertI1] assms(6,7) realizes_part [OF assms(1) s1] realizes_part [OF assms(2) s2]
      leaves_end [OF t] by auto
  then show ?thesis using t by (simp add: realizes_def)
qed

lemma realizes_star:
  assumes body: "realizes prog s D i pc R \<or> i = pc \<and> D = {} \<and> R = (=)" and t: "t \<notin> insert pc D" and pc: "pc < length (pr_inst prog)"
    and split: "ri_op (pr_inst prog ! pc) = RE_OP_SPLIT" "ri_x (pr_inst prog ! pc) = i" "ri_y (pr_inst prog ! pc) = t"
  shows "realizes prog s (insert pc D) pc t R\<^sup>*\<^sup>*"
proof -
  let ?D = "insert pc D" and ?st = "\<lambda>c c'. fst c \<in> D \<and> re_step prog s c c'"
  have unfold: "leaves prog s ?D (pc, p) c' \<longleftrightarrow> c' = (t, p) \<or> leaves prog s ?D (i, p) c'" for p c'
    unfolding leaves_branch [OF pc split(1) insertI1] split(2,3) leaves_end [OF t] by blast
  have run: "leaves prog s ?D (pc, p) (t, p')" if "R\<^sup>*\<^sup>* p p'" for p p'
    using that
  proof (induction rule: converse_rtranclp_induct)
    case base
    then show ?case using unfold by blast
  next
    case (step p q)
    show ?case
    proof (cases "realizes prog s D i pc R")
      case True
      then show ?thesis using step unfold realizes_part [OF True, of ?D] by blast
    next
      case False
      then show ?thesis using step body by auto
    qed
  qed
  define inv where "inv p c \<longleftrightarrow> fst c = pc \<and> R\<^sup>*\<^sup>* p (snd c) \<or> fst c = t \<and> R\<^sup>*\<^sup>* p (snd c) \<or>
      fst c \<in> D \<and> fst c \<noteq> pc \<and> (\<exists>q. R\<^sup>*\<^sup>* p q \<and> ?st\<^sup>*\<^sup>* (i, q) c)" for p c
  have keep: "inv p c'" if c: "inv p c" "fst c \<in> ?D" "re_step prog s c c'" for p c c'
  proof -
    have enter: "inv p (i, q)" if "R\<^sup>*\<^sup>* p q" for q
    proof (cases "i = pc")
      case True
      then show ?thesis using that by (simp add: inv_def)
    next
      case False
      then have real: "realizes prog s D i pc R" using body by blast
      show ?thesis
      proof (cases "i \<in> D")
        case True
        then show ?thesis using that False unfolding inv_def by auto
      next
        case out: False
        then have "leaves prog s D (i, q) (i, q)" using leaves_out by simp
        then show ?thesis using real False by (auto simp: realizes_def)
      qed
    qed
    from c(1) consider "fst c = pc" "R\<^sup>*\<^sup>* p (snd c)" | "fst c = t" | q where "fst c \<in> D" "fst c \<noteq> pc" "R\<^sup>*\<^sup>* p q" "?st\<^sup>*\<^sup>* (i, q) c"
      unfolding inv_def by blast
    then show ?thesis
    proof cases
      case 1
      then have "c' = (i, snd c) \<or> c' = (t, snd c)" using c(3) split_steps [OF pc split(1), of s "snd c" c'] split(2,3) by (cases c) auto
      then show ?thesis using enter 1 by (auto simp: inv_def)
    next
      case 2
      then show ?thesis using c(2) t by simp
    next
      case 3
      then have real: "realizes prog s D i pc R" using body by auto
      have path: "?st\<^sup>*\<^sup>* (i, q) c'" using 3(1,4) c(3) by (metis (mono_tags, lifting) rtranclp.rtrancl_into_rtrancl)
      show ?thesis
      proof (cases "fst c' \<in> D")
        case True
        then have "fst c' \<noteq> pc" using real by (auto simp: realizes_def)
        then show ?thesis using True path 3(3) unfolding inv_def by blast
      next
        case False
        then have "leaves prog s D (i, q) c'" using path by (simp add: leaves_def)
        then obtain q' where "c' = (pc, q')" "R q q'" using real unfolding realizes_def by blast
        then show ?thesis using rtranclp.rtrancl_into_rtrancl [OF 3(3)] by (simp add: inv_def)
      qed
    qed
  qed
  have "\<exists>p'. c' = (t, p') \<and> R\<^sup>*\<^sup>* p p'" if l: "leaves prog s ?D (pc, p) c'" for p c'
  proof -
    have path: "(\<lambda>c c'. fst c \<in> ?D \<and> re_step prog s c c')\<^sup>*\<^sup>* (pc, p) c'" using l by (simp add: leaves_def)
    have "inv p c'" using path by induction (auto simp: inv_def [of _ "(pc, _)"] intro: keep)
    then show ?thesis using l by (cases c') (auto simp: inv_def leaves_def)
  qed
  then show ?thesis using run t unfolding realizes_def by blast
qed

section \<open>Fragments\<close>

definition patch :: "nat set \<Rightarrow> nat \<Rightarrow> nat \<Rightarrow> re_inst \<Rightarrow> re_inst" where
  "patch bits t pc i =
     i\<lparr>ri_x := (if 2 * pc \<in> bits then t else ri_x i), ri_y := (if 2 * pc + 1 \<in> bits then t else ri_y i)\<rparr>"

lemma patch_none [simp]: "patch {} t pc i = i"
  by (simp add: patch_def)

lemma patch_sel [simp]: "ri_op (patch bits t pc i) = ri_op i" "ri_cls (patch bits t pc i) = ri_cls i"
  "ri_x (patch bits t pc i) = (if 2 * pc \<in> bits then t else ri_x i)"
  "ri_y (patch bits t pc i) = (if 2 * pc + 1 \<in> bits then t else ri_y i)"
  by (simp_all add: patch_def)

text \<open>The arrows of the instructions in \<open>D\<close>.\<close>

definition arrows :: "nat set \<Rightarrow> nat set" where
  "arrows D = {k. k div 2 \<in> D}"

lemma arrows_Un [simp]: "arrows (D \<union> E) = arrows D \<union> arrows E"
  by (auto simp: arrows_def)

lemma in_arrows [simp]: "2 * pc \<in> arrows D \<longleftrightarrow> pc \<in> D" "Suc (2 * pc) \<in> arrows D \<longleftrightarrow> pc \<in> D" "pc * 2 \<in> arrows D \<longleftrightarrow> pc \<in> D"
  "Suc (pc * 2) \<in> arrows D \<longleftrightarrow> pc \<in> D"
  by (auto simp: arrows_def)

lemma arrows_mono: "D \<subseteq> E \<Longrightarrow> arrows D \<subseteq> arrows E"
  by (auto simp: arrows_def)

lemma patch_out: "bits \<subseteq> arrows D \<Longrightarrow> pc \<notin> D \<Longrightarrow> patch bits t pc i = i"
  by (auto simp: patch_def arrows_def subset_iff)

lemma connect_fold:
  "fold (\<lambda>k inst. if k \<in> bits then set_arrow t k inst else inst) ks inst ! pc = patch (bits \<inter> set ks) t pc (inst ! pc) \<and>
   length (fold (\<lambda>k inst. if k \<in> bits then set_arrow t k inst else inst) ks inst) = length inst"
  if "pc < length inst"
  using that
proof (induction ks arbitrary: inst)
  case (Cons k ks)
  let ?i = "if k \<in> bits then set_arrow t k inst else inst"
  have len: "length ?i = length inst" by (simp add: set_arrow_def Let_def)
  have "patch (bits \<inter> set ks) t pc (?i ! pc) = patch (bits \<inter> set (k # ks)) t pc (inst ! pc)"
  proof (cases "k div 2 = pc")
    case True
    then consider "k = 2 * pc" | "k = Suc (2 * pc)" by linarith
    then show ?thesis by cases (use Cons.prems in \<open>cases "k \<in> bits"; simp add: set_arrow_def Let_def patch_def\<close>)+
  next
    case False
    then have "k \<noteq> 2 * pc" "k \<noteq> Suc (2 * pc)" by auto
    then show ?thesis using Cons.prems False by (cases "k \<in> bits") (simp_all add: set_arrow_def Let_def patch_def)
  qed
  then show ?case using Cons.IH [of ?i] Cons.prems len by simp
qed simp

lemma connect_nth:
  assumes "bits \<subseteq> arrows {..<RE_MAX_INST}" "pc < length inst"
  shows "frag_connect bits t inst ! pc = patch bits t pc (inst ! pc)"
proof -
  have "bits \<subseteq> {..<RE_MAX_INST * 2}" using assms(1) by (auto simp: arrows_def subset_iff)
  then have "bits \<inter> set [0..<RE_MAX_INST * 2] = bits" by auto
  then show ?thesis using connect_fold [OF assms(2), of bits t "[0..<RE_MAX_INST * 2]"] by (simp add: frag_connect_def)
qed

lemma connect_length [simp]: "length (frag_connect bits t inst) = length inst"
proof -
  have "length (fold (\<lambda>k inst. if k \<in> bits then set_arrow t k inst else inst) ks inst) = length inst" for ks
    by (induction ks arbitrary: inst) (auto simp: set_arrow_def Let_def)
  then show ?thesis by (simp add: frag_connect_def)
qed

text \<open>The program holds the instructions of \<open>D\<close>, with the pending arrows \<open>bits\<close> resolved to \<open>t\<close>.\<close>

definition holds :: "re_prog \<Rightarrow> re_inst list \<Rightarrow> nat set \<Rightarrow> nat set \<Rightarrow> nat \<Rightarrow> bool" where
  "holds prog inst D bits t \<longleftrightarrow> (\<forall>pc \<in> D. pc < length (pr_inst prog) \<and> pr_inst prog ! pc = patch bits t pc (inst ! pc))"

text \<open>Every arrow of the part is pending or stays inside.\<close>

definition closed_part :: "re_inst list \<Rightarrow> nat set \<Rightarrow> nat set \<Rightarrow> bool" where
  "closed_part inst D bits \<longleftrightarrow> D \<subseteq> {..<length inst} \<and> bits \<subseteq> arrows D \<and>
     (\<forall>pc \<in> D. ri_op (inst ! pc) \<noteq> RE_OP_MATCH \<and> (2 * pc \<in> bits \<or> ri_x (inst ! pc) \<in> D) \<and>
        (ri_op (inst ! pc) = RE_OP_SPLIT \<longrightarrow> 2 * pc + 1 \<in> bits \<or> ri_y (inst ! pc) \<in> D))"

type_synonym meaning = "re_prog \<Rightarrow> byte list \<Rightarrow> nat \<Rightarrow> nat \<Rightarrow> bool"

definition frag_ok :: "meaning \<Rightarrow> re_inst list \<Rightarrow> nat set \<Rightarrow> re_frag \<Rightarrow> bool" where
  "frag_ok R inst D f \<longleftrightarrow>
     (case fr_in f of
        None \<Rightarrow> D = {} \<and> fr_bits f = {} \<and> R = (\<lambda>prog s. (=))
      | Some i \<Rightarrow> i \<in> D \<and> closed_part inst D (fr_bits f) \<and>
          (\<forall>prog s t. t \<notin> D \<longrightarrow> holds prog inst D (fr_bits f) t \<longrightarrow> realizes prog s D i t (R prog s)))"

lemma frag_ok_cong:
  assumes "frag_ok R inst D f" "\<And>pc. pc \<in> D \<Longrightarrow> inst' ! pc = inst ! pc" "length inst \<le> length inst'"
  shows "frag_ok R inst' D f"
proof (cases "fr_in f")
  case (Some i)
  have "holds prog inst' D bits t = holds prog inst D bits t" for prog bits t using assms(2) by (simp add: holds_def)
  moreover have "closed_part inst D bits \<Longrightarrow> closed_part inst' D bits" for bits using assms(2,3) by (fastforce simp: closed_part_def)
  ultimately show ?thesis using assms(1) Some by (auto simp: frag_ok_def)
qed (use assms(1) in \<open>simp add: frag_ok_def\<close>)

text \<open>A fragment whose arrows were resolved to \<open>t\<close>.\<close>

lemma resolved:
  assumes "frag_ok R inst D f" "fr_in f = Some i" "t \<notin> D"
    and "\<And>pc. pc \<in> D \<Longrightarrow> pc < length (pr_inst prog) \<and> pr_inst prog ! pc = patch (fr_bits f) t pc (inst ! pc)"
  shows "realizes prog s D i t (R prog s)"
  using assms by (auto simp: frag_ok_def holds_def)

text \<open>What a compile step does to the context.\<close>

definition grown :: "re_ctx \<Rightarrow> re_ctx \<Rightarrow> bool" where
  "grown c c' \<longleftrightarrow> (\<exists>inst. c' = c\<lparr>rc_inst := inst\<rparr>) \<and> length (rc_inst c) \<le> length (rc_inst c') \<and>
     length (rc_inst c') \<le> RE_MAX_INST \<and> (\<forall>pc < length (rc_inst c). rc_inst c' ! pc = rc_inst c ! pc)"

definition new_part :: "re_ctx \<Rightarrow> re_ctx \<Rightarrow> nat set" where
  "new_part c c' = {length (rc_inst c)..<length (rc_inst c')}"

lemma grown_trans: "grown a b \<Longrightarrow> grown b c \<Longrightarrow> grown a c"
  unfolding grown_def by (auto intro: order_trans)

lemma emit_grown:
  assumes "emit_inst op v x y c = (Some pc, c')"
  shows "pc = length (rc_inst c)" "c' = c\<lparr>rc_inst := rc_inst c @ [\<lparr>ri_op = op, ri_cls = v, ri_x = x, ri_y = y\<rparr>]\<rparr>" "grown c c'"
    "length (rc_inst c) < RE_MAX_INST"
  using assms by (auto simp: emit_inst_def grown_def nth_append split: if_splits)

lemma takes_steps:
  assumes "pc < length (pr_inst prog)" "ri_op (pr_inst prog ! pc) \<in> {RE_OP_BYTE, RE_OP_CHAR}"
  shows "re_step prog s (pc, p) c' \<longleftrightarrow>
    p < length s \<and> (\<exists>adv. inst_takes prog s p (pr_inst prog ! pc) = Some adv \<and> c' = (ri_x (pr_inst prog ! pc), p + adv))"
proof
  assume "re_step prog s (pc, p) c'"
  then show "p < length s \<and> (\<exists>adv. inst_takes prog s p (pr_inst prog ! pc) = Some adv \<and> c' = (ri_x (pr_inst prog ! pc), p + adv))"
    using assms(2) by cases (auto simp: inst_next_def)
qed (use assms(1) in \<open>auto intro: re_step.take\<close>)

lemma single_realizes:
  assumes "t \<noteq> pc" "\<And>p c'. re_step prog s (pc, p) c' \<longleftrightarrow> (\<exists>p'. c' = (t, p') \<and> R p p')"
  shows "realizes prog s {pc} pc t R"
proof -
  have t: "t \<notin> {pc}" using assms(1) by simp
  have "leaves prog s {pc} (pc, p) c' \<longleftrightarrow> (\<exists>p'. c' = (t, p') \<and> R p p')" for p c'
  proof -
    have "fst (pc, p) \<in> {pc}" by simp
    from leaves_step [OF this, of prog s c'] leaves_end [OF t] assms(2) show ?thesis by auto
  qed
  then show ?thesis using assms(1) by (simp add: realizes_def)
qed

text \<open>A fragment of one instruction with its first arrow pending.\<close>

lemma single_ok:
  assumes "inst ! pc = i" "pc < length inst" "ri_op i \<noteq> RE_OP_MATCH" "ri_op i \<noteq> RE_OP_SPLIT"
    and "\<And>prog s t p c'. pc < length (pr_inst prog) \<Longrightarrow> pr_inst prog ! pc = i\<lparr>ri_x := t\<rparr> \<Longrightarrow>
      re_step prog s (pc, p) c' \<longleftrightarrow> (\<exists>p'. c' = (t, p') \<and> R prog s p p')"
  shows "frag_ok R inst {pc} (frag_bit pc 0 (frag_init (Some pc)))"
proof -
  have p: "patch {2 * pc} t pc i = i\<lparr>ri_x := t\<rparr>" for t by (simp add: patch_def)
  have "closed_part inst {pc} {2 * pc}" using assms(1-4) by (simp add: closed_part_def)
  moreover have "realizes prog s {pc} pc t (R prog s)" if "t \<notin> {pc}" "holds prog inst {pc} {2 * pc} t" for prog s t
    using that assms(1,5) by (intro single_realizes) (auto simp: holds_def p)
  ultimately show ?thesis by (simp add: frag_ok_def frag_bit_def frag_init_def mult.commute)
qed

lemma leaf_ok:
  assumes "c_leaf op v c = (Some f, c')" "op \<noteq> RE_OP_MATCH" "op \<noteq> RE_OP_SPLIT"
    and "\<And>prog s t p pc c'. pc < length (pr_inst prog) \<Longrightarrow> pr_inst prog ! pc = \<lparr>ri_op = op, ri_cls = v, ri_x = t, ri_y = 0\<rparr> \<Longrightarrow>
      re_step prog s (pc, p) c' \<longleftrightarrow> (\<exists>p'. c' = (t, p') \<and> R prog s p p')"
  shows "grown c c' \<and> frag_ok R (rc_inst c') (new_part c c') f"
proof -
  obtain pc where e: "emit_inst op v 0 0 c = (Some pc, c')" and f: "f = frag_bit pc 0 (frag_init (Some pc))"
    using assms(1) by (auto simp: c_leaf_def split: prod.splits option.splits)
  note g = emit_grown [OF e]
  have "new_part c c' = {pc}" using g(1,2) by (auto simp: new_part_def)
  moreover have "frag_ok R (rc_inst c') {pc} f" unfolding f
    using g(1,2) assms(2,3) by (intro single_ok [OF refl]) (auto intro!: assms(4) simp: nth_append)
  ultimately show ?thesis using g(3) by simp
qed

section \<open>Joining fragments\<close>

definition join :: "re_frag \<Rightarrow> re_frag \<Rightarrow> re_ctx \<Rightarrow> re_frag \<times> re_ctx" where
  "join f1 f2 c =
     (case (fr_in f1, fr_in f2) of
        (None, _) \<Rightarrow> (f2, c)
      | (_, None) \<Rightarrow> (f1, c)
      | (Some i1, Some i2) \<Rightarrow> (\<lparr>fr_in = Some i1, fr_bits = fr_bits f2\<rparr>, c\<lparr>rc_inst := frag_connect (fr_bits f1) i2 (rc_inst c)\<rparr>))"

lemma frag_none: "frag_ok R inst D f \<Longrightarrow> fr_in f = None \<Longrightarrow> f = frag_init None \<and> D = {} \<and> R = (\<lambda>prog s. (=))"
  by (cases f) (simp add: frag_ok_def frag_init_def)

lemma frag_some:
  assumes "frag_ok R inst D f" "fr_in f = Some i"
  shows "i \<in> D" "closed_part inst D (fr_bits f)" "fr_bits f \<subseteq> arrows D" "D \<subseteq> {..<length inst}"
  using assms by (auto simp: frag_ok_def closed_part_def)

lemma join_ok:
  assumes f1: "frag_ok R1 inst1 D1 f1" and f2: "frag_ok R2 (rc_inst c) D2 f2" and d: "D1 \<inter> D2 = {}"
    and same: "\<And>pc. pc \<in> D1 \<Longrightarrow> rc_inst c ! pc = inst1 ! pc" "length inst1 \<le> length (rc_inst c)" "length (rc_inst c) \<le> RE_MAX_INST"
    and j: "join f1 f2 c = (f, c')"
  shows "frag_ok (\<lambda>prog s. R1 prog s OO R2 prog s) (rc_inst c') (D1 \<union> D2) f \<and> length (rc_inst c') = length (rc_inst c) \<and>
    (\<exists>inst. c' = c\<lparr>rc_inst := inst\<rparr>) \<and> (\<forall>pc < length (rc_inst c). pc \<notin> D1 \<longrightarrow> rc_inst c' ! pc = rc_inst c ! pc)"
proof (cases "fr_in f1")
  case None
  then show ?thesis using frag_none [OF f1 None] f2 j by (auto simp: join_def OO_eq eq_OO intro: exI [of _ "rc_inst c"])
next
  case s1: (Some i1)
  show ?thesis
  proof (cases "fr_in f2")
    case None
    have "frag_ok R1 (rc_inst c) D1 f1" using frag_ok_cong [OF f1] same by blast
    then show ?thesis using frag_none [OF f2 None] s1 None j by (auto simp: join_def OO_eq intro: exI [of _ "rc_inst c"])
  next
    case s2: (Some i2)
    let ?inst = "frag_connect (fr_bits f1) i2 (rc_inst c)" and ?D = "D1 \<union> D2"
    have out: "f = \<lparr>fr_in = Some i1, fr_bits = fr_bits f2\<rparr>" "c' = c\<lparr>rc_inst := ?inst\<rparr>" using j s1 s2 by (simp_all add: join_def)
    note a = frag_some [OF f1 s1] and b = frag_some [OF f2 s2]
    have "D1 \<subseteq> {..<RE_MAX_INST}" using a(4) same(2,3) by (auto simp: subset_iff)
    then have in_range: "fr_bits f1 \<subseteq> arrows {..<RE_MAX_INST}" using a(3) arrows_mono by blast
    have i: "?inst ! pc = patch (fr_bits f1) i2 pc (rc_inst c ! pc)" if "pc < length (rc_inst c)" for pc
      using connect_nth [OF in_range that] .
    have sub: "D1 \<subseteq> {..<length (rc_inst c)}" using a(4) same(2) by (auto simp: subset_iff)
    have i1: "?inst ! pc = patch (fr_bits f1) i2 pc (inst1 ! pc)" if "pc \<in> D1" for pc using i same(1) sub that by auto
    have i2: "?inst ! pc = rc_inst c ! pc" if "pc < length (rc_inst c)" "pc \<notin> D1" for pc
      using i [OF that(1)] patch_out [OF a(3) that(2)] by simp
    have i2': "?inst ! pc = rc_inst c ! pc" if "pc \<in> D2" for pc using i2 b(4) d that by auto
    have part: "closed_part ?inst ?D (fr_bits f2)"
    proof -
      have "ri_op (?inst ! pc) \<noteq> RE_OP_MATCH \<and> (2 * pc \<in> fr_bits f2 \<or> ri_x (?inst ! pc) \<in> ?D) \<and>
          (ri_op (?inst ! pc) = RE_OP_SPLIT \<longrightarrow> 2 * pc + 1 \<in> fr_bits f2 \<or> ri_y (?inst ! pc) \<in> ?D)" if "pc \<in> ?D" for pc
      proof (cases "pc \<in> D1")
        case True
        then show ?thesis using i1 [OF True] a(2) b(1) by (fastforce simp: closed_part_def)
      next
        case False
        then show ?thesis using i2' [of pc] that b(2) by (fastforce simp: closed_part_def)
      qed
      then show ?thesis using sub b(3,4) by (auto simp: closed_part_def)
    qed
    have "realizes prog s ?D i1 t (R1 prog s OO R2 prog s)" if t: "t \<notin> ?D" and h: "holds prog ?inst ?D (fr_bits f2) t" for prog s t
    proof (rule realizes_seq)
      have "pr_inst prog ! pc = patch (fr_bits f1) i2 pc (inst1 ! pc) \<and> pc < length (pr_inst prog)" if "pc \<in> D1" for pc
        using h that i1 [OF that] patch_out [OF b(3), of pc] d by (auto simp: holds_def)
      then show "realizes prog s D1 i1 i2 (R1 prog s)" using resolved [OF f1 s1, of i2 prog s] b(1) d by blast
      have "pr_inst prog ! pc = patch (fr_bits f2) t pc (rc_inst c ! pc) \<and> pc < length (pr_inst prog)" if "pc \<in> D2" for pc
        using h that i2' [OF that] by (auto simp: holds_def)
      then show "realizes prog s D2 i2 t (R2 prog s)" using resolved [OF f2 s2, of t prog s] t by blast
      show "t \<notin> D1" using t by simp
    qed
    then have "frag_ok (\<lambda>prog s. R1 prog s OO R2 prog s) ?inst ?D f" using part a(1) by (simp add: frag_ok_def out(1))
    then show ?thesis using i2 out(2) by auto
  qed
qed

section \<open>The cases of the compiler\<close>

definition comp_ok :: "re_ctx \<Rightarrow> re_ctx \<Rightarrow> re_frag \<Rightarrow> meaning \<Rightarrow> bool" where
  "comp_ok c c' f R \<longleftrightarrow> grown c c' \<and> frag_ok R (rc_inst c') (new_part c c') f"

abbreviation meaning_of :: "regex \<Rightarrow> meaning" where
  "meaning_of r \<equiv> \<lambda>prog s. re_sem prog s r"

definition node_ok :: "re_ast list \<Rightarrow> re_comp \<Rightarrow> bool" where
  "node_ok A node \<longleftrightarrow> (\<forall>i r c f c'. tree A i r \<longrightarrow> rc_ast c = A \<longrightarrow> length (rc_inst c) \<le> RE_MAX_INST \<longrightarrow> node i c = (Some f, c') \<longrightarrow>
     comp_ok c c' f (meaning_of r))"

lemma node_okD:
  "node_ok A node \<Longrightarrow> tree A i r \<Longrightarrow> rc_ast c = A \<Longrightarrow> length (rc_inst c) \<le> RE_MAX_INST \<Longrightarrow> node i c = (Some f, c') \<Longrightarrow>
   comp_ok c c' f (meaning_of r)"
  unfolding node_ok_def by blast

lemma grown_ast: "grown c c' \<Longrightarrow> rc_ast c' = rc_ast c \<and> length (rc_inst c') \<le> RE_MAX_INST"
  by (auto simp: grown_def)

text \<open>Two compiled parts in a row, joined.\<close>

lemma joined:
  assumes "comp_ok c0 c1 f1 R1" "comp_ok c1 c2 f2 R2" "join f1 f2 c2 = (f, c3)"
  shows "comp_ok c0 c3 f (\<lambda>prog s. R1 prog s OO R2 prog s)"
proof -
  have g: "grown c0 c1" "grown c1 c2" and o1: "frag_ok R1 (rc_inst c1) (new_part c0 c1) f1" and o2: "frag_ok R2 (rc_inst c2) (new_part c1 c2) f2"
    using assms by (auto simp: comp_ok_def)
  have j: "frag_ok (\<lambda>prog s. R1 prog s OO R2 prog s) (rc_inst c3) (new_part c0 c1 \<union> new_part c1 c2) f \<and>
      length (rc_inst c3) = length (rc_inst c2) \<and> (\<exists>inst. c3 = c2\<lparr>rc_inst := inst\<rparr>) \<and>
      (\<forall>pc < length (rc_inst c2). pc \<notin> new_part c0 c1 \<longrightarrow> rc_inst c3 ! pc = rc_inst c2 ! pc)"
    by (rule join_ok [OF o1 o2 _ _ _ _ assms(3)]) (use g in \<open>auto simp: grown_def new_part_def\<close>)
  have "new_part c0 c1 \<union> new_part c1 c2 = new_part c0 c3" using g j by (auto simp: grown_def new_part_def)
  moreover have "grown c0 c3" using grown_trans [OF g] j by (auto simp: grown_def new_part_def)
  ultimately show ?thesis using j by (simp add: comp_ok_def)
qed

lemma cat_ok:
  assumes "node_ok A node" "tree A a r1" "tree A b r2" "rc_ast c = A" "length (rc_inst c) \<le> RE_MAX_INST" "c_cat node a b c = (Some f, c')"
  shows "comp_ok c c' f (meaning_of (R_Cat r1 r2))"
proof -
  obtain f1 c1 f2 c2 where n: "node a c = (Some f1, c1)" "node b c1 = (Some f2, c2)" and out: "join f1 f2 c2 = (f, c')"
    using assms(6) by (auto simp: c_cat_def join_def connect_def frag_or_def split: prod.splits option.splits if_splits)
  have 1: "comp_ok c c1 f1 (meaning_of r1)" using node_okD [OF assms(1,2,4,5) n(1)] .
  then have "rc_ast c1 = A" "length (rc_inst c1) \<le> RE_MAX_INST" using grown_ast [of c c1] assms(4) by (auto simp: comp_ok_def)
  then show ?thesis using joined [OF 1 node_okD [OF assms(1,3) _ _ n(2)] out] by simp
qed

lemma prefix_ok:
  assumes "node_ok A node" "tree A a r" "rc_ast c0 = A"
  shows "comp_ok c0 c acc (\<lambda>prog s. re_sem prog s r ^^ k) \<Longrightarrow> rep_prefix node a n acc c = (Some f, c') \<Longrightarrow>
    comp_ok c0 c' f (\<lambda>prog s. re_sem prog s r ^^ (k + n))"
proof (induction n arbitrary: acc c k)
  case (Suc n)
  have c: "rc_ast c = A" "length (rc_inst c) \<le> RE_MAX_INST" using Suc.prems(1) grown_ast [of c0 c] assms(3) by (auto simp: comp_ok_def)
  obtain g c1 where g: "node a c = (Some g, c1)" using Suc.prems(2) by (auto split: prod.splits option.splits)
  have 1: "comp_ok c c1 g (meaning_of r)" using node_okD [OF assms(1,2) c g] .
  obtain h c2 where j: "join acc g c1 = (h, c2)" by fastforce
  have 2: "comp_ok c0 c2 h (\<lambda>prog s. re_sem prog s r ^^ Suc k)" using joined [OF Suc.prems(1) 1 j] by simp
  have "rep_prefix node a (Suc n) acc c = rep_prefix node a n h c2"
  proof (cases "fr_in g")
    case None
    then have "g = frag_init None" using 1 frag_none by (auto simp: comp_ok_def)
    moreover have "fr_in acc = None \<Longrightarrow> acc = frag_init None" using Suc.prems(1) frag_none by (auto simp: comp_ok_def)
    ultimately show ?thesis using g j None by (auto simp: join_def frag_init_def split: option.splits)
  next
    case (Some i)
    then show ?thesis using g j by (cases acc) (auto simp: join_def connect_def frag_adopt_def split: option.splits)
  qed
  then show ?case using Suc.IH [OF 2] Suc.prems(2) by simp
qed simp

lemma emit_part:
  assumes "emit_inst op v x y c = (Some n, c1)"
  shows "n = length (rc_inst c)" "grown c c1" "rc_ast c1 = rc_ast c" "length (rc_inst c1) = Suc n" "n < RE_MAX_INST"
    "rc_inst c1 ! n = \<lparr>ri_op = op, ri_cls = v, ri_x = x, ri_y = y\<rparr>"
  using emit_grown [OF assms] by simp_all

text \<open>The loop part: the branch behind the body's copy, entered and left at the branch.\<close>

lemma star_part:
  assumes e: "emit_inst RE_OP_SPLIT 0 0xFFFF 0xFFFF c = (Some n, c1)" and b: "comp_ok c1 c2 f R"
    and c3: "c3 = (case fr_in f of Some i \<Rightarrow> snd (connect f n (set_x n i c2)) | None \<Rightarrow> set_x n n c2)"
  shows "comp_ok c c3 \<lparr>fr_in = Some n, fr_bits = {2 * n + 1}\<rparr> (\<lambda>prog s. (R prog s)\<^sup>*\<^sup>*)"
proof -
  note e = emit_part [OF e]
  let ?D = "new_part c1 c2" and ?i = "case fr_in f of Some i \<Rightarrow> i | None \<Rightarrow> n" and ?I = "rc_inst c3"
  have g: "grown c1 c2" and fo: "frag_ok R (rc_inst c2) ?D f" using b by (auto simp: comp_ok_def)
  have len: "length (rc_inst c2) \<le> RE_MAX_INST" "Suc n \<le> length (rc_inst c2)" "rc_inst c2 ! n = rc_inst c1 ! n" "n \<notin> ?D"
    using g e(4) by (auto simp: grown_def new_part_def)
  have bits: "fr_bits f \<subseteq> arrows ?D" "?i \<in> insert n ?D"
    using frag_none [OF fo] frag_some [OF fo] by (cases "fr_in f"; auto simp: frag_init_def)+
  have "?D \<subseteq> {..<RE_MAX_INST}" using len(1) by (auto simp: new_part_def)
  then have in_range: "fr_bits f \<subseteq> arrows {..<RE_MAX_INST}" using bits(1) arrows_mono by blast
  have nth: "?I ! pc = (if pc = n then (rc_inst c1 ! n)\<lparr>ri_x := ?i\<rparr> else patch (fr_bits f) n pc (rc_inst c2 ! pc))"
    and len3: "length ?I = length (rc_inst c2)" if "pc < length (rc_inst c2)" for pc
  proof -
    show "?I ! pc = (if pc = n then (rc_inst c1 ! n)\<lparr>ri_x := ?i\<rparr> else patch (fr_bits f) n pc (rc_inst c2 ! pc))"
    proof (cases "fr_in f")
      case None
      then show ?thesis using frag_none [OF fo] that len c3 by (simp add: set_x_def nth_list_update frag_init_def)
    next
      case (Some i)
      then have "?I ! pc = patch (fr_bits f) n pc (rc_inst (set_x n i c2) ! pc)"
        using connect_nth [OF in_range, of pc "rc_inst (set_x n i c2)"] that c3 by (simp add: connect_def set_x_def)
      then show ?thesis using Some patch_out [OF bits(1) len(4)] that len by (simp add: set_x_def nth_list_update)
    qed
    show "length ?I = length (rc_inst c2)" using c3 by (auto simp: connect_def set_x_def split: option.splits)
  qed
  have l3: "length ?I = length (rc_inst c2)" using len3 [of n] len(2) by simp
  have D: "new_part c c3 = insert n ?D" using e(1,4) l3 len(2) by (auto simp: new_part_def)
  have "c3 = c\<lparr>rc_inst := ?I\<rparr>" using c3 g e(2) by (auto simp: connect_def set_x_def grown_def split: option.splits)
  moreover have "?I ! pc = rc_inst c ! pc" if "pc < length (rc_inst c)" for pc
  proof -
    have "pc < n" "pc \<notin> ?D" "pc < length (rc_inst c2)" using that e(1,4) len(2) by (auto simp: new_part_def)
    then show ?thesis using nth [of pc] patch_out [OF bits(1)] g e(2) that by (simp add: grown_def)
  qed
  ultimately have "grown c c3" using e(1,2) l3 len by (auto simp: grown_def)
  moreover have "frag_ok (\<lambda>prog s. (R prog s)\<^sup>*\<^sup>*) ?I (insert n ?D) \<lparr>fr_in = Some n, fr_bits = {2 * n + 1}\<rparr>"
  proof -
    have I_n: "?I ! n = (rc_inst c1 ! n)\<lparr>ri_x := ?i\<rparr>" using nth [of n] len(2) by simp
    have I_D: "?I ! pc = patch (fr_bits f) n pc (rc_inst c2 ! pc)" if "pc \<in> ?D" for pc
    proof -
      have "pc < length (rc_inst c2)" "pc \<noteq> n" using that len(4) by (auto simp: new_part_def)
      then show ?thesis using nth [of pc] by simp
    qed
    have out: "2 * n + 1 \<notin> arrows ?D" "2 * pc \<noteq> Suc (2 * n)" for pc using len(4) by simp_all presburger
    have "closed_part ?I (insert n ?D) {2 * n + 1}"
    proof -
      have "ri_op (?I ! pc) \<noteq> RE_OP_MATCH \<and> ri_x (?I ! pc) \<in> insert n ?D \<and> (ri_op (?I ! pc) = RE_OP_SPLIT \<longrightarrow> ri_y (?I ! pc) \<in> insert n ?D)"
        if "pc \<in> ?D" for pc
        using I_D [OF that] frag_none [OF fo] frag_some(2) [OF fo] that by (cases "fr_in f") (auto simp: closed_part_def)
      moreover have "ri_op (?I ! n) \<noteq> RE_OP_MATCH \<and> ri_x (?I ! n) \<in> insert n ?D" using I_n e(6) bits(2) by simp
      ultimately show ?thesis using l3 len(2) by (auto simp: closed_part_def new_part_def)
    qed
    moreover have "realizes prog s (insert n ?D) n t (R prog s)\<^sup>*\<^sup>*"
      if t: "t \<notin> insert n ?D" and h: "holds prog ?I (insert n ?D) {2 * n + 1} t" for prog s t
    proof (rule realizes_star [OF _ t])
      have at_n: "n < length (pr_inst prog) \<and> pr_inst prog ! n = ((rc_inst c1 ! n)\<lparr>ri_x := ?i\<rparr>)\<lparr>ri_y := t\<rparr>"
        using h I_n by (auto simp: holds_def patch_def)
      then show "n < length (pr_inst prog)" "ri_op (pr_inst prog ! n) = RE_OP_SPLIT" "ri_x (pr_inst prog ! n) = ?i" "ri_y (pr_inst prog ! n) = t"
        using e(6) by simp_all
      have at_D: "pc < length (pr_inst prog) \<and> pr_inst prog ! pc = patch (fr_bits f) n pc (rc_inst c2 ! pc)" if "pc \<in> ?D" for pc
      proof -
        have "pc \<notin> {n}" using that len(4) by auto
        then have "patch {2 * n + 1} t pc i = i" for i by (rule patch_out [rotated]) simp
        then show ?thesis using h that I_D [OF that] by (auto simp: holds_def)
      qed
      show "realizes prog s ?D ?i n (R prog s) \<or> ?i = n \<and> ?D = {} \<and> R prog s = (=)"
      proof (cases "fr_in f")
        case None
        then show ?thesis using frag_none [OF fo None] by simp
      next
        case (Some i)
        then show ?thesis using resolved [OF fo Some len(4), of prog s] at_D by simp
      qed
    qed
    ultimately show ?thesis by (simp add: frag_ok_def)
  qed
  ultimately show ?thesis by (simp add: comp_ok_def D)
qed

lemma power_star: "R ^^ m OO R\<^sup>*\<^sup>* = (\<lambda>p p'. \<exists>n. m \<le> n \<and> (R ^^ n) p p')" for R :: "'a \<Rightarrow> 'a \<Rightarrow> bool"
proof (intro ext iffI)
  fix p p' assume "(R ^^ m OO R\<^sup>*\<^sup>*) p p'"
  then obtain q n where "(R ^^ m) p q" "(R ^^ n) q p'" by (auto simp: rtranclp_power)
  then have "(R ^^ (m + n)) p p'" by (auto simp: relpowp_add)
  then show "\<exists>n. m \<le> n \<and> (R ^^ n) p p'" using le_add1 by blast
next
  fix p p' assume "\<exists>n. m \<le> n \<and> (R ^^ n) p p'"
  then obtain n where "(R ^^ (m + n)) p p'" by (metis le_add_diff_inverse)
  then show "(R ^^ m OO R\<^sup>*\<^sup>*) p p'" unfolding relpowp_add by (blast intro: relpowp_imp_rtranclp)
qed

lemma star_ok:
  assumes "node_ok A node" "tree A a r" "rc_ast c0 = A" "comp_ok c0 c acc (\<lambda>prog s. re_sem prog s r ^^ m)" "rep_star node a acc c = (Some f, c')"
  shows "comp_ok c0 c' f (meaning_of (R_Rep r m RE_REP_INF))"
proof -
  obtain n c1 g c2 where e: "emit_inst RE_OP_SPLIT 0 0xFFFF 0xFFFF c = (Some n, c1)" and n: "node a c1 = (Some g, c2)"
    using assms(5) by (auto simp: rep_star_def split: prod.splits option.splits)
  define c3 where "c3 = (case fr_in g of Some i \<Rightarrow> snd (connect g n (set_x n i c2)) | None \<Rightarrow> set_x n n c2)"
  let ?F = "\<lparr>fr_in = Some n, fr_bits = {2 * n + 1}\<rparr>"
  have "rc_ast c = A" using assms(3,4) grown_ast [of c0 c] by (simp add: comp_ok_def)
  then have "rc_ast c1 = A" "length (rc_inst c1) \<le> RE_MAX_INST" using emit_part [OF e] by auto
  from node_okD [OF assms(1,2) this n] have st: "comp_ok c c3 ?F (\<lambda>prog s. (re_sem prog s r)\<^sup>*\<^sup>*)"
    using star_part [OF e _ c3_def] by blast
  have "fr_in acc = None \<Longrightarrow> acc = frag_init None" using assms(4) frag_none by (auto simp: comp_ok_def)
  then have "join acc ?F c3 = (f, c')"
    using assms(5) e n unfolding rep_star_def
    by (cases acc; cases "fr_in g") (auto simp: join_def connect_def frag_bit_def frag_init_def Let_def c3_def mult.commute
        split: option.splits)
  from joined [OF assms(4) st this] show ?thesis by (simp add: power_star)
qed

text \<open>
  The optional copies so far: runs leave through the chain at \<open>u\<close> or through a skip arm at \<open>t\<close>.
\<close>

definition holds2 :: "re_prog \<Rightarrow> re_inst list \<Rightarrow> nat set \<Rightarrow> nat set \<Rightarrow> nat \<Rightarrow> nat set \<Rightarrow> nat \<Rightarrow> bool" where
  "holds2 prog inst D chain u exits t \<longleftrightarrow>
     (\<forall>pc \<in> D. pc < length (pr_inst prog) \<and> pr_inst prog ! pc = patch exits t pc (patch chain u pc (inst ! pc)))"

definition copies_ok :: "re_ctx \<Rightarrow> re_ctx \<Rightarrow> nat set \<Rightarrow> nat set \<Rightarrow> nat option \<Rightarrow> meaning \<Rightarrow> meaning \<Rightarrow> bool" where
  "copies_ok c0 c chain exits i R S \<longleftrightarrow> grown c0 c \<and> chain \<subseteq> arrows (new_part c0 c) \<and> exits \<subseteq> arrows (new_part c0 c) \<and>
     (case i of
        None \<Rightarrow> new_part c0 c = {} \<and> R = (\<lambda>prog s. (=)) \<and> S = (\<lambda>prog s p p'. False)
      | Some i \<Rightarrow> i \<in> new_part c0 c \<and> closed_part (rc_inst c) (new_part c0 c) (chain \<union> exits) \<and>
          (\<forall>prog s u t. u \<notin> new_part c0 c \<longrightarrow> t \<notin> new_part c0 c \<longrightarrow> holds2 prog (rc_inst c) (new_part c0 c) chain u exits t \<longrightarrow>
             (\<forall>p c'. leaves prog s (new_part c0 c) (i, p) c' \<longleftrightarrow>
                (\<exists>p'. c' = (u, p') \<and> R prog s p p') \<or> (\<exists>p'. c' = (t, p') \<and> S prog s p p'))))"

lemma copies_okI:
  assumes "grown c0 c" "chain \<subseteq> arrows (new_part c0 c)" "exits \<subseteq> arrows (new_part c0 c)" "i \<in> new_part c0 c"
    and "closed_part (rc_inst c) (new_part c0 c) (chain \<union> exits)"
    and "\<And>prog s u t p c'. u \<notin> new_part c0 c \<Longrightarrow> t \<notin> new_part c0 c \<Longrightarrow> holds2 prog (rc_inst c) (new_part c0 c) chain u exits t \<Longrightarrow>
      leaves prog s (new_part c0 c) (i, p) c' \<longleftrightarrow> (\<exists>p'. c' = (u, p') \<and> R prog s p p') \<or> (\<exists>p'. c' = (t, p') \<and> S prog s p p')"
  shows "copies_ok c0 c chain exits (Some i) R S"
  unfolding copies_ok_def option.case using assms(1-5) by (intro conjI allI impI) (assumption | erule assms(6), assumption+)+

lemma copies_okD:
  assumes "copies_ok c0 c chain exits (Some i) R S"
  shows "i \<in> new_part c0 c" "closed_part (rc_inst c) (new_part c0 c) (chain \<union> exits)"
    and "u \<notin> new_part c0 c \<Longrightarrow> t \<notin> new_part c0 c \<Longrightarrow> holds2 prog (rc_inst c) (new_part c0 c) chain u exits t \<Longrightarrow>
      leaves prog s (new_part c0 c) (i, p) c' \<longleftrightarrow> (\<exists>p'. c' = (u, p') \<and> R prog s p p') \<or> (\<exists>p'. c' = (t, p') \<and> S prog s p p')"
  using assms unfolding copies_ok_def option.case by blast+

lemma arrows_empty [simp]: "arrows {} = {}"
  by (simp add: arrows_def)

lemma tail_start:
  assumes "comp_ok c0 c acc R"
  shows "copies_ok c0 c (fr_bits acc) {} (fr_in acc) R (\<lambda>prog s p p'. False)"
proof (cases "fr_in acc")
  case None
  then show ?thesis using assms frag_none [of R "rc_inst c" "new_part c0 c" acc] by (auto simp: comp_ok_def copies_ok_def frag_init_def)
next
  case (Some i)
  have "frag_ok R (rc_inst c) (new_part c0 c) acc" using assms by (simp add: comp_ok_def)
  note fo = this and a = frag_some [OF this Some]
  have "leaves prog s (new_part c0 c) (i, p) c' \<longleftrightarrow> (\<exists>p'. c' = (u, p') \<and> R prog s p p')"
    if "u \<notin> new_part c0 c" "holds2 prog (rc_inst c) (new_part c0 c) (fr_bits acc) u {} t" for prog s u t p c'
  proof -
    have "realizes prog s (new_part c0 c) i u (R prog s)" using resolved [OF fo Some that(1), of prog s] that(2) by (simp add: holds2_def)
    then show ?thesis unfolding realizes_def by blast
  qed
  then show ?thesis unfolding Some using assms a by (intro copies_okI) (simp_all add: comp_ok_def del: split_paired_All split_paired_Ex)
qed

lemma tail_end:
  assumes "copies_ok c0 c chain exits i R S"
  shows "comp_ok c0 c \<lparr>fr_in = i, fr_bits = chain \<union> exits\<rparr> (\<lambda>prog s p p'. R prog s p p' \<or> S prog s p p')"
proof (cases i)
  case None
  then show ?thesis using assms by (auto simp: copies_ok_def comp_ok_def frag_ok_def)
next
  case (Some k)
  let ?D = "new_part c0 c"
  have two: "patch exits t pc (patch chain t pc j) = patch (chain \<union> exits) t pc j" for t pc j by (auto simp: patch_def)
  have "realizes prog s ?D k t (\<lambda>p p'. R prog s p p' \<or> S prog s p p')"
    if t: "t \<notin> ?D" and h: "holds prog (rc_inst c) ?D (chain \<union> exits) t" for prog s t
  proof -
    have "holds2 prog (rc_inst c) ?D chain t exits t" using h by (simp add: holds_def holds2_def two)
    then show ?thesis using assms Some t unfolding copies_ok_def realizes_def by auto
  qed
  then show ?thesis using assms Some by (auto simp: copies_ok_def comp_ok_def frag_ok_def)
qed

lemma closed_partD:
  assumes "closed_part inst D bits" "pc \<in> D"
  shows "ri_op (inst ! pc) \<noteq> RE_OP_MATCH" "2 * pc \<in> bits \<or> ri_x (inst ! pc) \<in> D"
    "ri_op (inst ! pc) = RE_OP_SPLIT \<longrightarrow> 2 * pc + 1 \<in> bits \<or> ri_y (inst ! pc) \<in> D"
  using assms by (auto simp: closed_part_def)

lemma closed_partI:
  assumes "D \<subseteq> {..<length inst}" "bits \<subseteq> arrows D"
    and "\<And>pc. pc \<in> D \<Longrightarrow> ri_op (inst ! pc) \<noteq> RE_OP_MATCH \<and> (2 * pc \<in> bits \<or> ri_x (inst ! pc) \<in> D) \<and>
      (ri_op (inst ! pc) = RE_OP_SPLIT \<longrightarrow> 2 * pc + 1 \<in> bits \<or> ri_y (inst ! pc) \<in> D)"
  shows "closed_part inst D bits"
  using assms by (auto simp: closed_part_def)

text \<open>
  One more optional copy: the part \<open>D\<close> so far, with its chain resolved to the branch at \<open>n\<close>, and the part \<open>E\<close> of the
  copy. The chain of the whole is the copy's, or the branch's first arrow when the copy is empty; its exits gain the second arrow.
\<close>

definition copy_chain :: "nat \<Rightarrow> re_frag \<Rightarrow> nat set" where
  "copy_chain n f = (if fr_in f = None then {2 * n} else {}) \<union> fr_bits f"

lemma tail_arrows:
  assumes "frag_ok Q inst E f" "exits \<subseteq> arrows D"
  shows "fr_bits f \<subseteq> arrows E" "copy_chain n f \<subseteq> arrows (insert n E)" "insert (2 * n + 1) exits \<subseteq> arrows (D \<union> {n})"
proof -
  show f: "fr_bits f \<subseteq> arrows E" using frag_none [OF assms(1)] frag_some(3) [OF assms(1)] by (cases "fr_in f") (auto simp: frag_init_def)
  show "copy_chain n f \<subseteq> arrows (insert n E)" "insert (2 * n + 1) exits \<subseteq> arrows (D \<union> {n})"
    using f assms(2) by (auto simp: arrows_def copy_chain_def)
qed

lemma tail_closed:
  assumes D: "D = {} \<or> closed_part inst D (chain \<union> exits)" and f: "frag_ok Q inst2 E f" and exits: "exits \<subseteq> arrows D"
    and I_D: "\<And>pc. pc \<in> D \<Longrightarrow> I ! pc = patch chain n pc (inst ! pc)" and I_E: "\<And>pc. pc \<in> E \<Longrightarrow> I ! pc = inst2 ! pc"
    and I_n: "ri_op (I ! n) = RE_OP_SPLIT" "\<And>j. fr_in f = Some j \<Longrightarrow> ri_x (I ! n) = j" and len: "D \<union> insert n E \<subseteq> {..<length I}"
  shows "closed_part I (D \<union> insert n E) (copy_chain n f \<union> insert (2 * n + 1) exits)"
proof (rule closed_partI [OF len])
  let ?D = "D \<union> insert n E" and ?bits = "copy_chain n f \<union> insert (2 * n + 1) exits"
  note arr = tail_arrows [OF f exits]
  have "insert n E \<subseteq> ?D" "D \<union> {n} \<subseteq> ?D" by blast+
  then show "?bits \<subseteq> arrows ?D" using subset_trans [OF arr(2) arrows_mono] subset_trans [OF arr(3) arrows_mono] by (intro Un_least)
  fix pc assume "pc \<in> ?D"
  then consider "pc \<in> D" | "pc = n" | "pc \<in> E" by blast
  then show "ri_op (I ! pc) \<noteq> RE_OP_MATCH \<and> (2 * pc \<in> ?bits \<or> ri_x (I ! pc) \<in> ?D) \<and>
      (ri_op (I ! pc) = RE_OP_SPLIT \<longrightarrow> 2 * pc + 1 \<in> ?bits \<or> ri_y (I ! pc) \<in> ?D)"
  proof cases
    case 1
    then have "closed_part inst D (chain \<union> exits)" using D by blast
    from closed_partD [OF this 1] show ?thesis unfolding I_D [OF 1] patch_sel by auto
  next
    case 2
    then show ?thesis using I_n frag_some(1) [OF f] by (cases "fr_in f") (auto simp: copy_chain_def)
  next
    case 3
    then obtain j where "fr_in f = Some j" using frag_none [OF f] by (cases "fr_in f") auto
    from closed_partD [OF frag_some(2) [OF f this] 3] show ?thesis unfolding I_E [OF 3] copy_chain_def by blast
  qed
qed

lemma tail_branch:
  assumes f: "frag_ok Q inst2 E f" and exits: "exits \<subseteq> arrows D" and apart: "n \<notin> D" "n \<notin> E" "D \<inter> E = {}"
    and I_E: "\<And>pc. pc \<in> E \<Longrightarrow> I ! pc = inst2 ! pc" and I_n: "ri_op (I ! n) = RE_OP_SPLIT" "\<And>j. fr_in f = Some j \<Longrightarrow> ri_x (I ! n) = j"
    and u: "u \<notin> D \<union> insert n E" and t: "t \<notin> D \<union> insert n E"
    and h: "holds2 prog I (D \<union> insert n E) (copy_chain n f) u (insert (2 * n + 1) exits) t"
  shows "leaves prog s (D \<union> insert n E) (n, p) c' \<longleftrightarrow> (\<exists>p'. Q prog s p p' \<and> c' = (u, p')) \<or> c' = (t, p)"
proof -
  let ?D = "D \<union> insert n E" and ?exits = "insert (2 * n + 1) exits"
  note arr = tail_arrows [OF f exits]
  have hp: "pc < length (pr_inst prog)" "pr_inst prog ! pc = patch ?exits t pc (patch (copy_chain n f) u pc (I ! pc))" if "pc \<in> ?D" for pc
    using h that unfolding holds2_def by blast+
  have "2 * n \<notin> fr_bits f" "2 * n \<notin> ?exits" using arr(1) exits apart by (auto simp: subset_iff arrows_def)
  then have at_n: "n < length (pr_inst prog)" "ri_op (pr_inst prog ! n) = RE_OP_SPLIT" "ri_y (pr_inst prog ! n) = t"
    "ri_x (pr_inst prog ! n) = (case fr_in f of Some j \<Rightarrow> j | None \<Rightarrow> u)"
    using hp [of n] I_n by (auto simp: copy_chain_def split: option.splits)
  have x: "leaves prog s ?D (ri_x (pr_inst prog ! n), p) c' \<longleftrightarrow> (\<exists>p'. Q prog s p p' \<and> c' = (u, p'))"
  proof (cases "fr_in f")
    case None
    then show ?thesis using frag_none [OF f None] at_n(4) leaves_end [OF u] by simp
  next
    case (Some j)
    have "pc < length (pr_inst prog) \<and> pr_inst prog ! pc = patch (fr_bits f) u pc (inst2 ! pc)" if pc: "pc \<in> E" for pc
    proof -
      have "patch ?exits t pc x = x" for x by (rule patch_out [OF arr(3)]) (use apart pc in auto)
      then show ?thesis using hp [of pc] pc Some I_E [OF pc] by (auto simp: copy_chain_def)
    qed
    then have "realizes prog s E j u (Q prog s)" using resolved [OF f Some, of u prog s] u by auto
    from realizes_part [OF this, of ?D] have "leaves prog s ?D (j, p) c' \<longleftrightarrow> (\<exists>p'. Q prog s p p' \<and> c' = (u, p'))"
      unfolding leaves_end [OF u] by blast
    then show ?thesis unfolding at_n(4) Some option.case .
  qed
  have n3: "n \<in> ?D" by simp
  show ?thesis unfolding leaves_branch [OF at_n(1,2) n3] x unfolding at_n(3) leaves_end [OF t] ..
qed

lemma tail_before:
  assumes f: "frag_ok Q inst2 E f" and exits: "exits \<subseteq> arrows D" and apart: "n \<notin> D" "D \<inter> E = {}"
    and I_D: "\<And>pc. pc \<in> D \<Longrightarrow> I ! pc = patch chain n pc (inst ! pc)"
    and h: "holds2 prog I (D \<union> insert n E) (copy_chain n f) u (insert (2 * n + 1) exits) t"
  shows "holds2 prog inst D chain n exits t"
  unfolding holds2_def
proof
  fix pc assume pc: "pc \<in> D"
  have ne: "pc \<noteq> n" "pc \<notin> insert n E" using apart pc by auto
  have "patch (copy_chain n f) u pc x = x" for x by (rule patch_out [OF tail_arrows(2) [OF f exits] ne(2)])
  moreover have "patch (insert (2 * n + 1) exits) t pc x = patch exits t pc x" for x using ne(1) by (simp add: patch_def)
  moreover have "pc \<in> D \<union> insert n E" using pc by blast
  ultimately show "pc < length (pr_inst prog) \<and> pr_inst prog ! pc = patch exits t pc (patch chain n pc (inst ! pc))"
    using h I_D [OF pc] unfolding holds2_def by auto
qed

lemma tail_runs:
  assumes T: "copies_ok c0 c chain exits i R S" and n: "n \<notin> new_part c0 c" and t: "t \<notin> new_part c0 c" and D: "new_part c0 c \<subseteq> D3"
    and h: "holds2 prog (rc_inst c) (new_part c0 c) chain n exits t" and t3: "t \<notin> D3"
    and br: "\<And>p c'. leaves prog s D3 (n, p) c' \<longleftrightarrow> (\<exists>p'. Q prog s p p' \<and> c' = (u, p')) \<or> c' = (t, p)"
  shows "leaves prog s D3 (if i = None then n else the i, p) c' \<longleftrightarrow>
    (\<exists>p'. c' = (u, p') \<and> (R prog s OO Q prog s) p p') \<or> (\<exists>p'. c' = (t, p') \<and> (R prog s p p' \<or> S prog s p p'))"
proof (cases i)
  case None
  then have "R prog s = (=)" "S prog s = (\<lambda>p p'. False)" using T by (auto simp: copies_ok_def)
  then show ?thesis using None br by (auto simp: eq_OO)
next
  case (Some k)
  from leaves_split [OF D, of prog s "(k, p)" c'] have "leaves prog s D3 (k, p) c' \<longleftrightarrow>
      (\<exists>p'. R prog s p p' \<and> leaves prog s D3 (n, p') c') \<or> (\<exists>p'. S prog s p p' \<and> leaves prog s D3 (t, p') c')"
    unfolding copies_okD(3) [OF T [unfolded Some] n t h] by blast
  moreover have "(if i = None then n else the i) = k" using Some by simp
  ultimately show ?thesis unfolding br leaves_end [OF t3] relcompp_apply by (simp only:) blast
qed

lemma tail_step:
  assumes T: "copies_ok c0 c chain exits i R S" and e: "emit_inst RE_OP_SPLIT 0 0xFFFF 0xFFFF c = (Some n, c1)"
    and c1': "c1' = c1\<lparr>rc_inst := frag_connect chain n (rc_inst c1)\<rparr>" and b: "comp_ok c1' c2 f Q"
    and c3: "c3 = (case fr_in f of Some j \<Rightarrow> set_x n j c2 | None \<Rightarrow> c2)"
  shows "copies_ok c0 c3 (copy_chain n f) (insert (2 * n + 1) exits) (if i = None then Some n else i)
    (\<lambda>prog s. R prog s OO Q prog s) (\<lambda>prog s p p'. R prog s p p' \<or> S prog s p p')"
proof -
  note e = emit_part [OF e]
  let ?D = "new_part c0 c" and ?E = "new_part c1' c2" and ?I = "rc_inst c3" and ?D3 = "new_part c0 c3"
  have g0: "grown c0 c" and g2: "grown c1' c2" and fo: "frag_ok Q (rc_inst c2) ?E f" and sub: "chain \<subseteq> arrows ?D" "exits \<subseteq> arrows ?D"
    using T b by (auto simp: copies_ok_def comp_ok_def)
  have len: "length (rc_inst c1') = Suc n" "length (rc_inst c2) \<le> RE_MAX_INST" "Suc n \<le> length (rc_inst c2)" "length (rc_inst c0) \<le> n"
    "length ?I = length (rc_inst c2)"
    using g0 g2 e c1' c3 by (auto simp: grown_def set_x_def split: option.splits)
  have D: "?D = {length (rc_inst c0)..<n}" "?E = {Suc n..<length (rc_inst c2)}" "?D3 = ?D \<union> insert n ?E"
    using len e(1) by (auto simp: new_part_def)
  have apart: "n \<notin> ?D" "n \<notin> ?E" "?D \<inter> ?E = {}" using D by auto
  have "?D \<subseteq> {..<RE_MAX_INST}" using D(1) e(5) by auto
  then have in_range: "chain \<subseteq> arrows {..<RE_MAX_INST}" using sub(1) arrows_mono by blast
  have at1: "rc_inst c2 ! pc = patch chain n pc (rc_inst c1 ! pc)" if "pc \<le> n" for pc
    using connect_nth [OF in_range, of pc "rc_inst c1"] that e(4) c1' g2 len(1) by (simp add: grown_def)
  have I_other: "?I ! pc = rc_inst c2 ! pc" if "pc \<noteq> n" for pc using c3 that by (auto simp: set_x_def split: option.splits)
  have I_D: "?I ! pc = patch chain n pc (rc_inst c ! pc)" if "pc \<in> ?D" for pc
    using I_other [of pc] at1 [of pc] that D(1) e(1,2) by (auto simp: grown_def)
  have I_E: "?I ! pc = rc_inst c2 ! pc" if "pc \<in> ?E" for pc using I_other [of pc] apart(2) that by auto
  have I_n: "ri_op (?I ! n) = RE_OP_SPLIT" "\<And>j. fr_in f = Some j \<Longrightarrow> ri_x (?I ! n) = j"
    using at1 [of n] e(6) c3 len(3) by (auto simp: set_x_def split: option.splits)
  have "c3 = c0\<lparr>rc_inst := ?I\<rparr>" using c3 g0 e(2) g2 c1' by (auto simp: grown_def set_x_def split: option.splits)
  moreover have "?I ! pc = rc_inst c0 ! pc" if "pc < length (rc_inst c0)" for pc
  proof -
    have "pc < n" "pc \<notin> ?D" using that len(4) by (auto simp: new_part_def)
    then show ?thesis using I_other [of pc] at1 [of pc] patch_out [OF sub(1)] e(1,2) g0 that by (simp add: grown_def)
  qed
  ultimately have grown3: "grown c0 c3" using len e(1) g0 by (auto simp: grown_def)
  have "?D = {} \<or> closed_part (rc_inst c) ?D (chain \<union> exits)" using T by (cases i) (auto simp: copies_ok_def)
  moreover have "?D3 \<subseteq> {..<length ?I}" by (auto simp: new_part_def)
  ultimately have closed: "closed_part ?I ?D3 (copy_chain n f \<union> insert (2 * n + 1) exits)"
    using tail_closed [OF _ fo sub(2) I_D I_E I_n] unfolding D(3) by blast
  have "leaves prog s ?D3 (if i = None then n else the i, p) c' \<longleftrightarrow>
      (\<exists>p'. c' = (u, p') \<and> (R prog s OO Q prog s) p p') \<or> (\<exists>p'. c' = (t, p') \<and> (R prog s p p' \<or> S prog s p p'))"
    if u: "u \<notin> ?D3" and t: "t \<notin> ?D3" and h: "holds2 prog ?I ?D3 (copy_chain n f) u (insert (2 * n + 1) exits) t" for prog s u t p c'
    using tail_branch [OF fo sub(2) apart I_E I_n u [unfolded D(3)] t [unfolded D(3)] h [unfolded D(3)]] t
      tail_before [OF fo sub(2) apart(1,3) I_D h [unfolded D(3)]] unfolding D(3) by (intro tail_runs [OF T apart(1)]) auto
  moreover have "(if i = None then n else the i) \<in> ?D3" using T D(3) by (cases i) (auto simp: copies_ok_def)
  moreover have "(if i = None then Some n else i) = Some (if i = None then n else the i)" by auto
  ultimately show ?thesis using grown3 closed by (simp only:) (intro copies_okI; (assumption | simp add: closed_part_def))
qed

lemma tail_loop:
  assumes "node_ok A node" "tree A a r" "rc_ast c0 = A"
  shows "m \<le> k \<Longrightarrow> copies_ok c0 c (fr_bits chain) (fr_bits exits) i (\<lambda>prog s. re_sem prog s r ^^ k)
      (\<lambda>prog s p p'. \<exists>j. m \<le> j \<and> j < k \<and> (re_sem prog s r ^^ j) p p') \<Longrightarrow>
    rep_tail node a n chain exits i c = (Some f, c') \<Longrightarrow>
    comp_ok c0 c' f (\<lambda>prog s p p'. \<exists>j. m \<le> j \<and> j \<le> k + n \<and> (re_sem prog s r ^^ j) p p')"
proof (induction n arbitrary: chain exits i c k)
  case 0
  have "f = \<lparr>fr_in = i, fr_bits = fr_bits chain \<union> fr_bits exits\<rparr>" "c' = c"
    using 0(3) by (auto simp: frag_or_def frag_init_def)
  moreover have "(R ^^ k) p p' \<or> (\<exists>j. m \<le> j \<and> j < k \<and> (R ^^ j) p p') \<longleftrightarrow> (\<exists>j. m \<le> j \<and> j \<le> k \<and> (R ^^ j) p p')"
    for R :: "nat \<Rightarrow> nat \<Rightarrow> bool" and p p' using 0(1) by (auto simp: le_less)
  ultimately show ?case using tail_end [OF 0(2)] by simp
next
  case (Suc n)
  obtain sp c1 where e: "emit_inst RE_OP_SPLIT 0 0xFFFF 0xFFFF c = (Some sp, c1)"
    using Suc.prems(3) by (auto split: prod.splits option.splits)
  define c1' where "c1' = c1\<lparr>rc_inst := frag_connect (fr_bits chain) sp (rc_inst c1)\<rparr>"
  obtain g c2 where nd: "node a c1' = (Some g, c2)"
    using Suc.prems(3) e by (auto simp: connect_def c1'_def split: prod.splits option.splits)
  define c3 where "c3 = (case fr_in g of Some j \<Rightarrow> set_x sp j c2 | None \<Rightarrow> c2)"
  let ?chain = "frag_or (if fr_in g = None then frag_bit sp 0 (chain\<lparr>fr_bits := {}\<rparr>) else chain\<lparr>fr_bits := {}\<rparr>) g"
    and ?exits = "frag_bit sp 1 exits" and ?i = "if i = None then Some sp else i"
  have eq: "rep_tail node a (Suc n) chain exits i c = rep_tail node a n ?chain ?exits ?i c3"
    using e nd by (cases "fr_in g") (simp_all add: connect_def c1'_def c3_def Let_def)
  have ast: "rc_ast c1' = A" "length (rc_inst c1') \<le> RE_MAX_INST"
    using Suc.prems(2) grown_ast [of c0 c] assms(3) emit_part [OF e] by (auto simp: copies_ok_def c1'_def)
  have bits: "fr_bits ?chain = copy_chain sp g" "fr_bits ?exits = insert (2 * sp + 1) (fr_bits exits)"
    by (auto simp: frag_or_def frag_bit_def copy_chain_def)
  have s: "(\<lambda>prog s p p'. (re_sem prog s r ^^ k) p p' \<or> (\<exists>j. m \<le> j \<and> j < k \<and> (re_sem prog s r ^^ j) p p')) =
      (\<lambda>prog s p p'. \<exists>j. m \<le> j \<and> j < Suc k \<and> (re_sem prog s r ^^ j) p p')"
    using Suc.prems(1) by (auto simp: fun_eq_iff less_Suc_eq)
  have "copies_ok c0 c3 (fr_bits ?chain) (fr_bits ?exits) ?i (\<lambda>prog s. re_sem prog s r ^^ Suc k)
      (\<lambda>prog s p p'. \<exists>j. m \<le> j \<and> j < Suc k \<and> (re_sem prog s r ^^ j) p p')"
    using tail_step [OF Suc.prems(2) e c1'_def node_okD [OF assms(1,2) ast nd] c3_def] unfolding bits s by simp
  from Suc.IH [OF _ this] Suc.prems(1,3) eq show ?case by simp
qed

lemma rep_ok:
  assumes "node_ok A node" "tree A a r" "rc_ast c = A" "length (rc_inst c) \<le> RE_MAX_INST" "mn \<le> mx" "mx \<le> RE_REP_INF"
    and "c_rep node a mn mx c = (Some f, c')"
  shows "comp_ok c c' f (meaning_of (R_Rep r mn mx))"
proof -
  obtain acc c1 where p: "rep_prefix node a mn (frag_init None) c = (Some acc, c1)"
    using assms(7) by (auto simp: c_rep_def split: prod.splits option.splits)
  have "comp_ok c c (frag_init None) (\<lambda>prog s. re_sem prog s r ^^ 0)"
    using assms(4) by (auto simp: comp_ok_def grown_def new_part_def frag_ok_def frag_init_def intro: exI [of _ "rc_inst c"])
  from prefix_ok [OF assms(1-3) this p] have 1: "comp_ok c c1 acc (\<lambda>prog s. re_sem prog s r ^^ mn)" by simp
  show ?thesis
  proof (cases "mx = RE_REP_INF")
    case True
    then show ?thesis using star_ok [OF assms(1-3) 1] assms(7) p by (simp add: c_rep_def)
  next
    case False
    then have "(mx + 0x10000 - mn) mod 0x10000 = mx - mn"
      using assms(5,6) mod_add_self2 [of "mx - mn" "0x10000"] by (simp add: RE_REP_INF_def)
    then have t: "rep_tail node a (mx - mn) acc (frag_init None) (fr_in acc) c1 = (Some f, c')"
      using assms(7) p False by (simp add: c_rep_def)
    have "copies_ok c c1 (fr_bits acc) (fr_bits (frag_init None)) (fr_in acc) (\<lambda>prog s. re_sem prog s r ^^ mn)
        (\<lambda>prog s p p'. \<exists>j. mn \<le> j \<and> j < mn \<and> (re_sem prog s r ^^ j) p p')"
    proof -
      have "(\<lambda>prog s p p'. \<exists>j. mn \<le> j \<and> j < mn \<and> (re_sem prog s r ^^ j) p p') = (\<lambda>prog s p p'. False)"
        by (auto simp: fun_eq_iff)
      then show ?thesis using tail_start [OF 1] by (simp add: frag_init_def)
    qed
    from tail_loop [OF assms(1-3) order_refl this t] show ?thesis using assms(5) False by simp
  qed
qed

section \<open>Alternatives\<close>

lemma jump_steps:
  assumes "pc < length (pr_inst prog)" "pr_inst prog ! pc = \<lparr>ri_op = RE_OP_JMP, ri_cls = v, ri_x = x, ri_y = y\<rparr>\<lparr>ri_x := t\<rparr>"
  shows "re_step prog s (pc, p) c' \<longleftrightarrow> (\<exists>p'. c' = (t, p') \<and> p = p')"
  using eps_steps [of pc prog s p c'] assms by (auto simp: inst_next_def)

lemma force_ok:
  assumes f: "frag_ok R (rc_inst c) D f" and "length (rc_inst c) \<le> RE_MAX_INST" "frag_force_entry f c = (Some f', c')"
  shows "grown c c' \<and> frag_ok R (rc_inst c') (D \<union> new_part c c') f' \<and> fr_in f' \<noteq> None"
proof (cases "fr_in f")
  case (Some i)
  then have "f' = f" "c' = c" using assms(3) by (auto simp: frag_force_entry_def)
  then show ?thesis using assms Some by (auto simp: grown_def new_part_def intro: exI [of _ "rc_inst c"])
next
  case None
  then obtain j where e: "emit_inst RE_OP_JMP 0 0xFFFF 0 c = (Some j, c')" and f': "f' = frag_bit j 0 (f\<lparr>fr_in := Some j\<rparr>)"
    using assms(3) by (auto simp: frag_force_entry_def split: prod.splits option.splits)
  note ep = emit_part [OF e] and fn = frag_none [OF f None]
  have "frag_ok R (rc_inst c') {j} (frag_bit j 0 (frag_init (Some j)))"
    using ep fn by (intro single_ok [OF ep(6)]) (auto simp: jump_steps)
  moreover have "f' = frag_bit j 0 (frag_init (Some j))" using fn f' by (simp add: frag_init_def)
  moreover have "new_part c c' = {j}" using ep by (auto simp: new_part_def)
  ultimately show ?thesis using ep(2) fn by (simp add: frag_bit_def frag_init_def)
qed

lemma branch_ok:
  assumes f1: "frag_ok R1 inst D1 f1" "fr_in f1 = Some i1" and f2: "frag_ok R2 inst D2 f2" "fr_in f2 = Some i2"
    and n: "n \<notin> D1" "n \<notin> D2" "n < length inst" "ri_op (inst ! n) = RE_OP_SPLIT" and d: "D1 \<inter> D2 = {}"
  shows "frag_ok (\<lambda>prog s p p'. R1 prog s p p' \<or> R2 prog s p p') (inst[n := (inst ! n)\<lparr>ri_x := i1, ri_y := i2\<rparr>]) (insert n (D1 \<union> D2))
    \<lparr>fr_in = Some n, fr_bits = fr_bits f1 \<union> fr_bits f2\<rparr>"
proof -
  let ?I = "inst[n := (inst ! n)\<lparr>ri_x := i1, ri_y := i2\<rparr>]" and ?D = "insert n (D1 \<union> D2)" and ?b = "fr_bits f1 \<union> fr_bits f2"
  note a = frag_some [OF f1] and b = frag_some [OF f2]
  have I: "?I ! n = (inst ! n)\<lparr>ri_x := i1, ri_y := i2\<rparr>" "?I ! pc = inst ! pc" if "pc \<noteq> n" for pc using n(3) that by simp_all
  have arr: "arrows D1 \<subseteq> arrows ?D" "arrows D2 \<subseteq> arrows ?D" by (auto simp: arrows_def)
  have closed: "closed_part ?I ?D ?b"
  proof (rule closed_partI)
    show "?D \<subseteq> {..<length ?I}" using a(4) b(4) n(3) by auto
    show "?b \<subseteq> arrows ?D" using a(3) b(3) arr by blast
    fix pc assume "pc \<in> ?D"
    then consider "pc = n" | "pc \<in> D1" | "pc \<in> D2" by blast
    then show "ri_op (?I ! pc) \<noteq> RE_OP_MATCH \<and> (2 * pc \<in> ?b \<or> ri_x (?I ! pc) \<in> ?D) \<and>
        (ri_op (?I ! pc) = RE_OP_SPLIT \<longrightarrow> 2 * pc + 1 \<in> ?b \<or> ri_y (?I ! pc) \<in> ?D)"
    proof cases
      case 1
      then show ?thesis using n a(1) b(1) by simp
    next
      case 2
      then have "pc \<noteq> n" using n(1) by auto
      then show ?thesis using closed_partD [OF a(2) 2] I(2) by auto
    next
      case 3
      then have "pc \<noteq> n" using n(2) by auto
      then show ?thesis using closed_partD [OF b(2) 3] I(2) by auto
    qed
  qed
  have "realizes prog s ?D n t (\<lambda>p p'. R1 prog s p p' \<or> R2 prog s p p')" if t: "t \<notin> ?D" and h: "holds prog ?I ?D ?b t" for prog s t
  proof -
    have h: "pc < length (pr_inst prog) \<and> pr_inst prog ! pc = patch ?b t pc (?I ! pc)" if "pc \<in> ?D" for pc using h that unfolding holds_def by blast
    have out: "2 * pc \<notin> bits \<and> 2 * pc + 1 \<notin> bits" if "bits \<subseteq> arrows D" "pc \<notin> D" for bits D pc using that by (auto simp: subset_iff)
    have one: "pr_inst prog ! pc = patch (fr_bits f1) t pc (inst ! pc)" if "pc \<in> D1" for pc
    proof -
      have "pc \<notin> D2" "pc \<noteq> n" using that d n by auto
      then show ?thesis using h [of pc] that out [OF b(3), of pc] I(2) by (simp add: patch_def)
    qed
    have two: "pr_inst prog ! pc = patch (fr_bits f2) t pc (inst ! pc)" if "pc \<in> D2" for pc
    proof -
      have "pc \<notin> D1" "pc \<noteq> n" using that d n by auto
      then show ?thesis using h [of pc] that out [OF a(3), of pc] I(2) by (simp add: patch_def)
    qed
    have "pr_inst prog ! n = (inst ! n)\<lparr>ri_x := i1, ri_y := i2\<rparr>"
      using h [of n] out [OF a(3) n(1)] out [OF b(3) n(2)] n(3) by (simp add: patch_def)
    then show ?thesis using t n h one two resolved [OF f1, of t prog s] resolved [OF f2, of t prog s] by (intro realizes_alt) auto
  qed
  then show ?thesis using closed by (simp add: frag_ok_def)
qed

lemma alt_ok:
  assumes "node_ok A node" "tree A a r1" "tree A b r2" "rc_ast c = A" "length (rc_inst c) \<le> RE_MAX_INST" "c_alt node a b c = (Some f, c')"
  shows "comp_ok c c' f (meaning_of (R_Alt r1 r2))"
proof -
  obtain n c1 f1 c2 f2 c3 g1 c4 g2 c5 where e: "emit_inst RE_OP_SPLIT 0 0xFFFF 0xFFFF c = (Some n, c1)"
    and nd: "node a c1 = (Some f1, c2)" "node b c2 = (Some f2, c3)"
    and fo: "frag_force_entry f1 c3 = (Some g1, c4)" "frag_force_entry f2 c4 = (Some g2, c5)"
    and f: "f = frag_or (frag_or (frag_init (Some n)) g1) g2" and c': "c' = set_y n (the (fr_in g2)) (set_x n (the (fr_in g1)) c5)"
    using assms(6) by (auto simp: c_alt_def split: prod.splits option.splits)
  note e = emit_part [OF e]
  have 1: "grown c1 c2" "frag_ok (meaning_of r1) (rc_inst c2) (new_part c1 c2) f1"
    using node_okD [OF assms(1,2) _ _ nd(1)] e assms(4) by (auto simp: comp_ok_def)
  have a2: "rc_ast c2 = A" "length (rc_inst c2) \<le> RE_MAX_INST" using grown_ast [OF 1(1)] e assms(4) by auto
  have 2: "grown c2 c3" "frag_ok (meaning_of r2) (rc_inst c3) (new_part c2 c3) f2"
    using node_okD [OF assms(1,3) a2 nd(2)] by (auto simp: comp_ok_def)
  have keep: "frag_ok R (rc_inst y) (new_part w x \<union> D) g" if "frag_ok R (rc_inst x) (new_part w x \<union> D) g" "grown x y" "D \<subseteq> {..<length (rc_inst x)}"
    for R w x y g D
    using that by (intro frag_ok_cong [OF that(1)]) (auto simp: grown_def new_part_def subset_iff)
  have "frag_ok (meaning_of r1) (rc_inst c3) (new_part c1 c2) f1" using keep [of _ c2 c1 "{}"] 1 2(1) by simp
  from force_ok [OF this _ fo(1)] have 3: "grown c3 c4" "frag_ok (meaning_of r1) (rc_inst c4) (new_part c1 c2 \<union> new_part c3 c4) g1" "fr_in g1 \<noteq> None"
    using grown_ast [OF 2(1)] by auto
  have "frag_ok (meaning_of r2) (rc_inst c4) (new_part c2 c3) f2" using keep [of _ c3 c2 "{}"] 2 3(1) by simp
  from force_ok [OF this _ fo(2)] have 4: "grown c4 c5" "frag_ok (meaning_of r2) (rc_inst c5) (new_part c2 c3 \<union> new_part c4 c5) g2" "fr_in g2 \<noteq> None"
    using grown_ast [OF 3(1)] by auto
  have len: "Suc n \<le> length (rc_inst c2)" "length (rc_inst c2) \<le> length (rc_inst c3)" "length (rc_inst c3) \<le> length (rc_inst c4)"
    "length (rc_inst c4) \<le> length (rc_inst c5)" using 1(1) 2(1) 3(1) 4(1) e(4) by (auto simp: grown_def)
  have 5: "frag_ok (meaning_of r1) (rc_inst c5) (new_part c1 c2 \<union> new_part c3 c4) g1"
    using 3(2) 4(1) len by (intro frag_ok_cong [OF 3(2)]) (auto simp: grown_def new_part_def)
  have g: "grown c1 c5" using grown_trans [OF grown_trans [OF grown_trans [OF 1(1) 2(1)] 3(1)] 4(1)] .
  then have at: "rc_inst c5 ! n = rc_inst c1 ! n" using e(4) by (simp add: grown_def)
  have fb: "f = \<lparr>fr_in = Some n, fr_bits = fr_bits g1 \<union> fr_bits g2\<rparr>" by (simp add: f frag_or_def frag_init_def)
  let ?D = "insert n ((new_part c1 c2 \<union> new_part c3 c4) \<union> (new_part c2 c3 \<union> new_part c4 c5))"
  have inst: "rc_inst c' = (rc_inst c5)[n := (rc_inst c5 ! n)\<lparr>ri_x := the (fr_in g1), ri_y := the (fr_in g2)\<rparr>]"
    using len by (simp add: c' set_x_def set_y_def)
  have "frag_ok (\<lambda>prog s p p'. re_sem prog s r1 p p' \<or> re_sem prog s r2 p p') (rc_inst c') ?D f"
    unfolding inst fb using 3(3) 4(3) len at e by (intro branch_ok [OF 5 _ 4(2)]) (auto simp: new_part_def)
  moreover have "?D = new_part c c'" using len e(1) inst by (auto simp: new_part_def e(4))
  moreover have "grown c c'"
    using grown_trans [OF e(2) g] e(1) len by (auto simp: grown_def c' set_x_def set_y_def)
  ultimately show ?thesis by (simp add: comp_ok_def)
qed

lemma leaf_steps:
  assumes "pc < length (pr_inst prog)" "pr_inst prog ! pc = \<lparr>ri_op = op, ri_cls = v, ri_x = t, ri_y = 0\<rparr>"
  shows "op = RE_OP_BYTE \<Longrightarrow> re_step prog s (pc, p) c' \<longleftrightarrow> (\<exists>p'. c' = (t, p') \<and> re_sem prog s (R_Byte v) p p')"
    and "op = RE_OP_CHAR \<Longrightarrow> re_step prog s (pc, p) c' \<longleftrightarrow> (\<exists>p'. c' = (t, p') \<and> re_sem prog s (R_Class v) p p')"
    and "op = RE_OP_ASSERT \<Longrightarrow> re_step prog s (pc, p) c' \<longleftrightarrow> (\<exists>p'. c' = (t, p') \<and> re_sem prog s (R_Assert v) p p')"
  using assms takes_steps [OF assms(1), of s p c'] eps_steps [OF assms(1), of s p c']
  by (auto simp: inst_takes_def inst_next_def split: prod.splits if_splits)

lemma body_ok:
  assumes "node_ok A node"
  shows "node_ok A (c_body node)"
  unfolding node_ok_def
proof (intro allI impI)
  fix i r c f c' assume a: "tree A i r" "rc_ast c = A" "length (rc_inst c) \<le> RE_MAX_INST" "c_body node i c = (Some f, c')"
  from a(1) show "comp_ok c c' f (meaning_of r)"
  proof cases
    case empty
    then have "f = frag_init None" "c' = c" using a by (auto simp: c_body_def)
    then show ?thesis using a(3) empty
      by (auto simp: comp_ok_def grown_def new_part_def frag_ok_def frag_init_def intro: exI [of _ "rc_inst c"])
  next
    case byte
    then have "c_leaf RE_OP_BYTE (ra_a (A ! i)) c = (Some f, c')" using a by (simp add: c_body_def)
    from leaf_ok [OF this _ _ leaf_steps(1)] byte show ?thesis by (simp add: comp_ok_def)
  next
    case cls
    then have "c_leaf RE_OP_CHAR (ra_cls (A ! i)) c = (Some f, c')" using a by (simp add: c_body_def)
    from leaf_ok [OF this _ _ leaf_steps(2)] cls show ?thesis by (simp add: comp_ok_def)
  next
    case assert
    then have "c_leaf RE_OP_ASSERT (ra_a (A ! i)) c = (Some f, c')" using a by (simp add: c_body_def)
    from leaf_ok [OF this _ _ leaf_steps(3)] assert show ?thesis by (simp add: comp_ok_def)
  next
    case (cat r1 r2)
    then show ?thesis using cat_ok [OF assms cat(4,5) a(2,3)] a by (simp add: c_body_def Let_def)
  next
    case (alt r1 r2)
    then show ?thesis using alt_ok [OF assms alt(4,5) a(2,3)] a by (simp add: c_body_def Let_def)
  next
    case (rep r1)
    then show ?thesis using rep_ok [OF assms rep(4) a(2,3) rep(5,6)] a by (simp add: c_body_def Let_def)
  qed
qed

lemma c_node_ok: "node_ok A (c_node depth)"
proof (induction "RE_AST_DEPTH + 9 - depth" arbitrary: depth rule: less_induct)
  case less
  show ?case
  proof (cases "RE_AST_DEPTH + 8 < depth")
    case True
    then show ?thesis by (simp add: node_ok_def c_node.simps)
  next
    case False
    then have "node_ok A (c_node (depth + 1))" by (intro less) linarith
    moreover have "c_node depth = c_body (c_node (depth + 1))" using False by (intro ext) (simp add: c_node.simps [of depth])
    ultimately show ?thesis using body_ok by simp
  qed
qed

section \<open>The finished program\<close>

lemma match_stops:
  assumes "pc < length (pr_inst prog)" "ri_op (pr_inst prog ! pc) = RE_OP_MATCH"
  shows "\<not> re_step prog s (pc, p) c'"
  using assms by (auto elim!: re_step.cases simp: inst_next_def inst_takes_def split: prod.splits)

lemma accepts_leaves:
  assumes m: "length (pr_inst prog) = Suc m" "ri_op (pr_inst prog ! m) = RE_OP_MATCH" and "prog_ok prog"
    and others: "\<And>pc. pc < m \<Longrightarrow> ri_op (pr_inst prog ! pc) \<noteq> RE_OP_MATCH" and "i \<le> m"
  shows "re_accepts prog s i p \<longleftrightarrow> (\<exists>p'. leaves prog s {..<m} (i, p) (m, p'))"
proof
  assume "re_accepts prog s i p"
  then obtain k p' where path: "(re_step prog s)\<^sup>*\<^sup>* (i, p) (k, p')" and k: "at_match prog k" by (auto simp: re_accepts_def)
  have km: "k = m" using k m others [of k] by (auto simp: at_match_def less_Suc_eq)
  have "fst c \<le> m \<Longrightarrow> leaves prog s {..<m} c (m, p')" if "(re_step prog s)\<^sup>*\<^sup>* c (m, p')" for c
    using that
  proof (induction rule: converse_rtranclp_induct)
    case base
    then show ?case using leaves_end [of m "{..<m}"] by simp
  next
    case (step c d)
    then have "fst d \<le> m" using step_in [OF assms(3) step(1)] m(1) by simp
    moreover have "fst c \<noteq> m" using step(1) match_stops [of m prog s "snd c" d] m by (cases c) auto
    ultimately have "fst c \<in> {..<m}" "leaves prog s {..<m} d (m, p')" using step by simp_all
    then show ?case using leaves_step step(1) by blast
  qed
  from this [OF path [unfolded km]] show "\<exists>p'. leaves prog s {..<m} (i, p) (m, p')" using assms(5) by auto
next
  assume "\<exists>p'. leaves prog s {..<m} (i, p) (m, p')"
  then obtain p' where "(\<lambda>c c'. fst c \<in> {..<m} \<and> re_step prog s c c')\<^sup>*\<^sup>* (i, p) (m, p')" by (auto simp: leaves_def)
  then have "(re_step prog s)\<^sup>*\<^sup>* (i, p) (m, p')" by (rule rtranclp_mono [THEN predicate2D, rotated]) auto
  moreover have "at_match prog m" using m by (simp add: at_match_def)
  ultimately show "re_accepts prog s i p" unfolding re_accepts_def by blast
qed

lemma realizes_to: "realizes prog s D i t R \<Longrightarrow> leaves prog s D (i, p) (t, p') \<longleftrightarrow> R p p'"
  by (simp add: realizes_def)

lemma finish_ok:
  assumes t: "tree (rc_ast c) root r" and c: "rc_inst c = []" and f: "re_finish root c = Some (entry, c')"
  shows "rc_cls c' = rc_cls c \<and> rc_ucls c' = rc_ucls c \<and>
    (case entry of
       None \<Rightarrow> (\<lambda>prog s. re_sem prog s r) = (\<lambda>prog s. (=))
     | Some i \<Rightarrow> i < length (rc_inst c') \<and> prog_ok (prog_of entry c') \<and>
         (\<forall>s p. re_accepts (prog_of entry c') s i p \<longleftrightarrow> (\<exists>p'. re_sem (prog_of entry c') s r p p')))"
proof -
  obtain g c1 m c2 where n: "c_node 0 root c = (Some g, c1)" and e: "emit_inst RE_OP_MATCH 0 0 0 c1 = (Some m, c2)"
    and out: "entry = fr_in g" "c' = c2\<lparr>rc_inst := frag_connect (fr_bits g) m (rc_inst c2)\<rparr>"
    using f by (auto simp: re_finish_def connect_def emit_inst_def split: prod.splits option.splits if_splits)
  have ok: "grown c c1" "frag_ok (meaning_of r) (rc_inst c1) (new_part c c1) g"
    using node_okD [OF c_node_ok t refl _ n] c by (auto simp: comp_ok_def)
  note ep = emit_part [OF e]
  have same: "rc_cls c' = rc_cls c \<and> rc_ucls c' = rc_ucls c" using ok(1) ep(2) out(2) by (auto simp: grown_def)
  show ?thesis
  proof (cases "fr_in g")
    case None
    then show ?thesis using frag_none [OF ok(2) None] same out(1) by simp
  next
    case (Some i)
    let ?D = "{..<m}" and ?P = "prog_of entry c'"
    have D: "new_part c c1 = ?D" using c ep(1) by (auto simp: new_part_def)
    note a = frag_some [OF ok(2) Some, unfolded D]
    have range: "fr_bits g \<subseteq> arrows {..<RE_MAX_INST}" using a(3) ep(5) arrows_mono [of ?D "{..<RE_MAX_INST}"] by force
    have len: "length (pr_inst ?P) = Suc m" using ep(4) out(2) by (simp add: prog_of_def)
    have at: "pr_inst ?P ! pc = patch (fr_bits g) m pc (rc_inst c2 ! pc)" if "pc \<le> m" for pc
      using connect_nth [OF range, of pc "rc_inst c2"] that ep(4) out(2) by (simp add: prog_of_def)
    have at_m: "ri_op (pr_inst ?P ! m) = RE_OP_MATCH" using at [of m] ep(6) by simp
    have at_D: "pr_inst ?P ! pc = patch (fr_bits g) m pc (rc_inst c1 ! pc)" if "pc < m" for pc
      using at [of pc] that ep(1,2) by (simp add: grown_def)
    have inst: "ri_op (pr_inst ?P ! pc) \<noteq> RE_OP_MATCH" "ri_x (pr_inst ?P ! pc) \<le> m"
      "ri_op (pr_inst ?P ! pc) = RE_OP_SPLIT \<longrightarrow> ri_y (pr_inst ?P ! pc) \<le> m" if "pc < m" for pc
      using closed_partD [OF a(2), of pc] at_D [OF that] that by auto
    have p: "prog_ok ?P" using len inst at_m ep(5)
      by (auto simp: prog_ok_def list_all_length inst_ok_def less_Suc_eq le_less)
    have "realizes ?P s ?D i m (re_sem ?P s r)" for s
      by (rule resolved [OF ok(2)[unfolded D] Some, where prog = ?P]) (use len at_D in auto)
    then have "leaves ?P s ?D (i, p) (m, p') \<longleftrightarrow> re_sem ?P s r p p'" for s p p' using realizes_to by blast
    moreover have "i \<le> m" using a(1) by simp
    ultimately have "re_accepts ?P s i p \<longleftrightarrow> (\<exists>p'. re_sem ?P s r p p')" for s p
      using accepts_leaves [OF len at_m p inst(1)] by blast
    moreover have "i < length (rc_inst c')" using a(1) len by (simp add: prog_of_def)
    ultimately show ?thesis using p same Some out(1) by simp
  qed
qed

lemma sem_classes:
  assumes "pr_cls P = pr_cls Q" "pr_ucls P = pr_ucls Q"
  shows "re_sem P s r = re_sem Q s r"
proof -
  have "class_hit P = class_hit Q" by (intro ext) (simp add: class_hit_def assms split: option.split)
  then show ?thesis by (induction r) simp_all
qed

lemma finish_search:
  assumes "tree (rc_ast c) root r" "rc_inst c = []" "re_finish root c = Some (entry, c')"
  shows "re_vm (prog_of entry c') s = Some (\<exists>q q'. (q = 0 \<or> q < length s) \<and> re_sem (prog_of None c) s r q q')"
proof -
  note ok = finish_ok [OF assms]
  have sem: "re_sem (prog_of entry c') s r = re_sem (prog_of None c) s r" using ok by (intro sem_classes) (simp_all add: prog_of_def)
  show ?thesis
  proof (cases entry)
    case None
    then have "re_sem (prog_of None c) s r = (=)" using ok by (simp add: fun_eq_iff)
    then show ?thesis using None by (auto simp: re_vm_def prog_of_def)
  next
    case (Some i)
    then have "re_vm (prog_of entry c') s = Some (\<exists>q. (q = 0 \<or> q < length s) \<and> re_accepts (prog_of entry c') s i q)"
      using ok by (intro vm_exact) (simp_all, simp_all add: prog_of_def)
    then show ?thesis using ok Some sem by auto
  qed
qed

end
