(* ===== verification/Regexp_Parse.thy ===== *)
theory Regexp_Parse
  imports Regexp_Compile
begin

text \<open>
  The parser of \<^verbatim>\<open>regexp.c\<close>: every loop moves right in the pattern, so the parser returns on every pattern, and the nodes it
  makes form a tree whose numbers fit the eight-bit links and whose bounds are in order.
\<close>

definition grows :: "re_ctx \<Rightarrow> re_ctx \<Rightarrow> bool" where
  "grows c c' \<longleftrightarrow> rc_pat c' = rc_pat c \<and> rc_pi c \<le> rc_pi c' \<and> rc_inst c' = rc_inst c \<and> (\<exists>B. rc_ast c' = rc_ast c @ B) \<and>
     (length (rc_ast c) \<le> RE_MAX_AST \<longrightarrow> length (rc_ast c') \<le> RE_MAX_AST)"

definition has_tree :: "re_ctx \<Rightarrow> nat \<Rightarrow> bool" where
  "has_tree c i \<longleftrightarrow> (\<exists>r. tree (rc_ast c) i r)"

lemma grows_refl [simp]: "grows c c"
  by (simp add: grows_def)

lemma grows_trans: "grows a b \<Longrightarrow> grows b c \<Longrightarrow> grows a c"
  by (auto simp: grows_def)

lemma moved_grows: "moved c c' \<Longrightarrow> grows c c'"
  by (simp add: moved_def grows_def)

lemma grows_simps [simp]: "grows c (re_fail c') = grows c c'" "grows c (re_adv n c)"
  by (simp_all add: grows_def re_fail_def re_adv_def)

lemma tree_append: "tree A i r \<Longrightarrow> tree (A @ B) i r"
proof (induction rule: tree.induct)
  case (cat i a b)
  then show ?case using tree.cat [of i "A @ B" a b] by (simp add: nth_append)
next
  case (alt i a b)
  then show ?case using tree.alt [of i "A @ B" a b] by (simp add: nth_append)
next
  case (rep i a)
  then show ?case using tree.rep [of i "A @ B" a] by (simp add: nth_append)
next
  case (byte i)
  then show ?case using tree.byte [of i "A @ B"] by (simp add: nth_append)
next
  case (cls i)
  then show ?case using tree.cls [of i "A @ B"] by (simp add: nth_append)
next
  case (assert i)
  then show ?case using tree.assert [of i "A @ B"] by (simp add: nth_append)
qed (simp add: tree.empty nth_append)

lemma tree_in: "tree A i r \<Longrightarrow> i < length A"
  by (erule tree.cases) auto

lemma has_tree_grows: "has_tree c i \<Longrightarrow> grows c c' \<Longrightarrow> has_tree c' i"
  using tree_append by (fastforce simp: has_tree_def grows_def)

lemma has_tree_fits:
  assumes "has_tree c i" "length (rc_ast c) \<le> RE_MAX_AST"
  shows "unat (of_nat i :: byte) = i"
proof -
  have "i < 2 ^ 8" using assms tree_in by (fastforce simp: has_tree_def RE_MAX_AST_def)
  then show ?thesis by (simp add: unat_of_nat take_bit_nat_eq_self)
qed

definition base_ast :: "re_kind \<Rightarrow> re_ast" where
  "base_ast kind = \<lparr>ra_kind = kind, ra_a = 0, ra_b = 0, ra_cls = 0, ra_lazy = False, ra_min = 1, ra_max = 1\<rparr>"

lemma make_grows:
  assumes "ast_make kind f c = (r, c')"
  shows "grows c c'" "r = Some i \<Longrightarrow> i = length (rc_ast c) \<and> rc_ast c' = rc_ast c @ [f (base_ast kind)]"
  using assms by (auto simp: ast_make_def ast_new_def grows_def base_ast_def re_fail_def split: if_splits prod.splits option.splits)

lemma make_leaf:
  assumes "ast_make kind f c = (r, c')" "kind \<in> {A_BYTE, A_CLASS, A_ASSERT}" "\<And>n. ra_kind (f n) = ra_kind n"
  shows "grows c c'" "r = Some i \<Longrightarrow> has_tree c' i"
proof -
  show "grows c c'" using make_grows [OF assms(1)] by simp
  assume "r = Some i"
  note m = make_grows(2) [OF assms(1) this]
  then have at: "rc_ast c' ! i = f (base_ast kind)" "i < length (rc_ast c')" by simp_all
  then have "ra_kind (rc_ast c' ! i) = kind" using assms(3) by (simp add: base_ast_def)
  then show "has_tree c' i" using assms(2) at(2) unfolding has_tree_def by (auto intro: tree.intros)
qed

lemma empty_grows:
  assumes "ast_new A_EMPTY c = (r, c')"
  shows "grows c c'" "r = Some i \<Longrightarrow> has_tree c' i"
  using assms by (auto simp: ast_new_def grows_def has_tree_def re_fail_def split: if_splits intro!: exI [of _ R_Empty] tree.empty)

lemma make_pair:
  assumes "ast_make kind (\<lambda>n. n\<lparr>ra_a := of_nat a, ra_b := of_nat b\<rparr>) c = (r, c')" "kind = A_CAT \<or> kind = A_ALT"
    and t: "has_tree c a" "has_tree c b" "length (rc_ast c) \<le> RE_MAX_AST"
  shows "grows c c'" "r = Some i \<Longrightarrow> has_tree c' i"
proof -
  show g: "grows c c'" using make_grows [OF assms(1)] by simp
  assume "r = Some i"
  note m = make_grows(2) [OF assms(1) this]
  obtain r1 r2 where rs: "tree (rc_ast c') a r1" "tree (rc_ast c') b r2" using t g has_tree_grows unfolding has_tree_def by meson
  have fits: "unat (of_nat a :: byte) = a" "unat (of_nat b :: byte) = b" using t has_tree_fits by auto
  show "has_tree c' i" unfolding has_tree_def
    using m rs fits assms(2) tree.cat [of i "rc_ast c'" r1 r2] tree.alt [of i "rc_ast c'" r1 r2] by (auto simp: base_ast_def)
qed

lemma make_rep:
  assumes "ast_make A_REP (\<lambda>n. n\<lparr>ra_a := of_nat a, ra_min := mn, ra_max := mx, ra_lazy := lazy\<rparr>) c = (r, c')"
    and t: "has_tree c a" "length (rc_ast c) \<le> RE_MAX_AST" "mn \<le> mx" "mx \<le> RE_REP_INF"
  shows "grows c c'" "r = Some i \<Longrightarrow> has_tree c' i"
proof -
  show g: "grows c c'" using make_grows [OF assms(1)] by simp
  assume "r = Some i"
  note m = make_grows(2) [OF assms(1) this]
  obtain r1 where rs: "tree (rc_ast c') a r1" using t g has_tree_grows unfolding has_tree_def by meson
  have "unat (of_nat a :: byte) = a" using t has_tree_fits by auto
  then show "has_tree c' i" unfolding has_tree_def
    using m rs t tree.rep [of i "rc_ast c'" r1] by (auto simp: base_ast_def)
qed

section \<open>Quantifiers\<close>

lemma digits_ok: "quant_digits n dn c = Some (m, dm, c') \<Longrightarrow> n \<le> 255 \<Longrightarrow> m \<le> 255 \<and> moved c c'"
proof (induction n dn c rule: quant_digits.induct)
  case (1 n dn c)
  show ?case
  proof (cases "rc_pi c < length (rc_pat c) \<and> is_digit (rc_pat c ! rc_pi c)")
    case True
    let ?n = "n * 10 + digit_val (rc_pat c ! rc_pi c)"
    have "\<not> 255 < ?n" using 1(2) True by (auto simp: quant_digits.simps [of n dn c] Let_def split: if_splits)
    moreover from this have "quant_digits ?n (dn + 1) (re_adv 1 c) = Some (m, dm, c')"
      using 1(2) True by (simp add: quant_digits.simps [of n dn c] Let_def)
    ultimately show ?thesis using 1(1) [OF True refl] moved_trans [of c "re_adv 1 c" c'] by simp
  next
    case False
    then have "quant_digits n dn c = Some (n, dn, c)" by (subst quant_digits.simps) (simp only: if_False)
    then show ?thesis using 1(2,3) by simp
  qed
qed

lemma upper_ok:
  assumes "quant_upper n c = Some (m, c')" "n \<le> 255"
  shows "(m = RE_REP_INF \<or> m \<le> 255) \<and> moved c c'"
  using assms moved_trans [of c "re_adv 1 c" c'] by (auto simp: quant_upper_def split: if_splits option.splits dest!: digits_ok)

lemma braces_ok:
  assumes "quant_braces c = Some (Some ((n, m), c'))"
  shows "n \<le> m \<and> m \<le> RE_REP_INF \<and> moved c c'"
proof -
  obtain dn c1 c2 where d: "quant_digits 0 0 (re_adv 1 c) = Some (n, dn, c1)" and u: "quant_upper n c1 = Some (m, c2)"
    and m: "\<not> (m \<noteq> RE_REP_INF \<and> m < n)" and c': "c' = re_adv 1 c2"
    using assms by (auto simp: quant_braces_def split: option.splits if_splits)
  have 1: "n \<le> 255" "moved (re_adv 1 c) c1" using digits_ok [OF d] by simp_all
  then have 2: "m = RE_REP_INF \<or> m \<le> 255" "moved c1 c2" using upper_ok [OF u] by simp_all
  have "moved c (re_adv 1 c)" "moved c2 (re_adv 1 c2)" by simp_all
  then have "moved c c'" using 1(2) 2(2) c' moved_trans by metis
  then show ?thesis using 1(1) 2(1) m by (auto simp: RE_REP_INF_def)
qed

lemma lazy_ok: "quant_lazy mn mx c = (q, c') \<Longrightarrow> q = Quant_Bounds mn mx (re_at c 0x3F) \<and> moved c c'"
  by (auto simp: quant_lazy_def Let_def)

lemma quant_ok:
  assumes "p_quant c = (q, c')"
  shows "moved c c'" "q = Quant_Bounds mn mx lz \<Longrightarrow> mn \<le> mx \<and> mx \<le> RE_REP_INF"
proof -
  have adv: "moved c d" if "moved (re_adv 1 c) d" for d using moved_trans [OF _ that] by simp
  have "moved c c' \<and> (q = Quant_Bounds mn mx lz \<longrightarrow> mn \<le> mx \<and> mx \<le> RE_REP_INF)"
    using assms unfolding p_quant_def
    by (auto split: if_splits option.splits prod.splits dest!: lazy_ok braces_ok intro: adv moved_trans simp: RE_REP_INF_def)
  then show "moved c c'" "q = Quant_Bounds mn mx lz \<Longrightarrow> mn \<le> mx \<and> mx \<le> RE_REP_INF" by simp_all
qed

lemma class_loop_moved: "class_loop nid first c = (ok, c') \<Longrightarrow> moved c c'"
proof (induction nid first c rule: class_loop.induct)
  case (1 nid first c)
  show ?case
  proof (cases "length (rc_pat c) \<le> rc_pi c \<or> rc_pat c ! rc_pi c = 0x5D \<and> \<not> first")
    case True
    then show ?thesis using 1(2) by (auto simp: class_loop.simps [of nid first c] split: if_splits)
  next
    case False
    obtain b d where i: "class_item nid c = (b, d)" by fastforce
    then have m: "moved c d" using class_item_moved [OF i] unfolding moved_adv by simp
    show ?thesis
    proof (cases b)
      case True
      then have "class_loop nid False d = (ok, c')" using 1(2) False i by (auto simp: class_loop.simps [of nid first c] split: if_splits)
      then show ?thesis using 1(1) [of b d] False i True moved_trans [OF m] by auto
    next
      case b: False
      then show ?thesis using 1(2) False i m by (auto simp: class_loop.simps [of nid first c] split: if_splits)
    qed
  qed
qed

lemma p_class_moved:
  assumes "p_class c = (r, c')"
  shows "moved c c'"
proof -
  obtain r1 c1 where n: "cls_new c = (r1, c1)" by fastforce
  then have m: "moved c c1" by (rule cls_new_moved)
  define c2 where "c2 = (if re_at c1 0x5E then re_adv 1 c1 else c1)"
  have "moved c1 c2" by (simp add: c2_def)
  moreover have "moved c2 d" if "class_loop nid True c2 = (ok, d)" for nid ok d using class_loop_moved [OF that] .
  ultimately have "moved c d" if "class_loop nid True c2 = (ok, d)" for nid ok d using that m moved_trans by blast
  then show ?thesis using assms n m by (auto simp: p_class_def Let_def c2_def split: option.splits prod.splits bool.splits)
qed

definition node_made :: "re_ctx \<Rightarrow> nat option \<times> re_ctx \<Rightarrow> bool" where
  "node_made c q \<longleftrightarrow> grows c (snd q) \<and> (\<forall>i. fst q = Some i \<longrightarrow> has_tree (snd q) i)"

definition parse_ok :: "re_parse \<Rightarrow> bool" where
  "parse_ok P \<longleftrightarrow> (\<forall>c. length (rc_ast c) \<le> RE_MAX_AST \<longrightarrow> (\<exists>q. P c = Some q \<and> node_made c q))"

definition atom_ok :: "re_parse \<Rightarrow> bool" where
  "atom_ok P \<longleftrightarrow> (\<forall>c. length (rc_ast c) \<le> RE_MAX_AST \<longrightarrow>
     (\<exists>q. P c = Some q \<and> node_made c q \<and> (fst q \<noteq> None \<longrightarrow> rc_pi c < rc_pi (snd q))))"

lemma leaf_made:
  "node_made c (p_byte_atom b c)" "node_made c (p_class_atom k c)" "node_made c (p_assert_atom b c)"
  using make_leaf [of A_BYTE "\<lambda>n. n\<lparr>ra_a := b\<rparr>" c] make_leaf [of A_CLASS "\<lambda>n. n\<lparr>ra_cls := of_nat k\<rparr>" c]
    make_leaf [of A_ASSERT "\<lambda>n. n\<lparr>ra_a := b\<rparr>" c]
  by (auto simp: node_made_def p_byte_atom_def p_class_atom_def p_assert_atom_def prod_eq_iff intro: prod.collapse [symmetric])

lemma made_after: "grows c d \<Longrightarrow> node_made d q \<Longrightarrow> node_made c q"
  by (auto simp: node_made_def intro: grows_trans)

lemma made_moved: "moved c d \<Longrightarrow> node_made d q \<Longrightarrow> node_made c q"
  by (rule made_after [OF moved_grows])

lemma made_fail [simp]: "node_made c (None, d) \<longleftrightarrow> grows c d"
  by (simp add: node_made_def)

lemma dot_made: "node_made c (p_dot c)"
proof -
  have "moved c (fold (\<lambda>b c. if b \<noteq> 0x0A then cls_set k b c else c) [0..<256] c)" for k c by (rule moved_fold) simp
  then have "node_made c (p_class_atom k (fold (\<lambda>b c. if b \<noteq> 0x0A then cls_set k b c else c) [0..<256] c))" for k c
    using made_after [OF moved_grows leaf_made(2)] by blast
  then show ?thesis using cls_new_moved [of c]
    by (auto simp: p_dot_def split: option.splits prod.splits intro: moved_grows made_moved)
qed

lemma group_made:
  assumes "parse_ok alt" "length (rc_ast c) \<le> RE_MAX_AST"
  shows "\<exists>q. p_group alt c = Some q \<and> node_made (re_adv 1 c) q"
proof -
  define d where "d = (let c1 = re_adv 1 c in if re_at c1 0x3F then re_adv 2 c1 else c1)"
  have g: "grows (re_adv 1 c) d" "length (rc_ast d) \<le> RE_MAX_AST" using assms(2) by (simp_all add: d_def Let_def) (simp_all add: re_adv_def)
  then obtain r c' where a: "alt d = Some (r, c')" "grows d c'" "\<And>i. r = Some i \<Longrightarrow> has_tree c' i"
    using assms(1) unfolding parse_ok_def node_made_def by (metis prod.collapse)
  have "grows (re_adv 1 c) c'" using grows_trans [OF g(1) a(2)] .
  moreover have "grows c' (re_adv 1 c')" by simp
  ultimately show ?thesis using a has_tree_grows [of c' _ "re_adv 1 c'"]
    by (auto simp: p_group_def Let_def d_def node_made_def split: option.splits intro: grows_trans)
qed

lemma atom_good:
  assumes "parse_ok alt"
  shows "atom_ok (p_atom alt)"
  unfolding atom_ok_def
proof (intro allI impI)
  fix c :: re_ctx assume len: "length (rc_ast c) \<le> RE_MAX_AST"
  show "\<exists>q. p_atom alt c = Some q \<and> node_made c q \<and> (fst q \<noteq> None \<longrightarrow> rc_pi c < rc_pi (snd q))"
  proof (cases "length (rc_pat c) \<le> rc_pi c")
    case True
    then show ?thesis by (simp add: p_atom_def)
  next
    case False
    let ?d = "re_adv 1 c"
    have cl: "node_made ?d (case p_class ?d of (None, c) \<Rightarrow> (None, c) | (Some cid, c) \<Rightarrow> p_class_atom cid c)"
      using p_class_moved [of ?d] by (auto split: option.splits prod.splits intro: moved_grows made_moved leaf_made)
    have esc: "node_made ?d (case p_escape ?d of (Esc_Error, c) \<Rightarrow> (None, c) | (Esc_Assert k, c) \<Rightarrow> p_assert_atom k c
        | (Esc_Class v, c) \<Rightarrow> p_class_atom v c | (Esc_Byte b, c) \<Rightarrow> p_byte_atom b c)"
      using p_escape_moved [of ?d] by (auto split: re_esc.splits prod.splits intro: moved_grows made_moved leaf_made)
    have made: "\<exists>q. p_atom alt c = Some q \<and> (node_made ?d q \<or> fst q = None \<and> node_made c q)"
      using False cl esc group_made [OF assms len] dot_made [of ?d] leaf_made [of ?d]
      unfolding p_atom_def Let_def by (auto simp del: split_paired_Ex split_paired_All)
    then obtain q where q: "p_atom alt c = Some q" "node_made ?d q \<or> fst q = None \<and> node_made c q" by blast
    have "node_made c q" using q(2) made_after [of c ?d q] by auto
    moreover have "node_made ?d q \<Longrightarrow> rc_pi c < rc_pi (snd q)" by (auto simp: node_made_def grows_def re_adv_def)
    ultimately show ?thesis using q by auto
  qed
qed

section \<open>The loops of the parser\<close>

lemma made_len: "node_made c q \<Longrightarrow> length (rc_ast c) \<le> RE_MAX_AST \<Longrightarrow> length (rc_ast (snd q)) \<le> RE_MAX_AST"
  by (simp add: node_made_def grows_def)

lemma made_grows: "node_made c (r, d) \<Longrightarrow> grows c d" "node_made c (r, d) \<Longrightarrow> rc_pi c \<le> rc_pi d"
  by (simp_all add: node_made_def grows_def)

lemma quant_made:
  assumes "has_tree c a" "length (rc_ast c) \<le> RE_MAX_AST"
  shows "node_made c (seq_quant a c)"
proof -
  obtain q d where q: "p_quant c = (q, d)" by fastforce
  note m = quant_ok [OF q]
  have g: "grows c d" using moved_grows [OF m(1)] .
  then have d: "has_tree d a" "length (rc_ast d) \<le> RE_MAX_AST" using assms has_tree_grows by (auto simp: grows_def)
  show ?thesis
  proof (cases q)
    case (Quant_Bounds mn mx lz)
    obtain r e where e: "ast_make A_REP (\<lambda>n. n\<lparr>ra_a := of_nat a, ra_min := mn, ra_max := mx, ra_lazy := lz\<rparr>) d = (r, e)" by fastforce
    show ?thesis using make_rep [OF e d] m(2) [OF Quant_Bounds] q Quant_Bounds e grows_trans [OF g] by (simp add: seq_quant_def node_made_def)
  qed (use q g d in \<open>simp_all add: seq_quant_def node_made_def\<close>)
qed

lemma join_made:
  assumes "has_tree c a" "\<And>b. acc = Some b \<Longrightarrow> has_tree c b" "length (rc_ast c) \<le> RE_MAX_AST"
  shows "node_made c (seq_join acc a c)"
proof (cases acc)
  case (Some b)
  obtain r e where e: "ast_make A_CAT (\<lambda>n. n\<lparr>ra_a := of_nat b, ra_b := of_nat a\<rparr>) c = (r, e)" by fastforce
  show ?thesis using make_pair [OF e _ _ assms(1,3)] assms(2) [OF Some] Some e by (simp add: seq_join_def node_made_def)
qed (use assms(1) in \<open>simp add: seq_join_def node_made_def\<close>)

text \<open>A step of a loop ends with a node or goes on further right.\<close>

definition next_made :: "re_ctx \<Rightarrow> re_next \<Rightarrow> bool" where
  "next_made c n \<longleftrightarrow>
     (case n of Next_Done r c' \<Rightarrow> node_made c (r, c') | Next_More a c' \<Rightarrow> node_made c (Some a, c') \<and> rc_pi c < rc_pi c' \<and> rc_pi c < length (rc_pat c))"

lemma seq_step_made:
  assumes "atom_ok atom" "\<And>b. acc = Some b \<Longrightarrow> has_tree c b" "length (rc_ast c) \<le> RE_MAX_AST"
  shows "\<exists>n. seq_step atom acc c = Some n \<and> next_made c n"
proof (cases "length (rc_pat c) \<le> rc_pi c \<or> re_at c 0x7C \<or> re_at c 0x29")
  case True
  obtain r e where e: "ast_new A_EMPTY c = (r, e)" by fastforce
  show ?thesis using True empty_grows [OF e] e assms(2) by (cases acc) (simp_all add: seq_step_def next_made_def node_made_def)
next
  case False
  obtain r d where a: "atom c = Some (r, d)" "node_made c (r, d)" "r \<noteq> None \<Longrightarrow> rc_pi c < rc_pi d"
    using assms(1,3) unfolding atom_ok_def by (metis prod.collapse fst_conv snd_conv)
  show ?thesis
  proof (cases r)
    case None
    then show ?thesis using False a by (simp add: seq_step_def next_made_def)
  next
    case (Some i)
    obtain r2 e where q: "seq_quant i d = (r2, e)" by fastforce
    have m1: "node_made d (r2, e)" using quant_made [of d i] a(2) Some q made_len [OF a(2) assms(3)] by (simp add: node_made_def)
    have m2: "node_made c (r2, e)" using made_after [OF made_grows(1) [OF a(2)] m1] .
    show ?thesis
    proof (cases r2)
      case None
      then show ?thesis using False a Some q m2 by (simp add: seq_step_def next_made_def)
    next
      case r2: (Some j)
      obtain r3 h where jn: "seq_join acc j e = (r3, h)" by fastforce
      have ge: "grows c e" "rc_pi d \<le> rc_pi e" using made_grows m1 m2 by blast+
      have "node_made e (r3, h)"
        using join_made [of e j acc] m2 r2 jn made_len [OF m2 assms(3)] has_tree_grows [OF assms(2) ge(1)] by (simp add: node_made_def)
      then have "node_made c (r3, h)" "rc_pi e \<le> rc_pi h" using made_after [OF ge(1)] made_grows(2) by blast+
      then show ?thesis using False a Some q r2 jn ge(2)
        by (cases r3) (auto simp: seq_step_def next_made_def)
    qed
  qed
qed

lemma alt_step_made:
  assumes "parse_ok seq" "has_tree c a" "length (rc_ast c) \<le> RE_MAX_AST"
  shows "\<exists>n. alt_step seq a c = Some n \<and> next_made c n"
proof (cases "re_at c 0x7C")
  case False
  then show ?thesis using assms(2) by (simp add: alt_step_def next_made_def node_made_def)
next
  case True
  have "length (rc_ast (re_adv 1 c)) \<le> RE_MAX_AST" using assms(3) by (simp add: re_adv_def)
  then obtain r d where s: "seq (re_adv 1 c) = Some (r, d)" "node_made (re_adv 1 c) (r, d)"
    using assms(1) unfolding parse_ok_def by (metis prod.collapse)
  have m: "node_made c (r, d)" using made_after [OF _ s(2)] by simp
  then have g: "grows c d" by (simp add: node_made_def)
  have pi: "rc_pi c < rc_pi d" using s(2) by (simp add: node_made_def grows_def re_adv_def)
  show ?thesis
  proof (cases r)
    case None
    then show ?thesis using True s m by (simp add: alt_step_def next_made_def)
  next
    case (Some b)
    obtain r2 e where e: "ast_make A_ALT (\<lambda>n. n\<lparr>ra_a := of_nat a, ra_b := of_nat b\<rparr>) d = (r2, e)" by fastforce
    have "node_made d (r2, e)" using make_pair [OF e _ has_tree_grows [OF assms(2) g]] m made_len [OF m assms(3)] Some
      by (simp add: node_made_def)
    then have "node_made c (r2, e)" "rc_pi d \<le> rc_pi e" using made_after [OF g] made_grows(2) by blast+
    then show ?thesis using True s Some e pi by (cases r2) (auto simp: alt_step_def next_made_def re_at_def)
  qed
qed

text \<open>
  Both loops of the parser carry the node of what was read so far and repeat a step. Where the step keeps its promise, the loop
  returns with a node.
\<close>

locale parse_loop =
  fixes step :: "'a \<Rightarrow> re_ctx \<Rightarrow> re_next option"
    and loop :: "'a \<Rightarrow> re_ctx \<Rightarrow> (nat option \<times> re_ctx) option"
    and carry :: "nat \<Rightarrow> 'a"
    and good :: "re_ctx \<Rightarrow> 'a \<Rightarrow> bool"
  assumes loop_unfold: "loop a c =
      step a c \<bind> (\<lambda>n. case n of Next_Done r c \<Rightarrow> Some (r, c) | Next_More i c \<Rightarrow> loop (carry i) c)"
    and step_made: "good c a \<Longrightarrow> length (rc_ast c) \<le> RE_MAX_AST \<Longrightarrow> \<exists>n. step a c = Some n \<and> next_made c n"
    and carry_good: "has_tree c i \<Longrightarrow> good c (carry i)"
begin

lemma loop_made: "good c a \<Longrightarrow> length (rc_ast c) \<le> RE_MAX_AST \<Longrightarrow> \<exists>q. loop a c = Some q \<and> node_made c q"
proof (induction "length (rc_pat c) - rc_pi c" arbitrary: a c rule: less_induct)
  case less
  obtain n where n: "step a c = Some n" "next_made c n" using step_made [OF less.prems] by blast
  show ?case
  proof (cases n)
    case (Next_Done r d)
    then show ?thesis using n by (subst loop_unfold) (simp add: next_made_def)
  next
    case (Next_More i d)
    then have m: "node_made c (Some i, d)" "rc_pi c < rc_pi d" "rc_pi c < length (rc_pat c)" using n(2) by (auto simp: next_made_def)
    then have "length (rc_pat d) - rc_pi d < length (rc_pat c) - rc_pi c" "has_tree d i" "length (rc_ast d) \<le> RE_MAX_AST" "grows c d"
      using made_len [OF m(1) less.prems(2)] by (auto simp: node_made_def grows_def)
    then obtain q where "loop (carry i) d = Some q" "node_made c q" using less.hyps [OF _ carry_good] made_after by blast
    then show ?thesis using n(1) Next_More by (subst loop_unfold) simp
  qed
qed

end

abbreviation seq_good :: "re_ctx \<Rightarrow> nat option \<Rightarrow> bool" where
  "seq_good c acc \<equiv> \<forall>b. acc = Some b \<longrightarrow> has_tree c b"

lemma seq_parse_loop: "atom_ok atom \<Longrightarrow> parse_loop (seq_step atom) (seq_loop atom) Some seq_good"
  by unfold_locales (rule seq_loop.simps, auto intro: seq_step_made)

lemma alt_parse_loop: "parse_ok seq \<Longrightarrow> parse_loop (alt_step seq) (alt_loop seq) (\<lambda>i. i) has_tree"
  by unfold_locales (rule alt_loop.simps, auto intro: alt_step_made)

lemma p_alt_good: "parse_ok (p_alt depth)"
proof (induction "Suc RE_AST_DEPTH - depth" arbitrary: depth rule: less_induct)
  case less
  show ?case
  proof (cases "RE_AST_DEPTH < depth")
    case True
    then show ?thesis by (simp add: parse_ok_def p_alt.simps)
  next
    case False
    then have alt: "parse_ok (p_alt (depth + 1))" by (intro less) linarith
    have seq: "parse_ok (p_seq (p_alt (depth + 1)))"
      unfolding parse_ok_def p_seq_def using parse_loop.loop_made [OF seq_parse_loop [OF atom_good [OF alt]], where a = None] by simp
    show ?thesis unfolding parse_ok_def
    proof (intro allI impI)
      fix c :: re_ctx assume len: "length (rc_ast c) \<le> RE_MAX_AST"
      then obtain r d where s: "p_seq (p_alt (depth + 1)) c = Some (r, d)" "node_made c (r, d)"
        using seq unfolding parse_ok_def by (metis prod.collapse)
      show "\<exists>q. p_alt depth c = Some q \<and> node_made c q"
      proof (cases r)
        case None
        then show ?thesis using False s by (simp add: p_alt.simps [of depth])
      next
        case (Some a)
        then have "has_tree d a" "grows c d" "length (rc_ast d) \<le> RE_MAX_AST" using s(2) made_len [OF s(2) len] by (auto simp: node_made_def)
        then obtain q where "alt_loop (p_seq (p_alt (depth + 1))) a d = Some q" "node_made c q"
          using parse_loop.loop_made [OF alt_parse_loop [OF seq]] made_after by blast
        then show ?thesis using False s(1) Some by (simp add: p_alt.simps [of depth])
      qed
    qed
  qed
qed

text \<open>The loops as the parser runs them, at every depth.\<close>

interpretation seq_parse: parse_loop "seq_step (p_atom (p_alt depth))" "seq_loop (p_atom (p_alt depth))" Some seq_good for depth
  by (rule seq_parse_loop [OF atom_good [OF p_alt_good]])

interpretation alt_parse: parse_loop "alt_step (p_seq (p_alt depth))" "alt_loop (p_seq (p_alt depth))" "\<lambda>i. i" has_tree for depth
proof (rule alt_parse_loop)
  show "parse_ok (p_seq (p_alt depth))" unfolding parse_ok_def p_seq_def using seq_parse.loop_made [where a = None] by simp
qed

end
