(* ===== verification/Regexp_Facts.thy ===== *)
theory Regexp_Facts
  imports Regexp_Parse
begin

text \<open>
  What a pattern search answers: it returns, its verdict is the meaning of the parsed expression, the named classes are the sets
  they name, and a search through the cache of programs is the search.
\<close>

section \<open>Searching\<close>

lemma start_made: "p_alt 0 (re_start pat) = Some (r, c) \<Longrightarrow> rc_inst c = [] \<and> rc_pat c = pat \<and> (\<forall>i. r = Some i \<longrightarrow> has_tree c i)"
proof -
  assume p: "p_alt 0 (re_start pat) = Some (r, c)"
  have "length (rc_ast (re_start pat)) \<le> RE_MAX_AST" by (simp add: re_start_def)
  then have "node_made (re_start pat) (r, c)" using p_alt_good [of 0] p by (auto simp: parse_ok_def)
  then show ?thesis by (simp add: node_made_def grows_def) (simp add: re_start_def)
qed

lemma build_cases:
  obtains "re_build pat = Some None"
  | root c where "p_alt 0 (re_start pat) = Some (Some root, c)" "rc_pi c = length pat" "re_build pat = Some (re_finish root c)"
proof -
  obtain r c where p: "p_alt 0 (re_start pat) = Some (r, c)"
  proof -
    have "length (rc_ast (re_start pat)) \<le> RE_MAX_AST" by (simp add: re_start_def)
    then show thesis using p_alt_good [of 0] that by (auto simp: parse_ok_def)
  qed
  note s = start_made [OF p]
  show thesis
  proof (cases "r = None \<or> rc_pi c \<noteq> length pat")
    case True
    then have "re_build pat = Some None" using p s by (cases r) (simp_all add: re_build_def)
    then show thesis by (rule that(1))
  next
    case False
    then obtain root where "r = Some root" by (cases r) auto
    then show thesis using that(2) [of root c] p s False by (simp add: re_build_def)
  qed
qed

text \<open>The programs that compilation gives all run to a verdict.\<close>

lemma built_runs: "re_build pat = Some (Some (entry, c')) \<Longrightarrow> \<exists>m. re_vm (prog_of entry c') s = Some m"
  by (cases rule: build_cases [of pat]) (use start_made has_tree_def finish_search in \<open>fastforce+\<close>)

text \<open>
  C18. A search returns on every pattern and every subject, with no, yes or syntax error; whether it is a syntax error depends on
  the pattern alone.
\<close>

theorem search_returns:
  "yep_re_search pat s \<in> {Some (- 1), Some 0, Some 1} \<and>
   (yep_re_search pat s = Some (- 1) \<longleftrightarrow> yep_re_search pat s' = Some (- 1))"
proof (cases "pat = [] \<or> RE_MAX_PAT < length pat")
  case False
  obtain b where b: "re_build pat = Some b" by (cases rule: build_cases [of pat]) auto
  show ?thesis
  proof (cases b)
    case (Some p)
    obtain entry c' where p: "p = (entry, c')" by fastforce
    then show ?thesis using b Some False built_runs [of pat entry c' s] built_runs [of pat entry c' s'] by (auto simp: yep_re_search_def split: if_splits)
  qed (use b False in \<open>simp add: yep_re_search_def\<close>)
qed (simp add: yep_re_search_def)

text \<open>
  C9. A pattern that the parser takes to its end stands for an expression, and the search answers one exactly if that expression
  relates the start of the subject, or the position of one of its bytes, to some position; it answers a syntax error exactly if the
  program does not fit. Repetition, alternation and assertions have their mathematical meaning here: the pending arrows, the ring of
  threads and the eight-bit generations do not show.
\<close>

theorem search_meaning:
  assumes "pat \<noteq> []" "length pat \<le> RE_MAX_PAT" "p_alt 0 (re_start pat) = Some (Some root, c)" "rc_pi c = length pat"
  shows "\<exists>r. tree (rc_ast c) root r \<and> (\<forall>s. yep_re_search pat s =
    Some (if re_finish root c = None then - 1
      else if \<exists>q q'. (q = 0 \<or> q < length s) \<and> re_sem (prog_of None c) s r q q' then 1 else 0))"
proof -
  note s = start_made [OF assms(3)]
  then obtain r where r: "tree (rc_ast c) root r" by (auto simp: has_tree_def)
  have b: "re_build pat = Some (re_finish root c)" using assms(3,4) s by (simp add: re_build_def)
  have "yep_re_search pat s = Some (if re_finish root c = None then - 1
      else if \<exists>q q'. (q = 0 \<or> q < length s) \<and> re_sem (prog_of None c) s r q q' then 1 else 0)" for s
  proof (cases "re_finish root c")
    case (Some p)
    obtain entry c' where p: "p = (entry, c')" by fastforce
    then show ?thesis using finish_search [OF r, of entry c' s] start_made [OF assms(3)] b Some assms(1,2) by (auto simp: yep_re_search_def)
  qed (use b assms(1,2) in \<open>simp add: yep_re_search_def\<close>)
  then show ?thesis using r by blast
qed

section \<open>The cache\<close>

inductive cache_made :: "yep_re_cache \<Rightarrow> bool" where
  init: "cache_made []"
| add: "cache_made t \<Longrightarrow> yep_re_cache_add grant pat t = Some (r, t') \<Longrightarrow> cache_made t'"

definition cache_inv :: "yep_re_cache \<Rightarrow> bool" where
  "cache_inv t \<longleftrightarrow> length t \<le> RE_CACHE_MAX \<and> distinct (map fst t) \<and>
     (\<forall>(pat, prog) \<in> set t. pat \<noteq> [] \<and> length pat \<le> RE_MAX_PAT \<and> (\<exists>entry c. re_build pat = Some (Some (entry, c)) \<and> prog = prog_of entry c))"

lemma compile_build:
  assumes "re_compile grant pat = Some (Some p)"
  shows "pat \<noteq> [] \<and> length pat \<le> RE_MAX_PAT \<and> (\<exists>entry c. re_build pat = Some (Some (entry, c)) \<and> p = prog_of entry c)"
  using assms by (auto simp: re_compile_def split: if_splits option.splits prod.splits Option.bind_splits)

lemma cache_made_inv: "cache_made t \<Longrightarrow> cache_inv t"
proof (induction rule: cache_made.induct)
  case (add t grant pat r t')
  show ?case
  proof (cases "t' = t")
    case False
    then obtain p where p: "re_compile grant pat = Some (Some p)" "t' = t @ [(pat, p)]" and fresh: "length t < RE_CACHE_MAX" "pat \<notin> fst ` set t"
      using add.hyps(2) by (auto simp: yep_re_cache_add_def split: if_splits option.splits Option.bind_splits)
    then show ?thesis using add.IH compile_build [OF p(1)] by (auto simp: cache_inv_def)
  qed (use add in simp)
qed (simp add: cache_inv_def)

text \<open>
  C12. A search through a cache gives the verdict of the plain search, whatever patterns were added in whatever order and whichever
  requests for memory were refused; the cache holds each pattern once and at most 256 of them.
\<close>

theorem cache_search_agrees:
  assumes "cache_made t"
  shows "yep_re_cache_search (Some t) pat s = yep_re_search pat s \<and> length t \<le> RE_CACHE_MAX \<and> distinct (map fst t)"
proof -
  have inv: "cache_inv t" using cache_made_inv [OF assms] .
  have "yep_re_cache_search (Some t) pat s = yep_re_search pat s"
  proof (cases "find (\<lambda>slot. fst slot = pat) t")
    case (Some slot)
    then have "slot \<in> set t" "fst slot = pat" by (auto simp: find_Some_iff)
    then obtain p where m: "(pat, p) \<in> set t" "slot = (pat, p)" by (metis prod.collapse)
    then show ?thesis using inv Some by (fastforce simp: cache_inv_def yep_re_cache_search_def yep_re_search_def)
  qed (simp add: yep_re_cache_search_def)
  then show ?thesis using inv by (simp add: cache_inv_def)
qed

section \<open>Class tables\<close>

definition ranges_in :: "u32 list \<Rightarrow> nat \<Rightarrow> nat \<Rightarrow> u32 \<Rightarrow> bool" where
  "ranges_in r lo hi cp \<longleftrightarrow> (\<exists>k. lo \<le> k \<and> k < hi \<and> r ! (k * 2) \<le> cp \<and> cp \<le> r ! (k * 2 + 1))"

lemma ranges_loop_exact: "sorted r \<Longrightarrow> 2 * hi \<le> length r \<Longrightarrow> ranges_loop r cp lo hi \<longleftrightarrow> ranges_in r lo hi cp"
proof (induction r cp lo hi rule: ranges_loop.induct)
  case (1 r cp lo hi)
  show ?case
  proof (cases "lo < hi")
    case True
    define mid where "mid = lo + (hi - lo) div 2"
    have mid: "lo \<le> mid" "mid < hi" using True by (auto simp: mid_def)
    have mono: "r ! i \<le> r ! j" if "i \<le> j" "j < length r" for i j using sorted_nth_mono [OF 1(3)] that by blast
    have left: "ranges_in r lo hi cp \<longleftrightarrow> ranges_in r lo mid cp" if "cp < r ! (mid * 2)"
    proof -
      have "k < mid" if "r ! (k * 2) \<le> cp" "k < hi" for k
        using that mono [of "mid * 2" "k * 2"] \<open>cp < r ! (mid * 2)\<close> 1(4) by (cases "k < mid") auto
      then show ?thesis using mid unfolding ranges_in_def by (meson less_trans)
    qed
    have right: "ranges_in r lo hi cp \<longleftrightarrow> ranges_in r (mid + 1) hi cp" if "r ! (mid * 2 + 1) < cp"
    proof -
      have "mid < k" if "cp \<le> r ! (k * 2 + 1)" for k
        using that mono [of "k * 2 + 1" "mid * 2 + 1"] \<open>r ! (mid * 2 + 1) < cp\<close> 1(4) mid by (cases "mid < k") auto
      then show ?thesis using mid unfolding ranges_in_def Suc_eq_plus1 [symmetric] Suc_le_eq by (meson le_trans less_imp_le)
    qed
    have "ranges_loop r cp lo hi \<longleftrightarrow>
        (if cp < r ! (mid * 2) then ranges_loop r cp lo mid else if r ! (mid * 2 + 1) < cp then ranges_loop r cp (mid + 1) hi else True)"
      using True by (subst ranges_loop.simps) (simp add: mid_def Let_def)
    also have "\<dots> \<longleftrightarrow> ranges_in r lo hi cp"
    proof -
      consider "cp < r ! (mid * 2)" | "\<not> cp < r ! (mid * 2)" "r ! (mid * 2 + 1) < cp" | "r ! (mid * 2) \<le> cp" "cp \<le> r ! (mid * 2 + 1)"
        by fastforce
      then show ?thesis
      proof cases
        case 1
        then show ?thesis using left "1.IH"(1) [OF True mid_def] \<open>sorted r\<close> \<open>2 * hi \<le> length r\<close> mid by simp
      next
        case 2
        then show ?thesis using right "1.IH"(2) [OF True mid_def] \<open>sorted r\<close> \<open>2 * hi \<le> length r\<close> by simp
      next
        case 3
        then show ?thesis using mid unfolding ranges_in_def by (auto simp: not_less)
      qed
    qed
    finally show ?thesis .
  qed (simp add: ranges_loop.simps [of r cp lo hi] ranges_in_def)
qed

lemma ranges_has_exact: "sorted r \<Longrightarrow> 2 * n \<le> length r \<Longrightarrow> re_ranges_has r n cp \<longleftrightarrow> (\<exists>k < n. r ! (k * 2) \<le> cp \<and> cp \<le> r ! (k * 2 + 1))"
  using ranges_loop_exact [of r n cp 0] by (simp add: re_ranges_has_def ranges_in_def)

lemma small_tables:
  "sorted RE_RANGES_D" "sorted RE_RANGES_WORD" "sorted RE_RANGES_WHITE" "sorted RE_RANGES_NOTD" "sorted RE_RANGES_NOTW" "sorted RE_RANGES_NOTS"
  by (simp_all add: RE_RANGES_D_def RE_RANGES_WORD_def RE_RANGES_WHITE_def RE_RANGES_NOTD_def RE_RANGES_NOTW_def RE_RANGES_NOTS_def)

definition named_class :: "nat \<Rightarrow> u32 \<Rightarrow> bool" where
  "named_class kind cp =
     (if kind = 0 then 0x30 \<le> cp \<and> cp \<le> 0x39
      else if kind = 1 then 0x30 \<le> cp \<and> cp \<le> 0x39 \<or> 0x41 \<le> cp \<and> cp \<le> 0x5A \<or> cp = 0x5F \<or> 0x61 \<le> cp \<and> cp \<le> 0x7A
      else 0x09 \<le> cp \<and> cp \<le> 0x0D \<or> cp = 0x20 \<or> cp = 0xA0 \<or> cp = 0x1680 \<or> 0x2000 \<le> cp \<and> cp \<le> 0x200A \<or>
        0x2028 \<le> cp \<and> cp \<le> 0x2029 \<or> cp = 0x202F \<or> cp = 0x205F \<or> cp = 0x3000 \<or> cp = 0xFEFF)"

lemmas class_tables = RE_RANGES_D_def RE_RANGES_WORD_def RE_RANGES_WHITE_def RE_RANGES_NOTD_def RE_RANGES_NOTW_def RE_RANGES_NOTS_def

lemma white_gaps:
  fixes x :: nat
  assumes "x \<le> 0x10FFFF"
  shows "x \<le> 0x08 \<or> 0x0E \<le> x \<and> x \<le> 0x1F \<or> 0x21 \<le> x \<and> x \<le> 0x9F \<or> 0xA1 \<le> x \<and> x \<le> 0x167F \<or> 0x1681 \<le> x \<and> x \<le> 0x1FFF \<or>
      0x200B \<le> x \<and> x \<le> 0x2027 \<or> 0x202A \<le> x \<and> x \<le> 0x202E \<or> 0x2030 \<le> x \<and> x \<le> 0x205E \<or> 0x2060 \<le> x \<and> x \<le> 0x2FFF \<or>
      0x3001 \<le> x \<and> x \<le> 0xFEFE \<or> 0xFF00 \<le> x \<longleftrightarrow>
    \<not> (0x09 \<le> x \<and> x \<le> 0x0D \<or> 0x20 \<le> x \<and> x \<le> 0x20 \<or> 0xA0 \<le> x \<and> x \<le> 0xA0 \<or> 0x1680 \<le> x \<and> x \<le> 0x1680 \<or> 0x2000 \<le> x \<and> x \<le> 0x200A \<or> 0x2028 \<le> x \<and> x \<le> 0x2029 \<or> 0x202F \<le> x \<and> x \<le> 0x202F \<or> 0x205F \<le> x \<and> x \<le> 0x205F \<or> 0x3000 \<le> x \<and> x \<le> 0x3000 \<or> 0xFEFF \<le> x \<and> x \<le> 0xFEFF)"
  by (cases "x \<le> 0x8", simp, cases "x \<le> 0xd", simp, cases "x \<le> 0x1f", simp, cases "x \<le> 0x20", simp, cases "x \<le> 0x9f", simp, cases "x \<le> 0xa0", simp, cases "x \<le> 0x167f", simp, cases "x \<le> 0x1680", simp, cases "x \<le> 0x1fff", simp, cases "x \<le> 0x200a", simp, cases "x \<le> 0x2027", simp, cases "x \<le> 0x2029", simp, cases "x \<le> 0x202e", simp, cases "x \<le> 0x202f", simp, cases "x \<le> 0x205e", simp, cases "x \<le> 0x205f", simp, cases "x \<le> 0x2fff", simp, cases "x \<le> 0x3000", simp, cases "x \<le> 0xfefe", simp, cases "x \<le> 0xfeff", simp, simp)

lemma class_ranges:
  assumes "cp \<le> 0x10FFFF"
  shows "re_ranges_has RE_RANGES_D 1 cp \<longleftrightarrow> named_class 0 cp" "re_ranges_has RE_RANGES_NOTD 2 cp \<longleftrightarrow> \<not> named_class 0 cp"
    "re_ranges_has RE_RANGES_WORD 4 cp \<longleftrightarrow> named_class 1 cp" "re_ranges_has RE_RANGES_NOTW 5 cp \<longleftrightarrow> \<not> named_class 1 cp"
    "re_ranges_has RE_RANGES_WHITE 10 cp \<longleftrightarrow> named_class 2 cp" "re_ranges_has RE_RANGES_NOTS 11 cp \<longleftrightarrow> \<not> named_class 2 cp"
proof -
  have len: "2 * 1 \<le> length RE_RANGES_D" "2 * 2 \<le> length RE_RANGES_NOTD" "2 * 4 \<le> length RE_RANGES_WORD" "2 * 5 \<le> length RE_RANGES_NOTW"
    "2 * 10 \<le> length RE_RANGES_WHITE" "2 * 11 \<le> length RE_RANGES_NOTS" by (simp_all add: class_tables)
  have list: "(\<exists>k < n. P k) \<longleftrightarrow> list_ex P [0..<n]" for n and P :: "nat \<Rightarrow> bool" by (auto simp: list_ex_iff)
  have cp: "unat cp \<le> 0x10FFFF" using assms by (simp add: word_le_nat_alt)
  have same: "cp = w \<longleftrightarrow> unat w \<le> unat cp \<and> unat cp \<le> unat w" for w by (auto simp: word_unat_eq_iff)
  have upts: "[0..<2] = [0, 1 :: nat]" "[0..<4] = [0, 1, 2, 3 :: nat]" "[0..<5] = [0, 1, 2, 3, 4 :: nat]"
    "[0..<10] = [0, 1, 2, 3, 4, 5, 6, 7, 8, 9 :: nat]" "[0..<11] = [0, 1, 2, 3, 4, 5, 6, 7, 8, 9, 10 :: nat]" by (simp_all add: upt_rec)
  show "re_ranges_has RE_RANGES_D 1 cp \<longleftrightarrow> named_class 0 cp" "re_ranges_has RE_RANGES_NOTD 2 cp \<longleftrightarrow> \<not> named_class 0 cp"
    unfolding ranges_has_exact [OF small_tables(1) len(1)] ranges_has_exact [OF small_tables(4) len(2)] list using cp
    by (simp_all add: class_tables named_class_def upts word_le_nat_alt) arith
  show "re_ranges_has RE_RANGES_WORD 4 cp \<longleftrightarrow> named_class 1 cp" "re_ranges_has RE_RANGES_NOTW 5 cp \<longleftrightarrow> \<not> named_class 1 cp"
    unfolding ranges_has_exact [OF small_tables(2) len(3)] ranges_has_exact [OF small_tables(5) len(4)] list using cp
    by (simp_all add: class_tables named_class_def upts word_le_nat_alt word_unat_eq_iff) arith+
  show "re_ranges_has RE_RANGES_WHITE 10 cp \<longleftrightarrow> named_class 2 cp" "re_ranges_has RE_RANGES_NOTS 11 cp \<longleftrightarrow> \<not> named_class 2 cp"
    unfolding ranges_has_exact [OF small_tables(3) len(5)] ranges_has_exact [OF small_tables(6) len(6)] list using white_gaps [OF cp] cp
    by (simp_all add: class_tables named_class_def upts word_le_nat_alt same)
qed

text \<open>
  C25. The escapes for digits, word characters and white space, plain and negated, hold exactly the code points they name: the
  binary search over the sorted range tables decides the set, and the table of a negated escape is its complement.
\<close>

theorem named_class_exact:
  assumes "nid < length (rc_ucls c)" "cp \<le> 0x10FFFF"
  shows "class_hit (prog_of entry (cls_add_named nid neg kind c)) s p cp len nid \<longleftrightarrow> neg \<noteq> named_class kind cp"
proof -
  have k: "kind \<noteq> 0 \<Longrightarrow> kind \<noteq> 1 \<Longrightarrow> named_class kind cp = named_class 2 cp" by (simp add: named_class_def)
  show ?thesis using assms(1) class_ranges [OF assms(2)] k
    by (cases "kind = 0"; cases "kind = 1"; cases neg)
      (simp_all add: class_hit_def prog_of_def cls_add_named_def cls_add_ranges_def)
qed

theorem named_class_exact_witness:
  "class_hit (prog_of None (cls_add_named 0 True 2 (snd (cls_new (re_start []))))) [] 0 0x3000 3 0 \<longleftrightarrow> False"
  using named_class_exact [of 0 "snd (cls_new (re_start []))" "0x3000" None True 2 "[]" 0 3]
  by (simp add: cls_new_def re_start_def RE_MAX_CLS_def named_class_def)

section \<open>Examples\<close>

lemma seq_loop_step:
  "seq_step atom acc c = Some n \<Longrightarrow> seq_loop atom acc c = (case n of Next_Done r c \<Rightarrow> Some (r, c) | Next_More a c \<Rightarrow> seq_loop atom (Some a) c)"
  by (subst seq_loop.simps) simp

text \<open>A pattern of one literal byte, and a pattern of one assertion.\<close>

definition one_node :: "byte \<Rightarrow> re_ast \<Rightarrow> re_ctx" where
  "one_node b n = (re_start [b])\<lparr>rc_pi := 1, rc_ast := [n]\<rparr>"

lemma one_atom:
  assumes "b \<notin> {0x29, 0x7C}" "p_atom (p_alt 1) (re_start [b]) = Some (Some 0, one_node b n)"
  shows "p_alt 0 (re_start [b]) = Some (Some 0, one_node b n)"
proof -
  have c: "rc_pat (one_node b n) = [b]" "rc_pi (one_node b n) = 1" by (simp_all add: one_node_def re_start_def)
  have "seq_step (p_atom (p_alt 1)) None (re_start [b]) = Some (Next_More 0 (one_node b n))"
    using assms c by (simp add: seq_step_def re_at_def re_start_def seq_quant_def p_quant_def seq_join_def)
  moreover have "seq_step (p_atom (p_alt 1)) (Some 0) (one_node b n) = Some (Next_Done (Some 0) (one_node b n))"
    using c by (simp add: seq_step_def)
  ultimately have "p_seq (p_alt 1) (re_start [b]) = Some (Some 0, one_node b n)" by (simp add: p_seq_def seq_loop_step)
  moreover have "alt_loop seq 0 (one_node b n) = Some (Some 0, one_node b n)" for seq
    using c by (subst alt_loop.simps) (simp add: alt_step_def re_at_def)
  ultimately show ?thesis by (simp add: p_alt.simps [of 0])
qed

lemma one_byte: "p_alt 0 (re_start [0x61]) = Some (Some 0, one_node 0x61 ((base_ast A_BYTE)\<lparr>ra_a := 0x61\<rparr>))"
  by (rule one_atom) (simp_all add: p_atom_def p_byte_atom_def ast_make_def ast_new_def re_start_def re_adv_def one_node_def base_ast_def RE_MAX_AST_def)

lemma one_dollar: "p_alt 0 (re_start [0x24]) = Some (Some 0, one_node 0x24 ((base_ast A_ASSERT)\<lparr>ra_a := RE_AS_EOL\<rparr>))"
  by (rule one_atom) (simp_all add: p_atom_def p_assert_atom_def ast_make_def ast_new_def re_start_def re_adv_def one_node_def base_ast_def RE_MAX_AST_def)

lemma one_finish: "ra_kind n \<in> {A_BYTE, A_ASSERT} \<Longrightarrow> re_finish 0 (one_node b n) \<noteq> None"
  by (auto simp: re_finish_def c_node.simps [of 0] c_body_def c_leaf_def emit_inst_def connect_def one_node_def re_start_def RE_MAX_INST_def)

theorem search_meaning_witness:
  "yep_re_search [0x61] [0x62, 0x61] = Some 1 \<and> yep_re_search [0x61] [0x62] = Some 0"
proof -
  let ?c = "one_node 0x61 ((base_ast A_BYTE)\<lparr>ra_a := 0x61\<rparr>)"
  have ast: "rc_ast ?c = [(base_ast A_BYTE)\<lparr>ra_a := 0x61\<rparr>]" "rc_pi ?c = 1" by (simp_all add: one_node_def)
  obtain r where r: "tree (rc_ast ?c) 0 r" and s: "\<And>s. yep_re_search [0x61] s = Some (if re_finish 0 ?c = None then - 1
      else if \<exists>q q'. (q = 0 \<or> q < length s) \<and> re_sem (prog_of None ?c) s r q q' then 1 else 0)"
    using search_meaning [OF _ _ one_byte] ast(2) by (auto simp: RE_MAX_PAT_def)
  have rb: "r = R_Byte 0x61" using r by cases (simp_all add: one_node_def base_ast_def)
  have f: "re_finish 0 ?c \<noteq> None" by (rule one_finish) (simp add: base_ast_def)
  have "(1 = 0 \<or> 1 < length [0x62, 0x61 :: byte]) \<and> re_sem (prog_of None ?c) [0x62, 0x61] r 1 2" by (simp add: rb)
  then have "yep_re_search [0x61] [0x62, 0x61] = Some 1" unfolding s using f by (auto simp del: re_sem.simps)
  moreover have "yep_re_search [0x61] [0x62] = Some 0" unfolding s rb using f by auto
  ultimately show ?thesis ..
qed

lemma byte_built: "\<exists>entry c. re_build [0x61] = Some (Some (entry, c))"
proof -
  let ?c = "one_node 0x61 ((base_ast A_BYTE)\<lparr>ra_a := 0x61\<rparr>)"
  have "re_build [0x61] = Some (re_finish 0 ?c)" using one_byte by (simp add: re_build_def) (simp add: one_node_def re_start_def)
  moreover have "re_finish 0 ?c \<noteq> None" by (rule one_finish) (simp add: base_ast_def)
  ultimately show ?thesis by auto
qed

theorem cache_search_agrees_witness:
  "\<exists>p. yep_re_cache_add (\<lambda>n. True) [0x61] [] = Some (1, [([0x61], p)]) \<and>
     yep_re_cache_search (Some [([0x61], p)]) [0x61] [0x62] = yep_re_search [0x61] [0x62]"
proof -
  obtain entry c where b: "re_build [0x61] = Some (Some (entry, c))" using byte_built by blast
  then have a: "yep_re_cache_add (\<lambda>n. True) [0x61] [] = Some (1, [([0x61], prog_of entry c)])"
    by (simp add: yep_re_cache_add_def re_compile_def RE_CACHE_MAX_def RE_MAX_PAT_def)
  from cache_search_agrees [OF cache_made.add [OF cache_made.init this], of "[0x61]" "[0x62]"] a show ?thesis by blast
qed

text \<open>
  The search does not start a run at the end of the subject: the pattern of a lone dollar sign, which matches at the end of
  every string, finds a match in the empty string only.
\<close>

lemma dollar_needs_empty: "yep_re_search [0x24] s = Some (if s = [] then 1 else 0)"
proof -
  let ?n = "(base_ast A_ASSERT)\<lparr>ra_a := RE_AS_EOL\<rparr>"
  let ?c = "one_node 0x24 ?n"
  have tr: "tree (rc_ast ?c) 0 (R_Assert RE_AS_EOL)" using tree.assert [of 0 "rc_ast ?c"] by (simp add: one_node_def base_ast_def)
  have b: "re_build [0x24] = Some (re_finish 0 ?c)"
    using one_dollar by (simp add: re_build_def) (simp add: one_node_def re_start_def)
  have "re_finish 0 ?c \<noteq> None" by (rule one_finish) (simp add: base_ast_def)
  then obtain entry c' where f: "re_finish 0 ?c = Some (entry, c')" by auto
  have "rc_inst ?c = []" by (simp add: one_node_def re_start_def)
  from finish_search [OF tr this f, of s] show ?thesis using b f
    by (auto simp: yep_re_search_def RE_MAX_PAT_def assert_ok_def RE_AS_BOL_def RE_AS_EOL_def)
qed

end
