(* ===== verification/Spec2Isabelle.thy ===== *)
theory Spec2Isabelle
  imports Transcode_Facts Nametab_Facts Tags_Facts Memory_Facts Byte_Classes Stage1_Facts Json_Facts
    Scan_Facts Scalar_Facts Writer_Facts Emit_Facts Reader_Facts Restore_Facts Regexp_Facts
begin

text \<open>
  Verification of the core of yeptris, a YAML and JSON library in C (\<^verbatim>\<open>src/yeptris\<close>).

  The program. A document enters through the encoding front end (\<^verbatim>\<open>encoding/\<close>: byte-order
  marks, UTF-16/32 transcoding, UTF-8 validation). The scanner (\<^verbatim>\<open>scan/\<close>) finds lines, spans and
  JSON tokens over text kernels that work on eight bytes at a time (\<^verbatim>\<open>common/simd_text\<close>) and over
  one table of byte classes (\<^verbatim>\<open>common/chartype\<close>). The parser finishes raw spans into scalar contents
  (\<^verbatim>\<open>parse/scalars.c\<close>) in pool memory (\<^verbatim>\<open>memory/\<close>), resolves plain scalars by schema (\<^verbatim>\<open>resolve/\<close>) and
  decodes tagged values, and interns names in a hash table (\<^verbatim>\<open>common/nametab.c\<close>). The scalar readers of
  the engine (\<^verbatim>\<open>parse/engine.c\<close>) find quoted, block and plain scalars and call the finishers; the
  emitter (\<^verbatim>\<open>emit/writer.c\<close>) writes scalars in those forms. Beside this path stands the matcher behind the
  \<^verbatim>\<open>pattern\<close> keyword of the schema validator (\<^verbatim>\<open>validate/regexp.c\<close>), a regular-expression engine of its own. The development models these layers, from
  the bottom up, and states what each promises to the next.

  Conventions. A byte is an 8-bit word, a buffer a byte list with an offset or the suffix that
  starts at the cursor. \<^verbatim>\<open>uint32_t\<close>, \<^verbatim>\<open>uint64_t\<close> and the word arithmetic of the kernels are
  \<open>32 word\<close> and \<open>64 word\<close>, with the wrap-around of C; a \<^verbatim>\<open>size_t\<close> index into a buffer is a
  natural number. NULL and the failure codes are \<open>None\<close>, \<open>Inl\<close> or a value of an error
  datatype. Allocation is an argument: a function that grants or refuses a request. Loops are
  recursive functions with a proved measure, except six whose progress depends on the state
  (\<open>wr_chunks\<close>, \<open>block_loop\<close>, \<open>plain_lines\<close>, \<open>seq_loop\<close>, \<open>alt_loop\<close>, \<open>closure_loop\<close>): these are
  \<open>partial_function\<close>s with \<open>None\<close> for not returning. For all but \<open>plain_lines\<close> it is proved that they return.

  The theories.
  \<^item> \<open>Prelude\<close>: types, bit and list lemmas shared by all.
  \<^item> \<open>Encoding\<close> (\<^verbatim>\<open>encoding/bom.c\<close>, \<^verbatim>\<open>transcode.c\<close>, \<^verbatim>\<open>utf8_validate.c\<close>), \<open>Utf8_Facts\<close>,
    \<open>Transcode_Facts\<close>: validation accepts exactly the encodings of scalar values, the chunk gate
    changes nothing (locale \<open>gate_kernel\<close>), transcoding is exact, fits its buffer and
    yields valid UTF-8.
  \<^item> \<open>View\<close> (\<^verbatim>\<open>common/string_view\<close>), \<open>Nametab\<close> (\<^verbatim>\<open>common/nametab.c\<close>), \<open>Nametab_Table\<close>,
    \<open>Nametab_Facts\<close>: open addressing with stored hashes and key prefixes refines a finite map;
    the probe ends; growth recomputes the hash of short keys from their prefix word, which
    loses keys of some lengths, and the theorems say of which.
  \<^item> \<open>Resolve\<close>, \<open>Lang\<close>, \<open>Compat11\<close> (\<^verbatim>\<open>resolve/core12.c\<close>, \<^verbatim>\<open>json12.c\<close>, \<^verbatim>\<open>full12.c\<close>, \<^verbatim>\<open>compat11.c\<close>),
    \<open>Resolve_Facts\<close>: the hand-written recognisers against the languages of the schemas.
  \<^item> \<open>Tags\<close> (\<^verbatim>\<open>resolve/tags.c\<close>), \<open>Tags_Facts\<close>: tag resolution and the integer and bool decoders.
  \<^item> \<open>Memory\<close> (\<^verbatim>\<open>memory/pool.c\<close>, \<^verbatim>\<open>arena.c\<close>, \<^verbatim>\<open>dom/hpool.c\<close>), \<open>Memory_Facts\<close>: blocks granted are
    aligned, inside their block, disjoint from all earlier ones, and all freed once.
  \<^item> \<open>Word_Lanes\<close>: words as lists of lanes. \<open>Kernels\<close> (\<^verbatim>\<open>common/simd_text_scalar.c\<close>,
    \<^verbatim>\<open>simd_text.h\<close>), \<open>Line_Facts\<close>: the walk over a line eight bytes at a time is the walk byte by byte.
  \<^item> \<open>Byte_Classes\<close> (\<^verbatim>\<open>common/chartype\<close>): the class table and the printability pre-scan.
  \<^item> \<open>Stage1\<close> (\<^verbatim>\<open>scan/json.c\<close>, the structural indexer), \<open>Stage1_Facts\<close>: quotes, backslash runs and
    string regions over 64-byte blocks, carried from block to block.
  \<^item> \<open>Json_Number\<close>, \<open>Json\<close> (\<^verbatim>\<open>scan/json.c\<close>, the grammar), \<open>Json_Number_Facts\<close>, \<open>Json_Machine\<close>,
    \<open>Json_Facts\<close>: numbers, strings, the validator and the walker against the
    strict grammar, which is RFC 8259 with surrogate escapes in high-low pairs.
  \<^item> \<open>Scan\<close> (\<^verbatim>\<open>scan/scan.c\<close>), \<open>Scan_Facts\<close>: spans of plain scalars, the line-shape classifier, and the
    plain-safety test, whose accepted texts scan back whole.
  \<^item> \<open>Scalars\<close> (\<^verbatim>\<open>parse/scalars.c\<close>), \<open>Scalar_Facts\<close>: escapes, folding and block scalars in growing or
    fixed buffers; JSON strings decode in place.
  \<^item> \<open>Writer\<close> (\<^verbatim>\<open>emit/writer.[ch]\<close>, \<^verbatim>\<open>emit/style.c\<close>): the write primitives with their four routes (counting,
    growing, a caller's buffer, a window flushed to a sink), the scalar forms (plain, single and
    double quotes, JSON strings, literal blocks, folding at the width) and the choice of the form.
    \<open>Writer_Facts\<close>: locale \<open>writer_route\<close> states what a route promises and is interpreted on the
    counting, growing and window routes, which therefore agree; the caller's buffer is overrun.
    \<open>Emit_Facts\<close>: the bytes of each form, in the terms of the scanner and the finishers.
  \<^item> \<open>Readers\<close> (\<^verbatim>\<open>parse/engine.c\<close>: the cursor helpers from \<^verbatim>\<open>e_col\<close> to \<^verbatim>\<open>e_colon_at\<close>, \<^verbatim>\<open>e_quoted_floor\<close>,
    \<^verbatim>\<open>e_block_scalar\<close>, \<^verbatim>\<open>e_plain_multiline\<close>): the readers over the part of the engine's state they
    use, pool and error slot included. \<open>Reader_Facts\<close>: the line memos stay coherent with the
    input, the block reader returns on every input and fails only with the errors it names.
    \<open>Restore_Facts\<close>: what the emitter writes the readers take back.
  \<^item> \<open>Regexp\<close> (\<^verbatim>\<open>validate/regexp.c\<close>, whole: tables, parser, compiler, machine, cache). \<open>Regexp_Machine\<close>: the machine
    that runs all threads over a ring of five slots returns and decides the runs of its program. \<open>Regexp_Compile\<close>:
    the meaning of an expression as a relation on positions, and that fragments with pending arrows
    realise it whatever they are joined to. \<open>Regexp_Parse\<close>: the parser returns with a well-formed tree (locale
    \<open>parse_loop\<close>, interpreted on its two loops). \<open>Regexp_Facts\<close>: a search returns and answers the meaning of
    the parsed expression, the cache changes no verdict, the named classes are what they name.

  Interaction. The JSON scanners and the plain scanner call the kernels and the byte classes; the
  output buffers of \<open>Scalars\<close> call the pool of \<open>Memory\<close>; the readers call scanner,
  kernels and finishers; C13, C20, C35 and C39 compose the emitter with the readers, C38 and C40 the
  plain test and the JSON scanner with what reads after them; C9 composes parser, compiler and machine
  of the matcher. Locales state the interfaces whose laws several
  operations share, and are interpreted on the model's own operations.

  Bounds. Offsets that the code stores in 32 bits are exact for buffers below \<open>2^32\<close> bytes, which is
  a hypothesis where it matters. No fuel is used.

  Not modelled. The parser engine's event machine (the frames, flow kernels, properties and
  directives of \<^verbatim>\<open>parse/engine.c\<close>), the DOM, tape and event front ends above it, the emitter's layout
  of nodes and its canonical form, the schema validator around the pattern matcher, and the
  CBOR and marshal codecs; the vector twins of the kernels (they are written in intrinsics);
  the float printing and parsing kernels, system calls and build-time tables. Where a modelled
  operation calls one of these, it is an argument of the definition.
\<close>

end
